(* ===== verification/Pintos_Prelude.thy ===== *)
theory Pintos_Prelude
  imports Main "HOL-Library.Word" "HOL-Library.Monad_Syntax"
begin

unbundle bit_operations_syntax

text \<open>
  Prelude of the Pintos development: the conventions every component shares.

  A kernel operation is a function into \<^typ>\<open>'a option\<close>, written in the option monad.
  \<^term>\<open>None\<close> is the end of the kernel: a failed \<^verbatim>\<open>ASSERT\<close>, a \<^verbatim>\<open>PANIC\<close>, a
  \<^verbatim>\<open>NOT_REACHED\<close>, or an access through a pointer or index outside the modelled object
  (\<^verbatim>\<open>src/linuxpintos/src/lib/debug.h\<close>).  State is passed explicitly: an operation
  that writes takes the state and returns the new one.  A C integer keeps its width: the
  machine is a 32-bit x86, so \<^verbatim>\<open>size_t\<close>, \<^verbatim>\<open>unsigned\<close>, \<^verbatim>\<open>uintptr_t\<close> and
  \<^verbatim>\<open>unsigned long\<close> are \<^typ>\<open>32 word\<close>.
\<close>

section \<open>Types and conventions\<close>

type_synonym u8 = "8 word"
type_synonym u16 = "16 word"
type_synonym u32 = "32 word"
type_synonym u64 = "64 word"
type_synonym size_t = "32 word"
type_synonym 'a kernel = "'a option"

definition ASSERT :: "bool \<Rightarrow> unit kernel" where
  "ASSERT c = (if c then Some () else None)"

abbreviation PANIC :: "'a kernel" where
  "PANIC \<equiv> None"

definition fetch :: "'a list \<Rightarrow> nat \<Rightarrow> 'a kernel" where
  "fetch xs i = (if i < length xs then Some (xs ! i) else None)"

definition store :: "'a list \<Rightarrow> nat \<Rightarrow> 'a \<Rightarrow> 'a list kernel" where
  "store xs i v = (if i < length xs then Some (xs[i := v]) else None)"

definition ROUND_UP :: "u32 \<Rightarrow> u32 \<Rightarrow> u32" where
  "ROUND_UP x step = (x + step - 1) div step * step"

definition DIV_ROUND_UP :: "u32 \<Rightarrow> u32 \<Rightarrow> u32" where
  "DIV_ROUND_UP x step = (x + step - 1) div step"

definition ROUND_DOWN :: "u32 \<Rightarrow> u32 \<Rightarrow> u32" where
  "ROUND_DOWN x step = x div step * step"

named_theorems kernel_simps \<open>evaluation of assertions, fetches and stores\<close>
named_theorems unat_simps \<open>reading word arithmetic as natural numbers\<close>

section \<open>The option monad of kernel operations\<close>

lemma ASSERT_eq [kernel_simps]: "(ASSERT c = Some x) = c"
  by (simp add: ASSERT_def)

lemma ASSERT_True [simp]: "ASSERT True = Some ()"
  by (simp add: ASSERT_def)

lemma ASSERT_False [simp]: "ASSERT False = None"
  by (simp add: ASSERT_def)

lemma ASSERT_bind [kernel_simps]: "(ASSERT c \<bind> f) = (if c then f () else None)"
  by (simp add: ASSERT_def)

lemma ASSERT_holds: "c \<Longrightarrow> ASSERT c = Some ()"
  by simp

lemma bind_Some_iff: "(m \<bind> f = Some y) = (\<exists>x. m = Some x \<and> f x = Some y)"
  by (cases m) auto

lemma bind_None_iff: "(m \<bind> f = None) = (\<forall>x. m = Some x \<longrightarrow> f x = None)"
  by (cases m) auto

lemma fetch_Some [kernel_simps]: "i < length xs \<Longrightarrow> fetch xs i = Some (xs ! i)"
  by (simp add: fetch_def)

lemma store_Some [kernel_simps]: "i < length xs \<Longrightarrow> store xs i v = Some (xs[i := v])"
  by (simp add: store_def)

lemma fetch_eq_Some_iff: "fetch xs i = Some x \<longleftrightarrow> i < length xs \<and> xs ! i = x"
  by (auto simp: fetch_def)

lemma store_eq_Some_iff: "store xs i v = Some ys \<longleftrightarrow> i < length xs \<and> ys = xs[i := v]"
  by (auto simp: store_def)

section \<open>Words read as natural numbers\<close>

lemma unat_Suc_le [unat_simps]:
  fixes i n :: "'a::len word"
  assumes "i < n"
  shows "unat (i + 1) = Suc (unat i)"
proof -
  have "1 + i \<noteq> 0"
    using assms by (metis add.commute eq_neg_iff_add_eq_0 word_order.extremum_strict)
  then show ?thesis
    by (simp add: unatSuc add.commute)
qed

lemma unat_add_small [unat_simps]:
  fixes a b :: "'a::len word"
  assumes "unat a + unat b < 2 ^ LENGTH('a)"
  shows "unat (a + b) = unat a + unat b"
  using assms by (simp add: unat_add_lem)

lemma unat_diff_small [unat_simps]:
  fixes a b :: "'a::len word"
  shows "b \<le> a \<Longrightarrow> unat (a - b) = unat a - unat b"
  by (simp add: unat_sub)

lemma unat_mult_small [unat_simps]:
  fixes a b :: "'a::len word"
  assumes "unat a * unat b < 2 ^ LENGTH('a)"
  shows "unat (a * b) = unat a * unat b"
  using assms by (simp add: unat_mult_lem)

lemma unat_of_nat_small [unat_simps]: "n < 2 ^ LENGTH('a) \<Longrightarrow> unat (of_nat n :: 'a::len word) = n"
  by (simp add: unat_of_nat)

lemma sint_of_nat_small: "n < 2 ^ 31 \<Longrightarrow> sint (of_nat n :: u32) = int n"
  by (simp add: signed_of_nat signed_take_bit_int_eq_self)

lemma uint_eq_sint:
  fixes x :: "'a::len word"
  assumes "0 \<le>s x"
  shows "uint x = sint x"
proof -
  have "sint x < 2 ^ (LENGTH('a) - 1)"
    by (rule sint_lt)
  also have "\<dots> \<le> (2 :: int) ^ LENGTH('a)"
    by (rule power_increasing) auto
  finally show ?thesis
    using assms by (simp add: uint_sint take_bit_int_eq_self word_sle_eq)
qed

lemma unat_bound32: "unat (x :: u32) < 4294967296"
  using unsigned_less [of x] by simp

lemma bit_bound32: "bit (x :: u32) n \<Longrightarrow> n < 32"
  using bit_imp_le_length [of x n] by simp

lemma unat_DIV_ROUND_UP:
  assumes "unat x + unat step \<le> 2 ^ 32" and "0 < unat step"
  shows "unat (DIV_ROUND_UP x step) = (unat x + unat step - 1) div unat step"
proof -
  have eq: "x + step - 1 = x + (step - 1)"
    by simp
  have s: "unat (step - 1) = unat step - 1"
    using assms(2) by (simp add: unat_gt_0 unat_minus_one)
  have "unat (x + (step - 1)) = unat x + (unat step - 1)"
    using assms by (subst unat_add_small) (auto simp: s)
  then show ?thesis
    using assms(2) by (simp add: DIV_ROUND_UP_def eq unat_div s)
qed

section \<open>Ranges and lists\<close>

lemma ex_range_split:
  "a < c \<Longrightarrow> (\<exists>j. a \<le> j \<and> j < c \<and> P j) = (P a \<or> (\<exists>j. Suc a \<le> j \<and> j < (c :: nat) \<and> P j))"
  by (metis Suc_leD Suc_leI le_neq_implies_less order_refl)

lemma all_range_shift:
  "(\<forall>j < n. P (k + j)) \<longleftrightarrow> (\<forall>j. k \<le> j \<and> j < k + n \<longrightarrow> P (j :: nat))"
  by (metis add_less_cancel_left le_add1 le_add_diff_inverse)

lemma find_append: "find P (xs @ ys) = (case find P xs of None \<Rightarrow> find P ys | Some x \<Rightarrow> Some x)"
  by (induction xs) auto

lemma find_map_Suc: "find P (map Suc xs) = map_option Suc (find (\<lambda>i. P (Suc i)) xs)"
  by (induction xs) auto

lemma replace_range_nth:
  assumes "s + n \<le> length xs" and "i < length xs"
  shows "(take s xs @ replicate n v @ drop (s + n) xs) ! i
           = (if s \<le> i \<and> i < s + n then v else xs ! i)"
  using assms by (auto simp: nth_append min_def)

lemma replace_range_length [simp]:
  "s + n \<le> length xs \<Longrightarrow> length (take s xs @ replicate n v @ drop (s + n) xs) = length xs"
  by simp

section \<open>Overwriting a part of a list\<close>

definition overwrite :: "'a list \<Rightarrow> nat \<Rightarrow> 'a list \<Rightarrow> 'a list" where
  "overwrite xs p ys = take p xs @ ys @ drop (p + length ys) xs"

lemma overwrite_append:
  "p + length ys \<le> length xs \<Longrightarrow> overwrite (overwrite xs p ys) (p + length ys) zs = overwrite xs p (ys @ zs)"
  by (simp add: overwrite_def drop_drop ac_simps)

lemma overwrite_length [simp]: "p + length ys \<le> length xs \<Longrightarrow> length (overwrite xs p ys) = length xs"
  by (simp add: overwrite_def)

lemma overwrite_read: "p + length ys \<le> length xs \<Longrightarrow> take (length ys) (drop p (overwrite xs p ys)) = ys"
  by (simp add: overwrite_def)

lemma overwrite_take:
  assumes "p + length ys \<le> m" "m \<le> length xs"
  shows "take m (overwrite xs p ys) = overwrite (take m xs) p ys"
proof -
  obtain k where "m = p + length ys + k"
    using assms(1) le_Suc_ex by blast
  then show ?thesis
    using assms(2) by (cases ys) (auto simp: take_add overwrite_def drop_take min_def)
qed

lemma overwrite_Nil [simp]: "overwrite xs p [] = xs"
  by (simp add: overwrite_def)

lemma overwrite_nth:
  "p + length ys \<le> length xs \<Longrightarrow> i < length xs \<Longrightarrow>
    overwrite xs p ys ! i = (if p \<le> i \<and> i < p + length ys then ys ! (i - p) else xs ! i)"
  by (auto simp: overwrite_def nth_append min_def)

lemma overwrite_Cons: "p < length xs \<Longrightarrow> overwrite xs p (y # ys) = overwrite (xs[p := y]) (Suc p) ys"
  by (simp add: overwrite_def upd_conv_take_nth_drop take_Suc_conv_app_nth add.commute)

lemma overwrite_snoc:
  "p + length ys < length xs \<Longrightarrow> overwrite (xs[p + length ys := v]) p ys = overwrite xs p (ys @ [v])"
  by (simp add: overwrite_def upd_conv_take_nth_drop)

end
