(* ===== verification/Allocator.thy ===== *)
theory Allocator
  imports Main
begin

text \<open>
  The contract shared by the allocators that hand out ranges of numbered slots: sectors of
  the file system disk (\<^verbatim>\<open>filesys/free-map.c\<close>), pages of a memory pool
  (\<^verbatim>\<open>threads/palloc.c\<close>) and, underneath both, groups of bits of a bitmap
  (\<^verbatim>\<open>lib/kernel/bitmap.c\<close>).  A request either panics (\<^term>\<open>None\<close>), is refused (no slot is
  returned and the state is unchanged) or gets the first slot of a range.  A client may issue any
  sequence of requests; the lemma of the locale says that no request and no release of any sequence
  panics and that the ranges a client holds never overlap.
\<close>

section \<open>Clients: sequences of requests\<close>

datatype 'r alloc_op = Acquire 'r | Release nat nat

fun slots :: "nat \<times> nat \<Rightarrow> nat set" where
  "slots (i, n) = {i..<i + n}"

fun disjoint_slots :: "(nat \<times> nat) list \<Rightarrow> bool" where
  "disjoint_slots [] = True"
| "disjoint_slots (r # rs) = ((\<forall>q \<in> set rs. slots r \<inter> slots q = {}) \<and> disjoint_slots rs)"

text \<open>The run of a client stops at the first operation that panics.\<close>

fun alloc_run :: "('r \<Rightarrow> nat) \<Rightarrow> ('s \<Rightarrow> 'r \<Rightarrow> (nat option \<times> 's) option) \<Rightarrow> ('s \<Rightarrow> nat \<Rightarrow> nat \<Rightarrow> 's option) \<Rightarrow>
    'r alloc_op list \<Rightarrow> 's \<Rightarrow> (nat \<times> nat) list \<Rightarrow> ('s \<times> (nat \<times> nat) list) option" where
  "alloc_run sz acquire release [] s live = Some (s, live)"
| "alloc_run sz acquire release (Acquire r # ops) s live =
     (case acquire s r of
        None \<Rightarrow> None
      | Some (None, s') \<Rightarrow> alloc_run sz acquire release ops s' live
      | Some (Some i, s') \<Rightarrow> alloc_run sz acquire release ops s' ((i, sz r) # live))"
| "alloc_run sz acquire release (Release i n # ops) s live =
     (if (i, n) \<in> set live
      then (case release s i n of
              None \<Rightarrow> None
            | Some s' \<Rightarrow> alloc_run sz acquire release ops s' (remove1 (i, n) live))
      else alloc_run sz acquire release ops s live)"

lemma disjoint_slots_remove1: "disjoint_slots rs \<Longrightarrow> disjoint_slots (remove1 r rs)"
  by (induction rs) (auto dest: notin_set_remove1)

lemma disjoint_slots_removed:
  "disjoint_slots rs \<Longrightarrow> r \<in> set rs \<Longrightarrow> q \<in> set (remove1 r rs) \<Longrightarrow> slots q \<inter> slots r = {}"
  by (induction rs) (auto split: if_splits)

section \<open>The contract\<close>

locale slot_allocator =
  fixes sz :: "'r \<Rightarrow> nat"
    and acquire :: "'s \<Rightarrow> 'r \<Rightarrow> (nat option \<times> 's) option"
    and release :: "'s \<Rightarrow> nat \<Rightarrow> nat \<Rightarrow> 's option"
    and invar :: "'s \<Rightarrow> bool"
    and used :: "'s \<Rightarrow> nat set"
    and inside :: "'s \<Rightarrow> nat \<Rightarrow> nat \<Rightarrow> bool"
  assumes acquire_no_panic: "invar s \<Longrightarrow> acquire s r \<noteq> None"
    and acquire_refused: "invar s \<Longrightarrow> acquire s r = Some (None, s') \<Longrightarrow> s' = s"
    and acquire_fresh: "invar s \<Longrightarrow> acquire s r = Some (Some i, s') \<Longrightarrow>
      invar s' \<and> inside s' = inside s \<and> inside s i (sz r) \<and>
      slots (i, sz r) \<inter> used s = {} \<and> used s' = used s \<union> slots (i, sz r)"
    and release_used: "invar s \<Longrightarrow> inside s i n \<Longrightarrow> slots (i, n) \<subseteq> used s \<Longrightarrow>
      \<exists>s'. release s i n = Some s' \<and> invar s' \<and> inside s' = inside s \<and> used s' = used s - slots (i, n)"
begin

definition holds :: "'s \<Rightarrow> (nat \<times> nat) list \<Rightarrow> bool" where
  "holds s live \<longleftrightarrow> invar s \<and> disjoint_slots live \<and>
     (\<forall>(i, n) \<in> set live. inside s i n \<and> slots (i, n) \<subseteq> used s)"

lemma holds_acquire: "holds s live \<Longrightarrow> acquire s r = Some (Some i, s') \<Longrightarrow> holds s' ((i, sz r) # live)"
  using acquire_fresh [of s r i s'] by (fastforce simp: holds_def simp del: slots.simps)

lemma holds_release:
  assumes "holds s live" and mem: "(i, n) \<in> set live"
  obtains s' where "release s i n = Some s'" and "holds s' (remove1 (i, n) live)"
proof -
  have h: "invar s" "disjoint_slots live" "inside s i n" "slots (i, n) \<subseteq> used s"
    using assms by (auto simp: holds_def simp del: slots.simps)
  then obtain s' where s': "release s i n = Some s'" "invar s'" "inside s' = inside s"
    "used s' = used s - slots (i, n)"
    using release_used by blast
  have "inside s' j m \<and> slots (j, m) \<subseteq> used s'" if jm: "(j, m) \<in> set (remove1 (i, n) live)" for j m
  proof -
    have "(j, m) \<in> set live"
      using jm by (meson notin_set_remove1)
    moreover have "slots (j, m) \<inter> slots (i, n) = {}"
      using disjoint_slots_removed [OF h(2) mem jm] .
    ultimately show ?thesis
      using assms(1) s' by (auto simp: holds_def simp del: slots.simps)
  qed
  then have "holds s' (remove1 (i, n) live)"
    using s'(2) h(2) by (auto simp: holds_def disjoint_slots_remove1 simp del: slots.simps)
  with s'(1) show ?thesis
    by (rule that)
qed

lemma client_run:
  "holds s live \<Longrightarrow>
     \<exists>s' live'. alloc_run sz acquire release ops s live = Some (s', live') \<and> holds s' live'"
proof (induction ops arbitrary: s live)
  case (Cons op ops)
  show ?case
  proof (cases op)
    case (Acquire n)
    moreover obtain res s' where a: "acquire s n = Some (res, s')"
      using acquire_no_panic [of s n] Cons.prems by (auto simp: holds_def)
    moreover have "holds s' (case res of None \<Rightarrow> live | Some i \<Rightarrow> (i, sz n) # live)"
      using Cons.prems a acquire_refused [of s n s'] holds_acquire [OF Cons.prems, of n _ s']
      by (auto simp: holds_def split: option.split)
    ultimately show ?thesis
      using Cons.IH by (auto split: option.splits)
  next
    case (Release i n)
    then show ?thesis
      using Cons by (cases "(i, n) \<in> set live") (auto elim: holds_release [OF Cons.prems])
  qed
qed simp

end

text \<open>An allocator over one arena refuses a request only when no free range of the requested length is left.\<close>

locale range_allocator = slot_allocator "\<lambda>n. n" acquire release invar used "\<lambda>s i n. i + n \<le> capacity s"
  for acquire :: "'s \<Rightarrow> nat \<Rightarrow> (nat option \<times> 's) option" and release invar used
  and capacity :: "'s \<Rightarrow> nat" +
  assumes acquire_complete: "invar s \<Longrightarrow> acquire s n = Some (None, s') \<Longrightarrow> i + n \<le> capacity s \<Longrightarrow>
      slots (i, n) \<inter> used s \<noteq> {}"
begin

lemma acquire_whole:
  assumes "invar s" and "used s = {}" and "n \<le> capacity s"
  shows "\<exists>i s'. acquire s n = Some (Some i, s')"
proof -
  obtain res s' where a: "acquire s n = Some (res, s')"
    using acquire_no_panic [OF assms(1), of n] by auto
  then show ?thesis
    using acquire_complete [OF assms(1), of n s' 0] assms(2,3) by (cases res) auto
qed

end

end
