(* ===== verification/Bitmap.thy ===== *)
theory Bitmap
  imports Pintos_Prelude Allocator
begin

unbundle bit_operations_syntax

text \<open>
  \<^verbatim>\<open>lib/kernel/bitmap.c\<close>: a bitmap as an array of 32-bit elements.  The definitions
  translate every operation of the file at the level of elements and masks, with
  \<^verbatim>\<open>size_t\<close> arithmetic that wraps; the lemmas relate them to the list of booleans
  the bitmap stands for (\<open>bm_abs\<close>).  The two \<^verbatim>\<open>malloc\<close> calls of
  \<^verbatim>\<open>bitmap_create\<close> are arguments: whether the first one succeeds, and the (arbitrary)
  contents of the storage the second one returns, if it does.
\<close>

section \<open>Operations\<close>

record bitmap =
  bit_cnt :: size_t
  bits :: "u32 list"

definition ELEM_BITS :: size_t where
  "ELEM_BITS = 4 * 8"

definition BITMAP_ERROR :: size_t where
  "BITMAP_ERROR = - 1"

definition elem_idx :: "size_t \<Rightarrow> size_t" where
  "elem_idx bit_idx = bit_idx div ELEM_BITS"

definition bit_mask :: "size_t \<Rightarrow> u32" where
  "bit_mask bit_idx = push_bit (unat (bit_idx mod ELEM_BITS)) 1"

definition elem_cnt :: "size_t \<Rightarrow> size_t" where
  "elem_cnt n = DIV_ROUND_UP n ELEM_BITS"

definition byte_cnt :: "size_t \<Rightarrow> size_t" where
  "byte_cnt n = 4 * elem_cnt n"

definition last_mask :: "bitmap \<Rightarrow> u32" where
  "last_mask b = (let last_bits = bit_cnt b mod ELEM_BITS
                  in if last_bits \<noteq> 0 then push_bit (unat last_bits) 1 - 1 else - 1)"

definition bitmap_size :: "bitmap \<Rightarrow> size_t" where
  "bitmap_size b = bit_cnt b"

definition bitmap_mark :: "bitmap \<Rightarrow> size_t \<Rightarrow> bitmap kernel" where
  "bitmap_mark b bit_idx = do {
     let idx = unat (elem_idx bit_idx);
     e \<leftarrow> fetch (bits b) idx;
     es \<leftarrow> store (bits b) idx (e OR bit_mask bit_idx);
     Some (b\<lparr>bits := es\<rparr>)
   }"

definition bitmap_reset :: "bitmap \<Rightarrow> size_t \<Rightarrow> bitmap kernel" where
  "bitmap_reset b bit_idx = do {
     let idx = unat (elem_idx bit_idx);
     e \<leftarrow> fetch (bits b) idx;
     es \<leftarrow> store (bits b) idx (e AND NOT (bit_mask bit_idx));
     Some (b\<lparr>bits := es\<rparr>)
   }"

definition bitmap_flip :: "bitmap \<Rightarrow> size_t \<Rightarrow> bitmap kernel" where
  "bitmap_flip b bit_idx = do {
     let idx = unat (elem_idx bit_idx);
     e \<leftarrow> fetch (bits b) idx;
     es \<leftarrow> store (bits b) idx (e XOR bit_mask bit_idx);
     Some (b\<lparr>bits := es\<rparr>)
   }"

definition bitmap_set :: "bitmap \<Rightarrow> size_t \<Rightarrow> bool \<Rightarrow> bitmap kernel" where
  "bitmap_set b idx value = do {
     ASSERT (idx < bit_cnt b);
     if value then bitmap_mark b idx else bitmap_reset b idx
   }"

definition bitmap_test :: "bitmap \<Rightarrow> size_t \<Rightarrow> bool kernel" where
  "bitmap_test b idx = do {
     ASSERT (idx < bit_cnt b);
     e \<leftarrow> fetch (bits b) (unat (elem_idx idx));
     Some (e AND bit_mask idx \<noteq> 0)
   }"

function set_loop :: "bitmap \<Rightarrow> size_t \<Rightarrow> size_t \<Rightarrow> bool \<Rightarrow> size_t \<Rightarrow> bitmap kernel" where
  "set_loop b start cnt value i =
     (if i < cnt then do {
        b' \<leftarrow> bitmap_set b (start + i) value;
        set_loop b' start cnt value (i + 1)
      } else Some b)"
  by pat_completeness auto
termination
  by (relation "measure (\<lambda>(b, start, cnt, value, i). unat cnt - unat i)")
    (auto simp: unat_simps word_less_nat_alt)

definition bitmap_set_multiple :: "bitmap \<Rightarrow> size_t \<Rightarrow> size_t \<Rightarrow> bool \<Rightarrow> bitmap kernel" where
  "bitmap_set_multiple b start cnt value = do {
     ASSERT (start \<le> bit_cnt b);
     ASSERT (start + cnt \<le> bit_cnt b);
     set_loop b start cnt value 0
   }"

definition bitmap_set_all :: "bitmap \<Rightarrow> bool \<Rightarrow> bitmap kernel" where
  "bitmap_set_all b value = bitmap_set_multiple b 0 (bitmap_size b) value"

definition bitmap_create :: "bool \<Rightarrow> u32 list option \<Rightarrow> size_t \<Rightarrow> bitmap option kernel" where
  "bitmap_create malloc_b malloc_bits n =
     (if malloc_b
      then if malloc_bits \<noteq> None \<or> n = 0
           then map_option Some
             (bitmap_set_all \<lparr>bit_cnt = n, bits = (case malloc_bits of None \<Rightarrow> [] | Some es \<Rightarrow> es)\<rparr> False)
           else Some None
      else Some None)"

definition SIZEOF_BITMAP :: size_t where
  "SIZEOF_BITMAP = 8"

definition bitmap_buf_size :: "size_t \<Rightarrow> size_t" where
  "bitmap_buf_size n = SIZEOF_BITMAP + byte_cnt n"

definition bitmap_create_in_buf :: "size_t \<Rightarrow> u32 list \<Rightarrow> size_t \<Rightarrow> bitmap kernel" where
  "bitmap_create_in_buf n block block_size = do {
     ASSERT (bitmap_buf_size n \<le> block_size);
     bitmap_set_all \<lparr>bit_cnt = n, bits = block\<rparr> False
   }"

function count_loop :: "bitmap \<Rightarrow> size_t \<Rightarrow> size_t \<Rightarrow> bool \<Rightarrow> size_t \<Rightarrow> size_t \<Rightarrow> size_t kernel" where
  "count_loop b start cnt value i value_cnt =
     (if i < cnt then do {
        t \<leftarrow> bitmap_test b (start + i);
        count_loop b start cnt value (i + 1) (if t = value then value_cnt + 1 else value_cnt)
      } else Some value_cnt)"
  by pat_completeness auto
termination
  by (relation "measure (\<lambda>(b, start, cnt, value, i, value_cnt). unat cnt - unat i)")
    (auto simp: unat_simps word_less_nat_alt)

definition bitmap_count :: "bitmap \<Rightarrow> size_t \<Rightarrow> size_t \<Rightarrow> bool \<Rightarrow> size_t kernel" where
  "bitmap_count b start cnt value = do {
     ASSERT (start \<le> bit_cnt b);
     ASSERT (start + cnt \<le> bit_cnt b);
     count_loop b start cnt value 0 0
   }"

function contains_loop :: "bitmap \<Rightarrow> size_t \<Rightarrow> size_t \<Rightarrow> bool \<Rightarrow> size_t \<Rightarrow> bool kernel" where
  "contains_loop b start cnt value i =
     (if i < cnt then do {
        t \<leftarrow> bitmap_test b (start + i);
        if t = value then Some True else contains_loop b start cnt value (i + 1)
      } else Some False)"
  by pat_completeness auto
termination
  by (relation "measure (\<lambda>(b, start, cnt, value, i). unat cnt - unat i)")
    (auto simp: unat_simps word_less_nat_alt)

definition bitmap_contains :: "bitmap \<Rightarrow> size_t \<Rightarrow> size_t \<Rightarrow> bool \<Rightarrow> bool kernel" where
  "bitmap_contains b start cnt value = do {
     ASSERT (start \<le> bit_cnt b);
     ASSERT (start + cnt \<le> bit_cnt b);
     contains_loop b start cnt value 0
   }"

definition bitmap_any :: "bitmap \<Rightarrow> size_t \<Rightarrow> size_t \<Rightarrow> bool kernel" where
  "bitmap_any b start cnt = bitmap_contains b start cnt True"

definition bitmap_none :: "bitmap \<Rightarrow> size_t \<Rightarrow> size_t \<Rightarrow> bool kernel" where
  "bitmap_none b start cnt = map_option Not (bitmap_contains b start cnt True)"

definition bitmap_all :: "bitmap \<Rightarrow> size_t \<Rightarrow> size_t \<Rightarrow> bool kernel" where
  "bitmap_all b start cnt = map_option Not (bitmap_contains b start cnt False)"

partial_function (option) scan_loop ::
    "bitmap \<Rightarrow> size_t \<Rightarrow> bool \<Rightarrow> size_t \<Rightarrow> size_t \<Rightarrow> size_t kernel" where
  "scan_loop b cnt value last_idx i =
     (if i \<le> last_idx then do {
        c \<leftarrow> bitmap_contains b i cnt (\<not> value);
        if \<not> c then Some i else scan_loop b cnt value last_idx (i + 1)
      } else Some BITMAP_ERROR)"

definition bitmap_scan :: "bitmap \<Rightarrow> size_t \<Rightarrow> size_t \<Rightarrow> bool \<Rightarrow> size_t kernel" where
  "bitmap_scan b start cnt value = do {
     ASSERT (start \<le> bit_cnt b);
     if cnt \<le> bit_cnt b then scan_loop b cnt value (bit_cnt b - cnt) start
     else Some BITMAP_ERROR
   }"

definition bitmap_scan_and_flip ::
    "bitmap \<Rightarrow> size_t \<Rightarrow> size_t \<Rightarrow> bool \<Rightarrow> (size_t \<times> bitmap) kernel" where
  "bitmap_scan_and_flip b start cnt value = do {
     idx \<leftarrow> bitmap_scan b start cnt value;
     b' \<leftarrow> (if idx \<noteq> BITMAP_ERROR then bitmap_set_multiple b idx cnt (\<not> value) else Some b);
     Some (idx, b')
   }"

definition bitmap_file_size :: "bitmap \<Rightarrow> size_t" where
  "bitmap_file_size b = byte_cnt (bit_cnt b)"

section \<open>The list of booleans a bitmap stands for\<close>

definition bm_bit :: "bitmap \<Rightarrow> nat \<Rightarrow> bool" where
  "bm_bit b i = bit (bits b ! (i div 32)) (i mod 32)"

definition bm_abs :: "bitmap \<Rightarrow> bool list" where
  "bm_abs b = map (bm_bit b) [0..<unat (bit_cnt b)]"

definition bm_wf :: "bitmap \<Rightarrow> bool" where
  "bm_wf b \<longleftrightarrow> length (bits b) = (unat (bit_cnt b) + 31) div 32"

declare scan_loop.simps [code]

declare set_loop.simps [simp del] count_loop.simps [simp del] contains_loop.simps [simp del]

section \<open>Elements and masks\<close>

lemma unat_ELEM_BITS [simp]: "unat ELEM_BITS = 32"
  by (simp add: ELEM_BITS_def)

lemma unat_elem_idx [simp]: "unat (elem_idx i) = unat i div 32"
  by (simp add: elem_idx_def unat_div)

lemma bit_bit_mask: "bit (bit_mask i) k \<longleftrightarrow> k = unat i mod 32"
  by (auto simp: bit_mask_def bit_exp_iff unat_mod)

lemma AND_bit_mask: "e AND bit_mask i \<noteq> 0 \<longleftrightarrow> bit e (unat i mod 32)"
proof -
  have "e AND bit_mask i = 0 \<longleftrightarrow> (\<forall>k. bit e k \<longrightarrow> \<not> bit (bit_mask i) k)"
    by (simp add: bit_eq_iff [of "e AND bit_mask i"] bit_and_iff) (metis bit_bound32)
  then show ?thesis
    by (auto simp: bit_bit_mask)
qed

lemma bm_wf_index: "bm_wf b \<Longrightarrow> i < unat (bit_cnt b) \<Longrightarrow> i div 32 < length (bits b)"
  unfolding bm_wf_def by linarith

lemma bm_abs_length [simp]: "length (bm_abs b) = unat (bit_cnt b)"
  by (simp add: bm_abs_def)

lemma bm_abs_nth [simp]: "i < unat (bit_cnt b) \<Longrightarrow> bm_abs b ! i = bm_bit b i"
  by (simp add: bm_abs_def)

lemma bm_update_abs:
  assumes len: "length es = length (bits b)"
    and bit: "\<And>j. j < unat (bit_cnt b) \<Longrightarrow> bit (es ! (j div 32)) (j mod 32) = (if j = i then v else bm_bit b j)"
    and i: "i < unat (bit_cnt b)"
  shows "bm_abs (b\<lparr>bits := es\<rparr>) = (bm_abs b)[i := v]"
proof (rule nth_equalityI)
  fix j assume "j < length (bm_abs (b\<lparr>bits := es\<rparr>))"
  then show "bm_abs (b\<lparr>bits := es\<rparr>) ! j = (bm_abs b)[i := v] ! j"
    using bit [of j] i by (simp add: bm_bit_def nth_list_update)
qed simp

lemma div_mod_32_eq: "(j :: nat) div 32 = i div 32 \<Longrightarrow> j mod 32 = i mod 32 \<Longrightarrow> j = i"
  by (metis div_mult_mod_eq)

lemma bm_store:
  assumes wf: "bm_wf b" and i: "i < unat (bit_cnt b)"
    and e: "\<And>k. k < 32 \<Longrightarrow> bit e k = (if k = i mod 32 then v else bit (bits b ! (i div 32)) k)"
  shows "bm_abs (b\<lparr>bits := (bits b)[i div 32 := e]\<rparr>) = (bm_abs b)[i := v]"
proof (rule bm_update_abs)
  fix j
  have k: "i div 32 < length (bits b)"
    by (rule bm_wf_index [OF wf i])
  show "bit ((bits b)[i div 32 := e] ! (j div 32)) (j mod 32) = (if j = i then v else bm_bit b j)"
  proof (cases "j div 32 = i div 32")
    case True
    then have "j = i \<longleftrightarrow> j mod 32 = i mod 32"
      by (metis div_mod_32_eq)
    with True k show ?thesis
      by (simp add: e bm_bit_def)
  next
    case False
    then have "j \<noteq> i"
      by auto
    with False show ?thesis
      by (simp add: bm_bit_def)
  qed
qed (use i in auto)

lemma bm_wf_store [simp]: "bm_wf (b\<lparr>bits := (bits b)[k := e]\<rparr>) = bm_wf b"
  by (simp add: bm_wf_def)

section \<open>Single bits\<close>

lemma bitmap_test_eq:
  assumes "bm_wf b"
  shows "bitmap_test b i = (if unat i < unat (bit_cnt b) then Some (bm_abs b ! unat i) else None)"
  using assms bm_wf_index [OF assms, of "unat i"]
  by (auto simp: bitmap_test_def kernel_simps word_less_nat_alt AND_bit_mask bm_bit_def)

lemma bitmap_mark_spec:
  assumes "bm_wf b" and "unat i < unat (bit_cnt b)"
  obtains b' where "bitmap_mark b i = Some b'" and "bm_wf b'" and "bit_cnt b' = bit_cnt b"
    and "bm_abs b' = (bm_abs b)[unat i := True]"
proof
  let ?b = "b\<lparr>bits := (bits b)[unat i div 32 := bits b ! (unat i div 32) OR bit_mask i]\<rparr>"
  show "bitmap_mark b i = Some ?b"
    using bm_wf_index [OF assms] by (simp add: bitmap_mark_def kernel_simps Let_def)
  show "bm_abs ?b = (bm_abs b)[unat i := True]"
    by (rule bm_store [OF assms]) (auto simp: bit_or_iff bit_bit_mask)
qed (use assms in simp_all)

lemma bitmap_reset_spec:
  assumes "bm_wf b" and "unat i < unat (bit_cnt b)"
  obtains b' where "bitmap_reset b i = Some b'" and "bm_wf b'" and "bit_cnt b' = bit_cnt b"
    and "bm_abs b' = (bm_abs b)[unat i := False]"
proof
  let ?b = "b\<lparr>bits := (bits b)[unat i div 32 := bits b ! (unat i div 32) AND NOT (bit_mask i)]\<rparr>"
  show "bitmap_reset b i = Some ?b"
    using bm_wf_index [OF assms] by (simp add: bitmap_reset_def kernel_simps Let_def)
  show "bm_abs ?b = (bm_abs b)[unat i := False]"
    by (rule bm_store [OF assms]) (auto simp: bit_and_iff bit_not_iff bit_bit_mask)
qed (use assms in simp_all)

lemma bitmap_flip_spec:
  assumes "bm_wf b" and "unat i < unat (bit_cnt b)"
  obtains b' where "bitmap_flip b i = Some b'" and "bm_wf b'" and "bit_cnt b' = bit_cnt b"
    and "bm_abs b' = (bm_abs b)[unat i := \<not> bm_abs b ! unat i]"
proof
  let ?b = "b\<lparr>bits := (bits b)[unat i div 32 := bits b ! (unat i div 32) XOR bit_mask i]\<rparr>"
  show "bitmap_flip b i = Some ?b"
    using bm_wf_index [OF assms] by (simp add: bitmap_flip_def kernel_simps Let_def)
  show "bm_abs ?b = (bm_abs b)[unat i := \<not> bm_abs b ! unat i]"
    using assms(2) by (intro bm_store [OF assms]) (auto simp: bit_xor_iff bit_bit_mask bm_bit_def)
qed (use assms in simp_all)

lemma bitmap_set_spec:
  assumes "bm_wf b" and "unat i < unat (bit_cnt b)"
  obtains b' where "bitmap_set b i v = Some b'" and "bm_wf b'" and "bit_cnt b' = bit_cnt b"
    and "bm_abs b' = (bm_abs b)[unat i := v]"
proof (cases v)
  case True
  obtain b' where "bitmap_mark b i = Some b'" "bm_wf b'" "bit_cnt b' = bit_cnt b"
      "bm_abs b' = (bm_abs b)[unat i := True]"
    by (rule bitmap_mark_spec [OF assms])
  with that True assms(2) show ?thesis
    by (simp add: bitmap_set_def kernel_simps word_less_nat_alt)
next
  case False
  obtain b' where "bitmap_reset b i = Some b'" "bm_wf b'" "bit_cnt b' = bit_cnt b"
      "bm_abs b' = (bm_abs b)[unat i := False]"
    by (rule bitmap_reset_spec [OF assms])
  with that False assms(2) show ?thesis
    by (simp add: bitmap_set_def kernel_simps word_less_nat_alt)
qed

lemma bitmap_set_out_of_range: "\<not> unat i < unat (bit_cnt b) \<Longrightarrow> bitmap_set b i v = None"
  by (simp add: bitmap_set_def kernel_simps word_less_nat_alt)

section \<open>Ranges of bits\<close>

lemma unat_add_in_range:
  fixes start i m :: size_t
  assumes "unat start + unat i \<le> unat m"
  shows "unat (start + i) = unat start + unat i"
  using assms unat_bound32 [of m] by (subst unat_add_small) auto

lemma set_loop_spec:
  assumes "bm_wf b" and "unat start + unat cnt \<le> unat (bit_cnt b)" and "unat i \<le> unat cnt"
  shows "\<exists>b'. set_loop b start cnt v i = Some b' \<and> bm_wf b' \<and> bit_cnt b' = bit_cnt b \<and>
           (\<forall>j < unat (bit_cnt b). bm_bit b' j
              = (if unat start + unat i \<le> j \<and> j < unat start + unat cnt then v else bm_bit b j))"
  using assms
proof (induction b start cnt v i rule: set_loop.induct)
  case (1 b start cnt v i)
  show ?case
  proof (cases "i < cnt")
    case True
    have sum: "unat (start + i) = unat start + unat i"
      using "1.prems" True by (intro unat_add_in_range [of _ _ "bit_cnt b"]) (simp add: word_less_nat_alt)
    have "unat (start + i) < unat (bit_cnt b)"
      using "1.prems" True by (simp add: sum word_less_nat_alt)
    then obtain b1 where b1: "bitmap_set b (start + i) v = Some b1" "bm_wf b1" "bit_cnt b1 = bit_cnt b"
      "bm_abs b1 = (bm_abs b)[unat (start + i) := v]"
      by (rule bitmap_set_spec [OF "1.prems"(1)])
    have bit1: "bm_bit b1 j = (if j = unat start + unat i then v else bm_bit b j)"
      if "j < unat (bit_cnt b)" for j
    proof -
      have "bm_abs b1 ! j = (bm_abs b)[unat (start + i) := v] ! j"
        using b1(4) by simp
      then show ?thesis
        using that by (auto simp: b1(3) sum nth_list_update)
    qed
    have i1: "unat (i + 1) = Suc (unat i)"
      using True by (rule unat_Suc_le)
    have "\<exists>b'. set_loop b1 start cnt v (i + 1) = Some b' \<and> bm_wf b' \<and> bit_cnt b' = bit_cnt b1 \<and>
      (\<forall>j < unat (bit_cnt b1). bm_bit b' j
        = (if unat start + unat (i + 1) \<le> j \<and> j < unat start + unat cnt then v else bm_bit b1 j))"
      by (rule "1.IH" [OF True b1(1)]) (use b1(2,3) "1.prems" True in \<open>simp_all add: i1 word_less_nat_alt\<close>)
    then obtain b' where "set_loop b1 start cnt v (i + 1) = Some b'" "bm_wf b'" "bit_cnt b' = bit_cnt b"
      and bit': "\<And>j. j < unat (bit_cnt b) \<Longrightarrow> bm_bit b' j
        = (if Suc (unat start + unat i) \<le> j \<and> j < unat start + unat cnt then v else bm_bit b1 j)"
      by (auto simp: b1(3) i1)
    moreover have "bm_bit b' j = (if unat start + unat i \<le> j \<and> j < unat start + unat cnt then v else bm_bit b j)"
      if "j < unat (bit_cnt b)" for j
      using bit' [OF that] bit1 [OF that] True by (auto simp: word_less_nat_alt)
    ultimately show ?thesis
      using True by (simp add: set_loop.simps [of b] b1(1))
  next
    case False
    with "1.prems" show ?thesis
      by (auto simp: set_loop.simps [of b] word_less_nat_alt)
  qed
qed

lemma bm_abs_range_update:
  assumes "bit_cnt b' = bit_cnt b" and "s + n \<le> unat (bit_cnt b)"
    and "\<forall>j < unat (bit_cnt b). bm_bit b' j = (if s \<le> j \<and> j < s + n then v else bm_bit b j)"
  shows "bm_abs b' = take s (bm_abs b) @ replicate n v @ drop (s + n) (bm_abs b)"
  using assms by (intro nth_equalityI) (simp_all add: replace_range_nth del: append_assoc)

lemma bitmap_set_multiple_spec:
  assumes "bm_wf b" and "unat start + unat cnt \<le> unat (bit_cnt b)"
  obtains b' where "bitmap_set_multiple b start cnt v = Some b'" and "bm_wf b'"
    and "bit_cnt b' = bit_cnt b"
    and "bm_abs b' = take (unat start) (bm_abs b) @ replicate (unat cnt) v
                       @ drop (unat start + unat cnt) (bm_abs b)"
proof -
  have "start \<le> bit_cnt b" and "start + cnt \<le> bit_cnt b"
    using assms(2) by (auto simp: word_le_nat_alt unat_add_in_range)
  moreover obtain b' where "set_loop b start cnt v 0 = Some b'" "bm_wf b'" "bit_cnt b' = bit_cnt b"
     "\<forall>j < unat (bit_cnt b). bm_bit b' j
        = (if unat start \<le> j \<and> j < unat start + unat cnt then v else bm_bit b j)"
    using set_loop_spec [OF assms, of 0 v] by auto
  moreover from this assms have "bm_abs b' = take (unat start) (bm_abs b) @ replicate (unat cnt) v
                       @ drop (unat start + unat cnt) (bm_abs b)"
    by (intro bm_abs_range_update)
  ultimately show ?thesis
    using that by (simp add: bitmap_set_multiple_def kernel_simps)
qed

lemma set_loop_overrun:
  assumes "bm_wf b" and "unat start + unat i \<le> unat (bit_cnt b)"
    and "unat (bit_cnt b) < unat start + unat cnt"
  shows "set_loop b start cnt v i = None"
  using assms
proof (induction b start cnt v i rule: set_loop.induct)
  case (1 b start cnt v i)
  have lt: "i < cnt"
    using "1.prems" by (simp add: word_less_nat_alt)
  have sum: "unat (start + i) = unat start + unat i"
    by (rule unat_add_in_range [OF "1.prems"(2)])
  show ?case
  proof (cases "unat (start + i) < unat (bit_cnt b)")
    case True
    then obtain b1 where b1: "bitmap_set b (start + i) v = Some b1" "bm_wf b1" "bit_cnt b1 = bit_cnt b"
      by (rule bitmap_set_spec [OF "1.prems"(1)])
    then have "set_loop b1 start cnt v (i + 1) = None"
      using "1.IH" [OF lt] "1.prems" True by (simp add: sum unat_Suc_le [OF lt])
    then show ?thesis
      by (simp add: set_loop.simps [of b] lt b1(1))
  next
    case False
    then show ?thesis
      by (simp add: set_loop.simps [of b] lt bitmap_set_out_of_range)
  qed
qed

lemma contains_loop_spec:
  assumes "bm_wf b" and "unat start + unat cnt \<le> unat (bit_cnt b)" and "unat i \<le> unat cnt"
  shows "contains_loop b start cnt v i
           = Some (\<exists>j. unat start + unat i \<le> j \<and> j < unat start + unat cnt \<and> bm_bit b j = v)"
  using assms
proof (induction b start cnt v i rule: contains_loop.induct)
  case (1 b start cnt v i)
  show ?case
  proof (cases "i < cnt")
    case True
    have sum: "unat (start + i) = unat start + unat i"
      using "1.prems" True by (intro unat_add_in_range [of _ _ "bit_cnt b"]) (simp add: word_less_nat_alt)
    have test: "bitmap_test b (start + i) = Some (bm_bit b (unat start + unat i))"
      using "1.prems" True by (simp add: bitmap_test_eq sum word_less_nat_alt)
    have i1: "unat (i + 1) = Suc (unat i)"
      using True by (rule unat_Suc_le)
    show ?thesis
    proof (cases "bm_bit b (unat start + unat i) = v")
      case hit: True
      then show ?thesis
        using True
        by (simp add: contains_loop.simps [of b] test word_less_nat_alt ex_range_split)
    next
      case miss: False
      have "contains_loop b start cnt v (i + 1) = Some (\<exists>j. unat start + unat (i + 1) \<le> j
              \<and> j < unat start + unat cnt \<and> bm_bit b j = v)"
        using "1.IH" [OF True test miss] "1.prems" True by (simp add: i1 word_less_nat_alt)
      then show ?thesis
        using True miss
        by (simp add: contains_loop.simps [of b] test i1 word_less_nat_alt
            ex_range_split [of "unat start + unat i"])
    qed
  next
    case False
    with "1.prems" show ?thesis
      by (simp add: contains_loop.simps [of b] word_less_nat_alt)
  qed
qed

lemma bitmap_contains_eq:
  assumes "bm_wf b" and "unat start + unat cnt \<le> unat (bit_cnt b)"
  shows "bitmap_contains b start cnt v
           = Some (\<exists>j. unat start \<le> j \<and> j < unat start + unat cnt \<and> bm_abs b ! j = v)"
proof -
  have "start \<le> bit_cnt b" and "start + cnt \<le> bit_cnt b"
    using assms(2) by (auto simp: word_le_nat_alt unat_add_in_range)
  then show ?thesis
    using assms(2) contains_loop_spec [OF assms, of 0 v]
    by (auto simp: bitmap_contains_def kernel_simps)
qed

lemma bitmap_all_eq:
  assumes "bm_wf b" and "unat start + unat cnt \<le> unat (bit_cnt b)"
  shows "bitmap_all b start cnt = Some (\<forall>j. unat start \<le> j \<and> j < unat start + unat cnt \<longrightarrow> bm_abs b ! j)"
  using assms by (auto simp: bitmap_all_def bitmap_contains_eq)

section \<open>Counting and searching\<close>

definition run_at :: "bool list \<Rightarrow> nat \<Rightarrow> bool \<Rightarrow> nat \<Rightarrow> bool" where
  "run_at xs n v k \<longleftrightarrow> k + n \<le> length xs \<and> (\<forall>j < n. xs ! (k + j) = v)"

definition first_run :: "bool list \<Rightarrow> nat \<Rightarrow> nat \<Rightarrow> bool \<Rightarrow> nat option" where
  "first_run xs s n v = find (run_at xs n v) [s..<Suc (length xs)]"

lemma count_loop_spec:
  assumes "bm_wf b" and "unat start + unat cnt \<le> unat (bit_cnt b)" and "unat i \<le> unat cnt"
  shows "count_loop b start cnt v i c
           = Some (c + of_nat (length (filter (\<lambda>j. bm_bit b j = v)
               [unat start + unat i..<unat start + unat cnt])))"
  using assms
proof (induction b start cnt v i c rule: count_loop.induct)
  case (1 b start cnt v i c)
  show ?case
  proof (cases "i < cnt")
    case True
    have sum: "unat (start + i) = unat start + unat i"
      using "1.prems" True by (intro unat_add_in_range [of _ _ "bit_cnt b"]) (simp add: word_less_nat_alt)
    have test: "bitmap_test b (start + i) = Some (bm_bit b (unat start + unat i))"
      using "1.prems" True by (simp add: bitmap_test_eq sum word_less_nat_alt)
    have i1: "unat (i + 1) = Suc (unat i)"
      using True by (rule unat_Suc_le)
    have range: "[unat start + unat i..<unat start + unat cnt]
        = (unat start + unat i) # [Suc (unat start + unat i)..<unat start + unat cnt]"
      using True by (simp add: upt_conv_Cons word_less_nat_alt)
    show ?thesis
      using "1.IH" [OF True test] "1.prems" True
      by (simp add: count_loop.simps [of b] test i1 range word_less_nat_alt)
  next
    case False
    with "1.prems" show ?thesis
      by (simp add: count_loop.simps [of b] word_less_nat_alt)
  qed
qed

lemma bitmap_contains_run_at:
  assumes "bm_wf b" and "unat i + unat cnt \<le> unat (bit_cnt b)"
  shows "bitmap_contains b i cnt (\<not> v) = Some (\<not> run_at (bm_abs b) (unat cnt) v (unat i))"
proof -
  have "(\<exists>j. unat i \<le> j \<and> j < unat i + unat cnt \<and> bm_abs b ! j = (\<not> v))
          \<longleftrightarrow> \<not> run_at (bm_abs b) (unat cnt) v (unat i)"
    using assms(2) all_range_shift [of "unat cnt" "\<lambda>j. bm_abs b ! j = v" "unat i"]
    by (auto simp: run_at_def)
  then show ?thesis
    by (simp add: bitmap_contains_eq [OF assms])
qed

lemma scan_loop_spec:
  assumes "bm_wf b" and "unat l + unat cnt = unat (bit_cnt b)" and "l \<noteq> - 1"
  shows "scan_loop b cnt v l i
           = Some (case find (run_at (bm_abs b) (unat cnt) v) [unat i..<Suc (unat l)] of
               None \<Rightarrow> BITMAP_ERROR | Some k \<Rightarrow> of_nat k)"
proof (induction "Suc (unat l) - unat i" arbitrary: i)
  case 0
  then show ?case
    by (simp add: scan_loop.simps [of b] word_le_nat_alt)
next
  case (Suc n)
  then have le: "unat i \<le> unat l"
    by simp
  have test: "bitmap_contains b i cnt (\<not> v) = Some (\<not> run_at (bm_abs b) (unat cnt) v (unat i))"
    using assms le by (intro bitmap_contains_run_at) auto
  have "i < - 1"
    using le assms(3) by (metis order.strict_trans1 word_le_nat_alt word_order.not_eq_extremum)
  then have i1: "unat (i + 1) = Suc (unat i)"
    by (rule unat_Suc_le)
  have range: "[unat i..<Suc (unat l)] = unat i # [Suc (unat i)..<Suc (unat l)]"
    using le by (simp add: upt_conv_Cons del: upt_Suc)
  have IH: "scan_loop b cnt v l (i + 1)
           = Some (case find (run_at (bm_abs b) (unat cnt) v) [Suc (unat i)..<Suc (unat l)] of
               None \<Rightarrow> BITMAP_ERROR | Some k \<Rightarrow> of_nat k)"
    using Suc(1) [of "i + 1"] Suc(2) by (simp add: i1 del: upt_Suc)
  show ?case
    using le by (simp add: scan_loop.simps [of b cnt v l i] test IH range word_le_nat_alt del: upt_Suc)
qed

lemma find_run_at_trim:
  assumes "m \<le> Suc (length xs)" and "\<And>k. m \<le> k \<Longrightarrow> \<not> run_at xs n v k"
  shows "find (run_at xs n v) [s..<Suc (length xs)] = find (run_at xs n v) [s..<m]"
proof (cases "s \<le> m")
  case True
  then have "[s..<Suc (length xs)] = [s..<m] @ [m..<Suc (length xs)]"
    using assms(1) by (metis le_add_diff_inverse upt_add_eq_append)
  moreover have "find (run_at xs n v) [m..<Suc (length xs)] = None"
    using assms(2) by (auto simp: find_None_iff)
  ultimately show ?thesis
    by (simp add: find_append split: option.split del: upt_Suc)
next
  case False
  moreover have "find (run_at xs n v) [s..<Suc (length xs)] = None"
    using assms(2) False by (auto simp: find_None_iff)
  ultimately show ?thesis
    by (simp del: upt_Suc)
qed

lemma bitmap_scan_first_run:
  assumes "bm_wf b" and "unat start \<le> unat (bit_cnt b)" and "bit_cnt b \<noteq> BITMAP_ERROR"
  shows "bitmap_scan b start cnt v
           = Some (case first_run (bm_abs b) (unat start) (unat cnt) v of
               None \<Rightarrow> BITMAP_ERROR | Some k \<Rightarrow> of_nat k)"
proof (cases "cnt \<le> bit_cnt b")
  case True
  let ?l = "bit_cnt b - cnt"
  have l: "unat ?l = unat (bit_cnt b) - unat cnt"
    using True by (rule unat_diff_small)
  have sum: "unat ?l + unat cnt = unat (bit_cnt b)"
    using True by (simp add: l word_le_nat_alt)
  have "?l \<noteq> - 1"
  proof
    assume "?l = - 1"
    then have "unat (- 1 :: size_t) \<le> unat (bit_cnt b)"
      using sum by (metis le_add1)
    then show False
      using assms(3) by (metis BITMAP_ERROR_def word_le_nat_alt word_order.extremum_unique)
  qed
  moreover have "find (run_at (bm_abs b) (unat cnt) v) [unat start..<Suc (length (bm_abs b))]
      = find (run_at (bm_abs b) (unat cnt) v) [unat start..<Suc (unat ?l)]"
    using sum by (intro find_run_at_trim) (auto simp: run_at_def)
  ultimately show ?thesis
    using True assms scan_loop_spec [OF assms(1) sum, of v start]
    by (simp add: bitmap_scan_def kernel_simps word_le_nat_alt first_run_def del: upt_Suc)
next
  case False
  have "first_run (bm_abs b) (unat start) (unat cnt) v = None"
    using False by (auto simp: first_run_def find_None_iff run_at_def word_le_nat_alt)
  then show ?thesis
    using False assms by (simp add: bitmap_scan_def kernel_simps word_le_nat_alt)
qed

lemma first_run_Some:
  assumes "first_run xs s n v = Some k"
  shows "s \<le> k" and "run_at xs n v k" and "\<And>j. s \<le> j \<Longrightarrow> j < k \<Longrightarrow> \<not> run_at xs n v j"
proof -
  obtain i where i: "i < length [s..<Suc (length xs)]" "run_at xs n v ([s..<Suc (length xs)] ! i)"
    "k = [s..<Suc (length xs)] ! i" "\<forall>j<i. \<not> run_at xs n v ([s..<Suc (length xs)] ! j)"
    using assms unfolding first_run_def find_Some_iff by blast
  then have k: "k = s + i" "s + i < Suc (length xs)"
    by (simp_all del: upt_Suc)
  then show "s \<le> k" "run_at xs n v k"
    using i by simp_all
  show "\<not> run_at xs n v j" if "s \<le> j" "j < k" for j
    using i(4) [rule_format, of "j - s"] that k by (simp del: upt_Suc)
qed

lemma first_run_None: "first_run xs s n v = None \<Longrightarrow> s \<le> k \<Longrightarrow> \<not> run_at xs n v k"
  by (auto simp: first_run_def find_None_iff run_at_def)

section \<open>Creation, allocation and release\<close>

definition bm_used :: "bitmap \<Rightarrow> nat set" where
  "bm_used b = {i. i < unat (bit_cnt b) \<and> bm_bit b i}"

definition bm_invar :: "bitmap \<Rightarrow> bool" where
  "bm_invar b \<longleftrightarrow> bm_wf b \<and> bit_cnt b \<noteq> BITMAP_ERROR"

definition bm_acquire :: "bitmap \<Rightarrow> nat \<Rightarrow> (nat option \<times> bitmap) option" where
  "bm_acquire b n =
     (if n < 2 ^ 32
      then (case bitmap_scan_and_flip b 0 (of_nat n) False of
              None \<Rightarrow> None
            | Some (idx, b') \<Rightarrow> Some (if idx = BITMAP_ERROR then None else Some (unat idx), b'))
      else Some (None, b))"

definition bm_release :: "bitmap \<Rightarrow> nat \<Rightarrow> nat \<Rightarrow> bitmap option" where
  "bm_release b i n = do {
     a \<leftarrow> bitmap_all b (of_nat i) (of_nat n);
     ASSERT a;
     bitmap_set_multiple b (of_nat i) (of_nat n) False
   }"

lemma bm_used_range:
  assumes "bit_cnt b' = bit_cnt b"
    and "bm_abs b' = take s (bm_abs b) @ replicate n v @ drop (s + n) (bm_abs b)"
    and "s + n \<le> unat (bit_cnt b)"
  shows "bm_used b' = (if v then bm_used b \<union> {s..<s + n} else bm_used b - {s..<s + n})"
proof -
  have "bm_bit b' j = (if s \<le> j \<and> j < s + n then v else bm_bit b j)" if "j < unat (bit_cnt b)" for j
  proof -
    have "bm_bit b' j = bm_abs b' ! j"
      using that assms(1) by simp
    also have "\<dots> = (if s \<le> j \<and> j < s + n then v else bm_bit b j)"
      unfolding assms(2) using that assms(3) by (subst replace_range_nth) auto
    finally show ?thesis .
  qed
  then show ?thesis
    using assms(1,3) by (auto simp: bm_used_def split: if_splits)
qed

lemma first_run_fits: "first_run xs s n v = Some k \<Longrightarrow> k + n \<le> length xs"
  by (drule first_run_Some(2)) (simp add: run_at_def)

lemma of_nat_not_error:
  assumes "bit_cnt b \<noteq> BITMAP_ERROR" and "k \<le> unat (bit_cnt b)"
  shows "(of_nat k :: size_t) \<noteq> BITMAP_ERROR" and "unat (of_nat k :: size_t) = k"
proof -
  have "k < 2 ^ 32"
    using assms(2) unat_bound32 [of "bit_cnt b"] by simp
  then show k: "unat (of_nat k :: size_t) = k"
    by (simp add: unat_of_nat)
  show "(of_nat k :: size_t) \<noteq> BITMAP_ERROR"
  proof
    assume "(of_nat k :: size_t) = BITMAP_ERROR"
    then have "unat (- 1 :: size_t) \<le> unat (bit_cnt b)"
      using assms(2) k by (metis BITMAP_ERROR_def)
    then show False
      using assms(1) by (metis BITMAP_ERROR_def word_le_nat_alt word_order.extremum_unique)
  qed
qed

lemma bitmap_scan_and_flip_spec:
  assumes "bm_invar b" and "unat start \<le> unat (bit_cnt b)"
  shows "case first_run (bm_abs b) (unat start) (unat cnt) v of
           None \<Rightarrow> bitmap_scan_and_flip b start cnt v = Some (BITMAP_ERROR, b)
         | Some k \<Rightarrow> k + unat cnt \<le> unat (bit_cnt b) \<and>
             (\<exists>idx b'. bitmap_scan_and_flip b start cnt v = Some (idx, b') \<and> unat idx = k \<and>
                idx \<noteq> BITMAP_ERROR \<and> bm_invar b' \<and> bit_cnt b' = bit_cnt b \<and>
                bm_abs b' = take k (bm_abs b) @ replicate (unat cnt) (\<not> v)
                              @ drop (k + unat cnt) (bm_abs b))"
proof (cases "first_run (bm_abs b) (unat start) (unat cnt) v")
  case None
  with assms show ?thesis
    by (simp add: bm_invar_def bitmap_scan_and_flip_def bitmap_scan_first_run)
next
  case (Some k)
  let ?i = "of_nat k :: size_t"
  have fits: "k + unat cnt \<le> unat (bit_cnt b)"
    using first_run_fits [OF Some] by simp
  have i: "?i \<noteq> BITMAP_ERROR" "unat ?i = k"
    using assms(1) fits of_nat_not_error [of b k] by (auto simp: bm_invar_def)
  have "unat ?i + unat cnt \<le> unat (bit_cnt b)"
    using fits i by simp
  then obtain b' where "bitmap_set_multiple b ?i cnt (\<not> v) = Some b'" "bm_wf b'" "bit_cnt b' = bit_cnt b"
    "bm_abs b' = take (unat ?i) (bm_abs b) @ replicate (unat cnt) (\<not> v)
                   @ drop (unat ?i + unat cnt) (bm_abs b)"
    using assms(1) bitmap_set_multiple_spec by (metis bm_invar_def)
  with i fits Some assms show ?thesis
    by (simp add: bm_invar_def bitmap_scan_and_flip_def bitmap_scan_first_run)
qed

lemma run_at_free: "run_at (bm_abs b) n False k \<longleftrightarrow> k + n \<le> unat (bit_cnt b) \<and> slots (k, n) \<inter> bm_used b = {}"
  by (auto simp: run_at_def bm_used_def all_range_shift [of n "\<lambda>j. \<not> bm_abs b ! j"])

lemma bm_acquire_cases:
  assumes "bm_invar b" and "n < 2 ^ 32"
  shows "case first_run (bm_abs b) 0 n False of
           None \<Rightarrow> bm_acquire b n = Some (None, b)
         | Some k \<Rightarrow> \<exists>b'. bm_acquire b n = Some (Some k, b') \<and> bm_invar b' \<and> bit_cnt b' = bit_cnt b \<and>
             k + n \<le> unat (bit_cnt b) \<and> bm_used b' = bm_used b \<union> slots (k, n)"
proof -
  have n: "unat (of_nat n :: size_t) = n"
    using assms(2) by (simp add: unat_of_nat)
  have "bm_used b' = bm_used b \<union> slots (k, n)"
    if "bit_cnt b' = bit_cnt b" "k + n \<le> unat (bit_cnt b)"
      "bm_abs b' = take k (bm_abs b) @ replicate n True @ drop (k + n) (bm_abs b)" for k b'
    using bm_used_range [OF that(1,3,2)] by simp
  then show ?thesis
    using bitmap_scan_and_flip_spec [OF assms(1), of 0 "of_nat n" False] assms(2)
    by (auto simp: bm_acquire_def n split: option.splits)
qed

interpretation bitmap_slots: range_allocator bm_acquire bm_release bm_invar bm_used "\<lambda>b. unat (bit_cnt b)"
proof
  fix s n
  assume inv: "bm_invar s"
  show "bm_acquire s n \<noteq> None"
    using bm_acquire_cases [OF inv, of n] by (cases "n < 2 ^ 32") (auto simp: bm_acquire_def split: option.splits)
next
  fix s n s'
  assume inv: "bm_invar s" and none: "bm_acquire s n = Some (None, s')"
  show "s' = s"
    using bm_acquire_cases [OF inv, of n] none by (cases "n < 2 ^ 32") (auto simp: bm_acquire_def split: option.splits)
next
  fix s n i s'
  assume inv: "bm_invar s" and get: "bm_acquire s n = Some (Some i, s')"
  have "n < 2 ^ 32"
    using get by (auto simp: bm_acquire_def split: if_splits)
  with bm_acquire_cases [OF inv] get obtain
    "first_run (bm_abs s) 0 n False = Some i" "bm_invar s'" "bit_cnt s' = bit_cnt s"
    "i + n \<le> unat (bit_cnt s)" "bm_used s' = bm_used s \<union> slots (i, n)"
    by (fastforce split: option.splits)
  then show "bm_invar s' \<and> (\<lambda>i n. i + n \<le> unat (bit_cnt s')) = (\<lambda>i n. i + n \<le> unat (bit_cnt s)) \<and>
      i + n \<le> unat (bit_cnt s) \<and> slots (i, n) \<inter> bm_used s = {} \<and> bm_used s' = bm_used s \<union> slots (i, n)"
    using first_run_Some(2) run_at_free by (metis (no_types))
next
  fix s n s' i
  assume inv: "bm_invar s" and none: "bm_acquire s n = Some (None, s')" and fits: "i + n \<le> unat (bit_cnt s)"
  have "n < 2 ^ 32"
    using fits unat_bound32 [of "bit_cnt s"] by simp
  with bm_acquire_cases [OF inv] none have "first_run (bm_abs s) 0 n False = None"
    by (fastforce split: option.splits)
  then show "slots (i, n) \<inter> bm_used s \<noteq> {}"
    using first_run_None [of "bm_abs s" 0 n False i] fits run_at_free by blast
next
  fix s i n
  assume inv: "bm_invar s" and fits: "i + n \<le> unat (bit_cnt s)" and sub: "slots (i, n) \<subseteq> bm_used s"
  have u: "unat (of_nat i :: size_t) = i" "unat (of_nat n :: size_t) = n"
    using fits unat_bound32 [of "bit_cnt s"] by (simp_all add: unat_of_nat)
  have "bitmap_all s (of_nat i) (of_nat n) = Some True"
    using inv fits sub by (subst bitmap_all_eq) (auto simp: u bm_invar_def bm_used_def subset_iff)
  moreover obtain s' where s': "bitmap_set_multiple s (of_nat i) (of_nat n) False = Some s'" "bm_wf s'"
    "bit_cnt s' = bit_cnt s"
    "bm_abs s' = take i (bm_abs s) @ replicate n False @ drop (i + n) (bm_abs s)"
    using inv fits bitmap_set_multiple_spec [of s "of_nat i" "of_nat n" False]
    by (auto simp: bm_invar_def u)
  moreover have "bm_used s' = bm_used s - slots (i, n)"
    using bm_used_range [OF s'(3,4) fits] by simp
  ultimately show "\<exists>s'. bm_release s i n = Some s' \<and> bm_invar s' \<and>
      (\<lambda>i n. i + n \<le> unat (bit_cnt s')) = (\<lambda>i n. i + n \<le> unat (bit_cnt s)) \<and> bm_used s' = bm_used s - slots (i, n)"
    using inv by (simp add: bm_release_def kernel_simps bm_invar_def)
qed

lemma bitmap_set_all_spec:
  assumes "bm_wf b"
  obtains b' where "bitmap_set_all b v = Some b'" and "bm_wf b'" and "bit_cnt b' = bit_cnt b"
    and "bm_abs b' = replicate (unat (bit_cnt b)) v"
  using bitmap_set_multiple_spec [OF assms, of 0 "bit_cnt b" v]
  by (auto simp: bitmap_set_all_def bitmap_size_def)

lemma unat_elem_cnt: "unat n + 32 \<le> 2 ^ 32 \<Longrightarrow> unat (elem_cnt n) = (unat n + 31) div 32"
  by (simp add: elem_cnt_def unat_DIV_ROUND_UP)

section \<open>Properties\<close>

text \<open>
  C40: \<^verbatim>\<open>bitmap_scan_and_flip\<close> is first fit.  On a well-formed bitmap it returns the
  least index at or after \<^term>\<open>start\<close> at which \<^term>\<open>cnt\<close> consecutive bits all equal
  \<^term>\<open>v\<close>, and the new bitmap differs from the old one in exactly those bits, all
  turned to the opposite value; if there is no such group it returns
  \<^verbatim>\<open>BITMAP_ERROR\<close> and changes nothing.
\<close>

theorem bitmap_scan_and_flip_first_fit:
  assumes "bm_invar b" and "unat start \<le> unat (bit_cnt b)"
    and "bitmap_scan_and_flip b start cnt v = r"
  shows "\<exists>idx b'. r = Some (idx, b') \<and> bm_invar b' \<and> bit_cnt b' = bit_cnt b \<and>
     (if idx = BITMAP_ERROR
      then b' = b \<and> (\<forall>k \<ge> unat start. \<not> run_at (bm_abs b) (unat cnt) v k)
      else unat start \<le> unat idx \<and> run_at (bm_abs b) (unat cnt) v (unat idx) \<and>
           (\<forall>k. unat start \<le> k \<and> k < unat idx \<longrightarrow> \<not> run_at (bm_abs b) (unat cnt) v k) \<and>
           (\<forall>j < unat (bit_cnt b). bm_abs b' ! j =
              (if unat idx \<le> j \<and> j < unat idx + unat cnt then \<not> v else bm_abs b ! j)))"
proof (cases "first_run (bm_abs b) (unat start) (unat cnt) v")
  case None
  then show ?thesis
    using bitmap_scan_and_flip_spec [OF assms(1,2), of cnt v] assms(1,3) first_run_None [OF None]
    by auto
next
  case (Some k)
  then obtain idx b' where r: "r = Some (idx, b')" "unat idx = k" "idx \<noteq> BITMAP_ERROR" "bm_invar b'"
    "bit_cnt b' = bit_cnt b" and fits: "k + unat cnt \<le> unat (bit_cnt b)"
    and abs: "bm_abs b' = take k (bm_abs b) @ replicate (unat cnt) (\<not> v) @ drop (k + unat cnt) (bm_abs b)"
    using bitmap_scan_and_flip_spec [OF assms(1,2), of cnt v] assms(3) by auto
  have "bm_abs b' ! j = (if k \<le> j \<and> j < k + unat cnt then \<not> v else bm_abs b ! j)"
    if "j < unat (bit_cnt b)" for j
    unfolding abs using fits that by (subst replace_range_nth) auto
  then show ?thesis
    using r first_run_Some [OF Some] by (simp add: r(2))
qed

theorem bitmap_scan_and_flip_first_fit_witness:
  "bm_invar \<lparr>bit_cnt = 6, bits = [11]\<rparr> \<and>
   (\<exists>idx b'. bitmap_scan_and_flip \<lparr>bit_cnt = 6, bits = [11]\<rparr> 1 2 False = Some (idx, b') \<and> bm_invar b')"
proof -
  have inv: "bm_invar \<lparr>bit_cnt = 6, bits = [11]\<rparr>"
    by (simp add: bm_invar_def bm_wf_def BITMAP_ERROR_def)
  show ?thesis
    using inv bitmap_scan_and_flip_first_fit [OF inv, of 1 2 False] by auto
qed

text \<open>
  Range updates are exact, and the wrap-around of \<^verbatim>\<open>start + cnt\<close> in the assertion
  of \<^verbatim>\<open>bitmap_set_multiple\<close> is harmless: on a well-formed bitmap the call succeeds exactly
  when the range lies inside the bitmap as natural numbers, and then writes
  \<^term>\<open>v\<close> to the bits of the range and to no other bit.  A range that passes the
  assertion only because the 32-bit sum wrapped still ends in a kernel panic.
\<close>

theorem bitmap_set_multiple_exact:
  assumes "bm_wf b"
  shows "if unat start + unat cnt \<le> unat (bit_cnt b)
         then \<exists>b'. bitmap_set_multiple b start cnt v = Some b' \<and> bm_wf b' \<and> bit_cnt b' = bit_cnt b \<and>
                bm_abs b' = take (unat start) (bm_abs b) @ replicate (unat cnt) v
                              @ drop (unat start + unat cnt) (bm_abs b)
         else bitmap_set_multiple b start cnt v = None"
proof (cases "unat start + unat cnt \<le> unat (bit_cnt b)")
  case True
  show ?thesis
    using bitmap_set_multiple_spec [OF assms True, of v] True by metis
next
  case False
  have "bitmap_set_multiple b start cnt v = None"
  proof (cases "start \<le> bit_cnt b")
    case True
    then have "set_loop b start cnt v 0 = None"
      using assms False by (intro set_loop_overrun) (simp_all add: word_le_nat_alt)
    then show ?thesis
      by (simp add: bitmap_set_multiple_def kernel_simps)
  qed (simp add: bitmap_set_multiple_def kernel_simps)
  with False show ?thesis
    by simp
qed

theorem bitmap_set_multiple_exact_witness:
  "bm_wf \<lparr>bit_cnt = 6, bits = [11]\<rparr> \<and>
   (1 :: size_t) + 4294967295 \<le> 6 \<and>
   bitmap_set_multiple \<lparr>bit_cnt = 6, bits = [11]\<rparr> 1 4294967295 True = None"
proof -
  have wf: "bm_wf \<lparr>bit_cnt = 6, bits = [11]\<rparr>"
    by (simp add: bm_wf_def)
  show ?thesis
    using wf bitmap_set_multiple_exact [OF wf, of 1 4294967295 True] by simp
qed

text \<open>
  Allocation through a bitmap keeps its clients apart.  Start from any well-formed
  bitmap with every bit clear and issue any sequence of requests (scan-and-flip for
  \<^term>\<open>n\<close> bits, release of a group handed out before): no request panics, and the groups
  handed out and not yet released are pairwise disjoint and lie inside the bitmap.
\<close>

theorem bitmap_clients_disjoint:
  assumes "bm_invar b"
  shows "\<exists>b' live. alloc_run (\<lambda>n. n) bm_acquire bm_release ops b [] = Some (b', live) \<and>
           bm_invar b' \<and> disjoint_slots live \<and>
           (\<forall>(i, n) \<in> set live. i + n \<le> unat (bit_cnt b') \<and> slots (i, n) \<subseteq> bm_used b')"
proof -
  have "bitmap_slots.holds b []"
    using assms by (simp add: bitmap_slots.holds_def)
  from bitmap_slots.client_run [OF this, of ops] show ?thesis
    unfolding bitmap_slots.holds_def .
qed

theorem bitmap_clients_disjoint_witness:
  "\<exists>b' live. alloc_run (\<lambda>n. n) bm_acquire bm_release [Acquire 2, Acquire 3, Release 0 2, Acquire 1]
      \<lparr>bit_cnt = 6, bits = [0]\<rparr> [] = Some (b', live) \<and> disjoint_slots live"
proof -
  have inv: "bm_invar \<lparr>bit_cnt = 6, bits = [0]\<rparr>"
    by (simp add: bm_invar_def bm_wf_def BITMAP_ERROR_def)
  show ?thesis
    using bitmap_clients_disjoint [OF inv, of "[Acquire 2, Acquire 3, Release 0 2, Acquire 1]"]
    by blast
qed

text \<open>
  \<^verbatim>\<open>bitmap_create\<close> zeroes whatever storage \<^verbatim>\<open>malloc\<close> returned.  For every size up
  to \<open>2\<^sup>3\<^sup>2 - 32\<close> bits and every content of a block of the requested size the result is a
  well-formed bitmap of that size with every bit false; it is the null pointer exactly when
  one of the two allocations fails and the bitmap is not empty.
\<close>

theorem bitmap_create_all_false:
  assumes "unat n + 32 \<le> 2 ^ 32" and "\<And>es. m = Some es \<Longrightarrow> length es = unat (elem_cnt n)"
  shows "if k \<and> (m \<noteq> None \<or> n = 0)
         then \<exists>b. bitmap_create k m n = Some (Some b) \<and> bm_wf b \<and> bit_cnt b = n \<and>
                bm_abs b = replicate (unat n) False
         else bitmap_create k m n = Some None"
proof (cases "k \<and> (m \<noteq> None \<or> n = 0)")
  case True
  let ?b = "\<lparr>bit_cnt = n, bits = (case m of None \<Rightarrow> [] | Some es \<Rightarrow> es)\<rparr>"
  have "bm_wf ?b"
    using assms True by (auto simp: bm_wf_def unat_elem_cnt split: option.splits)
  then obtain b where "bitmap_set_all ?b False = Some b" "bm_wf b" "bit_cnt b = n"
      "bm_abs b = replicate (unat n) False"
    by (rule bitmap_set_all_spec) simp
  with True show ?thesis
    by (simp add: bitmap_create_def)
qed (auto simp: bitmap_create_def)

theorem bitmap_create_all_false_witness:
  "\<exists>b. bitmap_create True (Some [77, 99]) 40 = Some (Some b) \<and> bm_abs b = replicate 40 False"
  using bitmap_create_all_false [of 40 "Some [77, 99]" True]
  by (auto simp: unat_elem_cnt)

end
