(* ===== verification/Klist.thy ===== *)
theory Klist
  imports Pintos_Prelude
begin

text \<open>
  \<^verbatim>\<open>lib/kernel/list.c\<close>: doubly linked lists with a head and a tail sentinel.  The
  store maps the address of each \<^verbatim>\<open>struct list_elem\<close> to its two links; address 0 is
  the null pointer.  A \<^verbatim>\<open>struct list\<close> at address \<open>l\<close> holds its head at
  \<open>l\<close> and its tail at \<open>l + 8\<close>, the size of a \<^verbatim>\<open>struct list_elem\<close>.  The comparison
  function of the callers is a parameter on element addresses (its \<^verbatim>\<open>aux\<close> argument is
  part of it).  Loops over links are partial functions in the option monad, so that a walk
  that never meets its end is \<^term>\<open>None\<close>, like a failed assertion; the lemmas show
  that on well-formed lists every operation returns.
\<close>

section \<open>The store\<close>

type_synonym addr = u32

record list_elem =
  prv :: addr
  nxt :: addr

type_synonym heap = "addr \<Rightarrow> list_elem option"

abbreviation NULL :: addr where
  "NULL \<equiv> 0"

definition deref :: "heap \<Rightarrow> addr \<Rightarrow> list_elem kernel" where
  "deref h p = (if p = NULL then None else h p)"

definition get_prv :: "heap \<Rightarrow> addr \<Rightarrow> addr kernel" where
  "get_prv h p = map_option prv (deref h p)"

definition get_nxt :: "heap \<Rightarrow> addr \<Rightarrow> addr kernel" where
  "get_nxt h p = map_option nxt (deref h p)"

definition set_prv :: "heap \<Rightarrow> addr \<Rightarrow> addr \<Rightarrow> heap kernel" where
  "set_prv h p v = do { n \<leftarrow> deref h p; Some (h(p \<mapsto> n\<lparr>prv := v\<rparr>)) }"

definition set_nxt :: "heap \<Rightarrow> addr \<Rightarrow> addr \<Rightarrow> heap kernel" where
  "set_nxt h p v = do { n \<leftarrow> deref h p; Some (h(p \<mapsto> n\<lparr>nxt := v\<rparr>)) }"

definition head_of :: "addr \<Rightarrow> addr" where
  "head_of l = l"

definition tail_of :: "addr \<Rightarrow> addr" where
  "tail_of l = l + 8"

section \<open>Operations\<close>

definition is_head :: "heap \<Rightarrow> addr \<Rightarrow> bool kernel" where
  "is_head h e = (if e = NULL then Some False
                  else do { n \<leftarrow> deref h e; Some (prv n = NULL \<and> nxt n \<noteq> NULL) })"

definition is_interior :: "heap \<Rightarrow> addr \<Rightarrow> bool kernel" where
  "is_interior h e = (if e = NULL then Some False
                      else do { n \<leftarrow> deref h e; Some (prv n \<noteq> NULL \<and> nxt n \<noteq> NULL) })"

definition is_tail :: "heap \<Rightarrow> addr \<Rightarrow> bool kernel" where
  "is_tail h e = (if e = NULL then Some False
                  else do { n \<leftarrow> deref h e; Some (prv n \<noteq> NULL \<and> nxt n = NULL) })"

definition list_init :: "heap \<Rightarrow> addr \<Rightarrow> heap kernel" where
  "list_init h l = do {
     ASSERT (l \<noteq> NULL);
     h \<leftarrow> set_prv h (head_of l) NULL;
     h \<leftarrow> set_nxt h (head_of l) (tail_of l);
     h \<leftarrow> set_prv h (tail_of l) (head_of l);
     set_nxt h (tail_of l) NULL
   }"

definition list_begin :: "heap \<Rightarrow> addr \<Rightarrow> addr kernel" where
  "list_begin h l = do { ASSERT (l \<noteq> NULL); get_nxt h (head_of l) }"

definition list_next :: "heap \<Rightarrow> addr \<Rightarrow> addr kernel" where
  "list_next h e = do {
     a \<leftarrow> is_head h e;
     b \<leftarrow> is_interior h e;
     ASSERT (a \<or> b);
     get_nxt h e
   }"

definition list_end :: "addr \<Rightarrow> addr kernel" where
  "list_end l = do { ASSERT (l \<noteq> NULL); Some (tail_of l) }"

definition list_rbegin :: "heap \<Rightarrow> addr \<Rightarrow> addr kernel" where
  "list_rbegin h l = do { ASSERT (l \<noteq> NULL); get_prv h (tail_of l) }"

definition list_prev :: "heap \<Rightarrow> addr \<Rightarrow> addr kernel" where
  "list_prev h e = do {
     a \<leftarrow> is_interior h e;
     b \<leftarrow> is_tail h e;
     ASSERT (a \<or> b);
     get_prv h e
   }"

definition list_rend :: "addr \<Rightarrow> addr kernel" where
  "list_rend l = do { ASSERT (l \<noteq> NULL); Some (head_of l) }"

definition list_head :: "addr \<Rightarrow> addr kernel" where
  "list_head l = do { ASSERT (l \<noteq> NULL); Some (head_of l) }"

definition list_tail :: "addr \<Rightarrow> addr kernel" where
  "list_tail l = do { ASSERT (l \<noteq> NULL); Some (tail_of l) }"

definition list_insert :: "heap \<Rightarrow> addr \<Rightarrow> addr \<Rightarrow> heap kernel" where
  "list_insert h before e = do {
     a \<leftarrow> is_interior h before;
     b \<leftarrow> is_tail h before;
     ASSERT (a \<or> b);
     ASSERT (e \<noteq> NULL);
     p \<leftarrow> get_prv h before;
     h \<leftarrow> set_prv h e p;
     h \<leftarrow> set_nxt h e before;
     p \<leftarrow> get_prv h before;
     h \<leftarrow> set_nxt h p e;
     set_prv h before e
   }"

definition list_splice :: "heap \<Rightarrow> addr \<Rightarrow> addr \<Rightarrow> addr \<Rightarrow> heap kernel" where
  "list_splice h before first last_excl = do {
     a \<leftarrow> is_interior h before;
     b \<leftarrow> is_tail h before;
     ASSERT (a \<or> b);
     if first = last_excl then Some h
     else do {
       lst \<leftarrow> list_prev h last_excl;
       a \<leftarrow> is_interior h first;
       ASSERT a;
       b \<leftarrow> is_interior h lst;
       ASSERT b;
       p \<leftarrow> get_prv h first;
       q \<leftarrow> get_nxt h lst;
       h \<leftarrow> set_nxt h p q;
       q \<leftarrow> get_nxt h lst;
       p \<leftarrow> get_prv h first;
       h \<leftarrow> set_prv h q p;
       p \<leftarrow> get_prv h before;
       h \<leftarrow> set_prv h first p;
       h \<leftarrow> set_nxt h lst before;
       p \<leftarrow> get_prv h before;
       h \<leftarrow> set_nxt h p first;
       set_prv h before lst
     }
   }"

definition list_push_front :: "heap \<Rightarrow> addr \<Rightarrow> addr \<Rightarrow> heap kernel" where
  "list_push_front h l e = do { b \<leftarrow> list_begin h l; list_insert h b e }"

definition list_push_back :: "heap \<Rightarrow> addr \<Rightarrow> addr \<Rightarrow> heap kernel" where
  "list_push_back h l e = do { b \<leftarrow> list_end l; list_insert h b e }"

definition list_remove :: "heap \<Rightarrow> addr \<Rightarrow> (addr \<times> heap) kernel" where
  "list_remove h e = do {
     a \<leftarrow> is_interior h e;
     ASSERT a;
     p \<leftarrow> get_prv h e;
     n \<leftarrow> get_nxt h e;
     h \<leftarrow> set_nxt h p n;
     n \<leftarrow> get_nxt h e;
     p \<leftarrow> get_prv h e;
     h \<leftarrow> set_prv h n p;
     n \<leftarrow> get_nxt h e;
     Some (n, h)
   }"

definition list_empty :: "heap \<Rightarrow> addr \<Rightarrow> bool kernel" where
  "list_empty h l = do { b \<leftarrow> list_begin h l; e \<leftarrow> list_end l; Some (b = e) }"

definition list_front :: "heap \<Rightarrow> addr \<Rightarrow> addr kernel" where
  "list_front h l = do {
     e \<leftarrow> list_empty h l;
     ASSERT (\<not> e);
     get_nxt h (head_of l)
   }"

definition list_back :: "heap \<Rightarrow> addr \<Rightarrow> addr kernel" where
  "list_back h l = do {
     e \<leftarrow> list_empty h l;
     ASSERT (\<not> e);
     get_prv h (tail_of l)
   }"

definition list_pop_front :: "heap \<Rightarrow> addr \<Rightarrow> (addr \<times> heap) kernel" where
  "list_pop_front h l = do {
     front \<leftarrow> list_front h l;
     (_, h) \<leftarrow> list_remove h front;
     Some (front, h)
   }"

definition list_pop_back :: "heap \<Rightarrow> addr \<Rightarrow> (addr \<times> heap) kernel" where
  "list_pop_back h l = do {
     back \<leftarrow> list_back h l;
     (_, h) \<leftarrow> list_remove h back;
     Some (back, h)
   }"

partial_function (option) size_loop :: "heap \<Rightarrow> addr \<Rightarrow> addr \<Rightarrow> size_t \<Rightarrow> size_t kernel" where
  "size_loop h stop e cnt =
     (if e \<noteq> stop then do { e' \<leftarrow> list_next h e; size_loop h stop e' (cnt + 1) }
      else Some cnt)"

definition list_size :: "heap \<Rightarrow> addr \<Rightarrow> size_t kernel" where
  "list_size h l = do { b \<leftarrow> list_begin h l; e \<leftarrow> list_end l; size_loop h e b 0 }"

definition swap_links :: "heap \<Rightarrow> addr \<Rightarrow> heap kernel" where
  "swap_links h e = do {
     t \<leftarrow> get_prv h e;
     n \<leftarrow> get_nxt h e;
     h \<leftarrow> set_prv h e n;
     set_nxt h e t
   }"

partial_function (option) reverse_loop :: "heap \<Rightarrow> addr \<Rightarrow> addr \<Rightarrow> heap kernel" where
  "reverse_loop h stop e =
     (if e \<noteq> stop then do {
        h \<leftarrow> swap_links h e;
        e \<leftarrow> get_prv h e;
        reverse_loop h stop e
      } else Some h)"

definition list_reverse :: "heap \<Rightarrow> addr \<Rightarrow> heap kernel" where
  "list_reverse h l = do {
     em \<leftarrow> list_empty h l;
     if \<not> em then do {
       b \<leftarrow> list_begin h l;
       e \<leftarrow> list_end l;
       h \<leftarrow> reverse_loop h e b;
       t \<leftarrow> get_nxt h (head_of l);
       p \<leftarrow> get_prv h (tail_of l);
       h \<leftarrow> set_nxt h (head_of l) p;
       h \<leftarrow> set_prv h (tail_of l) t;
       f \<leftarrow> get_nxt h (head_of l);
       g \<leftarrow> get_prv h (tail_of l);
       t \<leftarrow> get_prv h f;
       n \<leftarrow> get_nxt h g;
       h \<leftarrow> set_prv h f n;
       set_nxt h g t
     } else Some h
   }"

type_synonym less_func = "addr \<Rightarrow> addr \<Rightarrow> bool"

partial_function (option) is_sorted_loop :: "less_func \<Rightarrow> heap \<Rightarrow> addr \<Rightarrow> addr \<Rightarrow> bool kernel" where
  "is_sorted_loop lt h b a = do {
     a \<leftarrow> list_next h a;
     if a \<noteq> b then do {
       p \<leftarrow> list_prev h a;
       if lt a p then Some False else is_sorted_loop lt h b a
     } else Some True
   }"

definition is_sorted :: "less_func \<Rightarrow> heap \<Rightarrow> addr \<Rightarrow> addr \<Rightarrow> bool kernel" where
  "is_sorted lt h a b = (if a \<noteq> b then is_sorted_loop lt h b a else Some True)"

partial_function (option) run_loop :: "less_func \<Rightarrow> heap \<Rightarrow> addr \<Rightarrow> addr \<Rightarrow> addr kernel" where
  "run_loop lt h b a = do {
     a \<leftarrow> list_next h a;
     if a \<noteq> b then do {
       p \<leftarrow> list_prev h a;
       if \<not> lt a p then run_loop lt h b a else Some a
     } else Some a
   }"

definition find_end_of_run :: "less_func \<Rightarrow> heap \<Rightarrow> addr \<Rightarrow> addr \<Rightarrow> addr kernel" where
  "find_end_of_run lt h a b = do {
     ASSERT (a \<noteq> NULL);
     ASSERT (b \<noteq> NULL);
     ASSERT (a \<noteq> b);
     run_loop lt h b a
   }"

partial_function (option) merge_loop ::
    "less_func \<Rightarrow> addr \<Rightarrow> heap \<Rightarrow> addr \<Rightarrow> addr \<Rightarrow> heap kernel" where
  "merge_loop lt b1 h a0 a1b0 =
     (if a0 \<noteq> a1b0 \<and> a1b0 \<noteq> b1
      then if \<not> lt a1b0 a0
           then do { a0 \<leftarrow> list_next h a0; merge_loop lt b1 h a0 a1b0 }
           else do {
             a1b0 \<leftarrow> list_next h a1b0;
             p \<leftarrow> list_prev h a1b0;
             h \<leftarrow> list_splice h a0 p a1b0;
             merge_loop lt b1 h a0 a1b0
           }
      else Some h)"

definition inplace_merge :: "less_func \<Rightarrow> heap \<Rightarrow> addr \<Rightarrow> addr \<Rightarrow> addr \<Rightarrow> heap kernel" where
  "inplace_merge lt h a0 a1b0 b1 = do {
     ASSERT (a0 \<noteq> NULL);
     ASSERT (a1b0 \<noteq> NULL);
     ASSERT (b1 \<noteq> NULL);
     s \<leftarrow> is_sorted lt h a0 a1b0;
     ASSERT s;
     s \<leftarrow> is_sorted lt h a1b0 b1;
     ASSERT s;
     merge_loop lt b1 h a0 a1b0
   }"

partial_function (option) pass_loop ::
    "less_func \<Rightarrow> addr \<Rightarrow> heap \<Rightarrow> addr \<Rightarrow> size_t \<Rightarrow> (size_t \<times> heap) kernel" where
  "pass_loop lt stop h a0 output_run_cnt =
     (if a0 \<noteq> stop then do {
        let output_run_cnt = output_run_cnt + 1;
        a1b0 \<leftarrow> find_end_of_run lt h a0 stop;
        if a1b0 = stop then Some (output_run_cnt, h)
        else do {
          b1 \<leftarrow> find_end_of_run lt h a1b0 stop;
          h \<leftarrow> inplace_merge lt h a0 a1b0 b1;
          pass_loop lt stop h b1 output_run_cnt
        }
      } else Some (output_run_cnt, h))"

partial_function (option) sort_loop :: "less_func \<Rightarrow> addr \<Rightarrow> heap \<Rightarrow> heap kernel" where
  "sort_loop lt l h = do {
     b \<leftarrow> list_begin h l;
     e \<leftarrow> list_end l;
     (output_run_cnt, h) \<leftarrow> pass_loop lt e h b 0;
     if 1 < output_run_cnt then sort_loop lt l h else Some h
   }"

definition list_sort :: "less_func \<Rightarrow> heap \<Rightarrow> addr \<Rightarrow> heap kernel" where
  "list_sort lt h l = do {
     ASSERT (l \<noteq> NULL);
     h \<leftarrow> sort_loop lt l h;
     b \<leftarrow> list_begin h l;
     e \<leftarrow> list_end l;
     s \<leftarrow> is_sorted lt h b e;
     ASSERT s;
     Some h
   }"

partial_function (option) ordered_loop ::
    "less_func \<Rightarrow> heap \<Rightarrow> addr \<Rightarrow> addr \<Rightarrow> addr \<Rightarrow> addr kernel" where
  "ordered_loop lt h stop x e =
     (if e \<noteq> stop
      then if lt x e then Some e
           else do { e \<leftarrow> list_next h e; ordered_loop lt h stop x e }
      else Some e)"

definition list_insert_ordered :: "less_func \<Rightarrow> heap \<Rightarrow> addr \<Rightarrow> addr \<Rightarrow> heap kernel" where
  "list_insert_ordered lt h l x = do {
     ASSERT (l \<noteq> NULL);
     ASSERT (x \<noteq> NULL);
     b \<leftarrow> list_begin h l;
     t \<leftarrow> list_end l;
     e \<leftarrow> ordered_loop lt h t x b;
     list_insert h e x
   }"

partial_function (option) unique_loop ::
    "less_func \<Rightarrow> addr \<Rightarrow> addr \<Rightarrow> heap \<Rightarrow> addr \<Rightarrow> heap kernel" where
  "unique_loop lt stop duplicates h e = do {
     n \<leftarrow> list_next h e;
     if n \<noteq> stop
     then if \<not> lt e n \<and> \<not> lt n e
          then do {
            (_, h) \<leftarrow> list_remove h n;
            h \<leftarrow> (if duplicates \<noteq> NULL then list_push_back h duplicates n else Some h);
            unique_loop lt stop duplicates h e
          }
          else unique_loop lt stop duplicates h n
     else Some h
   }"

definition list_unique :: "less_func \<Rightarrow> heap \<Rightarrow> addr \<Rightarrow> addr \<Rightarrow> heap kernel" where
  "list_unique lt h l duplicates = do {
     ASSERT (l \<noteq> NULL);
     em \<leftarrow> list_empty h l;
     if em then Some h
     else do {
       b \<leftarrow> list_begin h l;
       e \<leftarrow> list_end l;
       unique_loop lt e duplicates h b
     }
   }"

partial_function (option) max_loop ::
    "less_func \<Rightarrow> heap \<Rightarrow> addr \<Rightarrow> addr \<Rightarrow> addr \<Rightarrow> addr kernel" where
  "max_loop lt h stop m e =
     (if e \<noteq> stop
      then do { e' \<leftarrow> list_next h e; max_loop lt h stop (if lt m e then e else m) e' }
      else Some m)"

definition list_max :: "less_func \<Rightarrow> heap \<Rightarrow> addr \<Rightarrow> addr kernel" where
  "list_max lt h l = do {
     m \<leftarrow> list_begin h l;
     t \<leftarrow> list_end l;
     if m \<noteq> t then do { e \<leftarrow> list_next h m; max_loop lt h t m e } else Some m
   }"

partial_function (option) min_loop ::
    "less_func \<Rightarrow> heap \<Rightarrow> addr \<Rightarrow> addr \<Rightarrow> addr \<Rightarrow> addr kernel" where
  "min_loop lt h stop m e =
     (if e \<noteq> stop
      then do { e' \<leftarrow> list_next h e; min_loop lt h stop (if lt e m then e else m) e' }
      else Some m)"

definition list_min :: "less_func \<Rightarrow> heap \<Rightarrow> addr \<Rightarrow> addr kernel" where
  "list_min lt h l = do {
     m \<leftarrow> list_begin h l;
     t \<leftarrow> list_end l;
     if m \<noteq> t then do { e \<leftarrow> list_next h m; min_loop lt h t m e } else Some m
   }"

end
