(* ===== verification/Fifo.thy ===== *)
theory Fifo
  imports Main
begin

text \<open>
  The contract of a first-in first-out queue, met by the kernel's linked lists when used
  with \<^verbatim>\<open>list_push_back\<close> and \<^verbatim>\<open>list_pop_front\<close> (ready list, semaphore waiters) and by
  the ring buffer of \<^verbatim>\<open>devices/intq.c\<close>.  The representation relation connects a
  concrete state with the sequence it stands for; \<open>room\<close> is what a client has to know
  before it may push.
\<close>

section \<open>Clients\<close>

datatype 'a queue_op = Push 'a | Pop

fun queue_run :: "('s \<Rightarrow> 'a \<Rightarrow> 's option) \<Rightarrow> ('s \<Rightarrow> ('a \<times> 's) option) \<Rightarrow>
    'a queue_op list \<Rightarrow> 's \<Rightarrow> ('a list \<times> 's) option" where
  "queue_run push pop [] s = Some ([], s)"
| "queue_run push pop (Push a # ops) s =
     (case push s a of None \<Rightarrow> None | Some s' \<Rightarrow> queue_run push pop ops s')"
| "queue_run push pop (Pop # ops) s =
     (case pop s of None \<Rightarrow> None
      | Some (a, s') \<Rightarrow> map_option (\<lambda>(out, s''). (a # out, s'')) (queue_run push pop ops s'))"

fun pushed :: "'a queue_op list \<Rightarrow> 'a list" where
  "pushed [] = []"
| "pushed (Push a # ops) = a # pushed ops"
| "pushed (Pop # ops) = pushed ops"

fun legal :: "('a list \<Rightarrow> 'a \<Rightarrow> bool) \<Rightarrow> 'a queue_op list \<Rightarrow> 'a list \<Rightarrow> bool" where
  "legal room [] xs = True"
| "legal room (Push a # ops) xs = (room xs a \<and> legal room ops (xs @ [a]))"
| "legal room (Pop # ops) xs = (xs \<noteq> [] \<and> legal room ops (tl xs))"

section \<open>The contract\<close>

locale fifo =
  fixes rep :: "'s \<Rightarrow> 'a list \<Rightarrow> bool"
    and room :: "'a list \<Rightarrow> 'a \<Rightarrow> bool"
    and push :: "'s \<Rightarrow> 'a \<Rightarrow> 's option"
    and pop :: "'s \<Rightarrow> ('a \<times> 's) option"
  assumes push_back: "rep s xs \<Longrightarrow> room xs a \<Longrightarrow> \<exists>s'. push s a = Some s' \<and> rep s' (xs @ [a])"
    and pop_front: "rep s (x # xs) \<Longrightarrow> \<exists>s'. pop s = Some (x, s') \<and> rep s' xs"
begin

lemma client_order:
  "rep s xs \<Longrightarrow> legal room ops xs \<Longrightarrow>
     \<exists>out s' ys. queue_run push pop ops s = Some (out, s') \<and> rep s' ys \<and> out @ ys = xs @ pushed ops"
proof (induction ops arbitrary: s xs)
  case (Cons op ops)
  show ?case
  proof (cases op)
    case (Push a)
    then show ?thesis
      using push_back [OF Cons.prems(1)] Cons by fastforce
  next
    case Pop
    then obtain x xs' where xs: "xs = x # xs'"
      using Cons.prems by (cases xs) auto
    then show ?thesis
      using pop_front Pop Cons by fastforce
  qed
qed simp

end

end
