(* ===== verification/Klist_Spec.thy ===== *)
theory Klist_Spec
  imports Klist Fifo
begin

text \<open>
  The lists of \<^verbatim>\<open>lib/kernel/list.c\<close> as sequences.  \<open>klist h l xs\<close> says that in the store
  \<open>h\<close> the list at \<open>l\<close> is well formed and links exactly the elements \<open>xs\<close>, in that
  order.  Every operation is shown to return on well-formed lists, to implement the
  operation on sequences its comment promises, and to write to no element outside the list
  (\<open>same_outside\<close>).
\<close>

section \<open>Links and well-formed lists\<close>

definition nxt_of :: "heap \<Rightarrow> addr \<Rightarrow> addr option" where
  "nxt_of h p = map_option nxt (h p)"

definition prv_of :: "heap \<Rightarrow> addr \<Rightarrow> addr option" where
  "prv_of h p = map_option prv (h p)"

definition upd_nxt :: "heap \<Rightarrow> addr \<Rightarrow> addr \<Rightarrow> heap" where
  "upd_nxt h p v = h(p := map_option (\<lambda>n. n\<lparr>nxt := v\<rparr>) (h p))"

definition upd_prv :: "heap \<Rightarrow> addr \<Rightarrow> addr \<Rightarrow> heap" where
  "upd_prv h p v = h(p := map_option (\<lambda>n. n\<lparr>prv := v\<rparr>) (h p))"

fun chain :: "heap \<Rightarrow> addr \<Rightarrow> addr list \<Rightarrow> addr \<Rightarrow> bool" where
  "chain h a [] c = True"
| "chain h a [x] c = (h x = Some \<lparr>prv = a, nxt = c\<rparr>)"
| "chain h a (x # y # zs) c = (h x = Some \<lparr>prv = a, nxt = y\<rparr> \<and> chain h x (y # zs) c)"

definition nodes :: "addr \<Rightarrow> addr list \<Rightarrow> addr list" where
  "nodes l xs = head_of l # xs @ [tail_of l]"

definition klist :: "heap \<Rightarrow> addr \<Rightarrow> addr list \<Rightarrow> bool" where
  "klist h l xs \<longleftrightarrow> distinct (NULL # nodes l xs) \<and> chain h NULL (nodes l xs) NULL"

definition same_outside :: "addr set \<Rightarrow> heap \<Rightarrow> heap \<Rightarrow> bool" where
  "same_outside S h h' \<longleftrightarrow> dom h' = dom h \<and> (\<forall>p. p \<notin> S \<longrightarrow> h' p = h p)"

section \<open>Reading and writing one link\<close>

lemma nxt_of_upd [simp]:
  "nxt_of (upd_nxt h p v) x = (if x = p then map_option (\<lambda>_. v) (h p) else nxt_of h x)"
  "nxt_of (upd_prv h p v) x = nxt_of h x"
  by (auto simp: nxt_of_def upd_nxt_def upd_prv_def option.map_comp comp_def)

lemma prv_of_upd [simp]:
  "prv_of (upd_prv h p v) x = (if x = p then map_option (\<lambda>_. v) (h p) else prv_of h x)"
  "prv_of (upd_nxt h p v) x = prv_of h x"
  by (auto simp: prv_of_def upd_nxt_def upd_prv_def option.map_comp comp_def)

lemma upd_None_iff [simp]:
  "upd_nxt h p v x = None \<longleftrightarrow> h x = None" "upd_prv h p v x = None \<longleftrightarrow> h x = None"
  by (auto simp: upd_nxt_def upd_prv_def)

lemma upd_other [simp]: "x \<noteq> p \<Longrightarrow> upd_nxt h p v x = h x" "x \<noteq> p \<Longrightarrow> upd_prv h p v x = h x"
  by (auto simp: upd_nxt_def upd_prv_def)

lemma alloc_nxt [dest]: "nxt_of h p = Some v \<Longrightarrow> h p \<noteq> None"
  by (auto simp: nxt_of_def)

lemma alloc_prv [dest]: "prv_of h p = Some v \<Longrightarrow> h p \<noteq> None"
  by (auto simp: prv_of_def)

lemma map_const_alloc [simp]: "h p \<noteq> None \<Longrightarrow> map_option (\<lambda>_. v) (h p) = Some v"
  by auto

lemma deref_Some: "p \<noteq> NULL \<Longrightarrow> deref h p = h p"
  by (simp add: deref_def)

lemma set_nxt_eval [kernel_simps]: "p \<noteq> NULL \<Longrightarrow> h p \<noteq> None \<Longrightarrow> set_nxt h p v = Some (upd_nxt h p v)"
  by (auto simp: set_nxt_def deref_def upd_nxt_def)

lemma set_prv_eval [kernel_simps]: "p \<noteq> NULL \<Longrightarrow> h p \<noteq> None \<Longrightarrow> set_prv h p v = Some (upd_prv h p v)"
  by (auto simp: set_prv_def deref_def upd_prv_def)

lemma get_nxt_eval [kernel_simps]: "p \<noteq> NULL \<Longrightarrow> get_nxt h p = nxt_of h p"
  by (simp add: get_nxt_def deref_def nxt_of_def)

lemma get_prv_eval [kernel_simps]: "p \<noteq> NULL \<Longrightarrow> get_prv h p = prv_of h p"
  by (simp add: get_prv_def deref_def prv_of_def)

lemma list_next_eval:
  "e \<noteq> NULL \<Longrightarrow> nxt_of h e = Some b \<Longrightarrow> b \<noteq> NULL \<Longrightarrow> list_next h e = Some b"
  by (auto simp: list_next_def is_head_def is_interior_def deref_def get_nxt_def nxt_of_def ASSERT_def)

lemma list_prev_eval:
  "e \<noteq> NULL \<Longrightarrow> prv_of h e = Some b \<Longrightarrow> b \<noteq> NULL \<Longrightarrow> list_prev h e = Some b"
  by (auto simp: list_prev_def is_interior_def is_tail_def deref_def get_prv_def prv_of_def ASSERT_def)

lemma is_interior_eval:
  "e \<noteq> NULL \<Longrightarrow> nxt_of h e = Some n \<Longrightarrow> prv_of h e = Some p \<Longrightarrow>
     is_interior h e = Some (p \<noteq> NULL \<and> n \<noteq> NULL)"
  by (auto simp: is_interior_def deref_def nxt_of_def prv_of_def)

lemma insertable_eval:
  assumes "e \<noteq> NULL" and "prv_of h e = Some p" and "p \<noteq> NULL"
  obtains a b where "is_interior h e = Some a" and "is_tail h e = Some b" and "a \<or> b"
proof -
  obtain n where "h e = Some n" "prv n = p"
    using assms(2) by (auto simp: prv_of_def)
  then show ?thesis
    using that [of "nxt n \<noteq> NULL" "nxt n = NULL"] assms
    by (simp add: is_interior_def is_tail_def deref_def)
qed

section \<open>Chains of links\<close>

lemma chain_append:
  "chain h a (X @ p # q # Y) c \<longleftrightarrow> chain h a (X @ [p]) q \<and> chain h p (q # Y) c"
proof (induction X arbitrary: a)
  case (Cons x X)
  then show ?case
    by (cases X) auto
qed simp

lemma chain_append3:
  assumes "S = f # T" and "S = T' @ [n]"
  shows "chain h a (X @ p # S @ q # Y) c \<longleftrightarrow>
           chain h a (X @ [p]) f \<and> chain h p S q \<and> chain h n (q # Y) c"
proof -
  have "chain h a (X @ p # S @ q # Y) c \<longleftrightarrow> chain h a (X @ [p]) f \<and> chain h p (S @ q # Y) c"
    using chain_append [of h a X p f "T @ q # Y" c] assms(1) by simp
  also have "chain h p (S @ q # Y) c \<longleftrightarrow> chain h p S q \<and> chain h n (q # Y) c"
    using chain_append [of h p T' n q Y c] assms(2) by simp
  finally show ?thesis .
qed

lemma chain_snoc_split:
  assumes "S = f # T" and "S = T' @ [n]"
  shows "chain h p (f # T @ q # Y) c \<longleftrightarrow> chain h p S q \<and> chain h n (q # Y) c"
proof -
  have eq: "f # T @ q # Y = T' @ n # q # Y"
    using assms by (metis append.assoc append_Cons append_Nil)
  show ?thesis
    unfolding eq assms(2) by (rule chain_append)
qed

lemma chain_cong: "(\<And>p. p \<in> set X \<Longrightarrow> h' p = h p) \<Longrightarrow> chain h' a X c = chain h a X c"
  by (induction h a X c rule: chain.induct) auto

lemma chain_frame [simp]:
  "p \<notin> set X \<Longrightarrow> chain (upd_nxt h p v) a X c = chain h a X c"
  "p \<notin> set X \<Longrightarrow> chain (upd_prv h p v) a X c = chain h a X c"
  by (auto intro!: chain_cong simp: upd_nxt_def upd_prv_def)

lemma chain_right:
  assumes "chain h a (X @ [p]) c" and "p \<notin> set X"
  shows "chain (upd_nxt h p v) a (X @ [p]) v"
proof (cases X rule: rev_cases)
  case Nil
  then show ?thesis
    using assms by (simp add: upd_nxt_def)
next
  case (snoc Y y)
  then show ?thesis
    using assms chain_append [of h a Y y p "[]" c] chain_append [of "upd_nxt h p v" a Y y p "[]" v]
    by (simp add: upd_nxt_def [of h p v, THEN fun_cong, of p])
qed

lemma chain_left:
  assumes "chain h a (f # X) c" and "f \<notin> set X"
  shows "chain (upd_prv h f v) v (f # X) c"
  using assms by (cases X) (auto simp: upd_prv_def intro: chain_cong [THEN iffD1, rotated])

lemma chain_alloc: "chain h a X c \<Longrightarrow> p \<in> set X \<Longrightarrow> h p \<noteq> None"
  by (induction h a X c rule: chain.induct) auto

lemma chain_last: "chain h a (X @ [p]) c \<Longrightarrow> nxt_of h p = Some c"
  by (induction X arbitrary: a rule: rev_induct) (auto simp: nxt_of_def chain_append)

lemma chain_first: "chain h a (f # X) c \<Longrightarrow> prv_of h f = Some a"
  by (cases X) (auto simp: prv_of_def)

section \<open>Frames\<close>

lemma same_outside_refl [simp]: "same_outside S h h"
  by (simp add: same_outside_def)

lemma same_outside_trans:
  "same_outside S h h' \<Longrightarrow> same_outside T h' h'' \<Longrightarrow> same_outside (S \<union> T) h h''"
  by (auto simp: same_outside_def)

lemma same_outside_mono: "same_outside S h h' \<Longrightarrow> S \<subseteq> T \<Longrightarrow> same_outside T h h'"
  by (auto simp: same_outside_def)

lemma same_outside_upd [simp]:
  "p \<in> S \<Longrightarrow> same_outside S h (upd_nxt h' p v) = same_outside S h h'"
  "p \<in> S \<Longrightarrow> same_outside S h (upd_prv h' p v) = same_outside S h h'"
proof -
  have dom: "dom (upd_nxt h' p v) = dom h'" "dom (upd_prv h' p v) = dom h'"
    by (auto simp: dom_def)
  show "same_outside S h (upd_nxt h' p v) = same_outside S h h'" if "p \<in> S"
    unfolding same_outside_def dom using that by (metis upd_other(1))
  show "same_outside S h (upd_prv h' p v) = same_outside S h h'" if "p \<in> S"
    unfolding same_outside_def dom using that by (metis upd_other(2))
qed

lemma klist_outside:
  assumes "klist h m ys" and "same_outside S h h'" and "S \<inter> set (nodes m ys) = {}"
  shows "klist h' m ys"
proof -
  have "chain h' NULL (nodes m ys) NULL = chain h NULL (nodes m ys) NULL"
    using assms(2,3) by (intro chain_cong) (auto simp: same_outside_def)
  then show ?thesis
    using assms(1) by (simp add: klist_def)
qed

section \<open>Positions in a well-formed list\<close>

lemma split_ends:
  obtains X p b Y where "head_of l # A = X @ [p]" and "B @ [tail_of l] = b # Y"
    and "b = hd (B @ [tail_of l])"
proof -
  obtain X p where "head_of l # A = X @ [p]"
    by (cases "head_of l # A" rule: rev_cases) auto
  moreover obtain b Y where "B @ [tail_of l] = b # Y"
    by (cases "B @ [tail_of l]") auto
  ultimately show ?thesis
    using that by simp
qed

lemma nodes_split:
  assumes "head_of l # A = X @ [p]" and "B @ [tail_of l] = b # Y"
  shows "nodes l (A @ B) = X @ p # b # Y"
proof -
  have "nodes l (A @ B) = (head_of l # A) @ (B @ [tail_of l])"
    by (simp add: nodes_def)
  then show ?thesis
    unfolding assms by simp
qed

lemma klist_split:
  assumes "head_of l # A = X @ [p]" and "B @ [tail_of l] = b # Y"
  shows "klist h l (A @ B) \<longleftrightarrow> distinct (NULL # X @ p # b # Y) \<and>
           chain h NULL (X @ [p]) b \<and> chain h p (b # Y) NULL"
  unfolding klist_def nodes_split [OF assms] by (auto simp: chain_append)

lemma klist_facts:
  assumes "klist h l xs"
  shows "head_of l \<noteq> NULL" and "tail_of l \<noteq> NULL" and "head_of l \<notin> set xs" and "tail_of l \<notin> set xs"
    and "head_of l \<noteq> tail_of l" and "distinct xs" and "NULL \<notin> set xs" and "l \<noteq> NULL"
    and "NULL \<notin> set (nodes l xs)" and "distinct (nodes l xs)"
  using assms by (auto simp: klist_def nodes_def head_of_def)

lemma klist_alloc: "klist h l xs \<Longrightarrow> p \<in> set (nodes l xs) \<Longrightarrow> h p \<noteq> None"
  using chain_alloc by (auto simp: klist_def)

lemma klist_next:
  assumes "klist h l (A @ B)" and "head_of l # A = X @ [p]"
  shows "list_next h p = Some (hd (B @ [tail_of l]))"
proof -
  obtain b Y where b: "B @ [tail_of l] = b # Y"
    by (cases "B @ [tail_of l]") auto
  show ?thesis
    using assms(1) unfolding klist_split [OF assms(2) b]
    by (intro list_next_eval) (auto simp: b dest: chain_last)
qed

lemma klist_prev:
  assumes "klist h l (A @ B)" and "B @ [tail_of l] = b # Y"
  shows "list_prev h b = Some (last (head_of l # A))"
proof -
  obtain X p where p: "head_of l # A = X @ [p]"
    by (cases "head_of l # A" rule: rev_cases) auto
  show ?thesis
    using assms(1) unfolding klist_split [OF p assms(2)] p
    by (intro list_prev_eval) (auto dest: chain_first)
qed

lemma klist_next_elem:
  assumes "klist h l (A @ x # B)"
  shows "list_next h x = Some (hd (B @ [tail_of l]))"
  using klist_next [of h l "A @ [x]" B "head_of l # A" x] assms by simp

lemma klist_prev_elem: "klist h l (A @ x # y # B) \<Longrightarrow> list_prev h y = Some x"
  using klist_prev [of h l "A @ [x]" "y # B" y "B @ [tail_of l]"] by simp

lemma klist_prev_last: "klist h l (A @ [x]) \<Longrightarrow> list_prev h (tail_of l) = Some x"
  using klist_prev [of h l "A @ [x]" "[]" "tail_of l" "[]"] by simp

lemma klist_interior:
  assumes "klist h l (A @ x # B)"
  shows "is_interior h x = Some True"
proof -
  obtain X p b Y where s: "head_of l # A = X @ [p]" "B @ [tail_of l] = b # Y"
    by (rule split_ends)
  have "(x # B) @ [tail_of l] = x # b # Y"
    using s by simp
  from assms [unfolded klist_split [OF s(1) this]] show ?thesis
    by (auto simp: is_interior_def deref_def)
qed

lemma klist_begin: "klist h l xs \<Longrightarrow> list_begin h l = Some (hd (xs @ [tail_of l]))"
  by (cases xs) (auto simp: list_begin_def kernel_simps klist_def nodes_def head_of_def nxt_of_def)

lemma klist_end: "klist h l xs \<Longrightarrow> list_end l = Some (tail_of l)"
  using klist_facts(8) [of h l xs] by (simp add: list_end_def kernel_simps)

lemma klist_empty:
  assumes "klist h l xs"
  shows "list_empty h l = Some (xs = [])"
  using klist_facts(4) [OF assms]
  by (cases xs) (auto simp: list_empty_def klist_begin [OF assms] klist_end [OF assms])

section \<open>Insertion and removal\<close>

lemma list_insert_eval:
  assumes "b \<noteq> NULL" "prv_of h b = Some p" "p \<noteq> NULL" "h p \<noteq> None" "e \<noteq> NULL" "h e \<noteq> None" "e \<noteq> b"
  shows "list_insert h b e = Some (upd_prv (upd_nxt (upd_nxt (upd_prv h e p) e b) p e) b e)"
proof -
  obtain x y where xy: "is_interior h b = Some x" "is_tail h b = Some y" "x \<or> y"
    using insertable_eval [OF assms(1-3)] .
  have "h b \<noteq> None"
    using assms(2) by auto
  then show ?thesis
    using assms xy by (simp add: list_insert_def kernel_simps)
qed

lemma klist_insert:
  assumes kl: "klist h l (A @ B)" and e: "e \<noteq> NULL" "h e \<noteq> None" "e \<notin> set (nodes l (A @ B))"
  obtains h' where "list_insert h (hd (B @ [tail_of l])) e = Some h'" and "klist h' l (A @ e # B)"
    and "same_outside (insert e (set (nodes l (A @ B)))) h h'"
proof -
  obtain X p b Y where s: "head_of l # A = X @ [p]" "B @ [tail_of l] = b # Y" "b = hd (B @ [tail_of l])"
    by (rule split_ends)
  have n: "set (nodes l (A @ B)) = set (X @ p # b # Y)"
    by (simp only: nodes_split [OF s(1,2)])
  have c: "distinct (NULL # X @ p # b # Y)" "chain h NULL (X @ [p]) b" "chain h p (b # Y) NULL"
    using kl by (simp_all add: klist_split [OF s(1,2)])
  have eo: "e \<notin> set X" "e \<noteq> p" "e \<noteq> b" "e \<notin> set Y"
    using e(3) n by auto
  let ?h = "upd_prv (upd_nxt (upd_nxt (upd_prv h e p) e b) p e) b e"
  have "list_insert h b e = Some ?h"
    using c e(1,2) eo chain_alloc [OF c(2)] by (intro list_insert_eval) (auto dest: chain_first)
  moreover have "klist ?h l (A @ e # B)"
  proof -
    have 1: "chain ?h NULL (X @ [p]) e"
      using c eo chain_right [of "upd_nxt (upd_prv h e p) e b" NULL X p b e] by auto
    have 2: "chain ?h e (b # Y) NULL"
      using c eo chain_left [of "upd_nxt (upd_nxt (upd_prv h e p) e b) p e" p b Y NULL e] by auto
    have 3: "?h e = Some \<lparr>prv = p, nxt = b\<rparr>"
      using e(2) eo by (auto simp: upd_prv_def upd_nxt_def)
    have "(e # B) @ [tail_of l] = e # b # Y"
      using s by simp
    then show ?thesis
      using c(1) e(1) eo 1 2 3 by (subst klist_split [OF s(1)]) auto
  qed
  moreover have "same_outside (insert e (set (nodes l (A @ B)))) h ?h"
    unfolding n by simp
  ultimately show ?thesis
    using that s(3) by simp
qed

lemma klist_push_front:
  assumes kl: "klist h l xs" and e: "e \<noteq> NULL" "h e \<noteq> None" "e \<notin> set (nodes l xs)"
  obtains h' where "list_push_front h l e = Some h'" and "klist h' l (e # xs)"
    and "same_outside (insert e (set (nodes l xs))) h h'"
  using klist_insert [of h l "[]" xs e] assms
  by (auto simp: list_push_front_def klist_begin [OF kl])

lemma klist_push_back:
  assumes kl: "klist h l xs" and e: "e \<noteq> NULL" "h e \<noteq> None" "e \<notin> set (nodes l xs)"
  obtains h' where "list_push_back h l e = Some h'" and "klist h' l (xs @ [e])"
    and "same_outside (insert e (set (nodes l xs))) h h'"
  using klist_insert [of h l xs "[]" e] assms
  by (auto simp: list_push_back_def klist_end [OF kl])

lemma klist_remove:
  assumes kl: "klist h l (A @ x # B)"
  obtains h' where "list_remove h x = Some (hd (B @ [tail_of l]), h')" and "klist h' l (A @ B)"
    and "same_outside (set (nodes l (A @ B))) h h'"
proof -
  obtain X p b Y where s: "head_of l # A = X @ [p]" "B @ [tail_of l] = b # Y" "b = hd (B @ [tail_of l])"
    by (rule split_ends)
  have "(x # B) @ [tail_of l] = x # b # Y"
    using s by simp
  from kl [unfolded klist_split [OF s(1) this]]
  have d: "distinct (NULL # X @ p # x # b # Y)" and c: "chain h NULL (X @ [p]) x" "chain h x (b # Y) NULL"
    and x: "h x = Some \<lparr>prv = p, nxt = b\<rparr>"
    by auto
  let ?h = "upd_prv (upd_nxt h p b) b p"
  have "list_remove h x = Some (b, ?h)"
    using d x chain_alloc [OF c(1)] chain_alloc [OF c(2)] klist_interior [OF kl]
    by (auto simp: list_remove_def kernel_simps nxt_of_def prv_of_def upd_nxt_def upd_prv_def)
  moreover have "klist ?h l (A @ B)"
  proof -
    have "chain ?h NULL (X @ [p]) b"
      using c d chain_right [of h NULL X p x b] by auto
    moreover have "chain ?h p (b # Y) NULL"
      using c d chain_left [of "upd_nxt h p b" x b Y NULL p] by auto
    ultimately show ?thesis
      using d by (simp add: klist_split [OF s(1,2)])
  qed
  moreover have "same_outside (set (nodes l (A @ B))) h ?h"
    by (simp add: nodes_split [OF s(1,2)])
  ultimately show ?thesis
    using that s(3) by simp
qed

lemma klist_front: "klist h l (x # xs) \<Longrightarrow> list_front h l = Some x"
  using klist_begin [of h l "x # xs"] klist_facts(8) [of h l "x # xs"]
  by (simp add: list_front_def klist_empty list_begin_def kernel_simps)

lemma klist_back:
  assumes "klist h l (xs @ [x])"
  shows "list_back h l = Some x"
proof -
  have "chain h NULL ((head_of l # xs) @ x # [tail_of l]) NULL"
    using assms by (simp add: klist_def nodes_def)
  then have "h (tail_of l) = Some \<lparr>prv = x, nxt = NULL\<rparr>"
    unfolding chain_append by simp
  then show ?thesis
    using klist_facts(2) [OF assms]
    by (simp add: list_back_def klist_empty [OF assms] kernel_simps prv_of_def)
qed

lemma klist_pop_front:
  assumes kl: "klist h l (x # xs)"
  obtains h' where "list_pop_front h l = Some (x, h')" and "klist h' l xs"
    and "same_outside (set (nodes l xs)) h h'"
proof -
  have "klist h l ([] @ x # xs)"
    using kl by simp
  then obtain h' where "list_remove h x = Some (hd (xs @ [tail_of l]), h')" "klist h' l ([] @ xs)"
      "same_outside (set (nodes l ([] @ xs))) h h'"
    by (rule klist_remove)
  then show ?thesis
    using that by (simp add: list_pop_front_def klist_front [OF kl])
qed

lemma klist_pop_back:
  assumes kl: "klist h l (xs @ [x])"
  obtains h' where "list_pop_back h l = Some (x, h')" and "klist h' l xs"
    and "same_outside (set (nodes l xs)) h h'"
proof -
  have "klist h l (xs @ x # [])"
    using kl by simp
  then obtain h' where "list_remove h x = Some (hd ([] @ [tail_of l]), h')" "klist h' l (xs @ [])"
      "same_outside (set (nodes l (xs @ []))) h h'"
    by (rule klist_remove)
  then show ?thesis
    using that by (simp add: list_pop_back_def klist_back [OF kl])
qed

lemma klist_init:
  assumes "l \<noteq> NULL" and "tail_of l \<noteq> NULL" and "h (head_of l) \<noteq> None" and "h (tail_of l) \<noteq> None"
  obtains h' where "list_init h l = Some h'" and "klist h' l []"
    and "same_outside {head_of l, tail_of l} h h'"
proof -
  let ?h = "upd_nxt (upd_prv (upd_nxt (upd_prv h (head_of l) NULL) (head_of l) (tail_of l))
              (tail_of l) (head_of l)) (tail_of l) NULL"
  have ne: "head_of l \<noteq> tail_of l"
    by (simp add: head_of_def tail_of_def)
  have "list_init h l = Some ?h"
    using assms by (simp add: list_init_def kernel_simps head_of_def)
  moreover have "klist ?h l []"
    using assms ne by (auto simp: klist_def nodes_def upd_nxt_def upd_prv_def head_of_def)
  moreover have "same_outside {head_of l, tail_of l} h ?h"
    by simp
  ultimately show ?thesis
    by (rule that)
qed

section \<open>Splicing\<close>

lemma list_splice_eval:
  assumes b: "b \<noteq> NULL" "prv_of h b = Some a" "a \<noteq> NULL" "h a \<noteq> None"
    and f: "f \<noteq> NULL" "f \<noteq> e" "is_interior h f = Some True" "prv_of h f = Some p" "p \<noteq> NULL" "h p \<noteq> None"
    and n: "list_prev h e = Some n" "n \<noteq> NULL" "is_interior h n = Some True" "nxt_of h n = Some q"
      "q \<noteq> NULL" "h q \<noteq> None"
    and ne: "p \<noteq> n" "f \<noteq> q" "b \<noteq> q" "b \<noteq> f"
  shows "list_splice h b f e = Some
    (upd_prv (upd_nxt (upd_nxt (upd_prv (upd_prv (upd_nxt h p q) q p) f a) n b) a f) b n)"
proof -
  obtain x y where "is_interior h b = Some x" "is_tail h b = Some y" "x \<or> y"
    using insertable_eval [OF b(1-3)] .
  moreover have "h f \<noteq> None" "h n \<noteq> None" "h b \<noteq> None"
    using f n b by auto
  ultimately show ?thesis
    using assms unfolding list_splice_def by (simp add: kernel_simps)
qed

lemma klist_splice:
  assumes kl: "klist h l (A @ b # B @ S @ C)" and S: "S = f # T"
  obtains h' where "list_splice h b f (hd (C @ [tail_of l])) = Some h'"
    and "klist h' l (A @ S @ b # B @ C)"
    and "same_outside (set (nodes l (A @ b # B @ S @ C))) h h'"
proof -
  obtain X a q Y where s: "head_of l # A = X @ [a]" "C @ [tail_of l] = q # Y" "q = hd (C @ [tail_of l])"
    by (rule split_ends)
  obtain T' n where S': "S = T' @ [n]"
    using S by (metis list.distinct(1) rev_exhaust)
  obtain B' p where B': "b # B = B' @ [p]"
    by (cases "b # B" rule: rev_cases) auto
  have n1: "nodes l (A @ b # B @ S @ C) = X @ a # (b # B) @ S @ q # Y"
    using nodes_split [OF s(1), of "b # B @ S @ C" b "B @ S @ q # Y"] s(2) by simp
  have n2: "nodes l (A @ S @ b # B @ C) = X @ a # S @ (b # B) @ q # Y"
    using nodes_split [OF s(1), of "S @ b # B @ C" f "T @ b # B @ q # Y"] s(2) S by simp
  have d: "distinct (NULL # X @ a # (b # B) @ S @ q # Y)"
    using kl unfolding klist_def n1 by simp
  have "chain h NULL (X @ a # (b # B) @ f # T @ q # Y) NULL"
    using kl S unfolding klist_def n1 by simp
  then have c: "chain h NULL (X @ [a]) b" "chain h a (b # B) f" "chain h p S q" "chain h n (q # Y) NULL"
    unfolding chain_append3 [OF refl B'] using chain_snoc_split [OF S S'] S by auto
  let ?h1 = "upd_prv (upd_nxt h p q) q p" and ?h2 = "upd_prv (upd_prv (upd_nxt h p q) q p) f a"
  let ?h3 = "upd_nxt (upd_nxt ?h2 n b) a f"
  let ?h = "upd_prv ?h3 b n"
  have mem: "p \<in> set (b # B)" "n \<in> set S"
    unfolding B' S' by simp_all
  moreover have memf: "f \<in> set S"
    unfolding S by simp
  note mem = mem memf
  have ne: "NULL \<notin> {a, b, f, n, p, q}" "a \<notin> {b, f, n, p, q}" "b \<notin> {f, n, q}" "p \<notin> {f, n, q}" "q \<notin> {f, n}"
    using d mem by auto
  have out: "set (X @ [a]) \<inter> {b, f, n, p, q} = {}" "set (b # B) \<inter> {a, f, n, q} = {}"
      "set S \<inter> {a, b, p, q} = {}" "set (q # Y) \<inter> {a, b, f, n, p} = {}"
    using d mem by auto
  have dd: "f \<notin> set T" "n \<notin> set T'" "b \<notin> set B" "p \<notin> set B'" "a \<notin> set X" "q \<notin> set Y"
    using d S S' B' by (auto dest: arg_cong [where f = distinct])
  have k1: "chain ?h NULL (X @ [a]) f"
    using c(1) out(1) dd ne chain_right [of "upd_nxt ?h2 n b" NULL X a b f] by auto
  have k2: "chain ?h a S b"
  proof -
    have "chain ?h2 a S q"
      using c(3) out(3) dd chain_left [of ?h1 p f T q a] unfolding S by auto
    then have "chain (upd_nxt ?h2 n b) a S b"
      using dd chain_right [of ?h2 a T' n q b] unfolding S' by auto
    then show ?thesis
      using out(3) by auto
  qed
  have k3: "chain ?h n (b # B) q"
  proof -
    have "chain (upd_nxt h p q) a (b # B) q"
      using c(2) dd chain_right [of h a B' p f q] unfolding B' by auto
    then have "chain ?h3 a (b # B) q"
      using out(2) by auto
    then show ?thesis
      using dd chain_left [of ?h3 a b B q n] by auto
  qed
  have k4: "chain ?h p (q # Y) NULL"
    using c(4) out(4) dd chain_left [of "upd_nxt h p q" n q Y NULL p] by auto
  have "klist ?h l (A @ S @ b # B @ C)"
  proof -
    have "chain ?h NULL (X @ a # S @ b # (B @ q # Y)) NULL"
      unfolding chain_append3 [OF S S'] chain_snoc_split [OF refl B'] using k1 k2 k3 k4 by blast
    then show ?thesis
      using d unfolding klist_def n2 by auto
  qed
  moreover have "list_splice h b f q = Some ?h"
  proof (rule list_splice_eval)
    show "prv_of h b = Some a" "prv_of h f = Some p" "nxt_of h n = Some q"
      using chain_first [OF c(2)] chain_first [of h p f T q] chain_last [of h p T' n q] c(3) S S' by auto
    show "is_interior h f = Some True"
      using klist_interior [of h l "A @ b # B" f "T @ C"] kl unfolding S by simp
    show "is_interior h n = Some True"
      using klist_interior [of h l "A @ b # B @ T'" n C] kl unfolding S' by simp
    show "list_prev h q = Some n"
      using klist_prev [of h l "A @ b # B @ S" C q Y] kl s(2) unfolding S' by simp
    show "h a \<noteq> None" "h p \<noteq> None" "h q \<noteq> None"
      using chain_alloc [OF c(1)] chain_alloc [OF c(2) mem(1)] chain_alloc [OF c(4)] by auto
  qed (use ne in auto)
  moreover have "same_outside (set (nodes l (A @ b # B @ S @ C))) h ?h"
    unfolding n1 using mem by auto
  ultimately show ?thesis
    using that s(3) by simp
qed

section \<open>Traversals\<close>

lemma klist_walk:
  assumes "klist h l (A @ x # B)"
  shows "x \<noteq> tail_of l" and "list_next h x = Some (hd (B @ [tail_of l]))"
    and "klist h l ((A @ [x]) @ B)" and "x \<noteq> hd (B @ [tail_of l])"
proof -
  show "x \<noteq> tail_of l" "klist h l ((A @ [x]) @ B)"
    using assms klist_facts(4) [OF assms] by auto
  show "list_next h x = Some (hd (B @ [tail_of l]))"
    by (rule klist_next_elem [OF assms])
  show "x \<noteq> hd (B @ [tail_of l])"
    using klist_facts(4,6) [OF assms] by (cases B) auto
qed

lemma size_loop_spec:
  "klist h l (A @ B) \<Longrightarrow>
     size_loop h (tail_of l) (hd (B @ [tail_of l])) c = Some (c + of_nat (length B))"
proof (induction B arbitrary: A c)
  case (Cons x B)
  note w = klist_walk [OF Cons.prems]
  show ?case
    using w(1,2) Cons.IH [OF w(3), of "c + 1"] by (simp add: size_loop.simps [of h _ x] algebra_simps)
qed (simp add: size_loop.simps)

lemma klist_size: "klist h l xs \<Longrightarrow> list_size h l = Some (of_nat (length xs))"
  using size_loop_spec [of h l "[]" xs 0]
  by (simp add: list_size_def klist_begin klist_end)

lemma ordered_loop_spec:
  "klist h l (A @ B) \<Longrightarrow>
     ordered_loop lt h (tail_of l) x (hd (B @ [tail_of l]))
       = Some (hd (dropWhile (\<lambda>e. \<not> lt x e) B @ [tail_of l]))"
proof (induction B arbitrary: A)
  case (Cons y B)
  note w = klist_walk [OF Cons.prems]
  show ?case
    using w(1,2) Cons.IH [OF w(3)] by (simp add: ordered_loop.simps [of lt h _ x y])
qed (simp add: ordered_loop.simps)

lemma klist_insert_ordered:
  assumes kl: "klist h l xs" and e: "e \<noteq> NULL" "h e \<noteq> None" "e \<notin> set (nodes l xs)"
  obtains h' where "list_insert_ordered lt h l e = Some h'"
    and "klist h' l (takeWhile (\<lambda>y. \<not> lt e y) xs @ e # dropWhile (\<lambda>y. \<not> lt e y) xs)"
    and "same_outside (insert e (set (nodes l xs))) h h'"
proof -
  let ?A = "takeWhile (\<lambda>y. \<not> lt e y) xs" and ?B = "dropWhile (\<lambda>y. \<not> lt e y) xs"
  have "klist h l (?A @ ?B)" "e \<notin> set (nodes l (?A @ ?B))"
    using kl e(3) by simp_all
  then obtain h' where "list_insert h (hd (?B @ [tail_of l])) e = Some h'" "klist h' l (?A @ e # ?B)"
    "same_outside (insert e (set (nodes l (?A @ ?B)))) h h'"
    using klist_insert e(1,2) by metis
  then show ?thesis
    using that klist_facts(8) [OF kl] e(1) ordered_loop_spec [of h l "[]" xs lt e] kl
    by (simp add: list_insert_ordered_def kernel_simps klist_begin klist_end)
qed

lemma max_loop_spec:
  "klist h l (A @ B) \<Longrightarrow>
     max_loop lt h (tail_of l) m (hd (B @ [tail_of l]))
       = Some (foldl (\<lambda>m e. if lt m e then e else m) m B)"
proof (induction B arbitrary: A m)
  case (Cons y B)
  note w = klist_walk [OF Cons.prems]
  show ?case
    using w(1,2) Cons.IH [OF w(3), of "if lt m y then y else m"]
    by (simp add: max_loop.simps [of lt h _ m y])
qed (simp add: max_loop.simps)

lemma min_loop_spec:
  "klist h l (A @ B) \<Longrightarrow>
     min_loop lt h (tail_of l) m (hd (B @ [tail_of l]))
       = Some (foldl (\<lambda>m e. if lt e m then e else m) m B)"
proof (induction B arbitrary: A m)
  case (Cons y B)
  note w = klist_walk [OF Cons.prems]
  show ?case
    using w(1,2) Cons.IH [OF w(3), of "if lt y m then y else m"]
    by (simp add: min_loop.simps [of lt h _ m y])
qed (simp add: min_loop.simps)

lemma klist_max:
  assumes "klist h l xs"
  shows "list_max lt h l = Some (case xs of [] \<Rightarrow> tail_of l
           | x # ys \<Rightarrow> foldl (\<lambda>m e. if lt m e then e else m) x ys)"
proof (cases xs)
  case (Cons x ys)
  then have kl: "klist h l ([] @ x # ys)"
    using assms by simp
  show ?thesis
    using Cons klist_walk [OF kl] max_loop_spec [OF klist_walk(3) [OF kl]] assms
    by (simp add: list_max_def klist_begin klist_end)
qed (use assms in \<open>simp add: list_max_def klist_begin klist_end\<close>)

lemma klist_min:
  assumes "klist h l xs"
  shows "list_min lt h l = Some (case xs of [] \<Rightarrow> tail_of l
           | x # ys \<Rightarrow> foldl (\<lambda>m e. if lt e m then e else m) x ys)"
proof (cases xs)
  case (Cons x ys)
  then have kl: "klist h l ([] @ x # ys)"
    using assms by simp
  show ?thesis
    using Cons klist_walk [OF kl] min_loop_spec [OF klist_walk(3) [OF kl]] assms
    by (simp add: list_min_def klist_begin klist_end)
qed (use assms in \<open>simp add: list_min_def klist_begin klist_end\<close>)

section \<open>Reversal\<close>

definition swapped :: "list_elem \<Rightarrow> list_elem" where
  "swapped n = n\<lparr>prv := nxt n, nxt := prv n\<rparr>"

lemma chain_rev:
  "chain h a xs c \<Longrightarrow> (\<And>p. p \<in> set xs \<Longrightarrow> h' p = map_option swapped (h p)) \<Longrightarrow> chain h' c (rev xs) a"
proof (induction h a xs c rule: chain.induct)
  case (3 h a x y zs c)
  have eq: "rev (x # y # zs) = rev zs @ y # x # []"
    by simp
  show ?case
    unfolding eq chain_append using 3 by (auto simp: swapped_def)
qed (auto simp: swapped_def)

lemma swap_links_eval:
  "x \<noteq> NULL \<Longrightarrow> h x = Some n \<Longrightarrow> swap_links h x = Some (h(x \<mapsto> swapped n))"
  by (simp add: swap_links_def get_prv_def get_nxt_def set_prv_def set_nxt_def deref_def swapped_def)

lemma reverse_loop_spec:
  "chain h a xs c \<Longrightarrow> distinct (NULL # c # xs) \<Longrightarrow>
     reverse_loop h c (hd (xs @ [c])) = Some (\<lambda>p. if p \<in> set xs then map_option swapped (h p) else h p)"
proof (induction xs arbitrary: a h)
  case (Cons x xs)
  let ?h = "h(x \<mapsto> swapped \<lparr>prv = a, nxt = hd (xs @ [c])\<rparr>)"
  have x: "h x = Some \<lparr>prv = a, nxt = hd (xs @ [c])\<rparr>" "chain h x xs c"
    using Cons.prems(1) by (cases xs; simp)+
  have "chain ?h x xs c \<longleftrightarrow> chain h x xs c"
    using Cons.prems(2) by (intro chain_cong) auto
  moreover have "swap_links h x = Some ?h"
    using swap_links_eval [of x h] x(1) Cons.prems(2) by simp
  moreover have "get_prv ?h x = Some (hd (xs @ [c]))"
    using Cons.prems(2) by (simp add: get_prv_def deref_def swapped_def)
  moreover have "(\<lambda>p. if p \<in> set xs then map_option swapped (?h p) else ?h p)
      = (\<lambda>p. if p \<in> set (x # xs) then map_option swapped (h p) else h p)"
    using x(1) Cons.prems(2) by auto
  moreover have "x \<noteq> c"
    using Cons.prems(2) by auto
  ultimately show ?case
    using Cons.IH [of ?h x] Cons.prems(2) x(2) by (simp add: reverse_loop.simps [of h c x] del: fun_upd_apply)
qed (simp add: reverse_loop.simps)

lemma klist_reverse:
  assumes kl: "klist h l xs"
  obtains h' where "list_reverse h l = Some h'" and "klist h' l (rev xs)"
    and "same_outside (set (nodes l xs)) h h'"
proof (cases "xs = []")
  case True
  then show ?thesis
    using that [of h] kl by (simp add: list_reverse_def klist_empty)
next
  case False
  let ?a = "head_of l" and ?z = "tail_of l"
  obtain f X where f: "xs = f # X"
    using False by (cases xs) auto
  obtain Y g where g: "xs = Y @ [g]"
    using False by (cases xs rule: rev_cases) auto
  have fg: "f \<in> set xs" "g \<in> set xs"
    unfolding f g by (simp, metis f g in_set_conv_decomp)
  note d = klist_facts [OF kl]
  have c: "chain h NULL ([?a] @ xs @ [?z]) NULL"
    using kl by (simp add: klist_def nodes_def)
  have ends: "h ?a = Some \<lparr>prv = NULL, nxt = f\<rparr>" "chain h ?a xs ?z" "h ?z = Some \<lparr>prv = g, nxt = NULL\<rparr>"
    using c chain_append3 [OF f g, of h NULL "[]" ?a ?z "[]" NULL] by auto
  define h1 where "h1 = (\<lambda>p. if p \<in> set xs then map_option swapped (h p) else h p)"
  have loop: "reverse_loop h ?z (hd (xs @ [?z])) = Some h1"
    unfolding h1_def using reverse_loop_spec [OF ends(2)] d by auto
  have c1: "chain h1 ?z (rev xs) ?a"
    using chain_rev [OF ends(2)] by (simp add: h1_def)
  have a1: "h1 ?a = Some \<lparr>prv = NULL, nxt = f\<rparr>" "h1 ?z = Some \<lparr>prv = g, nxt = NULL\<rparr>"
    using ends d by (auto simp: h1_def)
  let ?h2 = "upd_prv (upd_nxt h1 ?a g) ?z f"
  let ?h = "upd_nxt (upd_prv ?h2 g ?a) f ?z"
  have rv: "rev xs = g # rev Y" "rev xs = rev X @ [f]"
    by (simp add: g) (simp add: f)
  have nd: "g \<notin> set (rev Y)" "f \<notin> set (rev X)"
    using d(6) unfolding g by (simp, use d(6) in \<open>simp add: f\<close>)
  have links: "prv_of h1 g = Some ?z" "nxt_of h1 f = Some ?a"
    using chain_first [of h1 ?z g "rev Y" ?a] chain_last [of h1 ?z "rev X" f ?a] c1 rv by auto
  have al: "h1 g \<noteq> None" "h1 f \<noteq> None"
    using links by auto
  have ne: "?a \<noteq> f" "?a \<noteq> g" "?z \<noteq> f" "?z \<noteq> g" "?a \<noteq> NULL" "?z \<noteq> NULL" "f \<noteq> NULL" "g \<noteq> NULL" "?a \<noteq> ?z"
    using d fg by auto
  have eval: "list_reverse h l = Some ?h"
    using loop kl False a1 links al ne
    by (simp add: list_reverse_def klist_empty klist_begin klist_end kernel_simps nxt_of_def [of h1 ?a]
        prv_of_def [of h1 ?z])
  have "chain ?h2 ?z (rev xs) ?a"
    using c1 d by simp
  then have "chain (upd_prv ?h2 g ?a) ?a (rev xs) ?a"
    unfolding rv(1) using nd by (intro chain_left)
  then have "chain ?h ?a (rev xs) ?z"
    unfolding rv(2) using nd by (intro chain_right)
  moreover have "?h ?a = Some \<lparr>prv = NULL, nxt = g\<rparr>" "?h ?z = Some \<lparr>prv = f, nxt = NULL\<rparr>"
    using a1 ne by (auto simp: upd_nxt_def upd_prv_def)
  ultimately have "chain ?h NULL ([?a] @ rev xs @ [?z]) NULL"
    using chain_append3 [OF rv, of ?h NULL "[]" ?a ?z "[]" NULL] by auto
  then have "klist ?h l (rev xs)"
    using kl by (auto simp: klist_def nodes_def)
  moreover have "same_outside (set (nodes l xs)) h ?h"
  proof -
    have "same_outside (set (nodes l xs)) h h1"
      by (auto simp: same_outside_def h1_def nodes_def dom_def)
    then show ?thesis
      using fg by (auto simp: nodes_def)
  qed
  ultimately show ?thesis
    using eval that by blast
qed

section \<open>Removal of duplicates\<close>

fun uniques :: "less_func \<Rightarrow> addr \<Rightarrow> addr list \<Rightarrow> addr list" where
  "uniques lt x [] = [x]"
| "uniques lt x (y # ys) = (if \<not> lt x y \<and> \<not> lt y x then uniques lt x ys else x # uniques lt y ys)"

fun dups :: "less_func \<Rightarrow> addr \<Rightarrow> addr list \<Rightarrow> addr list" where
  "dups lt x [] = []"
| "dups lt x (y # ys) = (if \<not> lt x y \<and> \<not> lt y x then y # dups lt x ys else dups lt y ys)"

lemma unique_loop_spec:
  "klist h l (A @ x # B) \<Longrightarrow> klist h d D \<Longrightarrow> set (nodes l (A @ x # B)) \<inter> set (nodes d D) = {} \<Longrightarrow>
     \<exists>h'. unique_loop lt (tail_of l) d h x = Some h' \<and> klist h' l (A @ uniques lt x B) \<and>
          klist h' d (D @ dups lt x B)"
proof (induction B arbitrary: A x h D)
  case Nil
  then show ?case
    using klist_walk(2) [of h l A x "[]"] by (simp add: unique_loop.simps [of lt _ d h x])
next
  case (Cons y B)
  note kl = Cons.prems(1) and kd = Cons.prems(2) and dj = Cons.prems(3)
  have y: "y \<noteq> tail_of l" "list_next h x = Some y"
    using klist_facts(4) [OF kl] klist_walk(2) [OF kl] by auto
  show ?case
  proof (cases "\<not> lt x y \<and> \<not> lt y x")
    case True
    have k: "klist h l ((A @ [x]) @ y # B)"
      using kl by simp
    obtain h1 where h1: "list_remove h y = Some (hd (B @ [tail_of l]), h1)" "klist h1 l ((A @ [x]) @ B)"
      "same_outside (set (nodes l ((A @ [x]) @ B))) h h1"
      using klist_remove [OF k] .
    have kd1: "klist h1 d D"
      using klist_outside [OF kd h1(3)] dj by (auto simp: nodes_def)
    have yn: "y \<noteq> NULL" "h1 y \<noteq> None" "y \<notin> set (nodes d D)" "y \<notin> set (nodes l (A @ x # B))"
      using klist_facts(3,4,6,7) [OF k] klist_alloc [OF k, of y] h1(3) dj
      by (auto simp: nodes_def same_outside_def dom_def)
    obtain h2 where h2: "list_push_back h1 d y = Some h2" "klist h2 d (D @ [y])"
      "same_outside (insert y (set (nodes d D))) h1 h2"
      using klist_push_back [OF kd1 yn(1-3)] .
    have dj2: "set (nodes l (A @ x # B)) \<inter> set (nodes d (D @ [y])) = {}"
      using dj yn by (auto simp: nodes_def)
    have kl2: "klist h2 l (A @ x # B)"
    proof (rule klist_outside [OF _ h2(3)])
      show "klist h1 l (A @ x # B)"
        using h1(2) by simp
      show "insert y (set (nodes d D)) \<inter> set (nodes l (A @ x # B)) = {}"
        using dj2 by (auto simp: nodes_def)
    qed
    show ?thesis
      using Cons.IH [OF kl2 h2(2) dj2] y h1(1) h2(1) True klist_facts(8) [OF kd]
      by (auto simp: unique_loop.simps [of lt _ d h x])
  next
    case False
    then show ?thesis
      using Cons.IH [of h "A @ [x]" y D] kl kd dj y by (auto simp: unique_loop.simps [of lt _ d h x])
  qed
qed

lemma klist_unique:
  assumes "klist h l (x # xs)" and "klist h d D" and "set (nodes l (x # xs)) \<inter> set (nodes d D) = {}"
  obtains h' where "list_unique lt h l d = Some h'" and "klist h' l (uniques lt x xs)"
    and "klist h' d (D @ dups lt x xs)"
  using unique_loop_spec [of h l "[]" x xs d D lt] assms klist_facts(8) [OF assms(1)] that
  by (auto simp: list_unique_def kernel_simps klist_empty klist_begin klist_end)

section \<open>Lists as first-in first-out queues\<close>

definition queue_at :: "addr set \<Rightarrow> addr \<Rightarrow> heap \<Rightarrow> addr list \<Rightarrow> bool" where
  "queue_at D l h xs \<longleftrightarrow> klist h l xs \<and> dom h = D"

definition queue_room :: "addr set \<Rightarrow> addr \<Rightarrow> addr list \<Rightarrow> addr \<Rightarrow> bool" where
  "queue_room D l xs e \<longleftrightarrow> e \<noteq> NULL \<and> e \<in> D \<and> e \<notin> set (nodes l xs)"

interpretation list_queue: fifo "queue_at D l" "queue_room D l" "\<lambda>h e. list_push_back h l e"
  "\<lambda>h. list_pop_front h l" for D l
proof
  fix h xs e
  assume "queue_at D l h xs" and "queue_room D l xs e"
  then show "\<exists>h'. list_push_back h l e = Some h' \<and> queue_at D l h' (xs @ [e])"
    using klist_push_back [of h l xs e] by (force simp: queue_at_def queue_room_def same_outside_def)
next
  fix h x xs
  assume "queue_at D l h (x # xs)"
  then show "\<exists>h'. list_pop_front h l = Some (x, h') \<and> queue_at D l h' xs"
    using klist_pop_front [of h l x xs] by (force simp: queue_at_def same_outside_def)
qed

text \<open>
  For every sequence of \<^verbatim>\<open>list_push_back\<close> and \<^verbatim>\<open>list_pop_front\<close> calls on a
  well-formed list that never pushes an element already linked and never pops from an empty
  list, every call returns and the popped elements followed by what is still linked are the
  initial elements followed by the pushed ones: the list is a first-in first-out queue.
\<close>

theorem list_queue_fifo:
  assumes "klist h l xs" and "legal (queue_room (dom h) l) ops xs"
  shows "\<exists>out h' ys. queue_run (\<lambda>h e. list_push_back h l e) (\<lambda>h. list_pop_front h l) ops h = Some (out, h') \<and>
     klist h' l ys \<and> out @ ys = xs @ pushed ops"
  using list_queue.client_order [of "dom h" l h xs ops] assms by (auto simp: queue_at_def)

theorem list_queue_fifo_witness:
  "\<exists>out h' ys. queue_run (\<lambda>h e. list_push_back h 0x100 e) (\<lambda>h. list_pop_front h 0x100)
     [Push 0x10, Push 0x20, Pop, Push 0x10, Pop]
     [0x100 \<mapsto> \<lparr>prv = 0, nxt = 0x108\<rparr>, 0x108 \<mapsto> \<lparr>prv = 0x100, nxt = 0\<rparr>,
      0x10 \<mapsto> \<lparr>prv = 0, nxt = 0\<rparr>, 0x20 \<mapsto> \<lparr>prv = 0, nxt = 0\<rparr>] = Some (out, h') \<and>
     klist h' 0x100 ys \<and> out @ ys = [0x10, 0x20, 0x10]"
proof -
  let ?h = "[0x100 \<mapsto> \<lparr>prv = 0, nxt = 0x108\<rparr>, 0x108 \<mapsto> \<lparr>prv = 0x100, nxt = 0\<rparr>,
      0x10 \<mapsto> \<lparr>prv = 0, nxt = 0\<rparr>, 0x20 \<mapsto> \<lparr>prv = 0, nxt = 0\<rparr>] :: heap"
  have "klist ?h 0x100 []"
    by (simp add: klist_def nodes_def head_of_def tail_of_def)
  moreover have "legal (queue_room (dom ?h) 0x100) [Push 0x10, Push 0x20, Pop, Push 0x10, Pop] []"
    by (simp add: queue_room_def nodes_def head_of_def tail_of_def)
  ultimately show ?thesis
    using list_queue_fifo by fastforce
qed

end
