(* ===== verification/Order.thy ===== *)
theory Order
  imports Main "HOL-Library.Multiset"
begin

text \<open>
  Comparison functions (\<^verbatim>\<open>list_less_func\<close> of \<^verbatim>\<open>lib/kernel/list.h\<close>) and the reference
  definitions the ordered list operations are compared with: adjacent runs, a stable merge
  and the passes of a natural merge sort, on plain lists.  The locale \<open>list_less\<close> is the
  contract a comparison function has to meet, a strict weak order; its lemmas say what the
  callers of the ordered operations may then rely on.
\<close>

section \<open>Reference definitions\<close>

fun sorted_adj :: "('a \<Rightarrow> 'a \<Rightarrow> bool) \<Rightarrow> 'a list \<Rightarrow> bool" where
  "sorted_adj lt [] = True"
| "sorted_adj lt [x] = True"
| "sorted_adj lt (x # y # zs) = (\<not> lt y x \<and> sorted_adj lt (y # zs))"

fun descents :: "('a \<Rightarrow> 'a \<Rightarrow> bool) \<Rightarrow> 'a list \<Rightarrow> nat" where
  "descents lt [] = 0"
| "descents lt [x] = 0"
| "descents lt (x # y # zs) = (if lt y x then 1 else 0) + descents lt (y # zs)"

fun leading_run :: "('a \<Rightarrow> 'a \<Rightarrow> bool) \<Rightarrow> 'a list \<Rightarrow> 'a list" where
  "leading_run lt [] = []"
| "leading_run lt [x] = [x]"
| "leading_run lt (x # y # zs) = (if lt y x then [x] else x # leading_run lt (y # zs))"

fun after_run :: "('a \<Rightarrow> 'a \<Rightarrow> bool) \<Rightarrow> 'a list \<Rightarrow> 'a list" where
  "after_run lt [] = []"
| "after_run lt [x] = []"
| "after_run lt (x # y # zs) = (if lt y x then y # zs else after_run lt (y # zs))"

fun merge_runs :: "('a \<Rightarrow> 'a \<Rightarrow> bool) \<Rightarrow> 'a list \<Rightarrow> 'a list \<Rightarrow> 'a list" where
  "merge_runs lt [] ys = ys"
| "merge_runs lt (x # xs) [] = x # xs"
| "merge_runs lt (x # xs) (y # ys) =
     (if lt y x then y # merge_runs lt (x # xs) ys else x # merge_runs lt xs (y # ys))"

lemma run_append: "leading_run lt xs @ after_run lt xs = xs"
  by (induction lt xs rule: leading_run.induct) auto

lemma after_run_length: "length (after_run lt xs) \<le> length xs - 1"
  by (induction lt xs rule: after_run.induct) auto

lemma leading_run_Nil [simp]: "leading_run lt xs = [] \<longleftrightarrow> xs = []"
  by (cases "(lt, xs)" rule: leading_run.cases) auto

function merge_pass :: "('a \<Rightarrow> 'a \<Rightarrow> bool) \<Rightarrow> 'a list \<Rightarrow> nat \<times> 'a list" where
  "merge_pass lt xs =
     (if xs = [] then (0, [])
      else if after_run lt xs = [] then (1, xs)
      else let s = after_run lt xs; (n, t) = merge_pass lt (after_run lt s)
           in (Suc n, merge_runs lt (leading_run lt xs) (leading_run lt s) @ t))"
  by pat_completeness auto
termination
proof (relation "measure (\<lambda>(lt, xs). length xs)", simp)
  fix lt :: "'a \<Rightarrow> 'a \<Rightarrow> bool" and xs s
  assume "xs \<noteq> []" and "s = after_run lt xs"
  then show "((lt, after_run lt s), (lt, xs)) \<in> measure (\<lambda>(lt, xs). length xs)"
    using after_run_length [of lt s] after_run_length [of lt xs] by (cases xs) auto
qed

declare merge_pass.simps [simp del]

section \<open>Runs\<close>

lemma sorted_adj_descents: "sorted_adj lt xs \<longleftrightarrow> descents lt xs = 0"
  by (induction lt xs rule: descents.induct) auto

lemma leading_run_sorted: "sorted_adj lt (leading_run lt xs)"
proof (induction lt xs rule: leading_run.induct)
  case (3 lt x y zs)
  then show ?case
    by (cases zs) auto
qed auto

lemma descents_append:
  "descents lt (xs @ ys) \<le> descents lt xs + descents lt ys + (if xs = [] \<or> ys = [] then 0 else 1)"
proof (induction lt xs rule: descents.induct)
  case (2 lt x)
  then show ?case
    by (cases ys) auto
qed auto

lemma descents_after_run:
  "after_run lt xs \<noteq> [] \<Longrightarrow> descents lt xs = Suc (descents lt (after_run lt xs))"
  by (induction lt xs rule: after_run.induct) (auto split: if_splits)

lemma mset_merge_runs [simp]: "mset (merge_runs lt xs ys) = mset xs + mset ys"
  by (induction lt xs ys rule: merge_runs.induct) auto

lemma mset_merge_pass: "mset (snd (merge_pass lt xs)) = mset xs"
proof (induction lt xs rule: merge_pass.induct)
  case (1 lt xs)
  let ?s = "after_run lt xs"
  show ?case
  proof (cases "xs = [] \<or> ?s = []")
    case False
    have "mset xs = mset (leading_run lt xs) + (mset (leading_run lt ?s) + mset (after_run lt ?s))"
      by (metis mset_append run_append)
    then show ?thesis
      using 1 False by (subst merge_pass.simps) (auto simp: Let_def split: prod.splits)
  qed (subst merge_pass.simps, auto)
qed

lemma length_merge_pass [simp]: "length (snd (merge_pass lt xs)) = length xs"
  using mset_merge_pass [of lt xs] by (metis size_mset)

lemma merge_pass_count:
  "fst (merge_pass lt xs) \<le> length xs"
  "xs \<noteq> [] \<Longrightarrow> fst (merge_pass lt xs) \<noteq> 0 \<and> 2 * fst (merge_pass lt xs) \<le> descents lt xs + 2"
proof (induction lt xs rule: merge_pass.induct)
  case (1 lt xs)
  let ?s = "after_run lt xs"
  {
    case 1
    show ?case
      using "1.IH" after_run_length [of lt xs] after_run_length [of lt ?s]
      by (subst merge_pass.simps) (cases xs; cases ?s; fastforce simp: Let_def split: prod.splits)
  next
    case 2
    show ?case
    proof (cases "?s = []")
      case False
      then have d: "descents lt xs = Suc (descents lt ?s)"
        by (rule descents_after_run)
      show ?thesis
      proof (cases "after_run lt ?s = []")
        case True
        then show ?thesis
          using 2 False d by (subst (1 2) merge_pass.simps) (auto simp: Let_def merge_pass.simps [of lt "[]"])
      next
        case rest: False
        then show ?thesis
          using 2 False d descents_after_run [OF rest] "1.IH"
          by (subst (1 2) merge_pass.simps) (auto simp: Let_def split: prod.splits)
      qed
    qed (use 2 in \<open>subst (1 2) merge_pass.simps, auto\<close>)
  }
qed

section \<open>The contract of a comparison function\<close>

locale list_less =
  fixes lt :: "'a \<Rightarrow> 'a \<Rightarrow> bool"
  assumes asym: "lt a b \<Longrightarrow> \<not> lt b a"
    and neg_trans: "lt a c \<Longrightarrow> lt a b \<or> lt b c"
begin

definition equiv :: "'a \<Rightarrow> 'a \<Rightarrow> bool" where
  "equiv a b \<longleftrightarrow> \<not> lt a b \<and> \<not> lt b a"

lemma after_trans: "\<not> lt b a \<Longrightarrow> \<not> lt c b \<Longrightarrow> \<not> lt c a"
  using neg_trans by blast

lemma less_trans: "lt a b \<Longrightarrow> lt b c \<Longrightarrow> lt a c"
  using neg_trans [of a b c] asym by blast

lemma sorted_adj_wrt: "sorted_adj lt xs \<longleftrightarrow> sorted_wrt (\<lambda>a b. \<not> lt b a) xs"
  by (induction xs rule: induct_list012) (auto dest: after_trans)

lemma merge_runs_wrt:
  "sorted_wrt (\<lambda>a b. \<not> lt b a) xs \<Longrightarrow> sorted_wrt (\<lambda>a b. \<not> lt b a) ys \<Longrightarrow>
     sorted_wrt (\<lambda>a b. \<not> lt b a) (merge_runs lt xs ys)"
proof (induction xs ys rule: shuffles.induct)
  case (2 xs)
  then show ?case
    by (cases xs) auto
next
  case (3 x xs y ys)
  have eq: "set (merge_runs lt us vs) = set us \<union> set vs" for us vs
    by (metis mset_merge_runs set_mset_mset set_mset_union)
  show ?case
    using 3 by (auto simp: eq dest: asym after_trans)
qed auto

lemma merge_runs_stable:
  assumes "sorted_wrt (\<lambda>a b. \<not> lt b a) xs"
  shows "filter (equiv k) (merge_runs lt xs ys) = filter (equiv k) xs @ filter (equiv k) ys"
  using assms
proof (induction xs ys rule: shuffles.induct)
  case (2 xs)
  then show ?case
    by (cases xs) auto
next
  case (3 x xs y ys)
  show ?case
  proof (cases "lt y x \<and> equiv k y")
    case True
    have "\<not> equiv k z" if "z \<in> set (x # xs)" for z
    proof -
      have "\<not> lt z x"
        using that 3(3) asym [of x x] by auto
      then have "lt y z"
        using True neg_trans [of y x z] by blast
      then show ?thesis
        using True neg_trans [of y z k] by (simp add: equiv_def)
    qed
    then have "filter (equiv k) (x # xs) = []"
      by (simp only: filter_empty_conv) blast
    then show ?thesis
      using 3 True by (auto split: if_splits)
  next
    case False
    then show ?thesis
      using 3 by auto
  qed
qed auto

lemma leading_run_wrt: "sorted_wrt (\<lambda>a b. \<not> lt b a) (leading_run lt xs)"
  using leading_run_sorted [of lt xs] by (simp add: sorted_adj_wrt)

lemma merge_pass_stable: "filter (equiv k) (snd (merge_pass lt xs)) = filter (equiv k) xs"
proof (induction "length xs" arbitrary: xs rule: less_induct)
  case less
  let ?s = "after_run lt xs"
  show ?case
  proof (cases "xs = [] \<or> ?s = []")
    case False
    have l: "length (after_run lt ?s) < length xs"
      using False after_run_length [of lt xs] after_run_length [of lt ?s] by (cases xs) auto
    have "xs = leading_run lt xs @ leading_run lt ?s @ after_run lt ?s"
      by (simp add: run_append)
    then have "filter (equiv k) xs = filter (equiv k) (leading_run lt xs) @ filter (equiv k) (leading_run lt ?s)
        @ filter (equiv k) (after_run lt ?s)"
      by (metis filter_append)
    then show ?thesis
      using less [OF l] False merge_runs_stable [OF leading_run_wrt]
      by (subst merge_pass.simps) (auto simp: Let_def split: prod.splits)
  qed (subst merge_pass.simps, auto)
qed

lemma merge_pass_descents: "descents lt (snd (merge_pass lt xs)) \<le> fst (merge_pass lt xs) - 1"
proof (induction "length xs" arbitrary: xs rule: less_induct)
  case less
  let ?s = "after_run lt xs"
  let ?m = "merge_runs lt (leading_run lt xs) (leading_run lt ?s)"
  show ?case
  proof (cases "xs = [] \<or> ?s = []")
    case True
    then show ?thesis
      using leading_run_sorted [of lt xs] run_append [of lt xs]
      by (subst (1 2) merge_pass.simps) (auto simp: sorted_adj_descents)
  next
    case False
    have l: "length (after_run lt ?s) < length xs"
      using False after_run_length [of lt xs] after_run_length [of lt ?s] by (cases xs) auto
    obtain n t where nt: "merge_pass lt (after_run lt ?s) = (n, t)"
      by fastforce
    have t: "t = [] \<or> n \<noteq> 0"
      using merge_pass_count(2) [of "after_run lt ?s" lt] length_merge_pass [of lt "after_run lt ?s"] nt
      by (cases "after_run lt ?s = []") (auto simp: merge_pass.simps [of lt "[]"])
    have "descents lt ?m = 0"
      using merge_runs_wrt [OF leading_run_wrt leading_run_wrt] by (simp add: sorted_adj_wrt flip: sorted_adj_descents)
    then show ?thesis
      using less [OF l] False nt t descents_append [of lt ?m t]
      by (subst (1 2) merge_pass.simps) (auto simp: Let_def split: if_splits)
  qed
qed

lemma merge_pass_less:
  assumes "1 < fst (merge_pass lt xs)"
  shows "descents lt (snd (merge_pass lt xs)) < descents lt xs"
  using merge_pass_count(2) [of xs lt] merge_pass_descents [of xs] assms
  by (cases "xs = []") (auto simp: merge_pass.simps [of lt "[]"])

lemma insert_ordered_sorted:
  assumes "sorted_wrt (\<lambda>a b. \<not> lt b a) xs"
  shows "sorted_wrt (\<lambda>a b. \<not> lt b a) (takeWhile (\<lambda>y. \<not> lt e y) xs @ e # dropWhile (\<lambda>y. \<not> lt e y) xs)"
  using assms
proof (induction xs)
  case (Cons x xs)
  have m: "set (takeWhile (\<lambda>y. \<not> lt e y) xs @ e # dropWhile (\<lambda>y. \<not> lt e y) xs) = insert e (set xs)"
    by (metis Un_insert_right list.simps(15) set_append takeWhile_dropWhile_id)
  show ?case
  proof (cases "lt e x")
    case True
    then show ?thesis
      using Cons by (auto dest: asym neg_trans [of e x])
  next
    case False
    then show ?thesis
      using Cons m by (simp del: set_append)
  qed
qed simp

lemma fold_max_first:
  "\<exists>us vs. x # xs = us @ foldl (\<lambda>m e. if lt m e then e else m) x xs # vs \<and>
     (\<forall>u \<in> set us. lt u (foldl (\<lambda>m e. if lt m e then e else m) x xs)) \<and>
     (\<forall>v \<in> set vs. \<not> lt (foldl (\<lambda>m e. if lt m e then e else m) x xs) v)"
proof (induction xs rule: rev_induct)
  case (snoc e xs)
  let ?m = "foldl (\<lambda>m e. if lt m e then e else m) x xs"
  obtain us vs where s: "x # xs = us @ ?m # vs" "\<forall>u \<in> set us. lt u ?m" "\<forall>v \<in> set vs. \<not> lt ?m v"
    using snoc by blast
  show ?case
  proof (cases "lt ?m e")
    case True
    have "lt u e" if "u \<in> set (x # xs)" for u
    proof -
      have "u \<in> set us \<or> u = ?m \<or> u \<in> set vs"
        using that unfolding s(1) by auto
      then show ?thesis
        using s(2,3) True less_trans [of u ?m e] neg_trans [of ?m e u] by blast
    qed
    then show ?thesis
      using True by (intro exI [of _ "x # xs"] exI [of _ "[]"]) simp
  next
    case False
    then show ?thesis
      using s by (intro exI [of _ us] exI [of _ "vs @ [e]"]) auto
  qed
qed (rule exI [of _ "[]"], simp)

end

end
