(* ===== verification/Klist_Sort.thy ===== *)
theory Klist_Sort
  imports Klist_Spec Order
begin

text \<open>
  The ordered operations of \<^verbatim>\<open>lib/kernel/list.c\<close>: the natural merge sort
  (\<^verbatim>\<open>is_sorted\<close>, \<^verbatim>\<open>find_end_of_run\<close>, \<^verbatim>\<open>inplace_merge\<close>, \<^verbatim>\<open>list_sort\<close>), ordered
  insertion and the maximum, each refined to its reference definition on sequences and then
  shown correct for every comparison function that is a strict weak order.  The sort loop
  ends because a pass that leaves more than one run lowers the number of descents.
\<close>

section \<open>Runs of a linked list\<close>

lemma hd_tail_ne:
  assumes "klist h l (A @ x # B)"
  shows "hd ((x # B) @ [tail_of l]) = x"
  by simp

lemma is_sorted_loop_spec:
  "klist h l (A @ x # B @ C) \<Longrightarrow>
     is_sorted_loop lt h (hd (C @ [tail_of l])) x = Some (sorted_adj lt (x # B))"
proof (induction B arbitrary: A x)
  case Nil
  then show ?case
    using klist_walk(2) [of h l A x C] by (simp add: is_sorted_loop.simps [of lt h _ x])
next
  case (Cons y B)
  have "y \<notin> set C" "y \<noteq> tail_of l"
    using klist_facts(4,6) [OF Cons.prems] by auto
  then have "y \<noteq> hd (C @ [tail_of l])"
    by (cases C) auto
  then show ?case
    using klist_walk(2) [of h l A x "y # B @ C"] klist_prev_elem [of h l A x y "B @ C"]
      Cons.IH [of "A @ [x]" y] Cons.prems
    by (simp add: is_sorted_loop.simps [of lt h _ x])
qed

lemma klist_is_sorted:
  assumes "klist h l (A @ B @ C)"
  shows "is_sorted lt h (hd ((B @ C) @ [tail_of l])) (hd (C @ [tail_of l])) = Some (sorted_adj lt B)"
proof (cases B)
  case (Cons x B')
  have "x \<notin> set C" "x \<noteq> tail_of l"
    using klist_facts(4,6) [OF assms] Cons by auto
  then have "x \<noteq> hd (C @ [tail_of l])"
    by (cases C) auto
  then show ?thesis
    using Cons assms is_sorted_loop_spec [of h l A x B' C lt] by (simp add: is_sorted_def)
qed (simp add: is_sorted_def)

lemma run_loop_spec:
  "klist h l (A @ x # B) \<Longrightarrow>
     run_loop lt h (tail_of l) x = Some (hd (after_run lt (x # B) @ [tail_of l]))"
proof (induction B arbitrary: A x)
  case Nil
  then show ?case
    using klist_walk(2) [of h l A x "[]"] by (simp add: run_loop.simps [of lt h _ x])
next
  case (Cons y B)
  have "y \<noteq> tail_of l"
    using klist_facts(4) [OF Cons.prems] by auto
  then show ?case
    using klist_walk(2) [OF Cons.prems] klist_prev_elem [OF Cons.prems] Cons.IH [of "A @ [x]" y] Cons.prems
    by (simp add: run_loop.simps [of lt h _ x])
qed

lemma klist_find_end_of_run:
  assumes "klist h l (A @ B)" and "B \<noteq> []"
  shows "find_end_of_run lt h (hd (B @ [tail_of l])) (tail_of l) = Some (hd (after_run lt B @ [tail_of l]))"
proof -
  obtain x B' where B: "B = x # B'"
    using assms(2) by (cases B) auto
  then show ?thesis
    using klist_facts(2,4,7) [OF assms(1)] assms(1) run_loop_spec [of h l A x B' lt]
    by (auto simp: find_end_of_run_def kernel_simps)
qed

section \<open>Merging\<close>

lemma klist_hd_ne:
  assumes "klist h l (A @ x # B @ C)" and "x \<notin> set C"
  shows "x \<noteq> hd (C @ [tail_of l])"
  using klist_facts(4) [OF assms(1)] assms(2) by (cases C) auto

lemma merge_loop_spec:
  "klist h l (A @ X @ Y @ C) \<Longrightarrow>
     \<exists>h'. merge_loop lt (hd (C @ [tail_of l])) h (hd ((X @ Y @ C) @ [tail_of l])) (hd ((Y @ C) @ [tail_of l])) = Some h' \<and>
          klist h' l (A @ merge_runs lt X Y @ C) \<and> same_outside (set (nodes l (A @ X @ Y @ C))) h h'"
proof (induction X Y arbitrary: A h rule: shuffles.induct)
  case (2 X)
  then show ?case
    by (cases X) (auto simp: merge_loop.simps)
next
  case (3 x X y Y)
  note kl = "3.prems"
  have d: "distinct (x # X @ y # Y @ C)" "tail_of l \<notin> set (x # X @ y # Y @ C)"
    using klist_facts(4,6) [OF kl] by auto
  have ne: "x \<noteq> y" "y \<noteq> hd (C @ [tail_of l])"
    using d by (cases C; auto)+
  show ?case
  proof (cases "lt y x")
    case False
    have "list_next h x = Some (hd ((X @ y # Y @ C) @ [tail_of l]))"
      using klist_walk(2) [of h l A x "X @ y # Y @ C"] kl by simp
    then show ?thesis
      using "3.IH"(1) [of h "A @ [x]"] kl ne False by (simp add: merge_loop.simps [of lt _ h x y])
  next
    case True
    have nx: "list_next h y = Some (hd ((Y @ C) @ [tail_of l]))"
      using klist_walk(2) [of h l "A @ x # X" y "Y @ C"] kl by simp
    obtain q Q where q: "(Y @ C) @ [tail_of l] = q # Q"
      by (cases "(Y @ C) @ [tail_of l]") auto
    have pv: "list_prev h q = Some y"
      using klist_prev [of h l "A @ x # X @ [y]" "Y @ C" q Q] kl q by simp
    have "klist h l (A @ x # X @ [y] @ (Y @ C))"
      using kl by simp
    then obtain h' where h': "list_splice h x y q = Some h'" "klist h' l ((A @ [y]) @ (x # X) @ Y @ C)"
      "same_outside (set (nodes l (A @ (x # X) @ (y # Y) @ C))) h h'"
      using klist_splice [of h l A x X "[y]" "Y @ C" y "[]"] q by auto
    have s: "set (nodes l ((A @ [y]) @ (x # X) @ Y @ C)) = set (nodes l (A @ (x # X) @ (y # Y) @ C))"
      by (auto simp: nodes_def)
    obtain h'' where "merge_loop lt (hd (C @ [tail_of l])) h' x q = Some h''"
      "klist h'' l (A @ y # merge_runs lt (x # X) Y @ C)"
      "same_outside (set (nodes l (A @ (x # X) @ (y # Y) @ C))) h' h''"
      using "3.IH"(2) [OF h'(2)] q unfolding s by auto
    then show ?thesis
      using ne True nx pv h'(1) q same_outside_trans [OF h'(3)] by (fastforce simp: merge_loop.simps [of lt _ h x y])
  qed
qed (auto simp: merge_loop.simps)

lemma klist_inplace_merge:
  assumes kl: "klist h l (A @ X @ Y @ C)" and "sorted_adj lt X" "sorted_adj lt Y"
  obtains h' where "inplace_merge lt h (hd ((X @ Y @ C) @ [tail_of l])) (hd ((Y @ C) @ [tail_of l])) (hd (C @ [tail_of l])) = Some h'"
    and "klist h' l (A @ merge_runs lt X Y @ C)" and "same_outside (set (nodes l (A @ X @ Y @ C))) h h'"
proof -
  have nn: "hd (B @ [tail_of l]) \<noteq> NULL" if "set B \<subseteq> set (X @ Y @ C)" for B
    using klist_facts(2,7) [OF kl] that by (cases B) auto
  have nulls: "hd (X @ Y @ C @ [tail_of l]) \<noteq> NULL" "hd (Y @ C @ [tail_of l]) \<noteq> NULL"
      "hd (C @ [tail_of l]) \<noteq> NULL"
    using nn [of "X @ Y @ C"] nn [of "Y @ C"] nn [of C] by auto
  have "klist h l ((A @ X) @ Y @ C)"
    using kl by simp
  then show ?thesis
    using merge_loop_spec [OF kl, of lt] klist_is_sorted [of h l A X "Y @ C" lt] assms
      klist_is_sorted [of h l "A @ X" Y C lt] nulls that
    by (auto simp: inplace_merge_def kernel_simps)
qed

section \<open>Passes\<close>

lemma pass_loop_spec:
  "klist h l (A @ B) \<Longrightarrow>
     \<exists>h'. pass_loop lt (tail_of l) h (hd (B @ [tail_of l])) c = Some (c + of_nat (fst (merge_pass lt B)), h') \<and>
          klist h' l (A @ snd (merge_pass lt B)) \<and> same_outside (set (nodes l (A @ B))) h h'"
proof (induction "length B" arbitrary: A B h c rule: less_induct)
  case less
  let ?s = "after_run lt B"
  note kl = less.prems
  consider "B = []" | "B \<noteq> []" "?s = []" | "B \<noteq> []" "?s \<noteq> []"
    by blast
  then show ?case
  proof cases
    case 1
    then show ?thesis
      using kl by (simp add: pass_loop.simps merge_pass.simps [of lt "[]"])
  next
    case 2
    then have "merge_pass lt B = (1, B)"
      by (simp add: merge_pass.simps)
    then show ?thesis
      using 2 kl klist_facts(4) [OF kl] klist_find_end_of_run [OF kl, of lt]
      by (cases B) (auto simp: pass_loop.simps [of lt "tail_of l" h])
  next
    case 3
    let ?r = "leading_run lt B" and ?r2 = "leading_run lt ?s" and ?C = "after_run lt ?s"
    have B: "B = ?r @ ?r2 @ ?C" and s: "?s = ?r2 @ ?C"
      by (simp_all add: run_append)
    have kl3: "klist h l (A @ ?r @ ?r2 @ ?C)"
      using kl B by simp
    have hd_ne: "hd (Z @ [tail_of l]) \<noteq> tail_of l" if "Z \<noteq> []" "set Z \<subseteq> set B" for Z
      using klist_facts(4) [OF kl] that by (cases Z) auto
    have "set ?s \<subseteq> set B"
      by (metis run_append set_append sup.cobounded2)
    then have ne: "hd (B @ [tail_of l]) \<noteq> tail_of l" "hd (?s @ [tail_of l]) \<noteq> tail_of l"
      using hd_ne 3 by blast+
    have e1: "find_end_of_run lt h (hd (B @ [tail_of l])) (tail_of l) = Some (hd (?s @ [tail_of l]))"
      using klist_find_end_of_run [OF kl] 3 by blast
    have e2: "find_end_of_run lt h (hd (?s @ [tail_of l])) (tail_of l) = Some (hd (?C @ [tail_of l]))"
      using klist_find_end_of_run [of h l "A @ ?r" ?s lt] kl B s 3 by simp
    obtain h1 where h1: "inplace_merge lt h (hd (B @ [tail_of l])) (hd (?s @ [tail_of l])) (hd (?C @ [tail_of l])) = Some h1"
      "klist h1 l (A @ merge_runs lt ?r ?r2 @ ?C)" "same_outside (set (nodes l (A @ B))) h h1"
      using klist_inplace_merge [OF kl3 leading_run_sorted leading_run_sorted] B s by metis
    have len: "length ?C < length B"
      using 3 after_run_length [of lt B] after_run_length [of lt ?s] by (cases B) auto
    have m: "set (merge_runs lt us vs) = set us \<union> set vs" for us vs
      by (metis mset_merge_runs set_mset_mset set_mset_union)
    have "set (nodes l ((A @ merge_runs lt ?r ?r2) @ ?C)) = set (nodes l (A @ ?r @ ?r2 @ ?C))"
      by (auto simp: nodes_def m)
    then have n: "set (nodes l ((A @ merge_runs lt ?r ?r2) @ ?C)) = set (nodes l (A @ B))"
      using B by metis
    obtain h2 where h2: "pass_loop lt (tail_of l) h1 (hd (?C @ [tail_of l])) (c + 1)
        = Some (c + 1 + of_nat (fst (merge_pass lt ?C)), h2)"
      "klist h2 l ((A @ merge_runs lt ?r ?r2) @ snd (merge_pass lt ?C))"
      "same_outside (set (nodes l (A @ B))) h1 h2"
      using less.hyps [OF len, of h1 "A @ merge_runs lt ?r ?r2" "c + 1"] h1(2) unfolding n by auto
    have "merge_pass lt B = (Suc (fst (merge_pass lt ?C)), merge_runs lt ?r ?r2 @ snd (merge_pass lt ?C))"
      using 3 by (subst merge_pass.simps) (simp add: Let_def split_beta)
    then show ?thesis
      using h1(1) h2 ne e1 e2 same_outside_trans [OF h1(3) h2(3)]
      by (simp add: pass_loop.simps [of lt "tail_of l" h] add.assoc)
  qed
qed

section \<open>Sorting\<close>

lemma klist_length:
  assumes "klist h l xs"
  shows "length xs < 2 ^ 32"
proof -
  have "card (insert NULL (set xs)) \<le> card (UNIV :: addr set)"
    by (rule card_mono) auto
  then show ?thesis
    using klist_facts(6,7) [OF assms] by (simp add: card_insert_if distinct_card card_word)
qed

lemma sort_loop_spec:
  assumes lt: "list_less lt"
  shows "klist h l xs \<Longrightarrow>
     \<exists>h' ys. sort_loop lt l h = Some h' \<and> klist h' l ys \<and> mset ys = mset xs \<and> sorted_adj lt ys \<and>
       (\<forall>k. filter (list_less.equiv lt k) ys = filter (list_less.equiv lt k) xs) \<and>
       same_outside (set (nodes l xs)) h h'"
proof (induction "descents lt xs" arbitrary: h xs rule: less_induct)
  case less
  let ?n = "fst (merge_pass lt xs)" and ?ys = "snd (merge_pass lt xs)"
  obtain h1 where h1: "pass_loop lt (tail_of l) h (hd (xs @ [tail_of l])) 0 = Some (of_nat ?n, h1)"
    "klist h1 l ?ys" "same_outside (set (nodes l xs)) h h1"
    using pass_loop_spec [of h l "[]" xs lt 0] less.prems by auto
  have "?n < 2 ^ 32"
    using merge_pass_count(1) [of lt xs] klist_length [OF less.prems] by simp
  then have n: "(1 :: size_t) < of_nat ?n \<longleftrightarrow> 1 < ?n"
    by (simp add: word_less_nat_alt unat_of_nat_small)
  have set_eq: "set (nodes l ys) = set (nodes l xs)" if "mset ys = mset xs" for ys
    using mset_eq_setD [OF that] by (simp add: nodes_def)
  show ?case
  proof (cases "1 < ?n")
    case True
    obtain h2 ys where h2: "sort_loop lt l h1 = Some h2" "klist h2 l ys" "mset ys = mset ?ys"
      "sorted_adj lt ys" "\<forall>k. filter (list_less.equiv lt k) ys = filter (list_less.equiv lt k) ?ys"
      "same_outside (set (nodes l ?ys)) h1 h2"
      using less.hyps [OF list_less.merge_pass_less [OF lt True] h1(2)] by blast
    have "same_outside (set (nodes l xs)) h h2"
      using same_outside_trans [OF h1(3) h2(6)] set_eq [OF mset_merge_pass] by simp
    then show ?thesis
      using h1(1) h2 n True less.prems
      by (auto simp: sort_loop.simps [of lt l h] klist_begin klist_end mset_merge_pass
          list_less.merge_pass_stable [OF lt])
  next
    case False
    have "sorted_adj lt ?ys"
      using list_less.merge_pass_descents [OF lt, of xs] False by (simp add: sorted_adj_descents)
    then show ?thesis
      using h1 n False less.prems
      by (auto simp: sort_loop.simps [of lt l h] klist_begin klist_end mset_merge_pass
          list_less.merge_pass_stable [OF lt])
  qed
qed

text \<open>
  C39: \<^verbatim>\<open>list_sort\<close> returns on every well-formed list and every comparison function that is
  a strict weak order.  The list then holds a permutation of its elements in which no
  element is less than one before it, elements the comparison function does not separate
  keep their relative order (the sort is stable), and no store cell outside the list and its
  sentinels was written.
\<close>

theorem list_sort_correct:
  assumes "list_less lt" and "klist h l xs"
  shows "\<exists>h' ys. list_sort lt h l = Some h' \<and> klist h' l ys \<and> mset ys = mset xs \<and>
     sorted_wrt (\<lambda>a b. \<not> lt b a) ys \<and>
     (\<forall>k. filter (\<lambda>x. \<not> lt k x \<and> \<not> lt x k) ys = filter (\<lambda>x. \<not> lt k x \<and> \<not> lt x k) xs) \<and>
     same_outside (set (nodes l xs)) h h'"
proof -
  have eqv: "(\<lambda>x. \<not> lt k x \<and> \<not> lt x k) = list_less.equiv lt k" for k
    by (simp add: list_less.equiv_def [OF assms(1)] fun_eq_iff)
  obtain h' ys where s: "sort_loop lt l h = Some h'" "klist h' l ys" "mset ys = mset xs" "sorted_adj lt ys"
    "\<forall>k. filter (list_less.equiv lt k) ys = filter (list_less.equiv lt k) xs"
    "same_outside (set (nodes l xs)) h h'"
    using sort_loop_spec [OF assms] by blast
  have "is_sorted lt h' (hd (ys @ [tail_of l])) (tail_of l) = Some True"
    using klist_is_sorted [of h' l "[]" ys "[]" lt] s(2,4) by simp
  then show ?thesis
    using s klist_facts(8) [OF assms(2)] list_less.sorted_adj_wrt [OF assms(1), of ys]
    by (auto simp: list_sort_def kernel_simps klist_begin klist_end eqv)
qed

definition list_example :: heap where
  "list_example = [0x100 \<mapsto> \<lparr>prv = 0, nxt = 0x30\<rparr>, 0x30 \<mapsto> \<lparr>prv = 0x100, nxt = 0x10\<rparr>,
     0x10 \<mapsto> \<lparr>prv = 0x30, nxt = 0x20\<rparr>, 0x20 \<mapsto> \<lparr>prv = 0x10, nxt = 0x108\<rparr>,
     0x108 \<mapsto> \<lparr>prv = 0x20, nxt = 0\<rparr>, 0x40 \<mapsto> \<lparr>prv = 0, nxt = 0\<rparr>]"

lemma list_example_klist: "klist list_example 0x100 [0x30, 0x10, 0x20]"
  by (simp add: klist_def nodes_def list_example_def head_of_def tail_of_def)

lemma list_example_less: "list_less (\<lambda>a b :: addr. a < b)"
  by unfold_locales auto

theorem list_sort_correct_witness:
  "\<exists>h' ys. list_sort (\<lambda>a b. a < b) list_example 0x100 = Some h' \<and> klist h' 0x100 ys \<and>
     mset ys = mset [0x30, 0x10, 0x20] \<and> sorted_wrt (\<lambda>a b. \<not> b < a) ys"
  using list_sort_correct [OF list_example_less list_example_klist] by blast

text \<open>
  \<^verbatim>\<open>list_insert_ordered\<close> into a list that is in order under a strict weak order
  returns, keeps the list in order, adds exactly the new element, and puts it after every
  element it is not less than.
\<close>

theorem list_insert_ordered_sorted:
  assumes "list_less lt" and "klist h l xs" and "sorted_wrt (\<lambda>a b. \<not> lt b a) xs"
    and "e \<noteq> NULL" and "h e \<noteq> None" and "e \<notin> set (nodes l xs)"
  shows "\<exists>h' us vs. list_insert_ordered lt h l e = Some h' \<and> klist h' l (us @ e # vs) \<and> xs = us @ vs \<and>
     sorted_wrt (\<lambda>a b. \<not> lt b a) (us @ e # vs) \<and> (\<forall>u \<in> set us. \<not> lt e u) \<and> (\<forall>v \<in> set vs. lt e v)"
proof -
  define us where "us = takeWhile (\<lambda>y. \<not> lt e y) xs"
  define vs where "vs = dropWhile (\<lambda>y. \<not> lt e y) xs"
  have s: "sorted_wrt (\<lambda>a b. \<not> lt b a) (us @ e # vs)"
    unfolding us_def vs_def by (rule list_less.insert_ordered_sorted [OF assms(1,3)])
  have "lt e v" if v: "v \<in> set vs" for v
  proof -
    have "vs \<noteq> []" "lt e (hd vs)"
      using v hd_dropWhile [of "\<lambda>y. \<not> lt e y" xs] unfolding vs_def by fastforce+
    moreover have "v = hd vs \<or> \<not> lt v (hd vs)"
      using s v by (cases vs) (auto simp: sorted_wrt_append)
    ultimately show ?thesis
      using list_less.neg_trans [OF assms(1), of e "hd vs" v] by blast
  qed
  moreover have "\<forall>u \<in> set us. \<not> lt e u"
    unfolding us_def by (auto dest: set_takeWhileD)
  moreover obtain h' where "list_insert_ordered lt h l e = Some h'" "klist h' l (us @ e # vs)"
    using klist_insert_ordered [OF assms(2,4,5,6)] unfolding us_def vs_def by blast
  moreover have "xs = us @ vs"
    by (simp add: us_def vs_def)
  ultimately show ?thesis
    using s by blast
qed

lemma list_example_sorted:
  "klist (list_example(0x30 \<mapsto> \<lparr>prv = 0x20, nxt = 0x108\<rparr>, 0x100 \<mapsto> \<lparr>prv = 0, nxt = 0x10\<rparr>,
     0x10 \<mapsto> \<lparr>prv = 0x100, nxt = 0x20\<rparr>, 0x20 \<mapsto> \<lparr>prv = 0x10, nxt = 0x30\<rparr>,
     0x108 \<mapsto> \<lparr>prv = 0x30, nxt = 0\<rparr>)) 0x100 [0x10, 0x20, 0x30]"
  by (simp add: klist_def nodes_def list_example_def head_of_def tail_of_def)

theorem list_insert_ordered_sorted_witness:
  "\<exists>h' us vs. list_insert_ordered (\<lambda>a b. a < b)
       (list_example(0x30 \<mapsto> \<lparr>prv = 0x20, nxt = 0x108\<rparr>, 0x100 \<mapsto> \<lparr>prv = 0, nxt = 0x10\<rparr>,
         0x10 \<mapsto> \<lparr>prv = 0x100, nxt = 0x20\<rparr>, 0x20 \<mapsto> \<lparr>prv = 0x10, nxt = 0x30\<rparr>,
         0x108 \<mapsto> \<lparr>prv = 0x30, nxt = 0\<rparr>)) 0x100 0x40 = Some h' \<and>
     klist h' 0x100 (us @ 0x40 # vs) \<and> [0x10, 0x20, 0x30] = us @ vs"
  using list_insert_ordered_sorted [OF list_example_less list_example_sorted, of "0x40"]
  by (fastforce simp: list_example_def nodes_def head_of_def tail_of_def)

end
