(* ===== verification/Threads.thy ===== *)
theory Threads
  imports Klist Order
begin

text \<open>
  \<^verbatim>\<open>threads/thread.c\<close>, \<^verbatim>\<open>threads/synch.c\<close>, the sleep queue of \<^verbatim>\<open>devices/timer.c\<close> and
  the external interrupt path of \<^verbatim>\<open>threads/interrupt.c\<close>: threads, the round-robin
  scheduler, semaphores, locks, condition variables and preemption.

  The kernel state is one record.  A \<^verbatim>\<open>struct list\<close> of threads is the sequence of their
  addresses (theory Klist_Spec shows that the list operations implement the operations on
  sequences).  A thread's kernel stack, which says what it does when it runs again, is the
  field \<open>code\<close>: the calls it still has to make, in front of them the rest of the call it is
  inside.  A call is cut where interrupts may come in: what runs with interrupts off is one
  step, and \<^verbatim>\<open>lock_acquire\<close>, \<^verbatim>\<open>lock_release\<close>, \<^verbatim>\<open>cond_wait\<close> and \<^verbatim>\<open>timer_sleep\<close>, which run
  with interrupts on between their parts, leave the next part at the head of \<open>code\<close>.
  \<^verbatim>\<open>switch_threads\<close> makes another thread current; the new thread continues with its own
  \<open>code\<close>.  Allocating a thread identifier, which \<^verbatim>\<open>allocate_tid\<close> protects with a lock, is
  part of the step of \<^verbatim>\<open>thread_create\<close>.

  The semaphore a thread sleeps on is a member of its \<^verbatim>\<open>struct thread\<close>, which \<^verbatim>\<open>init_thread\<close> fills with zeros; it
  is initialised only by the first \<^verbatim>\<open>timer_sleep\<close> of the thread.  \<open>inited\<close> says whether \<^verbatim>\<open>sema_init\<close> has been called.  The links of
  a list of zeros are null pointers: \<^verbatim>\<open>list_empty\<close> says that it is not empty, and taking its first element or
  appending to it fails an assertion of \<^verbatim>\<open>list_remove\<close> or \<^verbatim>\<open>list_insert\<close>.
\<close>

section \<open>State\<close>

datatype sid = Sem addr | LockSem addr | CondSem addr | SleepSem addr

datatype call =
    Sema_down sid | Sema_up sid | Sema_try_down sid
  | Lock_acquire addr | Lock_try_acquire addr | Lock_release addr
  | Cond_wait addr addr | Cond_signal addr addr | Cond_broadcast addr addr
  | Thread_create addr int "call list" | Thread_yield | Thread_exit | Thread_set_priority int
  | Timer_sleep "64 word"
  | Down_loop sid bool | Set_holder addr | Release_up addr | Intr_set_level bool
  | Sleep_init | Idle_block | Sti_hlt

datatype thread_status = THREAD_RUNNING | THREAD_READY | THREAD_BLOCKED | THREAD_DYING

record thread =
  tid :: u32
  status :: thread_status
  priority :: int
  sleep_until :: "64 word"
  pagedir :: addr
  code :: "call list"

record semaphore =
  sem_value :: u32
  waiters :: "addr list"
  inited :: bool

record kstate =
  threads :: "addr \<Rightarrow> thread option"
  cur :: addr
  ready_list :: "addr list"
  idle_thread :: addr
  initial_thread :: addr
  next_tid :: u32
  thread_ticks :: u32
  idle_ticks :: "64 word"
  kernel_ticks :: "64 word"
  user_ticks :: "64 word"
  intr_on :: bool
  in_external_intr :: bool
  yield_on_return :: bool
  semas :: "sid \<Rightarrow> semaphore"
  holder :: "addr \<Rightarrow> addr"
  cond_waiters :: "addr \<Rightarrow> sid list"
  ticks :: "64 word"
  sleep_list :: "addr list"

definition TIME_SLICE :: u32 where "TIME_SLICE = 4"
definition PRI_MIN :: int where "PRI_MIN = 0"
definition PRI_DEFAULT :: int where "PRI_DEFAULT = 31"
definition PRI_MAX :: int where "PRI_MAX = 63"
definition TID_ERROR :: u32 where "TID_ERROR = - 1"

definition upd_thread :: "addr \<Rightarrow> (thread \<Rightarrow> thread) \<Rightarrow> kstate \<Rightarrow> kstate" where
  "upd_thread t f s = s\<lparr>threads := (threads s)(t := map_option f (threads s t))\<rparr>"

definition set_status :: "addr \<Rightarrow> thread_status \<Rightarrow> kstate \<Rightarrow> kstate" where
  "set_status t st = upd_thread t (\<lambda>th. th\<lparr>status := st\<rparr>)"

definition push_code :: "call list \<Rightarrow> kstate \<Rightarrow> kstate" where
  "push_code cs s = upd_thread (cur s) (\<lambda>th. th\<lparr>code := cs @ code th\<rparr>) s"

definition upd_sema :: "sid \<Rightarrow> (semaphore \<Rightarrow> semaphore) \<Rightarrow> kstate \<Rightarrow> kstate" where
  "upd_sema x f s = s\<lparr>semas := (semas s)(x := f (semas s x))\<rparr>"

section \<open>Interrupt level\<close>

definition intr_disable :: "kstate \<Rightarrow> bool \<times> kstate" where
  "intr_disable s = (intr_on s, s\<lparr>intr_on := False\<rparr>)"

definition intr_enable :: "kstate \<Rightarrow> kstate kernel" where
  "intr_enable s = do { ASSERT (\<not> in_external_intr s); Some (s\<lparr>intr_on := True\<rparr>) }"

definition intr_set_level :: "bool \<Rightarrow> kstate \<Rightarrow> kstate kernel" where
  "intr_set_level level s = (if level then intr_enable s else Some (snd (intr_disable s)))"

definition intr_yield_on_return :: "kstate \<Rightarrow> kstate kernel" where
  "intr_yield_on_return s = do { ASSERT (in_external_intr s); Some (s\<lparr>yield_on_return := True\<rparr>) }"

section \<open>Threads and the scheduler\<close>

definition is_thread :: "kstate \<Rightarrow> addr \<Rightarrow> bool" where
  "is_thread s t \<longleftrightarrow> t \<noteq> NULL \<and> threads s t \<noteq> None"

definition thread_current :: "kstate \<Rightarrow> addr kernel" where
  "thread_current s = do {
     ASSERT (is_thread s (cur s));
     th \<leftarrow> threads s (cur s);
     ASSERT (status th = THREAD_RUNNING);
     Some (cur s)
   }"

definition thread_tid :: "kstate \<Rightarrow> u32 kernel" where
  "thread_tid s = do { t \<leftarrow> thread_current s; th \<leftarrow> threads s t; Some (tid th) }"

definition thread_get_priority :: "kstate \<Rightarrow> int kernel" where
  "thread_get_priority s = do { t \<leftarrow> thread_current s; th \<leftarrow> threads s t; Some (priority th) }"

definition thread_set_priority :: "int \<Rightarrow> kstate \<Rightarrow> kstate kernel" where
  "thread_set_priority p s = do { t \<leftarrow> thread_current s; Some (upd_thread t (\<lambda>th. th\<lparr>priority := p\<rparr>) s) }"

definition thread_unblock :: "addr \<Rightarrow> kstate \<Rightarrow> kstate kernel" where
  "thread_unblock t s = do {
     ASSERT (is_thread s t);
     let (old_level, s) = intr_disable s;
     th \<leftarrow> threads s t;
     ASSERT (status th = THREAD_BLOCKED);
     let s = s\<lparr>ready_list := ready_list s @ [t]\<rparr>;
     intr_set_level old_level (set_status t THREAD_READY s)
   }"

definition next_thread_to_run :: "kstate \<Rightarrow> addr \<times> kstate" where
  "next_thread_to_run s =
     (case ready_list s of [] \<Rightarrow> (idle_thread s, s) | t # ts \<Rightarrow> (t, s\<lparr>ready_list := ts\<rparr>))"

definition schedule_tail :: "addr \<Rightarrow> kstate \<Rightarrow> kstate kernel" where
  "schedule_tail prev s = do {
     ASSERT (\<not> intr_on s);
     let s = (set_status (cur s) THREAD_RUNNING s)\<lparr>thread_ticks := 0\<rparr>;
     if prev \<noteq> NULL
     then do {
       th \<leftarrow> threads s prev;
       if status th = THREAD_DYING \<and> prev \<noteq> initial_thread s
       then do { ASSERT (prev \<noteq> cur s); Some (s\<lparr>threads := (threads s)(prev := None)\<rparr>) }
       else Some s
     }
     else Some s
   }"

definition schedule :: "kstate \<Rightarrow> kstate kernel" where
  "schedule s = do {
     let c = cur s;
     let (nx, s) = next_thread_to_run s;
     ASSERT (\<not> intr_on s);
     th \<leftarrow> threads s c;
     ASSERT (status th \<noteq> THREAD_RUNNING);
     ASSERT (is_thread s nx);
     if c \<noteq> nx then schedule_tail c (s\<lparr>cur := nx\<rparr>) else schedule_tail NULL s
   }"

definition thread_block :: "kstate \<Rightarrow> kstate kernel" where
  "thread_block s = do {
     ASSERT (\<not> in_external_intr s);
     ASSERT (\<not> intr_on s);
     t \<leftarrow> thread_current s;
     schedule (set_status t THREAD_BLOCKED s)
   }"

definition thread_yield :: "kstate \<Rightarrow> kstate kernel" where
  "thread_yield s = do {
     t \<leftarrow> thread_current s;
     ASSERT (\<not> in_external_intr s);
     let (old_level, s) = intr_disable s;
     let s = (if t \<noteq> idle_thread s then s\<lparr>ready_list := ready_list s @ [t]\<rparr> else s);
     schedule (push_code [Intr_set_level old_level] (set_status t THREAD_READY s))
   }"

definition thread_exit :: "kstate \<Rightarrow> kstate kernel" where
  "thread_exit s = do {
     ASSERT (\<not> in_external_intr s);
     let (_, s) = intr_disable s;
     t \<leftarrow> thread_current s;
     schedule (set_status t THREAD_DYING s)
   }"

definition init_thread :: "int \<Rightarrow> call list \<Rightarrow> thread" where
  "init_thread p cs = \<lparr>tid = 0, status = THREAD_BLOCKED, priority = p, sleep_until = 0, pagedir = 0, code = cs\<rparr>"

definition zero_sema :: semaphore where
  "zero_sema = \<lparr>sem_value = 0, waiters = [], inited = False\<rparr>"

definition thread_create :: "addr \<Rightarrow> int \<Rightarrow> call list \<Rightarrow> kstate \<Rightarrow> (u32 \<times> kstate) kernel" where
  "thread_create page p cs s =
     (if page = NULL \<or> threads s page \<noteq> None then Some (TID_ERROR, s)
      else do {
        ASSERT (PRI_MIN \<le> p \<and> p \<le> PRI_MAX);
        let new_tid = next_tid s;
        let th = (init_thread p (Intr_set_level True # cs))\<lparr>tid := new_tid\<rparr>;
        let s = upd_sema (SleepSem page) (\<lambda>_. zero_sema) (s\<lparr>threads := (threads s)(page \<mapsto> th), next_tid := new_tid + 1\<rparr>);
        s \<leftarrow> thread_unblock page s;
        Some (new_tid, s)
      })"

definition count_tick :: "addr \<Rightarrow> thread \<Rightarrow> kstate \<Rightarrow> kstate" where
  "count_tick t th s =
     (if t = idle_thread s then s\<lparr>idle_ticks := idle_ticks s + 1\<rparr>
      else if pagedir th \<noteq> NULL then s\<lparr>user_ticks := user_ticks s + 1\<rparr>
      else s\<lparr>kernel_ticks := kernel_ticks s + 1\<rparr>)"

definition thread_tick :: "kstate \<Rightarrow> kstate kernel" where
  "thread_tick s = do {
     t \<leftarrow> thread_current s;
     th \<leftarrow> threads s t;
     let s = count_tick t th s;
     let s = s\<lparr>thread_ticks := thread_ticks s + 1\<rparr>;
     if TIME_SLICE \<le> thread_ticks s then intr_yield_on_return s else Some s
   }"

section \<open>Semaphores\<close>

definition sema_init :: "sid \<Rightarrow> u32 \<Rightarrow> kstate \<Rightarrow> kstate" where
  "sema_init x v = upd_sema x (\<lambda>_. \<lparr>sem_value = v, waiters = [], inited = True\<rparr>)"

definition down_loop :: "sid \<Rightarrow> bool \<Rightarrow> kstate \<Rightarrow> kstate kernel" where
  "down_loop x old_level s =
     (if sem_value (semas s x) = 0
      then do {
        t \<leftarrow> thread_current s;
        ASSERT (inited (semas s x));
        let s = upd_sema x (\<lambda>q. q\<lparr>waiters := waiters q @ [t]\<rparr>) s;
        thread_block (push_code [Down_loop x old_level] s)
      }
      else intr_set_level old_level (upd_sema x (\<lambda>q. q\<lparr>sem_value := sem_value q - 1\<rparr>) s))"

definition sema_down :: "sid \<Rightarrow> kstate \<Rightarrow> kstate kernel" where
  "sema_down x s = do {
     ASSERT (\<not> in_external_intr s);
     let (old_level, s) = intr_disable s;
     down_loop x old_level s
   }"

definition sema_try_down :: "sid \<Rightarrow> kstate \<Rightarrow> (bool \<times> kstate) kernel" where
  "sema_try_down x s = do {
     let (old_level, s) = intr_disable s;
     let success = (0 < sem_value (semas s x));
     let s = (if success then upd_sema x (\<lambda>q. q\<lparr>sem_value := sem_value q - 1\<rparr>) s else s);
     s \<leftarrow> intr_set_level old_level s;
     Some (success, s)
   }"

definition sema_up :: "sid \<Rightarrow> kstate \<Rightarrow> kstate kernel" where
  "sema_up x s = do {
     let (old_level, s) = intr_disable s;
     ASSERT (inited (semas s x));
     s \<leftarrow> (case waiters (semas s x) of
              [] \<Rightarrow> Some s
            | t # ts \<Rightarrow> thread_unblock t (upd_sema x (\<lambda>q. q\<lparr>waiters := ts\<rparr>) s));
     intr_set_level old_level (upd_sema x (\<lambda>q. q\<lparr>sem_value := sem_value q + 1\<rparr>) s)
   }"

section \<open>Locks and condition variables\<close>

definition lock_init :: "addr \<Rightarrow> kstate \<Rightarrow> kstate" where
  "lock_init l s = sema_init (LockSem l) 1 (s\<lparr>holder := (holder s)(l := NULL)\<rparr>)"

definition lock_held_by_current_thread :: "addr \<Rightarrow> kstate \<Rightarrow> bool kernel" where
  "lock_held_by_current_thread l s = do { t \<leftarrow> thread_current s; Some (holder s l = t) }"

definition set_holder :: "addr \<Rightarrow> kstate \<Rightarrow> kstate kernel" where
  "set_holder l s = do { t \<leftarrow> thread_current s; Some (s\<lparr>holder := (holder s)(l := t)\<rparr>) }"

definition lock_acquire :: "addr \<Rightarrow> kstate \<Rightarrow> kstate kernel" where
  "lock_acquire l s = do {
     ASSERT (\<not> in_external_intr s);
     held \<leftarrow> lock_held_by_current_thread l s;
     ASSERT (\<not> held);
     sema_down (LockSem l) (push_code [Set_holder l] s)
   }"

definition lock_try_acquire :: "addr \<Rightarrow> kstate \<Rightarrow> (bool \<times> kstate) kernel" where
  "lock_try_acquire l s = do {
     held \<leftarrow> lock_held_by_current_thread l s;
     ASSERT (\<not> held);
     (success, s) \<leftarrow> sema_try_down (LockSem l) s;
     Some (success, if success then push_code [Set_holder l] s else s)
   }"

definition lock_release :: "addr \<Rightarrow> kstate \<Rightarrow> kstate kernel" where
  "lock_release l s = do {
     held \<leftarrow> lock_held_by_current_thread l s;
     ASSERT held;
     Some (push_code [Release_up l] (s\<lparr>holder := (holder s)(l := NULL)\<rparr>))
   }"

definition cond_init :: "addr \<Rightarrow> kstate \<Rightarrow> kstate" where
  "cond_init c s = s\<lparr>cond_waiters := (cond_waiters s)(c := [])\<rparr>"

definition cond_wait :: "addr \<Rightarrow> addr \<Rightarrow> kstate \<Rightarrow> kstate kernel" where
  "cond_wait c l s = do {
     ASSERT (\<not> in_external_intr s);
     held \<leftarrow> lock_held_by_current_thread l s;
     ASSERT held;
     t \<leftarrow> thread_current s;
     let s = sema_init (CondSem t) 0 s;
     let s = s\<lparr>cond_waiters := (cond_waiters s)(c := cond_waiters s c @ [CondSem t])\<rparr>;
     Some (push_code [Lock_release l, Sema_down (CondSem t), Lock_acquire l] s)
   }"

definition cond_signal :: "addr \<Rightarrow> addr \<Rightarrow> kstate \<Rightarrow> kstate kernel" where
  "cond_signal c l s = do {
     ASSERT (\<not> in_external_intr s);
     held \<leftarrow> lock_held_by_current_thread l s;
     ASSERT held;
     case cond_waiters s c of
       [] \<Rightarrow> Some s
     | x # xs \<Rightarrow> sema_up x (s\<lparr>cond_waiters := (cond_waiters s)(c := xs)\<rparr>)
   }"

definition cond_broadcast :: "addr \<Rightarrow> addr \<Rightarrow> kstate \<Rightarrow> kstate kernel" where
  "cond_broadcast c l s =
     Some (if cond_waiters s c \<noteq> [] then push_code [Cond_signal c l, Cond_broadcast c l] s else s)"

section \<open>The sleep queue\<close>

definition wake_time :: "kstate \<Rightarrow> addr \<Rightarrow> 64 word" where
  "wake_time s t = (case threads s t of Some th \<Rightarrow> sleep_until th | None \<Rightarrow> 0)"

definition sleep_less :: "kstate \<Rightarrow> addr \<Rightarrow> addr \<Rightarrow> bool" where
  "sleep_less s a b \<longleftrightarrow> wake_time s a < wake_time s b"

definition insert_ordered :: "('a \<Rightarrow> 'a \<Rightarrow> bool) \<Rightarrow> 'a \<Rightarrow> 'a list \<Rightarrow> 'a list" where
  "insert_ordered lt e xs = takeWhile (\<lambda>y. \<not> lt e y) xs @ e # dropWhile (\<lambda>y. \<not> lt e y) xs"

definition timer_ticks :: "kstate \<Rightarrow> 64 word" where
  "timer_ticks s = ticks s"

definition timer_elapsed :: "64 word \<Rightarrow> kstate \<Rightarrow> 64 word" where
  "timer_elapsed thn s = timer_ticks s - thn"

definition timer_sleep :: "64 word \<Rightarrow> kstate \<Rightarrow> kstate kernel" where
  "timer_sleep n s = do {
     t \<leftarrow> thread_current s;
     let wake = n + timer_ticks s;
     ASSERT (intr_on s);
     let s = upd_thread t (\<lambda>th. th\<lparr>sleep_until := wake\<rparr>) s;
     let (old_level, s) = intr_disable s;
     let s = s\<lparr>sleep_list := insert_ordered (sleep_less s) t (sleep_list s)\<rparr>;
     s \<leftarrow> intr_set_level old_level s;
     Some (push_code [Sleep_init, Sema_down (SleepSem t)] s)
   }"

fun wake_loop :: "addr list \<Rightarrow> kstate \<Rightarrow> kstate kernel" where
  "wake_loop [] s = Some (s\<lparr>sleep_list := []\<rparr>)"
| "wake_loop (t # ts) s = do {
     th \<leftarrow> threads s t;
     if timer_ticks s <s sleep_until th then Some (s\<lparr>sleep_list := t # ts\<rparr>)
     else do { s \<leftarrow> sema_up (SleepSem t) s; wake_loop ts s }
   }"

definition timer_interrupt :: "kstate \<Rightarrow> kstate kernel" where
  "timer_interrupt s = do {
     let s = s\<lparr>ticks := ticks s + 1\<rparr>;
     let (old_level, s) = intr_disable s;
     s \<leftarrow> wake_loop (sleep_list s) s;
     s \<leftarrow> intr_set_level old_level s;
     thread_tick s
   }"

section \<open>External interrupts and steps\<close>

definition intr_handler :: "kstate \<Rightarrow> kstate kernel" where
  "intr_handler s = do {
     ASSERT (\<not> intr_on s);
     ASSERT (\<not> in_external_intr s);
     s \<leftarrow> timer_interrupt (s\<lparr>in_external_intr := True, yield_on_return := False\<rparr>);
     ASSERT (\<not> intr_on s);
     ASSERT (in_external_intr s);
     let s = s\<lparr>in_external_intr := False\<rparr>;
     if yield_on_return s then thread_yield s else Some s
   }"

definition timer_irq :: "kstate \<Rightarrow> kstate kernel" where
  "timer_irq s = intr_handler (push_code [Intr_set_level True] (s\<lparr>intr_on := False\<rparr>))"

definition exec_call :: "call \<Rightarrow> kstate \<Rightarrow> kstate kernel" where
  "exec_call i s = (case i of
     Sema_down x \<Rightarrow> sema_down x s
   | Sema_up x \<Rightarrow> sema_up x s
   | Sema_try_down x \<Rightarrow> map_option snd (sema_try_down x s)
   | Lock_acquire l \<Rightarrow> lock_acquire l s
   | Lock_try_acquire l \<Rightarrow> map_option snd (lock_try_acquire l s)
   | Lock_release l \<Rightarrow> lock_release l s
   | Cond_wait c l \<Rightarrow> cond_wait c l s
   | Cond_signal c l \<Rightarrow> cond_signal c l s
   | Cond_broadcast c l \<Rightarrow> cond_broadcast c l s
   | Thread_create page p cs \<Rightarrow> map_option snd (thread_create page p cs s)
   | Thread_yield \<Rightarrow> thread_yield s
   | Thread_exit \<Rightarrow> thread_exit s
   | Thread_set_priority p \<Rightarrow> thread_set_priority p s
   | Timer_sleep n \<Rightarrow> timer_sleep n s
   | Down_loop x old_level \<Rightarrow> down_loop x old_level s
   | Set_holder l \<Rightarrow> set_holder l s
   | Release_up l \<Rightarrow> sema_up (LockSem l) s
   | Intr_set_level b \<Rightarrow> intr_set_level b s
   | Sleep_init \<Rightarrow> do { t \<leftarrow> thread_current s; Some (sema_init (SleepSem t) 0 s) }
   | Idle_block \<Rightarrow> thread_block (push_code [Sti_hlt, Idle_block] (s\<lparr>intr_on := False\<rparr>))
   | Sti_hlt \<Rightarrow> Some (s\<lparr>intr_on := True\<rparr>))"

definition thread_step :: "kstate \<Rightarrow> kstate kernel" where
  "thread_step s = do {
     t \<leftarrow> thread_current s;
     th \<leftarrow> threads s t;
     case code th of
       [] \<Rightarrow> thread_exit s
     | i # is \<Rightarrow> exec_call i (upd_thread t (\<lambda>th. th\<lparr>code := is\<rparr>) s)
   }"

inductive kstep :: "kstate \<Rightarrow> kstate \<Rightarrow> bool" where
  run: "thread_step s = Some s' \<Longrightarrow> kstep s s'"
| irq: "intr_on s \<Longrightarrow> timer_irq s = Some s' \<Longrightarrow> kstep s s'"

definition boot_state :: "addr \<Rightarrow> addr \<Rightarrow> (addr \<Rightarrow> u32) \<Rightarrow> call list \<Rightarrow> kstate" where
  "boot_state main idl vals cs = \<lparr>threads = [main \<mapsto> (init_thread PRI_DEFAULT cs)\<lparr>tid := 1, status := THREAD_RUNNING\<rparr>,
        idl \<mapsto> (init_thread PRI_MIN [Sti_hlt, Idle_block])\<lparr>tid := 2\<rparr>],
     cur = main, ready_list = [], idle_thread = idl, initial_thread = main, next_tid = 3,
     thread_ticks = 0, idle_ticks = 0, kernel_ticks = 0, user_ticks = 0, intr_on = True,
     in_external_intr = False, yield_on_return = False,
     semas = (\<lambda>x. case x of SleepSem _ \<Rightarrow> zero_sema
       | _ \<Rightarrow> \<lparr>sem_value = (case x of LockSem _ \<Rightarrow> 1 | Sem a \<Rightarrow> vals a | _ \<Rightarrow> 0), waiters = [], inited = True\<rparr>),
     holder = (\<lambda>_. NULL), cond_waiters = (\<lambda>_. []), ticks = 0, sleep_list = []\<rparr>"

end
