(* ===== verification/Threads_Wf.thy ===== *)
theory Threads_Wf
  imports Threads
begin

text \<open>
  The invariant of the scheduler.  The comment on \<^verbatim>\<open>struct thread\<close> in \<^verbatim>\<open>threads/thread.h\<close>
  says that the list element \<^verbatim>\<open>elem\<close> may serve both the run queue and a semaphore's wait
  list, because only a ready thread is on the run queue and only a blocked one on a wait
  list.  The invariant states this exactly and every step of every thread and every timer
  interrupt keeps it.
\<close>

section \<open>What a thread may have left to do\<close>

definition status_of :: "kstate \<Rightarrow> addr \<Rightarrow> thread_status option" where
  "status_of s t = map_option status (threads s t)"

definition code_of :: "kstate \<Rightarrow> addr \<Rightarrow> call list" where
  "code_of s t = (case threads s t of Some th \<Rightarrow> code th | None \<Rightarrow> [])"

fun own_sema :: "addr \<Rightarrow> sid \<Rightarrow> bool" where
  "own_sema t (Sem a) = True"
| "own_sema t (LockSem l) = False"
| "own_sema t (CondSem u) = (u = t)"
| "own_sema t (SleepSem u) = (u = t)"

fun fresh_call :: "addr \<Rightarrow> call \<Rightarrow> bool" where
  "fresh_call t (Sema_down x) = own_sema t x"
| "fresh_call t (Sema_up x) = (\<exists>a. x = Sem a)"
| "fresh_call t (Sema_try_down x) = (\<exists>a. x = Sem a)"
| "fresh_call t (Thread_create page p cs) = list_all (fresh_call page) cs"
| "fresh_call t (Down_loop x b) = False"
| "fresh_call t (Set_holder l) = False"
| "fresh_call t (Release_up l) = False"
| "fresh_call t (Intr_set_level b) = False"
| "fresh_call t Sleep_init = False"
| "fresh_call t Idle_block = False"
| "fresh_call t Sti_hlt = False"
| "fresh_call t _ = True"

abbreviation fresh :: "addr \<Rightarrow> call list \<Rightarrow> bool" where
  "fresh t cs \<equiv> list_all (fresh_call t) cs"

fun in_down :: "call list \<Rightarrow> sid option" where
  "in_down (Down_loop x b # cs) = Some x"
| "in_down _ = None"

fun code_ok :: "addr \<Rightarrow> call list \<Rightarrow> bool" where
  "code_ok t (Intr_set_level b # cs) = (code_ok t cs \<and> in_down cs = None)"
| "code_ok t (Down_loop (LockSem l) b # cs) = (\<exists>cs'. cs = Set_holder l # cs' \<and> fresh t cs')"
| "code_ok t (Down_loop x b # cs) = (own_sema t x \<and> fresh t cs)"
| "code_ok t (Set_holder l # cs) = fresh t cs"
| "code_ok t (Release_up l # cs) = fresh t cs"
| "code_ok t (Sleep_init # cs) = fresh t cs"
| "code_ok t cs = fresh t cs"

fun idle_ok :: "call list \<Rightarrow> bool" where
  "idle_ok (Intr_set_level b # cs) = idle_ok cs"
| "idle_ok (Sti_hlt # cs) = (cs = [Idle_block])"
| "idle_ok cs = (cs = [Idle_block])"

lemma idle_no_down: "idle_ok cs \<Longrightarrow> in_down cs = None"
  by (cases cs rule: idle_ok.cases) auto

section \<open>The invariant\<close>

definition thread_ok :: "kstate \<Rightarrow> addr \<Rightarrow> bool" where
  "thread_ok s t \<longleftrightarrow> (if t = idle_thread s then idle_ok (code_of s t)
     else code_ok t (code_of s t) \<and> (status_of s t = Some THREAD_BLOCKED \<longrightarrow> in_down (code_of s t) \<noteq> None))"

definition queues_ok :: "kstate \<Rightarrow> bool" where
  "queues_ok s \<longleftrightarrow> status_of s NULL = None \<and>
     (\<forall>t. t \<noteq> cur s \<longrightarrow> status_of s t \<noteq> Some THREAD_RUNNING) \<and>
     distinct (ready_list s) \<and>
     (\<forall>t. t \<in> set (ready_list s) \<longleftrightarrow> status_of s t = Some THREAD_READY \<and> t \<noteq> idle_thread s) \<and>
     status_of s (idle_thread s) \<notin> {None, Some THREAD_DYING} \<and>
     (\<forall>x. distinct (waiters (semas s x))) \<and>
     (\<forall>x t. t \<in> set (waiters (semas s x)) \<longleftrightarrow>
        status_of s t = Some THREAD_BLOCKED \<and> in_down (code_of s t) = Some x) \<and>
     (\<forall>t. t \<noteq> cur s \<longrightarrow> thread_ok s t)"

definition running :: "kstate \<Rightarrow> bool" where
  "running s \<longleftrightarrow> status_of s (cur s) = Some THREAD_RUNNING"

definition sched_wf :: "kstate \<Rightarrow> bool" where
  "sched_wf s \<longleftrightarrow> queues_ok s \<and> running s \<and> thread_ok s (cur s) \<and> \<not> in_external_intr s \<and>
     (intr_on s \<longrightarrow> in_down (code_of s (cur s)) = None)"

lemma queues_okI:
  assumes "status_of s NULL = None"
    and "\<And>t. t \<noteq> cur s \<Longrightarrow> status_of s t \<noteq> Some THREAD_RUNNING"
    and "distinct (ready_list s)"
    and "\<And>t. t \<in> set (ready_list s) \<longleftrightarrow> status_of s t = Some THREAD_READY \<and> t \<noteq> idle_thread s"
    and "status_of s (idle_thread s) \<notin> {None, Some THREAD_DYING}"
    and "\<And>x. distinct (waiters (semas s x))"
    and "\<And>x t. t \<in> set (waiters (semas s x)) \<longleftrightarrow>
        status_of s t = Some THREAD_BLOCKED \<and> in_down (code_of s t) = Some x"
    and "\<And>t. t \<noteq> cur s \<Longrightarrow> thread_ok s t"
  shows "queues_ok s"
  using assms by (simp add: queues_ok_def)

lemma queues_okD:
  assumes "queues_ok s"
  shows "status_of s NULL = None"
    and "t \<noteq> cur s \<Longrightarrow> status_of s t \<noteq> Some THREAD_RUNNING"
    and "distinct (ready_list s)"
    and "t \<in> set (ready_list s) \<longleftrightarrow> status_of s t = Some THREAD_READY \<and> t \<noteq> idle_thread s"
    and "status_of s (idle_thread s) \<noteq> None"
    and "status_of s (idle_thread s) \<noteq> Some THREAD_DYING"
    and "distinct (waiters (semas s x))"
    and "t \<in> set (waiters (semas s x)) \<longleftrightarrow>
        status_of s t = Some THREAD_BLOCKED \<and> in_down (code_of s t) = Some x"
    and "t \<noteq> cur s \<Longrightarrow> thread_ok s t"
  using assms by (simp_all add: queues_ok_def)

section \<open>Reading the state after an update\<close>

lemma status_of_upd [simp]:
  "(\<And>th. status (f th) = status th) \<Longrightarrow> status_of (upd_thread t f s) u = status_of s u"
  "status_of (set_status t st s) u =
     (if u = t then map_option (\<lambda>_. st) (status_of s u) else status_of s u)"
  "status_of (push_code cs s) u = status_of s u"
  "status_of (upd_sema x g s) u = status_of s u"
  by (auto simp: status_of_def upd_thread_def set_status_def push_code_def upd_sema_def
      option.map_comp comp_def split: option.splits)

lemma code_of_upd [simp]:
  "code_of (set_status t st s) u = code_of s u"
  "code_of (upd_sema x g s) u = code_of s u"
  "code_of (push_code cs s) u = (if u = cur s \<and> status_of s u \<noteq> None then cs @ code_of s u else code_of s u)"
  by (auto simp: code_of_def status_of_def upd_thread_def set_status_def push_code_def upd_sema_def
      split: option.splits)

lemma code_of_pop [simp]:
  "code_of (upd_thread t (\<lambda>th. th\<lparr>code := cs\<rparr>) s) u
     = (if u = t \<and> status_of s u \<noteq> None then cs else code_of s u)"
  by (auto simp: code_of_def status_of_def upd_thread_def split: option.splits)

lemma code_of_upd_thread [simp]:
  "(\<And>th. code (f th) = code th) \<Longrightarrow> code_of (upd_thread t f s) u = code_of s u"
  by (auto simp: code_of_def upd_thread_def split: option.splits)

lemma fields_upd [simp]:
  "cur (upd_thread t f s) = cur s" "ready_list (upd_thread t f s) = ready_list s"
  "idle_thread (upd_thread t f s) = idle_thread s" "semas (upd_thread t f s) = semas s"
  "initial_thread (upd_thread t f s) = initial_thread s"
  "intr_on (upd_thread t f s) = intr_on s" "in_external_intr (upd_thread t f s) = in_external_intr s"
  "holder (upd_thread t f s) = holder s" "cond_waiters (upd_thread t f s) = cond_waiters s"
  "sleep_list (upd_thread t f s) = sleep_list s" "ticks (upd_thread t f s) = ticks s"
  "yield_on_return (upd_thread t f s) = yield_on_return s"
  "cur (upd_sema x g s) = cur s" "ready_list (upd_sema x g s) = ready_list s"
  "idle_thread (upd_sema x g s) = idle_thread s" "semas (upd_sema x g s) = (semas s)(x := g (semas s x))"
  "initial_thread (upd_sema x g s) = initial_thread s" "threads (upd_sema x g s) = threads s"
  "intr_on (upd_sema x g s) = intr_on s" "in_external_intr (upd_sema x g s) = in_external_intr s"
  "holder (upd_sema x g s) = holder s" "cond_waiters (upd_sema x g s) = cond_waiters s"
  "sleep_list (upd_sema x g s) = sleep_list s" "ticks (upd_sema x g s) = ticks s"
  "yield_on_return (upd_sema x g s) = yield_on_return s"
  by (simp_all add: upd_thread_def upd_sema_def)

lemma fields_status [simp]:
  "cur (set_status t st s) = cur s" "ready_list (set_status t st s) = ready_list s"
  "idle_thread (set_status t st s) = idle_thread s" "semas (set_status t st s) = semas s"
  "initial_thread (set_status t st s) = initial_thread s"
  "intr_on (set_status t st s) = intr_on s" "in_external_intr (set_status t st s) = in_external_intr s"
  "holder (set_status t st s) = holder s" "cond_waiters (set_status t st s) = cond_waiters s"
  "sleep_list (set_status t st s) = sleep_list s" "ticks (set_status t st s) = ticks s"
  "yield_on_return (set_status t st s) = yield_on_return s"
  "cur (push_code cs s) = cur s" "ready_list (push_code cs s) = ready_list s"
  "idle_thread (push_code cs s) = idle_thread s" "semas (push_code cs s) = semas s"
  "initial_thread (push_code cs s) = initial_thread s"
  "intr_on (push_code cs s) = intr_on s" "in_external_intr (push_code cs s) = in_external_intr s"
  "holder (push_code cs s) = holder s" "cond_waiters (push_code cs s) = cond_waiters s"
  "sleep_list (push_code cs s) = sleep_list s" "ticks (push_code cs s) = ticks s"
  "yield_on_return (push_code cs s) = yield_on_return s"
  by (simp_all add: set_status_def push_code_def)

lemma status_code_fields [simp]:
  "status_of (s\<lparr>cur := a\<rparr>) = status_of s" "status_of (s\<lparr>ready_list := l\<rparr>) = status_of s"
  "status_of (s\<lparr>thread_ticks := n\<rparr>) = status_of s" "status_of (s\<lparr>intr_on := b\<rparr>) = status_of s"
  "status_of (s\<lparr>in_external_intr := b\<rparr>) = status_of s" "status_of (s\<lparr>yield_on_return := b\<rparr>) = status_of s"
  "status_of (s\<lparr>holder := hs\<rparr>) = status_of s" "status_of (s\<lparr>cond_waiters := cw\<rparr>) = status_of s"
  "status_of (s\<lparr>ticks := k\<rparr>) = status_of s" "status_of (s\<lparr>sleep_list := l\<rparr>) = status_of s"
  "status_of (s\<lparr>idle_ticks := k\<rparr>) = status_of s" "status_of (s\<lparr>user_ticks := k\<rparr>) = status_of s"
  "status_of (s\<lparr>kernel_ticks := k\<rparr>) = status_of s"
  "code_of (s\<lparr>cur := a\<rparr>) = code_of s" "code_of (s\<lparr>ready_list := l\<rparr>) = code_of s"
  "code_of (s\<lparr>thread_ticks := n\<rparr>) = code_of s" "code_of (s\<lparr>intr_on := b\<rparr>) = code_of s"
  "code_of (s\<lparr>in_external_intr := b\<rparr>) = code_of s" "code_of (s\<lparr>yield_on_return := b\<rparr>) = code_of s"
  "code_of (s\<lparr>holder := hs\<rparr>) = code_of s" "code_of (s\<lparr>cond_waiters := cw\<rparr>) = code_of s"
  "code_of (s\<lparr>ticks := k\<rparr>) = code_of s" "code_of (s\<lparr>sleep_list := l\<rparr>) = code_of s"
  "code_of (s\<lparr>idle_ticks := k\<rparr>) = code_of s" "code_of (s\<lparr>user_ticks := k\<rparr>) = code_of s"
  "code_of (s\<lparr>kernel_ticks := k\<rparr>) = code_of s"
  by (simp_all add: status_of_def code_of_def fun_eq_iff)

definition free_thread :: "addr \<Rightarrow> kstate \<Rightarrow> kstate" where
  "free_thread t s = s\<lparr>threads := (threads s)(t := None)\<rparr>"

lemma free_thread_fields [simp]:
  "status_of (free_thread t s) u = (if u = t then None else status_of s u)"
  "code_of (free_thread t s) u = (if u = t then [] else code_of s u)"
  "semas (free_thread t s) = semas s" "holder (free_thread t s) = holder s"
  "cond_waiters (free_thread t s) = cond_waiters s" "intr_on (free_thread t s) = intr_on s"
  "idle_thread (free_thread t s) = idle_thread s" "in_external_intr (free_thread t s) = in_external_intr s"
  "sleep_list (free_thread t s) = sleep_list s" "ticks (free_thread t s) = ticks s"
  "initial_thread (free_thread t s) = initial_thread s" "ready_list (free_thread t s) = ready_list s"
  "cur (free_thread t s) = cur s"
  by (simp_all add: status_of_def code_of_def free_thread_def)

section \<open>Evaluation on well-formed states\<close>

lemma is_thread_status: "is_thread s t \<longleftrightarrow> t \<noteq> NULL \<and> status_of s t \<noteq> None"
  by (auto simp: is_thread_def status_of_def)

lemma thread_current_eval [kernel_simps]:
  "running s \<Longrightarrow> status_of s NULL = None \<Longrightarrow> thread_current s = Some (cur s)"
  by (auto simp: thread_current_def is_thread_status running_def status_of_def kernel_simps)

lemma intr_set_level_eval [kernel_simps]:
  "(b \<longrightarrow> \<not> in_external_intr s) \<Longrightarrow> intr_set_level b s = Some (s\<lparr>intr_on := b\<rparr>)"
  by (auto simp: intr_set_level_def intr_enable_def intr_disable_def)

definition up_effect :: "sid \<Rightarrow> kstate \<Rightarrow> kstate" where
  "up_effect x s = upd_sema x (\<lambda>q. q\<lparr>sem_value := sem_value q + 1\<rparr>)
     (case waiters (semas s x) of [] \<Rightarrow> s
      | t # ts \<Rightarrow> set_status t THREAD_READY
          ((upd_sema x (\<lambda>q. q\<lparr>waiters := ts\<rparr>) s)\<lparr>ready_list := ready_list s @ [t]\<rparr>))"

lemma intr_on_self [simp]: "intr_on s = b \<Longrightarrow> s\<lparr>intr_on := b\<rparr> = s"
  by auto

lemma set_status_intr: "(set_status t st s)\<lparr>intr_on := b\<rparr> = set_status t st (s\<lparr>intr_on := b\<rparr>)"
  by (simp add: set_status_def upd_thread_def)

lemma upd_sema_intr: "(upd_sema x g s)\<lparr>intr_on := b\<rparr> = upd_sema x g (s\<lparr>intr_on := b\<rparr>)"
  by (simp add: upd_sema_def)

lemma sema_up_inited: "sema_up x s = Some s' \<Longrightarrow> inited (semas s x)"
  by (auto simp: sema_up_def intr_disable_def Let_def bind_Some_iff kernel_simps split: if_splits)

lemma down_loop_inited: "down_loop x old s = Some s' \<Longrightarrow> sem_value (semas s x) = 0 \<Longrightarrow> inited (semas s x)"
  by (auto simp: down_loop_def bind_Some_iff kernel_simps split: if_splits)

lemma sema_up_eval:
  assumes "queues_ok s" and "intr_on s \<longrightarrow> \<not> in_external_intr s" and i: "inited (semas s x)"
  shows "sema_up x s = Some (up_effect x s)"
proof (cases "waiters (semas s x)")
  case Nil
  then show ?thesis
    using assms by (simp add: sema_up_def up_effect_def intr_disable_def kernel_simps upd_sema_intr)
next
  case (Cons t ts)
  then have "t \<in> set (waiters (semas s x))"
    by simp
  then have "status_of s t = Some THREAD_BLOCKED" "t \<noteq> NULL"
    using assms(1) by (auto simp: queues_ok_def)
  then show ?thesis
    using assms(2) Cons i
    by (auto simp: sema_up_def up_effect_def intr_disable_def thread_unblock_def is_thread_status
        status_of_def upd_sema_def kernel_simps set_status_def upd_thread_def)
qed

lemma sema_up_effect:
  assumes "sema_up x s = Some s'" and "queues_ok s" and "intr_on s \<longrightarrow> \<not> in_external_intr s"
  shows "s' = up_effect x s"
  using sema_up_eval [OF assms(2,3) sema_up_inited [OF assms(1)]] assms(1) by simp

definition switch :: "kstate \<Rightarrow> kstate" where
  "switch s =
     (let nx = fst (next_thread_to_run s);
          s1 = (set_status nx THREAD_RUNNING (s\<lparr>ready_list := tl (ready_list s), cur := nx\<rparr>))\<lparr>thread_ticks := 0\<rparr>
      in if nx \<noteq> cur s \<and> status_of s (cur s) = Some THREAD_DYING \<and> cur s \<noteq> initial_thread s
         then free_thread (cur s) s1 else s1)"

lemma next_thread_queued:
  assumes "queues_ok s"
  shows "next_thread_to_run s = (fst (next_thread_to_run s), s\<lparr>ready_list := tl (ready_list s)\<rparr>)"
    and "status_of s (fst (next_thread_to_run s)) \<noteq> None" and "fst (next_thread_to_run s) \<noteq> NULL"
    and "status_of s (fst (next_thread_to_run s)) \<noteq> Some THREAD_DYING"
proof -
  have *: "status_of s (fst (next_thread_to_run s)) \<notin> {None, Some THREAD_DYING}"
  proof (cases "ready_list s")
    case (Cons t ts)
    then show ?thesis
      using queues_okD(4) [OF assms, of t] by (simp add: next_thread_to_run_def)
  qed (use queues_okD(5,6) [OF assms] in \<open>simp add: next_thread_to_run_def\<close>)
  then show "status_of s (fst (next_thread_to_run s)) \<noteq> None"
    "status_of s (fst (next_thread_to_run s)) \<noteq> Some THREAD_DYING" "fst (next_thread_to_run s) \<noteq> NULL"
    using assms by (auto simp: queues_ok_def)
  show "next_thread_to_run s = (fst (next_thread_to_run s), s\<lparr>ready_list := tl (ready_list s)\<rparr>)"
    by (cases "ready_list s") (simp_all add: next_thread_to_run_def)
qed

lemma schedule_eval:
  assumes "queues_ok s" and "\<not> intr_on s" and "status_of s (cur s) \<notin> {None, Some THREAD_RUNNING}"
  shows "schedule s = Some (switch s)"
proof -
  obtain th where th: "threads s (cur s) = Some th" "status th \<noteq> THREAD_RUNNING"
    using assms(3) by (auto simp: status_of_def)
  have c: "cur s \<noteq> NULL"
    using assms(1,3) by (auto simp: queues_ok_def)
  obtain n where n: "next_thread_to_run s = (n, s\<lparr>ready_list := tl (ready_list s)\<rparr>)"
    "status_of s n \<noteq> None" "n \<noteq> NULL"
    using next_thread_queued [OF assms(1)] by metis
  show ?thesis
  proof (cases "cur s = n")
    case True
    then have eq: "s\<lparr>ready_list := tl (ready_list s), cur := n\<rparr> = s\<lparr>ready_list := tl (ready_list s)\<rparr>"
      by auto
    show ?thesis
      using True assms(2) th n c
      by (simp add: eq schedule_def kernel_simps is_thread_status status_of_def schedule_tail_def switch_def Let_def)
  next
    case False
    then show ?thesis
      using assms(2) th n c
      by (auto simp: schedule_def kernel_simps is_thread_status status_of_def schedule_tail_def switch_def Let_def
          set_status_def upd_thread_def free_thread_def)
  qed
qed

section \<open>Frames\<close>

lemma up_effect_fields [simp]:
  "cur (up_effect x s) = cur s" "code_of (up_effect x s) = code_of s" "holder (up_effect x s) = holder s"
  "cond_waiters (up_effect x s) = cond_waiters s" "intr_on (up_effect x s) = intr_on s"
  "idle_thread (up_effect x s) = idle_thread s" "in_external_intr (up_effect x s) = in_external_intr s"
  "sleep_list (up_effect x s) = sleep_list s" "ticks (up_effect x s) = ticks s"
  "initial_thread (up_effect x s) = initial_thread s" "yield_on_return (up_effect x s) = yield_on_return s"
  by (auto simp: up_effect_def fun_eq_iff split: list.splits)

lemma up_effect_value [simp]:
  "sem_value (semas (up_effect x s) y) = (if y = x then sem_value (semas s y) + 1 else sem_value (semas s y))"
  "waiters (semas (up_effect x s) y) = (if y = x then tl (waiters (semas s y)) else waiters (semas s y))"
  by (auto simp: up_effect_def split: list.splits)

lemma up_effect_status:
  "status_of (up_effect x s) t =
     (if waiters (semas s x) \<noteq> [] \<and> t = hd (waiters (semas s x)) \<and> status_of s t \<noteq> None
      then Some THREAD_READY else status_of s t)"
  by (auto simp: up_effect_def split: list.splits)

lemma up_effect_ready: "ready_list (up_effect x s) = ready_list s @ take 1 (waiters (semas s x))"
  by (auto simp: up_effect_def split: list.splits)

lemma switch_fields [simp]:
  "semas (switch s) = semas s" "holder (switch s) = holder s" "cond_waiters (switch s) = cond_waiters s"
  "intr_on (switch s) = intr_on s" "idle_thread (switch s) = idle_thread s"
  "in_external_intr (switch s) = in_external_intr s" "sleep_list (switch s) = sleep_list s"
  "ticks (switch s) = ticks s" "initial_thread (switch s) = initial_thread s"
  "ready_list (switch s) = tl (ready_list s)" "cur (switch s) = fst (next_thread_to_run s)"
  by (auto simp: switch_def Let_def)

definition freed :: "kstate \<Rightarrow> addr \<Rightarrow> bool" where
  "freed s t \<longleftrightarrow> t = cur s \<and> t \<noteq> fst (next_thread_to_run s) \<and>
     status_of s t = Some THREAD_DYING \<and> t \<noteq> initial_thread s"

lemma switch_code: "code_of (switch s) t = (if freed s t then [] else code_of s t)"
  by (auto simp: switch_def Let_def freed_def)

lemma switch_status:
  "status_of (switch s) t = (if freed s t then None
     else if t = fst (next_thread_to_run s) then map_option (\<lambda>_. THREAD_RUNNING) (status_of s t)
     else status_of s t)"
  by (auto simp: switch_def Let_def freed_def)

section \<open>Waking and switching keep the queues\<close>

lemma waiter_facts:
  assumes "queues_ok s" and "running s" and "t \<in> set (waiters (semas s x))"
  shows "status_of s t = Some THREAD_BLOCKED" and "in_down (code_of s t) = Some x" and "t \<noteq> cur s"
    and "t \<noteq> idle_thread s" and "t \<notin> set (ready_list s)"
proof -
  show st: "status_of s t = Some THREAD_BLOCKED" and d: "in_down (code_of s t) = Some x"
    using assms by (auto simp: queues_ok_def)
  then show c: "t \<noteq> cur s" and "t \<notin> set (ready_list s)"
    using assms by (auto simp: queues_ok_def running_def)
  show "t \<noteq> idle_thread s"
  proof
    assume "t = idle_thread s"
    then have "idle_ok (code_of s t)"
      using queues_okD(9) [OF assms(1) c] by (simp add: thread_ok_def)
    then show False
      using d idle_no_down by simp
  qed
qed

lemma up_effect_queues:
  assumes q: "queues_ok s" and r: "running s"
  shows "queues_ok (up_effect x s)" and "running (up_effect x s)"
    and "thread_ok (up_effect x s) (cur s) = thread_ok s (cur s)"
proof -
  have "status_of (up_effect x s) (cur s) = status_of s (cur s)"
    using waiter_facts(3) [OF q r, of "cur s" x] by (cases "waiters (semas s x)") (auto simp: up_effect_status)
  then show "running (up_effect x s)" "thread_ok (up_effect x s) (cur s) = thread_ok s (cur s)"
    using r by (simp_all add: running_def thread_ok_def)
  show "queues_ok (up_effect x s)"
  proof (cases "waiters (semas s x)")
    case Nil
    then have "status_of (up_effect x s) = status_of s" "ready_list (up_effect x s) = ready_list s"
      by (auto simp: up_effect_status up_effect_ready)
    moreover have "waiters (semas (up_effect x s) y) = waiters (semas s y)" for y
      using Nil by simp
    ultimately show ?thesis
      using queues_okD [OF q] by (intro queues_okI) (simp_all add: thread_ok_def)
  next
    case (Cons t ts)
    note f = waiter_facts [OF q r, of t x]
    have st: "status_of (up_effect x s) u = (if u = t then Some THREAD_READY else status_of s u)" for u
      using Cons f(1) by (auto simp: up_effect_status)
    have rl: "ready_list (up_effect x s) = ready_list s @ [t]"
      using Cons by (simp add: up_effect_ready)
    have d: "distinct (t # ts)"
      using q Cons by (metis queues_ok_def)
    have w: "u \<in> set (waiters (semas s y)) \<longleftrightarrow> status_of s u = Some THREAD_BLOCKED \<and> in_down (code_of s u) = Some y"
      for u y
      using q by (simp add: queues_ok_def)
    have "u \<in> set (waiters (semas (up_effect x s) y)) \<longleftrightarrow>
        status_of (up_effect x s) u = Some THREAD_BLOCKED \<and> in_down (code_of (up_effect x s) u) = Some y" for u y
      using w [of u y] w [of t y] w [of u x] Cons d f by (auto simp: st)
    moreover have "distinct (waiters (semas (up_effect x s) y))" for y
      using q Cons d by (auto simp: queues_ok_def)
    moreover have "thread_ok (up_effect x s) u" if "u \<noteq> cur s" for u
      using queues_okD(9) [OF q that] f Cons by (auto simp: thread_ok_def st)
    moreover have "v \<in> set (ready_list s @ [t]) \<longleftrightarrow>
        status_of (up_effect x s) v = Some THREAD_READY \<and> v \<noteq> idle_thread s" for v
      using queues_okD(4) [OF q, of v] f Cons by (auto simp: st)
    moreover have "t \<noteq> NULL"
      using queues_okD(1) [OF q] f Cons by auto
    ultimately show ?thesis
      using queues_okD(1-6) [OF q] f Cons by (intro queues_okI) (simp_all add: st rl)
  qed
qed

lemma switch_wf:
  assumes q: "queues_ok s" and ok: "thread_ok s (cur s)" and "\<not> intr_on s" and "\<not> in_external_intr s"
    and st: "status_of s (cur s) \<notin> {None, Some THREAD_RUNNING}"
  shows "sched_wf (switch s)"
proof -
  let ?n = "fst (next_thread_to_run s)"
  note n = next_thread_queued(2-4) [OF q]
  have all_ok: "thread_ok s t" for t
    using q ok by (cases "t = cur s") (auto simp: queues_ok_def)
  have rl: "t \<in> set (tl (ready_list s)) \<longleftrightarrow> t \<in> set (ready_list s) \<and> t \<noteq> ?n" for t
    using queues_okD(3) [OF q] queues_okD(4) [OF q, of t]
    by (cases "ready_list s") (auto simp: next_thread_to_run_def)
  have fr: "freed s t \<Longrightarrow> t \<noteq> idle_thread s" for t
    using queues_okD(6) [OF q] by (auto simp: freed_def)
  have nr: "status_of s t \<noteq> Some THREAD_RUNNING" for t
    using queues_okD(2) [OF q, of t] st by (cases "t = cur s") auto
  have nw: "?n \<notin> set (waiters (semas s x))" for x
  proof (cases "ready_list s")
    case Nil
    then have "?n = idle_thread s"
      by (simp add: next_thread_to_run_def)
    then have "in_down (code_of s ?n) = None"
      using all_ok [of ?n] idle_no_down by (simp add: thread_ok_def)
    then show ?thesis
      using queues_okD(8) [OF q, of ?n x] by simp
  next
    case (Cons t ts)
    then show ?thesis
      using queues_okD(4) [OF q, of t] queues_okD(8) [OF q, of t x] by (simp add: next_thread_to_run_def)
  qed
  have tok: "thread_ok (switch s) t" for t
    using all_ok [of t] fr by (auto simp: thread_ok_def switch_code switch_status)
  have wait: "t \<in> set (waiters (semas s x)) \<longleftrightarrow>
      status_of (switch s) t = Some THREAD_BLOCKED \<and> in_down (code_of (switch s) t) = Some x" for t x
  proof -
    have "t \<in> set (waiters (semas s x)) \<longleftrightarrow> status_of s t = Some THREAD_BLOCKED \<and> in_down (code_of s t) = Some x"
      using q by (simp add: queues_ok_def)
    then show ?thesis
      using nw [of x] by (cases "t = ?n") (auto simp: switch_code switch_status freed_def)
  qed
  have "queues_ok (switch s)"
  proof (rule queues_okI)
    show "status_of (switch s) NULL = None"
      using queues_okD(1) [OF q] n(2) by (simp add: switch_status)
    show "t \<noteq> cur (switch s) \<Longrightarrow> status_of (switch s) t \<noteq> Some THREAD_RUNNING" for t
      using nr by (simp add: switch_status)
    show "distinct (ready_list (switch s))" "\<And>x. distinct (waiters (semas (switch s) x))"
      using queues_okD(3,7) [OF q] by (simp_all add: distinct_tl)
    show "t \<in> set (ready_list (switch s)) \<longleftrightarrow>
        status_of (switch s) t = Some THREAD_READY \<and> t \<noteq> idle_thread (switch s)" for t
      using rl [of t] queues_okD(4) [OF q, of t] by (auto simp: switch_status freed_def)
    show "status_of (switch s) (idle_thread (switch s)) \<notin> {None, Some THREAD_DYING}"
      using queues_okD(5,6) [OF q] fr [of "idle_thread s"] by (auto simp: switch_status)
  qed (use tok wait in simp_all)
  moreover have "running (switch s)"
    using n by (auto simp: running_def switch_status freed_def)
  ultimately show ?thesis
    using tok assms by (simp add: sched_wf_def)
qed

section \<open>Steps that do not switch\<close>

lemma fresh_code_ok: "fresh t cs \<Longrightarrow> code_ok t cs"
  by (cases "(t, cs)" rule: code_ok.cases) auto

lemma fresh_no_down: "fresh t cs \<Longrightarrow> in_down cs = None"
  by (cases cs rule: in_down.cases) auto

lemma thread_ok_cong:
  "thread_ok s t \<Longrightarrow> idle_thread s' = idle_thread s \<Longrightarrow> status_of s' t = status_of s t \<Longrightarrow>
     code_of s' t = code_of s t \<Longrightarrow> thread_ok s' t"
  by (auto simp: thread_ok_def split: if_splits)

lemma queues_ok_cong:
  assumes q: "queues_ok s" and r: "running s" and "cur s' = cur s" "ready_list s' = ready_list s"
    "idle_thread s' = idle_thread s" "\<And>t. status_of s' t = status_of s t"
    "\<And>x. waiters (semas s' x) = waiters (semas s x)" "\<And>t. t \<noteq> cur s \<Longrightarrow> code_of s' t = code_of s t"
  shows "queues_ok s'" and "running s'"
proof -
  show "running s'"
    using assms by (simp add: running_def)
  show "queues_ok s'"
  proof (rule queues_okI)
    show "t \<in> set (waiters (semas s' x)) \<longleftrightarrow>
        status_of s' t = Some THREAD_BLOCKED \<and> in_down (code_of s' t) = Some x" for t x
      using assms queues_okD(8) [OF q, of t x] by (cases "t = cur s") (auto simp: running_def)
    show "thread_ok s' t" if "t \<noteq> cur s'" for t
      using thread_ok_cong [OF queues_okD(9) [OF q, of t]] assms that by simp
  qed (use assms queues_okD [OF q] in simp_all)
qed

lemma unowned_waiters:
  assumes "queues_ok s" and "running s" and "\<And>t. own_sema t x \<Longrightarrow> status_of s t \<noteq> Some THREAD_BLOCKED"
    and "\<And>l. x \<noteq> LockSem l"
  shows "waiters (semas s x) = []"
proof (rule ccontr)
  assume "waiters (semas s x) \<noteq> []"
  then obtain t where t: "t \<in> set (waiters (semas s x))"
    by (cases "waiters (semas s x)") auto
  note f = waiter_facts [OF assms(1,2) t]
  have "code_ok t (code_of s t)"
    using queues_okD(9) [OF assms(1) f(3)] f(4) by (simp add: thread_ok_def)
  then have "own_sema t x"
    using f(2) assms(4) by (cases "(t, code_of s t)" rule: code_ok.cases) auto
  then show False
    using assms(3) queues_okD(8) [OF assms(1), of t x] t by blast
qed

lemma own_waiters:
  assumes "queues_ok s" and "running s" and "\<And>t. own_sema t x \<Longrightarrow> t = cur s" and "\<And>l. x \<noteq> LockSem l"
  shows "waiters (semas s x) = []"
  using assms by (intro unowned_waiters) (auto simp: running_def)

lemma wfI:
  assumes "queues_ok s" "running s" "thread_ok s (cur s)" "\<not> in_external_intr s"
    "intr_on s \<Longrightarrow> in_down (code_of s (cur s)) = None"
  shows "sched_wf s"
  using assms by (simp add: sched_wf_def)

lemma thread_ok_running:
  "status_of s t = Some THREAD_RUNNING \<Longrightarrow> t \<noteq> idle_thread s \<Longrightarrow> thread_ok s t = code_ok t (code_of s t)"
  by (simp add: thread_ok_def)

section \<open>Blocking, yielding, exiting\<close>

definition blocked_state :: "sid \<Rightarrow> bool \<Rightarrow> kstate \<Rightarrow> kstate" where
  "blocked_state x old s = set_status (cur s) THREAD_BLOCKED (push_code [Down_loop x old]
     (upd_sema x (\<lambda>y. y\<lparr>waiters := waiters y @ [cur s]\<rparr>) s))"

definition yielded_state :: "kstate \<Rightarrow> kstate" where
  "yielded_state s = push_code [Intr_set_level (intr_on s)]
     (set_status (cur s) THREAD_READY (s\<lparr>intr_on := False,
        ready_list := (if cur s \<noteq> idle_thread s then ready_list s @ [cur s] else ready_list s)\<rparr>))"

definition dying_state :: "kstate \<Rightarrow> kstate" where
  "dying_state s = set_status (cur s) THREAD_DYING (s\<lparr>intr_on := False\<rparr>)"

lemma running_facts:
  assumes "queues_ok s" "running s"
  shows "status_of s (cur s) = Some THREAD_RUNNING" "cur s \<noteq> NULL" "cur s \<notin> set (ready_list s)"
    "cur s \<notin> set (waiters (semas s y))" "thread_current s = Some (cur s)"
proof -
  show c: "status_of s (cur s) = Some THREAD_RUNNING"
    using assms by (simp add: running_def)
  then show "cur s \<noteq> NULL"
    using queues_okD(1) [OF assms(1)] by auto
  show "cur s \<notin> set (ready_list s)"
    using queues_okD(4) [OF assms(1), of "cur s"] c by simp
  show "cur s \<notin> set (waiters (semas s y))"
    using waiter_facts(3) [OF assms, of "cur s" y] by blast
  show "thread_current s = Some (cur s)"
    using assms(2) queues_okD(1) [OF assms(1)] by (rule thread_current_eval)
qed

lemma blocked_queues:
  assumes q: "queues_ok s" and r: "running s" and idle: "cur s \<noteq> idle_thread s"
  shows "queues_ok (blocked_state x old s)"
proof (rule queues_okI)
  note c = running_facts [OF q r]
  fix t y
  show "t \<in> set (waiters (semas (blocked_state x old s) y)) \<longleftrightarrow>
      status_of (blocked_state x old s) t = Some THREAD_BLOCKED \<and> in_down (code_of (blocked_state x old s) t) = Some y"
    using queues_okD(8) [OF q, of t y] c(1,2) c(4) [of y] by (auto simp: blocked_state_def)
  show "distinct (waiters (semas (blocked_state x old s) y))"
    using queues_okD(7) [OF q, of y] c(4) by (auto simp: blocked_state_def)
  show "thread_ok (blocked_state x old s) t" if "t \<noteq> cur (blocked_state x old s)"
    using thread_ok_cong [OF queues_okD(9) [OF q, of t]] that by (simp add: blocked_state_def)
qed (use queues_okD [OF q] running_facts(1-3) [OF q r] idle in \<open>auto simp: blocked_state_def\<close>)

lemma yielded_queues:
  assumes q: "queues_ok s" and r: "running s"
  shows "queues_ok (yielded_state s)"
proof (rule queues_okI)
  note c = running_facts(1-3) [OF q r]
  fix t y
  show "t \<in> set (waiters (semas (yielded_state s) y)) \<longleftrightarrow>
      status_of (yielded_state s) t = Some THREAD_BLOCKED \<and> in_down (code_of (yielded_state s) t) = Some y"
    using queues_okD(8) [OF q, of t y] c by (auto simp: yielded_state_def)
  show "thread_ok (yielded_state s) t" if "t \<noteq> cur (yielded_state s)"
    using thread_ok_cong [OF queues_okD(9) [OF q, of t]] that by (simp add: yielded_state_def)
  show "t \<in> set (ready_list (yielded_state s)) \<longleftrightarrow>
      status_of (yielded_state s) t = Some THREAD_READY \<and> t \<noteq> idle_thread (yielded_state s)"
    using queues_okD(4) [OF q, of t] c by (auto simp: yielded_state_def)
qed (use queues_okD [OF q] running_facts(1-3) [OF q r] in \<open>auto simp: yielded_state_def\<close>)

lemma dying_queues:
  assumes q: "queues_ok s" and r: "running s" and idle: "cur s \<noteq> idle_thread s"
  shows "queues_ok (dying_state s)"
proof (rule queues_okI)
  note c = running_facts(1-3) [OF q r]
  fix t y
  show "t \<in> set (waiters (semas (dying_state s) y)) \<longleftrightarrow>
      status_of (dying_state s) t = Some THREAD_BLOCKED \<and> in_down (code_of (dying_state s) t) = Some y"
    using queues_okD(8) [OF q, of t y] c by (auto simp: dying_state_def)
  show "thread_ok (dying_state s) t" if "t \<noteq> cur (dying_state s)"
    using thread_ok_cong [OF queues_okD(9) [OF q, of t]] that by (simp add: dying_state_def)
qed (use queues_okD [OF q] running_facts(1-3) [OF q r] idle in \<open>auto simp: dying_state_def\<close>)

lemma down_loop_block:
  assumes q: "queues_ok s" and r: "running s" and x: "\<not> in_external_intr s" and off: "\<not> intr_on s"
    and idle: "cur s \<noteq> idle_thread s" and zero: "sem_value (semas s x) = 0" and i: "inited (semas s x)"
  shows "down_loop x old s = Some (switch (blocked_state x old s))"
proof -
  note c = running_facts [OF q r]
  let ?s2 = "push_code [Down_loop x old] (upd_sema x (\<lambda>y. y\<lparr>waiters := waiters y @ [cur s]\<rparr>) s)"
  have "running ?s2"
    using c by (simp add: running_def)
  then have "down_loop x old s = schedule (blocked_state x old s)"
    using zero i c(5) x off queues_okD(1) [OF q]
    by (simp add: down_loop_def thread_block_def kernel_simps blocked_state_def)
  also have "\<dots> = Some (switch (blocked_state x old s))"
    using blocked_queues [OF q r idle] off c(1) by (intro schedule_eval) (simp_all add: blocked_state_def)
  finally show ?thesis .
qed

lemma down_loop_pass:
  assumes "\<not> in_external_intr s" and "sem_value (semas s x) \<noteq> 0"
  shows "down_loop x old s = Some ((upd_sema x (\<lambda>y. y\<lparr>sem_value := sem_value y - 1\<rparr>) s)\<lparr>intr_on := old\<rparr>)"
  using assms by (simp add: down_loop_def kernel_simps)

lemma yield_eval:
  assumes q: "queues_ok s" and r: "running s" and x: "\<not> in_external_intr s"
  shows "thread_yield s = Some (switch (yielded_state s))"
proof -
  note c = running_facts [OF q r]
  have "s\<lparr>intr_on := False, ready_list := ready_list s\<rparr> = s\<lparr>intr_on := False\<rparr>"
    by simp
  then have "thread_yield s = schedule (yielded_state s)"
    using c(5) x by (simp add: thread_yield_def intr_disable_def kernel_simps yielded_state_def)
  also have "\<dots> = Some (switch (yielded_state s))"
    using yielded_queues [OF q r] c(1) by (intro schedule_eval) (simp_all add: yielded_state_def)
  finally show ?thesis .
qed

lemma exit_eval:
  assumes q: "queues_ok s" and r: "running s" and x: "\<not> in_external_intr s" and idle: "cur s \<noteq> idle_thread s"
  shows "thread_exit s = Some (switch (dying_state s))"
proof -
  note c = running_facts [OF q r]
  have "running (s\<lparr>intr_on := False\<rparr>)"
    using r by (simp add: running_def)
  then have "thread_exit s = schedule (dying_state s)"
    using x queues_okD(1) [OF q] by (simp add: thread_exit_def intr_disable_def kernel_simps dying_state_def)
  also have "\<dots> = Some (switch (dying_state s))"
    using dying_queues [OF q r idle] c(1) by (intro schedule_eval) (simp_all add: dying_state_def)
  finally show ?thesis .
qed

lemma down_loop_wf:
  assumes q: "queues_ok s" and r: "running s" and x: "\<not> in_external_intr s" and off: "\<not> intr_on s"
    and idle: "cur s \<noteq> idle_thread s" and ok: "code_ok (cur s) (Down_loop x old # code_of s (cur s))"
    and i: "sem_value (semas s x) = 0 \<longrightarrow> inited (semas s x)"
  shows "\<exists>s'. down_loop x old s = Some s' \<and> sched_wf s'"
proof (cases "sem_value (semas s x) = 0")
  case True
  have "thread_ok (blocked_state x old s) (cur (blocked_state x old s))"
    using running_facts(1) [OF q r] ok idle by (simp add: thread_ok_def blocked_state_def)
  then show ?thesis
    using switch_wf [OF blocked_queues [OF q r idle]] down_loop_block [OF q r x off idle True] True i x off
      running_facts(1) [OF q r] by (simp add: blocked_state_def)
next
  case False
  let ?s2 = "(upd_sema x (\<lambda>y. y\<lparr>sem_value := sem_value y - 1\<rparr>) s)\<lparr>intr_on := old\<rparr>"
  have "code_ok (cur s) (code_of s (cur s)) \<and> in_down (code_of s (cur s)) = None"
    using ok fresh_code_ok fresh_no_down by (cases x) auto
  moreover have "queues_ok ?s2" "running ?s2"
    by (rule queues_ok_cong [OF q r]; simp)+
  ultimately show ?thesis
    using False x r idle by (auto simp: down_loop_pass sched_wf_def running_def thread_ok_def)
qed

lemma yield_wf:
  assumes q: "queues_ok s" and r: "running s" and x: "\<not> in_external_intr s" and ok: "thread_ok s (cur s)"
    and nd: "in_down (code_of s (cur s)) = None"
  shows "\<exists>s'. thread_yield s = Some s' \<and> sched_wf s'"
proof -
  note c = running_facts [OF q r]
  have "thread_ok (yielded_state s) (cur (yielded_state s))"
    using ok c nd by (auto simp: thread_ok_def yielded_state_def split: if_splits)
  then have "sched_wf (switch (yielded_state s))"
    using switch_wf [OF yielded_queues [OF q r]] x c(1) by (simp add: yielded_state_def)
  then show ?thesis
    using yield_eval [OF q r x] by blast
qed

lemma exit_wf:
  assumes q: "queues_ok s" and r: "running s" and x: "\<not> in_external_intr s"
    and ok: "thread_ok s (cur s)" and idle: "cur s \<noteq> idle_thread s"
  shows "\<exists>s'. thread_exit s = Some s' \<and> sched_wf s'"
proof -
  note c = running_facts [OF q r]
  have "thread_ok (dying_state s) (cur (dying_state s))"
    using ok c idle by (simp add: thread_ok_def dying_state_def)
  then have "sched_wf (switch (dying_state s))"
    using switch_wf [OF dying_queues [OF q r idle]] x c(1) by (simp add: dying_state_def)
  then show ?thesis
    using exit_eval [OF q r x idle] by blast
qed

end
