(* ===== verification/Threads_Steps.thy ===== *)
theory Threads_Steps
  imports Threads_Wf
begin

text \<open>
  Every step of the thread system keeps the scheduler's invariant: each call of a thread that
  meets the call's documented precondition, and each timer interrupt.  \<open>call_guard\<close> collects
  those preconditions (a lock is not acquired twice and only released by its holder, and so
  on); outside them the code stops with a failed assertion.
\<close>

section \<open>Preconditions of the calls\<close>

fun call_guard :: "call \<Rightarrow> kstate \<Rightarrow> bool" where
  "call_guard (Sema_down x) s = (sem_value (semas s x) = 0 \<longrightarrow> inited (semas s x))"
| "call_guard (Sema_up x) s = inited (semas s x)"
| "call_guard (Down_loop x b) s = (sem_value (semas s x) = 0 \<longrightarrow> inited (semas s x))"
| "call_guard (Lock_acquire l) s =
     (holder s l \<noteq> cur s \<and> (sem_value (semas s (LockSem l)) = 0 \<longrightarrow> inited (semas s (LockSem l))))"
| "call_guard (Release_up l) s = inited (semas s (LockSem l))"
| "call_guard (Lock_try_acquire l) s = (holder s l \<noteq> cur s)"
| "call_guard (Lock_release l) s = (holder s l = cur s)"
| "call_guard (Cond_wait c l) s = (holder s l = cur s)"
| "call_guard (Cond_signal c l) s = (holder s l = cur s \<and> list_all (\<lambda>x. inited (semas s x)) (take 1 (cond_waiters s c)))"
| "call_guard (Thread_create page p cs) s =
     (page = NULL \<or> threads s page \<noteq> None \<or> PRI_MIN \<le> p \<and> p \<le> PRI_MAX)"
| "call_guard (Timer_sleep n) s = intr_on s"
| "call_guard _ s = True"

section \<open>Calls\<close>

lemma try_down_eval:
  assumes "\<not> in_external_intr s"
  shows "sema_try_down x s = Some (0 < sem_value (semas s x),
     if 0 < sem_value (semas s x) then upd_sema x (\<lambda>q. q\<lparr>sem_value := sem_value q - 1\<rparr>) s else s)"
  using assms by (auto simp: sema_try_down_def intr_disable_def kernel_simps upd_sema_intr Let_def)

lemma status_code_new [simp]:
  "status_of (s\<lparr>threads := (threads s)(p \<mapsto> th), next_tid := n\<rparr>) u = (if u = p then Some (status th) else status_of s u)"
  "code_of (s\<lparr>threads := (threads s)(p \<mapsto> th), next_tid := n\<rparr>) u = (if u = p then code th else code_of s u)"
  by (simp_all add: status_of_def code_of_def)

definition new_thread :: "addr \<Rightarrow> int \<Rightarrow> call list \<Rightarrow> kstate \<Rightarrow> kstate" where
  "new_thread page p cs s = set_status page THREAD_READY
     (s\<lparr>threads := (threads s)(page \<mapsto> (init_thread p (Intr_set_level True # cs))\<lparr>tid := next_tid s\<rparr>),
        next_tid := next_tid s + 1, ready_list := ready_list s @ [page],
        semas := (semas s)(SleepSem page := zero_sema)\<rparr>)"

lemma thread_create_eval:
  assumes "page \<noteq> NULL" "threads s page = None" "PRI_MIN \<le> p" "p \<le> PRI_MAX" "\<not> in_external_intr s"
  shows "thread_create page p cs s = Some (next_tid s, new_thread page p cs s)"
  using assms
  by (auto simp: thread_create_def new_thread_def kernel_simps thread_unblock_def is_thread_def intr_disable_def
      Let_def init_thread_def set_status_def upd_thread_def upd_sema_def)

lemma new_thread_fields [simp]:
  "cur (new_thread page p cs s) = cur s" "idle_thread (new_thread page p cs s) = idle_thread s"
  "semas (new_thread page p cs s) = (semas s)(SleepSem page := zero_sema)" "holder (new_thread page p cs s) = holder s"
  "cond_waiters (new_thread page p cs s) = cond_waiters s" "intr_on (new_thread page p cs s) = intr_on s"
  "in_external_intr (new_thread page p cs s) = in_external_intr s"
  "sleep_list (new_thread page p cs s) = sleep_list s" "ticks (new_thread page p cs s) = ticks s"
  "ready_list (new_thread page p cs s) = ready_list s @ [page]"
  "initial_thread (new_thread page p cs s) = initial_thread s"
  by (simp_all add: new_thread_def)

lemma new_thread_status:
  "status_of (new_thread page p cs s) u = (if u = page then Some THREAD_READY else status_of s u)"
  "code_of (new_thread page p cs s) u = (if u = page then Intr_set_level True # cs else code_of s u)"
  by (auto simp: new_thread_def status_of_def code_of_def set_status_def upd_thread_def init_thread_def)

lemma new_thread_queues:
  assumes q: "queues_ok s" and r: "running s" and "page \<noteq> NULL" "threads s page = None" "fresh page cs"
  shows "queues_ok (new_thread page p cs s)" and "running (new_thread page p cs s)"
proof -
  have none: "status_of s page = None"
    using assms by (simp add: status_of_def)
  then have ne: "page \<noteq> cur s" "page \<noteq> idle_thread s" "page \<notin> set (ready_list s)"
    using r queues_okD(4) [OF q, of page] queues_okD(5) [OF q] by (auto simp: running_def)
  have "waiters (semas s (SleepSem page)) = []"
    by (rule unowned_waiters [OF q r]) (use none in auto)
  then have wt: "waiters (semas (new_thread page p cs s) y) = waiters (semas s y)" for y
    by (simp add: zero_sema_def)
  show "running (new_thread page p cs s)"
    using r ne by (simp add: running_def new_thread_status)
  show "queues_ok (new_thread page p cs s)"
  proof (rule queues_okI)
    fix t y
    show "t \<in> set (waiters (semas (new_thread page p cs s) y)) \<longleftrightarrow>
        status_of (new_thread page p cs s) t = Some THREAD_BLOCKED \<and> in_down (code_of (new_thread page p cs s) t) = Some y"
      unfolding wt using queues_okD(8) [OF q, of t y] none by (auto simp: new_thread_status)
    show "distinct (waiters (semas (new_thread page p cs s) y))"
      unfolding wt by (rule queues_okD(7) [OF q])
    show "t \<in> set (ready_list (new_thread page p cs s)) \<longleftrightarrow>
        status_of (new_thread page p cs s) t = Some THREAD_READY \<and> t \<noteq> idle_thread (new_thread page p cs s)"
      using queues_okD(4) [OF q, of t] ne by (auto simp: new_thread_status)
    show "thread_ok (new_thread page p cs s) t" if "t \<noteq> cur (new_thread page p cs s)"
    proof (cases "t = page")
      case True
      then show ?thesis
        using ne assms(5) by (simp add: thread_ok_def new_thread_status fresh_code_ok fresh_no_down)
    next
      case False
      then show ?thesis
        using thread_ok_cong [OF queues_okD(9) [OF q, of t]] that by (simp add: new_thread_status)
    qed
  qed (use queues_okD(1,2,3,5,6) [OF q] assms(3) ne in \<open>auto simp: new_thread_status\<close>)
qed

lemma exec_call_wf:
  assumes q: "queues_ok s" and r: "running s" and x: "\<not> in_external_intr s" and idle: "cur s \<noteq> idle_thread s"
    and ok: "code_ok (cur s) (i # code_of s (cur s))" and on: "in_down [i] \<noteq> None \<Longrightarrow> \<not> intr_on s"
    and g: "call_guard i s"
  shows "\<exists>s'. exec_call i s = Some s' \<and> sched_wf s'"
proof -
  note null = queues_okD(1) [OF q]
  have c: "status_of s (cur s) = Some THREAD_RUNNING" "cur s \<noteq> NULL"
    using r null by (auto simp: running_def)
  have tc: "thread_current s = Some (cur s)"
    using r null by (rule thread_current_eval)
  have same: "sched_wf s'" if "cur s' = cur s" "ready_list s' = ready_list s" "idle_thread s' = idle_thread s"
      "\<And>t. status_of s' t = status_of s t" "\<And>y. waiters (semas s' y) = waiters (semas s y)"
      "\<And>t. t \<noteq> cur s \<Longrightarrow> code_of s' t = code_of s t" "\<not> in_external_intr s'"
      "code_ok (cur s) (code_of s' (cur s))" "in_down (code_of s' (cur s)) = None" for s'
    using queues_ok_cong [OF q r, of s'] that idle c by (intro wfI) (simp_all add: thread_ok_def)
  have up: "\<exists>s'. sema_up y u = Some s' \<and> sched_wf s'"
    if u: "queues_ok u" "running u" "\<not> in_external_intr u" "cur u \<noteq> idle_thread u" "fresh (cur u) (code_of u (cur u))"
      "inited (semas u y)" for y u
    using up_effect_queues [OF u(1,2), of y] u sema_up_eval [OF u(1), of y] fresh_code_ok [OF u(5)] fresh_no_down [OF u(5)]
    by (auto simp: thread_ok_def running_def intro!: wfI)
  have down: "\<exists>s'. sema_down y u = Some s' \<and> sched_wf s'"
    if "queues_ok u" "running u" "\<not> in_external_intr u" "cur u \<noteq> idle_thread u"
      "code_ok (cur u) (Down_loop y (intr_on u) # code_of u (cur u))"
      "sem_value (semas u y) = 0 \<longrightarrow> inited (semas u y)" for y u
  proof -
    have "queues_ok (u\<lparr>intr_on := False\<rparr>)" "running (u\<lparr>intr_on := False\<rparr>)"
      by (rule queues_ok_cong [OF that(1,2)]; simp)+
    then show ?thesis
      using down_loop_wf [of "u\<lparr>intr_on := False\<rparr>" y "intr_on u"] that
      by (simp add: sema_down_def intr_disable_def kernel_simps)
  qed
  have rest: "fresh (cur s) (i # code_of s (cur s)) \<Longrightarrow> fresh (cur s) (code_of s (cur s))"
    by simp
  show ?thesis
  proof (cases i)
    case (Sema_down y)
    then have "own_sema (cur s) y" "fresh (cur s) (code_of s (cur s))"
      using ok by auto
    then have "code_ok (cur s) (Down_loop y (intr_on s) # code_of s (cur s))"
      by (cases y) auto
    then show ?thesis
      using Sema_down down [OF q r x idle, of y] g by (simp add: exec_call_def)
  next
    case (Sema_up y)
    then show ?thesis
      using up [OF q r x idle] ok g by (auto simp: exec_call_def)
  next
    case (Sema_try_down y)
    then have "fresh (cur s) (code_of s (cur s))"
      using ok by auto
    then show ?thesis
      using Sema_try_down x fresh_code_ok fresh_no_down
      by (auto simp: exec_call_def try_down_eval intro!: same)
  next
    case (Lock_acquire l)
    let ?u = "push_code [Set_holder l] s"
    have "queues_ok ?u" "running ?u"
      by (rule queues_ok_cong [OF q r]; simp)+
    then show ?thesis
      using down [of ?u "LockSem l"] Lock_acquire x idle ok g c
      by (simp add: exec_call_def lock_acquire_def lock_held_by_current_thread_def tc kernel_simps)
  next
    case (Lock_try_acquire l)
    then show ?thesis
      using x g ok c fresh_code_ok fresh_no_down
      by (auto simp: exec_call_def lock_try_acquire_def lock_held_by_current_thread_def tc kernel_simps
          try_down_eval intro!: same)
  next
    case (Lock_release l)
    then show ?thesis
      using x g ok c
      by (auto simp: exec_call_def lock_release_def lock_held_by_current_thread_def tc kernel_simps intro!: same)
  next
    case (Cond_wait cv l)
    have w: "waiters (semas s (CondSem (cur s))) = []"
      by (rule own_waiters [OF q r]) auto
    show ?thesis
      using Cond_wait x g ok c w
      by (auto simp: exec_call_def cond_wait_def lock_held_by_current_thread_def tc kernel_simps sema_init_def intro!: same)
  next
    case (Cond_signal cv l)
    then have f: "fresh (cur s) (code_of s (cur s))"
      using ok by auto
    show ?thesis
    proof (cases "cond_waiters s cv")
      case Nil
      then show ?thesis
        using Cond_signal x g f c fresh_code_ok fresh_no_down
        by (auto simp: exec_call_def cond_signal_def lock_held_by_current_thread_def tc kernel_simps intro!: same)
    next
      case (Cons y ys)
      let ?u = "s\<lparr>cond_waiters := (cond_waiters s)(cv := ys)\<rparr>"
      have "queues_ok ?u" "running ?u"
        by (rule queues_ok_cong [OF q r]; simp)+
      then show ?thesis
        using up [of ?u y] Cons Cond_signal x g f idle
        by (auto simp: exec_call_def cond_signal_def lock_held_by_current_thread_def tc kernel_simps)
    qed
  next
    case (Cond_broadcast cv l)
    then have f: "fresh (cur s) (code_of s (cur s))"
      using ok by auto
    then show ?thesis
      using Cond_broadcast x c fresh_code_ok fresh_no_down
      by (auto simp: exec_call_def cond_broadcast_def intro!: same)
  next
    case (Thread_create page p cs)
    then have f: "fresh (cur s) (code_of s (cur s))" "fresh page cs"
      using ok by auto
    show ?thesis
    proof (cases "page = NULL \<or> threads s page \<noteq> None")
      case True
      then show ?thesis
        using Thread_create x f fresh_code_ok fresh_no_down
        by (auto simp: exec_call_def thread_create_def intro!: same)
    next
      case False
      then have "page \<noteq> cur s"
        using c by (auto simp: status_of_def)
      then show ?thesis
        using False new_thread_queues [OF q r, of page cs p] Thread_create x g f idle c fresh_code_ok fresh_no_down
        by (auto simp: exec_call_def thread_create_eval thread_ok_def new_thread_status intro!: wfI)
    qed
  next
    case Thread_yield
    then show ?thesis
      using yield_wf [OF q r x] ok idle c fresh_code_ok fresh_no_down by (auto simp: exec_call_def thread_ok_def)
  next
    case Thread_exit
    then show ?thesis
      using exit_wf [OF q r x _ idle] ok idle c fresh_code_ok by (auto simp: exec_call_def thread_ok_def)
  next
    case (Thread_set_priority p)
    then show ?thesis
      using x ok fresh_code_ok fresh_no_down by (auto simp: exec_call_def thread_set_priority_def tc intro!: same)
  next
    case (Timer_sleep n)
    then show ?thesis
      using x ok g c by (auto simp: exec_call_def timer_sleep_def tc intr_disable_def kernel_simps Let_def intro!: same)
  next
    case (Down_loop y b)
    then show ?thesis
      using down_loop_wf [OF q r x _ idle, of y b] ok on g by (simp add: exec_call_def)
  next
    case (Set_holder l)
    then show ?thesis
      using x ok fresh_code_ok fresh_no_down by (auto simp: exec_call_def set_holder_def tc intro!: same)
  next
    case (Release_up l)
    then show ?thesis
      using up [OF q r x idle, of "LockSem l"] ok g by (simp add: exec_call_def)
  next
    case (Intr_set_level b)
    then show ?thesis
      using x ok on by (auto simp: exec_call_def kernel_simps intro!: same)
  next
    case Sleep_init
    have w: "waiters (semas s (SleepSem (cur s))) = []"
      by (rule own_waiters [OF q r]) auto
    then show ?thesis
      using Sleep_init x ok fresh_code_ok fresh_no_down
      by (auto simp: exec_call_def tc sema_init_def intro!: same)
  next
    case Idle_block
    then show ?thesis
      using ok by simp
  next
    case Sti_hlt
    then show ?thesis
      using ok by simp
  qed
qed

section \<open>A step of the running thread\<close>

definition next_call :: "kstate \<Rightarrow> call" where
  "next_call s = (case code_of s (cur s) of [] \<Rightarrow> Thread_exit | i # _ \<Rightarrow> i)"

definition popped :: "kstate \<Rightarrow> kstate" where
  "popped s = upd_thread (cur s) (\<lambda>th. th\<lparr>code := tl (code_of s (cur s))\<rparr>) s"

lemma popped_fields [simp]:
  "cur (popped s) = cur s" "ready_list (popped s) = ready_list s" "idle_thread (popped s) = idle_thread s"
  "semas (popped s) = semas s" "holder (popped s) = holder s" "cond_waiters (popped s) = cond_waiters s"
  "intr_on (popped s) = intr_on s" "in_external_intr (popped s) = in_external_intr s"
  "sleep_list (popped s) = sleep_list s" "ticks (popped s) = ticks s" "status_of (popped s) t = status_of s t"
  "initial_thread (popped s) = initial_thread s"
  "code_of (popped s) t = (if t = cur s \<and> status_of s t \<noteq> None then tl (code_of s t) else code_of s t)"
  by (auto simp: popped_def)

lemma thread_step_eval:
  assumes "sched_wf s"
  shows "thread_step s = (if code_of s (cur s) = [] then thread_exit s else exec_call (next_call s) (popped s))"
proof -
  have "thread_current s = Some (cur s)"
    using assms by (auto simp: sched_wf_def queues_ok_def intro: thread_current_eval)
  moreover obtain th where "threads s (cur s) = Some th"
    using assms by (auto simp: sched_wf_def running_def status_of_def)
  ultimately show ?thesis
    by (auto simp: thread_step_def next_call_def popped_def code_of_def split: list.splits)
qed

lemma call_guard_popped [simp]: "call_guard i (popped s) = call_guard i s"
  by (cases i) (auto simp: popped_def upd_thread_def)

lemma popped_queues:
  assumes "sched_wf s"
  shows "queues_ok (popped s)" and "running (popped s)"
  using assms by (auto simp: sched_wf_def intro!: queues_ok_cong [of s "popped s"])

lemma code_of_cur: "sched_wf s \<Longrightarrow> status_of s (cur s) = Some THREAD_RUNNING"
  by (simp add: sched_wf_def running_def)

definition idle_state :: "kstate \<Rightarrow> kstate" where
  "idle_state s = set_status (cur s) THREAD_BLOCKED
     (push_code [Sti_hlt, Idle_block] ((popped s)\<lparr>intr_on := False\<rparr>))"

lemma idle_code_cases:
  assumes "idle_ok cs"
  obtains (level) b cs' where "cs = Intr_set_level b # cs'" "idle_ok cs'"
    | (hlt) "cs = [Sti_hlt, Idle_block]" | (block) "cs = [Idle_block]"
  using assms by (cases cs rule: idle_ok.cases) auto

lemma idle_block_eval:
  assumes w: "sched_wf s" and idle: "cur s = idle_thread s" and code: "code_of s (cur s) = [Idle_block]"
  shows "thread_step s = Some (switch (idle_state s))" and "sched_wf (switch (idle_state s))"
proof -
  note c = code_of_cur [OF w] and q = popped_queues [OF w]
  have x: "\<not> in_external_intr s"
    using w by (simp add: sched_wf_def)
  let ?u = "push_code [Sti_hlt, Idle_block] ((popped s)\<lparr>intr_on := False\<rparr>)"
  have u: "queues_ok ?u" "running ?u"
    by (rule queues_ok_cong [OF q]; simp)+
  have v: "queues_ok (idle_state s)"
  proof (rule queues_okI)
    fix t y
    show "t \<in> set (waiters (semas (idle_state s) y)) \<longleftrightarrow>
        status_of (idle_state s) t = Some THREAD_BLOCKED \<and> in_down (code_of (idle_state s) t) = Some y"
      using queues_okD(8) [OF u(1), of t y] c by (auto simp: idle_state_def)
    show "thread_ok (idle_state s) t" if "t \<noteq> cur (idle_state s)"
      using thread_ok_cong [OF queues_okD(9) [OF u(1), of t]] that by (simp add: idle_state_def)
    show "t \<in> set (ready_list (idle_state s)) \<longleftrightarrow>
        status_of (idle_state s) t = Some THREAD_READY \<and> t \<noteq> idle_thread (idle_state s)"
      using queues_okD(4) [OF u(1), of t] c by (auto simp: idle_state_def)
  qed (use queues_okD(1,2,3,5,6,7) [OF u(1)] c in \<open>auto simp: idle_state_def\<close>)
  have "thread_step s = schedule (idle_state s)"
    using code thread_step_eval [OF w] x thread_current_eval [OF u(2) queues_okD(1) [OF u(1)]]
    by (simp add: next_call_def exec_call_def thread_block_def kernel_simps idle_state_def)
  also have "\<dots> = Some (switch (idle_state s))"
    using v c by (intro schedule_eval) (simp_all add: idle_state_def)
  finally show "thread_step s = Some (switch (idle_state s))" .
  show "sched_wf (switch (idle_state s))"
    using switch_wf [OF v] code x c idle by (simp add: thread_ok_def idle_state_def)
qed

lemma idle_step_wf:
  assumes w: "sched_wf s" and idle: "cur s = idle_thread s"
  shows "\<exists>s'. thread_step s = Some s' \<and> sched_wf s'"
proof -
  have ok: "idle_ok (code_of s (cur s))" and x: "\<not> in_external_intr s"
    using w idle by (auto simp: sched_wf_def thread_ok_def)
  note c = code_of_cur [OF w] and q = popped_queues [OF w]
  have lvl: "queues_ok ((popped s)\<lparr>intr_on := b\<rparr>)" "running ((popped s)\<lparr>intr_on := b\<rparr>)" for b
    using queues_ok_cong [OF q, of "(popped s)\<lparr>intr_on := b\<rparr>"] by simp_all
  show ?thesis
    using ok
  proof (cases rule: idle_code_cases)
    case (level b cs)
    then show ?thesis
      using x c idle idle_no_down thread_step_eval [OF w] lvl
      by (auto simp: next_call_def exec_call_def kernel_simps thread_ok_def intro!: wfI)
  next
    case hlt
    then show ?thesis
      using x c idle thread_step_eval [OF w] lvl
      by (auto simp: next_call_def exec_call_def thread_ok_def intro!: wfI)
  next
    case block
    then show ?thesis
      using idle_block_eval [OF w idle] by blast
  qed
qed

lemma thread_step_wf:
  assumes w: "sched_wf s" and g: "call_guard (next_call s) s"
  shows "\<exists>s'. thread_step s = Some s' \<and> sched_wf s'"
proof (cases "cur s = idle_thread s")
  case idle: False
  have x: "\<not> in_external_intr s" and ok: "code_ok (cur s) (code_of s (cur s))"
    using w idle by (auto simp: sched_wf_def thread_ok_def)
  note c = code_of_cur [OF w]
  show ?thesis
  proof (cases "code_of s (cur s)")
    case Nil
    then show ?thesis
      using exit_wf [of s] thread_step_eval [OF w] w idle x by (simp add: sched_wf_def)
  next
    case (Cons i cs)
    have "in_down [i] \<noteq> None \<Longrightarrow> \<not> intr_on s"
      using w Cons by (cases i) (auto simp: sched_wf_def)
    then show ?thesis
      using exec_call_wf [OF popped_queues [OF w], of i] thread_step_eval [OF w] Cons idle x ok c g
      by (simp add: next_call_def)
  qed
qed (rule idle_step_wf [OF w])

lemma exec_guard:
  assumes "running s" "status_of s NULL = None" "\<not> call_guard i s"
  shows "exec_call i s = None"
  using assms thread_current_eval [OF assms(1,2)]
  by (cases i) (auto simp: exec_call_def lock_acquire_def lock_try_acquire_def lock_release_def cond_wait_def
      cond_signal_def timer_sleep_def lock_held_by_current_thread_def thread_create_def kernel_simps Let_def
      sema_down_def sema_up_def down_loop_def intr_disable_def split: list.splits)

lemma thread_step_guard:
  assumes "sched_wf s" and "thread_step s = Some s'"
  shows "call_guard (next_call s) s"
proof (rule ccontr)
  assume g: "\<not> call_guard (next_call s) s"
  then have "code_of s (cur s) \<noteq> []"
    by (auto simp: next_call_def)
  then show False
    using g assms exec_guard [OF popped_queues(2) [OF assms(1)] queues_okD(1) [OF popped_queues(1) [OF assms(1)]]]
    by (simp add: thread_step_eval)
qed

section \<open>Timer interrupts\<close>

lemma wake_loop_queues:
  assumes "wake_loop ts s = Some s'" "queues_ok s" "running s" "\<not> intr_on s"
  shows "queues_ok s'" "running s'" "thread_ok s' (cur s) = thread_ok s (cur s)" "cur s' = cur s"
    "code_of s' = code_of s" "intr_on s' = intr_on s" "in_external_intr s' = in_external_intr s"
    "holder s' = holder s" "idle_thread s' = idle_thread s" "ticks s' = ticks s"
    "yield_on_return s' = yield_on_return s"
proof -
  have frame: "queues_ok (s\<lparr>sleep_list := l\<rparr>)" "running (s\<lparr>sleep_list := l\<rparr>)"
    "thread_ok (s\<lparr>sleep_list := l\<rparr>) t = thread_ok s t"
    if "queues_ok s" "running s" for l s t
    using queues_ok_cong [OF that, of "s\<lparr>sleep_list := l\<rparr>"] by (simp_all add: thread_ok_def)
  have "queues_ok s' \<and> running s' \<and> thread_ok s' (cur s) = thread_ok s (cur s) \<and> cur s' = cur s \<and>
    code_of s' = code_of s \<and> intr_on s' = intr_on s \<and> in_external_intr s' = in_external_intr s \<and>
    holder s' = holder s \<and> idle_thread s' = idle_thread s \<and> ticks s' = ticks s \<and>
    yield_on_return s' = yield_on_return s"
    using assms
  proof (induction ts arbitrary: s)
    case Nil
    then show ?case
      using frame [of s] by auto
  next
    case (Cons t ts)
    note up = up_effect_queues [OF Cons.prems(2,3), of "SleepSem t"]
    have "sema_up (SleepSem t) s = Some s1 \<Longrightarrow> s1 = up_effect (SleepSem t) s" for s1
      using Cons.prems sema_up_effect [of "SleepSem t" s s1] by simp
    then show ?case
      using Cons.prems Cons.IH [of "up_effect (SleepSem t) s"] up frame [of s]
      by (auto simp: bind_Some_iff split: if_splits)
  qed
  then show "queues_ok s'" "running s'" "thread_ok s' (cur s) = thread_ok s (cur s)" "cur s' = cur s"
    "code_of s' = code_of s" "intr_on s' = intr_on s" "in_external_intr s' = in_external_intr s"
    "holder s' = holder s" "idle_thread s' = idle_thread s" "ticks s' = ticks s"
    "yield_on_return s' = yield_on_return s"
    by blast+
qed

lemma wake_loop_semas:
  "wake_loop ts s = Some s' \<Longrightarrow> queues_ok s \<Longrightarrow> running s \<Longrightarrow> \<not> intr_on s \<Longrightarrow> \<forall>t. x \<noteq> SleepSem t \<Longrightarrow>
     semas s' x = semas s x \<and> cond_waiters s' = cond_waiters s"
proof (induction ts arbitrary: s)
  case (Cons t ts)
  note up = up_effect_queues [OF Cons.prems(2,3), of "SleepSem t"]
  have "sema_up (SleepSem t) s = Some s1 \<Longrightarrow> s1 = up_effect (SleepSem t) s" for s1
    using Cons.prems sema_up_effect [of "SleepSem t" s s1] by simp
  moreover have "semas (up_effect (SleepSem t) s) x = semas s x"
    using Cons.prems(5) by (auto simp: up_effect_def split: list.splits)
  ultimately show ?case
    using Cons.prems Cons.IH [of "up_effect (SleepSem t) s"] up by (auto simp: bind_Some_iff split: if_splits)
qed auto

lemma count_tick_frame [simp]:
  "threads (count_tick t th s) = threads s" "cur (count_tick t th s) = cur s"
  "ready_list (count_tick t th s) = ready_list s" "idle_thread (count_tick t th s) = idle_thread s"
  "semas (count_tick t th s) = semas s" "holder (count_tick t th s) = holder s"
  "intr_on (count_tick t th s) = intr_on s" "in_external_intr (count_tick t th s) = in_external_intr s"
  "sleep_list (count_tick t th s) = sleep_list s" "ticks (count_tick t th s) = ticks s"
  "cond_waiters (count_tick t th s) = cond_waiters s" "initial_thread (count_tick t th s) = initial_thread s"
  "thread_ticks (count_tick t th s) = thread_ticks s"
  by (simp_all add: count_tick_def)

lemma thread_tick_cases:
  assumes "thread_tick s = Some s'"
  obtains t th y where "s' = (count_tick t th s)\<lparr>thread_ticks := thread_ticks s + 1, yield_on_return := y\<rparr>"
proof -
  obtain t th where *: "thread_current s = Some t" "threads s t = Some th"
    using assms by (auto simp: thread_tick_def bind_Some_iff)
  show ?thesis
  proof (cases "TIME_SLICE \<le> thread_ticks s + 1")
    case True
    then show ?thesis
      using assms * that [of True t th]
      by (simp add: thread_tick_def intr_yield_on_return_def Let_def kernel_simps split: if_splits)
  next
    case False
    then show ?thesis
      using assms * that [of "yield_on_return (count_tick t th s)" t th] by (auto simp: thread_tick_def Let_def)
  qed
qed

lemma thread_tick_frame:
  assumes "thread_tick s = Some s'"
  shows "threads s' = threads s" "cur s' = cur s" "ready_list s' = ready_list s" "idle_thread s' = idle_thread s"
    "semas s' = semas s" "holder s' = holder s" "intr_on s' = intr_on s" "in_external_intr s' = in_external_intr s"
    "sleep_list s' = sleep_list s" "ticks s' = ticks s" "cond_waiters s' = cond_waiters s"
    "initial_thread s' = initial_thread s"
  using assms by (auto elim!: thread_tick_cases)

lemma same_threads: "threads s' = threads s \<Longrightarrow> status_of s' = status_of s \<and> code_of s' = code_of s"
  by (simp add: status_of_def code_of_def fun_eq_iff)

lemma thread_ok_eq:
  "idle_thread s' = idle_thread s \<Longrightarrow> status_of s' t = status_of s t \<Longrightarrow> code_of s' t = code_of s t \<Longrightarrow>
     thread_ok s' t = thread_ok s t"
  by (simp only: thread_ok_def)

lemma timer_interrupt_queues:
  assumes t: "timer_interrupt s = Some s'" and q: "queues_ok s" and r: "running s" and off: "\<not> intr_on s"
  shows "queues_ok s'" "running s'" "thread_ok s' (cur s) = thread_ok s (cur s)" "cur s' = cur s"
    "code_of s' = code_of s" "\<not> intr_on s'" "in_external_intr s' = in_external_intr s" "holder s' = holder s"
    "idle_thread s' = idle_thread s" "cond_waiters s' = cond_waiters s"
    "\<And>x. \<forall>t. x \<noteq> SleepSem t \<Longrightarrow> semas s' x = semas s x"
proof -
  let ?s1 = "s\<lparr>ticks := ticks s + 1\<rparr>"
  have s1: "s\<lparr>ticks := ticks s + 1, intr_on := False\<rparr> = ?s1"
    using off by auto
  obtain s2 where s2: "wake_loop (sleep_list s) ?s1 = Some s2" and tt: "thread_tick (s2\<lparr>intr_on := False\<rparr>) = Some s'"
    using t off s1 by (auto simp: timer_interrupt_def intr_disable_def Let_def bind_Some_iff kernel_simps)
  have q1: "queues_ok ?s1" "running ?s1"
    by (rule queues_ok_cong [OF q r]; simp)+
  have off1: "\<not> intr_on ?s1"
    using off by simp
  note w = wake_loop_queues [OF s2 q1 off1] and ws = wake_loop_semas [OF s2 q1 off1]
  have off2: "s2\<lparr>intr_on := False\<rparr> = s2"
    using w(6) off by simp
  note f = thread_tick_frame [OF tt [unfolded off2]]
  note sc = same_threads [OF f(1)]
  show "queues_ok s'" "running s'"
    using queues_ok_cong [OF w(1,2), of s'] f sc off by simp_all
  show "thread_ok s' (cur s) = thread_ok s (cur s)"
    using w(3) thread_ok_eq [of s' s2 "cur s"] thread_ok_eq [of ?s1 s "cur s"] f sc by simp
  show "cur s' = cur s" "code_of s' = code_of s" "\<not> intr_on s'" "in_external_intr s' = in_external_intr s"
    "holder s' = holder s" "idle_thread s' = idle_thread s"
    using w f sc off by simp_all
  show "\<And>x. \<forall>t. x \<noteq> SleepSem t \<Longrightarrow> semas s' x = semas s x"
    using ws f by simp
  show "cond_waiters s' = cond_waiters s"
    using ws [of "Sem 0"] f by simp
qed

definition irq_entry :: "kstate \<Rightarrow> kstate" where
  "irq_entry s = (push_code [Intr_set_level True] (s\<lparr>intr_on := False\<rparr>))\<lparr>in_external_intr := True, yield_on_return := False\<rparr>"

lemma timer_irq_cases:
  assumes w: "sched_wf s" and on: "intr_on s" and t: "timer_irq s = Some s'"
  obtains v where "queues_ok v" "running v" "cur v = cur s" "\<not> intr_on v" "\<not> in_external_intr v"
    "code_of v = (code_of s)(cur s := Intr_set_level True # code_of s (cur s))"
    "holder v = holder s" "idle_thread v = idle_thread s" "cond_waiters v = cond_waiters s"
    "\<And>x. \<forall>t. x \<noteq> SleepSem t \<Longrightarrow> semas v x = semas s x"
    "s' = switch (yielded_state v) \<or> s' = v"
    "\<exists>v0. timer_interrupt (irq_entry s) = Some v0 \<and> v = v0\<lparr>in_external_intr := False\<rparr>"
proof -
  let ?u = "(push_code [Intr_set_level True] (s\<lparr>intr_on := False\<rparr>))\<lparr>in_external_intr := True, yield_on_return := False\<rparr>"
  have q: "queues_ok s" "running s"
    using w by (auto simp: sched_wf_def)
  have u: "queues_ok ?u" "running ?u"
    by (rule queues_ok_cong [OF q]; simp)+
  obtain v where v: "timer_interrupt ?u = Some v" and
    y: "(if yield_on_return v then thread_yield (v\<lparr>in_external_intr := False\<rparr>)
        else Some (v\<lparr>in_external_intr := False\<rparr>)) = Some s'"
    using t w by (auto simp: timer_irq_def intr_handler_def kernel_simps bind_Some_iff sched_wf_def Let_def split: if_splits)
  have off: "\<not> intr_on ?u"
    by simp
  note vq = timer_interrupt_queues [OF v u off]
  have z: "queues_ok (v\<lparr>in_external_intr := False\<rparr>)" "running (v\<lparr>in_external_intr := False\<rparr>)"
    using queues_ok_cong [OF vq(1,2), of "v\<lparr>in_external_intr := False\<rparr>"] by simp_all
  show ?thesis
  proof (rule that [of "v\<lparr>in_external_intr := False\<rparr>"])
    show "s' = switch (yielded_state (v\<lparr>in_external_intr := False\<rparr>)) \<or> s' = v\<lparr>in_external_intr := False\<rparr>"
      using y yield_eval [OF z] by (simp split: if_splits)
    show "code_of (v\<lparr>in_external_intr := False\<rparr>) = (code_of s)(cur s := Intr_set_level True # code_of s (cur s))"
      using vq(5) code_of_cur [OF w] by auto
    show "\<exists>v0. timer_interrupt (irq_entry s) = Some v0 \<and> v\<lparr>in_external_intr := False\<rparr> = v0\<lparr>in_external_intr := False\<rparr>"
      using v by (simp add: irq_entry_def)
  qed (use z vq in auto)
qed

lemma timer_irq_wf:
  assumes w: "sched_wf s" and on: "intr_on s" and t: "timer_irq s = Some s'"
  shows "sched_wf s'"
  using timer_irq_cases [OF w on t]
proof cases
  case (1 v)
  have ok: "thread_ok v (cur v)" "in_down (code_of v (cur v)) = None"
    using w on 1 by (auto simp: sched_wf_def thread_ok_def running_def split: if_splits)
  then have "sched_wf v"
    using 1 by (intro wfI) auto
  moreover have "sched_wf (switch (yielded_state v))"
    using yield_wf [OF 1(1,2,5) ok] yield_eval [OF 1(1,2,5)] by simp
  ultimately show ?thesis
    using 1(11) by blast
qed

section \<open>Reachable states\<close>

inductive reachable :: "kstate \<Rightarrow> kstate \<Rightarrow> bool" for s0 where
  start: "reachable s0 s0"
| step: "reachable s0 s \<Longrightarrow> kstep s s' \<Longrightarrow> reachable s0 s'"

inductive_cases kstep_cases: "kstep s s'"

lemma kstep_wf:
  assumes "sched_wf s" and "kstep s s'"
  shows "sched_wf s'"
  using assms(2)
proof cases
  case run
  then show ?thesis
    using thread_step_wf [OF assms(1) thread_step_guard [OF assms(1)]] by fastforce
next
  case irq
  then show ?thesis
    using timer_irq_wf assms(1) by blast
qed

lemma boot_waiters: "waiters (semas (boot_state main idl vals cs) x) = []"
  by (cases x) (simp_all add: boot_state_def zero_sema_def)

lemma boot_wf:
  assumes "main \<noteq> NULL" "idl \<noteq> NULL" "main \<noteq> idl" "fresh main cs"
  shows "sched_wf (boot_state main idl vals cs)"
  using assms fresh_code_ok [OF assms(4)] fresh_no_down [OF assms(4)] boot_waiters [of main idl vals cs]
  by (auto simp: sched_wf_def queues_ok_def running_def thread_ok_def status_of_def code_of_def boot_state_def init_thread_def)

lemma reachable_wf: "reachable s0 s \<Longrightarrow> sched_wf s0 \<Longrightarrow> sched_wf s"
  by (induction rule: reachable.induct) (auto intro: kstep_wf)

text \<open>
  C27: From boot on, whatever the threads call and whenever timer interrupts arrive: exactly one
  thread is running, the current one; the run queue holds exactly the ready threads other
  than the idle thread, each once; the wait list of a semaphore holds exactly the threads
  that are blocked inside \<^verbatim>\<open>sema_down\<close> on it, each once; so no thread's list element is ever
  on two lists.
\<close>

theorem thread_queues_exclusive:
  assumes "main \<noteq> NULL" "idl \<noteq> NULL" "main \<noteq> idl" "fresh main cs"
    and "reachable (boot_state main idl vals cs) s"
  shows "(\<forall>t. status_of s t = Some THREAD_RUNNING \<longleftrightarrow> t = cur s) \<and>
     distinct (ready_list s) \<and>
     set (ready_list s) = {t. status_of s t = Some THREAD_READY \<and> t \<noteq> idle_thread s} \<and>
     (\<forall>x. distinct (waiters (semas s x)) \<and> set (waiters (semas s x)) \<inter> set (ready_list s) = {} \<and>
          set (waiters (semas s x)) = {t. status_of s t = Some THREAD_BLOCKED \<and> in_down (code_of s t) = Some x}) \<and>
     (\<forall>x y. x \<noteq> y \<longrightarrow> set (waiters (semas s x)) \<inter> set (waiters (semas s y)) = {})"
proof -
  have w: "sched_wf s"
    using reachable_wf [OF assms(5)] boot_wf [OF assms(1-4)] by blast
  then have q: "queues_ok s" and r: "running s"
    by (auto simp: sched_wf_def)
  have wt: "set (waiters (semas s x)) = {t. status_of s t = Some THREAD_BLOCKED \<and> in_down (code_of s t) = Some x}" for x
    using queues_okD(8) [OF q, of _ x] by blast
  have rl: "set (ready_list s) = {t. status_of s t = Some THREAD_READY \<and> t \<noteq> idle_thread s}"
    using queues_okD(4) [OF q] by blast
  have "status_of s t = Some THREAD_RUNNING \<longleftrightarrow> t = cur s" for t
    using queues_okD(2) [OF q, of t] r by (auto simp: running_def)
  then show ?thesis
    using queues_okD(3,7) [OF q] by (auto simp: wt rl)
qed

theorem thread_queues_exclusive_witness:
  "\<exists>s. thread_step (boot_state 0x1000 0x2000 (\<lambda>_. 1) [Sema_down (Sem 0x40), Thread_exit]) = Some s \<and>
     (\<forall>t. status_of s t = Some THREAD_RUNNING \<longleftrightarrow> t = cur s)"
proof -
  let ?b = "boot_state 0x1000 0x2000 (\<lambda>_. 1) [Sema_down (Sem 0x40), Thread_exit]"
  have "sched_wf ?b"
    by (rule boot_wf) auto
  then obtain s where s: "thread_step ?b = Some s"
    using thread_step_wf [of ?b] by (auto simp: next_call_def boot_state_def code_of_def init_thread_def)
  then have "reachable ?b s"
    by (meson reachable.intros kstep.run)
  then have "\<forall>t. status_of s t = Some THREAD_RUNNING \<longleftrightarrow> t = cur s"
    using thread_queues_exclusive [of "0x1000" "0x2000" "[Sema_down (Sem 0x40), Thread_exit]" "\<lambda>_. 1" s] by simp
  with s show ?thesis
    by blast
qed

end
