(* ===== verification/Threads_Locks.thy ===== *)
theory Threads_Locks
  imports Threads_Steps
begin

text \<open>
  Locks of \<^verbatim>\<open>threads/synch.c\<close>.  A lock is taken from the moment \<^verbatim>\<open>sema_down\<close> has
  decremented its semaphore until \<^verbatim>\<open>sema_up\<close> in \<^verbatim>\<open>lock_release\<close> increments it again; the
  \<^verbatim>\<open>holder\<close> field is set a little later and cleared a little earlier, with interrupts on
  in between.  \<open>owes l cs\<close> recognises a thread in one of those two gaps.  The invariant is
  that the semaphore's value, the holder and the gaps always add up to one.
\<close>

section \<open>Taken locks\<close>

fun owes :: "addr \<Rightarrow> call list \<Rightarrow> bool" where
  "owes l (Intr_set_level b # cs) = owes l cs"
| "owes l (Set_holder l' # cs) = (l = l')"
| "owes l (Release_up l' # cs) = (l = l')"
| "owes l _ = False"

definition lock_share :: "kstate \<Rightarrow> addr \<Rightarrow> addr \<Rightarrow> nat" where
  "lock_share s l t = unat (sem_value (semas s (LockSem l))) + of_bool (holder s l \<noteq> NULL)
     + of_bool (owes l (code_of s t))"

definition lock_inv :: "kstate \<Rightarrow> bool" where
  "lock_inv s \<longleftrightarrow>
     (\<forall>l. unat (sem_value (semas s (LockSem l))) + of_bool (holder s l \<noteq> NULL)
          + card {t. owes l (code_of s t)} = 1) \<and>
     (\<forall>c x. x \<in> set (cond_waiters s c) \<longrightarrow> (\<exists>t. x = CondSem t))"

lemma card_split:
  fixes t :: addr
  shows "card {u. P u} = card {u. u \<noteq> t \<and> P u} + of_bool (P t)"
proof -
  have "{u. P u} = (if P t then insert t {u. u \<noteq> t \<and> P u} else {u. u \<noteq> t \<and> P u})"
    by auto
  then show ?thesis
    by (auto simp: card_insert_if)
qed

lemma lock_inv_step:
  assumes "lock_inv s"
    and "\<And>u l. u \<noteq> t \<Longrightarrow> owes l (code_of s' u) = owes l (code_of s u)"
    and "\<And>l. lock_share s' l t = lock_share s l t"
    and "\<And>c x. x \<in> set (cond_waiters s' c) \<Longrightarrow> (\<exists>u. x = CondSem u) \<or> x \<in> set (cond_waiters s c)"
  shows "lock_inv s'"
proof -
  have "card {u. u \<noteq> t \<and> owes l (code_of s' u)} = card {u. u \<noteq> t \<and> owes l (code_of s u)}" for l
    using assms(2) by (intro arg_cong [where f = card]) auto
  then have "unat (sem_value (semas s' (LockSem l))) + of_bool (holder s' l \<noteq> NULL) + card {t. owes l (code_of s' t)}
      = unat (sem_value (semas s (LockSem l))) + of_bool (holder s l \<noteq> NULL) + card {t. owes l (code_of s t)}" for l
    using assms(3) [of l] card_split [of "\<lambda>u. owes l (code_of s' u)" t] card_split [of "\<lambda>u. owes l (code_of s u)" t]
    unfolding lock_share_def by simp
  then show ?thesis
    using assms(1,4) unfolding lock_inv_def by metis
qed

lemma lock_share_le:
  assumes "lock_inv s"
  shows "lock_share s l t \<le> 1"
proof -
  have "of_bool (owes l (code_of s t)) \<le> card {u. owes l (code_of s u)}"
    using card_split [of "\<lambda>u. owes l (code_of s u)" t] by simp
  moreover have "unat (sem_value (semas s (LockSem l))) + of_bool (holder s l \<noteq> NULL) + card {t. owes l (code_of s t)} = 1"
    using assms unfolding lock_inv_def by blast
  ultimately show ?thesis
    unfolding lock_share_def by linarith
qed

lemma fresh_owes: "fresh t cs \<Longrightarrow> \<not> owes l cs"
  by (cases "(l, cs)" rule: owes.cases) auto

lemma idle_owes: "idle_ok cs \<Longrightarrow> \<not> owes l cs"
  by (induction cs rule: idle_ok.induct) auto

section \<open>Effects of the calls\<close>

lemma switch_blocked [simp]:
  "status_of s (cur s) = Some THREAD_RUNNING \<Longrightarrow>
     code_of (switch (blocked_state x old s)) u
       = (if u = cur s then Down_loop x old # code_of s u else code_of s u)"
  "holder (blocked_state x old s) = holder s" "cond_waiters (blocked_state x old s) = cond_waiters s"
  "sem_value (semas (blocked_state x old s) y) = sem_value (semas s y)"
  by (auto simp: switch_code freed_def blocked_state_def)

lemma switch_yielded [simp]:
  "status_of s (cur s) = Some THREAD_RUNNING \<Longrightarrow>
     code_of (switch (yielded_state s)) u
       = (if u = cur s then Intr_set_level (intr_on s) # code_of s u else code_of s u)"
  "holder (yielded_state s) = holder s" "cond_waiters (yielded_state s) = cond_waiters s"
  "semas (yielded_state s) = semas s"
  by (auto simp: switch_code freed_def yielded_state_def)

lemma switch_dying:
  "status_of s (cur s) = Some THREAD_RUNNING \<Longrightarrow>
     code_of (switch (dying_state s)) u = (if freed (dying_state s) u then [] else code_of s u)"
  "holder (dying_state s) = holder s" "cond_waiters (dying_state s) = cond_waiters s"
  "semas (dying_state s) = semas s" "freed (dying_state s) u \<Longrightarrow> u = cur s"
  by (auto simp: switch_code freed_def dying_state_def)

lemma down_locks:
  assumes inv: "lock_inv s0" and q: "queues_ok s" and r: "running s" and x: "\<not> in_external_intr s"
    and off: "\<not> intr_on s" and idle: "cur s \<noteq> idle_thread s"
    and same: "holder s0 = holder s" "cond_waiters s0 = cond_waiters s" "semas s0 = semas s"
      "\<And>u. u \<noteq> cur s \<Longrightarrow> code_of s0 u = code_of s u" "\<And>l. \<not> owes l (code_of s0 (cur s))"
    and ok: "code_ok (cur s) (Down_loop y old # code_of s (cur s))"
    and d: "down_loop y old s = Some s'"
  shows "lock_inv s'"
proof (rule lock_inv_step [OF inv, where t = "cur s"])
  note c = running_facts(1) [OF q r]
  have s': "s' = (if sem_value (semas s y) = 0 then switch (blocked_state y old s)
      else (upd_sema y (\<lambda>q. q\<lparr>sem_value := sem_value q - 1\<rparr>) s)\<lparr>intr_on := old\<rparr>)"
    using d down_loop_block [OF q r x off idle] down_loop_inited [OF d] down_loop_pass [OF x] by auto
  show "owes l (code_of s' u) = owes l (code_of s0 u)" if "u \<noteq> cur s" for u l
    using s' c that same by simp
  show "(\<exists>u. z = CondSem u) \<or> z \<in> set (cond_waiters s0 cv)" if "z \<in> set (cond_waiters s' cv)" for z cv
    using that s' same by (simp split: if_splits)
  show "lock_share s' l (cur s) = lock_share s0 l (cur s)" for l
  proof (cases "sem_value (semas s y) = 0")
    case True
    then show ?thesis
      using s' c same by (simp add: lock_share_def)
  next
    case False
    show ?thesis
    proof (cases "y = LockSem l")
      case True
      then have "code_of s (cur s) = Set_holder l # tl (code_of s (cur s))"
        using ok by auto
      then have "owes l (code_of s (cur s))"
        by (metis owes.simps(2))
      moreover have "unat (sem_value (semas s y) - 1) = unat (sem_value (semas s y)) - 1" "unat (sem_value (semas s y)) \<noteq> 0"
        using False by (simp_all add: unat_minus_one unat_eq_zero)
      ultimately show ?thesis
        using s' False True same by (simp add: lock_share_def)
    next
      case y: False
      have "\<not> owes l (code_of s (cur s))"
        using ok y fresh_owes by (cases y) auto
      then show ?thesis
        using s' False y same by (simp add: lock_share_def)
    qed
  qed
qed

section \<open>Every step keeps the invariant\<close>

lemma exec_locks:
  assumes inv: "lock_inv s" and w: "sched_wf s" and idle: "cur s \<noteq> idle_thread s"
    and code: "code_of s (cur s) = i # is" and e: "exec_call i (popped s) = Some s'"
  shows "lock_inv s'"
proof -
  note q = popped_queues [OF w] and c = code_of_cur [OF w]
  have x: "\<not> in_external_intr s" and ok: "code_ok (cur s) (i # is)"
    using w idle code by (auto simp: sched_wf_def thread_ok_def)
  have tc: "thread_current (popped s) = Some (cur s)"
    using running_facts(5) [OF q] by simp
  have nn: "cur s \<noteq> NULL"
    using running_facts(2) [OF q] by simp
  have cp: "code_of (popped s) (cur s) = is"
    using c code by simp
  have step: "lock_inv s'" if "\<And>u l. u \<noteq> cur s \<Longrightarrow> owes l (code_of s' u) = owes l (code_of s u)"
      "\<And>l. lock_share s' l (cur s) = lock_share s l (cur s)"
      "\<And>cv z. z \<in> set (cond_waiters s' cv) \<Longrightarrow> (\<exists>u. z = CondSem u) \<or> z \<in> set (cond_waiters s cv)"
    using lock_inv_step [OF inv that] by blast
  have down: "lock_inv s'" if "sema_down y u = Some s'" "queues_ok u" "running u" "cur u = cur s"
      "idle_thread u = idle_thread s" "\<not> in_external_intr u" "holder u = holder s" "cond_waiters u = cond_waiters s"
      "semas u = semas s" "\<And>v. v \<noteq> cur s \<Longrightarrow> code_of u v = code_of s v" "\<And>l. \<not> owes l (i # is)"
      "code_ok (cur s) (Down_loop y (intr_on u) # code_of u (cur s))" for y u
  proof -
    have "queues_ok (u\<lparr>intr_on := False\<rparr>)" "running (u\<lparr>intr_on := False\<rparr>)"
      by (rule queues_ok_cong [OF that(2,3)]; simp)+
    then show ?thesis
      using down_locks [OF inv, of "u\<lparr>intr_on := False\<rparr>" y "intr_on u" s'] that idle code
      by (simp add: sema_down_def intr_disable_def kernel_simps)
  qed
  have up: "sema_up y u = Some s' \<Longrightarrow> queues_ok u \<Longrightarrow> \<not> in_external_intr u \<Longrightarrow> s' = up_effect y u" for y u
    using sema_up_effect [of y u s'] by simp
  show ?thesis
  proof (cases i)
    case (Sema_down y)
    then have f: "own_sema (cur s) y" "fresh (cur s) is"
      using ok by auto
    then have "code_ok (cur s) (Down_loop y (intr_on (popped s)) # code_of (popped s) (cur s))"
      using cp by (cases y) auto
    then show ?thesis
      using Sema_down e q x by (intro down [of y "popped s"]) (auto simp: exec_call_def)
  next
    case (Sema_up y)
    then obtain a where y: "y = Sem a" and f: "fresh (cur s) is"
      using ok by auto
    have s': "s' = up_effect y (popped s)"
      using Sema_up e q x up by (simp add: exec_call_def)
    show ?thesis
      by (rule step) (use s' y c code Sema_up fresh_owes [OF f] in \<open>auto simp: lock_share_def\<close>)
  next
    case (Sema_try_down y)
    then obtain a where y: "y = Sem a" and f: "fresh (cur s) is"
      using ok by auto
    show ?thesis
      by (rule step) (use e y c code x Sema_try_down fresh_owes [OF f]
          in \<open>auto simp: lock_share_def exec_call_def try_down_eval split: if_splits\<close>)
  next
    case (Lock_acquire l)
    let ?u = "push_code [Set_holder l] (popped s)"
    have "queues_ok ?u" "running ?u"
      by (rule queues_ok_cong [OF q]; simp)+
    then show ?thesis
      using Lock_acquire e x ok c cp
      by (intro down [of "LockSem l" ?u])
        (auto simp: exec_call_def lock_acquire_def lock_held_by_current_thread_def tc kernel_simps split: if_splits)
  next
    case (Lock_try_acquire l)
    then have f: "fresh (cur s) is"
      using ok by auto
    have v: "0 < sem_value (semas s (LockSem l)) \<Longrightarrow>
        unat (sem_value (semas s (LockSem l)) - 1) + 1 = unat (sem_value (semas s (LockSem l)))"
      by (simp add: unat_minus_one unat_gt_0 word_gt_0)
    show ?thesis
      by (rule step) (use e c code x Lock_try_acquire fresh_owes [OF f] v
          in \<open>auto simp: lock_share_def exec_call_def lock_try_acquire_def lock_held_by_current_thread_def tc
              kernel_simps try_down_eval split: if_splits\<close>)
  next
    case (Lock_release l)
    then have f: "fresh (cur s) is"
      using ok by auto
    have s': "s' = push_code [Release_up l] ((popped s)\<lparr>holder := (holder s)(l := NULL)\<rparr>)" "holder s l = cur s"
      using Lock_release e by (auto simp: exec_call_def lock_release_def lock_held_by_current_thread_def tc kernel_simps
          split: if_splits)
    show ?thesis
      by (rule step) (use s' c code nn Lock_release fresh_owes [OF f] in \<open>auto simp: lock_share_def\<close>)
  next
    case (Cond_wait cv l)
    then have f: "fresh (cur s) is"
      using ok by auto
    show ?thesis
      by (rule step) (use e c code x Cond_wait fresh_owes [OF f]
          in \<open>auto simp: lock_share_def exec_call_def cond_wait_def lock_held_by_current_thread_def tc sema_init_def
              kernel_simps split: if_splits\<close>)
  next
    case (Cond_signal cv l)
    then have f: "fresh (cur s) is"
      using ok by auto
    show ?thesis
    proof (cases "cond_waiters s cv")
      case Nil
      show ?thesis
        by (rule step) (use Nil e c code x Cond_signal fresh_owes [OF f]
            in \<open>auto simp: lock_share_def exec_call_def cond_signal_def lock_held_by_current_thread_def tc
                kernel_simps split: if_splits\<close>)
    next
      case (Cons y ys)
      let ?u = "(popped s)\<lparr>cond_waiters := (cond_waiters s)(cv := ys)\<rparr>"
      have "queues_ok ?u"
        by (rule queues_ok_cong [OF q]; simp)
      moreover have "sema_up y ?u = Some s'"
        using Cons e Cond_signal by (auto simp: exec_call_def cond_signal_def lock_held_by_current_thread_def tc
            kernel_simps split: if_splits)
      ultimately have s': "s' = up_effect y ?u"
        using up x by simp
      have "y \<in> set (cond_waiters s cv)"
        using Cons by simp
      then obtain a where "y = CondSem a"
        using inv unfolding lock_inv_def by blast
      then show ?thesis
        using s' Cons c code Cond_signal fresh_owes [OF f]
        by (intro step) (auto simp: lock_share_def split: if_splits)
    qed
  next
    case (Cond_broadcast cv l)
    then have f: "fresh (cur s) is"
      using ok by auto
    show ?thesis
      by (rule step) (use e c code Cond_broadcast fresh_owes [OF f]
          in \<open>auto simp: lock_share_def exec_call_def cond_broadcast_def split: if_splits\<close>)
  next
    case (Thread_create page p cs)
    then have f: "fresh (cur s) is" "fresh page cs"
      using ok by auto
    show ?thesis
    proof (cases "page = NULL \<or> threads (popped s) page \<noteq> None")
      case True
      show ?thesis
        by (rule step) (use True e c code Thread_create fresh_owes [OF f(1)]
            in \<open>auto simp: lock_share_def exec_call_def thread_create_def\<close>)
    next
      case False
      then have pg: "status_of s page = None" "page \<noteq> cur s" "code_of s page = []"
        using c by (auto simp: status_of_def popped_def upd_thread_def code_of_def split: if_splits)
      have "threads s page = None"
        using pg(1) by (simp add: status_of_def)
      then have s': "s' = new_thread page p cs (popped s)"
        using False e Thread_create exec_guard [OF q(2) queues_okD(1) [OF q(1)], of i] thread_create_eval [of page "popped s" p cs] x
        by (cases "call_guard i (popped s)") (auto simp: exec_call_def)
      show ?thesis
        by (rule step) (use s' pg c code Thread_create fresh_owes [OF f(1)] fresh_owes [OF f(2)]
            in \<open>auto simp: lock_share_def new_thread_status\<close>)
    qed
  next
    case Thread_yield
    then have f: "fresh (cur s) is"
      using ok by auto
    have s': "s' = switch (yielded_state (popped s))"
      using e Thread_yield yield_eval [OF q] x by (simp add: exec_call_def)
    show ?thesis
      by (rule step) (use s' c code Thread_yield fresh_owes [OF f] in \<open>auto simp: lock_share_def\<close>)
  next
    case Thread_exit
    then have f: "fresh (cur s) is"
      using ok by auto
    have s': "s' = switch (dying_state (popped s))"
      using e Thread_exit exit_eval [OF q] x idle by (simp add: exec_call_def)
    show ?thesis
      by (rule step) (use s' c code Thread_exit fresh_owes [OF f] switch_dying [of "popped s"]
          in \<open>auto simp: lock_share_def\<close>)
  next
    case (Thread_set_priority p)
    then have f: "fresh (cur s) is"
      using ok by auto
    show ?thesis
      by (rule step) (use e c code Thread_set_priority fresh_owes [OF f]
          in \<open>auto simp: lock_share_def exec_call_def thread_set_priority_def tc\<close>)
  next
    case (Timer_sleep n)
    then have f: "fresh (cur s) is"
      using ok by auto
    show ?thesis
      by (rule step) (use e c code x Timer_sleep fresh_owes [OF f]
          in \<open>auto simp: lock_share_def exec_call_def timer_sleep_def tc intr_disable_def kernel_simps Let_def
              split: if_splits\<close>)
  next
    case (Down_loop y b)
    have "\<not> intr_on s"
      using w code Down_loop by (auto simp: sched_wf_def)
    then show ?thesis
      using down_locks [OF inv q, of y b s'] e Down_loop x idle c code ok by (simp add: exec_call_def)
  next
    case (Set_holder l)
    then have f: "fresh (cur s) is"
      using ok by auto
    have "holder s l = NULL"
      using lock_share_le [OF inv, of l "cur s"] code Set_holder by (auto simp: lock_share_def split: if_splits)
    then show ?thesis
      using e c code nn Set_holder fresh_owes [OF f]
      by (intro step) (auto simp: lock_share_def exec_call_def set_holder_def tc)
  next
    case (Release_up l)
    then have f: "fresh (cur s) is"
      using ok by auto
    have v: "sem_value (semas s (LockSem l)) = 0"
      using lock_share_le [OF inv, of l "cur s"] code Release_up by (simp add: lock_share_def unat_eq_zero)
    have s': "s' = up_effect (LockSem l) (popped s)"
      using Release_up e q x up by (simp add: exec_call_def)
    show ?thesis
      by (rule step) (use s' v c code Release_up fresh_owes [OF f] in \<open>auto simp: lock_share_def\<close>)
  next
    case (Intr_set_level b)
    then show ?thesis
      using e c code x by (intro step) (auto simp: lock_share_def exec_call_def kernel_simps)
  next
    case Sleep_init
    then have f: "fresh (cur s) is"
      using ok by auto
    show ?thesis
      by (rule step) (use e c code Sleep_init fresh_owes [OF f]
          in \<open>auto simp: lock_share_def exec_call_def tc sema_init_def\<close>)
  qed (use ok in simp_all)
qed

lemma lock_inv_same:
  assumes "lock_inv s" and "\<And>u l. owes l (code_of s' u) = owes l (code_of s u)" and "holder s' = holder s"
    and "cond_waiters s' = cond_waiters s" and "\<And>l. semas s' (LockSem l) = semas s (LockSem l)"
  shows "lock_inv s'"
  using assms by (simp add: lock_inv_def)

lemma thread_step_locks:
  assumes inv: "lock_inv s" and w: "sched_wf s" and e: "thread_step s = Some s'"
  shows "lock_inv s'"
proof (cases "cur s = idle_thread s")
  case True
  then have ok: "idle_ok (code_of s (cur s))"
    using w by (auto simp: sched_wf_def thread_ok_def)
  note c = code_of_cur [OF w] and q = popped_queues [OF w]
  have x: "\<not> in_external_intr s"
    using w by (simp add: sched_wf_def)
  show ?thesis
    using ok
  proof (cases rule: idle_code_cases)
    case block
    then show ?thesis
      using e idle_block_eval [OF w True block] c
      by (intro lock_inv_same [OF inv]) (auto simp: switch_code freed_def idle_state_def split: if_splits)
  qed (use e x c in \<open>auto simp: thread_step_eval [OF w] next_call_def exec_call_def kernel_simps
      intro!: lock_inv_same [OF inv] split: if_splits\<close>)
next
  case False
  show ?thesis
  proof (cases "code_of s (cur s)")
    case Nil
    have "s' = switch (dying_state s)"
      using e exit_eval [of s] w Nil False by (simp add: thread_step_eval sched_wf_def)
    then show ?thesis
      using Nil switch_dying(2-) [of s] switch_dying(1) [OF code_of_cur [OF w]]
      by (intro lock_inv_same [OF inv]) (auto split: if_splits)
  next
    case (Cons i cs)
    then show ?thesis
      using exec_locks [OF inv w False] e by (simp add: thread_step_eval [OF w] next_call_def)
  qed
qed

lemma timer_irq_locks:
  assumes inv: "lock_inv s" and w: "sched_wf s" and on: "intr_on s" and t: "timer_irq s = Some s'"
  shows "lock_inv s'"
  using timer_irq_cases [OF w on t]
proof cases
  case (1 v)
  then have "status_of v (cur v) = Some THREAD_RUNNING"
    by (simp add: running_def)
  then show ?thesis
    using 1 by (intro lock_inv_same [OF inv]) (auto split: if_splits)
qed

lemma boot_locks:
  assumes "fresh main cs"
  shows "lock_inv (boot_state main idl vals cs)"
proof -
  have "\<not> owes l (code_of (boot_state main idl vals cs) t)" for l t
    using fresh_owes [OF assms] by (auto simp: code_of_def boot_state_def init_thread_def)
  then show ?thesis
    by (simp add: lock_inv_def) (simp add: boot_state_def)
qed

lemma kstep_locks: "kstep s s' \<Longrightarrow> lock_inv s \<Longrightarrow> sched_wf s \<Longrightarrow> lock_inv s'"
  by (elim kstep.cases) (auto intro: thread_step_locks timer_irq_locks)

lemma reachable_locks:
  assumes "reachable s0 s" "sched_wf s0" "lock_inv s0"
  shows "lock_inv s"
  using assms by (induction rule: reachable.induct) (auto intro: kstep_locks reachable_wf)

text \<open>
  C26: Mutual exclusion.  From boot on, whatever the threads do and whenever they are
  preempted, a lock's semaphore value, its \<^verbatim>\<open>holder\<close> field and the threads that have
  passed \<^verbatim>\<open>sema_down\<close> in \<^verbatim>\<open>lock_acquire\<close> without having stored themselves as holder, or
  have cleared the holder in \<^verbatim>\<open>lock_release\<close> without having called \<^verbatim>\<open>sema_up\<close>, add up to
  exactly one.  So a lock is never taken by two threads, never taken while it is
  free, and never lost.
\<close>

theorem lock_mutual_exclusion:
  assumes "main \<noteq> NULL" "idl \<noteq> NULL" "main \<noteq> idl" "fresh main cs"
    and "reachable (boot_state main idl vals cs) s"
  shows "unat (sem_value (semas s (LockSem l))) + of_bool (holder s l \<noteq> NULL)
     + card {t. owes l (code_of s t)} = 1"
  using reachable_locks [OF assms(5) boot_wf [OF assms(1-4)] boot_locks [OF assms(4)]]
  by (simp add: lock_inv_def)

theorem lock_mutual_exclusion_witness:
  "\<exists>s. thread_step (boot_state 0x1000 0x2000 (\<lambda>_. 0) [Lock_acquire 0x40]) = Some s \<and>
     unat (sem_value (semas s (LockSem 0x40))) + of_bool (holder s 0x40 \<noteq> NULL)
       + card {t. owes 0x40 (code_of s t)} = 1"
proof -
  let ?b = "boot_state 0x1000 0x2000 (\<lambda>_. 0) [Lock_acquire 0x40]"
  have "sched_wf ?b"
    by (rule boot_wf) auto
  moreover have "call_guard (next_call ?b) ?b"
    by (simp add: next_call_def boot_state_def code_of_def init_thread_def)
  ultimately obtain s where s: "thread_step ?b = Some s"
    using thread_step_wf by blast
  then have "reachable ?b s"
    by (meson reachable.intros kstep.run)
  then show ?thesis
    using s lock_mutual_exclusion [of "0x1000" "0x2000" "[Lock_acquire 0x40]" "\<lambda>_. 0" s "0x40"] by simp
qed

end
