(* ===== verification/Timer.thy ===== *)
theory Timer
  imports Threads_Locks
begin

text \<open>
  The sleep queue of \<^verbatim>\<open>devices/timer.c\<close>: \<^verbatim>\<open>timer_sleep\<close> keeps it in the order of wake-up
  times, the timer interrupt wakes exactly the sleepers that are due, and a race in
  \<^verbatim>\<open>timer_sleep\<close>: the thread becomes visible to the interrupt handler before its semaphore
  is initialised, so that a tick in between panics on the thread's first sleep and is lost on
  a later one, and then the thread sleeps forever.  The conversion of real time to ticks and the calibration loop are here too.
\<close>

section \<open>Real-time delays and calibration\<close>

definition TIMER_FREQ :: int where "TIMER_FREQ = 100"

datatype delay = Sleep_ticks int | Busy_wait int

definition real_time_sleep :: "bool \<Rightarrow> u32 \<Rightarrow> int \<Rightarrow> int \<Rightarrow> delay kernel" where
  "real_time_sleep intr_level loops_per_tick num denom = do {
     let tks = sgn num * (\<bar>num * TIMER_FREQ\<bar> div denom);
     ASSERT intr_level;
     if 0 < tks then Some (Sleep_ticks tks)
     else do {
       ASSERT (denom mod 1000 = 0);
       let a = uint loops_per_tick * num;
       let b = sgn a * (\<bar>a\<bar> div 1000) * TIMER_FREQ;
       Some (Busy_wait (sgn b * (\<bar>b\<bar> div (denom div 1000))))
     }
   }"

definition timer_msleep :: "bool \<Rightarrow> u32 \<Rightarrow> int \<Rightarrow> delay kernel" where
  "timer_msleep lvl lpt ms = real_time_sleep lvl lpt ms 1000"

definition timer_usleep :: "bool \<Rightarrow> u32 \<Rightarrow> int \<Rightarrow> delay kernel" where
  "timer_usleep lvl lpt us = real_time_sleep lvl lpt us (1000 * 1000)"

definition timer_nsleep :: "bool \<Rightarrow> u32 \<Rightarrow> int \<Rightarrow> delay kernel" where
  "timer_nsleep lvl lpt ns = real_time_sleep lvl lpt ns (1000 * 1000 * 1000)"

partial_function (option) double_loop :: "(u32 \<Rightarrow> bool) \<Rightarrow> u32 \<Rightarrow> u32 kernel" where
  "double_loop too_many_loops lpt =
     (if \<not> too_many_loops (push_bit 1 lpt)
      then do {
        let lpt = push_bit 1 lpt;
        ASSERT (lpt \<noteq> 0);
        double_loop too_many_loops lpt
      }
      else Some lpt)"

partial_function (option) refine_loop :: "(u32 \<Rightarrow> bool) \<Rightarrow> u32 \<Rightarrow> u32 \<Rightarrow> u32 \<Rightarrow> u32 kernel" where
  "refine_loop too_many_loops high_bit test_bit lpt =
     (if test_bit \<noteq> drop_bit 10 high_bit
      then refine_loop too_many_loops high_bit (drop_bit 1 test_bit)
             (if \<not> too_many_loops (high_bit OR test_bit) then lpt OR test_bit else lpt)
      else Some lpt)"

definition timer_calibrate :: "(u32 \<Rightarrow> bool) \<Rightarrow> u32 kernel" where
  "timer_calibrate too_many_loops = do {
     high_bit \<leftarrow> double_loop too_many_loops (push_bit 10 1);
     refine_loop too_many_loops high_bit (drop_bit 1 high_bit) high_bit
   }"

section \<open>Order of the sleep queue\<close>

interpretation sleep_order: list_less "sleep_less s" for s
  by unfold_locales (auto simp: sleep_less_def)

definition sleep_sorted :: "kstate \<Rightarrow> addr list \<Rightarrow> bool" where
  "sleep_sorted s ts \<longleftrightarrow> sorted_wrt (\<lambda>a b. wake_time s a \<le> wake_time s b) ts"

lemma sleep_sorted_alt: "sleep_sorted s ts \<longleftrightarrow> sorted_wrt (\<lambda>a b. \<not> sleep_less s b a) ts"
  by (simp add: sleep_sorted_def sleep_less_def not_less)

lemma wake_time_upd:
  "wake_time (upd_thread t (\<lambda>th. th\<lparr>sleep_until := w\<rparr>) s) u
     = (if u = t \<and> threads s t \<noteq> None then w else wake_time s u)"
  by (auto simp: wake_time_def upd_thread_def split: option.splits)

lemma wake_time_fields [simp]:
  "wake_time (push_code cs s) = wake_time s" "wake_time (s\<lparr>intr_on := b\<rparr>) = wake_time s"
  "wake_time (s\<lparr>sleep_list := l\<rparr>) = wake_time s"
  by (auto simp: wake_time_def push_code_def upd_thread_def fun_eq_iff split: option.splits)

lemma insert_ordered_mset: "mset (insert_ordered lt e xs) = add_mset e (mset xs)"
proof -
  have "mset xs = mset (takeWhile (\<lambda>y. \<not> lt e y) xs) + mset (dropWhile (\<lambda>y. \<not> lt e y) xs)"
    by (metis mset_append takeWhile_dropWhile_id)
  then show ?thesis
    by (simp add: insert_ordered_def)
qed

lemma sorted_cong:
  "(\<And>t. t \<in> set ts \<Longrightarrow> wake_time s' t = wake_time s t) \<Longrightarrow> sleep_sorted s' ts = sleep_sorted s ts"
  unfolding sleep_sorted_def by (induction ts) auto

text \<open>
  \<^verbatim>\<open>timer_sleep\<close>, called by a running thread with interrupts on, puts the thread into the
  sleep queue with wake-up time \<^verbatim>\<open>ticks\<close> + the current tick count, keeps the queue in
  the order of wake-up times, and keeps every other sleeper.
\<close>

theorem timer_sleep_sorted:
  assumes "sched_wf s" and "intr_on s" and "sleep_sorted s (sleep_list s)" and "cur s \<notin> set (sleep_list s)"
  shows "\<exists>s'. timer_sleep n s = Some s' \<and> sleep_sorted s' (sleep_list s') \<and>
     mset (sleep_list s') = add_mset (cur s) (mset (sleep_list s)) \<and>
     wake_time s' (cur s) = n + ticks s \<and> (\<forall>t. t \<noteq> cur s \<longrightarrow> wake_time s' t = wake_time s t)"
proof -
  let ?u = "upd_thread (cur s) (\<lambda>th. th\<lparr>sleep_until := n + ticks s\<rparr>) s"
  let ?l = "insert_ordered (sleep_less ?u) (cur s) (sleep_list s)"
  have q: "queues_ok s" "running s" "\<not> in_external_intr s"
    using assms(1) by (auto simp: sched_wf_def)
  have al: "threads s (cur s) \<noteq> None"
    using running_facts(1) [OF q(1,2)] by (auto simp: status_of_def)
  have less: "sleep_less (?u\<lparr>intr_on := b\<rparr>) = sleep_less ?u" for b
    by (simp add: sleep_less_def fun_eq_iff)
  have ev: "timer_sleep n s = Some (push_code [Sleep_init, Sema_down (SleepSem (cur s))] (?u\<lparr>sleep_list := ?l, intr_on := True\<rparr>))"
    using running_facts(5) [OF q(1,2)] assms(2) q(3)
    by (simp add: timer_sleep_def timer_ticks_def intr_disable_def kernel_simps less Let_def)
  have "sleep_sorted ?u (sleep_list s)"
    using assms(3,4) by (subst sorted_cong [of "sleep_list s" ?u s]) (auto simp: wake_time_upd)
  then have "sleep_sorted ?u ?l"
    using sleep_order.insert_ordered_sorted [of ?u "sleep_list s" "cur s"]
    by (simp add: sleep_sorted_alt insert_ordered_def)
  moreover have w: "wake_time ?u (cur s) = n + ticks s" "\<And>t. t \<noteq> cur s \<Longrightarrow> wake_time ?u t = wake_time s t"
    using al by (auto simp: wake_time_upd)
  ultimately show ?thesis
    using ev by (simp add: sleep_sorted_def insert_ordered_mset)
qed

theorem timer_sleep_sorted_witness:
  "\<exists>s'. timer_sleep 7 (boot_state 0x1000 0x2000 (\<lambda>_. 0) []) = Some s' \<and> sleep_sorted s' (sleep_list s') \<and>
     wake_time s' 0x1000 = 7"
proof -
  let ?b = "boot_state 0x1000 0x2000 (\<lambda>_. 0) []"
  have "sched_wf ?b"
    by (rule boot_wf) auto
  then show ?thesis
    using timer_sleep_sorted [of ?b 7] by (auto simp: boot_state_def sleep_sorted_def)
qed

section \<open>The timer interrupt\<close>

lemma wake_time_up [simp]: "wake_time (up_effect x s) = wake_time s"
  by (auto simp: wake_time_def up_effect_def set_status_def upd_thread_def fun_eq_iff split: list.splits option.splits)

lemma wake_loop_spec:
  assumes "queues_ok s" "running s" "\<not> intr_on s" "distinct ts" "\<And>t. t \<in> set ts \<Longrightarrow> threads s t \<noteq> None"
    "\<And>t. t \<in> set ts \<Longrightarrow> inited (semas s (SleepSem t))"
  shows "\<exists>s'. wake_loop ts s = Some s' \<and> sleep_list s' = dropWhile (\<lambda>t. \<not> ticks s <s wake_time s t) ts \<and>
     (\<forall>t. sem_value (semas s' (SleepSem t)) = sem_value (semas s (SleepSem t))
        + of_bool (t \<in> set (takeWhile (\<lambda>t. \<not> ticks s <s wake_time s t) ts)))"
  using assms
proof (induction ts arbitrary: s)
  case (Cons t ts)
  let ?u = "up_effect (SleepSem t) s"
  obtain th where th: "threads s t = Some th"
    using Cons.prems(5) [of t] by auto
  then have wt: "wake_time s t = sleep_until th"
    by (simp add: wake_time_def)
  have up: "sema_up (SleepSem t) s = Some ?u" "queues_ok ?u" "running ?u"
    using Cons.prems up_effect_queues [OF Cons.prems(1,2), of "SleepSem t"] sema_up_eval [of s "SleepSem t"] by auto
  have al: "threads ?u v \<noteq> None" if "v \<in> set ts" for v
    using Cons.prems(5) [of v] that
    by (auto simp: up_effect_def set_status_def upd_thread_def split: list.splits)
  have ini: "inited (semas ?u (SleepSem v))" if "v \<in> set ts" for v
    using Cons.prems(6) [of v] that by (auto simp: up_effect_def split: list.splits)
  show ?case
  proof (cases "ticks s <s wake_time s t")
    case True
    then show ?thesis
      using th wt by (simp add: timer_ticks_def)
  next
    case False
    then obtain s' where "wake_loop ts ?u = Some s'"
      "sleep_list s' = dropWhile (\<lambda>t. \<not> ticks s <s wake_time s t) ts"
      "\<And>v. sem_value (semas s' (SleepSem v)) = sem_value (semas ?u (SleepSem v))
        + of_bool (v \<in> set (takeWhile (\<lambda>t. \<not> ticks s <s wake_time s t) ts))"
      using Cons.IH [of ?u] up Cons.prems al ini by auto
    moreover have "t \<notin> set (takeWhile P ts)" for P
      using Cons.prems(4) by (auto dest: set_takeWhileD)
    ultimately show ?thesis
      using False up(1) th wt by (auto simp: timer_ticks_def)
  qed
qed auto

lemma drop_due:
  assumes "sorted_wrt R ts" and "\<And>a b. R a b \<Longrightarrow> P b \<Longrightarrow> P a"
  shows "dropWhile P ts = filter (\<lambda>t. \<not> P t) ts" and "set (takeWhile P ts) = {t \<in> set ts. P t}"
proof -
  have "dropWhile P ts = filter (\<lambda>t. \<not> P t) ts \<and> set (takeWhile P ts) = {t \<in> set ts. P t}"
    using assms(1)
  proof (induction ts)
    case (Cons a ts)
    show ?case
    proof (cases "P a")
      case False
      then have "\<forall>b \<in> set (a # ts). \<not> P b"
        using Cons.prems assms(2) by auto
      moreover from this have "filter (\<lambda>t. \<not> P t) (a # ts) = a # ts"
        by (intro filter_True) blast
      moreover have "{t \<in> set (a # ts). P t} = {}"
        using calculation(1) by blast
      ultimately show ?thesis
        using False by (simp only: dropWhile.simps takeWhile.simps if_False) simp
    qed (use Cons in auto)
  qed simp
  then show "dropWhile P ts = filter (\<lambda>t. \<not> P t) ts" "set (takeWhile P ts) = {t \<in> set ts. P t}"
    by blast+
qed

text \<open>
  The wake-up loop of the timer interrupt.  On a sleep queue in order (with wake-up times
  in the non-negative half of the 64-bit range and initialised semaphores), it ups the semaphore of every sleeper whose
  wake-up time has come, exactly once, of no other thread, and leaves exactly the others in
  the queue.
\<close>

theorem timer_wakes_due:
  assumes "queues_ok s" "running s" "\<not> intr_on s" "distinct (sleep_list s)"
    and "\<forall>t \<in> set (sleep_list s). threads s t \<noteq> None \<and> inited (semas s (SleepSem t))" and "sleep_sorted s (sleep_list s)"
    and "\<forall>t \<in> set (sleep_list s). 0 \<le>s wake_time s t" and "0 \<le>s ticks s"
  shows "\<exists>s'. wake_loop (sleep_list s) s = Some s' \<and>
     sleep_list s' = filter (\<lambda>t. ticks s < wake_time s t) (sleep_list s) \<and>
     (\<forall>t. sem_value (semas s' (SleepSem t)) = sem_value (semas s (SleepSem t))
        + of_bool (t \<in> set (sleep_list s) \<and> wake_time s t \<le> ticks s))"
proof -
  let ?P = "\<lambda>t. \<not> ticks s <s wake_time s t" and ?ts = "sleep_list s"
  have pos: "\<not> ticks s <s wake_time s t \<longleftrightarrow> wake_time s t \<le> ticks s" if "t \<in> set ?ts" for t
    using assms(7,8) that uint_eq_sint [of "wake_time s t"] uint_eq_sint [of "ticks s"]
    by (simp add: word_sless_alt word_le_def not_less)
  have "sorted_wrt (\<lambda>a b. a \<in> set ?ts \<and> b \<in> set ?ts \<and> wake_time s a \<le> wake_time s b) ?ts"
    using assms(6) by (auto simp: sleep_sorted_def intro: sorted_wrt_mono_rel [rotated])
  note dd = drop_due [OF this, of ?P]
  have "?P a" if "a \<in> set ?ts \<and> b \<in> set ?ts \<and> wake_time s a \<le> wake_time s b" "?P b" for a b
    using that pos by fastforce
  then have "dropWhile ?P ?ts = filter (\<lambda>t. \<not> ?P t) ?ts" "set (takeWhile ?P ?ts) = {t \<in> set ?ts. ?P t}"
    using dd by blast+
  moreover have "filter (\<lambda>t. \<not> ?P t) ?ts = filter (\<lambda>t. ticks s < wake_time s t) ?ts"
    using pos by (intro filter_cong) (auto simp: not_le)
  moreover have "t \<in> set ?ts \<and> ?P t \<longleftrightarrow> t \<in> set ?ts \<and> wake_time s t \<le> ticks s" for t
    using pos by blast
  ultimately show ?thesis
    using wake_loop_spec [OF assms(1-4)] assms(5) by auto
qed

section \<open>A lost wake-up\<close>

definition lost :: "addr \<Rightarrow> kstate \<Rightarrow> bool" where
  "lost t s \<longleftrightarrow> status_of s t = Some THREAD_BLOCKED \<and> in_down (code_of s t) = Some (SleepSem t) \<and>
     t \<notin> set (sleep_list s)"

lemma lost_facts:
  assumes "lost t s" "queues_ok s" "running s"
  shows "t \<noteq> cur s" "t \<noteq> idle_thread s" "status_of s t \<noteq> None" "t \<notin> set (ready_list s)"
  using waiter_facts [OF assms(2,3), of t "SleepSem t"] queues_okD(8) [OF assms(2), of t "SleepSem t"] assms(1)
  by (auto simp: lost_def)

lemma lost_switch:
  assumes "lost t s" and "t \<noteq> cur s" and "t \<noteq> idle_thread s" and "t \<notin> set (ready_list s)"
  shows "lost t (switch s)"
proof -
  have "t \<noteq> fst (next_thread_to_run s)"
    using assms(3,4) by (cases "ready_list s") (auto simp: next_thread_to_run_def)
  then show ?thesis
    using assms(1,2) by (auto simp: lost_def switch_status switch_code freed_def)
qed

lemma lost_up:
  assumes "lost t s" "queues_ok s" "x \<noteq> SleepSem t"
  shows "lost t (up_effect x s)"
proof -
  have "t \<notin> set (waiters (semas s x))"
    using assms queues_okD(8) [OF assms(2), of t x] by (auto simp: lost_def)
  then show ?thesis
    using assms(1) by (cases "waiters (semas s x)") (auto simp: lost_def up_effect_status)
qed

lemma lost_same:
  "lost t s \<Longrightarrow> status_of s' t = status_of s t \<Longrightarrow> code_of s' t = code_of s t \<Longrightarrow>
     sleep_list s' = sleep_list s \<Longrightarrow> lost t s'"
  by (simp add: lost_def)

lemma lost_sema_up:
  assumes "sema_up x u = Some s'" "queues_ok u" "\<not> in_external_intr u" "lost t u" "x \<noteq> SleepSem t"
  shows "lost t s'"
  using assms lost_up [OF assms(4,2,5)] sema_up_effect [OF assms(1,2)] by auto

lemma lost_down:
  assumes l: "lost t s" and q: "queues_ok s" and r: "running s" and x: "\<not> in_external_intr s"
    and off: "\<not> intr_on s" and idle: "cur s \<noteq> idle_thread s" and d: "down_loop y old s = Some s'"
  shows "lost t s'"
proof -
  note f = lost_facts [OF l q r]
  have "lost t (switch (blocked_state y old s))"
    using l f by (intro lost_switch) (auto simp: lost_def blocked_state_def)
  moreover have "lost t ((upd_sema y (\<lambda>q. q\<lparr>sem_value := sem_value q - 1\<rparr>) s)\<lparr>intr_on := old\<rparr>)"
    using l by (simp add: lost_def)
  ultimately show ?thesis
    using d down_loop_block [OF q r x off idle] down_loop_inited [OF d] down_loop_pass [OF x]
    by (cases "sem_value (semas s y) = 0") auto
qed

lemma insert_ordered_set [simp]: "set (insert_ordered lt e xs) = insert e (set xs)"
  by (metis insert_ordered_mset set_mset_add_mset_insert set_mset_mset)

lemma exec_lost:
  assumes l0: "lost t s" and inv: "lock_inv s" and w: "sched_wf s" and idle: "cur s \<noteq> idle_thread s"
    and code: "code_of s (cur s) = i # is" and e: "exec_call i (popped s) = Some s'"
  shows "lost t s'"
proof -
  note q = popped_queues [OF w]
  have x: "\<not> in_external_intr s" and ok: "code_ok (cur s) (i # is)"
    using w idle code by (auto simp: sched_wf_def thread_ok_def)
  have tc: "thread_current (popped s) = Some (cur s)"
    using running_facts(5) [OF q] by simp
  have l: "lost t (popped s)"
    using l0 lost_facts(1) [OF l0] w by (auto simp: lost_def sched_wf_def)
  note f = lost_facts [OF l q]
  have down: "lost t s'" if "sema_down y u = Some s'" "queues_ok u" "running u" "\<not> in_external_intr u"
      "cur u \<noteq> idle_thread u" "lost t u" for y u
  proof -
    have "queues_ok (u\<lparr>intr_on := False\<rparr>)" "running (u\<lparr>intr_on := False\<rparr>)"
      by (rule queues_ok_cong [OF that(2,3)]; simp)+
    moreover have "lost t (u\<lparr>intr_on := False\<rparr>)"
      using that by (simp add: lost_def)
    ultimately show ?thesis
      using lost_down [of t "u\<lparr>intr_on := False\<rparr>" y "intr_on u" s'] that
      by (simp add: sema_down_def intr_disable_def kernel_simps)
  qed
  show ?thesis
  proof (cases i)
    case (Sema_down y)
    then show ?thesis
      using e q x idle l by (intro down [of y "popped s"]) (auto simp: exec_call_def)
  next
    case (Sema_up y)
    then obtain a where "y = Sem a"
      using ok by auto
    then show ?thesis
      using Sema_up e q x l lost_sema_up [of y "popped s" s' t] by (simp add: exec_call_def)
  next
    case (Sema_try_down y)
    then show ?thesis
      using e x by (intro lost_same [OF l]) (auto simp: exec_call_def try_down_eval split: if_splits)
  next
    case (Lock_acquire k)
    let ?u = "push_code [Set_holder k] (popped s)"
    have "queues_ok ?u" "running ?u"
      by (rule queues_ok_cong [OF q]; simp)+
    moreover have "lost t ?u"
      using l f by (simp add: lost_def)
    ultimately show ?thesis
      using Lock_acquire e x idle
      by (intro down [of "LockSem k" ?u])
        (auto simp: exec_call_def lock_acquire_def lock_held_by_current_thread_def tc kernel_simps split: if_splits)
  next
    case (Lock_try_acquire k)
    then show ?thesis
      using e x f by (intro lost_same [OF l]) (auto simp: exec_call_def lock_try_acquire_def
          lock_held_by_current_thread_def tc kernel_simps try_down_eval split: if_splits)
  next
    case (Lock_release k)
    then show ?thesis
      using e f by (intro lost_same [OF l]) (auto simp: exec_call_def lock_release_def
          lock_held_by_current_thread_def tc kernel_simps split: if_splits)
  next
    case (Cond_wait cv k)
    then show ?thesis
      using e f by (intro lost_same [OF l]) (auto simp: exec_call_def cond_wait_def sema_init_def
          lock_held_by_current_thread_def tc kernel_simps split: if_splits)
  next
    case (Cond_signal cv k)
    show ?thesis
    proof (cases "cond_waiters s cv")
      case Nil
      then show ?thesis
        using Cond_signal e by (intro lost_same [OF l]) (auto simp: exec_call_def cond_signal_def
            lock_held_by_current_thread_def tc kernel_simps split: if_splits)
    next
      case (Cons y ys)
      let ?u = "(popped s)\<lparr>cond_waiters := (cond_waiters s)(cv := ys)\<rparr>"
      have "y \<in> set (cond_waiters s cv)"
        using Cons by simp
      then have "y \<noteq> SleepSem t"
        using inv unfolding lock_inv_def by blast
      moreover have "queues_ok ?u"
        by (rule queues_ok_cong [OF q]; simp)
      moreover have "lost t ?u"
        by (rule lost_same [OF l]) simp_all
      moreover have "sema_up y ?u = Some s'"
        using Cons e Cond_signal by (auto simp: exec_call_def cond_signal_def lock_held_by_current_thread_def tc
            kernel_simps split: if_splits)
      ultimately show ?thesis
        using lost_sema_up [of y ?u s' t] x by simp
    qed
  next
    case (Cond_broadcast cv k)
    then show ?thesis
      using e f by (intro lost_same [OF l]) (auto simp: exec_call_def cond_broadcast_def split: if_splits)
  next
    case (Thread_create page p cs)
    show ?thesis
    proof (cases "page = NULL \<or> threads (popped s) page \<noteq> None")
      case True
      then show ?thesis
        using Thread_create e by (intro lost_same [OF l]) (auto simp: exec_call_def thread_create_def)
    next
      case False
      then have pg: "t \<noteq> page" "threads s page = None"
        using f(3) by (auto simp: status_of_def popped_def upd_thread_def split: if_splits)
      then have "s' = new_thread page p cs (popped s)"
        using False e Thread_create exec_guard [OF q(2) queues_okD(1) [OF q(1)], of i] thread_create_eval [of page "popped s" p cs] x
        by (cases "call_guard i (popped s)") (auto simp: exec_call_def)
      then show ?thesis
        using pg by (intro lost_same [OF l]) (auto simp: new_thread_status)
    qed
  next
    case Thread_yield
    have "lost t (switch (yielded_state (popped s)))"
      using l f by (intro lost_switch) (auto simp: lost_def yielded_state_def)
    then show ?thesis
      using e Thread_yield yield_eval [OF q] x by (simp add: exec_call_def)
  next
    case Thread_exit
    have "lost t (switch (dying_state (popped s)))"
      using l f by (intro lost_switch) (auto simp: lost_def dying_state_def)
    then show ?thesis
      using e Thread_exit exit_eval [OF q] x idle by (simp add: exec_call_def)
  next
    case (Thread_set_priority p)
    then show ?thesis
      using e by (intro lost_same [OF l]) (auto simp: exec_call_def thread_set_priority_def tc)
  next
    case (Timer_sleep n)
    then show ?thesis
      using e l f x by (auto simp: exec_call_def timer_sleep_def tc intr_disable_def kernel_simps Let_def lost_def
          split: if_splits)
  next
    case (Down_loop y b)
    have "\<not> intr_on s"
      using w code Down_loop by (auto simp: sched_wf_def)
    then show ?thesis
      using lost_down [OF l q, of y b s'] e Down_loop x idle by (simp add: exec_call_def)
  next
    case (Set_holder k)
    then show ?thesis
      using e by (intro lost_same [OF l]) (auto simp: exec_call_def set_holder_def tc)
  next
    case (Release_up k)
    then show ?thesis
      using e q x l lost_sema_up [of "LockSem k" "popped s" s' t] by (simp add: exec_call_def)
  next
    case (Intr_set_level b)
    then show ?thesis
      using e x by (intro lost_same [OF l]) (auto simp: exec_call_def kernel_simps)
  next
    case Sleep_init
    then show ?thesis
      using e by (intro lost_same [OF l]) (auto simp: exec_call_def tc sema_init_def)
  qed (use ok in simp_all)
qed

lemma thread_step_lost:
  assumes l: "lost t s" and inv: "lock_inv s" and w: "sched_wf s" and e: "thread_step s = Some s'"
  shows "lost t s'"
proof (cases "cur s = idle_thread s")
  case True
  then have ok: "idle_ok (code_of s (cur s))"
    using w by (auto simp: sched_wf_def thread_ok_def)
  have x: "\<not> in_external_intr s" and f: "t \<noteq> cur s" "t \<notin> set (ready_list s)"
    using w lost_facts [OF l] by (auto simp: sched_wf_def)
  show ?thesis
    using ok
  proof (cases rule: idle_code_cases)
    case block
    have "lost t (switch (idle_state s))"
      using l f True by (intro lost_switch) (auto simp: lost_def idle_state_def)
    then show ?thesis
      using e idle_block_eval [OF w True block] by simp
  qed (use e x f in \<open>auto simp: thread_step_eval [OF w] next_call_def exec_call_def kernel_simps
      intro!: lost_same [OF l]\<close>)
next
  case False
  show ?thesis
  proof (cases "code_of s (cur s)")
    case Nil
    have q: "queues_ok s" "running s"
      using w by (auto simp: sched_wf_def)
    have "lost t (switch (dying_state s))"
      using l lost_facts [OF l q] by (intro lost_switch) (auto simp: lost_def dying_state_def)
    then show ?thesis
      using e exit_eval [OF q] w Nil False by (simp add: thread_step_eval sched_wf_def)
  next
    case (Cons i cs)
    then show ?thesis
      using exec_lost [OF l inv w False] e by (simp add: thread_step_eval [OF w] next_call_def)
  qed
qed

lemma wake_loop_lost:
  "wake_loop ts s = Some s' \<Longrightarrow> queues_ok s \<Longrightarrow> running s \<Longrightarrow> \<not> intr_on s \<Longrightarrow> t \<notin> set ts \<Longrightarrow> lost t s \<Longrightarrow> lost t s'"
proof (induction ts arbitrary: s)
  case (Cons v ts)
  note up = up_effect_queues [OF Cons.prems(2,3), of "SleepSem v"]
  have "sema_up (SleepSem v) s = Some s1 \<Longrightarrow> s1 = up_effect (SleepSem v) s" for s1
    using Cons.prems sema_up_effect [of "SleepSem v" s s1] by simp
  moreover have "lost t (up_effect (SleepSem v) s)"
    using lost_up [OF Cons.prems(6,2)] Cons.prems(5) by auto
  ultimately show ?case
    using Cons.prems Cons.IH [of "up_effect (SleepSem v) s"] up
    by (auto simp: bind_Some_iff lost_def split: if_splits)
qed (auto simp: lost_def)

lemma timer_interrupt_lost:
  assumes t: "timer_interrupt s = Some s'" and q: "queues_ok s" and r: "running s" and off: "\<not> intr_on s"
    and l: "lost t s"
  shows "lost t s'"
proof -
  let ?s1 = "s\<lparr>ticks := ticks s + 1\<rparr>"
  have s1: "s\<lparr>ticks := ticks s + 1, intr_on := False\<rparr> = ?s1"
    using off by auto
  obtain s2 where s2: "wake_loop (sleep_list s) ?s1 = Some s2" and tt: "thread_tick (s2\<lparr>intr_on := False\<rparr>) = Some s'"
    using t off s1 by (auto simp: timer_interrupt_def intr_disable_def Let_def bind_Some_iff kernel_simps)
  have q1: "queues_ok ?s1" "running ?s1"
    by (rule queues_ok_cong [OF q r]; simp)+
  have "lost t s2"
    using wake_loop_lost [OF s2 q1, of t] off l by (simp add: lost_def)
  moreover note f = thread_tick_frame [OF tt]
  ultimately show ?thesis
    using same_threads [OF f(1)] f(9) by (simp add: lost_def)
qed

lemma timer_irq_lost:
  assumes l: "lost t s" and w: "sched_wf s" and on: "intr_on s" and e: "timer_irq s = Some s'"
  shows "lost t s'"
  using timer_irq_cases [OF w on e]
proof cases
  case (1 v)
  have q: "queues_ok s" "running s"
    using w by (auto simp: sched_wf_def)
  have u: "queues_ok (irq_entry s)" "running (irq_entry s)"
    by (rule queues_ok_cong [OF q]; simp add: irq_entry_def)+
  have "lost t (irq_entry s)"
    using l lost_facts [OF l q] by (simp add: lost_def irq_entry_def)
  then have lv: "lost t v"
    using 1(12) timer_interrupt_lost [OF _ u] by (auto simp: irq_entry_def lost_def)
  then have "lost t (switch (yielded_state v))"
    using lost_facts [OF lv 1(1,2)] by (intro lost_switch) (auto simp: lost_def yielded_state_def)
  then show ?thesis
    using lv 1(11) by blast
qed

lemma lost_forever:
  assumes "reachable s s'" "lost t s" "sched_wf s" "lock_inv s"
  shows "lost t s'"
  using assms
proof (induction rule: reachable.induct)
  case (step s1 s2)
  then have "lost t s1" "sched_wf s1" "lock_inv s1"
    by (auto intro: reachable_wf reachable_locks)
  then show ?case
    using step.hyps(2) by (auto elim!: kstep.cases intro: thread_step_lost timer_irq_lost)
qed

lemma thread_ticks_fields [simp]:
  "thread_ticks (upd_sema x f s) = thread_ticks s" "thread_ticks (set_status t st s) = thread_ticks s"
  by (simp_all add: upd_sema_def set_status_def upd_thread_def)

lemma set_level_ticks: "intr_set_level b s = Some s' \<Longrightarrow> thread_ticks s' = thread_ticks s"
  by (cases b) (auto simp: intr_set_level_def intr_enable_def intr_disable_def kernel_simps bind_Some_iff split: if_splits)

lemma unblock_ticks: "thread_unblock t s = Some s' \<Longrightarrow> thread_ticks s' = thread_ticks s"
  by (auto simp: thread_unblock_def intr_disable_def Let_def bind_Some_iff dest!: set_level_ticks)

lemma sema_up_ticks:
  assumes "sema_up x s = Some s'"
  shows "thread_ticks s' = thread_ticks s"
proof -
  obtain u where u: "(case waiters (semas s x) of [] \<Rightarrow> Some (s\<lparr>intr_on := False\<rparr>)
      | t # ts \<Rightarrow> thread_unblock t (upd_sema x (\<lambda>q. q\<lparr>waiters := ts\<rparr>) (s\<lparr>intr_on := False\<rparr>))) = Some u"
    and s': "intr_set_level (intr_on s) (upd_sema x (\<lambda>q. q\<lparr>sem_value := sem_value q + 1\<rparr>) u) = Some s'"
    using assms by (auto simp: sema_up_def intr_disable_def bind_Some_iff)
  have "thread_ticks u = thread_ticks s"
    using u by (cases "waiters (semas s x)") (auto dest: unblock_ticks)
  then show ?thesis
    using set_level_ticks [OF s'] by simp
qed

lemma wake_loop_ticks: "wake_loop ts s = Some s' \<Longrightarrow> thread_ticks s' = thread_ticks s"
proof (induction ts arbitrary: s)
  case (Cons t ts)
  obtain th where th: "threads s t = Some th"
    using Cons.prems by (auto simp: bind_Some_iff)
  show ?case
  proof (cases "timer_ticks s <s sleep_until th")
    case True
    then show ?thesis
      using Cons.prems th by auto
  next
    case False
    then obtain u where "sema_up (SleepSem t) s = Some u" "wake_loop ts u = Some s'"
      using Cons.prems th by (auto simp: bind_Some_iff)
    then show ?thesis
      using Cons.IH [of u] sema_up_ticks [of "SleepSem t" s u] by simp
  qed
qed auto

lemma irq_entry_facts:
  assumes "sched_wf s"
  shows "queues_ok (irq_entry s)" "running (irq_entry s)" "\<not> intr_on (irq_entry s)" "in_external_intr (irq_entry s)"
    "sleep_list (irq_entry s) = sleep_list s" "ticks (irq_entry s) = ticks s" "semas (irq_entry s) = semas s"
    "wake_time (irq_entry s) u = wake_time s u" "threads (irq_entry s) u = None \<longleftrightarrow> threads s u = None"
    "thread_ticks (irq_entry s) = thread_ticks s" "\<not> yield_on_return (irq_entry s)"
    "timer_irq s = do {
       v \<leftarrow> timer_interrupt (irq_entry s);
       ASSERT (\<not> intr_on v);
       ASSERT (in_external_intr v);
       if yield_on_return v then thread_yield (v\<lparr>in_external_intr := False\<rparr>) else Some (v\<lparr>in_external_intr := False\<rparr>)
     }"
proof -
  have q: "queues_ok s" "running s" and x: "\<not> in_external_intr s"
    using assms by (auto simp: sched_wf_def)
  show "queues_ok (irq_entry s)" "running (irq_entry s)"
    by (rule queues_ok_cong [OF q]; simp add: irq_entry_def)+
  show "timer_irq s = do {
       v \<leftarrow> timer_interrupt (irq_entry s);
       ASSERT (\<not> intr_on v);
       ASSERT (in_external_intr v);
       if yield_on_return v then thread_yield (v\<lparr>in_external_intr := False\<rparr>) else Some (v\<lparr>in_external_intr := False\<rparr>)
     }"
    using x by (simp add: timer_irq_def intr_handler_def irq_entry_def kernel_simps Let_def)
qed (auto simp: irq_entry_def wake_time_def push_code_def upd_thread_def split: option.splits)

lemma wake_loop_uninit:
  assumes "threads s t = Some th" "\<not> ticks s <s wake_time s t" "\<not> inited (semas s (SleepSem t))"
  shows "wake_loop (t # ts) s = None"
proof -
  have "sema_up (SleepSem t) s = None"
    using sema_up_inited [of "SleepSem t" s] assms(3) by (cases "sema_up (SleepSem t) s") auto
  then show ?thesis
    using assms(1,2) by (simp add: timer_ticks_def wake_time_def)
qed
lemma sleep_race_irq:
  assumes w: "sched_wf s" and t: "cur s = t" and sl: "sleep_list s = t # ts" and d: "distinct (t # ts)"
    and due: "\<not> ticks s + 1 <s wake_time s t" and slice: "thread_ticks s + 1 < TIME_SLICE"
    and others: "\<forall>u \<in> set (t # ts). threads s u \<noteq> None \<and> inited (semas s (SleepSem u))"
  shows "\<exists>s1. timer_irq s = Some s1 \<and> t \<notin> set (sleep_list s1) \<and> cur s1 = t \<and> idle_thread s1 = idle_thread s \<and>
     code_of s1 t = Intr_set_level True # code_of s t"
proof -
  let ?e = "irq_entry s"
  let ?u = "?e\<lparr>ticks := ticks s + 1\<rparr>"
  note e = irq_entry_facts [OF w]
  have qu: "queues_ok ?u" "running ?u"
    by (rule queues_ok_cong [OF e(1,2)]; simp)+
  have wt: "wake_time ?u v = wake_time s v" for v
    using e(8) [of v] by (simp add: wake_time_def)
  obtain s2 where s2: "wake_loop (t # ts) ?u = Some s2"
    and sl2: "sleep_list s2 = dropWhile (\<lambda>v. \<not> ticks ?u <s wake_time ?u v) (t # ts)"
    using wake_loop_spec [OF qu, of "t # ts"] e(3,7,9) d others by auto
  have off: "\<not> intr_on ?u"
    using e(3) by simp
  note f = wake_loop_queues [OF s2 qu off]
  have off2: "s2\<lparr>intr_on := False\<rparr> = s2"
    using f(6) e(3) by simp
  have u: "?e\<lparr>ticks := ticks ?e + 1, intr_on := False\<rparr> = ?u"
    using e(3,6) by simp
  have tk: "thread_ticks s2 + 1 < TIME_SLICE"
    using wake_loop_ticks [OF s2] e(10) slice by simp
  have c: "thread_current s2 = Some (cur s2)"
    using running_facts(5) [OF f(1,2)] .
  obtain th where th: "threads s2 (cur s2) = Some th"
    using running_facts(1) [OF f(1,2)] by (auto simp: status_of_def)
  let ?v = "(count_tick (cur s2) th s2)\<lparr>thread_ticks := thread_ticks s2 + 1\<rparr>"
  have "thread_tick s2 = Some ?v"
    using c th tk by (simp add: thread_tick_def Let_def not_le [symmetric])
  then have "timer_interrupt ?e = Some ?v"
    using s2 e(3,5) sl u off2 by (simp add: timer_interrupt_def intr_disable_def kernel_simps Let_def del: wake_loop.simps)
  moreover have "\<not> yield_on_return ?v" "\<not> intr_on ?v" "in_external_intr ?v"
    using f(6,7,11) e(3,4,11) by (simp_all add: count_tick_def)
  ultimately have "timer_irq s = Some (?v\<lparr>in_external_intr := False\<rparr>)"
    using e(12) by simp
  moreover have "t \<notin> set (dropWhile P ts)" for P
    using d set_dropWhileD by fastforce
  then have "t \<notin> set (sleep_list s2)"
    using sl2 due by (simp add: wt)
  moreover have "cur s2 = t" "idle_thread s2 = idle_thread s" "code_of s2 t = Intr_set_level True # code_of s t"
    using f(4,5,9) t code_of_cur [OF w] by (simp_all add: irq_entry_def)
  moreover have "code_of (?v\<lparr>in_external_intr := False\<rparr>) = code_of s2"
    using same_threads [of "?v\<lparr>in_external_intr := False\<rparr>" s2] by simp
  ultimately show ?thesis
    by simp
qed

lemma sleep_init_blocks:
  assumes w: "sched_wf s" and t: "cur s = t" "t \<noteq> idle_thread s" "t \<notin> set (sleep_list s)"
    and code: "code_of s t = Intr_set_level True # Sleep_init # Sema_down (SleepSem t) # cs"
  shows "\<exists>s1 s2 s3. thread_step s = Some s1 \<and> thread_step s1 = Some s2 \<and> thread_step s2 = Some s3 \<and> lost t s3"
proof -
  have x: "\<not> in_external_intr s"
    using w by (simp add: sched_wf_def)
  let ?s1 = "(popped s)\<lparr>intr_on := True\<rparr>"
  have st1: "thread_step s = Some ?s1"
    using code t x by (simp add: thread_step_eval [OF w] next_call_def exec_call_def kernel_simps)
  then have w1: "sched_wf ?s1"
    using kstep_wf [OF w] kstep.run by blast
  have c1: "code_of ?s1 t = Sleep_init # Sema_down (SleepSem t) # cs" "cur ?s1 = t"
    using code t code_of_cur [OF w] by simp_all
  let ?s2 = "sema_init (SleepSem t) 0 (popped ?s1)"
  have "thread_current (popped ?s1) = Some t"
    using running_facts(5) [OF popped_queues [OF w1]] t by simp
  then have st2: "thread_step ?s1 = Some ?s2"
    using c1 by (simp add: thread_step_eval [OF w1] next_call_def exec_call_def)
  then have w2: "sched_wf ?s2"
    using kstep_wf [OF w1] kstep.run by blast
  have c2: "code_of ?s2 t = Sema_down (SleepSem t) # cs" "cur ?s2 = t" "semas ?s2 (SleepSem t) = \<lparr>sem_value = 0, waiters = [], inited = True\<rparr>"
    "sleep_list ?s2 = sleep_list s" "idle_thread ?s2 = idle_thread s" "\<not> in_external_intr ?s2"
    using c1 t x code_of_cur [OF w1] by (simp_all add: sema_init_def)
  let ?p = "(popped ?s2)\<lparr>intr_on := False\<rparr>"
  note q2 = popped_queues [OF w2]
  have qp: "queues_ok ?p" "running ?p"
    by (rule queues_ok_cong [OF q2]; simp)+
  let ?s3 = "switch (blocked_state (SleepSem t) (intr_on ?s2) ?p)"
  have "down_loop (SleepSem t) (intr_on ?s2) ?p = Some ?s3"
    by (rule down_loop_block [OF qp]) (use c2 t in \<open>simp_all\<close>)
  then have st3: "thread_step ?s2 = Some ?s3"
    using c2 by (simp add: thread_step_eval [OF w2] next_call_def exec_call_def sema_down_def intr_disable_def kernel_simps)
  have cp: "status_of ?p t = Some THREAD_RUNNING" "t \<notin> set (ready_list ?p)"
    using running_facts(1,3) [OF qp] c2(2) by simp_all
  let ?b = "blocked_state (SleepSem t) (intr_on ?s2) ?p"
  have b: "status_of ?b t = Some THREAD_BLOCKED" "t \<notin> set (ready_list ?b)" "sleep_list ?b = sleep_list s"
    "idle_thread ?b = idle_thread s"
    using cp c2(2,4,5) by (simp_all add: blocked_state_def)
  then have "t \<noteq> fst (next_thread_to_run ?b)"
    using t(2) by (cases "ready_list ?b") (auto simp: next_thread_to_run_def)
  then have "status_of ?s3 t = Some THREAD_BLOCKED" "in_down (code_of ?s3 t) = Some (SleepSem t)" "sleep_list ?s3 = sleep_list s"
    using b cp(1) c2(2) by (simp_all add: switch_status freed_def)
  then have "lost t ?s3"
    using t(3) by (simp add: lost_def)
  with st1 st2 st3 show ?thesis
    by blast
qed

text \<open>
  C28: \<^verbatim>\<open>timer_sleep\<close> races with the timer interrupt.  A thread has put itself into the sleep
  queue and is about to call \<^verbatim>\<open>sema_init\<close> (it stands in front of the queue, the semaphores of
  the other sleepers are initialised, and its time slice does not end now) when the timer
  interrupt arrives at which it is due.  If the thread has slept before, so that its
  semaphore still is an initialised one, the handler takes the thread off the queue and ups
  the semaphore, \<^verbatim>\<open>sema_init\<close> throws the up away, and the thread blocks in \<^verbatim>\<open>sema_down\<close>: in
  every state reachable from there it is still blocked and not in the sleep queue.  If this is
  the thread's first sleep, the semaphore still consists of zeros and the handler panics in
  \<^verbatim>\<open>sema_up\<close>.
\<close>

theorem timer_sleep_lost_wakeup:
  assumes "sched_wf s" and "lock_inv s" and "intr_on s" and "cur s = t" and "t \<noteq> idle_thread s"
    and "code_of s t = Sleep_init # Sema_down (SleepSem t) # cs"
    and "sleep_list s = t # ts" and "distinct (t # ts)"
    and "\<forall>u \<in> set ts. threads s u \<noteq> None \<and> inited (semas s (SleepSem u))"
    and "\<not> ticks s + 1 <s wake_time s t" and "thread_ticks s + 1 < TIME_SLICE"
  shows "if inited (semas s (SleepSem t))
     then \<exists>s1 s2 s3 s4. timer_irq s = Some s1 \<and> thread_step s1 = Some s2 \<and> thread_step s2 = Some s3 \<and>
       thread_step s3 = Some s4 \<and>
       (\<forall>s'. reachable s4 s' \<longrightarrow> status_of s' t = Some THREAD_BLOCKED \<and> t \<notin> set (sleep_list s'))
     else timer_irq s = None"
proof (cases "inited (semas s (SleepSem t))")
  case True
  have al: "threads s t \<noteq> None"
    using code_of_cur [OF assms(1)] assms(4) by (auto simp: status_of_def)
  then obtain s1 where s1: "timer_irq s = Some s1" "t \<notin> set (sleep_list s1)"
    "cur s1 = t" "idle_thread s1 = idle_thread s" "code_of s1 t = Intr_set_level True # code_of s t"
    using sleep_race_irq [OF assms(1,4,7,8,10,11)] assms(9) True by auto
  have w1: "sched_wf s1"
    using timer_irq_wf [OF assms(1,3) s1(1)] .
  obtain s2 s3 s4 where st: "thread_step s1 = Some s2" "thread_step s2 = Some s3" "thread_step s3 = Some s4" "lost t s4"
    using sleep_init_blocks [OF w1 s1(3) _ s1(2)] s1(4,5) assms(5,6) by auto
  have "reachable s s4"
    using s1(1) assms(3) st(1-3) by (meson reachable.intros kstep.intros)
  then have "sched_wf s4" "lock_inv s4"
    using assms(1,2) reachable_wf reachable_locks by blast+
  then have "\<forall>s'. reachable s4 s' \<longrightarrow> status_of s' t = Some THREAD_BLOCKED \<and> t \<notin> set (sleep_list s')"
    using lost_forever [OF _ st(4)] by (auto simp: lost_def)
  then show ?thesis
    using True s1(1) st(1-3) by auto
next
  case False
  note e = irq_entry_facts [OF assms(1)]
  obtain th where "threads (irq_entry s) t = Some th"
    using code_of_cur [OF assms(1)] assms(4) e(9) [of t] by (auto simp: status_of_def)
  moreover have "wake_time ((irq_entry s)\<lparr>ticks := ticks s + 1, intr_on := False\<rparr>) t = wake_time s t"
    using e(8) [of t] by (simp add: wake_time_def)
  ultimately have "wake_loop (t # ts) ((irq_entry s)\<lparr>ticks := ticks s + 1, intr_on := False\<rparr>) = None"
    using assms(10) False e(7) by (intro wake_loop_uninit [of _ t th]) simp_all
  then show ?thesis
    using False e(5,6,12) assms(7) by (simp add: timer_interrupt_def intr_disable_def Let_def del: wake_loop.simps)
qed

definition sleep_twice :: kstate where
  "sleep_twice = boot_state 0x1000 0x2000 (\<lambda>_. 0) [Timer_sleep 0, Timer_sleep 1]"

fun run_events :: "bool list \<Rightarrow> kstate \<Rightarrow> kstate kernel" where
  "run_events [] s = Some s"
| "run_events (irq # es) s = do {
     ASSERT (irq \<longrightarrow> intr_on s);
     s \<leftarrow> (if irq then timer_irq s else thread_step s);
     run_events es s
   }"

lemma run_events_reachable: "run_events es s = Some s' \<Longrightarrow> reachable s0 s \<Longrightarrow> reachable s0 s'"
proof (induction es arbitrary: s)
  case (Cons irq es)
  then obtain s1 where "kstep s s1" "run_events es s1 = Some s'"
    by (cases irq) (auto simp: bind_Some_iff kernel_simps intro: kstep.intros split: if_splits)
  then show ?case
    using Cons by (blast intro: reachable.step)
qed auto

lemma sleep_twice_wf: "reachable sleep_twice s \<Longrightarrow> sched_wf s" "reachable sleep_twice s \<Longrightarrow> lock_inv s"
proof -
  have "sched_wf sleep_twice" "lock_inv sleep_twice"
    unfolding sleep_twice_def by (rule boot_wf; simp) (rule boot_locks; simp)
  then show "reachable sleep_twice s \<Longrightarrow> sched_wf s" "reachable sleep_twice s \<Longrightarrow> lock_inv s"
    using reachable_wf reachable_locks by blast+
qed

lemma sleep_twice_race:
  "case run_events [False, False, False, False, True, False, False, False, False] sleep_twice of None \<Rightarrow> False
   | Some s \<Rightarrow> intr_on s \<and> cur s = 0x1000 \<and> idle_thread s = 0x2000 \<and>
       code_of s 0x1000 = [Sleep_init, Sema_down (SleepSem 0x1000)] \<and> sleep_list s = [0x1000] \<and>
       \<not> ticks s + 1 <s wake_time s 0x1000 \<and> thread_ticks s + 1 < TIME_SLICE \<and> inited (semas s (SleepSem 0x1000))"
  by code_simp

lemma sleep_first_race:
  "case run_events [False, True] (boot_state 0x1000 0x2000 (\<lambda>_. 0) [Timer_sleep 1]) of None \<Rightarrow> True | Some s \<Rightarrow> False"
  by code_simp

theorem timer_sleep_lost_wakeup_witness:
  "\<exists>s s4. run_events [False, False, False, False, True, False, False, False, False] sleep_twice = Some s \<and>
     run_events [True, False, False, False] s = Some s4 \<and>
     (\<forall>s'. reachable s4 s' \<longrightarrow> status_of s' 0x1000 = Some THREAD_BLOCKED \<and> 0x1000 \<notin> set (sleep_list s'))"
proof -
  obtain s where s: "run_events [False, False, False, False, True, False, False, False, False] sleep_twice = Some s"
    and f: "intr_on s" "cur s = 0x1000" "idle_thread s = 0x2000"
      "code_of s 0x1000 = [Sleep_init, Sema_down (SleepSem 0x1000)]" "sleep_list s = [0x1000]"
      "\<not> ticks s + 1 <s wake_time s 0x1000" "thread_ticks s + 1 < TIME_SLICE" "inited (semas s (SleepSem 0x1000))"
    using sleep_twice_race
    by (cases "run_events [False, False, False, False, True, False, False, False, False] sleep_twice") auto
  have r: "reachable sleep_twice s"
    using run_events_reachable [OF s reachable.start] .
  have "\<exists>s1 s2 s3 s4. timer_irq s = Some s1 \<and> thread_step s1 = Some s2 \<and> thread_step s2 = Some s3 \<and>
       thread_step s3 = Some s4 \<and>
       (\<forall>s'. reachable s4 s' \<longrightarrow> status_of s' 0x1000 = Some THREAD_BLOCKED \<and> 0x1000 \<notin> set (sleep_list s'))"
    using timer_sleep_lost_wakeup [OF sleep_twice_wf(1) [OF r] sleep_twice_wf(2) [OF r], of "0x1000" "[]" "[]"] f by simp
  then show ?thesis
    using s f(1) by auto
qed

theorem timer_wakes_due_witness:
  "\<exists>s'. wake_loop [0x1000] ((sema_init (SleepSem 0x1000) 0 (boot_state 0x1000 0x2000 (\<lambda>_. 0) []))
       \<lparr>intr_on := False, sleep_list := [0x1000], ticks := 5\<rparr>)
     = Some s' \<and> sleep_list s' = [] \<and> sem_value (semas s' (SleepSem 0x1000)) = 1"
proof -
  let ?b = "boot_state 0x1000 0x2000 (\<lambda>_. 0) []"
  let ?s = "(sema_init (SleepSem 0x1000) 0 ?b)\<lparr>intr_on := False, sleep_list := [0x1000], ticks := 5\<rparr>"
  have "sched_wf ?b"
    by (rule boot_wf) auto
  then have "queues_ok ?b" "running ?b"
    by (simp_all add: sched_wf_def)
  then have q: "queues_ok ?s" "running ?s"
    using queues_ok_cong [of ?b ?s] boot_waiters [of "0x1000" "0x2000" "\<lambda>_. 0" "[]"] by (simp_all add: sema_init_def)
  have w: "wake_time ?s 0x1000 = 0" "threads ?s 0x1000 \<noteq> None" "sem_value (semas ?s (SleepSem 0x1000)) = 0"
    "inited (semas ?s (SleepSem 0x1000))"
    by (simp_all add: wake_time_def boot_state_def init_thread_def sema_init_def)
  have "\<exists>s'. wake_loop (sleep_list ?s) ?s = Some s' \<and>
     sleep_list s' = filter (\<lambda>t. ticks ?s < wake_time ?s t) (sleep_list ?s) \<and>
     (\<forall>t. sem_value (semas s' (SleepSem t)) = sem_value (semas ?s (SleepSem t))
        + of_bool (t \<in> set (sleep_list ?s) \<and> wake_time ?s t \<le> ticks ?s))"
    using w by (intro timer_wakes_due [OF q]) (simp_all add: sleep_sorted_def word_sle_eq)
  then obtain s' where "wake_loop [0x1000] ?s = Some s'"
    and "sleep_list s' = filter (\<lambda>t. ticks ?s < wake_time ?s t) [0x1000]"
    and "\<forall>t. sem_value (semas s' (SleepSem t)) = sem_value (semas ?s (SleepSem t))
        + of_bool (t \<in> {0x1000} \<and> wake_time ?s t \<le> ticks ?s)"
    by (auto simp del: wake_loop.simps)
  then show ?thesis
    using w(1,3) by (intro exI [of _ s']) (simp del: wake_loop.simps)
qed

end
