(* ===== verification/Disk.thy ===== *)
theory Disk
  imports Pintos_Prelude
begin

text \<open>
  The disk as the file system uses it (\<^verbatim>\<open>devices/disk.c\<close>): an array of sectors of 512 bytes.
  \<^verbatim>\<open>disk_read\<close> and \<^verbatim>\<open>disk_write\<close> are atomic here; the ATA protocol below them is not
  modelled.  The lemmas treat a run of sectors as one sequence of bytes.  The layout of
  32-bit fields in memory is little endian.
\<close>

section \<open>Integers of the C code\<close>

definition c_div :: "int \<Rightarrow> int \<Rightarrow> int" where
  "c_div a b = sgn a * sgn b * (\<bar>a\<bar> div \<bar>b\<bar>)"

definition c_mod :: "int \<Rightarrow> int \<Rightarrow> int" where
  "c_mod a b = a - c_div a b * b"

section \<open>Sectors\<close>

type_synonym byte = u8
type_synonym disk = "byte list list"

definition DISK_SECTOR_SIZE :: int where
  "DISK_SECTOR_SIZE = 512"

definition disk_size :: "disk \<Rightarrow> u32" where
  "disk_size d = of_nat (length d)"

definition disk_read :: "disk \<Rightarrow> u32 \<Rightarrow> byte list kernel" where
  "disk_read d sec_no = do { ASSERT (unat sec_no < length d); Some (d ! unat sec_no) }"

definition disk_write :: "disk \<Rightarrow> u32 \<Rightarrow> byte list \<Rightarrow> disk kernel" where
  "disk_write d sec_no buf = do { ASSERT (unat sec_no < length d); Some (d[unat sec_no := buf]) }"

definition disk_ok :: "disk \<Rightarrow> bool" where
  "disk_ok d \<longleftrightarrow> (\<forall>s \<in> set d. length s = 512) \<and> length d < 2 ^ 32"

section \<open>Little-endian fields\<close>

definition u32_bytes :: "u32 \<Rightarrow> byte list" where
  "u32_bytes w = [ucast w, ucast (drop_bit 8 w), ucast (drop_bit 16 w), ucast (drop_bit 24 w)]"

fun bytes_u32 :: "byte list \<Rightarrow> u32" where
  "bytes_u32 (a # b # c # d # _) =
     ucast a OR push_bit 8 (ucast b) OR push_bit 16 (ucast c) OR push_bit 24 (ucast d)"
| "bytes_u32 _ = 0"

lemma bytes_u32_bytes [simp]: "bytes_u32 (u32_bytes w @ xs) = w"
proof -
  have "bit (bytes_u32 (u32_bytes w @ xs)) n \<longleftrightarrow> bit w n" if "n < 32" for n
    using that by (cases "24 \<le> n"; cases "16 \<le> n") (auto simp: u32_bytes_def bit_simps)
  then show ?thesis
    by (intro bit_word_eqI) simp
qed

lemma length_u32_bytes [simp]: "length (u32_bytes w) = 4"
  by (simp add: u32_bytes_def)

lemma c_div_nonneg: "0 \<le> a \<Longrightarrow> 0 < b \<Longrightarrow> c_div a b = a div b"
  by (cases "a = 0") (simp_all add: c_div_def)

lemma c_mod_nonneg: "0 \<le> a \<Longrightarrow> 0 < b \<Longrightarrow> c_mod a b = a mod b"
  by (simp add: c_mod_def c_div_nonneg minus_div_mult_eq_mod)

section \<open>A run of equally long blocks\<close>

lemma concat_drop:
  "\<forall>b \<in> set bs. length b = n \<Longrightarrow> drop (n * k) (concat bs) = concat (drop k bs)"
proof (induction bs arbitrary: k)
  case (Cons b bs)
  then show ?case
    by (cases k) auto
qed simp

lemma concat_length: "\<forall>b \<in> set bs. length b = n \<Longrightarrow> length (concat bs) = n * length bs"
  by (induction bs) auto

lemma concat_slice:
  assumes "\<forall>b \<in> set bs. length b = n" and "k < length bs" and "off + c \<le> n"
  shows "take c (drop (n * k + off) (concat bs)) = take c (drop off (bs ! k))"
proof -
  have "drop (n * k + off) (concat bs) = drop off (concat (drop k bs))"
    using concat_drop [OF assms(1), of k] by (simp add: drop_drop [symmetric] add.commute)
  also have "concat (drop k bs) = bs ! k @ concat (drop (Suc k) bs)"
    using assms(2) by (simp add: Cons_nth_drop_Suc [symmetric])
  finally show ?thesis
    using assms by simp
qed

lemma concat_update:
  assumes len: "\<forall>b \<in> set bs. length b = n" and k: "k < length bs" and c: "off + length w \<le> n"
  shows "concat (bs[k := take off (bs ! k) @ w @ drop (off + length w) (bs ! k)])
    = take (n * k + off) (concat bs) @ w @ drop (n * k + off + length w) (concat bs)"
proof -
  let ?A = "concat (take k bs)" and ?b = "bs ! k" and ?C = "concat (drop (Suc k) bs)"
  have b: "length ?b = n" and A: "length ?A = n * k"
    using len k concat_length [of "take k bs" n] by (auto dest: in_set_takeD)
  have "concat bs = ?A @ ?b @ ?C"
    using k by (metis append_take_drop_id concat.simps(2) concat_append Cons_nth_drop_Suc)
  moreover have "concat (bs[k := x]) = ?A @ x @ ?C" for x
    using k by (simp add: upd_conv_take_nth_drop)
  ultimately show ?thesis
    using A b c by simp
qed

end
