(* ===== verification/Inode.thy ===== *)
theory Inode
  imports Disk Klist Bitmap
begin

text \<open>
  \<^verbatim>\<open>filesys/inode.c\<close>: files as runs of consecutive sectors.  The state of the file system
  is one record: the disk, the in-memory inodes, open files and directories by address, the list of open
  inodes, the free map with its file, and the results of the calls of \<^verbatim>\<open>malloc\<close> and
  \<^verbatim>\<open>calloc\<close> to come (\<open>mallocs\<close>, a sequence; \<^term>\<open>None\<close> is a failed allocation).  An
  \<^verbatim>\<open>off_t\<close> is an integer.  Reading and writing are shown to be reading and writing of the
  file's contents as a sequence of bytes.
\<close>

section \<open>State\<close>

type_synonym heap_results = "nat \<Rightarrow> addr option"

record inode_disk =
  start :: u32
  len :: int
  magic :: u32

record inode =
  sector :: u32
  open_cnt :: int
  removed :: bool
  deny_write_cnt :: int
  data :: inode_disk

record open_file =
  f_inode :: addr
  pos :: int
  deny_write :: bool

record dir =
  d_inode :: addr
  d_pos :: int

record fs =
  dsk :: disk
  inodes :: "addr \<Rightarrow> inode option"
  open_inodes :: "addr list"
  files :: "addr \<Rightarrow> open_file option"
  dirs :: "addr \<Rightarrow> dir option"
  free_map :: bitmap
  free_map_file :: addr
  mallocs :: heap_results

definition INODE_MAGIC :: u32 where
  "INODE_MAGIC = 0x494e4f44"

definition malloc :: "heap_results \<Rightarrow> addr option \<times> heap_results" where
  "malloc mem = (mem 0, \<lambda>n. mem (Suc n))"

definition inode_disk_bytes :: "inode_disk \<Rightarrow> byte list" where
  "inode_disk_bytes i = u32_bytes (start i) @ u32_bytes (word_of_int (len i)) @ u32_bytes (magic i) @ replicate 500 0"

definition bytes_inode_disk :: "byte list \<Rightarrow> inode_disk" where
  "bytes_inode_disk bs = \<lparr>start = bytes_u32 bs, len = sint (bytes_u32 (drop 4 bs)), magic = bytes_u32 (drop 8 bs)\<rparr>"

section \<open>Reading and writing\<close>

text \<open>
  \<^verbatim>\<open>off_t\<close> is \<^verbatim>\<open>int32_t\<close>, so the sum that \<^verbatim>\<open>DIV_ROUND_UP\<close> forms is an \<^verbatim>\<open>int\<close>:
  it wraps for the 511 largest sizes, and the division of the negative sum truncates towards zero.
\<close>

definition off_t :: "int \<Rightarrow> int" where
  "off_t n = signed_take_bit 31 n"

definition bytes_to_sectors :: "int \<Rightarrow> size_t" where
  "bytes_to_sectors sz = word_of_int (c_div (off_t (sz + DISK_SECTOR_SIZE - 1)) DISK_SECTOR_SIZE)"

definition byte_to_sector :: "inode \<Rightarrow> int \<Rightarrow> u32" where
  "byte_to_sector ip p =
     (if p < len (data ip) then start (data ip) + word_of_int (c_div p DISK_SECTOR_SIZE) else - 1)"

definition inode_length :: "inode \<Rightarrow> int" where
  "inode_length ip = len (data ip)"

definition sector_ofs :: "int \<Rightarrow> int" where
  "sector_ofs offset = c_mod offset DISK_SECTOR_SIZE"

definition chunk_size :: "inode \<Rightarrow> int \<Rightarrow> int \<Rightarrow> int" where
  "chunk_size ip sz offset =
     (let inode_left = inode_length ip - offset;
          sector_left = DISK_SECTOR_SIZE - sector_ofs offset;
          min_left = (if inode_left < sector_left then inode_left else sector_left)
      in if sz < min_left then sz else min_left)"

function read_loop :: "disk \<Rightarrow> inode \<Rightarrow> heap_results \<Rightarrow> bool \<Rightarrow> int \<Rightarrow> int \<Rightarrow> byte list \<Rightarrow>
    (byte list \<times> heap_results) kernel" where
  "read_loop d ip mem bounce sz offset buf =
     (if \<not> 0 < sz \<or> chunk_size ip sz offset \<le> 0 then Some (buf, mem)
      else let chunk = chunk_size ip sz offset; ofs = sector_ofs offset in
        if ofs = 0 \<and> chunk = DISK_SECTOR_SIZE
        then do {
          s \<leftarrow> disk_read d (byte_to_sector ip offset);
          read_loop d ip mem bounce (sz - chunk) (offset + chunk) (buf @ s)
        }
        else if \<not> bounce \<and> fst (malloc mem) = None then Some (buf, snd (malloc mem))
        else do {
          s \<leftarrow> disk_read d (byte_to_sector ip offset);
          read_loop d ip (if bounce then mem else snd (malloc mem)) True (sz - chunk) (offset + chunk)
            (buf @ take (nat chunk) (drop (nat ofs) s))
        })"
  by pat_completeness auto
termination
  by (relation "measure (\<lambda>(d, ip, mem, bounce, sz, offset, buf). nat sz)") (auto simp: Let_def)

declare read_loop.simps [simp del]

definition inode_read_at :: "fs \<Rightarrow> addr \<Rightarrow> int \<Rightarrow> int \<Rightarrow> (byte list \<times> fs) kernel" where
  "inode_read_at s a sz offset = do {
     ip \<leftarrow> inodes s a;
     (buf, mem) \<leftarrow> read_loop (dsk s) ip (mallocs s) False sz offset [];
     Some (buf, s\<lparr>mallocs := mem\<rparr>)
   }"

function write_loop :: "disk \<Rightarrow> inode \<Rightarrow> heap_results \<Rightarrow> bool \<Rightarrow> byte list \<Rightarrow> int \<Rightarrow> int \<Rightarrow> int \<Rightarrow>
    (int \<times> disk \<times> heap_results) kernel" where
  "write_loop d ip mem bounce buf sz offset written =
     (if \<not> 0 < sz \<or> chunk_size ip sz offset \<le> 0 then Some (written, d, mem)
      else let chunk = chunk_size ip sz offset; ofs = sector_ofs offset; sector_left = DISK_SECTOR_SIZE - ofs;
               src = take (nat chunk) (drop (nat written) buf) in
        if ofs = 0 \<and> chunk = DISK_SECTOR_SIZE
        then do {
          ASSERT (length src = nat chunk);
          d \<leftarrow> disk_write d (byte_to_sector ip offset) src;
          write_loop d ip mem bounce buf (sz - chunk) (offset + chunk) (written + chunk)
        }
        else if \<not> bounce \<and> fst (malloc mem) = None then Some (written, d, snd (malloc mem))
        else do {
          bnc \<leftarrow> (if 0 < ofs \<or> chunk < sector_left then disk_read d (byte_to_sector ip offset)
                 else Some (replicate 512 0));
          ASSERT (length src = nat chunk);
          d \<leftarrow> disk_write d (byte_to_sector ip offset)
                 (take (nat ofs) bnc @ src @ drop (nat ofs + nat chunk) bnc);
          write_loop d ip (if bounce then mem else snd (malloc mem)) True buf (sz - chunk)
            (offset + chunk) (written + chunk)
        })"
  by pat_completeness auto
termination
  by (relation "measure (\<lambda>(d, ip, mem, bounce, buf, sz, offset, written). nat sz)") (auto simp: Let_def)

declare write_loop.simps [simp del]

definition inode_write_at :: "fs \<Rightarrow> addr \<Rightarrow> byte list \<Rightarrow> int \<Rightarrow> int \<Rightarrow> (int \<times> fs) kernel" where
  "inode_write_at s a buf sz offset = do {
     ip \<leftarrow> inodes s a;
     if deny_write_cnt ip \<noteq> 0 then Some (0, s)
     else do {
       (n, d, mem) \<leftarrow> write_loop (dsk s) ip (mallocs s) False buf sz offset 0;
       Some (n, s\<lparr>dsk := d, mallocs := mem\<rparr>)
     }
   }"

section \<open>Other operations on open inodes\<close>

definition upd_inode :: "addr \<Rightarrow> (inode \<Rightarrow> inode) \<Rightarrow> fs \<Rightarrow> fs kernel" where
  "upd_inode a f s = do { ip \<leftarrow> inodes s a; Some (s\<lparr>inodes := (inodes s)(a \<mapsto> f ip)\<rparr>) }"

definition inode_reopen :: "fs \<Rightarrow> addr \<Rightarrow> (addr \<times> fs) kernel" where
  "inode_reopen s a =
     (if a \<noteq> NULL
      then do {
        ip \<leftarrow> inodes s a;
        ASSERT (open_cnt ip \<noteq> 0);
        s \<leftarrow> upd_inode a (\<lambda>ip. ip\<lparr>open_cnt := open_cnt ip + 1\<rparr>) s;
        Some (a, s)
      }
      else Some (a, s))"

fun find_inode :: "fs \<Rightarrow> u32 \<Rightarrow> addr list \<Rightarrow> addr option kernel" where
  "find_inode s sec [] = Some None"
| "find_inode s sec (a # as) = do {
     ip \<leftarrow> inodes s a;
     if sector ip = sec then Some (Some a) else find_inode s sec as
   }"

definition inode_open :: "fs \<Rightarrow> u32 \<Rightarrow> (addr \<times> fs) kernel" where
  "inode_open s sec = do {
     found \<leftarrow> find_inode s sec (open_inodes s);
     case found of
       Some a \<Rightarrow> do { (_, s) \<leftarrow> inode_reopen s a; Some (a, s) }
     | None \<Rightarrow>
         let (m, mem) = malloc (mallocs s); s = s\<lparr>mallocs := mem\<rparr> in
         (case m of
            None \<Rightarrow> Some (NULL, s)
          | Some a \<Rightarrow> do {
              bs \<leftarrow> disk_read (dsk s) sec;
              let ip = \<lparr>sector = sec, open_cnt = 1, removed = False, deny_write_cnt = 0,
                        data = bytes_inode_disk bs\<rparr>;
              Some (a, s\<lparr>inodes := (inodes s)(a \<mapsto> ip), open_inodes := a # open_inodes s\<rparr>)
            })
   }"

definition inode_get_inumber :: "fs \<Rightarrow> addr \<Rightarrow> u32 kernel" where
  "inode_get_inumber s a = map_option sector (inodes s a)"

definition inode_remove :: "fs \<Rightarrow> addr \<Rightarrow> fs kernel" where
  "inode_remove s a = do { ASSERT (a \<noteq> NULL); upd_inode a (\<lambda>ip. ip\<lparr>removed := True\<rparr>) s }"

definition inode_deny_write :: "fs \<Rightarrow> addr \<Rightarrow> fs kernel" where
  "inode_deny_write s a = do {
     ip \<leftarrow> inodes s a;
     ASSERT (deny_write_cnt ip + 1 \<le> open_cnt ip);
     upd_inode a (\<lambda>ip. ip\<lparr>deny_write_cnt := deny_write_cnt ip + 1\<rparr>) s
   }"

definition inode_allow_write :: "fs \<Rightarrow> addr \<Rightarrow> fs kernel" where
  "inode_allow_write s a = do {
     ip \<leftarrow> inodes s a;
     ASSERT (0 < deny_write_cnt ip);
     ASSERT (deny_write_cnt ip \<le> open_cnt ip);
     upd_inode a (\<lambda>ip. ip\<lparr>deny_write_cnt := deny_write_cnt ip - 1\<rparr>) s
   }"

section \<open>Contents\<close>

definition sectors_of :: "inode \<Rightarrow> nat" where
  "sectors_of ip = nat ((len (data ip) + 511) div 512)"

definition blocks :: "disk \<Rightarrow> inode \<Rightarrow> byte list list" where
  "blocks d ip = take (sectors_of ip) (drop (unat (start (data ip))) d)"

definition contents :: "disk \<Rightarrow> inode \<Rightarrow> byte list" where
  "contents d ip = take (nat (len (data ip))) (concat (blocks d ip))"

definition inode_ok :: "disk \<Rightarrow> inode \<Rightarrow> bool" where
  "inode_ok d ip \<longleftrightarrow> disk_ok d \<and> 0 \<le> len (data ip) \<and> unat (start (data ip)) + sectors_of ip \<le> length d"

lemma bytes_inode_disk_bytes:
  assumes "- (2 ^ 31) \<le> len i" "len i < 2 ^ 31"
  shows "bytes_inode_disk (inode_disk_bytes i) = i"
proof -
  have "drop 4 (inode_disk_bytes i) = u32_bytes (word_of_int (len i)) @ u32_bytes (magic i) @ replicate 500 0"
    "drop 8 (inode_disk_bytes i) = u32_bytes (magic i) @ replicate 500 0"
    by (simp_all add: inode_disk_bytes_def)
  moreover have "sint (word_of_int (len i) :: u32) = len i"
    using assms by (simp add: signed_of_int signed_take_bit_int_eq_self)
  ultimately show ?thesis
    by (simp add: bytes_inode_disk_def) (simp add: inode_disk_bytes_def)
qed

lemma inode_disk_bytes_length [simp]: "length (inode_disk_bytes i) = 512"
  by (simp add: inode_disk_bytes_def)

lemma blocks_ok:
  assumes "inode_ok d ip"
  shows "\<forall>b \<in> set (blocks d ip). length b = 512" and "length (blocks d ip) = sectors_of ip"
    and "length (concat (blocks d ip)) = 512 * sectors_of ip"
    and "nat (len (data ip)) \<le> 512 * sectors_of ip"
proof -
  show *: "\<forall>b \<in> set (blocks d ip). length b = 512" and l: "length (blocks d ip) = sectors_of ip"
    using assms by (auto simp: inode_ok_def disk_ok_def blocks_def dest!: in_set_takeD in_set_dropD)
  then show "length (concat (blocks d ip)) = 512 * sectors_of ip"
    using concat_length by metis
  show "nat (len (data ip)) \<le> 512 * sectors_of ip"
    using assms by (simp add: inode_ok_def sectors_of_def)
qed

lemma contents_length: "inode_ok d ip \<Longrightarrow> length (contents d ip) = nat (len (data ip))"
  using blocks_ok(3,4) [of d ip] by (simp add: contents_def)

section \<open>Reading is reading the contents\<close>

lemma chunk_facts:
  assumes "0 \<le> offset" and "0 < sz"
  shows "sector_ofs offset = offset mod 512"
    and "chunk_size ip sz offset \<le> 0 \<longleftrightarrow> len (data ip) \<le> offset"
    and "chunk_size ip sz offset \<le> sz" and "chunk_size ip sz offset \<le> len (data ip) - offset"
    and "offset mod 512 + chunk_size ip sz offset \<le> 512"
    and "chunk_size ip sz offset = min sz (min (len (data ip) - offset) (512 - offset mod 512))"
proof -
  show ofs: "sector_ofs offset = offset mod 512"
    using assms by (simp add: sector_ofs_def DISK_SECTOR_SIZE_def c_mod_nonneg)
  show c: "chunk_size ip sz offset = min sz (min (len (data ip) - offset) (512 - offset mod 512))"
    by (simp add: chunk_size_def inode_length_def ofs DISK_SECTOR_SIZE_def min_def Let_def)
  have "offset mod 512 < 512" "0 \<le> offset mod 512"
    by simp_all
  then show "chunk_size ip sz offset \<le> 0 \<longleftrightarrow> len (data ip) \<le> offset"
    "chunk_size ip sz offset \<le> sz" "chunk_size ip sz offset \<le> len (data ip) - offset"
    "offset mod 512 + chunk_size ip sz offset \<le> 512"
    unfolding c using assms by linarith+
qed

lemma sector_facts:
  assumes ok: "inode_ok d ip" and "0 \<le> offset" and "offset < len (data ip)"
  shows "nat (offset div 512) < sectors_of ip"
    and "unat (byte_to_sector ip offset) = unat (start (data ip)) + nat (offset div 512)"
    and "disk_read d (byte_to_sector ip offset) = Some (blocks d ip ! nat (offset div 512))"
    and "nat offset = 512 * nat (offset div 512) + nat (offset mod 512)"
proof -
  have "offset div 512 \<le> (len (data ip) - 1) div 512"
    using assms by (intro zdiv_mono1) auto
  moreover have "(len (data ip) - 1 + 512) div 512 = (len (data ip) - 1) div 512 + 1"
    by (rule div_add_self2) simp
  ultimately show k: "nat (offset div 512) < sectors_of ip"
    using assms by (simp add: sectors_of_def algebra_simps)
  let ?w = "word_of_int (offset div 512) :: u32"
  have b: "unat (start (data ip)) + nat (offset div 512) < length d" "length d < 2 ^ 32"
    using ok k by (auto simp: inode_ok_def disk_ok_def)
  have "?w = of_nat (nat (offset div 512))"
    using assms(2) by (simp only: of_nat_nat pos_imp_zdiv_nonneg_iff zero_less_numeral)
  moreover have "unat (of_nat (nat (offset div 512)) :: u32) = nat (offset div 512)"
    using b by (intro unat_of_nat_small) simp
  ultimately have w: "unat ?w = nat (offset div 512)"
    by simp
  show u: "unat (byte_to_sector ip offset) = unat (start (data ip)) + nat (offset div 512)"
  proof -
    have "byte_to_sector ip offset = start (data ip) + ?w"
      using assms by (simp add: byte_to_sector_def DISK_SECTOR_SIZE_def c_div_nonneg)
    then show ?thesis
      using unat_add_small [of "start (data ip)" ?w] b w by simp
  qed
  show "disk_read d (byte_to_sector ip offset) = Some (blocks d ip ! nat (offset div 512))"
    using u b(1) k by (simp add: disk_read_def kernel_simps blocks_def)
  have "offset = 512 * (offset div 512) + offset mod 512" "0 \<le> offset div 512" "0 \<le> offset mod 512"
    using assms(2) by simp_all
  then show "nat offset = 512 * nat (offset div 512) + nat (offset mod 512)"
    by linarith
qed

lemma contents_slice:
  assumes ok: "inode_ok d ip" and "0 \<le> offset" "0 < c" "offset mod 512 + c \<le> 512" "c \<le> len (data ip) - offset"
  shows "take (nat c) (drop (nat (offset mod 512)) (blocks d ip ! nat (offset div 512)))
    = take (nat c) (drop (nat offset) (contents d ip))"
proof -
  note f = sector_facts [OF ok assms(2)]
  have lt: "offset < len (data ip)"
    using assms by simp
  have "take (nat c) (drop (nat offset) (concat (blocks d ip)))
      = take (nat c) (drop (nat (offset mod 512)) (blocks d ip ! nat (offset div 512)))"
    unfolding f(4) [OF lt] using blocks_ok [OF ok] f(1) [OF lt] assms
    by (intro concat_slice) (auto simp: nat_add_distrib [symmetric])
  moreover have "min (nat c) (nat (len (data ip)) - nat offset) = nat c"
    using assms by (simp add: min_def nat_diff_distrib [symmetric])
  ultimately show ?thesis
    by (simp add: contents_def drop_take min.commute)
qed

definition can_bounce :: "bool \<Rightarrow> heap_results \<Rightarrow> bool" where
  "can_bounce bounce mem \<longleftrightarrow> bounce \<or> fst (malloc mem) \<noteq> None"

lemma read_loop_spec:
  assumes ok: "inode_ok d ip"
  shows "0 \<le> offset \<Longrightarrow> can_bounce bounce mem \<Longrightarrow>
    \<exists>mem'. read_loop d ip mem bounce sz offset buf
      = Some (buf @ take (nat sz) (drop (nat offset) (contents d ip)), mem')"
proof (induction "nat sz" arbitrary: mem bounce sz offset buf rule: less_induct)
  case less
  let ?c = "chunk_size ip sz offset" and ?C = "contents d ip"
  show ?case
  proof (cases "0 < sz \<and> offset < len (data ip)")
    case False
    have "take (nat sz) (drop (nat offset) ?C) = []"
      using False contents_length [OF ok] less.prems by auto
    then show ?thesis
      using False chunk_facts(2) [OF less.prems(1)] by (subst read_loop.simps) auto
  next
    case True
    then have "0 < sz"
      by blast
    note cf = chunk_facts [OF less.prems(1) this]
    have pos: "0 < ?c"
      using cf(2) [of ip] True by auto
    have rd: "disk_read d (byte_to_sector ip offset) = Some (blocks d ip ! nat (offset div 512))"
      using sector_facts(3) [OF ok less.prems(1)] True by blast
    have sl: "take (nat ?c) (drop (nat (offset mod 512)) (blocks d ip ! nat (offset div 512)))
        = take (nat ?c) (drop (nat offset) ?C)"
      using contents_slice [OF ok less.prems(1) pos] cf(4,5) [of ip] by simp
    have full: "blocks d ip ! nat (offset div 512) = take (nat ?c) (drop (nat offset) ?C)"
      if "sector_ofs offset = 0" "?c = 512"
    proof -
      have "length (blocks d ip ! nat (offset div 512)) = 512"
        using blocks_ok(1,2) [OF ok] sector_facts(1) [OF ok less.prems(1)] True by simp
      then show ?thesis
        using sl that cf(1) True by simp
    qed
    have sp: "take (nat sz) (drop (nat offset) ?C) = take (nat ?c) (drop (nat offset) ?C)
        @ take (nat (sz - ?c)) (drop (nat (offset + ?c)) ?C)"
    proof -
      have "nat sz = nat ?c + nat (sz - ?c)" "nat (offset + ?c) = nat ?c + nat offset"
        using pos cf(3) [of ip] True less.prems(1) by (simp_all add: nat_add_distrib [symmetric])
      then show ?thesis
        by (simp add: take_add)
    qed
    have IH: "\<exists>mem'. read_loop d ip m b (sz - ?c) (offset + ?c) bf
        = Some (bf @ take (nat (sz - ?c)) (drop (nat (offset + ?c)) ?C), mem')" if "can_bounce b m" for b m bf
      using less.hyps [of "sz - ?c" "offset + ?c" b m bf] that pos cf(3) [of ip] True less.prems(1) by auto
    show ?thesis
    proof (cases "sector_ofs offset = 0 \<and> ?c = DISK_SECTOR_SIZE")
      case fs: True
      then show ?thesis
        using True pos rd full IH [OF less.prems(2), of "buf @ take (nat ?c) (drop (nat offset) ?C)"]
        by (subst read_loop.simps) (simp add: sp DISK_SECTOR_SIZE_def)
    next
      case ps: False
      have "can_bounce True m" for m
        by (simp add: can_bounce_def)
      then obtain m' where "read_loop d ip (if bounce then mem else snd (malloc mem)) True (sz - ?c) (offset + ?c)
          (buf @ take (nat ?c) (drop (nat offset) ?C))
        = Some ((buf @ take (nat ?c) (drop (nat offset) ?C)) @ take (nat (sz - ?c)) (drop (nat (offset + ?c)) ?C), m')"
        using IH by blast
      moreover have "read_loop d ip mem bounce sz offset buf = read_loop d ip (if bounce then mem else snd (malloc mem)) True
          (sz - ?c) (offset + ?c) (buf @ take (nat ?c) (drop (nat offset) ?C))"
        using True pos rd sl ps less.prems(2) cf(1)
        by (subst read_loop.simps) (auto simp: can_bounce_def Let_def)
      ultimately show ?thesis
        by (simp add: sp)
    qed
  qed
qed

section \<open>Writing is overwriting the contents\<close>

definition untouched :: "disk \<Rightarrow> disk \<Rightarrow> inode \<Rightarrow> bool" where
  "untouched d d' ip \<longleftrightarrow> length d' = length d \<and>
     (\<forall>i < length d. i < unat (start (data ip)) \<or> unat (start (data ip)) + sectors_of ip \<le> i \<longrightarrow> d' ! i = d ! i)"

lemma untouched_refl [simp]: "untouched d d ip"
  by (simp add: untouched_def)

lemma untouched_trans: "untouched d d' ip \<Longrightarrow> untouched d' d'' ip \<Longrightarrow> untouched d d'' ip"
  by (simp add: untouched_def)

lemma write_sector:
  assumes ok: "inode_ok d ip" and o: "0 \<le> offset" and w: "w \<noteq> []" "offset mod 512 + int (length w) \<le> 512"
      "offset + int (length w) \<le> len (data ip)"
    and b: "b = blocks d ip ! nat (offset div 512)"
    and s: "s = take (nat (offset mod 512)) b @ w @ drop (nat (offset mod 512) + length w) b"
  obtains d' where "disk_write d (byte_to_sector ip offset) s = Some d'"
    and "inode_ok d' ip" and "contents d' ip = overwrite (contents d ip) (nat offset) w" and "untouched d d' ip"
proof -
  let ?k = "nat (offset div 512)" and ?st = "unat (start (data ip))"
  let ?d = "d[?st + ?k := s]"
  have lt: "offset < len (data ip)"
    using w by (cases w) auto
  note f = sector_facts [OF ok o lt]
  have in_d: "?st + ?k < length d"
    using ok f(1) by (simp add: inode_ok_def)
  have lb: "length b = 512"
    using b blocks_ok(1,2) [OF ok] f(1) by simp
  have fit: "nat (offset mod 512) + length w \<le> 512"
    using w(2) by linarith
  then have ls: "length s = 512"
    using s lb by simp
  have "disk_write d (byte_to_sector ip offset) s = Some ?d"
    using f(2) in_d by (simp add: disk_write_def kernel_simps)
  moreover have dk: "disk_ok ?d"
    using ok ls by (auto simp: inode_ok_def disk_ok_def dest: set_update_subset_insert [THEN subsetD])
  then have "inode_ok ?d ip"
    using ok by (simp add: inode_ok_def)
  moreover have "blocks ?d ip = (blocks d ip)[?k := s]"
    using f(1) by (simp add: blocks_def drop_update_swap take_update_swap)
  then have "concat (blocks ?d ip) = overwrite (concat (blocks d ip)) (nat offset) w"
    unfolding overwrite_def f(4) s b
    using concat_update [OF blocks_ok(1) [OF ok], of ?k "nat (offset mod 512)" w] fit f(1) blocks_ok(2) [OF ok] by simp
  then have "contents ?d ip = overwrite (contents d ip) (nat offset) w"
  proof -
    have "nat offset + length w \<le> nat (len (data ip))"
      using w(3) o by linarith
    then show ?thesis
      using \<open>concat (blocks ?d ip) = _\<close> blocks_ok(3,4) [OF ok] by (simp add: contents_def overwrite_take)
  qed
  moreover have "untouched d ?d ip"
    using f(1) by (auto simp: untouched_def nth_list_update)
  ultimately show ?thesis
    by (rule that)
qed

lemma write_loop_spec:
  "inode_ok d ip \<Longrightarrow> 0 \<le> offset \<Longrightarrow> can_bounce bounce mem \<Longrightarrow> 0 \<le> written \<Longrightarrow> nat written + nat sz \<le> length buf \<Longrightarrow>
    n = nat (min sz (len (data ip) - offset)) \<Longrightarrow>
    \<exists>d' mem'. write_loop d ip mem bounce buf sz offset written = Some (written + int n, d', mem') \<and>
      inode_ok d' ip \<and> untouched d d' ip \<and>
      contents d' ip = overwrite (contents d ip) (nat offset) (take n (drop (nat written) buf))"
proof (induction "nat sz" arbitrary: d mem bounce sz offset written n rule: less_induct)
  case less
  let ?c = "chunk_size ip sz offset"
  note ok = less.prems(1) and o = less.prems(2)
  show ?case
  proof (cases "0 < sz \<and> offset < len (data ip)")
    case False
    then have "n = 0"
      using less.prems(6) by auto
    then show ?thesis
      using False chunk_facts(2) [OF o] ok by (subst write_loop.simps) auto
  next
    case True
    then have sz: "0 < sz"
      by blast
    note cf = chunk_facts [OF o sz]
    have pos: "0 < ?c" "?c \<le> sz" "offset + ?c \<le> len (data ip)"
      using cf(2) [of ip] cf(3,4) [of ip] True by auto
    let ?w = "take (nat ?c) (drop (nat written) buf)"
    have lw: "length ?w = nat ?c" "int (length ?w) = ?c" "?w \<noteq> []"
      using less.prems(4,5) pos by auto
    let ?b = "blocks d ip ! nat (offset div 512)"
    obtain d1 where d1: "disk_write d (byte_to_sector ip offset)
        (take (nat (offset mod 512)) ?b @ ?w @ drop (nat (offset mod 512) + length ?w) ?b) = Some d1"
      "inode_ok d1 ip" "contents d1 ip = overwrite (contents d ip) (nat offset) ?w" "untouched d d1 ip"
      using write_sector [OF ok o lw(3), where b = ?b] lw cf(5) [of ip] pos by (metis (no_types))
    have rd: "disk_read d (byte_to_sector ip offset) = Some ?b"
      using sector_facts(3) [OF ok o] True by blast
    have lb: "length ?b = 512"
      using blocks_ok(1,2) [OF ok] sector_facts(1) [OF ok o] True by simp
    let ?n = "nat (min (sz - ?c) (len (data ip) - (offset + ?c)))"
    have n: "n = nat ?c + ?n"
      using less.prems(6) pos by linarith
    have IH: "\<exists>d' mem'. write_loop d1 ip m b buf (sz - ?c) (offset + ?c) (written + ?c) = Some (written + ?c + int ?n, d', mem') \<and>
        inode_ok d' ip \<and> untouched d1 d' ip \<and>
        contents d' ip = overwrite (contents d1 ip) (nat (offset + ?c)) (take ?n (drop (nat (written + ?c)) buf))"
      if "can_bounce b m" for b m
      using less.hyps [of "sz - ?c" d1 "offset + ?c" b m "written + ?c" ?n] that pos d1(2) o less.prems(4,5) by auto
    have go: "\<exists>d' mem'. write_loop d1 ip m b buf (sz - ?c) (offset + ?c) (written + ?c) = Some (written + int n, d', mem') \<and>
        inode_ok d' ip \<and> untouched d d' ip \<and>
        contents d' ip = overwrite (contents d ip) (nat offset) (take n (drop (nat written) buf))"
      if "can_bounce b m" for b m
    proof -
      have e: "nat (offset + ?c) = nat offset + length ?w" "nat (written + ?c) = nat ?c + nat written"
        using lw o pos less.prems(4) by simp_all
      have "nat offset + length ?w \<le> length (contents d ip)"
        using lw(1) pos o contents_length [OF ok] by simp
      then have "overwrite (contents d1 ip) (nat (offset + ?c)) (take ?n (drop (nat (written + ?c)) buf))
          = overwrite (contents d ip) (nat offset) (?w @ take ?n (drop (nat ?c + nat written) buf))"
        unfolding e d1(3) by (rule overwrite_append)
      also have "?w @ take ?n (drop (nat ?c + nat written) buf) = take n (drop (nat written) buf)"
        unfolding n by (simp add: take_add)
      finally have "overwrite (contents d1 ip) (nat (offset + ?c)) (take ?n (drop (nat (written + ?c)) buf))
          = overwrite (contents d ip) (nat offset) (take n (drop (nat written) buf))" .
      moreover have "written + ?c + int ?n = written + int n"
        using n pos by simp
      ultimately show ?thesis
        using IH [OF that] untouched_trans [OF d1(4)] by metis
    qed
    show ?thesis
    proof (cases "sector_ofs offset = 0 \<and> ?c = DISK_SECTOR_SIZE")
      case fs: True
      then have "write_loop d ip mem bounce buf sz offset written
          = write_loop d1 ip mem bounce buf (sz - ?c) (offset + ?c) (written + ?c)"
        using True pos d1(1) lw cf(1) lb
        by (subst write_loop.simps) (auto simp: Let_def kernel_simps DISK_SECTOR_SIZE_def)
      then show ?thesis
        using go [OF less.prems(3)] by simp
    next
      case ps: False
      have cb: "can_bounce True m" for m
        by (simp add: can_bounce_def)
      have rs: "0 < sector_ofs offset \<or> ?c < DISK_SECTOR_SIZE - sector_ofs offset"
        using ps cf(1) cf(5) [of ip] o by (auto simp: DISK_SECTOR_SIZE_def)
      have "write_loop d ip mem bounce buf sz offset written = write_loop d1 ip (if bounce then mem else snd (malloc mem)) True
          buf (sz - ?c) (offset + ?c) (written + ?c)"
        using True pos d1(1) lw cf(1) rd ps less.prems(3) rs
        by (subst write_loop.simps) (auto simp: Let_def kernel_simps can_bounce_def)
      then show ?thesis
        using go [OF cb] by simp
    qed
  qed
qed

section \<open>The results of malloc that remain\<close>

definition later :: "heap_results \<Rightarrow> heap_results \<Rightarrow> bool" where
  "later mem mem' \<longleftrightarrow> (\<exists>k. mem' = (\<lambda>n. mem (k + n)))"

definition plenty :: "heap_results \<Rightarrow> bool" where
  "plenty mem \<longleftrightarrow> (\<forall>n. mem n \<noteq> None)"

lemma later_refl [simp]: "later mem mem"
  by (auto simp: later_def intro: exI [of _ 0])

lemma later_malloc [simp]: "later mem (snd (malloc mem))"
  by (auto simp: later_def malloc_def intro: exI [of _ 1])

lemma later_trans: "later m m' \<Longrightarrow> later m' m'' \<Longrightarrow> later m m''"
proof -
  assume "later m m'" "later m' m''"
  then obtain j k where "m' = (\<lambda>n. m (j + n))" "m'' = (\<lambda>n. m (j + k + n))"
    by (auto simp: later_def add.assoc)
  then show ?thesis
    by (auto simp: later_def)
qed

lemma later_snd: "later (snd (malloc mem)) mem' \<Longrightarrow> later mem mem'"
  by (rule later_trans [OF later_malloc])

lemma plenty_later: "plenty mem \<Longrightarrow> later mem mem' \<Longrightarrow> plenty mem'"
  by (auto simp: plenty_def later_def)

lemma plenty_malloc: "plenty mem \<Longrightarrow> fst (malloc mem) \<noteq> None"
  by (simp add: plenty_def malloc_def)

lemma read_loop_later: "read_loop d ip mem bounce sz offset buf = Some (buf', mem') \<Longrightarrow> later mem mem'"
proof (induction "nat sz" arbitrary: mem bounce sz offset buf rule: less_induct)
  case less
  have IH: "later m mem'" if "read_loop d ip m b (sz - c) o' bf = Some (buf', mem')" "0 < sz" "\<not> c \<le> 0" for c m b o' bf
    using less.hyps [of "sz - c" m b o' bf] that by simp
  show ?case
    using less.prems by (subst (asm) read_loop.simps)
      (auto simp: Let_def bind_Some_iff split: if_splits dest: IH intro: later_snd)
qed

lemma write_loop_later: "write_loop d ip mem bounce buf sz offset n = Some (n', d', mem') \<Longrightarrow> later mem mem'"
proof (induction "nat sz" arbitrary: d mem bounce sz offset n rule: less_induct)
  case less
  have IH: "later m mem'" if "write_loop e ip m b buf (sz - c) o' k = Some (n', d', mem')" "0 < sz" "\<not> c \<le> 0"
    for c e m b o' k
    using less.hyps [of "sz - c" e m b o' k] that by simp
  show ?case
    using less.prems by (subst (asm) write_loop.simps)
      (auto simp: Let_def bind_Some_iff split: if_splits dest: IH intro: later_snd)
qed

lemma inode_write_at_later: "inode_write_at s a buf sz offset = Some (n, s') \<Longrightarrow> later (mallocs s) (mallocs s')"
  by (auto simp: inode_write_at_def bind_Some_iff split: if_splits dest: write_loop_later)

lemma inode_read_at_frame:
  assumes "inode_read_at s a sz offset = Some (bs, s')"
  obtains ip mem where "inodes s a = Some ip" and "s' = s\<lparr>mallocs := mem\<rparr>" and "later (mallocs s) mem"
    and "bs \<noteq> [] \<Longrightarrow> offset < len (data ip)"
proof -
  obtain ip mem where r: "inodes s a = Some ip" "read_loop (dsk s) ip (mallocs s) False sz offset [] = Some (bs, mem)"
    "s' = s\<lparr>mallocs := mem\<rparr>"
    using assms by (auto simp: inode_read_at_def bind_Some_iff)
  have "offset < len (data ip)" if "bs \<noteq> []"
  proof (rule ccontr)
    assume "\<not> offset < len (data ip)"
    then have "chunk_size ip sz offset \<le> 0"
      by (auto simp: chunk_size_def inode_length_def Let_def)
    then show False
      using r(2) that by (subst (asm) read_loop.simps) auto
  qed
  then show ?thesis
    using r read_loop_later that by blast
qed

lemma inode_read_at_spec:
  assumes "inodes s a = Some ip" and "inode_ok (dsk s) ip" and "0 \<le> offset" and "fst (malloc (mallocs s)) \<noteq> None"
  obtains mem where "inode_read_at s a sz offset
    = Some (take (nat sz) (drop (nat offset) (contents (dsk s) ip)), s\<lparr>mallocs := mem\<rparr>)"
  using read_loop_spec [OF assms(2,3), of False "mallocs s" sz "[]"] assms(1,4)
  by (auto simp: inode_read_at_def can_bounce_def)

lemma inode_write_at_spec:
  assumes "inodes s a = Some ip" and "inode_ok (dsk s) ip" and "0 \<le> offset" and "fst (malloc (mallocs s)) \<noteq> None"
    and "deny_write_cnt ip = 0" and "nat sz \<le> length buf" and "n = nat (min sz (len (data ip) - offset))"
  obtains d mem where "inode_write_at s a buf sz offset = Some (int n, s\<lparr>dsk := d, mallocs := mem\<rparr>)"
    and "inode_ok d ip" and "untouched (dsk s) d ip"
    and "contents d ip = overwrite (contents (dsk s) ip) (nat offset) (take n buf)"
proof -
  obtain d mem where "write_loop (dsk s) ip (mallocs s) False buf sz offset 0 = Some (0 + int n, d, mem)"
    "inode_ok d ip" "untouched (dsk s) d ip"
    "contents d ip = overwrite (contents (dsk s) ip) (nat offset) (take n (drop (nat 0) buf))"
    using write_loop_spec [OF assms(2,3), of False "mallocs s" 0 sz buf n] assms(4,6,7) by (auto simp: can_bounce_def)
  then show ?thesis
    using assms(1,5) that by (simp add: inode_write_at_def)
qed

section \<open>Properties\<close>

text \<open>
  \<^verbatim>\<open>inode_read_at\<close> on a well-formed inode, with memory for the bounce buffer, never
  panics and returns exactly the bytes of the file's contents from \<^verbatim>\<open>offset\<close> on, at most
  \<^verbatim>\<open>size\<close> of them and none beyond the end of the file; the disk is not changed.
\<close>

theorem inode_read_contents:
  assumes "inodes s a = Some ip" and "inode_ok (dsk s) ip" and "0 \<le> offset" and "fst (malloc (mallocs s)) \<noteq> None"
  shows "\<exists>mem. inode_read_at s a sz offset
    = Some (take (nat sz) (drop (nat offset) (contents (dsk s) ip)), s\<lparr>mallocs := mem\<rparr>)"
  using inode_read_at_spec [OF assms] by blast

text \<open>
  C25: \<^verbatim>\<open>inode_write_at\<close> on a well-formed inode that is not write-protected, with memory for the
  bounce buffer, returns the number of bytes that fit before the end of the file, replaces
  exactly those bytes of the file's contents, keeps the inode well formed, and changes no
  sector outside the file.
\<close>

theorem inode_write_contents:
  assumes "inodes s a = Some ip" and "inode_ok (dsk s) ip" and "0 \<le> offset" and "fst (malloc (mallocs s)) \<noteq> None"
    and "deny_write_cnt ip = 0" and "nat sz \<le> length buf" and "n = nat (min sz (len (data ip) - offset))"
  shows "\<exists>d mem. inode_write_at s a buf sz offset = Some (int n, s\<lparr>dsk := d, mallocs := mem\<rparr>) \<and>
     inode_ok d ip \<and> untouched (dsk s) d ip \<and>
     contents d ip = overwrite (contents (dsk s) ip) (nat offset) (take n buf)"
  using inode_write_at_spec [OF assms] by metis

definition fs_example :: fs where
  "fs_example = \<lparr>dsk = replicate 4 (replicate 512 7),
     inodes = [0x100 \<mapsto> \<lparr>sector = 0, open_cnt = 1, removed = False, deny_write_cnt = 0,
       data = \<lparr>start = 1, len = 600, magic = INODE_MAGIC\<rparr>\<rparr>],
     open_inodes = [0x100], files = (\<lambda>_. None), dirs = (\<lambda>_. None), free_map = \<lparr>bit_cnt = 4, bits = [7]\<rparr>, free_map_file = NULL,
     mallocs = (\<lambda>n. Some (0x200 + 0x100 * of_nat n))\<rparr>"

lemma fs_example_ok:
  "inodes fs_example 0x100 = Some \<lparr>sector = 0, open_cnt = 1, removed = False, deny_write_cnt = 0,
     data = \<lparr>start = 1, len = 600, magic = INODE_MAGIC\<rparr>\<rparr>"
  "inode_ok (dsk fs_example) \<lparr>sector = 0, open_cnt = 1, removed = False, deny_write_cnt = 0,
     data = \<lparr>start = 1, len = 600, magic = INODE_MAGIC\<rparr>\<rparr>"
  "fst (malloc (mallocs fs_example)) \<noteq> None"
  by (auto simp: fs_example_def inode_ok_def disk_ok_def sectors_of_def malloc_def)

theorem inode_read_contents_witness:
  "\<exists>bs mem. inode_read_at fs_example 0x100 100 550 = Some (bs, fs_example\<lparr>mallocs := mem\<rparr>) \<and> length bs = 50"
  using inode_read_contents [OF fs_example_ok(1,2) _ fs_example_ok(3), of 550 100]
  by (auto simp: contents_length [OF fs_example_ok(2)])

theorem inode_write_contents_witness:
  "\<exists>s'. inode_write_at fs_example 0x100 (replicate 100 1) 100 550 = Some (50, s')"
  using inode_write_contents [OF fs_example_ok(1,2) _ fs_example_ok(3), of 550 100 "replicate 100 1" 50] by auto

end
