(* ===== verification/Files.thy ===== *)
theory Files
  imports Inode
begin

text \<open>
  \<^verbatim>\<open>filesys/free-map.c\<close>, \<^verbatim>\<open>filesys/file.c\<close>, the file operations of
  \<^verbatim>\<open>lib/kernel/bitmap.c\<close>, and the two operations of \<^verbatim>\<open>filesys/inode.c\<close> that use the free map.
  The modules are mutually dependent in the code; here they come in the order of the calls.
  \<^verbatim>\<open>free\<close> takes an object out of its map, so that an access after it ends in \<^term>\<open>None\<close>.
\<close>

section \<open>Reading and writing at an offset\<close>

definition FREE_MAP_SECTOR :: u32 where
  "FREE_MAP_SECTOR = 0"

definition ROOT_DIR_SECTOR :: u32 where
  "ROOT_DIR_SECTOR = 1"

definition file_read_at :: "fs \<Rightarrow> addr \<Rightarrow> int \<Rightarrow> int \<Rightarrow> (byte list \<times> fs) kernel" where
  "file_read_at s f sz file_ofs = do { fl \<leftarrow> files s f; inode_read_at s (f_inode fl) sz file_ofs }"

definition file_write_at :: "fs \<Rightarrow> addr \<Rightarrow> byte list \<Rightarrow> int \<Rightarrow> int \<Rightarrow> (int \<times> fs) kernel" where
  "file_write_at s f buf sz file_ofs = do { fl \<leftarrow> files s f; inode_write_at s (f_inode fl) buf sz file_ofs }"

section \<open>The free map\<close>

definition elems_bytes :: "u32 list \<Rightarrow> byte list" where
  "elems_bytes es = concat (map u32_bytes es)"

fun bytes_elems :: "byte list \<Rightarrow> u32 list" where
  "bytes_elems (a # b # c # d # bs) = bytes_u32 [a, b, c, d] # bytes_elems bs"
| "bytes_elems _ = []"

definition bitmap_read :: "bitmap \<Rightarrow> addr \<Rightarrow> fs \<Rightarrow> (bool \<times> bitmap \<times> fs) kernel" where
  "bitmap_read b f s =
     (if 0 < bit_cnt b
      then do {
        let sz = sint (byte_cnt (bit_cnt b));
        (bs, s) \<leftarrow> file_read_at s f sz 0;
        let es = bytes_elems (bs @ drop (length bs) (elems_bytes (bits b)));
        let i = unat (elem_cnt (bit_cnt b) - 1);
        e \<leftarrow> fetch es i;
        es \<leftarrow> store es i (e AND last_mask b);
        Some (int (length bs) = sz, b\<lparr>bits := es\<rparr>, s)
      }
      else Some (True, b, s))"

definition bitmap_write :: "bitmap \<Rightarrow> addr \<Rightarrow> fs \<Rightarrow> (bool \<times> fs) kernel" where
  "bitmap_write b f s = do {
     let sz = sint (byte_cnt (bit_cnt b));
     (n, s) \<leftarrow> file_write_at s f (elems_bytes (bits b)) sz 0;
     Some (n = sz, s)
   }"

definition free_map_init :: "bool \<Rightarrow> u32 list option \<Rightarrow> fs \<Rightarrow> fs kernel" where
  "free_map_init malloc_b malloc_bits s = do {
     r \<leftarrow> bitmap_create malloc_b malloc_bits (disk_size (dsk s));
     case r of
       None \<Rightarrow> PANIC
     | Some b \<Rightarrow> do {
         b \<leftarrow> bitmap_mark b FREE_MAP_SECTOR;
         b \<leftarrow> bitmap_mark b ROOT_DIR_SECTOR;
         Some (s\<lparr>free_map := b\<rparr>)
       }
   }"

definition free_map_allocate :: "size_t \<Rightarrow> fs \<Rightarrow> (u32 option \<times> fs) kernel" where
  "free_map_allocate cnt s = do {
     (sec, b) \<leftarrow> bitmap_scan_and_flip (free_map s) 0 cnt False;
     let s = s\<lparr>free_map := b\<rparr>;
     (sec, s) \<leftarrow>
       (if sec \<noteq> BITMAP_ERROR \<and> free_map_file s \<noteq> NULL
        then do {
          (ok, s) \<leftarrow> bitmap_write b (free_map_file s) s;
          if ok then Some (sec, s)
          else do { b \<leftarrow> bitmap_set_multiple b sec cnt False; Some (BITMAP_ERROR, s\<lparr>free_map := b\<rparr>) }
        }
        else Some (sec, s));
     Some (if sec \<noteq> BITMAP_ERROR then Some sec else None, s)
   }"

definition free_map_release :: "u32 \<Rightarrow> size_t \<Rightarrow> fs \<Rightarrow> fs kernel" where
  "free_map_release sec cnt s = do {
     all \<leftarrow> bitmap_all (free_map s) sec cnt;
     ASSERT all;
     b \<leftarrow> bitmap_set_multiple (free_map s) sec cnt False;
     let s = s\<lparr>free_map := b\<rparr>;
     (_, s) \<leftarrow> bitmap_write b (free_map_file s) s;
     Some s
   }"

section \<open>Creating and closing inodes\<close>

fun zero_loop :: "disk \<Rightarrow> u32 \<Rightarrow> nat \<Rightarrow> disk kernel" where
  "zero_loop d sec 0 = Some d"
| "zero_loop d sec (Suc n) = do { d \<leftarrow> disk_write d sec (replicate 512 0); zero_loop d (sec + 1) n }"

definition inode_create :: "u32 \<Rightarrow> int \<Rightarrow> fs \<Rightarrow> (bool \<times> fs) kernel" where
  "inode_create sec lng s = do {
     ASSERT (0 \<le> lng);
     let (m, mem) = malloc (mallocs s);
     let s = s\<lparr>mallocs := mem\<rparr>;
     case m of
       None \<Rightarrow> Some (False, s)
     | Some _ \<Rightarrow> do {
         let sectors = bytes_to_sectors lng;
         (st, s) \<leftarrow> free_map_allocate sectors s;
         (case st of
            None \<Rightarrow> Some (False, s)
          | Some st \<Rightarrow> do {
              d \<leftarrow> disk_write (dsk s) sec (inode_disk_bytes \<lparr>start = st, len = lng, magic = INODE_MAGIC\<rparr>);
              d \<leftarrow> zero_loop d st (unat sectors);
              Some (True, s\<lparr>dsk := d\<rparr>)
            })
       }
   }"

definition inode_close :: "addr \<Rightarrow> fs \<Rightarrow> fs kernel" where
  "inode_close a s =
     (if a = NULL then Some s
      else do {
        s \<leftarrow> upd_inode a (\<lambda>ip. ip\<lparr>open_cnt := open_cnt ip - 1\<rparr>) s;
        ip \<leftarrow> inodes s a;
        if open_cnt ip = 0
        then do {
          let s = s\<lparr>open_inodes := remove1 a (open_inodes s)\<rparr>;
          s \<leftarrow> (if removed ip
                then do {
                  s \<leftarrow> free_map_release (sector ip) 1 s;
                  free_map_release (start (data ip)) (bytes_to_sectors (len (data ip))) s
                }
                else Some s);
          Some (s\<lparr>inodes := (inodes s)(a := None)\<rparr>)
        }
        else Some s
      })"

section \<open>Files\<close>

definition file_open :: "addr \<Rightarrow> fs \<Rightarrow> (addr \<times> fs) kernel" where
  "file_open a s =
     (let (m, mem) = malloc (mallocs s); s = s\<lparr>mallocs := mem\<rparr> in
      case m of
        Some f \<Rightarrow>
          if a \<noteq> NULL
          then Some (f, s\<lparr>files := (files s)(f \<mapsto> \<lparr>f_inode = a, pos = 0, deny_write = False\<rparr>)\<rparr>)
          else do { s \<leftarrow> inode_close a s; Some (NULL, s) }
      | None \<Rightarrow> do { s \<leftarrow> inode_close a s; Some (NULL, s) })"

definition file_reopen :: "addr \<Rightarrow> fs \<Rightarrow> (addr \<times> fs) kernel" where
  "file_reopen f s = do {
     fl \<leftarrow> files s f;
     (a, s) \<leftarrow> inode_reopen s (f_inode fl);
     file_open a s
   }"

definition upd_file :: "addr \<Rightarrow> (open_file \<Rightarrow> open_file) \<Rightarrow> fs \<Rightarrow> fs kernel" where
  "upd_file f g s = do { fl \<leftarrow> files s f; Some (s\<lparr>files := (files s)(f \<mapsto> g fl)\<rparr>) }"

definition file_deny_write :: "addr \<Rightarrow> fs \<Rightarrow> fs kernel" where
  "file_deny_write f s = do {
     ASSERT (f \<noteq> NULL);
     fl \<leftarrow> files s f;
     if \<not> deny_write fl
     then do {
       s \<leftarrow> upd_file f (\<lambda>fl. fl\<lparr>deny_write := True\<rparr>) s;
       inode_deny_write s (f_inode fl)
     }
     else Some s
   }"

definition file_allow_write :: "addr \<Rightarrow> fs \<Rightarrow> fs kernel" where
  "file_allow_write f s = do {
     ASSERT (f \<noteq> NULL);
     fl \<leftarrow> files s f;
     if deny_write fl
     then do {
       s \<leftarrow> upd_file f (\<lambda>fl. fl\<lparr>deny_write := False\<rparr>) s;
       inode_allow_write s (f_inode fl)
     }
     else Some s
   }"

definition file_close :: "addr \<Rightarrow> fs \<Rightarrow> fs kernel" where
  "file_close f s =
     (if f \<noteq> NULL
      then do {
        s \<leftarrow> file_allow_write f s;
        fl \<leftarrow> files s f;
        s \<leftarrow> inode_close (f_inode fl) s;
        Some (s\<lparr>files := (files s)(f := None)\<rparr>)
      }
      else Some s)"

definition file_get_inode :: "addr \<Rightarrow> fs \<Rightarrow> addr kernel" where
  "file_get_inode f s = map_option f_inode (files s f)"

definition file_read :: "addr \<Rightarrow> int \<Rightarrow> fs \<Rightarrow> (byte list \<times> fs) kernel" where
  "file_read f sz s = do {
     fl \<leftarrow> files s f;
     (bs, s) \<leftarrow> inode_read_at s (f_inode fl) sz (pos fl);
     s \<leftarrow> upd_file f (\<lambda>fl. fl\<lparr>pos := pos fl + int (length bs)\<rparr>) s;
     Some (bs, s)
   }"

definition file_write :: "addr \<Rightarrow> byte list \<Rightarrow> int \<Rightarrow> fs \<Rightarrow> (int \<times> fs) kernel" where
  "file_write f buf sz s = do {
     fl \<leftarrow> files s f;
     (n, s) \<leftarrow> inode_write_at s (f_inode fl) buf sz (pos fl);
     s \<leftarrow> upd_file f (\<lambda>fl. fl\<lparr>pos := pos fl + n\<rparr>) s;
     Some (n, s)
   }"

definition file_length :: "addr \<Rightarrow> fs \<Rightarrow> int kernel" where
  "file_length f s = do {
     ASSERT (f \<noteq> NULL);
     fl \<leftarrow> files s f;
     map_option inode_length (inodes s (f_inode fl))
   }"

definition file_seek :: "addr \<Rightarrow> int \<Rightarrow> fs \<Rightarrow> fs kernel" where
  "file_seek f new_pos s = do {
     ASSERT (f \<noteq> NULL);
     ASSERT (0 \<le> new_pos);
     upd_file f (\<lambda>fl. fl\<lparr>pos := new_pos\<rparr>) s
   }"

definition file_tell :: "addr \<Rightarrow> fs \<Rightarrow> int kernel" where
  "file_tell f s = do { ASSERT (f \<noteq> NULL); map_option pos (files s f) }"

section \<open>The free map file\<close>

definition free_map_open :: "fs \<Rightarrow> fs kernel" where
  "free_map_open s = do {
     (a, s) \<leftarrow> inode_open s FREE_MAP_SECTOR;
     (f, s) \<leftarrow> file_open a s;
     let s = s\<lparr>free_map_file := f\<rparr>;
     ASSERT (f \<noteq> NULL);
     (ok, b, s) \<leftarrow> bitmap_read (free_map s) f s;
     ASSERT ok;
     Some (s\<lparr>free_map := b\<rparr>)
   }"

definition free_map_close :: "fs \<Rightarrow> fs kernel" where
  "free_map_close s = file_close (free_map_file s) s"

definition free_map_create :: "fs \<Rightarrow> fs kernel" where
  "free_map_create s = do {
     (ok, s) \<leftarrow> inode_create FREE_MAP_SECTOR (sint (bitmap_file_size (free_map s))) s;
     ASSERT ok;
     (a, s) \<leftarrow> inode_open s FREE_MAP_SECTOR;
     (f, s) \<leftarrow> file_open a s;
     let s = s\<lparr>free_map_file := f\<rparr>;
     ASSERT (f \<noteq> NULL);
     (ok, s) \<leftarrow> bitmap_write (free_map s) f s;
     ASSERT ok;
     Some s
   }"

section \<open>The bytes of a bitmap\<close>

lemma bytes_elems_u32 [simp]: "bytes_elems (u32_bytes e @ bs) = e # bytes_elems bs"
  using bytes_u32_bytes [of e "[]"] by (simp add: u32_bytes_def)

lemma bytes_elems_bytes [simp]: "bytes_elems (elems_bytes es) = es"
  by (induction es) (auto simp: elems_bytes_def)

lemma elems_bytes_length [simp]: "length (elems_bytes es) = 4 * length es"
  by (induction es) (auto simp: elems_bytes_def)

definition bm_small :: "bitmap \<Rightarrow> bool" where
  "bm_small b \<longleftrightarrow> unat (bit_cnt b) \<le> 2 ^ 31"

lemma bm_small_size:
  assumes "bm_wf b" and "bm_small b"
  shows "sint (byte_cnt (bit_cnt b)) = int (4 * length (bits b))" and "unat (elem_cnt (bit_cnt b)) = length (bits b)"
    and "length (bits b) \<le> 2 ^ 26" and "bit_cnt b \<noteq> BITMAP_ERROR"
proof -
  show e: "unat (elem_cnt (bit_cnt b)) = length (bits b)"
    using assms by (simp add: unat_elem_cnt bm_wf_def bm_small_def)
  show l: "length (bits b) \<le> 2 ^ 26"
    using assms by (simp add: bm_wf_def bm_small_def)
  have "unat (byte_cnt (bit_cnt b)) = 4 * length (bits b)"
    using l by (simp add: byte_cnt_def unat_mult_small e)
  then have "byte_cnt (bit_cnt b) = of_nat (4 * length (bits b))"
    by (metis of_nat_unat ucast_id)
  then show "sint (byte_cnt (bit_cnt b)) = int (4 * length (bits b))"
    using l sint_of_nat_small [of "4 * length (bits b)"] by simp
  show "bit_cnt b \<noteq> BITMAP_ERROR"
    using assms(2) by (auto simp: bm_small_def BITMAP_ERROR_def unsigned_minus_1_eq_mask mask_eq_exp_minus_1)
qed

section \<open>The free map and its file\<close>

definition file_at :: "fs \<Rightarrow> addr \<Rightarrow> open_file \<Rightarrow> inode \<Rightarrow> bool" where
  "file_at s f fl ip \<longleftrightarrow> f \<noteq> NULL \<and> files s f = Some fl \<and> inodes s (f_inode fl) = Some ip \<and> inode_ok (dsk s) ip"

definition fm_ok :: "fs \<Rightarrow> inode \<Rightarrow> bool" where
  "fm_ok s ip \<longleftrightarrow> bm_wf (free_map s) \<and> bm_small (free_map s) \<and> unat (bit_cnt (free_map s)) = length (dsk s) \<and>
     (\<exists>fl. file_at s (free_map_file s) fl ip) \<and> deny_write_cnt ip = 0 \<and> int (4 * length (bits (free_map s))) \<le> len (data ip)"

definition on_disk :: "fs \<Rightarrow> inode \<Rightarrow> bool" where
  "on_disk s ip \<longleftrightarrow> take (4 * length (bits (free_map s))) (contents (dsk s) ip) = elems_bytes (bits (free_map s))"

lemma malloc_fails:
  assumes "inodes s a = Some ip" and "fst (malloc (mallocs s)) = None" and "deny_write_cnt ip = 0" and "0 < sz"
    and "sz mod 512 \<noteq> 0" and "sz \<le> len (data ip)" and "sz < 512"
  shows "inode_write_at s a buf sz 0 = Some (0, s\<lparr>mallocs := snd (malloc (mallocs s))\<rparr>)"
proof -
  have "chunk_size ip sz 0 = sz"
    using assms(4,6,7) chunk_facts(6) [of 0 sz ip] by simp
  then show ?thesis
    using assms chunk_facts(1) [of 0 sz] by (simp add: inode_write_at_def write_loop.simps [of "dsk s"] DISK_SECTOR_SIZE_def Let_def)
qed

lemma bitmap_write_spec:
  assumes "fm_ok s ip" and "fst (malloc (mallocs s)) \<noteq> None" and "bit_cnt b = bit_cnt (free_map s)" and "bm_wf b"
  obtains d mem where "bitmap_write b (free_map_file s) s = Some (True, s\<lparr>dsk := d, mallocs := mem\<rparr>)"
    and "inode_ok d ip" and "untouched (dsk s) d ip"
    and "contents d ip = overwrite (contents (dsk s) ip) 0 (elems_bytes (bits b))" and "later (mallocs s) mem"
proof -
  obtain fl where fl: "files s (free_map_file s) = Some fl" "inodes s (f_inode fl) = Some ip" "inode_ok (dsk s) ip"
    and dw: "deny_write_cnt ip = 0" and ln: "int (4 * length (bits (free_map s))) \<le> len (data ip)"
    and sm: "bm_wf (free_map s)" "bm_small (free_map s)"
    using assms(1) by (auto simp: fm_ok_def file_at_def)
  have len: "length (bits b) = length (bits (free_map s))"
    using assms(3,4) sm(1) by (simp add: bm_wf_def)
  have sz: "sint (byte_cnt (bit_cnt b)) = int (4 * length (bits b))"
    using bm_small_size(1) [OF sm] assms(3) len by simp
  have n: "4 * length (bits b) = nat (min (int (4 * length (bits b))) (len (data ip) - 0))"
    using ln len by simp
  have m: "nat (int (4 * length (bits b))) \<le> length (elems_bytes (bits b))"
    by simp
  obtain d mem where w: "inode_write_at s (f_inode fl) (elems_bytes (bits b)) (int (4 * length (bits b))) 0
      = Some (int (4 * length (bits b)), s\<lparr>dsk := d, mallocs := mem\<rparr>)"
    and "inode_ok d ip" "untouched (dsk s) d ip"
    and "contents d ip = overwrite (contents (dsk s) ip) (nat 0) (take (4 * length (bits b)) (elems_bytes (bits b)))"
    using inode_write_at_spec [OF fl(2,3) order_refl assms(2) dw m n] by blast
  then show ?thesis
    using that sz fl(1) inode_write_at_later [OF w] by (simp add: bitmap_write_def file_write_at_def)
qed

lemma fm_ok_write:
  assumes "fm_ok s ip" and "inode_ok d ip" and "untouched (dsk s) d ip" and "bm_wf b" and "bit_cnt b = bit_cnt (free_map s)"
  shows "fm_ok (s\<lparr>free_map := b, dsk := d, mallocs := mem\<rparr>) ip"
  using assms by (auto simp: fm_ok_def file_at_def untouched_def bm_wf_def bm_small_def)

lemma on_disk_write:
  assumes "fm_ok s ip" and "bm_wf b" and "bit_cnt b = bit_cnt (free_map s)"
    and "contents d ip = overwrite (contents (dsk s) ip) 0 (elems_bytes (bits b))"
  shows "on_disk (s\<lparr>free_map := b, dsk := d, mallocs := mem\<rparr>) ip"
proof -
  have "length (bits b) = length (bits (free_map s))"
    using assms(1-3) by (simp add: fm_ok_def bm_wf_def)
  moreover have "length (contents (dsk s) ip) = nat (len (data ip))"
    using assms(1) by (auto simp: fm_ok_def file_at_def contents_length)
  ultimately show ?thesis
    using assms(1,4) by (simp add: on_disk_def overwrite_def fm_ok_def)
qed

text \<open>The bits of a read bitmap beyond the last one are cleared; the others are those read.\<close>

lemma bit_last_mask:
  assumes "k < 32" and "unat (bit_cnt b) mod 32 \<noteq> 0 \<Longrightarrow> k < unat (bit_cnt b) mod 32"
  shows "bit (last_mask b) k"
proof (cases "unat (bit_cnt b) mod 32 = 0")
  case True
  then have "bit_cnt b mod ELEM_BITS = 0"
    by (simp add: unat_eq_zero [symmetric] unat_mod)
  then show ?thesis
    using assms(1) by (simp add: last_mask_def)
next
  case False
  moreover have u: "unat (bit_cnt b mod ELEM_BITS) = unat (bit_cnt b) mod 32"
    by (simp add: unat_mod)
  ultimately have "bit_cnt b mod ELEM_BITS \<noteq> 0"
    by (metis unat_0)
  with u have "last_mask b = mask (unat (bit_cnt b) mod 32)"
    by (simp add: last_mask_def mask_eq_exp_minus_1)
  then show ?thesis
    using assms False by (simp add: bit_mask_iff)
qed

lemma last_elem:
  assumes "0 < n mod 32"
  shows "(n + 31) div 32 - Suc 0 = n div (32 :: nat)"
proof -
  obtain q r where "n = 32 * q + r" "0 < r" "r < 32"
    using assms mult_div_mod_eq [of 32 n] by (metis mod_less_divisor zero_less_numeral)
  moreover from this have "(n + 31) div 32 = Suc q" "n div 32 = q"
    by (auto intro: div_nat_eqI)
  ultimately show ?thesis
    by simp
qed

lemma mask_last_abs:
  assumes "length es = length (bits b)" and "bm_wf b" and "0 < bit_cnt b"
  shows "bm_abs (b\<lparr>bits := es[length es - 1 := es ! (length es - 1) AND last_mask b]\<rparr>) = bm_abs (b\<lparr>bits := es\<rparr>)"
proof (rule nth_equalityI)
  fix i assume "i < length (bm_abs (b\<lparr>bits := es[length es - 1 := es ! (length es - 1) AND last_mask b]\<rparr>))"
  then have i: "i < unat (bit_cnt b)"
    by simp
  then have k: "i div 32 < length es"
    using bm_wf_index [OF assms(2)] assms(1) by simp
  have "bit (last_mask b) (i mod 32)" if "i div 32 = length es - 1"
  proof (rule bit_last_mask)
    assume "unat (bit_cnt b) mod 32 \<noteq> 0"
    then have "length es - 1 = unat (bit_cnt b) div 32"
      using assms(1,2) last_elem by (simp add: bm_wf_def)
    then show "i mod 32 < unat (bit_cnt b) mod 32"
      using that i by (metis div_mult_mod_eq nat_add_left_cancel_less)
  qed simp
  then show "bm_abs (b\<lparr>bits := es[length es - 1 := es ! (length es - 1) AND last_mask b]\<rparr>) ! i = bm_abs (b\<lparr>bits := es\<rparr>) ! i"
    using i k by (auto simp: bm_bit_def nth_list_update bit_and_iff)
qed simp

lemma bitmap_read_spec:
  assumes "fm_ok s ip" and "on_disk s ip" and "fst (malloc (mallocs s)) \<noteq> None"
    and "bit_cnt b = bit_cnt (free_map s)" and "bm_wf b"
  obtains b' mem where "bitmap_read b (free_map_file s) s = Some (True, b', s\<lparr>mallocs := mem\<rparr>)"
    and "bm_wf b'" and "bit_cnt b' = bit_cnt b" and "bm_abs b' = bm_abs (free_map s)"
proof (cases "0 < bit_cnt b")
  case True
  let ?n = "4 * length (bits (free_map s))" and ?es = "bits (free_map s)"
  obtain fl where fl: "files s (free_map_file s) = Some fl" "inodes s (f_inode fl) = Some ip" "inode_ok (dsk s) ip"
    and sm: "bm_wf (free_map s)" "bm_small (free_map s)"
    using assms(1) by (auto simp: fm_ok_def file_at_def)
  have l: "length ?es = length (bits b)"
    using assms(4,5) sm(1) by (simp add: bm_wf_def)
  have z: "sint (byte_cnt (bit_cnt b)) = int ?n" "unat (elem_cnt (bit_cnt b)) = length ?es"
    using bm_small_size(1,2) [OF sm] assms(4) by simp_all
  obtain mem where "inode_read_at s (f_inode fl) (int ?n) 0 = Some (elems_bytes ?es, s\<lparr>mallocs := mem\<rparr>)"
    using inode_read_at_spec [OF fl(2,3) order_refl assms(3), of "int ?n"] assms(2) by (auto simp: on_disk_def nat_mult_distrib)
  moreover have pos: "0 < length ?es"
    using True sm(1) assms(4) by (simp add: bm_wf_def word_less_nat_alt)
  then have "unat (elem_cnt (bit_cnt b) - 1) = length ?es - 1"
    using z(2) by (metis less_nat_zero_code unat_0 unat_minus_one)
  ultimately have "bitmap_read b (free_map_file s) s
      = Some (True, b\<lparr>bits := ?es[length ?es - 1 := ?es ! (length ?es - 1) AND last_mask b]\<rparr>, s\<lparr>mallocs := mem\<rparr>)"
    using True fl(1) l z(1) pos by (simp add: bitmap_read_def file_read_at_def kernel_simps Let_def)
  moreover have "bm_abs (b\<lparr>bits := ?es\<rparr>) = bm_abs (free_map s)"
    using assms(4) by (simp add: bm_abs_def bm_bit_def)
  ultimately show ?thesis
    using that l assms(5) mask_last_abs [OF l assms(5) True] by (simp add: bm_wf_def)
next
  case False
  then have "bit_cnt b = 0"
    using word_neq_0_conv by blast
  then have "bitmap_read b (free_map_file s) s = Some (True, b, s\<lparr>mallocs := mallocs s\<rparr>)" "bm_abs b = bm_abs (free_map s)"
    using assms(4) by (simp_all add: bitmap_read_def bm_abs_def)
  then show ?thesis
    using that assms(5) by blast
qed

section \<open>A new inode\<close>

lemma zero_loop_spec:
  assumes "unat sec + n \<le> length d" and "length d < 2 ^ 32"
  shows "zero_loop d sec n = Some (overwrite d (unat sec) (replicate n (replicate 512 0)))"
  using assms
proof (induction n arbitrary: d sec)
  case (Suc n)
  have "unat (sec + 1) = Suc (unat sec)" if "0 < n"
    using Suc.prems that by (simp add: unat_add_small)
  then show ?case
    using Suc.prems Suc.IH [of "sec + 1" "d[unat sec := replicate 512 0]"]
    by (cases n) (auto simp: disk_write_def kernel_simps overwrite_Cons)
qed simp

lemma concat_zeros: "concat (replicate n (replicate m x)) = replicate (n * m) x"
  by (induction n) (auto simp: replicate_add)

lemma off_t_id: "- (2 ^ 31) \<le> n \<Longrightarrow> n < 2 ^ 31 \<Longrightarrow> off_t n = n"
  by (simp add: off_t_def signed_take_bit_int_eq_self)

lemma bytes_to_sectors_eq:
  assumes "0 \<le> n" and "n + 511 < 2 ^ 31"
  shows "unat (bytes_to_sectors n) = nat ((n + 511) div 512)"
proof -
  have "off_t (n + 511) = n + 511"
    using assms by (intro off_t_id) auto
  moreover have "c_div (n + 511) 512 = (n + 511) div 512" "0 \<le> (n + 511) div 512"
    using assms(1) by (auto simp: c_div_nonneg)
  moreover have "(n + 511) div 512 < 2 ^ 32"
    using assms(2) by simp
  ultimately show ?thesis
    by (simp add: bytes_to_sectors_def DISK_SECTOR_SIZE_def unsigned_of_int take_bit_int_eq_self add.commute)
qed

text \<open>
  For the 511 lengths above, the wrapped sum is negative: \<^verbatim>\<open>bytes_to_sectors\<close> returns more
  sectors than a disk of less than two terabytes has, so \<^verbatim>\<open>inode_create\<close> refuses the length.
\<close>

lemma bytes_to_sectors_wraps:
  assumes "2 ^ 31 \<le> n + 511" and "n < 2 ^ 31"
  shows "2 ^ 32 - 2 ^ 22 \<le> unat (bytes_to_sectors n)"
proof -
  let ?m = "n + 511 - 2 ^ 32"
  have "take_bit 32 (n + 511) = take_bit 32 ?m"
    unfolding take_bit_eq_mod by (rule minus_mod_self2 [symmetric])
  moreover have "Suc 31 = 32"
    by simp
  ultimately have "off_t (n + 511) = off_t ?m"
    by (simp only: off_t_def signed_take_bit_eq_iff_take_bit_eq)
  also have "\<dots> = ?m"
    using assms by (intro off_t_id) auto
  finally have m: "bytes_to_sectors n = word_of_int (c_div ?m 512)"
    by (simp add: bytes_to_sectors_def DISK_SECTOR_SIZE_def add.commute)
  have "c_div ?m 512 = - ((- ?m) div 512)"
    using assms(2) by (simp add: c_div_def)
  moreover have "(- ?m) div 512 \<le> 2 ^ 22"
    using zdiv_mono1 [of "- ?m" "2 ^ 31" 512] assms(1) by simp
  moreover have "0 < (- ?m) div 512"
    using pos_imp_zdiv_pos_iff [of 512 "- ?m"] assms(2) by simp
  ultimately have "- (2 ^ 22) \<le> c_div ?m 512" "c_div ?m 512 < 0"
    by linarith+
  then have "(c_div ?m 512 + 2 ^ 32) mod 2 ^ 32 = c_div ?m 512 + 2 ^ 32"
    by (intro mod_pos_pos_trivial) simp_all
  then have "c_div ?m 512 mod 2 ^ 32 = c_div ?m 512 + 2 ^ 32"
    unfolding mod_add_self2 .
  then show ?thesis
    using \<open>- (2 ^ 22) \<le> c_div ?m 512\<close> by (simp add: m unsigned_of_int take_bit_eq_mod le_nat_iff)
qed

lemma new_inode_contents:
  assumes "disk_ok d" and "n = sectors_of ip" and "unat (start (data ip)) + n \<le> length d" and "0 \<le> len (data ip)"
    and "d' = overwrite d (unat (start (data ip))) (replicate n (replicate 512 0))"
  shows "inode_ok d' ip" and "contents d' ip = replicate (nat (len (data ip))) 0"
proof -
  have l: "length d' = length d"
    using assms(3,5) by simp
  have "disk_ok d'"
    using assms(1,3,5) by (auto simp: disk_ok_def overwrite_def dest: in_set_takeD in_set_dropD)
  then show ok: "inode_ok d' ip"
    using assms(2-4) l by (simp add: inode_ok_def)
  have "blocks d' ip = replicate n (replicate 512 0)"
    using assms(2,3,5) by (simp add: blocks_def overwrite_def)
  then show "contents d' ip = replicate (nat (len (data ip))) 0"
    using blocks_ok(4) [OF ok] assms(2) by (simp add: contents_def concat_zeros mult.commute min_def)
qed

lemma find_inode_none:
  "\<forall>a \<in> set as. \<exists>ip. inodes s a = Some ip \<and> sector ip \<noteq> sec \<Longrightarrow> find_inode s sec as = Some None"
  by (induction as) auto

lemma free_map_allocate_spec:
  assumes "fm_ok s ip" and "fst (malloc (mallocs s)) \<noteq> None"
  shows "case first_run (bm_abs (free_map s)) 0 (unat cnt) False of
      None \<Rightarrow> free_map_allocate cnt s = Some (None, s)
    | Some k \<Rightarrow> \<exists>s'. free_map_allocate cnt s = Some (Some (of_nat k), s') \<and> fm_ok s' ip \<and> on_disk s' ip \<and>
        bm_used (free_map s') = bm_used (free_map s) \<union> {k..<k + unat cnt} \<and>
        bm_used (free_map s) \<inter> {k..<k + unat cnt} = {} \<and> untouched (dsk s) (dsk s') ip \<and>
        inodes s' = inodes s \<and> open_inodes s' = open_inodes s \<and> later (mallocs s) (mallocs s') \<and> dirs s' = dirs s"
proof -
  have inv: "bm_invar (free_map s)" and sm: "bm_wf (free_map s)" and nn: "free_map_file s \<noteq> NULL"
    using assms(1) bm_small_size(4) by (auto simp: fm_ok_def bm_invar_def file_at_def)
  note sf = bitmap_scan_and_flip_spec [OF inv, of 0 cnt False, simplified]
  show ?thesis
  proof (cases "first_run (bm_abs (free_map s)) 0 (unat cnt) False")
    case None
    then show ?thesis
      using sf by (simp add: free_map_allocate_def)
  next
    case (Some k)
    then obtain idx b where b: "bitmap_scan_and_flip (free_map s) 0 cnt False = Some (idx, b)" "unat idx = k"
        "idx \<noteq> BITMAP_ERROR" "bm_invar b" "bit_cnt b = bit_cnt (free_map s)"
        "bm_abs b = take k (bm_abs (free_map s)) @ replicate (unat cnt) True @ drop (k + unat cnt) (bm_abs (free_map s))"
      and fits: "k + unat cnt \<le> unat (bit_cnt (free_map s))"
      using sf by auto
    have wb: "bm_wf b" and idx: "idx = of_nat k"
      using b(2,4) by (auto simp: bm_invar_def)
    have fm: "fm_ok (s\<lparr>free_map := b\<rparr>) ip" "fst (malloc (mallocs (s\<lparr>free_map := b\<rparr>))) \<noteq> None"
      using assms b(5) wb by (auto simp: fm_ok_def file_at_def bm_wf_def bm_small_def)
    then obtain d mem where w: "bitmap_write b (free_map_file s) (s\<lparr>free_map := b\<rparr>)
          = Some (True, s\<lparr>free_map := b, dsk := d, mallocs := mem\<rparr>)"
        "inode_ok d ip" "untouched (dsk s) d ip" "contents d ip = overwrite (contents (dsk s) ip) 0 (elems_bytes (bits b))" "later (mallocs s) mem"
      using bitmap_write_spec [OF fm _ wb, simplified] by blast
    let ?s = "s\<lparr>free_map := b, dsk := d, mallocs := mem\<rparr>"
    have "free_map_allocate cnt s = Some (Some (of_nat k), ?s)"
      using b(1,3) nn w(1) idx by (simp add: free_map_allocate_def)
    moreover have "fm_ok ?s ip" "on_disk ?s ip"
      using fm_ok_write [OF assms(1) w(2,3) wb b(5)] on_disk_write [OF assms(1) wb b(5) w(4)] by auto
    moreover have "bm_used b = bm_used (free_map s) \<union> {k..<k + unat cnt}"
      using bm_used_range [OF b(5,6) fits] by simp
    moreover have "bm_used (free_map s) \<inter> {k..<k + unat cnt} = {}"
      using first_run_Some(2) [OF Some] run_at_free [of "free_map s" "unat cnt" k] by auto
    ultimately show ?thesis
      using Some w(3,5) by auto
  qed
qed

lemma zero_loop_ok:
  "zero_loop d sec n = Some d' \<Longrightarrow> disk_ok d \<Longrightarrow> disk_ok d' \<and> length d' = length d"
proof (induction n arbitrary: sec d)
  case (Suc n)
  then have "zero_loop (d[unat sec := replicate 512 0]) (sec + 1) n = Some d'"
    by (auto simp: disk_write_def kernel_simps split: if_splits)
  moreover have "disk_ok (d[unat sec := replicate 512 0])"
    using Suc.prems(2) by (auto simp: disk_ok_def dest!: set_update_subset_insert [THEN subsetD])
  ultimately show ?case
    using Suc.IH [of "d[unat sec := replicate 512 0]" "sec + 1"] by simp
qed simp

text \<open>An \<^verbatim>\<open>inode_create\<close> that succeeds has marked a free run of sectors for the data, and no other sector.\<close>

lemma inode_create_marks:
  assumes fm: "fm_ok s fip" and pl: "plenty (mallocs s)" and cr: "inode_create sec lng s = Some (True, s')"
  shows "\<exists>k. fm_ok s' fip \<and> plenty (mallocs s') \<and> inodes s' = inodes s \<and> dirs s' = dirs s \<and>
    bm_used (free_map s') = bm_used (free_map s) \<union> {k..<k + unat (bytes_to_sectors lng)} \<and>
    bm_used (free_map s) \<inter> {k..<k + unat (bytes_to_sectors lng)} = {}"
proof -
  let ?s0 = "s\<lparr>mallocs := snd (malloc (mallocs s))\<rparr>" and ?n = "bytes_to_sectors lng"
  have pl0: "plenty (snd (malloc (mallocs s)))"
    using plenty_later [OF pl later_malloc] .
  have fm0: "fm_ok ?s0 fip" "fst (malloc (mallocs ?s0)) \<noteq> None"
    using fm plenty_malloc [OF pl0] by (auto simp: fm_ok_def file_at_def)
  obtain st s1 d where c: "free_map_allocate ?n ?s0 = Some (Some st, s1)"
      "disk_write (dsk s1) sec (inode_disk_bytes \<lparr>start = st, len = lng, magic = INODE_MAGIC\<rparr>) \<bind> (\<lambda>d. zero_loop d st (unat ?n)) = Some d"
      "s' = s1\<lparr>dsk := d\<rparr>"
    using cr by (auto simp: inode_create_def Let_def malloc_def bind_Some_iff ASSERT_eq split: option.splits)
  obtain k where k: "fm_ok s1 fip" "bm_used (free_map s1) = bm_used (free_map s) \<union> {k..<k + unat ?n}"
      "bm_used (free_map s) \<inter> {k..<k + unat ?n} = {}" "inodes s1 = inodes s" "dirs s1 = dirs s" "plenty (mallocs s1)"
    using free_map_allocate_spec [OF fm0, of ?n] c(1) plenty_later [OF pl0] by (auto split: option.splits)
  have ok1: "disk_ok (dsk s1)"
    using k(1) by (auto simp: fm_ok_def file_at_def inode_ok_def)
  obtain d1 where d1: "d1 = (dsk s1)[unat sec := inode_disk_bytes \<lparr>start = st, len = lng, magic = INODE_MAGIC\<rparr>]"
      "zero_loop d1 st (unat ?n) = Some d"
    using c(2) by (auto simp: disk_write_def bind_Some_iff ASSERT_eq)
  have "disk_ok d1" "length d1 = length (dsk s1)"
    using ok1 by (auto simp: d1(1) disk_ok_def inode_disk_bytes_length dest!: set_update_subset_insert [THEN subsetD])
  then have "disk_ok d" "length d = length (dsk s1)"
    using zero_loop_ok [OF d1(2)] by simp_all
  then have "fm_ok s' fip"
    using k(1) by (auto simp: c(3) fm_ok_def file_at_def inode_ok_def)
  then show ?thesis
    using k c(3) by auto
qed

text \<open>\<^verbatim>\<open>free_map_release\<close> of marked sectors clears exactly these.\<close>

lemma free_map_release_spec:
  assumes fm: "fm_ok s ip" and pl: "plenty (mallocs s)" and sub: "{unat sec..<unat sec + unat cnt} \<subseteq> bm_used (free_map s)"
    and fits: "unat sec + unat cnt \<le> unat (bit_cnt (free_map s))"
  shows "\<exists>s'. free_map_release sec cnt s = Some s' \<and> inodes s' = inodes s \<and> dirs s' = dirs s \<and>
    bm_used (free_map s') = bm_used (free_map s) - {unat sec..<unat sec + unat cnt}"
proof -
  have inv: "bm_invar (free_map s)"
    using fm bm_small_size(4) by (auto simp: fm_ok_def bm_invar_def)
  obtain b where b: "bm_release (free_map s) (unat sec) (unat cnt) = Some b" "bm_invar b"
      "(\<lambda>i n. i + n \<le> unat (bit_cnt b)) = (\<lambda>i n. i + n \<le> unat (bit_cnt (free_map s)))"
      "bm_used b = bm_used (free_map s) - slots (unat sec, unat cnt)"
    using bitmap_slots.release_used [OF inv, of "unat sec" "unat cnt"] sub fits by auto
  have "unat (bit_cnt b) = unat (bit_cnt (free_map s))"
    using fun_cong [OF fun_cong [OF b(3), of "unat (bit_cnt b)"], of 0]
      fun_cong [OF fun_cong [OF b(3), of "unat (bit_cnt (free_map s))"], of 0] by simp
  then have cnt: "bit_cnt b = bit_cnt (free_map s)" and wf: "bm_wf b"
    using b(2) by (simp_all add: bm_invar_def word_unat_eq_iff)
  have r: "bitmap_all (free_map s) sec cnt = Some True" "bitmap_set_multiple (free_map s) sec cnt False = Some b"
    using b(1) by (auto simp: bm_release_def bind_Some_iff ASSERT_eq)
  have fm': "fm_ok (s\<lparr>free_map := b\<rparr>) ip" "fst (malloc (mallocs (s\<lparr>free_map := b\<rparr>))) \<noteq> None"
    using fm cnt wf plenty_malloc [OF pl] by (auto simp: fm_ok_def file_at_def bm_wf_def bm_small_def)
  obtain d mem where "bitmap_write b (free_map_file s) (s\<lparr>free_map := b\<rparr>) = Some (True, s\<lparr>free_map := b, dsk := d, mallocs := mem\<rparr>)"
    using bitmap_write_spec [OF fm' _ wf, simplified] by blast
  then have "free_map_release sec cnt s = Some (s\<lparr>free_map := b, dsk := d, mallocs := mem\<rparr>)"
    using r by (simp add: free_map_release_def)
  then show ?thesis
    using b(4) by auto
qed

section \<open>Properties\<close>

text \<open>
  C2: \<^verbatim>\<open>free_map_allocate\<close> takes the first run of \<^verbatim>\<open>cnt\<close> free sectors: it returns its first
  sector, marks exactly these sectors, and writes the map to its file, so that the file
  holds the map in memory; no sector outside the file changes.  It fails, with the
  map unchanged, only when there is no such run.
\<close>

theorem free_map_allocate_first_fit:
  assumes "fm_ok s ip" and "fst (malloc (mallocs s)) \<noteq> None"
  shows "case first_run (bm_abs (free_map s)) 0 (unat cnt) False of
      None \<Rightarrow> free_map_allocate cnt s = Some (None, s)
    | Some k \<Rightarrow> \<exists>s'. free_map_allocate cnt s = Some (Some (of_nat k), s') \<and> fm_ok s' ip \<and> on_disk s' ip \<and>
        bm_used (free_map s') = bm_used (free_map s) \<union> {k..<k + unat cnt} \<and>
        bm_used (free_map s) \<inter> {k..<k + unat cnt} = {} \<and> untouched (dsk s) (dsk s') ip"
  using free_map_allocate_spec [OF assms, of cnt] by (auto split: option.splits)

text \<open>
  C3: Creating an inode and opening it gives the file asked for: with room on the disk,
  and for a length to which \<^verbatim>\<open>bytes_to_sectors\<close> can add 511 without leaving \<^verbatim>\<open>off_t\<close>,
  \<^verbatim>\<open>inode_create\<close> succeeds, and \<^verbatim>\<open>inode_open\<close> of the same sector returns an inode with
  the given length whose contents are zero bytes; its data sectors were free before.
\<close>

theorem inode_create_open:
  assumes "fm_ok s fip" and "plenty (mallocs s)" and "0 \<le> lng" and "lng + 511 < 2 ^ 31" and "unat sec \<in> bm_used (free_map s)"
    and "first_run (bm_abs (free_map s)) 0 (nat ((lng + 511) div 512)) False = Some k"
    and "\<forall>a \<in> set (open_inodes s). \<exists>ip. inodes s a = Some ip \<and> sector ip \<noteq> sec"
  shows "\<exists>s' a s'' ip. inode_create sec lng s = Some (True, s') \<and> inode_open s' sec = Some (a, s'') \<and>
    inodes s'' a = Some ip \<and> inode_length ip = lng \<and> inode_ok (dsk s'') ip \<and> unat (start (data ip)) = k \<and>
    contents (dsk s'') ip = replicate (nat lng) 0 \<and> {k..<k + sectors_of ip} \<inter> bm_used (free_map s) = {}"
proof -
  let ?n = "nat ((lng + 511) div 512)" and ?s0 = "s\<lparr>mallocs := snd (malloc (mallocs s))\<rparr>"
  let ?di = "\<lparr>start = of_nat k, len = lng, magic = INODE_MAGIC\<rparr>"
  let ?ip = "\<lparr>sector = sec, open_cnt = 1, removed = False, deny_write_cnt = 0, data = ?di\<rparr>"
  have n: "unat (bytes_to_sectors lng) = ?n"
    by (rule bytes_to_sectors_eq [OF assms(3,4)])
  have fits: "k + ?n \<le> length (dsk s)" and run: "bm_used (free_map s) \<inter> {k..<k + ?n} = {}" and dk: "disk_ok (dsk s)"
      and cap: "unat (bit_cnt (free_map s)) = length (dsk s)"
    using first_run_fits [OF assms(6)] first_run_Some(2) [OF assms(6)] run_at_free [of "free_map s" ?n k] assms(1)
    by (auto simp: fm_ok_def file_at_def inode_ok_def)
  have sec: "unat sec < length (dsk s)" "\<not> (k \<le> unat sec \<and> unat sec < k + ?n)"
    using assms(5) run cap by (auto simp: bm_used_def)
  have k: "unat (of_nat k :: u32) = k"
    using fits dk by (simp add: disk_ok_def unat_of_nat_small)
  have pl: "plenty (snd (malloc (mallocs s)))"
    using plenty_later [OF assms(2) later_malloc] .
  have fm: "fm_ok ?s0 fip" "fst (malloc (mallocs ?s0)) \<noteq> None"
    using assms(1) plenty_malloc [OF pl] by (auto simp: fm_ok_def file_at_def)
  obtain s1 where s1: "free_map_allocate (bytes_to_sectors lng) ?s0 = Some (Some (of_nat k), s1)" "fm_ok s1 fip"
      "inodes s1 = inodes s" "open_inodes s1 = open_inodes s" "plenty (mallocs s1)" "length (dsk s1) = length (dsk s)"
    using free_map_allocate_spec [OF fm, of "bytes_to_sectors lng"] assms(6) n plenty_later [OF pl]
    by (auto simp: untouched_def)
  define d1 where "d1 = (dsk s1)[unat sec := inode_disk_bytes ?di]"
  define d2 where "d2 = overwrite d1 k (replicate ?n (replicate 512 0))"
  have ok1: "disk_ok d1" "length d1 = length (dsk s)"
    using s1(2,6) by (auto simp: d1_def disk_ok_def fm_ok_def file_at_def inode_ok_def dest!: set_update_subset_insert [THEN subsetD])
  have "zero_loop d1 (of_nat k) ?n = Some d2"
    using zero_loop_spec [of "of_nat k" ?n d1] k fits ok1 by (simp add: d2_def disk_ok_def)
  then have cr: "inode_create sec lng s = Some (True, s1\<lparr>dsk := d2\<rparr>)"
    using plenty_malloc [OF assms(2)] s1(1,6) sec(1) n assms(3)
    by (auto simp: inode_create_def disk_write_def kernel_simps d1_def malloc_def)
  have new: "inode_ok d2 ?ip" "contents d2 ?ip = replicate (nat lng) 0" and ns: "sectors_of ?ip = ?n"
    using new_inode_contents [of d1 ?n ?ip d2] ok1 k fits assms(3) by (auto simp: d2_def sectors_of_def)
  have "d2 ! unat sec = inode_disk_bytes ?di" "unat sec < length d2"
    using sec ok1(2) fits s1(6) by (auto simp: d2_def overwrite_nth d1_def)
  moreover have "find_inode (s1\<lparr>dsk := d2\<rparr>) sec (open_inodes s1) = Some None"
    using assms(7) s1(3,4) by (intro find_inode_none) auto
  moreover obtain a where "mallocs s1 0 = Some a"
    using s1(5) by (auto simp: plenty_def)
  ultimately have "inode_open (s1\<lparr>dsk := d2\<rparr>) sec = Some (a, s1\<lparr>dsk := d2, mallocs := snd (malloc (mallocs s1)),
      inodes := (inodes s1)(a \<mapsto> ?ip), open_inodes := a # open_inodes s1\<rparr>)"
    using bytes_inode_disk_bytes [of ?di] assms(3,4) by (simp add: inode_open_def malloc_def disk_read_def kernel_simps)
  then show ?thesis
    using cr new ns k run by (auto simp: inode_length_def Int_commute)
qed

text \<open>
  A write of the free map that succeeds is what the next boot reads back: after
  \<^verbatim>\<open>bitmap_write\<close>, \<^verbatim>\<open>bitmap_read\<close> into any bitmap of the same size gives a bitmap
  with the same bits, whatever the padding bits of the last element were.
\<close>

theorem bitmap_write_read:
  assumes "fm_ok s ip" and "fst (malloc (mallocs s)) \<noteq> None" and "bm_wf b" and "bit_cnt b = bit_cnt (free_map s)"
    and "fst (malloc m) \<noteq> None"
  shows "\<exists>s'. bitmap_write (free_map s) (free_map_file s) s = Some (True, s') \<and>
    (\<exists>b' s''. bitmap_read b (free_map_file s) (s'\<lparr>mallocs := m\<rparr>) = Some (True, b', s'') \<and>
       bm_wf b' \<and> bm_abs b' = bm_abs (free_map s))"
proof -
  have wf: "bm_wf (free_map s)"
    using assms(1) by (auto simp: fm_ok_def)
  obtain d mem where w: "bitmap_write (free_map s) (free_map_file s) s = Some (True, s\<lparr>dsk := d, mallocs := mem\<rparr>)"
      "inode_ok d ip" "untouched (dsk s) d ip"
      "contents d ip = overwrite (contents (dsk s) ip) 0 (elems_bytes (bits (free_map s)))"
    using bitmap_write_spec [OF assms(1,2) refl wf] by blast
  let ?s = "s\<lparr>dsk := d, mallocs := m\<rparr>"
  have ok: "fm_ok ?s ip" "on_disk ?s ip"
    using fm_ok_write [OF assms(1) w(2,3) wf refl, of m] on_disk_write [OF assms(1) wf refl w(4), of m] by auto
  obtain b' mem' where "bitmap_read b (free_map_file s) ?s = Some (True, b', s\<lparr>dsk := d, mallocs := mem'\<rparr>)" "bm_wf b'"
      "bm_abs b' = bm_abs (free_map s)"
    using bitmap_read_spec [OF ok _ _ assms(3), simplified, OF assms(5) [simplified] assms(4)] by blast
  then show ?thesis
    using w(1) by auto
qed

text \<open>
  C4: What \<^verbatim>\<open>file_write\<close> has written, \<^verbatim>\<open>file_read_at\<close> at the old position reads back, and
  the position of the file has moved past it; no sector of another file has changed.
\<close>

theorem file_write_read:
  assumes "file_at s f fl ip" and "0 \<le> pos fl" and "deny_write_cnt ip = 0" and "nat sz \<le> length buf"
    and "fst (malloc (mallocs s)) \<noteq> None" and "fst (malloc m) \<noteq> None"
    and "n = nat (min sz (len (data ip) - pos fl))"
  shows "\<exists>s'. file_write f buf sz s = Some (int n, s') \<and> file_at s' f (fl\<lparr>pos := pos fl + int n\<rparr>) ip \<and>
    untouched (dsk s) (dsk s') ip \<and>
    (\<exists>s''. file_read_at (s'\<lparr>mallocs := m\<rparr>) f (int n) (pos fl) = Some (take n buf, s''))"
proof -
  have f: "f \<noteq> NULL" "files s f = Some fl" "inodes s (f_inode fl) = Some ip" "inode_ok (dsk s) ip"
    using assms(1) by (auto simp: file_at_def)
  obtain d mem where w: "inode_write_at s (f_inode fl) buf sz (pos fl) = Some (int n, s\<lparr>dsk := d, mallocs := mem\<rparr>)"
      "inode_ok d ip" "untouched (dsk s) d ip"
      "contents d ip = overwrite (contents (dsk s) ip) (nat (pos fl)) (take n buf)"
    using inode_write_at_spec [OF f(3,4) assms(2,5,3,4,7)] by blast
  let ?s = "s\<lparr>dsk := d, mallocs := mem, files := (files s)(f \<mapsto> fl\<lparr>pos := pos fl + int n\<rparr>)\<rparr>"
  have ev: "file_write f buf sz s = Some (int n, ?s)"
    using f(2) w(1) by (simp add: file_write_def upd_file_def)
  have r: "inodes (?s\<lparr>mallocs := m\<rparr>) (f_inode fl) = Some ip" "inode_ok (dsk (?s\<lparr>mallocs := m\<rparr>)) ip"
      "fst (malloc (mallocs (?s\<lparr>mallocs := m\<rparr>))) \<noteq> None"
    using f(3) w(2) assms(6) by auto
  obtain mem' where "inode_read_at (?s\<lparr>mallocs := m\<rparr>) (f_inode fl) (int n) (pos fl)
      = Some (take (nat (int n)) (drop (nat (pos fl)) (contents (dsk (?s\<lparr>mallocs := m\<rparr>)) ip)), ?s\<lparr>mallocs := mem'\<rparr>)"
    using inode_read_at_spec [OF r(1,2) assms(2) r(3), of "int n"] by auto
  moreover have "take n (drop (nat (pos fl)) (contents d ip)) = take n buf"
  proof (cases "n = 0")
    case False
    then have "nat (pos fl) + length (take n buf) \<le> length (contents (dsk s) ip)" "length (take n buf) = n"
      using contents_length [OF f(4)] assms(2,4,7) by auto
    then show ?thesis
      using overwrite_read [of "nat (pos fl)" "take n buf" "contents (dsk s) ip"] w(4) by simp
  qed simp
  ultimately show ?thesis
    using ev f w(2,3) by (auto simp: file_at_def file_read_at_def)
qed

definition fm_example :: fs where
  "fm_example = \<lparr>dsk = replicate 8 (replicate 512 0),
     inodes = [0x100 \<mapsto> \<lparr>sector = 0, open_cnt = 1, removed = False, deny_write_cnt = 0,
       data = \<lparr>start = 2, len = 4, magic = INODE_MAGIC\<rparr>\<rparr>],
     open_inodes = [0x100], files = [0x200 \<mapsto> \<lparr>f_inode = 0x100, pos = 0, deny_write = False\<rparr>], dirs = (\<lambda>_. None),
     free_map = \<lparr>bit_cnt = 8, bits = [7]\<rparr>, free_map_file = 0x200, mallocs = (\<lambda>n. Some (0x300 + 0x100 * of_nat n))\<rparr>"

definition fm_inode :: inode where
  "fm_inode = \<lparr>sector = 0, open_cnt = 1, removed = False, deny_write_cnt = 0, data = \<lparr>start = 2, len = 4, magic = INODE_MAGIC\<rparr>\<rparr>"

lemma fm_example_ok:
  "fm_ok fm_example fm_inode" "fst (malloc (mallocs fm_example)) \<noteq> None"
  "file_at fm_example 0x200 \<lparr>f_inode = 0x100, pos = 0, deny_write = False\<rparr> fm_inode"
  by (auto simp: fm_example_def fm_inode_def inode_ok_def disk_ok_def sectors_of_def malloc_def fm_ok_def
      bm_wf_def bm_small_def file_at_def)

lemma all_less_two: "(\<forall>j < 2. P j) \<longleftrightarrow> P 0 \<and> P (Suc 0)"
  by (auto simp: less_2_cases_iff)

lemma fm_example_run:
  "bm_abs (free_map fm_example) = [True, True, True, False, False, False, False, False]"
  "first_run (bm_abs (free_map fm_example)) 0 2 False = Some 3"
proof -
  show "bm_abs (free_map fm_example) = [True, True, True, False, False, False, False, False]"
    unfolding fm_example_def by code_simp
  then show "first_run (bm_abs (free_map fm_example)) 0 2 False = Some 3"
    by (simp add: first_run_def run_at_def upt_rec all_less_two)
qed

theorem free_map_allocate_first_fit_witness:
  "\<exists>s'. free_map_allocate 2 fm_example = Some (Some 3, s') \<and> on_disk s' fm_inode"
  using free_map_allocate_first_fit [OF fm_example_ok(1,2), of 2] fm_example_run(2) by auto

theorem inode_create_open_witness:
  "\<exists>s' a s'' ip. inode_create 1 600 fm_example = Some (True, s') \<and> inode_open s' 1 = Some (a, s'') \<and>
     inodes s'' a = Some ip \<and> contents (dsk s'') ip = replicate 600 0"
proof -
  have "bm_bit (free_map fm_example) 1"
    using fm_example_run(1) bm_abs_nth [of 1 "free_map fm_example"] by (simp add: fm_example_def)
  then have u: "unat (1 :: u32) \<in> bm_used (free_map fm_example)"
    by (simp add: bm_used_def fm_example_def)
  have "plenty (mallocs fm_example)" "\<forall>a \<in> set (open_inodes fm_example). \<exists>ip. inodes fm_example a = Some ip \<and> sector ip \<noteq> 1"
    by (auto simp: fm_example_def plenty_def)
  then show ?thesis
    using inode_create_open [OF fm_example_ok(1) _ _ _ u, of 600 3] fm_example_run(2) by fastforce
qed

theorem bitmap_write_read_witness:
  "\<exists>s' b' s''. bitmap_write (free_map fm_example) 0x200 fm_example = Some (True, s') \<and>
     bitmap_read \<lparr>bit_cnt = 8, bits = [0]\<rparr> 0x200 (s'\<lparr>mallocs := \<lambda>_. Some 0x400\<rparr>) = Some (True, b', s'') \<and>
     bm_abs b' = bm_abs (free_map fm_example)"
  using bitmap_write_read [OF fm_example_ok(1,2), of "\<lparr>bit_cnt = 8, bits = [0]\<rparr>" "\<lambda>_. Some 0x400"]
  by (auto simp: fm_example_def bm_wf_def malloc_def)

theorem file_write_read_witness:
  "\<exists>s' s''. file_write 0x200 [1, 2, 3] 3 fm_example = Some (3, s') \<and>
     file_read_at (s'\<lparr>mallocs := \<lambda>_. Some 0x400\<rparr>) 0x200 3 0 = Some ([1, 2, 3], s'')"
proof -
  have h: "0 \<le> pos \<lparr>f_inode = 0x100, pos = 0, deny_write = False\<rparr>" "deny_write_cnt fm_inode = 0"
      "nat 3 \<le> length [1, 2, 3 :: byte]" "fst (malloc (\<lambda>_. Some 0x400)) \<noteq> None"
      "3 = nat (min 3 (len (data fm_inode) - pos \<lparr>f_inode = 0x100, pos = 0, deny_write = False\<rparr>))"
    by (simp_all add: fm_inode_def malloc_def)
  then show ?thesis
    using file_write_read [OF fm_example_ok(3) h(1-3) fm_example_ok(2) h(4,5)] by simp blast
qed

end
