(* ===== verification/Strings.thy ===== *)
theory Strings
  imports Pintos_Prelude
begin

text \<open>
  \<^verbatim>\<open>lib/string.c\<close>.  Memory is a list of bytes and a pointer an index into it; index 0 is
  the null pointer, and a read or write outside the list ends in \<^term>\<open>None\<close>.  A function
  that writes returns the new memory.  A \<^verbatim>\<open>size_t\<close> is a natural number: every one of them counts
  bytes of the memory or bounds such a count, and none is computed by an operation that could wrap.

  The specifications speak of the string at an address (\<open>cstr m p s\<close>: the bytes \<open>s\<close>, none
  of them zero, followed by a zero).
\<close>

section \<open>Blocks of bytes\<close>

type_synonym mem = "u8 list"
type_synonym ptr = nat

fun copy_up :: "mem \<Rightarrow> ptr \<Rightarrow> ptr \<Rightarrow> nat \<Rightarrow> mem kernel" where
  "copy_up m dst src 0 = Some m"
| "copy_up m dst src (Suc n) = do { c \<leftarrow> fetch m src; m \<leftarrow> store m dst c; copy_up m (dst + 1) (src + 1) n }"

fun copy_down :: "mem \<Rightarrow> ptr \<Rightarrow> ptr \<Rightarrow> nat \<Rightarrow> mem kernel" where
  "copy_down m dst src 0 = Some m"
| "copy_down m dst src (Suc n) = do {
     c \<leftarrow> fetch m (src - 1);
     m \<leftarrow> store m (dst - 1) c;
     copy_down m (dst - 1) (src - 1) n
   }"

definition memcpy :: "mem \<Rightarrow> ptr \<Rightarrow> ptr \<Rightarrow> nat \<Rightarrow> (ptr \<times> mem) kernel" where
  "memcpy m dst src sz = do {
     ASSERT (dst \<noteq> 0 \<or> sz = 0);
     ASSERT (src \<noteq> 0 \<or> sz = 0);
     m \<leftarrow> copy_up m dst src sz;
     Some (dst, m)
   }"

definition memmove :: "mem \<Rightarrow> ptr \<Rightarrow> ptr \<Rightarrow> nat \<Rightarrow> (ptr \<times> mem) kernel" where
  "memmove m dst src sz = do {
     ASSERT (dst \<noteq> 0 \<or> sz = 0);
     ASSERT (src \<noteq> 0 \<or> sz = 0);
     if dst < src
     then do { m \<leftarrow> copy_up m dst src sz; Some (dst + sz, m) }
     else do { m \<leftarrow> copy_down m (dst + sz) (src + sz) sz; Some (dst, m) }
   }"

fun cmp_loop :: "mem \<Rightarrow> ptr \<Rightarrow> ptr \<Rightarrow> nat \<Rightarrow> int kernel" where
  "cmp_loop m a b 0 = Some 0"
| "cmp_loop m a b (Suc n) = do {
     x \<leftarrow> fetch m a;
     y \<leftarrow> fetch m b;
     if x \<noteq> y then Some (if x > y then 1 else - 1) else cmp_loop m (a + 1) (b + 1) n
   }"

definition memcmp :: "mem \<Rightarrow> ptr \<Rightarrow> ptr \<Rightarrow> nat \<Rightarrow> int kernel" where
  "memcmp m a b sz = do {
     ASSERT (a \<noteq> 0 \<or> sz = 0);
     ASSERT (b \<noteq> 0 \<or> sz = 0);
     cmp_loop m a b sz
   }"

fun memchr_loop :: "mem \<Rightarrow> ptr \<Rightarrow> u8 \<Rightarrow> nat \<Rightarrow> ptr kernel" where
  "memchr_loop m block ch 0 = Some 0"
| "memchr_loop m block ch (Suc n) = do {
     c \<leftarrow> fetch m block;
     if c = ch then Some block else memchr_loop m (block + 1) ch n
   }"

definition memchr :: "mem \<Rightarrow> ptr \<Rightarrow> u8 \<Rightarrow> nat \<Rightarrow> ptr kernel" where
  "memchr m block ch sz = do { ASSERT (block \<noteq> 0 \<or> sz = 0); memchr_loop m block ch sz }"

fun set_bytes :: "mem \<Rightarrow> ptr \<Rightarrow> u8 \<Rightarrow> nat \<Rightarrow> mem kernel" where
  "set_bytes m dst v 0 = Some m"
| "set_bytes m dst v (Suc n) = do { m \<leftarrow> store m dst v; set_bytes m (dst + 1) v n }"

definition memset :: "mem \<Rightarrow> ptr \<Rightarrow> u8 \<Rightarrow> nat \<Rightarrow> (ptr \<times> mem) kernel" where
  "memset m dst v sz = do { ASSERT (dst \<noteq> 0 \<or> sz = 0); m \<leftarrow> set_bytes m dst v sz; Some (dst, m) }"

section \<open>Strings\<close>

function strcmp_loop :: "mem \<Rightarrow> ptr \<Rightarrow> ptr \<Rightarrow> int kernel" where
  "strcmp_loop m a b = do {
     x \<leftarrow> fetch m a;
     y \<leftarrow> fetch m b;
     if x \<noteq> 0 \<and> x = y then strcmp_loop m (a + 1) (b + 1)
     else Some (if x < y then - 1 else if x > y then 1 else 0)
   }"
  by pat_completeness auto
termination
  by (relation "measure (\<lambda>(m, a, b). length m - a)") (auto simp: fetch_eq_Some_iff)

definition strcmp :: "mem \<Rightarrow> ptr \<Rightarrow> ptr \<Rightarrow> int kernel" where
  "strcmp m a b = do { ASSERT (a \<noteq> 0); ASSERT (b \<noteq> 0); strcmp_loop m a b }"

function strchr_loop :: "mem \<Rightarrow> ptr \<Rightarrow> u8 \<Rightarrow> ptr kernel" where
  "strchr_loop m p c = do {
     x \<leftarrow> fetch m p;
     if x = c then Some p else if x = 0 then Some 0 else strchr_loop m (p + 1) c
   }"
  by pat_completeness auto
termination
  by (relation "measure (\<lambda>(m, p, c). length m - p)") (auto simp: fetch_eq_Some_iff)

definition strchr :: "mem \<Rightarrow> ptr \<Rightarrow> u8 \<Rightarrow> ptr kernel" where
  "strchr m p c = do { ASSERT (p \<noteq> 0); strchr_loop m p c }"

function span_loop :: "bool \<Rightarrow> mem \<Rightarrow> ptr \<Rightarrow> ptr \<Rightarrow> nat \<Rightarrow> nat kernel" where
  "span_loop skip m p chars len = do {
     c \<leftarrow> fetch m (p + len);
     if c \<noteq> 0
     then do { q \<leftarrow> strchr m chars c; if (q = 0) = skip then Some len else span_loop skip m p chars (len + 1) }
     else Some len
   }"
  by pat_completeness auto
termination
  by (relation "measure (\<lambda>(skip, m, p, chars, len). length m - (p + len))") (auto simp: fetch_eq_Some_iff)

definition strcspn :: "mem \<Rightarrow> ptr \<Rightarrow> ptr \<Rightarrow> nat kernel" where
  "strcspn m p stop = span_loop False m p stop 0"

definition strspn :: "mem \<Rightarrow> ptr \<Rightarrow> ptr \<Rightarrow> nat kernel" where
  "strspn m p skip = span_loop True m p skip 0"

function strpbrk :: "mem \<Rightarrow> ptr \<Rightarrow> ptr \<Rightarrow> ptr kernel" where
  "strpbrk m p stop = do {
     c \<leftarrow> fetch m p;
     if c \<noteq> 0 then do { q \<leftarrow> strchr m stop c; if q \<noteq> 0 then Some p else strpbrk m (p + 1) stop }
     else Some 0
   }"
  by pat_completeness auto
termination
  by (relation "measure (\<lambda>(m, p, stop). length m - p)") (auto simp: fetch_eq_Some_iff)

function strrchr_loop :: "mem \<Rightarrow> ptr \<Rightarrow> u8 \<Rightarrow> ptr \<Rightarrow> ptr kernel" where
  "strrchr_loop m s c p = do {
     x \<leftarrow> fetch m s;
     if x \<noteq> 0 then strrchr_loop m (s + 1) c (if x = c then s else p) else Some p
   }"
  by pat_completeness auto
termination
  by (relation "measure (\<lambda>(m, s, c, p). length m - s)") (auto simp: fetch_eq_Some_iff)

definition strrchr :: "mem \<Rightarrow> ptr \<Rightarrow> u8 \<Rightarrow> ptr kernel" where
  "strrchr m s c = strrchr_loop m s c 0"

function strlen_loop :: "mem \<Rightarrow> ptr \<Rightarrow> ptr kernel" where
  "strlen_loop m p = do { c \<leftarrow> fetch m p; if c \<noteq> 0 then strlen_loop m (p + 1) else Some p }"
  by pat_completeness auto
termination
  by (relation "measure (\<lambda>(m, p). length m - p)") (auto simp: fetch_eq_Some_iff)

definition strlen :: "mem \<Rightarrow> ptr \<Rightarrow> nat kernel" where
  "strlen m s = do { ASSERT (s \<noteq> 0); p \<leftarrow> strlen_loop m s; Some (p - s) }"

function strnlen_loop :: "mem \<Rightarrow> ptr \<Rightarrow> nat \<Rightarrow> nat \<Rightarrow> nat kernel" where
  "strnlen_loop m p maxlen len = do {
     c \<leftarrow> fetch m (p + len);
     if c \<noteq> 0 \<and> len < maxlen then strnlen_loop m p maxlen (len + 1) else Some len
   }"
  by pat_completeness auto
termination
  by (relation "measure (\<lambda>(m, p, maxlen, len). maxlen - len)") auto

definition strnlen :: "mem \<Rightarrow> ptr \<Rightarrow> nat \<Rightarrow> nat kernel" where
  "strnlen m p maxlen = strnlen_loop m p maxlen 0"

fun strstr_loop :: "mem \<Rightarrow> ptr \<Rightarrow> ptr \<Rightarrow> nat \<Rightarrow> nat \<Rightarrow> ptr kernel" where
  "strstr_loop m haystack needle needle_len 0 = Some 0"
| "strstr_loop m haystack needle needle_len (Suc n) = do {
     r \<leftarrow> memcmp m haystack needle needle_len;
     if r = 0 then Some haystack else strstr_loop m (haystack + 1) needle needle_len n
   }"

definition strstr :: "mem \<Rightarrow> ptr \<Rightarrow> ptr \<Rightarrow> ptr kernel" where
  "strstr m haystack needle = do {
     haystack_len \<leftarrow> strlen m haystack;
     needle_len \<leftarrow> strlen m needle;
     if needle_len \<le> haystack_len
     then strstr_loop m haystack needle needle_len (haystack_len - needle_len + 1)
     else Some 0
   }"

function skip_delims :: "mem \<Rightarrow> ptr \<Rightarrow> ptr \<Rightarrow> (bool \<times> ptr) kernel" where
  "skip_delims m s delims = do {
     c \<leftarrow> fetch m s;
     q \<leftarrow> strchr m delims c;
     if q \<noteq> 0
     then if c = 0 then Some (False, s) else skip_delims m (s + 1) delims
     else Some (True, s)
   }"
  by pat_completeness auto
termination
  by (relation "measure (\<lambda>(m, s, delims). length m - s)") (auto simp: fetch_eq_Some_iff)

function skip_token :: "mem \<Rightarrow> ptr \<Rightarrow> ptr \<Rightarrow> ptr kernel" where
  "skip_token m s delims = do {
     c \<leftarrow> fetch m s;
     q \<leftarrow> strchr m delims c;
     if q = 0 then skip_token m (s + 1) delims else Some s
   }"
  by pat_completeness auto
termination
  by (relation "measure (\<lambda>(m, s, delims). length m - s)") (auto simp: fetch_eq_Some_iff)

definition strtok_r :: "mem \<Rightarrow> ptr \<Rightarrow> ptr \<Rightarrow> ptr \<Rightarrow> (ptr \<times> ptr \<times> mem) kernel" where
  "strtok_r m s delims save_ptr = do {
     ASSERT (delims \<noteq> 0);
     let s = (if s = 0 then save_ptr else s);
     ASSERT (s \<noteq> 0);
     (found, s) \<leftarrow> skip_delims m s delims;
     if \<not> found then Some (0, s, m)
     else do {
       let token = s;
       s \<leftarrow> skip_token m s delims;
       c \<leftarrow> fetch m s;
       if c \<noteq> 0 then do { m \<leftarrow> store m s 0; Some (token, s + 1, m) }
       else Some (token, s, m)
     }
   }"

definition strlcpy :: "mem \<Rightarrow> ptr \<Rightarrow> ptr \<Rightarrow> nat \<Rightarrow> (nat \<times> mem) kernel" where
  "strlcpy m dst src sz = do {
     ASSERT (dst \<noteq> 0);
     ASSERT (src \<noteq> 0);
     src_len \<leftarrow> strlen m src;
     if 0 < sz
     then do {
       let dst_len = (if src_len < sz - 1 then src_len else sz - 1);
       (_, m) \<leftarrow> memcpy m dst src dst_len;
       m \<leftarrow> store m (dst + dst_len) 0;
       Some (src_len, m)
     }
     else Some (src_len, m)
   }"

definition strlcat :: "mem \<Rightarrow> ptr \<Rightarrow> ptr \<Rightarrow> nat \<Rightarrow> (nat \<times> mem) kernel" where
  "strlcat m dst src sz = do {
     ASSERT (dst \<noteq> 0);
     ASSERT (src \<noteq> 0);
     src_len \<leftarrow> strlen m src;
     dst_len \<leftarrow> strlen m dst;
     if 0 < sz \<and> dst_len < sz
     then do {
       let copy_cnt = (if src_len < sz - dst_len - 1 then src_len else sz - dst_len - 1);
       (_, m) \<leftarrow> memcpy m (dst + dst_len) src copy_cnt;
       m \<leftarrow> store m (dst + dst_len + copy_cnt) 0;
       Some (src_len + dst_len, m)
     }
     else Some (src_len + dst_len, m)
   }"

declare strcmp_loop.simps [simp del] strchr_loop.simps [simp del] span_loop.simps [simp del]
  strpbrk.simps [simp del] strrchr_loop.simps [simp del] strlen_loop.simps [simp del]
  strnlen_loop.simps [simp del] skip_delims.simps [simp del] skip_token.simps [simp del]

section \<open>The string at an address\<close>

fun cstr :: "mem \<Rightarrow> ptr \<Rightarrow> u8 list \<Rightarrow> bool" where
  "cstr m p [] = (fetch m p = Some 0)"
| "cstr m p (c # s) = (fetch m p = Some c \<and> c \<noteq> 0 \<and> cstr m (Suc p) s)"

definition block :: "mem \<Rightarrow> ptr \<Rightarrow> nat \<Rightarrow> u8 list" where
  "block m p n = take n (drop p m)"

lemma fetch_lt: "fetch m p = Some c \<Longrightarrow> p < length m"
  by (simp add: fetch_eq_Some_iff)

lemma cstr_bound: "cstr m p s \<Longrightarrow> p + length s < length m"
proof (induction s arbitrary: p)
  case (Cons c s)
  then show ?case
    using Cons.IH [of "Suc p"] by simp
qed (simp add: fetch_lt)

lemma cstr_nonzero: "cstr m p s \<Longrightarrow> 0 \<notin> set s"
  by (induction s arbitrary: p) auto

lemma cstr_end: "cstr m p s \<Longrightarrow> fetch m (p + length s) = Some 0"
proof (induction s arbitrary: p)
  case (Cons c s)
  then show ?case
    using Cons.IH [of "Suc p"] by simp
qed simp

lemma block_Suc: "block m p (Suc n) = (if p < length m then m ! p # block m (Suc p) n else [])"
  by (simp add: block_def Cons_nth_drop_Suc [symmetric])

lemma block_0 [simp]: "block m p 0 = []"
  by (simp add: block_def)

lemma block_length [simp]: "p + n \<le> length m \<Longrightarrow> length (block m p n) = n"
  by (simp add: block_def)

lemma cstr_block: "cstr m p s \<Longrightarrow> block m p (length s) = s"
  by (induction s arbitrary: p) (auto simp: block_Suc fetch_eq_Some_iff)

lemma cstr_iff: "cstr m p s \<longleftrightarrow> p + length s < length m \<and> block m p (length s) = s \<and> m ! (p + length s) = 0 \<and> 0 \<notin> set s"
proof
  assume "cstr m p s"
  then show "p + length s < length m \<and> block m p (length s) = s \<and> m ! (p + length s) = 0 \<and> 0 \<notin> set s"
    using cstr_bound cstr_block cstr_nonzero cstr_end by (fastforce simp: fetch_eq_Some_iff)
next
  assume "p + length s < length m \<and> block m p (length s) = s \<and> m ! (p + length s) = 0 \<and> 0 \<notin> set s"
  then show "cstr m p s"
    by (induction s arbitrary: p) (auto simp: fetch_eq_Some_iff block_Suc)
qed

lemma cstr_same:
  "cstr m p s \<Longrightarrow> (\<And>i. p \<le> i \<Longrightarrow> i \<le> p + length s \<Longrightarrow> fetch m' i = fetch m i) \<Longrightarrow> cstr m' p s"
  by (induction s arbitrary: p) auto

lemma cstr_suffix: "cstr m p (s @ t) \<Longrightarrow> cstr m (p + length s) t"
  by (induction s arbitrary: p) fastforce+

section \<open>Searching\<close>

lemma strlen_loop_cstr: "cstr m p s \<Longrightarrow> strlen_loop m p = Some (p + length s)"
  by (induction s arbitrary: p) (auto simp: strlen_loop.simps [of m])

lemma strlen_cstr: "cstr m p s \<Longrightarrow> p \<noteq> 0 \<Longrightarrow> strlen m p = Some (length s)"
  by (simp add: strlen_def strlen_loop_cstr)

lemma strnlen_loop_cstr:
  "cstr m (p + k) s \<Longrightarrow> strnlen_loop m p n k = Some (if k < n then k + min (length s) (n - k) else k)"
proof (induction s arbitrary: k)
  case (Cons c s)
  then show ?case
    using Cons.IH [of "Suc k"] by (subst strnlen_loop.simps) auto
qed (simp add: strnlen_loop.simps)

lemma strchr_loop_cstr:
  "cstr m p s \<Longrightarrow> strchr_loop m p c = Some (if c \<in> insert 0 (set s) then p + length (takeWhile (\<lambda>x. x \<noteq> c) s) else 0)"
proof (induction s arbitrary: p)
  case (Cons x s)
  then show ?case
    using Cons.IH [of "Suc p"] by (subst strchr_loop.simps) auto
qed (auto simp: strchr_loop.simps)

lemma strchr_cstr:
  "cstr m p s \<Longrightarrow> p \<noteq> 0 \<Longrightarrow>
    strchr m p c = Some (if c \<in> insert 0 (set s) then p + length (takeWhile (\<lambda>x. x \<noteq> c) s) else 0)"
  by (simp add: strchr_def strchr_loop_cstr)

lemma strchr_found:
  assumes "cstr m p s" and "p \<noteq> 0"
  obtains q where "strchr m p c = Some q" and "q = 0 \<longleftrightarrow> c \<notin> insert 0 (set s)"
  using assms by (auto simp: strchr_cstr split: if_splits)

lemma span_loop_cstr:
  assumes ch: "cstr m chars d" "chars \<noteq> 0" and "cstr m (p + k) s"
  shows "span_loop skip m p chars k = Some (k + length (takeWhile (\<lambda>c. (c \<in> set d) = skip) s))"
  using assms(3)
proof (induction s arbitrary: k)
  case (Cons c s)
  moreover obtain q where "strchr m chars c = Some q" "q = 0 \<longleftrightarrow> c \<notin> insert 0 (set d)"
    using strchr_found [OF ch] by blast
  ultimately show ?case
    using Cons.IH [of "Suc k"] by (subst span_loop.simps) auto
qed (simp add: span_loop.simps)

lemma strpbrk_cstr:
  assumes ch: "cstr m stop d" "stop \<noteq> 0" and "cstr m p s"
  shows "strpbrk m p stop = Some (if \<exists>c \<in> set s. c \<in> set d then p + length (takeWhile (\<lambda>c. c \<notin> set d) s) else 0)"
  using assms(3)
proof (induction s arbitrary: p)
  case (Cons c s)
  moreover obtain q where "strchr m stop c = Some q" "q = 0 \<longleftrightarrow> c \<notin> insert 0 (set d)"
    using strchr_found [OF ch] by blast
  ultimately show ?case
    using Cons.IH [of "Suc p"] by (subst strpbrk.simps) auto
qed (simp add: strpbrk.simps)

lemma takeWhile_shorter: "c \<in> set xs \<Longrightarrow> length (takeWhile (\<lambda>x. x \<noteq> c) xs) < length xs"
  by (induction xs) auto

lemma strrchr_loop_cstr:
  assumes "cstr m p s"
  shows "strrchr_loop m p c q = Some (if c \<in> set s then p + (length s - 1 - length (takeWhile (\<lambda>x. x \<noteq> c) (rev s))) else q)"
  using assms
proof (induction s arbitrary: p q)
  case (Cons x s)
  have "length (takeWhile (\<lambda>x. x \<noteq> c) (rev s)) < length s" if "c \<in> set s"
    using that takeWhile_shorter [of c "rev s"] by simp
  moreover have "takeWhile (\<lambda>y. y \<noteq> c) (rev s @ [x]) = (if c \<in> set s then takeWhile (\<lambda>y. y \<noteq> c) (rev s)
      else if x = c then rev s else rev s @ [x])"
    by (auto simp: takeWhile_append)
  ultimately show ?case
    using Cons.prems Cons.IH [of "Suc p"] by (subst strrchr_loop.simps) auto
qed (simp add: strrchr_loop.simps)

section \<open>Comparison\<close>

definition lex_less :: "u8 list \<Rightarrow> u8 list \<Rightarrow> bool" where
  "lex_less s t \<longleftrightarrow> (s, t) \<in> lexord {(x, y). x < y}"

lemma lex_less_simps [simp]:
  "lex_less [] t = (t \<noteq> [])" "\<not> lex_less s []" "lex_less (x # s) (y # t) = (x < y \<or> x = y \<and> lex_less s t)"
  by (auto simp: lex_less_def neq_Nil_conv)

definition order_sign :: "u8 list \<Rightarrow> u8 list \<Rightarrow> int" where
  "order_sign s t = (if s = t then 0 else if lex_less s t then - 1 else 1)"

lemma u8_pos: "(c :: u8) \<noteq> 0 \<Longrightarrow> 0 < c"
  by (simp add: word_neq_0_conv)

lemma strcmp_loop_cstr: "cstr m a s \<Longrightarrow> cstr m b t \<Longrightarrow> strcmp_loop m a b = Some (order_sign s t)"
proof (induction s arbitrary: a b t)
  case Nil
  then show ?case
    by (cases t) (auto simp: strcmp_loop.simps order_sign_def u8_pos)
next
  case (Cons x s)
  note IH = Cons.IH [of "Suc a" "Suc b"]
  show ?case
    using Cons.prems IH by (cases t) (subst strcmp_loop.simps; auto simp: order_sign_def u8_pos)+
qed

lemma cmp_loop_block:
  "a + n \<le> length m \<Longrightarrow> b + n \<le> length m \<Longrightarrow> cmp_loop m a b n = Some (order_sign (block m a n) (block m b n))"
  by (induction n arbitrary: a b) (auto simp: order_sign_def block_Suc kernel_simps)

section \<open>Copying\<close>

lemma block_update:
  "i < p \<or> p + n \<le> i \<Longrightarrow> block (m[i := v]) p n = block m p n"
  by (auto simp: block_def drop_update_swap)

lemma block_snoc: "p + n < length m \<Longrightarrow> block m p (Suc n) = block m p n @ [m ! (p + n)]"
  by (simp add: block_def take_Suc_conv_app_nth)

lemma copy_up_block:
  "dst \<le> src \<or> src + n \<le> dst \<Longrightarrow> dst + n \<le> length m \<Longrightarrow> src + n \<le> length m \<Longrightarrow>
    copy_up m dst src n = Some (overwrite m dst (block m src n))"
proof (induction n arbitrary: m dst src)
  case (Suc n)
  then show ?case
    using Suc.IH [of "dst + 1" "src + 1" "m[dst := m ! src]"]
    by (auto simp: kernel_simps block_update block_Suc overwrite_Cons)
qed simp

lemma copy_down_block:
  "src \<le> dst \<or> dst + n \<le> src \<Longrightarrow> dst + n \<le> length m \<Longrightarrow> src + n \<le> length m \<Longrightarrow>
    copy_down m (dst + n) (src + n) n = Some (overwrite m dst (block m src n))"
proof (induction n arbitrary: m)
  case (Suc n)
  have "overwrite (m[dst + n := v]) dst (block m src n) = overwrite m dst (block m src n @ [v])" for v
    using Suc.prems overwrite_snoc [of dst "block m src n" m v] by simp
  then show ?case
    using Suc.prems Suc.IH [of "m[dst + n := m ! (src + n)]"]
    by (auto simp: kernel_simps block_update block_snoc)
qed simp

lemma set_bytes_block: "dst + n \<le> length m \<Longrightarrow> set_bytes m dst v n = Some (overwrite m dst (replicate n v))"
  by (induction n arbitrary: m dst) (auto simp: kernel_simps overwrite_Cons)

lemma block_overwrite: "p + length ys \<le> length m \<Longrightarrow> block (overwrite m p ys) p (length ys) = ys"
  by (simp add: block_def overwrite_def)

lemma cstr_overwrite:
  assumes "p + length s < length m" and "0 \<notin> set s"
  shows "cstr (overwrite m p (s @ [0])) p s"
  using assms block_overwrite [of p "s @ [0]" m]
  by (auto simp: cstr_iff block_def overwrite_nth min_def take_add) (simp add: overwrite_def)

lemma strstr_loop_block:
  assumes "cstr m needle t" and "needle \<noteq> 0" and "h \<noteq> 0" and "h + n + length t \<le> Suc (length m)"
  shows "strstr_loop m h needle (length t) n
    = Some (case find (\<lambda>i. block m (h + i) (length t) = t) [0..<n] of None \<Rightarrow> 0 | Some i \<Rightarrow> h + i)"
  using assms(3,4)
proof (induction n arbitrary: h)
  case (Suc n)
  have t: "block m needle (length t) = t" "needle + length t < length m"
    using cstr_block [OF assms(1)] cstr_bound [OF assms(1)] by auto
  have "memcmp m h needle (length t) = Some (order_sign (block m h (length t)) t)"
    using Suc.prems assms(2) t cmp_loop_block [of h "length t" m needle] by (simp add: memcmp_def)
  moreover have "order_sign (block m h (length t)) t = 0 \<longleftrightarrow> block m h (length t) = t"
    by (simp add: order_sign_def)
  moreover have "find P [0..<Suc n] = (if P 0 then Some 0 else map_option Suc (find (\<lambda>i. P (Suc i)) [0..<n]))" for P
    unfolding upt_conv_Cons [OF zero_less_Suc] map_Suc_upt [symmetric] by (simp add: find_map_Suc)
  ultimately show ?case
    using Suc.prems Suc.IH [of "Suc h"] by (simp split: option.splits)
qed simp

lemma copy_terminate:
  assumes "block m src (length t) = t" and "dst + length t < length m" and "src + length t \<le> length m"
    and "dst \<noteq> 0" and "src \<noteq> 0" and "dst + length t \<le> src \<or> src + length t \<le> dst"
  shows "memcpy m dst src (length t) = Some (dst, overwrite m dst t)"
    and "store (overwrite m dst t) (dst + length t) 0 = Some (overwrite m dst (t @ [0]))"
  using assms copy_up_block [of dst src "length t" m] overwrite_append [of dst t m "[0]"]
  by (auto simp: memcpy_def kernel_simps overwrite_Cons)

lemma cstr_prefix:
  assumes "cstr m p s" and "t = take n s"
  shows "block m p (length t) = t" and "0 \<notin> set t" and "length t \<le> length s" and "length t \<le> n"
    and "(if length s < n then length s else n) = length t"
  using assms(2) cstr_block [OF assms(1)] cstr_nonzero [OF assms(1)]
  by (auto simp: block_def dest: in_set_takeD) (metis min.commute take_take)

lemma strlcat_cstr:
  assumes "cstr m dst d" and "cstr m src s" and "dst \<noteq> 0" and "src \<noteq> 0" and "length d < sz"
    and "dst + sz \<le> length m" and "dst + sz \<le> src \<or> src + length s < dst"
  shows "\<exists>m'. strlcat m dst src sz = Some (length s + length d, m') \<and> cstr m' dst (take (sz - 1) (d @ s))"
proof -
  define t where "t = take (sz - length d - 1) s"
  note t = cstr_prefix [OF assms(2) t_def]
  have b: "src + length s < length m" and d: "block m dst (length d) = d" "0 \<notin> set d"
    using cstr_bound [OF assms(2)] cstr_block [OF assms(1)] cstr_nonzero [OF assms(1)] by auto
  have *: "dst + length d + length t < length m" "dst + length d + length t \<le> src \<or> src + length t \<le> dst + length d"
    using t(3,4) assms(5-7) by auto
  have pos: "0 < sz"
    using assms(5) by simp
  from * have "strlcat m dst src sz = Some (length s + length d, overwrite m (dst + length d) (t @ [0]))"
    using assms(3-5) strlen_cstr [OF assms(2,4)] strlen_cstr [OF assms(1,3)] b t(3)
      copy_terminate [OF t(1), of "dst + length d"]
    unfolding strlcat_def by (simp only: bind.bind_lunit ASSERT_holds t(5) Let_def split simp_thms if_True pos)
  moreover have "overwrite m (dst + length d) (t @ [0]) = overwrite m dst ((d @ t) @ [0])"
    using d(1) * by (simp add: overwrite_def block_def take_add ac_simps)
  moreover have "cstr (overwrite m dst ((d @ t) @ [0])) dst (d @ t)"
    using * t(2) d(2) by (intro cstr_overwrite) auto
  moreover have "take (sz - 1) (d @ s) = d @ t"
    using assms(5) by (simp add: t_def diff_right_commute)
  ultimately show ?thesis
    by auto
qed

section \<open>Tokens\<close>

function tokens :: "u8 set \<Rightarrow> u8 list \<Rightarrow> u8 list list" where
  "tokens D s = (let s' = dropWhile (\<lambda>c. c \<in> D) s in
     if s' = [] then [] else takeWhile (\<lambda>c. c \<notin> D) s' # tokens D (dropWhile (\<lambda>c. c \<notin> D) s'))"
  by pat_completeness auto
termination
proof (relation "measure (\<lambda>(D, s). length s)")
  fix D :: "u8 set" and s s' :: "u8 list"
  assume s': "s' = dropWhile (\<lambda>c. c \<in> D) s" "s' \<noteq> []"
  then have "hd s' \<notin> D"
    using hd_dropWhile [of "\<lambda>c. c \<in> D" s] by blast
  with s'(2) have "length (dropWhile (\<lambda>c. c \<notin> D) s') < length s'"
    by (cases s') (auto intro: le_imp_less_Suc simp: length_dropWhile_le)
  also have "\<dots> \<le> length s"
    using s'(1) by (simp add: length_dropWhile_le)
  finally show "((D, dropWhile (\<lambda>c. c \<notin> D) s'), (D, s)) \<in> measure (\<lambda>(D, s). length s)"
    by simp
qed simp

declare tokens.simps [simp del]

lemma tokens_delim: "c \<in> D \<Longrightarrow> tokens D (c # s) = tokens D s"
  by (simp add: tokens.simps [of D "c # s"] tokens.simps [of D s])

lemma skip_delims_cstr:
  assumes dl: "cstr m dl d" "dl \<noteq> 0" and "cstr m p s" and "s' = dropWhile (\<lambda>c. c \<in> set d) s"
  shows "skip_delims m p dl = Some (s' \<noteq> [], p + (length s - length s'))"
  using assms(3,4)
proof (induction s arbitrary: p)
  case Nil
  moreover obtain q where "strchr m dl 0 = Some q" "q \<noteq> 0"
    using strchr_found [OF dl, of 0] by blast
  ultimately show ?case
    by (subst skip_delims.simps) simp
next
  case (Cons c s)
  moreover obtain q where "strchr m dl c = Some q" "q = 0 \<longleftrightarrow> c \<notin> insert 0 (set d)"
    using strchr_found [OF dl] by blast
  moreover have "length (dropWhile (\<lambda>c. c \<in> set d) s) \<le> length s"
    by (rule length_dropWhile_le)
  ultimately show ?case
    using Cons.IH [of "Suc p"] by (subst skip_delims.simps) auto
qed

lemma skip_token_cstr:
  assumes dl: "cstr m dl d" "dl \<noteq> 0" and "cstr m p s"
  shows "skip_token m p dl = Some (p + length (takeWhile (\<lambda>c. c \<notin> set d) s))"
  using assms(3)
proof (induction s arbitrary: p)
  case Nil
  moreover obtain q where "strchr m dl 0 = Some q" "q \<noteq> 0"
    using strchr_found [OF dl, of 0] by blast
  ultimately show ?case
    by (subst skip_token.simps) simp
next
  case (Cons c s)
  moreover obtain q where "strchr m dl c = Some q" "q = 0 \<longleftrightarrow> c \<notin> insert 0 (set d)"
    using strchr_found [OF dl] by blast
  ultimately show ?case
    using Cons.IH [of "Suc p"] by (subst skip_token.simps) auto
qed

lemma cstr_update: "cstr m p s \<Longrightarrow> i < p \<or> p + length s < i \<Longrightarrow> cstr (m[i := v]) p s"
  by (induction s arbitrary: p) (auto simp: fetch_eq_Some_iff)

lemma cstr_cut:
  "cstr m p (s @ c # t) \<Longrightarrow> cstr (m[p + length s := 0]) p s \<and> cstr (m[p + length s := 0]) (Suc (p + length s)) t"
proof (induction s arbitrary: p)
  case Nil
  then show ?case
    by (auto simp: fetch_eq_Some_iff intro: cstr_update)
next
  case (Cons x s)
  then show ?case
    using Cons.IH [of "Suc p"] by (auto simp: fetch_eq_Some_iff)
qed

text \<open>One call: the next token, and the rest of the string for the next call.\<close>

lemma strtok_r_step:
  assumes dl: "cstr m dl d" "dl \<noteq> 0" and s: "cstr m p s" "p \<noteq> 0"
    and a: "a = p \<or> a = 0 \<and> save = p" and far: "dl + length d < p \<or> p + length s < dl"
  shows "case tokens (set d) s of
      [] \<Rightarrow> strtok_r m a dl save = Some (0, p + length s, m)
    | t # ts \<Rightarrow> \<exists>q m' p' s'. strtok_r m a dl save = Some (q, p', m') \<and> q \<noteq> 0 \<and> cstr m' q t \<and> cstr m' p' s' \<and>
        tokens (set d) s' = ts \<and> cstr m' dl d \<and> p \<le> q \<and> q + length t < Suc p' \<and> p' + length s' = p + length s \<and>
        (\<forall>i. i < p \<or> p' \<le> i \<longrightarrow> fetch m' i = fetch m i)"
proof -
  let ?D = "set d"
  define s1 where "s1 = dropWhile (\<lambda>c. c \<in> ?D) s"
  define t where "t = takeWhile (\<lambda>c. c \<notin> ?D) s1"
  define r where "r = dropWhile (\<lambda>c. c \<notin> ?D) s1"
  define q where "q = p + (length s - length s1)"
  have tok: "tokens ?D s = (if s1 = [] then [] else t # tokens ?D r)"
    by (simp add: tokens.simps [of ?D s] s1_def t_def r_def Let_def)
  have s1: "s = takeWhile (\<lambda>c. c \<in> ?D) s @ s1" "s1 = t @ r"
    by (simp_all add: s1_def t_def r_def)
  then have len: "length s1 = length t + length r" "length s1 \<le> length s"
    using length_append [of t r] length_dropWhile_le [of "\<lambda>c. c \<in> ?D" s] by (auto simp: s1_def)
  have cq: "cstr m q (t @ r)"
    using cstr_suffix [of m p "takeWhile (\<lambda>c. c \<in> ?D) s" s1] s(1) s1
    by (metis add_diff_cancel_right' length_append q_def)
  have skd: "skip_delims m p dl = Some (s1 \<noteq> [], q)" and skt: "skip_token m q dl = Some (q + length t)"
    using skip_delims_cstr [OF dl s(1) s1_def] skip_token_cstr [OF dl cq [folded s1(2)]] by (simp_all add: q_def t_def)
  have ev: "strtok_r m a dl save = (if s1 = [] then Some (0, q, m)
      else do { c \<leftarrow> fetch m (q + length t);
        if c \<noteq> 0 then do { m \<leftarrow> store m (q + length t) 0; Some (q, q + length t + 1, m) }
        else Some (q, q + length t, m) })"
    using a s(2) dl(2) by (auto simp: strtok_r_def skd skt)
  show ?thesis
  proof (cases "s1 = []")
    case True
    then show ?thesis
      using ev tok by (simp add: q_def)
  next
    case False
    show ?thesis
    proof (cases r)
      case Nil
      have "fetch m (q + length t) = Some 0"
        using cstr_end [OF cq] Nil by simp
      moreover have "cstr m (q + length t) []"
        using calculation by simp
      ultimately show ?thesis
        using False ev tok cq Nil len s(2) dl(1)
        by simp (intro conjI exI [of _ "[]"], auto simp: q_def)
    next
      case (Cons c r')
      have cut: "cstr (m[q + length t := 0]) q t" "cstr (m[q + length t := 0]) (Suc (q + length t)) r'"
        using cstr_cut [of m q t c r'] cq Cons by auto
      have f: "fetch m (q + length t) = Some c" "c \<noteq> 0"
        using cstr_suffix [OF cq] Cons by auto
      have "c \<in> ?D"
        using Cons hd_dropWhile [of "\<lambda>c. c \<notin> ?D" s1] by (simp add: r_def)
      then have "tokens ?D r' = tokens ?D r"
        by (simp add: Cons tokens_delim)
      moreover have "cstr (m[q + length t := 0]) dl d"
        using far len Cons by (intro cstr_update [OF dl(1)]) (auto simp: q_def)
      ultimately show ?thesis
        using False ev tok cut f len Cons s(2) fetch_lt [OF f(1)]
        by (simp add: store_def) (intro conjI exI [of _ r'], auto simp: q_def fetch_def)
    qed
  qed
qed

section \<open>Properties\<close>

text \<open>
  C23: \<^verbatim>\<open>memmove\<close> copies correctly for every position of the two blocks, overlapping or not: after
  it the destination holds what the source held before, and no other byte has changed.
  The pointer returned is the destination only when the destination is not below the source;
  otherwise it is the end of the destination (the comment promises the destination).
\<close>

theorem memmove_correct:
  assumes "dst \<noteq> 0" and "src \<noteq> 0" and "dst + n \<le> length m" and "src + n \<le> length m"
  shows "memmove m dst src n = Some (if dst < src then dst + n else dst, overwrite m dst (block m src n))"
  using assms by (auto simp: memmove_def copy_up_block copy_down_block)

theorem memmove_correct_witness:
  "memmove [0, 1, 2, 3, 4, 5] 2 1 3 = Some (2, [0, 1, 1, 2, 3, 5])"
  using memmove_correct [of 2 1 3 "[0, 1, 2, 3, 4, 5]"] by (simp add: overwrite_def block_def)

text \<open>
  C24: \<^verbatim>\<open>strcmp\<close> is the lexicographic order on the two strings, bytes compared unsigned: zero
  exactly for equal strings, negative exactly when the first comes before the second.
\<close>

theorem strcmp_lexicographic:
  assumes "cstr m a s" and "cstr m b t" and "a \<noteq> 0" and "b \<noteq> 0"
  shows "strcmp m a b = Some (if s = t then 0 else if (s, t) \<in> lexord {(x, y). x < y} then - 1 else 1)"
  using assms by (simp add: strcmp_def strcmp_loop_cstr order_sign_def lex_less_def)

theorem strcmp_lexicographic_witness:
  "strcmp [0, 97, 98, 0, 97, 200, 0] 1 4 = Some (- 1)"
  using strcmp_lexicographic [of "[0, 97, 98, 0, 97, 200, 0]" 1 "[97, 98]" 4 "[97, 200]"]
  by (simp add: fetch_def)

text \<open>
  \<^verbatim>\<open>strlcpy\<close> returns the length of the source and leaves in the destination the source
  cut to \<^verbatim>\<open>size - 1\<close> bytes, always terminated; it writes only the bytes of that string and
  its terminator, so never more than \<^verbatim>\<open>size\<close> bytes from the destination on.
\<close>

theorem strlcpy_bounded:
  assumes "cstr m src s" and "dst \<noteq> 0" and "src \<noteq> 0" and "0 < sz" and "dst + sz \<le> length m"
    and "dst + sz \<le> src \<or> src + length s < dst"
  shows "\<exists>m'. strlcpy m dst src sz = Some (length s, m') \<and> cstr m' dst (take (sz - 1) s) \<and> cstr m' src s \<and>
    length m' = length m \<and> (\<forall>i < length m. i < dst \<or> dst + min sz (length s + 1) \<le> i \<longrightarrow> m' ! i = m ! i)"
proof -
  define t where "t = take (sz - 1) s"
  note t = cstr_prefix [OF assms(1) t_def]
  let ?m = "overwrite m dst (t @ [0])"
  have b: "src + length s < length m"
    by (rule cstr_bound [OF assms(1)])
  have *: "dst + length t < length m" "dst + length t \<le> src \<or> src + length t \<le> dst"
    using t(3,4) assms(4-6) by auto
  then have ev: "strlcpy m dst src sz = Some (length s, ?m)"
    using assms(2-4) strlen_cstr [OF assms(1,3)] b t(3) copy_terminate [OF t(1), of dst]
    unfolding strlcpy_def by (simp only: bind.bind_lunit ASSERT_holds t(5) Let_def split simp_thms if_True)
  have "length t + 1 = min sz (length s + 1)"
    using assms(4) by (auto simp: t_def)
  then have nth: "?m ! i = m ! i" if "i < dst \<or> dst + min sz (length s + 1) \<le> i" "i < length m" for i
    using that * by (auto simp: overwrite_nth)
  moreover have "cstr ?m src s"
    using assms(5,6) b * nth by (intro cstr_same [OF assms(1)]) (auto simp: fetch_def)
  moreover have "cstr ?m dst t"
    using * t(2) by (intro cstr_overwrite)
  ultimately show ?thesis
    using ev * by (auto simp: t_def)
qed

theorem strlcpy_bounded_witness:
  "\<exists>m'. strlcpy [0, 97, 98, 99, 0, 7, 7, 7] 5 1 2 = Some (3, m') \<and> cstr m' 5 [97] \<and> m' ! 7 = 7"
  using strlcpy_bounded [of "[0, 97, 98, 99, 0, 7, 7, 7]" 1 "[97, 98, 99]" 5 2] by (auto simp: fetch_def)

end
