(* ===== verification/Directory.thy ===== *)
theory Directory
  imports Files Strings
begin

text \<open>
  \<^verbatim>\<open>filesys/directory.c\<close>: a directory is a file of 20-byte entries (sector 4, name 15,
  in-use flag 1).  A \<^verbatim>\<open>struct dir_entry\<close> is the list of its 20 bytes; the local variable
  \<^verbatim>\<open>e\<close> of each function starts with the bytes the stack happens to hold (\<open>junk\<close>), and a short
  read overwrites only its front.  A file name is passed as the bytes of the string, without
  the terminator.  Names are compared and copied with the functions of \<^verbatim>\<open>lib/string.c\<close>, on a
  memory that holds the name and the entry.
\<close>

section \<open>Entries\<close>

definition NAME_MAX :: nat where
  "NAME_MAX = 14"

definition SIZEOF_DIR_ENTRY :: nat where
  "SIZEOF_DIR_ENTRY = 20"

definition inode_sector :: "byte list \<Rightarrow> u32" where
  "inode_sector e = bytes_u32 e"

definition in_use :: "byte list \<Rightarrow> bool" where
  "in_use e \<longleftrightarrow> e ! 19 \<noteq> 0"

definition name_matches :: "byte list \<Rightarrow> byte list \<Rightarrow> bool kernel" where
  "name_matches name e = do {
     r \<leftarrow> strcmp (0 # name @ 0 # e) 1 (length name + 2 + 4);
     Some (r = 0)
   }"

definition set_name :: "byte list \<Rightarrow> byte list \<Rightarrow> byte list kernel" where
  "set_name name e = do {
     (_, m) \<leftarrow> strlcpy (0 # name @ 0 # e) (length name + 2 + 4) 1 (NAME_MAX + 1);
     Some (drop (length name + 2) m)
   }"

definition get_name :: "byte list \<Rightarrow> byte list \<Rightarrow> byte list kernel" where
  "get_name buf e = do {
     (_, m) \<leftarrow> strlcpy (0 # e @ buf) 21 5 (NAME_MAX + 1);
     Some (drop 21 m)
   }"

section \<open>Directories\<close>

definition dir_create :: "u32 \<Rightarrow> size_t \<Rightarrow> fs \<Rightarrow> (bool \<times> fs) kernel" where
  "dir_create sec entry_cnt s = inode_create sec (sint (entry_cnt * of_nat SIZEOF_DIR_ENTRY)) s"

definition dir_open :: "addr \<Rightarrow> fs \<Rightarrow> (addr \<times> fs) kernel" where
  "dir_open a s =
     (let (m, mem) = malloc (mallocs s); s = s\<lparr>mallocs := mem\<rparr> in
      case m of
        Some d \<Rightarrow>
          if a \<noteq> NULL then Some (d, s\<lparr>dirs := (dirs s)(d \<mapsto> \<lparr>d_inode = a, d_pos = 0\<rparr>)\<rparr>)
          else do { s \<leftarrow> inode_close a s; Some (NULL, s) }
      | None \<Rightarrow> do { s \<leftarrow> inode_close a s; Some (NULL, s) })"

definition dir_open_root :: "fs \<Rightarrow> (addr \<times> fs) kernel" where
  "dir_open_root s = do { (a, s) \<leftarrow> inode_open s ROOT_DIR_SECTOR; dir_open a s }"

definition dir_reopen :: "addr \<Rightarrow> fs \<Rightarrow> (addr \<times> fs) kernel" where
  "dir_reopen d s = do {
     dd \<leftarrow> dirs s d;
     (a, s) \<leftarrow> inode_reopen s (d_inode dd);
     dir_open a s
   }"

definition dir_close :: "addr \<Rightarrow> fs \<Rightarrow> fs kernel" where
  "dir_close d s =
     (if d \<noteq> NULL
      then do {
        dd \<leftarrow> dirs s d;
        s \<leftarrow> inode_close (d_inode dd) s;
        Some (s\<lparr>dirs := (dirs s)(d := None)\<rparr>)
      }
      else Some s)"

definition dir_get_inode :: "addr \<Rightarrow> fs \<Rightarrow> addr kernel" where
  "dir_get_inode d s = map_option d_inode (dirs s d)"

definition dir_left :: "fs \<Rightarrow> addr \<Rightarrow> int \<Rightarrow> nat" where
  "dir_left s a ofs = (case inodes s a of Some ip \<Rightarrow> nat (len (data ip) - ofs) | None \<Rightarrow> 0)"

lemma dir_left_read:
  assumes "inode_read_at s a 20 ofs = Some (bs, s')" and "length bs = 20"
  shows "dir_left s' a (ofs + 20) < dir_left s a ofs"
proof -
  obtain ip mem where "inodes s a = Some ip" "s' = s\<lparr>mallocs := mem\<rparr>" "bs \<noteq> [] \<Longrightarrow> ofs < len (data ip)"
    using inode_read_at_frame [OF assms(1)] by blast
  then show ?thesis
    using assms(2) by (cases bs) (auto simp: dir_left_def)
qed

function entry_loop :: "(byte list \<Rightarrow> bool kernel) \<Rightarrow> addr \<Rightarrow> byte list \<Rightarrow> int \<Rightarrow> fs \<Rightarrow>
    (bool \<times> byte list \<times> int \<times> fs) kernel" where
  "entry_loop stop a e ofs s = do {
     (bs, s) \<leftarrow> inode_read_at s a 20 ofs;
     let e = bs @ drop (length bs) e;
     if length bs = SIZEOF_DIR_ENTRY
     then do { b \<leftarrow> stop e; if b then Some (True, e, ofs, s) else entry_loop stop a e (ofs + 20) s }
     else Some (False, e, ofs, s)
   }"
  by pat_completeness auto
termination
  by (relation "measure (\<lambda>(stop, a, e, ofs, s). dir_left s a ofs)")
    (auto simp: SIZEOF_DIR_ENTRY_def intro: dir_left_read)

declare entry_loop.simps [simp del]

definition lookup :: "addr \<Rightarrow> byte list \<Rightarrow> byte list \<Rightarrow> fs \<Rightarrow> (bool \<times> byte list \<times> int \<times> fs) kernel" where
  "lookup d name junk s = do {
     ASSERT (d \<noteq> NULL);
     dd \<leftarrow> dirs s d;
     entry_loop (\<lambda>e. if in_use e then name_matches name e else Some False) (d_inode dd) junk 0 s
   }"

definition dir_lookup :: "addr \<Rightarrow> byte list \<Rightarrow> byte list \<Rightarrow> fs \<Rightarrow> (bool \<times> addr \<times> fs) kernel" where
  "dir_lookup d name junk s = do {
     (found, e, _, s) \<leftarrow> lookup d name junk s;
     (a, s) \<leftarrow> (if found then inode_open s (inode_sector e) else Some (NULL, s));
     Some (a \<noteq> NULL, a, s)
   }"

definition dir_add :: "addr \<Rightarrow> byte list \<Rightarrow> u32 \<Rightarrow> byte list \<Rightarrow> fs \<Rightarrow> (bool \<times> fs) kernel" where
  "dir_add d name sec junk s = do {
     ASSERT (d \<noteq> NULL);
     if name = [] \<or> NAME_MAX < length name then Some (False, s)
     else do {
       (found, _, _, s) \<leftarrow> lookup d name junk s;
       if found then Some (False, s)
       else do {
         dd \<leftarrow> dirs s d;
         (_, e, ofs, s) \<leftarrow> entry_loop (\<lambda>e. Some (\<not> in_use e)) (d_inode dd) junk 0 s;
         e \<leftarrow> store e 19 1;
         e \<leftarrow> set_name name e;
         let e = u32_bytes sec @ drop 4 e;
         (n, s) \<leftarrow> inode_write_at s (d_inode dd) e 20 ofs;
         Some (n = 20, s)
       }
     }
   }"

definition dir_remove :: "addr \<Rightarrow> byte list \<Rightarrow> byte list \<Rightarrow> fs \<Rightarrow> (bool \<times> fs) kernel" where
  "dir_remove d name junk s = do {
     ASSERT (d \<noteq> NULL);
     (found, e, ofs, s) \<leftarrow> lookup d name junk s;
     if \<not> found then Some (False, s)
     else do {
       (a, s) \<leftarrow> inode_open s (inode_sector e);
       if a = NULL then Some (False, s)
       else do {
         e \<leftarrow> store e 19 0;
         dd \<leftarrow> dirs s d;
         (n, s) \<leftarrow> inode_write_at s (d_inode dd) e 20 ofs;
         if n \<noteq> 20
         then do { s \<leftarrow> inode_close a s; Some (False, s) }
         else do { s \<leftarrow> inode_remove s a; s \<leftarrow> inode_close a s; Some (True, s) }
       }
     }
   }"

definition dir_rest :: "fs \<Rightarrow> addr \<Rightarrow> nat" where
  "dir_rest s d = (case dirs s d of Some dd \<Rightarrow> dir_left s (d_inode dd) (d_pos dd) | None \<Rightarrow> 0)"

lemma dir_rest_read:
  assumes "dirs s d = Some dd" and "inode_read_at s (d_inode dd) 20 (d_pos dd) = Some (bs, s')" and "length bs = 20"
  shows "dir_rest (s'\<lparr>dirs := (dirs s)(d \<mapsto> dd\<lparr>d_pos := d_pos dd + 20\<rparr>)\<rparr>) d < dir_rest s d"
  using dir_left_read [OF assms(2,3)] assms(1) by (simp add: dir_rest_def dir_left_def)

function dir_readdir :: "addr \<Rightarrow> byte list \<Rightarrow> byte list \<Rightarrow> fs \<Rightarrow> (bool \<times> byte list \<times> fs) kernel" where
  "dir_readdir d name e s = do {
     dd \<leftarrow> dirs s d;
     (bs, s') \<leftarrow> inode_read_at s (d_inode dd) 20 (d_pos dd);
     let e = bs @ drop (length bs) e;
     if length bs = SIZEOF_DIR_ENTRY
     then do {
       let s'' = s'\<lparr>dirs := (dirs s)(d \<mapsto> dd\<lparr>d_pos := d_pos dd + 20\<rparr>)\<rparr>;
       if in_use e
       then do { name \<leftarrow> get_name name e; Some (True, name, s'') }
       else dir_readdir d name e s''
     }
     else Some (False, name, s')
   }"
  by pat_completeness auto
termination
  by (relation "measure (\<lambda>(d, name, e, s). dir_rest s d)") (auto simp: SIZEOF_DIR_ENTRY_def intro: dir_rest_read)

declare dir_readdir.simps [simp del]

section \<open>Names in entries\<close>

definition has_name :: "byte list \<Rightarrow> byte list \<Rightarrow> bool" where
  "has_name name e \<longleftrightarrow> take (length name + 1) (drop 4 e) = name @ [0]"

definition valid_name :: "byte list \<Rightarrow> bool" where
  "valid_name name \<longleftrightarrow> name \<noteq> [] \<and> length name \<le> NAME_MAX \<and> 0 \<notin> set name"

lemma strcmp_loop_zero:
  assumes "cstr m a s" and "b + length s < length m"
  shows "\<exists>r. strcmp_loop m a b = Some r \<and> (r = 0 \<longleftrightarrow> block m b (length s + 1) = s @ [0])"
  using assms
proof (induction s arbitrary: a b)
  case Nil
  then show ?case
    using word_neq_0_conv [of "m ! b"] by (subst strcmp_loop.simps) (auto simp: block_Suc kernel_simps)
next
  case (Cons x s)
  then have "\<exists>r. strcmp_loop m (Suc a) (Suc b) = Some r \<and> (r = 0 \<longleftrightarrow> block m (Suc b) (length s + 1) = s @ [0])"
    by simp
  then show ?case
    using Cons.prems by (subst strcmp_loop.simps) (auto simp: block_Suc kernel_simps)
qed

lemma drop_prefix: "drop (length xs + k) (xs @ ys) = drop k ys"
  by simp

lemma overwrite_prefix: "overwrite (xs @ ys) (length xs + k) zs = xs @ overwrite ys k zs"
  by (simp add: overwrite_def)

lemma cstr_front: "0 \<notin> set name \<Longrightarrow> cstr (0 # name @ 0 # e) 1 name"
  by (simp add: cstr_iff block_def)

lemma name_matches_eq:
  assumes "0 \<notin> set name" and "length name \<le> 15" and "length e = 20"
  shows "name_matches name e = Some (has_name name e)"
proof -
  let ?m = "0 # name @ 0 # e" and ?b = "length name + 2 + 4"
  have "?b + length name < length ?m"
    using assms(2,3) by simp
  from strcmp_loop_zero [OF cstr_front [OF assms(1)] this]
  obtain r where r: "strcmp_loop ?m 1 ?b = Some r" "r = 0 \<longleftrightarrow> block ?m ?b (length name + 1) = name @ [0]"
    by blast
  moreover have "block ?m ?b n = take n (drop 4 e)" for n
    using drop_prefix [of "0 # name @ [0]" 4 e] by (simp add: block_def)
  ultimately show ?thesis
    by (simp add: name_matches_def strcmp_def has_name_def)
qed

lemma set_name_eq:
  assumes "0 \<notin> set name" and "length name \<le> NAME_MAX" and "length e = 20"
  shows "set_name name e = Some (overwrite e 4 (name @ [0]))"
proof -
  let ?m = "0 # name @ 0 # e" and ?b = "length name + 2 + 4"
  have len: "strlen ?m 1 = Some (length name)"
    by (rule strlen_cstr [OF cstr_front [OF assms(1)]]) simp
  have b: "block ?m 1 (length name) = name"
    by (simp add: block_def)
  have k: "(if length name < NAME_MAX + 1 - 1 then length name else NAME_MAX + 1 - 1) = length name"
    using assms(2) by auto
  have "strlcpy ?m ?b 1 (NAME_MAX + 1) = Some (length name, overwrite ?m ?b (name @ [0]))"
    unfolding strlcpy_def len using copy_terminate [of ?m 1 name ?b, OF b] assms(2,3)
    by (simp only: bind.bind_lunit Let_def k) (simp add: NAME_MAX_def)
  moreover have "overwrite ?m ?b (name @ [0]) = (0 # name @ [0]) @ overwrite e 4 (name @ [0])"
    using overwrite_prefix [of "0 # name @ [0]" e 4] by simp
  ultimately show ?thesis
    by (simp add: set_name_def)
qed

lemma takeWhile_tail_zero: "0 \<notin> set xs \<Longrightarrow> takeWhile (\<lambda>c. c \<noteq> 0) (xs @ 0 # ys) = xs"
  by (induction xs) auto

lemma has_name_set:
  assumes "valid_name name" and "length e = 20" and "0 \<notin> set name'" and "length x = 4"
  shows "has_name name' (x @ drop 4 (overwrite e 4 (name @ [0]))) \<longleftrightarrow> name' = name"
proof -
  have "has_name name' (x @ drop 4 (overwrite e 4 (name @ [0])))
      \<longleftrightarrow> take (length name' + 1) (name @ 0 # drop (5 + length name) e) = name' @ [0]"
    using assms(2,4) by (simp add: has_name_def overwrite_def)
  also have "\<dots> \<longleftrightarrow> name' = name"
  proof
    assume t: "take (length name' + 1) (name @ 0 # drop (5 + length name) e) = name' @ [0]"
    have "0 \<notin> set name"
      using assms(1) by (simp add: valid_name_def)
    moreover have "name @ 0 # drop (5 + length name) e = name' @ 0 # drop (length name' + 1) (name @ 0 # drop (5 + length name) e)"
      using append_take_drop_id [of "length name' + 1" "name @ 0 # drop (5 + length name) e"] unfolding t by simp
    ultimately show "name' = name"
      using assms(3) takeWhile_tail_zero by metis
  qed simp
  finally show ?thesis .
qed

section \<open>Scanning a directory\<close>

definition entry :: "byte list \<Rightarrow> nat \<Rightarrow> byte list" where
  "entry cs i = take 20 (drop (20 * i) cs)"

definition n_slots :: "byte list \<Rightarrow> nat" where
  "n_slots cs = length cs div 20"

lemma entry_length: "i < n_slots cs \<Longrightarrow> length (entry cs i) = 20"
  by (auto simp: entry_def n_slots_def)

lemma read_entry:
  assumes "inodes s a = Some ip" and "inode_ok (dsk s) ip" and "plenty (mallocs s)"
  obtains mem where "inode_read_at s a 20 (20 * int k) = Some (entry (contents (dsk s) ip) k, s\<lparr>mallocs := mem\<rparr>)"
    and "later (mallocs s) mem"
proof -
  obtain mem where r: "inode_read_at s a 20 (20 * int k)
      = Some (take (nat 20) (drop (nat (20 * int k)) (contents (dsk s) ip)), s\<lparr>mallocs := mem\<rparr>)"
    using inode_read_at_spec [OF assms(1,2) _ plenty_malloc [OF assms(3)]] by (metis mult_nonneg_nonneg of_nat_0_le_iff zero_le_numeral)
  moreover have "later (mallocs s) (mallocs (s\<lparr>mallocs := mem\<rparr>))"
    using inode_read_at_frame [OF r] by (metis fs.select_convs(8) fs.surjective fs.update_convs(8))
  ultimately show ?thesis
    using that by (simp add: entry_def nat_mult_distrib)
qed

lemma entry_loop_spec:
  assumes "inodes s a = Some ip" and "inode_ok (dsk s) ip" and "plenty (mallocs s)"
    and stop: "\<And>e. length e = 20 \<Longrightarrow> stop e = Some (P e)" and "k \<le> n_slots (contents (dsk s) ip)" and "length e = 20"
  shows "\<exists>e' mem. later (mallocs s) mem \<and> length e' = 20 \<and>
    entry_loop stop a e (20 * int k) s =
      Some (case find (\<lambda>i. P (entry (contents (dsk s) ip) i)) [k..<n_slots (contents (dsk s) ip)] of
          None \<Rightarrow> (False, e', 20 * int (n_slots (contents (dsk s) ip)), s\<lparr>mallocs := mem\<rparr>)
        | Some i \<Rightarrow> (True, entry (contents (dsk s) ip) i, 20 * int i, s\<lparr>mallocs := mem\<rparr>))"
  using assms(1-3,5,6)
proof (induction "n_slots (contents (dsk s) ip) - k" arbitrary: k e s)
  case 0
  let ?cs = "contents (dsk s) ip"
  obtain mem where r: "inode_read_at s a 20 (20 * int k) = Some (entry ?cs k, s\<lparr>mallocs := mem\<rparr>)" "later (mallocs s) mem"
    using read_entry [OF 0(2-4)] by blast
  have k: "k = n_slots ?cs"
    using 0 by simp
  have l: "length (entry ?cs k) < 20"
    by (simp add: k entry_def n_slots_def)
  then have "length (entry ?cs k @ drop (length (entry ?cs k)) e) = 20" "length (entry ?cs k) \<noteq> SIZEOF_DIR_ENTRY"
    using 0(6) by (auto simp: SIZEOF_DIR_ENTRY_def)
  then show ?case
    using r k by (subst entry_loop.simps) (auto simp: Let_def)
next
  case (Suc n)
  let ?cs = "contents (dsk s) ip"
  obtain mem where r: "inode_read_at s a 20 (20 * int k) = Some (entry ?cs k, s\<lparr>mallocs := mem\<rparr>)" "later (mallocs s) mem"
    using read_entry [OF Suc(3-5)] by blast
  have k: "k < n_slots ?cs"
    using Suc(2) by simp
  then have l: "length (entry ?cs k) = 20"
    by (rule entry_length)
  let ?s = "s\<lparr>mallocs := mem\<rparr>"
  have "n = n_slots (contents (dsk ?s) ip) - Suc k" "inodes ?s a = Some ip" "inode_ok (dsk ?s) ip" "plenty (mallocs ?s)"
      "Suc k \<le> n_slots (contents (dsk ?s) ip)"
    using Suc(2-4) k plenty_later [OF Suc(5) r(2)] by auto
  from Suc(1) [OF this l] obtain e' mem' where m: "later mem mem'" "length e' = 20"
    and ev: "entry_loop stop a (entry ?cs k) (20 * int (Suc k)) ?s =
      Some (case find (\<lambda>i. P (entry ?cs i)) [Suc k..<n_slots ?cs] of
          None \<Rightarrow> (False, e', 20 * int (n_slots ?cs), s\<lparr>mallocs := mem'\<rparr>)
        | Some i \<Rightarrow> (True, entry ?cs i, 20 * int i, s\<lparr>mallocs := mem'\<rparr>))"
    by (auto cong: option.case_cong)
  have "entry_loop stop a e (20 * int k) s = (if P (entry ?cs k) then Some (True, entry ?cs k, 20 * int k, ?s)
      else entry_loop stop a (entry ?cs k) (20 * int (Suc k)) ?s)"
    using r l Suc(7) by (subst entry_loop.simps) (simp add: Let_def SIZEOF_DIR_ENTRY_def stop add.commute)
  then show ?case
    using ev m r(2) k l later_trans [OF r(2) m(1)] by (auto simp: upt_conv_Cons)
qed

section \<open>A directory as a map from names to sectors\<close>

definition live :: "byte list \<Rightarrow> byte list \<Rightarrow> bool" where
  "live name e \<longleftrightarrow> in_use e \<and> has_name name e"

definition dir_map :: "byte list \<Rightarrow> byte list \<Rightarrow> u32 option" where
  "dir_map cs name = map_option (\<lambda>i. inode_sector (entry cs i)) (find (\<lambda>i. live name (entry cs i)) [0..<n_slots cs])"

definition dir_at :: "fs \<Rightarrow> addr \<Rightarrow> dir \<Rightarrow> inode \<Rightarrow> bool" where
  "dir_at s d dd ip \<longleftrightarrow> d \<noteq> NULL \<and> dirs s d = Some dd \<and> inodes s (d_inode dd) = Some ip \<and>
     inode_ok (dsk s) ip \<and> plenty (mallocs s)"

lemma dir_at_mallocs: "dir_at s d dd ip \<Longrightarrow> later (mallocs s) mem \<Longrightarrow> dir_at (s\<lparr>mallocs := mem\<rparr>) d dd ip"
  by (auto simp: dir_at_def plenty_later)

lemma lookup_spec:
  assumes "dir_at s d dd ip" and "0 \<notin> set name" and "length name \<le> 15" and "length junk = 20"
  shows "\<exists>e' mem. later (mallocs s) mem \<and>
    lookup d name junk s =
      Some (case find (\<lambda>i. live name (entry (contents (dsk s) ip) i)) [0..<n_slots (contents (dsk s) ip)] of
          None \<Rightarrow> (False, e', 20 * int (n_slots (contents (dsk s) ip)), s\<lparr>mallocs := mem\<rparr>)
        | Some i \<Rightarrow> (True, entry (contents (dsk s) ip) i, 20 * int i, s\<lparr>mallocs := mem\<rparr>))"
proof -
  let ?stop = "\<lambda>e. if in_use e then name_matches name e else Some False"
  have stop: "?stop e = Some (live name e)" if "length e = 20" for e
    using name_matches_eq [OF assms(2,3) that] by (simp add: live_def)
  have d: "inodes s (d_inode dd) = Some ip" "inode_ok (dsk s) ip" "plenty (mallocs s)" "d \<noteq> NULL" "dirs s d = Some dd"
    using assms(1) by (auto simp: dir_at_def)
  show ?thesis
    using entry_loop_spec [OF d(1-3), of ?stop "live name" 0 junk] stop assms(4) d(4,5) by (simp add: lookup_def) blast
qed

lemma entry_overwrite:
  assumes "20 * i + length ys \<le> length cs" and "length ys \<le> 20" and "j < n_slots cs"
  shows "entry (overwrite cs (20 * i) ys) j = (if j = i \<and> length ys = 20 then ys else if j = i then entry (overwrite cs (20 * i) ys) j
    else entry cs j)" and "n_slots (overwrite cs (20 * i) ys) = n_slots cs"
proof -
  have len: "length (overwrite cs (20 * i) ys) = length cs"
    using assms(1) by simp
  then show "n_slots (overwrite cs (20 * i) ys) = n_slots cs"
    by (simp add: n_slots_def)
  have "20 * j + 20 \<le> length cs"
    using assms(3) by (simp add: n_slots_def)
  moreover have "i < j \<or> j < i" if "j \<noteq> i"
    using that by auto
  ultimately have "entry (overwrite cs (20 * i) ys) j = entry cs j" if "j \<noteq> i"
    using that assms(1,2) len
    by (intro nth_equalityI) (auto simp: entry_def overwrite_nth)
  moreover have "entry (overwrite cs (20 * i) ys) i = ys" if "length ys = 20"
    using overwrite_read [OF assms(1)] that by (simp add: entry_def)
  ultimately show "entry (overwrite cs (20 * i) ys) j = (if j = i \<and> length ys = 20 then ys
      else if j = i then entry (overwrite cs (20 * i) ys) j else entry cs j)"
    by auto
qed

lemma find_upt_None: "find P [0..<n] = None \<longleftrightarrow> (\<forall>i < n. \<not> P i)"
  by (auto simp: find_None_iff)

lemma find_upt_Some: "find P [0..<n] = Some i \<Longrightarrow> i < n \<and> P i"
  by (auto simp: find_Some_iff)

lemma find_upt_index:
  assumes "k = (case find P [0..<n] of None \<Rightarrow> n | Some i \<Rightarrow> i)"
  shows "k \<le> n" and "k < n \<longleftrightarrow> (\<exists>i < n. P i)" and "k < n \<Longrightarrow> P k"
proof -
  have "k \<le> n \<and> (k < n \<longleftrightarrow> (\<exists>i < n. P i)) \<and> (k < n \<longrightarrow> P k)"
  proof (cases "find P [0..<n]")
    case None
    then show ?thesis
      using assms find_upt_None [of P n] by auto
  next
    case (Some i)
    then show ?thesis
      using assms find_upt_Some [OF Some] by auto
  qed
  then show "k \<le> n" and "k < n \<longleftrightarrow> (\<exists>i < n. P i)" and "k < n \<Longrightarrow> P k"
    by blast+
qed

lemma find_upt_unique: "P i \<Longrightarrow> i < n \<Longrightarrow> (\<And>j. j < n \<Longrightarrow> j \<noteq> i \<Longrightarrow> \<not> P j) \<Longrightarrow> find P [0..<n] = Some i"
  by (auto simp: find_Some_iff intro!: exI [of _ i])

lemma dir_map_slot:
  assumes "n_slots cs' = n_slots cs" and "i < n_slots cs" and "\<not> in_use (entry cs i)" and "dir_map cs name = None"
    and "\<And>j. j < n_slots cs \<Longrightarrow> j \<noteq> i \<Longrightarrow> entry cs' j = entry cs j" and "in_use (entry cs' i)"
    and "has_name name (entry cs' i)" and "has_name name' (entry cs' i) \<longleftrightarrow> name' = name"
  shows "dir_map cs' name' = (if name' = name then Some (inode_sector (entry cs' i)) else dir_map cs name')"
proof (cases "name' = name")
  case True
  have "\<not> live name (entry cs j)" if "j < n_slots cs" for j
    using assms(4) that by (simp add: dir_map_def find_upt_None)
  then have "find (\<lambda>i. live name (entry cs' i)) [0..<n_slots cs] = Some i"
    using assms(2,5-7) by (intro find_upt_unique) (auto simp: live_def)
  with True show ?thesis
    using assms(1) by (simp add: dir_map_def)
next
  case False
  have "live name' (entry cs' j) = live name' (entry cs j)" if "j < n_slots cs" for j
    using that assms(3,5,8) False by (cases "j = i") (auto simp: live_def)
  then have "find (\<lambda>i. live name' (entry cs' i)) [0..<n_slots cs] = find (\<lambda>i. live name' (entry cs i)) [0..<n_slots cs]"
    by (intro find_cong) auto
  moreover have "entry cs' j = entry cs j" if "find (\<lambda>i. live name' (entry cs i)) [0..<n_slots cs] = Some j" for j
    using find_upt_Some [OF that] assms(3,5) by (cases "j = i") (auto simp: live_def)
  ultimately show ?thesis
    using False assms(1) by (cases "find (\<lambda>i. live name' (entry cs i)) [0..<n_slots cs]") (auto simp: dir_map_def)
qed

lemma dir_map_same:
  assumes "n_slots cs' = n_slots cs" and "\<And>j. j < n_slots cs \<Longrightarrow> entry cs' j = entry cs j"
  shows "dir_map cs' name = dir_map cs name"
proof -
  have "find (\<lambda>i. live name (entry cs' i)) [0..<n_slots cs] = find (\<lambda>i. live name (entry cs i)) [0..<n_slots cs]"
    using assms(2) by (intro find_cong) auto
  moreover have "entry cs' j = entry cs j" if "find (\<lambda>i. live name (entry cs i)) [0..<n_slots cs] = Some j" for j
    using find_upt_Some [OF that] assms(2) by simp
  ultimately show ?thesis
    using assms(1) by (cases "find (\<lambda>i. live name (entry cs i)) [0..<n_slots cs]") (auto simp: dir_map_def)
qed

section \<open>Adding an entry\<close>

definition new_entry :: "byte list \<Rightarrow> u32 \<Rightarrow> byte list \<Rightarrow> byte list" where
  "new_entry name sec e = u32_bytes sec @ drop 4 (overwrite (e[19 := 1]) 4 (name @ [0]))"

lemma new_entry_facts:
  assumes "valid_name name" and "length e = 20"
  shows "length (new_entry name sec e) = 20" and "in_use (new_entry name sec e)"
    and "inode_sector (new_entry name sec e) = sec"
    and "0 \<notin> set name' \<Longrightarrow> has_name name' (new_entry name sec e) \<longleftrightarrow> name' = name"
proof -
  have l: "4 + length (name @ [0]) \<le> length (e[19 := 1])"
    using assms by (simp add: valid_name_def NAME_MAX_def)
  show "length (new_entry name sec e) = 20"
    using l assms(2) by (simp add: new_entry_def)
  have "new_entry name sec e ! 19 = overwrite (e[19 := 1]) 4 (name @ [0]) ! 19"
    using l assms(2) by (simp add: new_entry_def nth_append)
  also have "\<dots> = 1"
    using l assms by (subst overwrite_nth) (auto simp: valid_name_def NAME_MAX_def)
  finally show "in_use (new_entry name sec e)"
    by (simp add: in_use_def)
  show "inode_sector (new_entry name sec e) = sec"
    by (simp add: new_entry_def inode_sector_def)
  show "has_name name' (new_entry name sec e) \<longleftrightarrow> name' = name" if "0 \<notin> set name'"
    using has_name_set [OF assms(1) _ that, of "e[19 := 1]" "u32_bytes sec"] assms(2) by (simp add: new_entry_def)
qed

lemma write_entry:
  assumes "dir_at s d dd ip" and "deny_write_cnt ip = 0" and "length e = 20" and "k \<le> n_slots (contents (dsk s) ip)"
  obtains n s' ys where "inode_write_at s (d_inode dd) e 20 (20 * int k) = Some (n, s')" and "dir_at s' d dd ip"
    and "untouched (dsk s) (dsk s') ip" and "contents (dsk s') ip = overwrite (contents (dsk s) ip) (20 * k) ys"
    and "20 * k + length ys \<le> length (contents (dsk s) ip)" and "length ys \<le> 20"
    and "n = 20 \<longleftrightarrow> k < n_slots (contents (dsk s) ip)" and "k < n_slots (contents (dsk s) ip) \<Longrightarrow> ys = e"
proof -
  let ?cs = "contents (dsk s) ip"
  define m where "m = nat (min 20 (len (data ip) - 20 * int k))"
  have d: "inodes s (d_inode dd) = Some ip" "inode_ok (dsk s) ip" "plenty (mallocs s)"
    using assms(1) by (auto simp: dir_at_def)
  have lc: "length ?cs = nat (len (data ip))" "0 \<le> len (data ip)"
    using contents_length [OF d(2)] d(2) by (auto simp: inode_ok_def)
  have le: "nat 20 \<le> length e" "0 \<le> 20 * int k"
    using assms(3) by auto
  obtain d' mem where w: "inode_write_at s (d_inode dd) e 20 (20 * int k) = Some (int m, s\<lparr>dsk := d', mallocs := mem\<rparr>)"
      "inode_ok d' ip" "untouched (dsk s) d' ip"
      "contents d' ip = overwrite ?cs (nat (20 * int k)) (take m e)"
    using inode_write_at_spec [OF d(1,2) le(2) plenty_malloc [OF d(3)] assms(2) le(1) m_def] by blast
  have "later (mallocs s) mem"
    using inode_write_at_later [OF w(1)] by simp
  then have at: "dir_at (s\<lparr>dsk := d', mallocs := mem\<rparr>) d dd ip"
    using assms(1) w(2) plenty_later by (auto simp: dir_at_def)
  have kn: "20 * k \<le> length ?cs"
    using assms(4) by (simp add: n_slots_def) 
  have m20: "int m = 20 \<longleftrightarrow> k < n_slots ?cs" "m \<le> 20" "20 * k + m \<le> length ?cs"
    using lc kn by (auto simp: m_def n_slots_def)
  show ?thesis
    by (rule that [OF w(1) at, of "take m e"]) (use w(3,4) m20 assms(3) in \<open>auto simp: nat_mult_distrib\<close>)
qed

text \<open>The search of \<^verbatim>\<open>dir_add\<close> for a free entry ends at the first one, or behind the last entry.\<close>
lemma free_slot_search:
  assumes "dir_at s d dd ip" and "length junk = 20"
  obtains f e mem k where "later (mallocs s) mem" and "length e = 20"
    and "entry_loop (\<lambda>e. Some (\<not> in_use e)) (d_inode dd) junk 0 s = Some (f, e, 20 * int k, s\<lparr>mallocs := mem\<rparr>)"
    and "k \<le> n_slots (contents (dsk s) ip)"
    and "k < n_slots (contents (dsk s) ip) \<longleftrightarrow> (\<exists>i < n_slots (contents (dsk s) ip). \<not> in_use (entry (contents (dsk s) ip) i))"
    and "k < n_slots (contents (dsk s) ip) \<longrightarrow> \<not> in_use (entry (contents (dsk s) ip) k)"
proof -
  let ?cs = "contents (dsk s) ip"
  let ?find = "find (\<lambda>i. \<not> in_use (entry ?cs i)) [0..<n_slots ?cs]"
  define k where "k = (case ?find of None \<Rightarrow> n_slots ?cs | Some i \<Rightarrow> i)"
  have d: "inodes s (d_inode dd) = Some ip" "inode_ok (dsk s) ip" "plenty (mallocs s)"
    using assms(1) by (auto simp: dir_at_def)
  obtain e mem where lp: "later (mallocs s) mem" "length e = 20"
    "entry_loop (\<lambda>e. Some (\<not> in_use e)) (d_inode dd) junk (20 * int 0) s
      = Some (case ?find of None \<Rightarrow> (False, e, 20 * int (n_slots ?cs), s\<lparr>mallocs := mem\<rparr>)
      | Some i \<Rightarrow> (True, entry ?cs i, 20 * int i, s\<lparr>mallocs := mem\<rparr>))"
    using entry_loop_spec [OF d, of "\<lambda>e. Some (\<not> in_use e)" "\<lambda>e. \<not> in_use e" 0 junk] assms(2)
    by (auto cong: option.case_cong)
  have k: "k \<le> n_slots ?cs" "k < n_slots ?cs \<longleftrightarrow> (\<exists>i < n_slots ?cs. \<not> in_use (entry ?cs i))"
    "k < n_slots ?cs \<longrightarrow> \<not> in_use (entry ?cs k)"
    using find_upt_index [OF k_def] by blast+
  show ?thesis
  proof (cases ?find)
    case (Some i)
    then show ?thesis
      using lp find_upt_Some [OF Some] by (intro that [OF lp(1) _ _ k, of "entry ?cs i" True]) (simp_all add: k_def entry_length)
  qed (use lp in \<open>intro that [OF lp(1,2) _ k, of False], simp add: k_def\<close>)
qed

text \<open>The map of a directory after a write at entry \<open>k\<close>, which is free or behind the last one.\<close>
lemma dir_map_new_entry:
  assumes cs': "cs' = overwrite cs (20 * k) ys" "20 * k + length ys \<le> length cs" "length ys \<le> 20" and "k \<le> n_slots cs"
    and free: "k < n_slots cs \<longrightarrow> \<not> in_use (entry cs k)" and ys: "k < n_slots cs \<longrightarrow> ys = new_entry name sec e"
    and name: "dir_map cs name = None" "valid_name name" and e: "length e = 20" and "0 \<notin> set name'"
  shows "dir_map cs' name' = (if k < n_slots cs \<and> name' = name then Some sec else dir_map cs name')"
proof -
  note eo = entry_overwrite [OF cs'(2,3), folded cs'(1)] and ne = new_entry_facts [OF name(2) e, where sec = sec]
  have sl: "n_slots cs' = n_slots cs" and same: "j < n_slots cs \<Longrightarrow> j \<noteq> k \<Longrightarrow> entry cs' j = entry cs j" for j
    using cs'(1,2) eo(1) [of j] by (auto simp: n_slots_def)
  show ?thesis
  proof (cases "k < n_slots cs")
    case True
    then have "entry cs' k = new_entry name sec e"
      using eo(1) [of k] ys ne(1) by simp
    then show ?thesis
      using dir_map_slot [OF sl True _ name(1) same, of name'] free ne assms(10) name(2) True by (simp add: valid_name_def)
  next
    case False
    then show ?thesis
      using dir_map_same [OF sl, of name'] same by auto
  qed
qed

section \<open>Properties\<close>

text \<open>
  C1: \<^verbatim>\<open>dir_add\<close> implements insertion into a map from names to sectors.  It succeeds exactly
  when the name is not yet in the directory and some entry is free; then the name maps
  to the new sector and every other name to what it mapped to before.  Otherwise the map is unchanged.
  No sector outside the directory's file is written.
\<close>

theorem dir_add_refines_map_update:
  assumes "dir_at s d dd ip" and "deny_write_cnt ip = 0" and "valid_name name" and "length junk = 20"
  shows "\<exists>r s'. dir_add d name sec junk s = Some (r, s') \<and> dir_at s' d dd ip \<and> untouched (dsk s) (dsk s') ip \<and>
    (r \<longleftrightarrow> dir_map (contents (dsk s) ip) name = None \<and>
       (\<exists>i < n_slots (contents (dsk s) ip). \<not> in_use (entry (contents (dsk s) ip) i))) \<and>
    (\<forall>name'. 0 \<notin> set name' \<longrightarrow> dir_map (contents (dsk s') ip) name' =
       (if r \<and> name' = name then Some sec else dir_map (contents (dsk s) ip) name'))"
proof -
  let ?cs = "contents (dsk s) ip"
  let ?n = "n_slots ?cs"
  have v: "0 \<notin> set name" "length name \<le> 15" "length name \<le> NAME_MAX" "name \<noteq> []" and d0: "d \<noteq> NULL" "dirs s d = Some dd"
    using assms(1,3) by (auto simp: valid_name_def NAME_MAX_def dir_at_def)
  obtain e1 mem where lk: "later (mallocs s) mem" "lookup d name junk s =
      Some (case find (\<lambda>i. live name (entry ?cs i)) [0..<?n] of
          None \<Rightarrow> (False, e1, 20 * int ?n, s\<lparr>mallocs := mem\<rparr>)
        | Some i \<Rightarrow> (True, entry ?cs i, 20 * int i, s\<lparr>mallocs := mem\<rparr>))"
    using lookup_spec [OF assms(1) v(1,2) assms(4)] by blast
  let ?s = "s\<lparr>mallocs := mem\<rparr>"
  have at: "dir_at ?s d dd ip"
    by (rule dir_at_mallocs [OF assms(1) lk(1)])
  show ?thesis
  proof (cases "dir_map ?cs name")
    case (Some sec')
    then obtain i where "find (\<lambda>i. live name (entry ?cs i)) [0..<?n] = Some i"
      by (auto simp: dir_map_def)
    then have "dir_add d name sec junk s = Some (False, ?s)"
      using lk(2) v d0 by (simp add: dir_add_def)
    then show ?thesis
      using at Some by auto
  next
    case None
    then have "find (\<lambda>i. live name (entry ?cs i)) [0..<?n] = None"
      by (simp add: dir_map_def)
    then have ev1: "lookup d name junk s = Some (False, e1, 20 * int ?n, ?s)"
      using lk(2) by simp
    have s: "dsk ?s = dsk s" "mallocs ?s = mem" "?s\<lparr>mallocs := m\<rparr> = s\<lparr>mallocs := m\<rparr>" for m
      by simp_all
    obtain f e mem2 k where lp: "later mem mem2" "length e = 20"
      "entry_loop (\<lambda>e. Some (\<not> in_use e)) (d_inode dd) junk 0 ?s = Some (f, e, 20 * int k, s\<lparr>mallocs := mem2\<rparr>)"
      "k \<le> ?n" "k < ?n \<longleftrightarrow> (\<exists>i < ?n. \<not> in_use (entry ?cs i))" "k < ?n \<longrightarrow> \<not> in_use (entry ?cs k)"
      by (rule free_slot_search [OF at assms(4), unfolded s])
    let ?s2 = "s\<lparr>mallocs := mem2\<rparr>" and ?e = "new_entry name sec e"
    have at2: "dir_at ?s2 d dd ip"
      by (rule dir_at_mallocs [OF assms(1) later_trans [OF lk(1) lp(1)]])
    obtain n s' ys where w: "inode_write_at ?s2 (d_inode dd) ?e 20 (20 * int k) = Some (n, s')" "dir_at s' d dd ip"
      "untouched (dsk s) (dsk s') ip" "contents (dsk s') ip = overwrite ?cs (20 * k) ys"
      "20 * k + length ys \<le> length ?cs" "length ys \<le> 20" "n = 20 \<longleftrightarrow> k < ?n" "k < ?n \<longrightarrow> ys = ?e"
      using write_entry [OF at2 assms(2) new_entry_facts(1) [OF assms(3) lp(2), of sec], of k] lp(4) by auto
    have ev: "dir_add d name sec junk s = Some (n = 20, s')"
      using ev1 lp(2,3) v d0 w(1) set_name_eq [OF v(1,3), of "e[19 := 1]"]
      by (simp add: dir_add_def kernel_simps new_entry_def)
    have map: "dir_map (contents (dsk s') ip) name' = (if n = 20 \<and> name' = name then Some sec else dir_map ?cs name')"
      if "0 \<notin> set name'" for name'
      using dir_map_new_entry [OF w(4-6) lp(4,6) w(8) None assms(3) lp(2) that] w(7) by (simp only: simp_thms)
    show ?thesis
      using ev w(2,3,7) lp(5) None map by blast
  qed
qed

text \<open>
  The directory search of every operation answers from the same map: it finds a name exactly
  when the map has it, and the entry found carries the sector of the map; the file system is
  unchanged but for the heap.
\<close>

theorem lookup_answers_from_map:
  assumes "dir_at s d dd ip" and "0 \<notin> set name" and "length name \<le> 15" and "length junk = 20"
  shows "\<exists>found e ofs mem. lookup d name junk s = Some (found, e, ofs, s\<lparr>mallocs := mem\<rparr>) \<and>
    dir_map (contents (dsk s) ip) name = (if found then Some (inode_sector e) else None)"
proof -
  let ?f = "find (\<lambda>i. live name (entry (contents (dsk s) ip) i)) [0..<n_slots (contents (dsk s) ip)]"
  show ?thesis
    using lookup_spec [OF assms] by (cases ?f) (fastforce simp: dir_map_def)+
qed

definition dir_example :: fs where
  "dir_example = \<lparr>dsk = replicate 4 (replicate 512 0),
     inodes = [0x100 \<mapsto> \<lparr>sector = 1, open_cnt = 1, removed = False, deny_write_cnt = 0,
       data = \<lparr>start = 2, len = 40, magic = INODE_MAGIC\<rparr>\<rparr>],
     open_inodes = [0x100], files = (\<lambda>_. None), dirs = [0x200 \<mapsto> \<lparr>d_inode = 0x100, d_pos = 0\<rparr>],
     free_map = \<lparr>bit_cnt = 4, bits = [7]\<rparr>, free_map_file = NULL, mallocs = (\<lambda>n. Some (0x300 + 0x100 * of_nat n))\<rparr>"

definition dir_example_inode :: inode where
  "dir_example_inode = \<lparr>sector = 1, open_cnt = 1, removed = False, deny_write_cnt = 0,
     data = \<lparr>start = 2, len = 40, magic = INODE_MAGIC\<rparr>\<rparr>"

lemma dir_example_ok:
  "dir_at dir_example 0x200 \<lparr>d_inode = 0x100, d_pos = 0\<rparr> dir_example_inode"
  by (auto simp: dir_example_def dir_example_inode_def dir_at_def inode_ok_def disk_ok_def sectors_of_def plenty_def)

lemma dir_example_contents:
  "contents (dsk dir_example) dir_example_inode = replicate 40 0"
proof -
  have "sectors_of dir_example_inode = 1"
    by (simp add: sectors_of_def dir_example_inode_def)
  then have "blocks (dsk dir_example) dir_example_inode = [replicate 512 0]"
    by (simp add: blocks_def dir_example_def dir_example_inode_def)
  then show ?thesis
    by (simp add: contents_def dir_example_inode_def)
qed

theorem dir_add_refines_map_update_witness:
  "\<exists>s'. dir_add 0x200 [97] 3 (replicate 20 9) dir_example = Some (True, s') \<and>
     dir_map (contents (dsk s') dir_example_inode) [97] = Some 3"
proof -
  let ?cs = "contents (dsk dir_example) dir_example_inode"
  have "deny_write_cnt dir_example_inode = 0" "valid_name [97]" "length (replicate 20 (9 :: byte)) = 20"
    by (auto simp: dir_example_inode_def valid_name_def NAME_MAX_def)
  from dir_add_refines_map_update [OF dir_example_ok this, of 3]
  obtain r s' where r: "dir_add 0x200 [97] 3 (replicate 20 9) dir_example = Some (r, s')"
    "r \<longleftrightarrow> dir_map ?cs [97] = None \<and> (\<exists>i < n_slots ?cs. \<not> in_use (entry ?cs i))"
    "dir_map (contents (dsk s') dir_example_inode) [97] = (if r \<and> [97] = [97 :: byte] then Some 3 else dir_map ?cs [97])"
    by auto
  have free: "\<not> in_use (entry ?cs i)" if "i < 2" for i
    using that by (auto simp: dir_example_contents in_use_def entry_def)
  have n: "n_slots ?cs = 2"
    by (simp add: dir_example_contents n_slots_def)
  have "dir_map ?cs [97] = None"
    using free by (simp add: dir_map_def n find_upt_None live_def)
  moreover have "\<exists>i < n_slots ?cs. \<not> in_use (entry ?cs i)"
    using free [of 0] n by (intro exI [of _ 0]) simp
  ultimately have r
    using r(2) by blast
  then show ?thesis
    using r(1,3) by simp
qed

theorem lookup_answers_from_map_witness:
  "\<exists>found e ofs mem. lookup 0x200 [97] (replicate 20 9) dir_example = Some (found, e, ofs, dir_example\<lparr>mallocs := mem\<rparr>)"
  using lookup_answers_from_map [OF dir_example_ok, of "[97]" "replicate 20 9"] by auto

end
