(* ===== verification/Filesys.thy ===== *)
theory Filesys
  imports Directory
begin

text \<open>
  \<^verbatim>\<open>filesys/filesys.c\<close>: the file system as the rest of the kernel calls it.  The lookup of
  the disk (\<^verbatim>\<open>disk_get\<close>) is an argument; so are, as in the parts below, the bytes of
  uninitialised local variables.
\<close>

definition inode_init :: "fs \<Rightarrow> fs" where
  "inode_init s = s\<lparr>open_inodes := []\<rparr>"

definition do_format :: "fs \<Rightarrow> fs kernel" where
  "do_format s = do {
     s \<leftarrow> free_map_create s;
     (ok, s) \<leftarrow> dir_create ROOT_DIR_SECTOR 16 s;
     ASSERT ok;
     free_map_close s
   }"

definition filesys_init :: "disk option \<Rightarrow> bool \<Rightarrow> u32 list option \<Rightarrow> bool \<Rightarrow> fs \<Rightarrow> fs kernel" where
  "filesys_init hdb malloc_b malloc_bits format s = do {
     d \<leftarrow> hdb;
     let s = inode_init (s\<lparr>dsk := d\<rparr>);
     s \<leftarrow> free_map_init malloc_b malloc_bits s;
     s \<leftarrow> (if format then do_format s else Some s);
     free_map_open s
   }"

definition filesys_done :: "fs \<Rightarrow> fs kernel" where
  "filesys_done s = free_map_close s"

definition filesys_create :: "byte list \<Rightarrow> int \<Rightarrow> byte list \<Rightarrow> fs \<Rightarrow> (bool \<times> fs) kernel" where
  "filesys_create name initial_size junk s = do {
     (d, s) \<leftarrow> dir_open_root s;
     (sec, success, s) \<leftarrow>
       (if d = NULL then Some (0, False, s)
        else do {
          (a, s) \<leftarrow> free_map_allocate 1 s;
          (case a of
             None \<Rightarrow> Some (0, False, s)
           | Some sec \<Rightarrow> do {
               (ok, s) \<leftarrow> inode_create sec initial_size s;
               if ok then do { (ok, s) \<leftarrow> dir_add d name sec junk s; Some (sec, ok, s) }
               else Some (sec, False, s)
             })
        });
     s \<leftarrow> (if \<not> success \<and> sec \<noteq> 0 then free_map_release sec 1 s else Some s);
     s \<leftarrow> dir_close d s;
     Some (success, s)
   }"

definition filesys_open :: "byte list \<Rightarrow> byte list \<Rightarrow> fs \<Rightarrow> (addr \<times> fs) kernel" where
  "filesys_open name junk s = do {
     (d, s) \<leftarrow> dir_open_root s;
     (a, s) \<leftarrow> (if d \<noteq> NULL then do { (_, a, s) \<leftarrow> dir_lookup d name junk s; Some (a, s) } else Some (NULL, s));
     s \<leftarrow> dir_close d s;
     file_open a s
   }"

definition filesys_remove :: "byte list \<Rightarrow> byte list \<Rightarrow> fs \<Rightarrow> (bool \<times> fs) kernel" where
  "filesys_remove name junk s = do {
     (d, s) \<leftarrow> dir_open_root s;
     (success, s) \<leftarrow> (if d \<noteq> NULL then dir_remove d name junk s else Some (False, s));
     s \<leftarrow> dir_close d s;
     Some (success, s)
   }"

section \<open>Properties\<close>

definition fs_boot :: fs where
  "fs_boot = \<lparr>dsk = [], inodes = (\<lambda>_. None), open_inodes = [], files = (\<lambda>_. None), dirs = (\<lambda>_. None),
     free_map = \<lparr>bit_cnt = 0, bits = []\<rparr>, free_map_file = NULL, mallocs = (\<lambda>n. Some (0x300 + 0x100 * of_nat n))\<rparr>"

definition fs_formatted :: "fs kernel" where
  "fs_formatted = filesys_init (Some (replicate 10 (replicate 512 0))) True (Some [0]) True fs_boot"

lemma inode_open_frame:
  assumes "inode_open s sec = Some (a, s1)"
  shows "free_map s1 = free_map s"
proof -
  obtain found where f: "find_inode s sec (open_inodes s) = Some found"
    using assms by (auto simp: inode_open_def bind_Some_iff)
  show ?thesis
  proof (cases found)
    case None
    then show ?thesis
      using assms f by (cases "mallocs s 0") (auto simp: inode_open_def malloc_def bind_Some_iff)
  next
    case (Some b)
    then show ?thesis
      using assms f by (auto simp: inode_open_def inode_reopen_def upd_inode_def bind_Some_iff split: if_splits)
  qed
qed

lemma dir_open_root_frame:
  assumes "dir_open_root s = Some (d, s1)" and "d \<noteq> NULL"
  shows "free_map s1 = free_map s"
proof -
  obtain a s0 where a: "inode_open s ROOT_DIR_SECTOR = Some (a, s0)" "dir_open a s0 = Some (d, s1)"
    using assms(1) by (auto simp: dir_open_root_def bind_Some_iff)
  then have "free_map s1 = free_map s0"
    using assms(2) by (cases "mallocs s0 0") (auto simp: dir_open_def malloc_def bind_Some_iff Let_def split: if_splits)
  then show ?thesis
    using inode_open_frame [OF a(1)] by simp
qed

lemma dir_close_frame:
  assumes "d \<noteq> NULL" and "dirs s d = Some dd" and "inodes s (d_inode dd) = Some ip" and "\<not> removed ip"
  shows "\<exists>s'. dir_close d s = Some s' \<and> free_map s' = free_map s"
  using assms by (simp add: dir_close_def inode_close_def upd_inode_def Let_def)

text \<open>Both refusals of \<^verbatim>\<open>dir_add\<close> that depend on the name leave the file system as it is, but for the heap.\<close>

lemma dir_add_bad_name:
  assumes "d \<noteq> NULL" and "name = [] \<or> NAME_MAX < length name"
  shows "dir_add d name sec junk s = Some (False, s)"
  using assms by (auto simp: dir_add_def kernel_simps)

lemma dir_add_existing:
  assumes "dir_at s d dd ip" and "valid_name name" and "length junk = 20" and "dir_map (contents (dsk s) ip) name \<noteq> None"
  shows "\<exists>mem. dir_add d name sec junk s = Some (False, s\<lparr>mallocs := mem\<rparr>) \<and> plenty mem"
proof -
  have v: "0 \<notin> set name" "length name \<le> 15" "\<not> (name = [] \<or> NAME_MAX < length name)" and d: "d \<noteq> NULL" "plenty (mallocs s)"
    using assms(1,2) by (auto simp: valid_name_def NAME_MAX_def dir_at_def)
  obtain i where i: "find (\<lambda>i. live name (entry (contents (dsk s) ip) i)) [0..<n_slots (contents (dsk s) ip)] = Some i"
    using assms(4) by (auto simp: dir_map_def)
  obtain mem where "later (mallocs s) mem"
      "lookup d name junk s = Some (True, entry (contents (dsk s) ip) i, 20 * int i, s\<lparr>mallocs := mem\<rparr>)"
    using lookup_spec [OF assms(1) v(1,2) assms(3)] unfolding i by auto
  then show ?thesis
    using v(3) d plenty_later by (auto simp: dir_add_def kernel_simps)
qed

text \<open>
  C22: \<^verbatim>\<open>filesys_create\<close> leaks the data sectors of the file when it fails after the inode was
  created.  In every state in which the root directory opens, a sector for the inode is allocated and
  the inode is created, but \<^verbatim>\<open>dir_add\<close> refuses the name (because it is empty or too long, or because it exists
  already), the call returns false and releases the sector of the inode, and the sectors marked afterwards are
  those marked before and the data sectors of the inode, which were free and which nothing refers to any more.
\<close>

theorem filesys_create_leaks_sectors:
  assumes "dir_open_root s = Some (d, s1)" and "d \<noteq> NULL" and "dirs s1 d = Some dd" and "inodes s1 (d_inode dd) = Some rip"
    and "\<not> removed rip" and "fm_ok s1 fip" and "plenty (mallocs s1)" and "unat FREE_MAP_SECTOR \<in> bm_used (free_map s)"
    and "free_map_allocate 1 s1 = Some (Some sec, s2)" and "inode_create sec lng s2 = Some (True, s3)"
    and "dir_add d name sec junk s3 = Some (False, s3\<lparr>mallocs := mem\<rparr>)" and "plenty mem"
  shows "\<exists>k s'. filesys_create name lng junk s = Some (False, s') \<and>
    bm_used (free_map s) \<inter> {k..<k + unat (bytes_to_sectors lng)} = {} \<and>
    bm_used (free_map s') = bm_used (free_map s) \<union> {k..<k + unat (bytes_to_sectors lng)}"
proof -
  let ?n = "unat (bytes_to_sectors lng)" and ?s4 = "s3\<lparr>mallocs := mem\<rparr>"
  have fm1: "free_map s1 = free_map s"
    using dir_open_root_frame [OF assms(1,2)] .
  obtain k0 where k0: "sec = of_nat k0" "fm_ok s2 fip" "bm_used (free_map s2) = bm_used (free_map s) \<union> {k0}"
      "k0 \<notin> bm_used (free_map s)" "inodes s2 = inodes s1" "dirs s2 = dirs s1" "plenty (mallocs s2)"
    using free_map_allocate_spec [OF assms(6) plenty_malloc [OF assms(7)], of 1] assms(9) plenty_later [OF assms(7)]
    by (auto simp: fm1 split: option.splits)
  obtain k where k: "fm_ok s3 fip" "inodes s3 = inodes s1" "dirs s3 = dirs s1"
      "bm_used (free_map s3) = bm_used (free_map s2) \<union> {k..<k + ?n}" "bm_used (free_map s2) \<inter> {k..<k + ?n} = {}"
    using inode_create_marks [OF k0(2,7) assms(10)] k0(5,6) by auto
  have k0_used: "k0 \<in> bm_used (free_map s3)"
    using k(4) k0(3) by auto
  then have "k0 < unat (bit_cnt (free_map s3))"
    by (simp add: bm_used_def)
  then have u: "unat sec = k0"
    using k0(1) unat_bound32 [of "bit_cnt (free_map s3)"] by (simp add: unat_of_nat_small)
  have "sec \<noteq> 0"
    using u k0(4) assms(8) by (auto simp: FREE_MAP_SECTOR_def)
  have "fm_ok ?s4 fip"
    using k(1) by (auto simp: fm_ok_def file_at_def)
  then obtain s5 where s5: "free_map_release sec 1 ?s4 = Some s5" "inodes s5 = inodes s1" "dirs s5 = dirs s1"
      "bm_used (free_map s5) = bm_used (free_map s3) - {k0..<k0 + 1}"
    using free_map_release_spec [of ?s4 fip sec 1] assms(12) k(2,3) k0_used \<open>k0 < unat (bit_cnt (free_map s3))\<close> u by auto
  obtain s' where s': "dir_close d s5 = Some s'" "free_map s' = free_map s5"
    using dir_close_frame [of d s5 dd rip] assms(2-5) s5(2,3) by auto
  have "filesys_create name lng junk s = Some (False, s')"
    using assms(1,2,9-11) \<open>sec \<noteq> 0\<close> s5(1) s'(1) by (simp add: filesys_create_def)
  moreover have "bm_used (free_map s') = bm_used (free_map s) \<union> {k..<k + ?n}"
    using s'(2) s5(4) k(4,5) k0(3,4) by auto
  ultimately show ?thesis
    using k(5) k0(3) by (intro exI [of _ k] exI [of _ s']) auto
qed

text \<open>A disk of ten sectors with an empty root directory of 16 entries, whose free map is open.\<close>

definition fs_example :: fs where
  "fs_example = \<lparr>dsk = (replicate 10 (replicate 512 0))[1 := inode_disk_bytes \<lparr>start = 3, len = 320, magic = INODE_MAGIC\<rparr>],
     inodes = [0x100 \<mapsto> fm_inode], open_inodes = [0x100],
     files = [0x200 \<mapsto> \<lparr>f_inode = 0x100, pos = 0, deny_write = False\<rparr>], dirs = (\<lambda>_. None),
     free_map = \<lparr>bit_cnt = 10, bits = [15]\<rparr>, free_map_file = 0x200, mallocs = (\<lambda>n. Some (0x300 + 0x100 * of_nat n))\<rparr>"

definition fs_example_root :: inode where
  "fs_example_root = \<lparr>sector = 1, open_cnt = 1, removed = False, deny_write_cnt = 0,
     data = \<lparr>start = 3, len = 320, magic = INODE_MAGIC\<rparr>\<rparr>"

definition fs_example_open :: fs where
  "fs_example_open = fs_example\<lparr>inodes := (inodes fs_example)(0x300 \<mapsto> fs_example_root), open_inodes := [0x300, 0x100],
     dirs := [0x400 \<mapsto> \<lparr>d_inode = 0x300, d_pos = 0\<rparr>], mallocs := (\<lambda>n. Some (0x500 + 0x100 * of_nat n))\<rparr>"

lemma fs_example_opens: "dir_open_root fs_example = Some (0x400, fs_example_open)"
proof -
  have "dsk fs_example ! 1 = inode_disk_bytes \<lparr>start = 3, len = 320, magic = INODE_MAGIC\<rparr>"
    by (simp add: fs_example_def)
  moreover have "bytes_inode_disk (inode_disk_bytes \<lparr>start = 3, len = 320, magic = INODE_MAGIC\<rparr>)
      = \<lparr>start = 3, len = 320, magic = INODE_MAGIC\<rparr>"
    by (rule bytes_inode_disk_bytes) simp_all
  ultimately show ?thesis
    by (simp add: dir_open_root_def dir_open_def inode_open_def fs_example_def fs_example_open_def fs_example_root_def
        fm_inode_def ROOT_DIR_SECTOR_def malloc_def disk_read_def kernel_simps)
qed

lemma fs_example_fm: "fm_ok fs_example_open fm_inode"
  by (auto simp: fs_example_open_def fs_example_def fm_inode_def inode_ok_def disk_ok_def sectors_of_def fm_ok_def
      bm_wf_def bm_small_def file_at_def inode_disk_bytes_length dest!: set_update_subset_insert [THEN subsetD])

lemma fs_example_creates:
  "map_option (\<lambda>(a, ok, s). (a, ok)) (do { (a, s) \<leftarrow> free_map_allocate 1 fs_example_open; sec \<leftarrow> a; (ok, s) \<leftarrow> inode_create sec 600 s; Some (sec, ok, s) })
    = Some (4, True)"
  by code_simp

theorem filesys_create_leaks_sectors_witness:
  "\<exists>k s'. filesys_create (replicate 15 97) 600 (replicate 20 0) fs_example = Some (False, s') \<and>
     bm_used (free_map fs_example) \<inter> {k..<k + 2} = {} \<and> bm_used (free_map s') = bm_used (free_map fs_example) \<union> {k..<k + 2}"
proof -
  obtain s2 s3 where c: "free_map_allocate 1 fs_example_open = Some (Some 4, s2)" "inode_create 4 600 s2 = Some (True, s3)"
    using fs_example_creates by (auto simp: bind_Some_iff)
  have pl: "plenty (mallocs fs_example_open)"
    by (simp add: plenty_def fs_example_open_def)
  obtain k where "plenty (mallocs s3)"
    using free_map_allocate_spec [OF fs_example_fm plenty_malloc [OF pl], of 1] c plenty_later [OF pl]
      inode_create_marks [OF _ _ c(2), of fm_inode] by (auto split: option.splits)
  moreover have "dir_add 0x400 (replicate 15 97) 4 (replicate 20 0) s3 = Some (False, s3\<lparr>mallocs := mallocs s3\<rparr>)"
    using dir_add_bad_name [of "0x400" "replicate 15 97"] by (simp add: NAME_MAX_def)
  moreover have "unat FREE_MAP_SECTOR \<in> bm_used (free_map fs_example)"
    by (simp add: FREE_MAP_SECTOR_def bm_used_def bm_bit_def fs_example_def)
  moreover have "dirs fs_example_open 0x400 = Some \<lparr>d_inode = 0x300, d_pos = 0\<rparr>" "inodes fs_example_open 0x300 = Some fs_example_root"
    "\<not> removed fs_example_root"
    by (simp_all add: fs_example_open_def fs_example_root_def)
  moreover have "unat (bytes_to_sectors 600) = 2"
    by (subst bytes_to_sectors_eq) simp_all
  ultimately show ?thesis
    using filesys_create_leaks_sectors [OF fs_example_opens _ _ _ _ fs_example_fm pl _ c, of _ _ "replicate 15 97" "replicate 20 0" "mallocs s3"]
    by simp
qed

end
