(* ===== verification/Hash.thy ===== *)
theory Hash
  imports Strings Disk Klist "HOL-Library.Multiset"
begin

text \<open>
  \<^verbatim>\<open>lib/kernel/hash.c\<close>: chained hash tables whose number of buckets follows the number of
  elements.  An element is an address.  A bucket is the sequence of its elements (what
  \<open>Klist_Spec\<close> shows a list of \<^verbatim>\<open>lib/kernel/list.c\<close> to stand for): \<^verbatim>\<open>list_push_front\<close> puts an
  element in front, \<^verbatim>\<open>list_remove\<close> takes one out of the bucket that holds it.  The client's hash
  function and order (with \<^verbatim>\<open>aux\<close>) are arguments \<open>hf\<close> and \<open>lt\<close>; \<open>mem\<close> says whether the
  \<^verbatim>\<open>malloc\<close> of new buckets succeeds.  A null pointer result is \<^term>\<open>None\<close>.
\<close>

section \<open>Operations\<close>

record hash =
  h_elem_cnt :: size_t
  bucket_cnt :: size_t
  buckets :: "addr list list"

definition find_bucket :: "(addr \<Rightarrow> u32) \<Rightarrow> hash \<Rightarrow> addr \<Rightarrow> nat" where
  "find_bucket hf h e = unat (hf e AND (bucket_cnt h - 1))"

fun find_elem :: "(addr \<Rightarrow> addr \<Rightarrow> bool) \<Rightarrow> addr list \<Rightarrow> addr \<Rightarrow> addr option" where
  "find_elem lt [] e = None"
| "find_elem lt (hi # bucket) e = (if \<not> lt hi e \<and> \<not> lt e hi then Some hi else find_elem lt bucket e)"

definition turn_off_least_1bit :: "size_t \<Rightarrow> size_t" where
  "turn_off_least_1bit x = x AND (x - 1)"

definition is_power_of_2 :: "size_t \<Rightarrow> bool" where
  "is_power_of_2 x \<longleftrightarrow> x \<noteq> 0 \<and> turn_off_least_1bit x = 0"

partial_function (option) pow2_loop :: "size_t \<Rightarrow> size_t kernel" where
  "pow2_loop x = (if \<not> is_power_of_2 x then pow2_loop (turn_off_least_1bit x) else Some x)"

declare pow2_loop.simps [code]

definition MIN_ELEMS_PER_BUCKET :: size_t where
  "MIN_ELEMS_PER_BUCKET = 1"

definition BEST_ELEMS_PER_BUCKET :: size_t where
  "BEST_ELEMS_PER_BUCKET = 2"

definition push_bucket :: "nat \<Rightarrow> addr \<Rightarrow> hash \<Rightarrow> hash kernel" where
  "push_bucket i e h = do {
     b \<leftarrow> fetch (buckets h) i;
     bs \<leftarrow> store (buckets h) i (e # b);
     Some (h\<lparr>buckets := bs\<rparr>)
   }"

fun move_loop :: "(addr \<Rightarrow> u32) \<Rightarrow> addr list \<Rightarrow> hash \<Rightarrow> hash kernel" where
  "move_loop hf [] h = Some h"
| "move_loop hf (e # es) h = do { h \<leftarrow> push_bucket (find_bucket hf h e) e h; move_loop hf es h }"

definition rehash :: "(addr \<Rightarrow> u32) \<Rightarrow> bool \<Rightarrow> hash \<Rightarrow> hash kernel" where
  "rehash hf mem h = do {
     let old_buckets = buckets h;
     let n = h_elem_cnt h div BEST_ELEMS_PER_BUCKET;
     let n = (if n < 4 then 4 else n);
     new_bucket_cnt \<leftarrow> pow2_loop n;
     if new_bucket_cnt = bucket_cnt h then Some h
     else if \<not> mem then Some h
     else move_loop hf (concat old_buckets)
       (h\<lparr>bucket_cnt := new_bucket_cnt, buckets := replicate (unat new_bucket_cnt) []\<rparr>)
   }"

definition insert_elem :: "nat \<Rightarrow> addr \<Rightarrow> hash \<Rightarrow> hash kernel" where
  "insert_elem bucket e h = push_bucket bucket e (h\<lparr>h_elem_cnt := h_elem_cnt h + 1\<rparr>)"

definition remove_elem :: "addr \<Rightarrow> hash \<Rightarrow> hash" where
  "remove_elem e h = h\<lparr>h_elem_cnt := h_elem_cnt h - 1, buckets := map (remove1 e) (buckets h)\<rparr>"

definition hash_clear :: "bool \<Rightarrow> hash \<Rightarrow> addr list \<times> hash" where
  "hash_clear destructor h =
     (if destructor then concat (buckets h) else [],
      h\<lparr>h_elem_cnt := 0, buckets := replicate (unat (bucket_cnt h)) []\<rparr>)"

definition hash_init :: "bool \<Rightarrow> hash option" where
  "hash_init mem =
     (if mem then Some (snd (hash_clear False \<lparr>h_elem_cnt = 0, bucket_cnt = 4, buckets = replicate 4 []\<rparr>))
      else None)"

definition hash_destroy :: "bool \<Rightarrow> hash \<Rightarrow> addr list" where
  "hash_destroy destructor h = (if destructor then fst (hash_clear True h) else [])"

definition hash_insert :: "(addr \<Rightarrow> u32) \<Rightarrow> (addr \<Rightarrow> addr \<Rightarrow> bool) \<Rightarrow> bool \<Rightarrow> addr \<Rightarrow> hash \<Rightarrow>
    (addr option \<times> hash) kernel" where
  "hash_insert hf lt mem new h = do {
     let i = find_bucket hf h new;
     bucket \<leftarrow> fetch (buckets h) i;
     let old = find_elem lt bucket new;
     h \<leftarrow> (if old = None then insert_elem i new h else Some h);
     h \<leftarrow> rehash hf mem h;
     Some (old, h)
   }"

definition hash_replace :: "(addr \<Rightarrow> u32) \<Rightarrow> (addr \<Rightarrow> addr \<Rightarrow> bool) \<Rightarrow> bool \<Rightarrow> addr \<Rightarrow> hash \<Rightarrow>
    (addr option \<times> hash) kernel" where
  "hash_replace hf lt mem new h = do {
     let i = find_bucket hf h new;
     bucket \<leftarrow> fetch (buckets h) i;
     let old = find_elem lt bucket new;
     let h = (case old of Some e \<Rightarrow> remove_elem e h | None \<Rightarrow> h);
     h \<leftarrow> insert_elem i new h;
     h \<leftarrow> rehash hf mem h;
     Some (old, h)
   }"

definition hash_find :: "(addr \<Rightarrow> u32) \<Rightarrow> (addr \<Rightarrow> addr \<Rightarrow> bool) \<Rightarrow> addr \<Rightarrow> hash \<Rightarrow> addr option kernel" where
  "hash_find hf lt e h = do {
     bucket \<leftarrow> fetch (buckets h) (find_bucket hf h e);
     Some (find_elem lt bucket e)
   }"

definition hash_delete :: "(addr \<Rightarrow> u32) \<Rightarrow> (addr \<Rightarrow> addr \<Rightarrow> bool) \<Rightarrow> bool \<Rightarrow> addr \<Rightarrow> hash \<Rightarrow>
    (addr option \<times> hash) kernel" where
  "hash_delete hf lt mem e h = do {
     bucket \<leftarrow> fetch (buckets h) (find_bucket hf h e);
     let found = find_elem lt bucket e;
     h \<leftarrow> (case found of Some x \<Rightarrow> rehash hf mem (remove_elem x h) | None \<Rightarrow> Some h);
     Some (found, h)
   }"

definition hash_apply :: "hash \<Rightarrow> addr list" where
  "hash_apply h = concat (take (unat (bucket_cnt h)) (buckets h))"

definition hash_size :: "hash \<Rightarrow> size_t" where
  "hash_size h = h_elem_cnt h"

definition hash_empty :: "hash \<Rightarrow> bool" where
  "hash_empty h \<longleftrightarrow> h_elem_cnt h = 0"

section \<open>Iterators\<close>

record hash_iterator =
  it_bucket :: nat
  it_elem :: "addr option"

definition hash_first :: "hash_iterator" where
  "hash_first = \<lparr>it_bucket = 0, it_elem = None\<rparr>"

function next_bucket :: "hash \<Rightarrow> nat \<Rightarrow> addr list \<Rightarrow> (addr option \<times> hash_iterator) kernel" where
  "next_bucket h i rest =
     (case rest of
        e # _ \<Rightarrow> Some (Some e, \<lparr>it_bucket = i, it_elem = Some e\<rparr>)
      | [] \<Rightarrow>
          if unat (bucket_cnt h) \<le> i + 1 then Some (None, \<lparr>it_bucket = i + 1, it_elem = None\<rparr>)
          else do { b \<leftarrow> fetch (buckets h) (i + 1); next_bucket h (i + 1) b })"
  by pat_completeness auto
termination
  by (relation "measure (\<lambda>(h, i, rest). unat (bucket_cnt h) - i)") auto

definition hash_next :: "hash \<Rightarrow> hash_iterator \<Rightarrow> (addr option \<times> hash_iterator) kernel" where
  "hash_next h i = do {
     b \<leftarrow> fetch (buckets h) (it_bucket i);
     next_bucket h (it_bucket i) (case it_elem i of None \<Rightarrow> b | Some e \<Rightarrow> tl (dropWhile (\<lambda>x. x \<noteq> e) b))
   }"

definition hash_cur :: "hash_iterator \<Rightarrow> addr option" where
  "hash_cur i = it_elem i"

declare next_bucket.simps [simp del]

section \<open>Hash functions\<close>

definition FNV_32_PRIME :: u32 where
  "FNV_32_PRIME = 16777619"

definition FNV_32_BASIS :: u32 where
  "FNV_32_BASIS = 2166136261"

fun bytes_loop :: "mem \<Rightarrow> ptr \<Rightarrow> nat \<Rightarrow> u32 \<Rightarrow> u32 kernel" where
  "bytes_loop m buf 0 hs = Some hs"
| "bytes_loop m buf (Suc n) hs = do {
     c \<leftarrow> fetch m buf;
     bytes_loop m (buf + 1) n ((hs * FNV_32_PRIME) XOR ucast c)
   }"

definition hash_bytes :: "mem \<Rightarrow> ptr \<Rightarrow> nat \<Rightarrow> u32 kernel" where
  "hash_bytes m buf sz = do { ASSERT (buf \<noteq> 0); bytes_loop m buf sz FNV_32_BASIS }"

function string_loop :: "mem \<Rightarrow> ptr \<Rightarrow> u32 \<Rightarrow> u32 kernel" where
  "string_loop m s hs = do {
     c \<leftarrow> fetch m s;
     if c \<noteq> 0 then string_loop m (s + 1) ((hs * FNV_32_PRIME) XOR ucast c) else Some hs
   }"
  by pat_completeness auto
termination
  by (relation "measure (\<lambda>(m, s, hs). length m - s)") (auto simp: fetch_eq_Some_iff)

definition hash_string :: "mem \<Rightarrow> ptr \<Rightarrow> u32 kernel" where
  "hash_string m s = do { ASSERT (s \<noteq> 0); string_loop m s FNV_32_BASIS }"

definition hash_int :: "u32 \<Rightarrow> u32 kernel" where
  "hash_int i = hash_bytes (0 # u32_bytes i) 1 4"

declare string_loop.simps [simp del]

section \<open>Powers of two\<close>

lemma top_bit:
  fixes x :: u32
  assumes "2 ^ k \<le> unat x" and "unat x < 2 ^ Suc k"
  shows "bit x k" and "k < 32"
proof -
  have "unat x div 2 ^ k = 1"
    using assms by (intro div_nat_eqI) auto
  then have "bit (unat x) k"
    by (simp add: bit_iff_odd)
  then show "bit x k"
    by (simp add: bit_unsigned_iff)
  then show "k < 32"
    by (rule bit_bound32)
qed

lemma exp_and_mask: "(2 ^ k :: u32) AND (2 ^ k - 1) = 0"
  unfolding mask_eq_exp_minus_1 [symmetric] by (rule bit_word_eqI) (auto simp: bit_simps)

lemma turn_off_step:
  assumes "2 ^ k \<le> unat x" and "unat x < 2 ^ Suc k"
  shows "is_power_of_2 x \<longleftrightarrow> unat x = 2 ^ k"
    and "unat x \<noteq> 2 ^ k \<Longrightarrow> 2 ^ k \<le> unat (turn_off_least_1bit x) \<and> unat (turn_off_least_1bit x) < unat x"
proof -
  have x: "0 < unat x"
    using assms(1) zero_less_power [of "2 :: nat" k] by linarith
  then have x0: "x \<noteq> 0"
    by auto
  have m: "unat (x - 1) = unat x - 1"
    using x0 by (simp add: unat_minus_one)
  show step: "2 ^ k \<le> unat (turn_off_least_1bit x) \<and> unat (turn_off_least_1bit x) < unat x" if "unat x \<noteq> 2 ^ k"
  proof -
    have "bit x k" "bit (x - 1) k" "k < 32"
      using top_bit [OF assms] top_bit [of k "x - 1"] assms that m by auto
    then have "bit (turn_off_least_1bit x) k"
      by (simp add: turn_off_least_1bit_def bit_and_iff)
    then have "odd (unat (turn_off_least_1bit x) div 2 ^ k)"
      by (simp add: bit_unsigned_iff flip: bit_iff_odd)
    then have "2 ^ k \<le> unat (turn_off_least_1bit x)"
      by (metis div_less even_zero not_le)
    moreover have "turn_off_least_1bit x \<le> x - 1"
      by (simp add: turn_off_least_1bit_def word_and_le1)
    ultimately show ?thesis
      using m x by (simp add: word_le_nat_alt)
  qed
  show "is_power_of_2 x \<longleftrightarrow> unat x = 2 ^ k"
  proof
    assume "unat x = 2 ^ k"
    then have "x = 2 ^ k"
      using top_bit(2) [OF assms] by (metis of_nat_numeral of_nat_power of_nat_unat ucast_id)
    then show "is_power_of_2 x"
      using x0 exp_and_mask [of k] by (simp add: is_power_of_2_def turn_off_least_1bit_def)
  next
    assume "is_power_of_2 x"
    then show "unat x = 2 ^ k"
      using step by (auto simp: is_power_of_2_def)
  qed
qed

lemma pow2_loop_spec:
  assumes "2 ^ k \<le> unat x" and "unat x < 2 ^ Suc k"
  shows "pow2_loop x = Some (2 ^ k)"
  using assms
proof (induction "unat x" arbitrary: x rule: less_induct)
  case less
  note st = turn_off_step [OF less.prems]
  show ?case
  proof (cases "unat x = 2 ^ k")
    case True
    then have "x = 2 ^ k"
      using top_bit(2) [OF less.prems] by (metis of_nat_numeral of_nat_power of_nat_unat ucast_id)
    then show ?thesis
      using st(1) True by (subst pow2_loop.simps) simp
  next
    case False
    then show ?thesis
      using st less.hyps [of "turn_off_least_1bit x"] less.prems(2) by (subst pow2_loop.simps) auto
  qed
qed

lemma exp_bound: "n \<noteq> 0 \<Longrightarrow> \<exists>k. 2 ^ k \<le> n \<and> n < 2 ^ Suc (k :: nat)" for n :: nat
  using ex_power_ivl1 [of 2 n] by auto

lemma unat_exp32: "k < 32 \<Longrightarrow> unat (2 ^ k :: u32) = 2 ^ k"
proof -
  assume "k < 32"
  then have "(2 :: nat) ^ k < 2 ^ 32"
    by (intro power_strict_increasing) auto
  then show ?thesis
    using unat_of_nat_small [where 'a = 32, of "2 ^ k"] by simp
qed

lemma masked_index: "k < 32 \<Longrightarrow> unat ((w :: u32) AND (2 ^ k - 1)) < 2 ^ k"
  by (simp add: mask_eq_exp_minus_1 [symmetric] take_bit_eq_mask [symmetric] unsigned_take_bit_eq)

section \<open>Buckets\<close>

lemma mset_push:
  assumes "i < length bs"
  shows "mset (concat (bs[i := e # bs ! i])) = add_mset e (mset (concat bs))"
proof -
  have "bs = take i bs @ bs ! i # drop (Suc i) bs"
    using assms by (rule id_take_nth_drop)
  then have "mset (concat bs) = mset (concat (take i bs)) + mset (bs ! i) + mset (concat (drop (Suc i) bs))"
    by (metis (no_types, lifting) add.assoc concat.simps(2) concat_append mset_append)
  then show ?thesis
    using assms by (simp add: upd_conv_take_nth_drop)
qed

lemma remove1_notin: "x \<notin> set (concat bs) \<Longrightarrow> map (remove1 x) bs = bs"
  by (induction bs) (auto simp: remove1_idem)

lemma mset_remove:
  "distinct (concat bs) \<Longrightarrow> x \<in> set (concat bs) \<Longrightarrow> mset (concat (map (remove1 x) bs)) = mset (concat bs) - {#x#}"
proof (induction bs)
  case (Cons b bs)
  show ?case
  proof (cases "x \<in> set b")
    case True
    then have "x \<notin> set (concat bs)"
      using Cons.prems by auto
    then show ?thesis
      using True remove1_notin [of x bs] by simp
  next
    case False
    then show ?thesis
      using Cons by (auto simp: remove1_idem)
  qed
qed simp

section \<open>The invariant\<close>

definition hmset :: "hash \<Rightarrow> addr multiset" where
  "hmset h = mset (concat (buckets h))"

definition elems :: "hash \<Rightarrow> addr set" where
  "elems h = set (concat (buckets h))"

definition hash_shape :: "(addr \<Rightarrow> u32) \<Rightarrow> hash \<Rightarrow> bool" where
  "hash_shape hf h \<longleftrightarrow> (\<exists>k < 32. bucket_cnt h = 2 ^ k) \<and> length (buckets h) = unat (bucket_cnt h) \<and>
     (\<forall>i < length (buckets h). \<forall>e \<in> set (buckets h ! i). find_bucket hf h e = i)"

definition hash_ok :: "(addr \<Rightarrow> u32) \<Rightarrow> (addr \<Rightarrow> addr \<Rightarrow> bool) \<Rightarrow> hash \<Rightarrow> bool" where
  "hash_ok hf lt h \<longleftrightarrow> hash_shape hf h \<and> distinct (concat (buckets h)) \<and>
     h_elem_cnt h = of_nat (length (concat (buckets h))) \<and>
     (\<forall>a \<in> elems h. \<forall>b \<in> elems h. \<not> lt a b \<and> \<not> lt b a \<longrightarrow> a = b)"

lemma shape_index: "hash_shape hf h \<Longrightarrow> find_bucket hf h e < length (buckets h)"
  by (auto simp: hash_shape_def find_bucket_def masked_index unat_exp32)

lemma shape_bucket:
  assumes "hash_shape hf h"
  shows "e \<in> elems h \<longleftrightarrow> e \<in> set (buckets h ! find_bucket hf h e)"
proof
  assume "e \<in> elems h"
  then obtain i where "i < length (buckets h)" "e \<in> set (buckets h ! i)"
    by (auto simp: elems_def) (metis in_set_conv_nth)
  then show "e \<in> set (buckets h ! find_bucket hf h e)"
    using assms by (auto simp: hash_shape_def)
next
  assume "e \<in> set (buckets h ! find_bucket hf h e)"
  then show "e \<in> elems h"
    using shape_index [OF assms] by (auto simp: elems_def)
qed

lemma shape_own: "hash_shape hf h \<Longrightarrow> i < length (buckets h) \<Longrightarrow> e \<in> set (buckets h ! i) \<Longrightarrow> find_bucket hf h e = i"
  by (simp add: hash_shape_def)

lemma push_bucket_spec:
  assumes "hash_shape hf h"
  obtains h' where "push_bucket (find_bucket hf h e) e h = Some h'" and "hash_shape hf h'"
    and "hmset h' = add_mset e (hmset h)"
    and "h_elem_cnt h' = h_elem_cnt h" and "bucket_cnt h' = bucket_cnt h"
proof
  let ?i = "find_bucket hf h e"
  let ?h = "h\<lparr>buckets := (buckets h)[?i := e # buckets h ! ?i]\<rparr>"
  note i = shape_index [OF assms, of e]
  have fb: "find_bucket hf ?h = find_bucket hf h"
    by (simp add: fun_eq_iff find_bucket_def)
  show "push_bucket ?i e h = Some ?h"
    using i by (simp add: push_bucket_def kernel_simps)
  show "hmset ?h = add_mset e (hmset h)"
    using mset_push [OF i] by (simp add: hmset_def)
  show "hash_shape hf ?h"
  proof -
    have "find_bucket hf h x = j" if "j < length (buckets h)" "x \<in> set (buckets ?h ! j)" for j x
      using that i shape_own [OF assms] by (cases "j = ?i") auto
    moreover have "hash_shape hf ?h \<longleftrightarrow> (\<exists>k < 32. bucket_cnt h = 2 ^ k) \<and> length (buckets h) = unat (bucket_cnt h) \<and>
        (\<forall>j < length (buckets h). \<forall>x \<in> set (buckets ?h ! j). find_bucket hf h x = j)"
      by (simp add: hash_shape_def fb)
    ultimately show ?thesis
      using assms [unfolded hash_shape_def] by blast
  qed
qed simp_all

lemma move_loop_spec:
  assumes "hash_shape hf h"
  shows "\<exists>h'. move_loop hf es h = Some h' \<and> hash_shape hf h' \<and>
    hmset h' = mset es + hmset h \<and> h_elem_cnt h' = h_elem_cnt h \<and>
    bucket_cnt h' = bucket_cnt h"
  using assms
proof (induction es arbitrary: h)
  case (Cons e es)
  obtain h1 where h1: "push_bucket (find_bucket hf h e) e h = Some h1" "hash_shape hf h1"
    "hmset h1 = add_mset e (hmset h)"
    "h_elem_cnt h1 = h_elem_cnt h" "bucket_cnt h1 = bucket_cnt h"
    using push_bucket_spec [OF Cons.prems] by blast
  then show ?case
    using Cons.IH [OF h1(2)] by auto
qed simp

lemma empty_shape: "k < 32 \<Longrightarrow> hash_shape hf (h\<lparr>bucket_cnt := 2 ^ k, buckets := replicate (2 ^ k) []\<rparr>)"
  by (auto simp: hash_shape_def unat_exp32)

lemma rehash_spec:
  assumes "hash_shape hf h"
  obtains h' where "rehash hf mem h = Some h'" and "hash_shape hf h'"
    and "hmset h' = hmset h" and "h_elem_cnt h' = h_elem_cnt h"
    and "mem \<Longrightarrow> \<exists>k. unat (bucket_cnt h') = 2 ^ k \<and> 2 ^ k \<le> max 4 (unat (h_elem_cnt h) div 2) \<and>
      max 4 (unat (h_elem_cnt h) div 2) < 2 ^ Suc k"
proof -
  define n :: size_t where "n = (if h_elem_cnt h div BEST_ELEMS_PER_BUCKET < 4 then 4 else h_elem_cnt h div BEST_ELEMS_PER_BUCKET)"
  have "n \<noteq> 0"
    by (auto simp: n_def)
  then obtain k where k: "2 ^ k \<le> unat n" "unat n < 2 ^ Suc k"
    using exp_bound [of "unat n"] by (auto simp: unat_eq_zero)
  have un: "unat n = max 4 (unat (h_elem_cnt h) div 2)"
    by (auto simp: n_def BEST_ELEMS_PER_BUCKET_def unat_div word_less_nat_alt)
  have k32: "k < 32"
    by (rule top_bit(2) [OF k])
  obtain h' where mv: "move_loop hf (concat (buckets h)) (h\<lparr>bucket_cnt := 2 ^ k, buckets := replicate (2 ^ k) []\<rparr>) = Some h'"
    "hash_shape hf h'" "hmset h' = hmset h" "h_elem_cnt h' = h_elem_cnt h"
    "bucket_cnt h' = 2 ^ k"
    using move_loop_spec [OF empty_shape [OF k32, of hf h], of "concat (buckets h)"] by (auto simp: hmset_def)
  have "rehash hf mem h = (if 2 ^ k = bucket_cnt h \<or> \<not> mem then Some h else Some h')"
    using pow2_loop_spec [OF k] mv(1) by (auto simp: rehash_def n_def [symmetric] unat_exp32 [OF k32] Let_def)
  then have ev: "rehash hf mem h = (if 2 ^ k = bucket_cnt h \<or> \<not> mem then Some h else Some h')"
    by simp
  note kk = k [unfolded un] unat_exp32 [OF k32]
  show ?thesis
  proof (cases "2 ^ k = bucket_cnt h \<or> \<not> mem")
    case True
    then have "rehash hf mem h = Some h"
      using ev by simp
    then show ?thesis
      by (rule that [OF _ assms refl refl]) (use True kk in \<open>metis\<close>)
  next
    case False
    then have "rehash hf mem h = Some h'"
      using ev by simp
    then show ?thesis
      by (rule that [OF _ mv(2-4)]) (use mv(5) kk in \<open>metis\<close>)
  qed
qed

lemma count_le_distinct: "(\<forall>x. count (mset xs) x \<le> 1) \<longleftrightarrow> distinct xs"
proof
  assume "\<forall>x. count (mset xs) x \<le> 1"
  then have "count (mset xs) x = (if x \<in> set xs then 1 else 0)" for x
    by (metis count_greater_zero_iff le_antisym less_one not_less order_less_le set_mset_mset Suc_leI One_nat_def not_gr_zero)
  then show "distinct xs"
    by (simp add: distinct_count_atmost_1)
next
  assume "distinct xs"
  then show "\<forall>x. count (mset xs) x \<le> 1"
    by (simp add: distinct_count_atmost_1)
qed

lemma h_elem_cnt_remove: "h_elem_cnt (remove_elem x h) = h_elem_cnt h - 1"
  by (simp add: remove_elem_def)

lemma set_diff_one: "\<forall>y. count M y \<le> 1 \<Longrightarrow> set_mset (M - {#x#}) = set_mset M - {x}"
proof -
  assume c: "\<forall>y. count M y \<le> 1"
  have "y \<in># M - {#x#} \<longleftrightarrow> y \<in># M \<and> y \<noteq> x" for y
    using c [rule_format, of x] by (cases "y = x") (auto simp: in_diff_count not_less)
  then show ?thesis
    by auto
qed

section \<open>The contract with the client\<close>

text \<open>
  What \<^verbatim>\<open>hash.c\<close> needs of the functions it is given: equality under \<^verbatim>\<open>less\<close> is an
  equivalence, and equal elements have equal hash values.
\<close>

locale hash_order =
  fixes hf :: "addr \<Rightarrow> u32" and lt :: "addr \<Rightarrow> addr \<Rightarrow> bool"
  assumes lt_irrefl: "\<not> lt a a"
    and same_trans: "\<not> lt a b \<Longrightarrow> \<not> lt b a \<Longrightarrow> \<not> lt b c \<Longrightarrow> \<not> lt c b \<Longrightarrow> \<not> lt a c \<and> \<not> lt c a"
    and same_hash: "\<not> lt a b \<Longrightarrow> \<not> lt b a \<Longrightarrow> hf a = hf b"
begin

definition same :: "addr \<Rightarrow> addr \<Rightarrow> bool" where
  "same a b \<longleftrightarrow> \<not> lt a b \<and> \<not> lt b a"

lemma find_elem_Some: "find_elem lt b e = Some x \<Longrightarrow> x \<in> set b \<and> same x e"
  by (induction b) (auto simp: same_def split: if_splits)

lemma find_elem_None: "find_elem lt b e = None \<longleftrightarrow> (\<forall>x \<in> set b. \<not> same x e)"
  by (induction b) (auto simp: same_def)

lemma same_bucket: "same x e \<Longrightarrow> find_bucket hf h x = find_bucket hf h e"
  using same_hash [of x e] by (simp add: same_def find_bucket_def)

lemma find_elem_bucket:
  assumes "hash_shape hf h"
  shows "fetch (buckets h) (find_bucket hf h e) = Some (buckets h ! find_bucket hf h e)"
    and "find_elem lt (buckets h ! find_bucket hf h e) e = Some x \<Longrightarrow> x \<in> elems h \<and> same x e"
    and "find_elem lt (buckets h ! find_bucket hf h e) e = None \<Longrightarrow> x \<in> elems h \<Longrightarrow> \<not> same x e"
proof -
  show "fetch (buckets h) (find_bucket hf h e) = Some (buckets h ! find_bucket hf h e)"
    using shape_index [OF assms] by (simp add: kernel_simps)
  show "x \<in> elems h \<and> same x e" if "find_elem lt (buckets h ! find_bucket hf h e) e = Some x"
    using find_elem_Some [OF that] same_bucket [of x e h] shape_bucket [OF assms, of x] by metis
  show "\<not> same x e" if "find_elem lt (buckets h ! find_bucket hf h e) e = None" "x \<in> elems h"
    using that find_elem_None same_bucket [of x e h] shape_bucket [OF assms, of x] by metis
qed

lemma okI:
  assumes "hash_shape hf h" and "hmset h = M" and "\<forall>x. count M x \<le> 1"
    and "h_elem_cnt h = of_nat (size M)" and "\<And>a b. a \<in># M \<Longrightarrow> b \<in># M \<Longrightarrow> same a b \<Longrightarrow> a = b"
  shows "hash_ok hf lt h" and "elems h = set_mset M"
proof -
  have e: "set (concat (buckets h)) = set_mset M" and l: "length (concat (buckets h)) = size M"
    using assms(2) unfolding hmset_def by (metis set_mset_mset, metis size_mset)
  have "distinct (concat (buckets h))"
    using assms(2,3) unfolding hmset_def by (metis count_le_distinct)
  then show "hash_ok hf lt h"
    using assms(1,4,5) e l by (auto simp: hash_ok_def elems_def same_def)
  show "elems h = set_mset M"
    using e by (simp add: elems_def)
qed

lemma ok_facts:
  assumes "hash_ok hf lt h"
  shows "hash_shape hf h" and "\<forall>x. count (hmset h) x \<le> 1" and "h_elem_cnt h = of_nat (size (hmset h))"
    and "elems h = set_mset (hmset h)" and "\<And>a b. a \<in># hmset h \<Longrightarrow> b \<in># hmset h \<Longrightarrow> same a b \<Longrightarrow> a = b"
proof -
  show e: "elems h = set_mset (hmset h)"
    by (simp add: elems_def hmset_def)
  show "a = b" if "a \<in># hmset h" "b \<in># hmset h" "same a b" for a b
    using assms that e unfolding hash_ok_def same_def by blast
  have "distinct (concat (buckets h))"
    using assms by (simp add: hash_ok_def)
  then show "\<forall>x. count (hmset h) x \<le> 1"
    unfolding hmset_def by (simp only: count_le_distinct)
  show "hash_shape hf h" "h_elem_cnt h = of_nat (size (hmset h))"
    using assms by (simp_all add: hash_ok_def hmset_def)
qed

lemma same_sym: "same a b \<Longrightarrow> same b a"
  by (simp add: same_def)

lemma same_refl: "same a a"
  using lt_irrefl by (simp add: same_def)

lemma rehash_ok:
  assumes "hash_shape hf h" and "hmset h = M" and "\<forall>x. count M x \<le> 1"
    and "h_elem_cnt h = of_nat (size M)" and "\<And>a b. a \<in># M \<Longrightarrow> b \<in># M \<Longrightarrow> same a b \<Longrightarrow> a = b"
  shows "\<exists>h'. rehash hf mem h = Some h' \<and> hash_ok hf lt h' \<and> elems h' = set_mset M"
proof -
  obtain h' where h': "rehash hf mem h = Some h'" "hash_shape hf h'" "hmset h' = hmset h"
    "h_elem_cnt h' = h_elem_cnt h"
    using rehash_spec [OF assms(1)] by blast
  then show ?thesis
    using okI [OF h'(2), of M] assms by auto
qed

lemma insert_elem_spec:
  assumes "hash_shape hf h"
  obtains h' where "insert_elem (find_bucket hf h e) e h = Some h'" and "hash_shape hf h'"
    and "hmset h' = add_mset e (hmset h)" and "h_elem_cnt h' = h_elem_cnt h + 1"
proof -
  let ?h = "h\<lparr>h_elem_cnt := h_elem_cnt h + 1\<rparr>"
  have fb: "find_bucket hf ?h = find_bucket hf h"
    by (simp add: fun_eq_iff find_bucket_def)
  have sh: "hash_shape hf ?h" and hm: "hmset ?h = hmset h"
    using assms by (simp_all add: hash_shape_def fb hmset_def)
  obtain h' where "push_bucket (find_bucket hf ?h e) e ?h = Some h'" "hash_shape hf h'" "hmset h' = add_mset e (hmset ?h)"
    "h_elem_cnt h' = h_elem_cnt ?h"
    using push_bucket_spec [OF sh] by blast
  then show ?thesis
    using that [of h'] by (simp add: insert_elem_def fb hm)
qed

lemma remove_elem_spec:
  assumes "hash_ok hf lt h" and "x \<in> elems h"
  shows "hash_shape hf (remove_elem x h)" and "find_bucket hf (remove_elem x h) = find_bucket hf h"
    and "hmset (remove_elem x h) = hmset h - {#x#}"
    and "h_elem_cnt (remove_elem x h) = of_nat (size (hmset h - {#x#}))"
proof -
  note f = ok_facts [OF assms(1)]
  show fb: "find_bucket hf (remove_elem x h) = find_bucket hf h"
    by (simp add: fun_eq_iff find_bucket_def remove_elem_def)
  have "find_bucket hf h e = i" if "i < length (buckets h)" "e \<in> set (remove1 x (buckets h ! i))" for i e
    using shape_own [OF f(1) that(1)] notin_set_remove1 that(2) by fast
  then show "hash_shape hf (remove_elem x h)"
    using f(1) unfolding hash_shape_def fb by (auto simp: remove_elem_def)
  show "hmset (remove_elem x h) = hmset h - {#x#}"
    using mset_remove [of "buckets h" x] assms by (simp add: hash_ok_def elems_def remove_elem_def hmset_def)
  have "x \<in># hmset h"
    using assms(2) f(4) by simp
  then show "h_elem_cnt (remove_elem x h) = of_nat (size (hmset h - {#x#}))"
    using f(3) size_Suc_Diff1 [of x "hmset h"]
    by (metis add_diff_cancel_right' h_elem_cnt_remove of_nat_Suc add.commute)
qed

lemma insert_spec:
  assumes "hash_ok hf lt h" and "e \<notin> elems h"
  shows "\<exists>r h'. hash_insert hf lt mem e h = Some (r, h') \<and> hash_ok hf lt h' \<and>
    (case r of None \<Rightarrow> (\<forall>x \<in> elems h. \<not> same x e) \<and> elems h' = insert e (elems h)
     | Some x \<Rightarrow> x \<in> elems h \<and> same x e \<and> elems h' = elems h)"
proof -
  let ?M = "hmset h" and ?i = "find_bucket hf h e"
  note f = ok_facts [OF assms(1)] and b = find_elem_bucket [OF ok_facts(1) [OF assms(1)]]
  show ?thesis
  proof (cases "find_elem lt (buckets h ! ?i) e")
    case (Some x)
    obtain h' where "rehash hf mem h = Some h'" "hash_ok hf lt h'" "elems h' = elems h"
      using rehash_ok [OF f(1) refl f(2,3,5), of mem] f(4) by auto
    then show ?thesis
      using b(2) [OF Some] Some b(1) by (auto simp: hash_insert_def)
  next
    case None
    note ns = b(3) [OF None]
    obtain h1 where h1: "insert_elem ?i e h = Some h1" "hash_shape hf h1" "hmset h1 = add_mset e ?M"
      "h_elem_cnt h1 = h_elem_cnt h + 1"
      using insert_elem_spec [OF f(1)] by blast
    have c1: "\<forall>x. count (add_mset e ?M) x \<le> 1"
      using f(2,4) assms(2) by (auto simp: not_in_iff)
    have c2: "h_elem_cnt h1 = of_nat (size (add_mset e ?M))"
      using h1(4) f(3) by simp
    have c3: "a = b" if "a \<in># add_mset e ?M" "b \<in># add_mset e ?M" "same a b" for a b
    proof -
      have "a = e \<or> a \<in># ?M" "b = e \<or> b \<in># ?M"
        using that(1,2) by auto
      moreover have "\<not> same x e" "\<not> same e x" if "x \<in># ?M" for x
        using ns [of x] same_sym [of e x] that f(4) by blast+
      ultimately show ?thesis
        using f(5) that(3) by blast
    qed
    obtain h' where "rehash hf mem h1 = Some h'" "hash_ok hf lt h'" "elems h' = insert e (elems h)"
      using rehash_ok [OF h1(2,3) c1 c2 c3, of mem] f(4) by auto
    then show ?thesis
      using None b(1) h1(1) ns by (auto simp: hash_insert_def)
  qed
qed

lemma delete_spec:
  assumes "hash_ok hf lt h"
  shows "\<exists>r h'. hash_delete hf lt mem e h = Some (r, h') \<and> hash_ok hf lt h' \<and>
    (case r of None \<Rightarrow> (\<forall>x \<in> elems h. \<not> same x e) \<and> h' = h
     | Some x \<Rightarrow> x \<in> elems h \<and> same x e \<and> elems h' = elems h - {x})"
proof -
  let ?M = "hmset h" and ?i = "find_bucket hf h e"
  note f = ok_facts [OF assms] and b = find_elem_bucket [OF ok_facts(1) [OF assms]]
  show ?thesis
  proof (cases "find_elem lt (buckets h ! ?i) e")
    case (Some x)
    note x = b(2) [OF Some]
    note r = remove_elem_spec [OF assms conjunct1 [OF x]]
    have "\<forall>y. count (?M - {#x#}) y \<le> 1"
      using f(2) by (metis count_diff diff_le_self order_trans)
    moreover have "set_mset (?M - {#x#}) = elems h - {x}"
      using set_diff_one [OF f(2)] f(4) by simp
    moreover have "a = b" if "a \<in># ?M - {#x#}" "b \<in># ?M - {#x#}" "same a b" for a b
      using that f(5) in_diffD by metis
    ultimately obtain h' where "rehash hf mem (remove_elem x h) = Some h'" "hash_ok hf lt h'" "elems h' = elems h - {x}"
      using rehash_ok [OF r(1,3) _ r(4), of mem] by auto
    then show ?thesis
      using Some b(1) x by (auto simp: hash_delete_def)
  next
    case None
    then show ?thesis
      using b(1,3) assms by (auto simp: hash_delete_def)
  qed
qed

end

section \<open>Keys hashed by \<^verbatim>\<open>hash_int\<close>\<close>

lemma hash_int_total: "hash_int i \<noteq> None"
  by (simp add: hash_int_def hash_bytes_def u32_bytes_def numeral_eq_Suc fetch_def)

interpretation int_keys: hash_order "\<lambda>e. the (hash_int (key e))" "\<lambda>a b. key a < key b" for key :: "addr \<Rightarrow> u32"
  by unfold_locales auto

section \<open>Properties\<close>

text \<open>
  C30: \<^verbatim>\<open>hash_insert\<close> on a well-formed table implements insertion into a set without equal
  elements, for every client whose order and hash function agree, and whether or not
  the table can be resized: it inserts the element exactly when no equal one is there, returns
  the equal one otherwise, and keeps the table well formed.
\<close>

theorem hash_insert_refines:
  assumes "hash_order hf lt" and "hash_ok hf lt h" and "e \<notin> elems h"
  shows "\<exists>r h'. hash_insert hf lt mem e h = Some (r, h') \<and> hash_ok hf lt h' \<and>
    (case r of None \<Rightarrow> (\<forall>x \<in> elems h. lt x e \<or> lt e x) \<and> elems h' = insert e (elems h)
     | Some x \<Rightarrow> x \<in> elems h \<and> \<not> lt x e \<and> \<not> lt e x \<and> elems h' = elems h)"
  using hash_order.insert_spec [OF assms, of mem] by (simp add: hash_order.same_def [OF assms(1)] cong: option.case_cong)

text \<open>
  \<^verbatim>\<open>hash_delete\<close> returns the element equal to its argument and removes exactly it, or
  reports that there is none and changes nothing; the table stays well formed.
\<close>

theorem hash_delete_refines:
  assumes "hash_order hf lt" and "hash_ok hf lt h"
  shows "\<exists>r h'. hash_delete hf lt mem e h = Some (r, h') \<and> hash_ok hf lt h' \<and>
    (case r of None \<Rightarrow> (\<forall>x \<in> elems h. lt x e \<or> lt e x) \<and> h' = h
     | Some x \<Rightarrow> x \<in> elems h \<and> \<not> lt x e \<and> \<not> lt e x \<and> elems h' = elems h - {x})"
  using hash_order.delete_spec [OF assms, of mem e] by (simp add: hash_order.same_def [OF assms(1)] cong: option.case_cong)

text \<open>
  C29: \<^verbatim>\<open>rehash\<close> terminates (its search for a power of two ends for every count) and, with
  memory, leaves the largest power of two that is at most half the number of elements, but
  at least four, as the number of buckets; no element is lost or gained and every element
  is in the bucket its hash value selects.
\<close>

theorem rehash_terminates:
  assumes "hash_shape hf h"
  shows "\<exists>h' k. rehash hf True h = Some h' \<and> hash_shape hf h' \<and>
    mset (concat (buckets h')) = mset (concat (buckets h)) \<and> unat (bucket_cnt h') = 2 ^ k \<and>
    2 ^ k \<le> max 4 (unat (h_elem_cnt h) div 2) \<and> max 4 (unat (h_elem_cnt h) div 2) < 2 ^ Suc k"
proof -
  obtain h' where "rehash hf True h = Some h'" "hash_shape hf h'" "hmset h' = hmset h"
    "\<exists>k. unat (bucket_cnt h') = 2 ^ k \<and> 2 ^ k \<le> max 4 (unat (h_elem_cnt h) div 2) \<and>
      max 4 (unat (h_elem_cnt h) div 2) < 2 ^ Suc k"
    using rehash_spec [OF assms, of True] by blast
  then show ?thesis
    unfolding hmset_def by blast
qed

definition hash_example :: hash where
  "hash_example = \<lparr>h_elem_cnt = 2, bucket_cnt = 4, buckets = [[], [5], [2], []]\<rparr>"

lemma less_4: "i < 4 \<longleftrightarrow> i \<in> {0, 1, 2, 3 :: nat}"
  by auto

lemma hash_example_shape: "hash_shape (\<lambda>e. e) hash_example"
proof -
  have "\<forall>e \<in> set (buckets hash_example ! i). find_bucket (\<lambda>e. e) hash_example e = i" if "i < 4" for i
    using that by (auto simp: hash_example_def find_bucket_def less_4)
  then show ?thesis
    by (auto simp: hash_shape_def hash_example_def intro!: exI [of _ 2])
qed

lemma hash_example_ok: "hash_order (\<lambda>e. e) (<)" "hash_ok (\<lambda>e. e) (<) hash_example"
proof -
  show "hash_order (\<lambda>e. e) (<)"
    by unfold_locales auto
  have "h_elem_cnt hash_example = of_nat (length (concat (buckets hash_example)))" "distinct (concat (buckets hash_example))"
    by (simp_all add: hash_example_def)
  then show "hash_ok (\<lambda>e. e) (<) hash_example"
    using hash_example_shape by (auto simp: hash_ok_def)
qed

theorem hash_insert_refines_witness:
  "\<exists>r h'. hash_insert (\<lambda>e. e) (<) True 9 hash_example = Some (r, h') \<and> hash_ok (\<lambda>e. e) (<) h'"
  using hash_insert_refines [OF hash_example_ok, of 9 True] by (auto simp: elems_def hash_example_def)

theorem hash_delete_refines_witness:
  "\<exists>r h'. hash_delete (\<lambda>e. e) (<) True 5 hash_example = Some (r, h') \<and> hash_ok (\<lambda>e. e) (<) h'"
  using hash_delete_refines [OF hash_example_ok, of True 5] by blast

theorem rehash_terminates_witness:
  "\<exists>h' k. rehash (\<lambda>e. e) True hash_example = Some h' \<and> unat (bucket_cnt h') = 2 ^ k"
  using rehash_terminates [OF hash_example_shape] by blast

end
