(* ===== verification/Arith64.thy ===== *)
theory Arith64
  imports Disk
begin

text \<open>
  \<^verbatim>\<open>lib/arithmetic.c\<close>: 64-bit division built from the processor's division of 64 by 32 bits.
  \<^verbatim>\<open>divl\<close> is the instruction: it traps (\<^term>\<open>None\<close>) when the quotient does not fit in 32 bits
  or the divisor is zero.  The proof follows the argument sketched in the source for
  divisors below 2^32 and the one it refers to for the others.
\<close>

section \<open>Operations\<close>

definition divl :: "u64 \<Rightarrow> u32 \<Rightarrow> u32 kernel" where
  "divl n d = (if d = 0 \<or> 2 ^ 32 \<le> unat n div unat d then None else Some (of_nat (unat n div unat d)))"

definition nlz :: "u32 \<Rightarrow> nat" where
  "nlz x = (let
     (n, x) = (if x \<le> 0x0000FFFF then (16, push_bit 16 x) else (0, x));
     (n, x) = (if x \<le> 0x00FFFFFF then (n + 8, push_bit 8 x) else (n, x));
     (n, x) = (if x \<le> 0x0FFFFFFF then (n + 4, push_bit 4 x) else (n, x));
     (n, x) = (if x \<le> 0x3FFFFFFF then (n + 2, push_bit 2 x) else (n, x))
   in if x \<le> 0x7FFFFFFF then n + 1 else n)"

definition udiv64 :: "u64 \<Rightarrow> u64 \<Rightarrow> u64 kernel" where
  "udiv64 n d =
     (if drop_bit 32 d = 0
      then do {
        let b = (2 ^ 32 :: u64);
        let n1 = (ucast (drop_bit 32 n) :: u32);
        let n0 = (ucast n :: u32);
        let d0 = (ucast d :: u32);
        ASSERT (d0 \<noteq> 0);
        q \<leftarrow> divl (b * ucast (n1 mod d0) + ucast n0) d0;
        Some (ucast q + b * ucast (n1 div d0))
      }
      else if n < d then Some 0
      else do {
        let d1 = (ucast (drop_bit 32 d) :: u32);
        let s = nlz d1;
        q \<leftarrow> divl (drop_bit 1 n) (ucast (drop_bit 32 (push_bit s d)));
        let q = (ucast (drop_bit (31 - s) q) :: u64);
        Some (if n - (q - 1) * d < d then q - 1 else q)
      })"

definition umod64 :: "u64 \<Rightarrow> u64 \<Rightarrow> u32 kernel" where
  "umod64 n d = do { q \<leftarrow> udiv64 n d; Some (ucast (n - d * q)) }"

definition sdiv64 :: "u64 \<Rightarrow> u64 \<Rightarrow> u64 kernel" where
  "sdiv64 n d = do {
     let n_abs = (if 0 \<le>s n then n else - n);
     let d_abs = (if 0 \<le>s d then d else - d);
     q_abs \<leftarrow> udiv64 n_abs d_abs;
     Some (if (n <s 0) = (d <s 0) then q_abs else - q_abs)
   }"

definition smod64 :: "u64 \<Rightarrow> u64 \<Rightarrow> u32 kernel" where
  "smod64 n d = do { q \<leftarrow> sdiv64 n d; Some (ucast (n - d * q)) }"

definition divdi3 :: "u64 \<Rightarrow> u64 \<Rightarrow> u64 kernel" where
  "divdi3 n d = sdiv64 n d"

definition moddi3 :: "u64 \<Rightarrow> u64 \<Rightarrow> u64 kernel" where
  "moddi3 n d = map_option scast (smod64 n d)"

definition udivdi3 :: "u64 \<Rightarrow> u64 \<Rightarrow> u64 kernel" where
  "udivdi3 n d = udiv64 n d"

definition umoddi3 :: "u64 \<Rightarrow> u64 \<Rightarrow> u64 kernel" where
  "umoddi3 n d = map_option ucast (umod64 n d)"

section \<open>Leading zeros\<close>

lemma unat_shift:
  fixes x :: u32
  assumes "unat x < 2 ^ (32 - k)" and "k < 32"
  shows "unat (push_bit k x) = unat x * 2 ^ k"
proof -
  have "unat x * 2 ^ k < 2 ^ (32 - k) * 2 ^ k"
    using assms(1) by simp
  also have "\<dots> = 2 ^ 32"
    using assms(2) by (simp flip: power_add)
  finally have "unat x * 2 ^ k < 2 ^ 32" .
  moreover have "unat (push_bit k x) = take_bit 32 (push_bit k (unat x))"
    by (simp add: unsigned_push_bit_eq)
  ultimately show ?thesis
    by (simp add: push_bit_eq_mult take_bit_nat_eq_self)
qed

definition shift_ok :: "nat \<Rightarrow> nat \<Rightarrow> nat \<times> u32 \<Rightarrow> bool" where
  "shift_ok X m p \<longleftrightarrow> unat (snd p) = X * 2 ^ fst p \<and> 2 ^ m \<le> unat (snd p)"

lemma shift_step:
  assumes "shift_ok X m (n, x)" and "k < 32" and "m + k = 32 - k" and "unat c + 1 = 2 ^ (32 - k)"
  shows "shift_ok X (m + k) (if x \<le> c then (n + k, push_bit k x) else (n, x))"
proof (cases "x \<le> c")
  case True
  then have "unat x < 2 ^ (32 - k)"
    using assms(4) by (simp add: word_le_nat_alt)
  then show ?thesis
    using True assms(1,2) unat_shift [of x k] by (simp add: shift_ok_def power_add)
next
  case False
  then show ?thesis
    using assms by (simp add: shift_ok_def word_le_nat_alt)
qed

lemma nlz_bounds:
  assumes "x \<noteq> 0"
  shows "2 ^ 31 \<le> unat x * 2 ^ nlz x" and "unat x * 2 ^ nlz x < 2 ^ 32" and "nlz x < 32"
proof -
  have 0: "shift_ok (unat x) 0 (0, x)"
    using assms by (simp add: shift_ok_def Suc_le_eq unat_gt_0)
  define p1 where "p1 = (if x \<le> 0x0000FFFF then (0 + 16 :: nat, push_bit 16 x) else (0, x))"
  define p2 where "p2 = (if snd p1 \<le> 0x00FFFFFF then (fst p1 + 8, push_bit 8 (snd p1)) else (fst p1, snd p1))"
  define p3 where "p3 = (if snd p2 \<le> 0x0FFFFFFF then (fst p2 + 4, push_bit 4 (snd p2)) else (fst p2, snd p2))"
  define p4 where "p4 = (if snd p3 \<le> 0x3FFFFFFF then (fst p3 + 2, push_bit 2 (snd p3)) else (fst p3, snd p3))"
  have "shift_ok (unat x) 16 p1"
    using shift_step [OF 0, of 16 "0x0000FFFF"] by (simp add: p1_def)
  then have "shift_ok (unat x) 24 p2"
    using shift_step [of "unat x" 16 "fst p1" "snd p1" 8 "0x00FFFFFF"] by (simp add: p2_def)
  then have "shift_ok (unat x) 28 p3"
    using shift_step [of "unat x" 24 "fst p2" "snd p2" 4 "0x0FFFFFFF"] by (simp add: p3_def)
  then have 4: "shift_ok (unat x) 30 p4"
    using shift_step [of "unat x" 28 "fst p3" "snd p3" 2 "0x3FFFFFFF"] by (simp add: p4_def)
  have nlz: "nlz x = (if snd p4 \<le> 0x7FFFFFFF then fst p4 + 1 else fst p4)"
    by (simp add: nlz_def p1_def p2_def p3_def p4_def Let_def split_def)
  have "2 ^ 31 \<le> unat x * 2 ^ nlz x \<and> unat x * 2 ^ nlz x < 2 ^ 32"
  proof (cases "snd p4 \<le> 0x7FFFFFFF")
    case True
    then have "unat (snd p4) < 2 ^ 31"
      by (simp add: word_le_nat_alt)
    then show ?thesis
      using True 4 nlz by (simp add: shift_ok_def)
  next
    case False
    then have "2 ^ 31 \<le> unat (snd p4)"
      by (simp add: word_le_nat_alt)
    then show ?thesis
      using False 4 nlz unat_bound32 [of "snd p4"] by (simp add: shift_ok_def)
  qed
  then show "2 ^ 31 \<le> unat x * 2 ^ nlz x" and lt: "unat x * 2 ^ nlz x < 2 ^ 32"
    by auto
  have "1 * 2 ^ nlz x \<le> unat x * 2 ^ nlz x"
    using assms by (intro mult_right_mono) (auto simp: Suc_le_eq unat_gt_0)
  from order_le_less_trans [OF this lt] have "(2 :: nat) ^ nlz x < 2 ^ 32"
    by (simp only: mult_1)
  then show "nlz x < 32"
    by (rule power_less_imp_less_exp [rotated]) simp
qed

section \<open>The quotient estimate\<close>

lemma estimate:
  fixes n d s :: nat
  assumes d: "2 ^ (63 - s) \<le> d" and s: "s < 32" and n: "n < 2 ^ 64" and w: "w = d div 2 ^ (32 - s) * 2 ^ (32 - s)"
  shows "n div d \<le> n div w" and "n div w \<le> n div d + 1"
proof -
  let ?t = "d mod 2 ^ (32 - s)" and ?Q = "n div d"
  have wt: "d = w + ?t"
    using w by (simp add: div_mult_mod_eq)
  have e: "(2 :: nat) ^ (63 - s) = 2 ^ 31 * 2 ^ (32 - s)"
  proof -
    have "63 - s = 31 + (32 - s)"
      using s by simp
    then show ?thesis
      by (simp only: power_add)
  qed
  have "0 < (2 :: nat) ^ (32 - s)"
    by simp
  from less_eq_div_iff_mult_less_eq [OF this] have "2 ^ 31 \<le> d div 2 ^ (32 - s)"
    using d unfolding e by blast
  then have w63: "2 ^ (63 - s) \<le> w"
    unfolding e w by (rule mult_right_mono) simp
  then have w0: "0 < w" and d0: "0 < d"
    using wt by (auto intro: Nat.gr0I)
  show "n div d \<le> n div w"
    using wt w0 by (intro div_le_mono2) auto
  have "?Q * 2 ^ (63 - s) \<le> ?Q * d"
    using d by simp
  also have "\<dots> \<le> n"
    by simp
  also have "\<dots> < 2 ^ (s + 1) * 2 ^ (63 - s)"
  proof -
    have "(s + 1) + (63 - s) = 64"
      using s by simp
    then show ?thesis
      using n by (metis power_add)
  qed
  finally have Q: "?Q + 1 \<le> 2 ^ (s + 1)"
    by simp
  have t: "?t + 1 \<le> 2 ^ (32 - s)"
    by (simp add: Suc_le_eq)
  have "(?Q + 1) * ?t + 2 ^ (s + 1) \<le> 2 ^ (s + 1) * (?t + 1)"
    using mult_right_mono [OF Q, of ?t] by (simp only: distrib_left mult_1_right add_le_cancel_right)
  also have "\<dots> \<le> 2 ^ (s + 1) * 2 ^ (32 - s)"
    using t by (rule mult_left_mono) simp
  also have "\<dots> = 2 ^ 33"
    using s by (simp flip: power_add)
  finally have b: "(?Q + 1) * ?t + 2 ^ (s + 1) \<le> 2 ^ 33" .
  have "(?Q + 1) * ?t \<le> 2 ^ (63 - s)"
  proof (cases "s = 31")
    case True
    then show ?thesis
      using b by simp
  next
    case False
    then have "(2 :: nat) ^ 33 \<le> 2 ^ (63 - s)"
      using s by (intro power_increasing) auto
    then show ?thesis
      using b by simp
  qed
  then have qt: "(?Q + 1) * ?t \<le> w"
    using w63 by simp
  have "n < (?Q + 1) * d"
    using div_less_iff_less_mult [OF d0, of n "?Q + 1"] by simp
  also have "\<dots> = (?Q + 1) * w + (?Q + 1) * ?t"
    using wt by (metis add_mult_distrib2)
  also have "\<dots> \<le> (?Q + 1) * w + w"
    using qt by simp
  also have "\<dots> = (?Q + 2) * w"
    by (simp add: algebra_simps)
  finally have "n div w < ?Q + 2"
    using w0 by (simp add: less_mult_imp_div_less)
  then show "n div w \<le> n div d + 1"
    by simp
qed

section \<open>Unsigned division\<close>

lemma unat_ucast_64 [simp]: "unat (ucast (x :: u32) :: u64) = unat x"
  by (simp add: unsigned_ucast_eq take_bit_nat_eq_self unat_bound32 order.strict_trans [OF unat_bound32])

lemma unat_ucast_32: "unat (x :: u64) < 2 ^ 32 \<Longrightarrow> unat (ucast x :: u32) = unat x"
  by (simp add: unsigned_ucast_eq take_bit_nat_eq_self)

lemma unat_bound64: "unat (x :: u64) < 2 ^ 64"
  using unsigned_less [of x] by simp

lemma unat_high: "unat (drop_bit k (x :: u64)) = unat x div 2 ^ k"
proof -
  have "unat (drop_bit k x) = drop_bit k (unat x)"
    using unat_bound64 [of x] by (simp add: unsigned_drop_bit_eq take_bit_nat_eq_self)
  then show ?thesis
    by (simp add: drop_bit_eq_div)
qed

lemma unat_high32: "unat (drop_bit k (x :: u32)) = unat x div 2 ^ k"
proof -
  have "unat (drop_bit k x) = drop_bit k (unat x)"
    using unat_bound32 [of x] by (simp add: unsigned_drop_bit_eq take_bit_nat_eq_self)
  then show ?thesis
    by (simp add: drop_bit_eq_div)
qed

lemma high_small: "unat (x :: u64) div 2 ^ 32 < 2 ^ 32"
  using unat_bound64 [of x] by (simp add: less_mult_imp_div_less)

lemma divl_Some:
  assumes "d \<noteq> 0" and "unat n div unat d < 2 ^ 32"
  obtains q where "divl n d = Some q" and "unat q = unat n div unat d"
proof
  show "divl n d = Some (of_nat (unat n div unat d))"
    using assms by (simp add: divl_def)
  show "unat (of_nat (unat n div unat d) :: u32) = unat n div unat d"
    by (rule unat_of_nat_small) (use assms(2) in simp)
qed

lemma udiv64_small:
  assumes "d \<noteq> 0" and "unat d < 2 ^ 32"
  shows "udiv64 n d = Some (n div d)"
proof -
  let ?b = "2 ^ 32 :: nat"
  let ?n1 = "ucast (drop_bit 32 n) :: u32" and ?n0 = "ucast n :: u32" and ?d0 = "ucast d :: u32"
  let ?N1 = "unat n div ?b" and ?N0 = "unat n mod ?b" and ?D = "unat d"
  have d0: "unat ?d0 = ?D" "0 < ?D"
    using assms unat_ucast_32 [of d] by (simp_all add: unat_gt_0)
  then have d0z: "?d0 \<noteq> 0"
    by (metis unat_0 less_irrefl)
  have n1: "unat ?n1 = ?N1"
    using high_small [of n] by (simp add: unat_ucast_32 unat_high)
  have n0: "unat ?n0 = ?N0"
    by (simp add: unsigned_ucast_eq take_bit_eq_mod)
  let ?a = "2 ^ 32 * ucast (?n1 mod ?d0) + ucast ?n0 :: u64"
  have r: "?N1 mod ?D + 1 \<le> ?D"
    using d0(2) by (simp add: Suc_le_eq)
  have "(?N1 mod ?D + 1) * ?b \<le> ?D * ?b"
    using r by (rule mult_right_mono) simp
  then have bd: "?b * (?N1 mod ?D) + ?N0 < ?D * ?b"
    by (simp add: algebra_simps)
  have a: "unat ?a = ?b * (?N1 mod ?D) + ?N0"
  proof -
    have "?D * ?b \<le> ?b * ?b"
      using assms(2) by simp
    then have lt: "?b * (?N1 mod ?D) + ?N0 < 2 ^ 64"
      using bd by simp
    then show ?thesis
      by (subst unat_add_small; subst unat_mult_small) (simp_all add: unat_mod n1 n0 d0)
  qed
  have q: "unat ?a div ?D < ?b"
    using bd unfolding a by (simp add: less_mult_imp_div_less mult.commute)
  then obtain qw where dv: "divl ?a ?d0 = Some qw" "unat qw = unat ?a div ?D"
    using divl_Some [OF d0z] unfolding d0(1) by blast
  let ?r = "ucast qw + 2 ^ 32 * ucast (?n1 div ?d0) :: u64"
  have ev: "udiv64 n d = Some ?r"
  proof -
    have "drop_bit 32 d = 0"
      using assms(2) by (metis div_less unat_eq_zero unat_high)
    then show ?thesis
      using dv(1) d0z by (simp add: udiv64_def Let_def)
  qed
  have dec: "unat n div ?D = unat ?a div ?D + ?b * (?N1 div ?D)"
  proof -
    have "unat n = ?b * (?D * (?N1 div ?D) + ?N1 mod ?D) + ?N0"
      by (simp only: mult_div_mod_eq)
    also have "\<dots> = ?D * (?b * (?N1 div ?D)) + unat ?a"
      unfolding a by (simp only: distrib_left mult.left_commute add.assoc)
    finally show ?thesis
      using div_mult_self2 [of ?D "unat ?a" "?b * (?N1 div ?D)"] d0(2) by (simp only: add.commute)
  qed
  have "unat n div ?D < 2 ^ 64"
    by (rule order.strict_trans1 [OF div_le_dividend unat_bound64])
  then have "unat ?r = unat n div ?D"
    unfolding dec by (subst unat_add_small; subst unat_mult_small) (simp_all add: dv(2) unat_div n1 d0)
  then show ?thesis
    using ev by (metis unat_div word_unat_eq_iff)
qed

lemma shifted_bound:
  fixes D s :: nat
  assumes "D div 2 ^ 32 * 2 ^ s < 2 ^ 32" and "s < 32"
  shows "D * 2 ^ s < 2 ^ 64"
proof -
  define k where "k = 32 - s"
  have pw: "(2 :: nat) ^ 32 = 2 ^ k * 2 ^ s"
    unfolding power_add [symmetric] k_def using assms(2) by simp
  have "D div 2 ^ 32 < 2 ^ k"
    using assms(1) unfolding pw by (simp only: mult_less_cancel2)
  then have "D < 2 ^ k * 2 ^ 32"
    by (simp only: div_less_iff_less_mult zero_less_power zero_less_numeral)
  then have "D * 2 ^ s < 2 ^ k * 2 ^ 32 * 2 ^ s"
    by (simp only: mult_less_cancel2) simp
  also have "\<dots> = 2 ^ 32 * 2 ^ 32"
    by (simp only: pw mult.assoc mult.left_commute)
  finally show ?thesis
    by (simp only: power_add [symmetric]) simp
qed

lemma shifted_quotient:
  fixes D s :: nat
  assumes "2 ^ 31 \<le> D div 2 ^ 32 * 2 ^ s" and "s < 32"
  shows "2 ^ (63 - s) \<le> D"
proof -
  define k where "k = 32 - s"
  have pw: "(2 :: nat) ^ 32 = 2 ^ s * 2 ^ k"
    unfolding power_add [symmetric] k_def using assms(2) by simp
  have "(2 :: nat) ^ (63 - s) = 2 ^ 31 * 2 ^ k"
    unfolding power_add [symmetric] k_def using assms(2) by simp
  also have "\<dots> \<le> D div 2 ^ 32 * 2 ^ s * 2 ^ k"
    using assms(1) by (rule mult_right_mono) simp
  also have "\<dots> = D div 2 ^ 32 * 2 ^ 32"
    by (simp only: pw mult.assoc)
  also have "\<dots> \<le> D"
    by (rule div_times_less_eq_dividend)
  finally show ?thesis .
qed

lemma shift_cancel:
  fixes D s :: nat
  assumes "s < 32"
  shows "D * 2 ^ s div 2 ^ 32 = D div 2 ^ (32 - s)"
proof -
  have "(2 :: nat) ^ 32 = 2 ^ (32 - s) * 2 ^ s"
    unfolding power_add [symmetric] using assms by simp
  then show ?thesis
    by (simp only: div_mult_mult2 power_not_zero zero_neq_numeral not_False_eq_True)
qed

lemma unat_shift64:
  assumes "unat (x :: u64) * 2 ^ k < 2 ^ 64"
  shows "unat (push_bit k x) = unat x * 2 ^ k"
proof -
  have "unat (push_bit k x) = take_bit LENGTH(64) (push_bit k (unat x))"
    by (rule unsigned_push_bit_eq)
  then show ?thesis
    using assms by (simp add: push_bit_eq_mult take_bit_nat_eq_self)
qed

lemma correct_quotient:
  fixes n d q :: nat
  assumes "n div d \<le> q" and "q \<le> n div d + 1" and "0 < d" and "0 < q"
  shows "(q - 1) * d \<le> n" and "n - (q - 1) * d < d \<longleftrightarrow> q - 1 = n div d"
proof -
  have "(q - 1) * d \<le> n div d * d"
    using assms(2) by (intro mult_right_mono) auto
  also have "\<dots> \<le> n"
    by (rule div_times_less_eq_dividend)
  finally show le: "(q - 1) * d \<le> n" .
  have "n - (q - 1) * d < d \<longleftrightarrow> n < (q - 1 + 1) * d"
    using le by (simp add: algebra_simps) linarith
  also have "\<dots> \<longleftrightarrow> n div d < q - 1 + 1"
    using assms(3) by (rule div_less_iff_less_mult [symmetric])
  also have "\<dots> \<longleftrightarrow> q - 1 = n div d"
    using assms(1,2,4) by linarith
  finally show "n - (q - 1) * d < d \<longleftrightarrow> q - 1 = n div d" .
qed

lemma udiv64_large:
  assumes "2 ^ 32 \<le> unat d" and "\<not> n < d"
  shows "udiv64 n d = Some (n div d)"
proof -
  define d1 where "d1 = (ucast (drop_bit 32 d) :: u32)"
  define s where "s = nlz d1"
  define w where "w = unat d div 2 ^ (32 - s) * 2 ^ (32 - s)"
  have u1: "unat d1 = unat d div 2 ^ 32"
    using high_small [of d] by (simp add: d1_def unat_ucast_32 unat_high)
  have "0 < unat d div 2 ^ 32"
    using assms(1) by (simp add: div_greater_zero_iff)
  then have d1z: "d1 \<noteq> 0" and hz: "drop_bit 32 d \<noteq> 0"
    using u1 by (metis unat_0 less_irrefl, metis unat_high unat_0 less_irrefl)
  note b = nlz_bounds [OF d1z, unfolded u1, folded s_def]
  note sq = shifted_quotient [OF b(1,3)]
  note est = estimate [OF sq b(3) unat_bound64 w_def, of n]
  define v where "v = (ucast (drop_bit 32 (push_bit s d)) :: u32)"
  have "unat (push_bit s d) = unat d * 2 ^ s"
    using shifted_bound [OF b(2,3)] by (rule unat_shift64)
  then have "unat (drop_bit 32 (push_bit s d)) = unat d div 2 ^ (32 - s)"
    by (simp only: unat_high shift_cancel [OF b(3)])
  then have v: "unat v = unat d div 2 ^ (32 - s)"
    unfolding v_def using high_small [of "push_bit s d"] by (simp only: unat_ucast_32 unat_high)
  have vb: "2 ^ 31 \<le> unat v"
  proof -
    have "2 ^ (63 - s) = (2 :: nat) ^ 31 * 2 ^ (32 - s)"
      unfolding power_add [symmetric] using b(3) by simp
    then show ?thesis
      using sq unfolding v by (simp only: less_eq_div_iff_mult_less_eq zero_less_power zero_less_numeral)
  qed
  then have vz: "v \<noteq> 0"
    by auto
  have half: "unat (drop_bit 1 n) = unat n div 2"
    using unat_high [of 1 n] by (simp only: power_one_right)
  have "unat (drop_bit 1 n) < 2 ^ 32 * unat v"
  proof -
    have "unat n div 2 < 2 ^ 32 * 2 ^ 31"
      using unat_bound64 [of n] by simp
    also have "\<dots> \<le> 2 ^ 32 * unat v"
      using vb by (rule mult_left_mono) simp
    finally show ?thesis
      unfolding half .
  qed
  then have "unat (drop_bit 1 n) div unat v < 2 ^ 32"
    by (rule less_mult_imp_div_less)
  then obtain q where q: "divl (drop_bit 1 n) v = Some q" "unat q = unat n div 2 div unat v"
    using divl_Some [OF vz, of "drop_bit 1 n"] unfolding half by blast
  define q' where "q' = (ucast (drop_bit (31 - s) q) :: u64)"
  have "unat q' = unat q div 2 ^ (31 - s)"
    unfolding q'_def by (simp only: unat_ucast_64 unat_high32)
  also have "\<dots> = unat n div (2 * unat v * 2 ^ (31 - s))"
    unfolding q(2) by (simp only: div_mult2_eq)
  also have "2 * unat v * 2 ^ (31 - s) = w"
  proof -
    have "32 - s = Suc (31 - s)"
      using b(3) by simp
    then show ?thesis
      unfolding w_def v by (simp only: power_Suc mult_ac)
  qed
  finally have q': "unat q' = unat n div w" .
  have d0: "0 < unat d"
    using assms(1) by (rule order_less_le_trans [rotated]) simp
  have "unat d \<le> unat n"
    using assms(2) by (simp add: word_less_nat_alt)
  then have "0 < unat n div unat d"
    using d0 by (simp add: div_greater_zero_iff)
  then have q0: "0 < unat q'"
    using est(1) unfolding q' by (rule order_less_le_trans)
  note c = correct_quotient [OF est d0, folded q', OF q0]
  have q1: "unat (q' - 1) = unat q' - 1"
    using q0 by (metis unat_minus_one unat_gt_0)
  have m: "unat ((q' - 1) * d) = (unat q' - 1) * unat d"
    using c(1) unat_bound64 [of n] by (subst unat_mult_small) (simp_all add: q1)
  have "unat (n - (q' - 1) * d) = unat n - (unat q' - 1) * unat d"
    using c(1) by (subst unat_sub) (simp_all add: word_le_nat_alt m)
  then have iff: "n - (q' - 1) * d < d \<longleftrightarrow> unat q' - 1 = unat n div unat d"
    unfolding word_less_nat_alt using c(2) by (simp only:)
  have "udiv64 n d = Some (if n - (q' - 1) * d < d then q' - 1 else q')"
    unfolding udiv64_def using hz assms(2) q(1)
    by (simp add: Let_def v_def [symmetric] s_def [symmetric] d1_def [symmetric] q'_def [symmetric] del: drop_bit_eq_div)
  moreover have "unat (if n - (q' - 1) * d < d then q' - 1 else q') = unat n div unat d"
    using iff q1 est q' by auto
  ultimately show ?thesis
    by (metis unat_div word_unat_eq_iff)
qed

lemma udiv64_eq:
  assumes "d \<noteq> 0"
  shows "udiv64 n d = Some (n div d)"
proof (cases "unat d < 2 ^ 32")
  case True
  then show ?thesis
    using assms by (rule udiv64_small [rotated])
next
  case large: False
  show ?thesis
  proof (cases "n < d")
    case True
    have "drop_bit 32 d \<noteq> 0"
      using large by (metis div_eq_0_iff power_not_zero unat_0 unat_high zero_neq_numeral)
    moreover have "n div d = 0"
      using True by (simp add: word_arith_nat_div word_less_nat_alt)
    ultimately show ?thesis
      using True by (simp add: udiv64_def)
  next
    case False
    then show ?thesis
      using large by (intro udiv64_large) simp_all
  qed
qed

text \<open>C31: the unsigned division of \<^verbatim>\<open>lib/arithmetic.c\<close> returns the quotient for every dividend and every
  divisor other than zero; the processor's division never traps on the way.\<close>
theorem udivdi3_correct:
  assumes "d \<noteq> 0"
  shows "udivdi3 n d = Some (n div d)"
  unfolding udivdi3_def using assms by (rule udiv64_eq)

theorem udivdi3_correct_witness:
  "udivdi3 0xFFFFFFFFFFFFFFFF 0x123456789 = Some (0xFFFFFFFFFFFFFFFF div 0x123456789)"
  using udivdi3_correct [of "0x123456789" "0xFFFFFFFFFFFFFFFF"] by simp

lemma umod64_eq: "d \<noteq> 0 \<Longrightarrow> umod64 n d = Some (ucast (n mod d))"
  by (simp add: umod64_def udiv64_eq minus_mult_div_eq_mod)

text \<open>C32: \<^verbatim>\<open>umod64\<close> returns its remainder as a \<^verbatim>\<open>uint32_t\<close>, so \<^verbatim>\<open>__umoddi3\<close> is the remainder exactly
  when that remainder fits in 32 bits.\<close>
theorem umoddi3_truncates:
  assumes "d \<noteq> 0"
  shows "umoddi3 n d = Some (n mod d) \<longleftrightarrow> unat (n mod d) < 2 ^ 32"
proof -
  let ?r = "n mod d"
  have "(ucast (ucast ?r :: u32) :: u64) = ?r \<longleftrightarrow> unat (ucast ?r :: u32) = unat ?r"
    by (simp add: word_unat_eq_iff)
  also have "\<dots> \<longleftrightarrow> unat ?r < 2 ^ 32"
    using unat_bound32 [of "ucast ?r :: u32"] unat_ucast_32 [of ?r] by auto
  finally show ?thesis
    using assms by (simp add: umoddi3_def umod64_eq)
qed

theorem umoddi3_truncates_witness:
  "umoddi3 0x100000005 0x200000000 \<noteq> Some (0x100000005 mod 0x200000000)"
  using umoddi3_truncates [of "0x200000000" "0x100000005"] by simp

section \<open>Signed division\<close>

lemma uint_word_of_int64: "0 \<le> k \<Longrightarrow> k < 2 ^ 64 \<Longrightarrow> uint (word_of_int k :: u64) = k"
  by (simp add: take_bit_int_eq_self unsigned_of_int)

lemma magnitude: "uint (if 0 \<le>s n then n else - n) = \<bar>sint (n :: u64)\<bar>"
proof -
  have b: "- (2 ^ 63) \<le> sint n" "sint n < 2 ^ 63"
    using sint_ge [of n] sint_lt [of n] by simp_all
  have "(if 0 \<le>s n then n else - n) = word_of_int \<bar>sint n\<bar>"
    by (auto simp: word_sle_eq)
  then show ?thesis
    using b by (simp only:) (rule uint_word_of_int64, auto)
qed

lemma sdiv64_eq:
  assumes "d \<noteq> 0"
  shows "sdiv64 n d = Some (word_of_int (c_div (sint n) (sint d)))"
proof -
  let ?n = "if 0 \<le>s n then n else - n" and ?d = "if 0 \<le>s d then d else - d"
  have sd: "sint d \<noteq> 0"
    using assms by (metis signed_word_eqI sint_0)
  have dz: "?d \<noteq> 0"
    using assms by auto
  have q: "?n div ?d = word_of_int (\<bar>sint n\<bar> div \<bar>sint d\<bar>)"
    by (simp only: word_div_def magnitude)
  have neg: "(n <s 0) = (sint n < 0)" "(d <s 0) = (sint d < 0)"
    by (simp_all add: word_sless_alt)
  have "c_div (sint n) (sint d) = (if (sint n < 0) = (sint d < 0) then \<bar>sint n\<bar> div \<bar>sint d\<bar>
      else - (\<bar>sint n\<bar> div \<bar>sint d\<bar>))"
    using sd by (cases "sint n = 0") (auto simp: c_div_def sgn_if)
  then show ?thesis
    using udiv64_eq [OF dz, of ?n] unfolding sdiv64_def Let_def neg q by simp
qed

text \<open>The signed division of \<^verbatim>\<open>lib/arithmetic.c\<close> rounds towards zero, as C requires; the one quotient
  that does not fit, of the most negative number by -1, wraps around.\<close>
theorem divdi3_correct:
  assumes "d \<noteq> 0"
  shows "divdi3 n d = Some (word_of_int (c_div (sint n) (sint d)))"
  unfolding divdi3_def using assms by (rule sdiv64_eq)

theorem divdi3_correct_witness:
  "divdi3 (- 7) 2 = Some (word_of_int (c_div (sint (- 7 :: u64)) (sint (2 :: u64))))
   \<and> c_div (sint (- 7 :: u64)) (sint (2 :: u64)) = - 3"
  using divdi3_correct [of 2 "- 7"] by (simp add: c_div_def)

lemma division_by_zero: "udivdi3 n 0 = None" "divdi3 n 0 = None"
  by (simp_all add: udivdi3_def divdi3_def sdiv64_def udiv64_def Let_def)

end
