(* ===== verification/Heap.thy ===== *)
theory Heap
  imports Pintos_Prelude "HOL-Library.Multiset"
begin

text \<open>
  Heap sort on plain lists: the reference the byte-level \<^verbatim>\<open>sort\<close> of \<^verbatim>\<open>lib/stdlib.c\<close> is compared
  with.  Positions are 1-based, as in the source.  The locale \<open>compare_laws\<close> is the contract
  of a comparison function with a \<^verbatim>\<open>strcmp\<close>-type result: its sign orders the elements and
  the order is transitive.
\<close>

section \<open>Reference definitions\<close>

definition at :: "'a list \<Rightarrow> nat \<Rightarrow> 'a" where
  "at xs i = xs ! (i - 1)"

lemma at_Suc [simp]: "at xs (Suc i) = xs ! i"
  by (simp add: at_def)

definition exchange :: "'a list \<Rightarrow> nat \<Rightarrow> nat \<Rightarrow> 'a list" where
  "exchange xs i j = xs[i - 1 := at xs j, j - 1 := at xs i]"

definition larger_child :: "('a \<Rightarrow> 'a \<Rightarrow> int) \<Rightarrow> 'a list \<Rightarrow> nat \<Rightarrow> nat \<Rightarrow> nat" where
  "larger_child cmp xs i n =
     (let m = (if 2 * i \<le> n \<and> 0 < cmp (at xs (2 * i)) (at xs i) then 2 * i else i)
      in if 2 * i + 1 \<le> n \<and> 0 < cmp (at xs (2 * i + 1)) (at xs m) then 2 * i + 1 else m)"

lemma larger_child_cases:
  "larger_child cmp xs i n = i \<or>
   (larger_child cmp xs i n = 2 * i \<or> larger_child cmp xs i n = 2 * i + 1) \<and> larger_child cmp xs i n \<le> n"
  by (simp add: larger_child_def Let_def)

function sift :: "('a \<Rightarrow> 'a \<Rightarrow> int) \<Rightarrow> 'a list \<Rightarrow> nat \<Rightarrow> nat \<Rightarrow> 'a list" where
  "sift cmp xs i n =
     (let m = larger_child cmp xs i n
      in if m = i \<or> i = 0 then xs else sift cmp (exchange xs i m) m n)"
  by pat_completeness auto
termination
proof (relation "measure (\<lambda>(cmp, xs, i, n). n - i)", simp)
  fix cmp :: "'a \<Rightarrow> 'a \<Rightarrow> int" and xs i n m
  assume "m = larger_child cmp xs i n" and "\<not> (m = i \<or> i = 0)"
  then show "((cmp, exchange xs i m, m, n), cmp, xs, i, n) \<in> measure (\<lambda>(cmp, xs, i, n). n - i)"
    using larger_child_cases [of cmp xs i n] by auto
qed

declare sift.simps [simp del]

fun build :: "('a \<Rightarrow> 'a \<Rightarrow> int) \<Rightarrow> 'a list \<Rightarrow> nat \<Rightarrow> nat \<Rightarrow> 'a list" where
  "build cmp xs n 0 = xs"
| "build cmp xs n (Suc i) = build cmp (sift cmp xs (Suc i) n) n i"

fun unheap :: "('a \<Rightarrow> 'a \<Rightarrow> int) \<Rightarrow> 'a list \<Rightarrow> nat \<Rightarrow> 'a list" where
  "unheap cmp xs (Suc (Suc i)) = unheap cmp (sift cmp (exchange xs 1 (Suc (Suc i))) 1 (Suc i)) (Suc i)"
| "unheap cmp xs i = xs"

definition heap_sort :: "('a \<Rightarrow> 'a \<Rightarrow> int) \<Rightarrow> 'a list \<Rightarrow> 'a list" where
  "heap_sort cmp xs = unheap cmp (build cmp xs (length xs) (length xs div 2)) (length xs)"

section \<open>Exchanges\<close>

lemma take_at: "n \<le> length xs \<Longrightarrow> x \<in> set (take n xs) \<longleftrightarrow> (\<exists>c. 1 \<le> c \<and> c \<le> n \<and> x = at xs c)"
proof
  assume "n \<le> length xs" and "x \<in> set (take n xs)"
  then obtain j where "j < n" "x = xs ! j"
    by (auto simp: in_set_conv_nth)
  then show "\<exists>c. 1 \<le> c \<and> c \<le> n \<and> x = at xs c"
    by (intro exI [of _ "Suc j"]) auto
next
  assume "n \<le> length xs" and "\<exists>c. 1 \<le> c \<and> c \<le> n \<and> x = at xs c"
  then obtain c where "1 \<le> c" "c \<le> n" "x = at xs c"
    by blast
  then show "x \<in> set (take n xs)"
    using \<open>n \<le> length xs\<close> by (auto simp: in_set_conv_nth at_def intro!: exI [of _ "c - 1"])
qed

lemma exchange_length [simp]: "length (exchange xs i j) = length xs"
  by (simp add: exchange_def)

lemma exchange_mset [simp]:
  "1 \<le> i \<Longrightarrow> i \<le> length xs \<Longrightarrow> 1 \<le> j \<Longrightarrow> j \<le> length xs \<Longrightarrow> mset (exchange xs i j) = mset xs"
  unfolding exchange_def at_def by (rule mset_swap) auto

lemma exchange_at:
  assumes "1 \<le> i" "i \<le> length xs" "1 \<le> j" "j \<le> length xs" "1 \<le> k" "k \<le> length xs"
  shows "at (exchange xs i j) k = (if k = j then at xs i else if k = i then at xs j else at xs k)"
proof -
  have "k - 1 = j - 1 \<longleftrightarrow> k = j" "k - 1 = i - 1 \<longleftrightarrow> k = i"
    using assms by auto
  then show ?thesis
    using assms by (auto simp: exchange_def at_def nth_list_update)
qed

lemma sift_frame:
  assumes "n \<le> length xs" and "1 \<le> i" and "i \<le> n"
  shows "length (sift cmp xs i n) = length xs \<and> mset (sift cmp xs i n) = mset xs
    \<and> (\<forall>k. n < k \<and> k \<le> length xs \<longrightarrow> at (sift cmp xs i n) k = at xs k)"
  using assms
proof (induction cmp xs i n rule: sift.induct)
  case (1 cmp xs i n)
  let ?m = "larger_child cmp xs i n"
  show ?case
  proof (cases "?m = i")
    case True
    then show ?thesis
      by (simp add: sift.simps [of cmp xs i n] Let_def)
  next
    case False
    then have m: "i < ?m" "?m \<le> n"
      using larger_child_cases [of cmp xs i n] 1(3) by auto
    then have "sift cmp xs i n = sift cmp (exchange xs i ?m) ?m n"
      using 1(3) by (simp add: sift.simps [of cmp xs i n] Let_def)
    then show ?thesis
      using 1 m by (simp add: exchange_at)
  qed
qed

section \<open>Heaps\<close>

locale compare_laws =
  fixes cmp :: "'a \<Rightarrow> 'a \<Rightarrow> int"
  assumes cmp_swap: "0 < cmp x y \<longleftrightarrow> cmp y x < 0"
    and cmp_trans: "cmp x y \<le> 0 \<Longrightarrow> cmp y z \<le> 0 \<Longrightarrow> cmp x z \<le> 0"
begin

lemma cmp_total: "\<not> cmp x y \<le> 0 \<Longrightarrow> cmp y x \<le> 0"
  using cmp_swap [of x y] by linarith

lemma cmp_refl: "cmp x x \<le> 0"
  using cmp_total [of x x] by blast

definition heap_from :: "nat \<Rightarrow> nat \<Rightarrow> 'a list \<Rightarrow> bool" where
  "heap_from k n xs \<longleftrightarrow> (\<forall>c. 2 \<le> c \<and> c \<le> n \<and> k \<le> c div 2 \<longrightarrow> cmp (at xs c) (at xs (c div 2)) \<le> 0)"

definition almost_heap :: "nat \<Rightarrow> nat \<Rightarrow> nat \<Rightarrow> 'a list \<Rightarrow> bool" where
  "almost_heap k i n xs \<longleftrightarrow>
     (\<forall>c. 2 \<le> c \<and> c \<le> n \<and> k \<le> c div 2 \<and> c div 2 \<noteq> i \<longrightarrow> cmp (at xs c) (at xs (c div 2)) \<le> 0)
   \<and> (\<forall>c. 2 \<le> c \<and> c \<le> n \<and> c div 2 = i \<and> k \<le> i div 2 \<longrightarrow> cmp (at xs c) (at xs (i div 2)) \<le> 0)"

lemma larger_child_max:
  assumes "c div 2 = i" and "2 \<le> c" and "c \<le> n"
  shows "cmp (at xs c) (at xs (larger_child cmp xs i n)) \<le> 0"
    and "cmp (at xs i) (at xs (larger_child cmp xs i n)) \<le> 0"
proof -
  have c: "c = 2 * i \<or> c = 2 * i + 1"
    using assms(1) by auto
  let ?m = "if 2 * i \<le> n \<and> 0 < cmp (at xs (2 * i)) (at xs i) then 2 * i else i"
  have m: "cmp (at xs i) (at xs ?m) \<le> 0" "2 * i \<le> n \<Longrightarrow> cmp (at xs (2 * i)) (at xs ?m) \<le> 0"
    using cmp_refl cmp_total by auto
  let ?r = "larger_child cmp xs i n"
  have r: "?r = (if 2 * i + 1 \<le> n \<and> 0 < cmp (at xs (2 * i + 1)) (at xs ?m) then 2 * i + 1 else ?m)"
    by (simp add: larger_child_def Let_def)
  have mr: "cmp (at xs ?m) (at xs ?r) \<le> 0" "2 * i + 1 \<le> n \<Longrightarrow> cmp (at xs (2 * i + 1)) (at xs ?r) \<le> 0"
    unfolding r using cmp_refl cmp_total by (auto simp: not_le)
  show "cmp (at xs c) (at xs ?r) \<le> 0"
    using c assms(3) mr(2) cmp_trans [OF m(2) mr(1)] by auto
  show "cmp (at xs i) (at xs ?r) \<le> 0"
    using m(1) mr(1) by (rule cmp_trans)
qed

lemma exchange_almost_heap:
  assumes inv: "almost_heap k i n xs" and n: "n \<le> length xs" and i: "1 \<le> k" "k \<le> i" "i \<le> n"
    and m: "m = larger_child cmp xs i n" "m \<noteq> i"
  shows "almost_heap k m n (exchange xs i m)"
proof -
  have m2: "m div 2 = i" "2 \<le> m" "m \<le> n" "i < m"
    using larger_child_cases [of cmp xs i n] m i by auto
  have val: "at (exchange xs i m) c = (if c = m then at xs i else if c = i then at xs m else at xs c)"
    if "1 \<le> c" "c \<le> n" for c
    using that i m2 n by (intro exchange_at) auto
  have "cmp (at (exchange xs i m) c) (at (exchange xs i m) (c div 2)) \<le> 0"
    if c: "2 \<le> c" "c \<le> n" "k \<le> c div 2" "c div 2 \<noteq> m" for c
  proof -
    have d: "1 \<le> c div 2" "c div 2 \<le> n" "1 \<le> c" "c div 2 < c"
      using c i(1) by auto
    show ?thesis
    proof (cases "c div 2 = i")
      case True
      then show ?thesis
        using larger_child_max [of c i n xs, folded m(1)] c d m2 by (auto simp: val)
    next
      case ne: False
      show ?thesis
      proof (cases "c = i")
        case True
        then show ?thesis
          using inv m2 c d ne by (auto simp: val almost_heap_def)
      next
        case False
        moreover from this have "c \<noteq> m"
          using ne m2 by auto
        ultimately show ?thesis
          using inv c d ne by (simp add: val almost_heap_def)
      qed
    qed
  qed
  moreover have "cmp (at (exchange xs i m) c) (at (exchange xs i m) (m div 2)) \<le> 0"
    if c: "2 \<le> c" "c \<le> n" "c div 2 = m" for c
  proof -
    have "c \<noteq> m" "c \<noteq> i"
      using c m2 by auto
    then have "at (exchange xs i m) c = at xs c" "at (exchange xs i m) (m div 2) = at xs m"
      using c m2 i by (simp_all add: val)
    moreover have "cmp (at xs c) (at xs (c div 2)) \<le> 0"
      using inv c m2 i by (auto simp: almost_heap_def)
    ultimately show ?thesis
      using c by simp
  qed
  ultimately show ?thesis
    unfolding almost_heap_def by blast
qed

lemma sift_heap:
  assumes "almost_heap k i n xs" and "n \<le> length xs" and "1 \<le> k" "k \<le> i" "i \<le> n"
  shows "heap_from k n (sift cmp xs i n)"
  using assms
proof (induction "n - i" arbitrary: xs i rule: less_induct)
  case less
  let ?m = "larger_child cmp xs i n"
  show ?case
  proof (cases "?m = i")
    case True
    have "cmp (at xs c) (at xs (c div 2)) \<le> 0" if "2 \<le> c" "c \<le> n" "k \<le> c div 2" for c
      using that less.prems(1) larger_child_max(1) [of c i n xs] True
      by (cases "c div 2 = i") (auto simp: almost_heap_def)
    then show ?thesis
      using True by (simp add: sift.simps [of cmp xs i n] heap_from_def)
  next
    case False
    then have m: "i < ?m" "?m \<le> n"
      using larger_child_cases [of cmp xs i n] less.prems by auto
    have "almost_heap k ?m n (exchange xs i ?m)"
      using less.prems False by (intro exchange_almost_heap) auto
    then have "heap_from k n (sift cmp (exchange xs i ?m) ?m n)"
      using m less.prems by (intro less.hyps) auto
    then show ?thesis
      using False less.prems by (simp add: sift.simps [of cmp xs i n] Let_def)
  qed
qed

lemma heap_top:
  assumes "heap_from 1 n xs" and "1 \<le> c" and "c \<le> n"
  shows "cmp (at xs c) (at xs 1) \<le> 0"
  using assms(2,3)
proof (induction c rule: less_induct)
  case (less c)
  show ?case
  proof (cases "c = 1")
    case True
    then show ?thesis
      by (simp add: cmp_refl)
  next
    case False
    then have "c div 2 < c" "1 \<le> c div 2" "c div 2 \<le> n" "2 \<le> c"
      using less.prems by auto
    then show ?thesis
      using less.IH [of "c div 2"] assms(1) less.prems cmp_trans [of "at xs c" "at xs (c div 2)"]
      by (simp add: heap_from_def)
  qed
qed

section \<open>Heap sort\<close>

lemma build_heap:
  assumes "heap_from (Suc i) n xs" and "n = length xs" and "i \<le> n"
  shows "heap_from 1 n (build cmp xs n i) \<and> mset (build cmp xs n i) = mset xs"
  using assms
proof (induction i arbitrary: xs)
  case 0
  then show ?case
    by simp
next
  case (Suc i)
  have "almost_heap (Suc i) (Suc i) n xs"
    using Suc.prems(1) unfolding heap_from_def almost_heap_def by auto
  then have "heap_from (Suc i) n (sift cmp xs (Suc i) n)"
    using Suc.prems by (intro sift_heap) auto
  then show ?case
    using Suc.IH [of "sift cmp xs (Suc i) n"] Suc.prems sift_frame [of n xs "Suc i" cmp] by simp
qed

definition split_at :: "nat \<Rightarrow> 'a list \<Rightarrow> bool" where
  "split_at n xs \<longleftrightarrow> sorted_wrt (\<lambda>x y. cmp x y \<le> 0) (drop n xs)
     \<and> (\<forall>x \<in> set (take n xs). \<forall>y \<in> set (drop n xs). cmp x y \<le> 0)"

lemma unheap_step:
  assumes h: "heap_from 1 (Suc n) xs" and s: "split_at (Suc n) xs" and n: "1 \<le> n" "Suc n \<le> length xs"
  defines "ys \<equiv> sift cmp (exchange xs 1 (Suc n)) 1 n"
  shows "heap_from 1 n ys" and "split_at n ys" and "mset ys = mset xs"
proof -
  define zs where "zs = exchange xs 1 (Suc n)"
  have at: "at zs c = (if c = Suc n then at xs 1 else if c = 1 then at xs (Suc n) else at xs c)"
    if "1 \<le> c" "c \<le> length xs" for c
    unfolding zs_def using that n by (intro exchange_at) auto
  have fr: "length ys = length xs" "mset ys = mset zs" "\<And>k. n < k \<Longrightarrow> k \<le> length xs \<Longrightarrow> at ys k = at zs k"
    using sift_frame [of n zs 1 cmp] n by (auto simp: ys_def zs_def)
  show m: "mset ys = mset xs"
    using fr(2) n by (simp add: zs_def)
  have "almost_heap 1 1 n zs"
    using h n unfolding almost_heap_def heap_from_def by (auto simp: at)
  then show "heap_from 1 n ys"
    unfolding ys_def zs_def [symmetric] using n by (intro sift_heap) (auto simp: zs_def)
  have d: "drop n ys = at xs 1 # drop (Suc n) xs"
  proof (rule nth_equalityI)
    show "length (drop n ys) = length (at xs 1 # drop (Suc n) xs)"
      using fr(1) n by simp
    fix j
    assume "j < length (drop n ys)"
    then have j: "n + j < length xs"
      using fr(1) by simp
    then have "ys ! (n + j) = at zs (Suc (n + j))"
      using fr(3) [of "Suc (n + j)"] by simp
    then show "drop n ys ! j = (at xs 1 # drop (Suc n) xs) ! j"
      using j fr(1) n at [of "Suc (n + j)"] by (cases j) auto
  qed
  have "mset (take n ys) + mset (drop n ys) = mset (take (Suc n) xs) + mset (drop (Suc n) xs)"
    using m by (simp flip: mset_append)
  then have "add_mset (at xs 1) (mset (take n ys)) = mset (take (Suc n) xs)"
    unfolding d by simp
  then have sub: "set (take n ys) \<subseteq> set (take (Suc n) xs)" and top: "at xs 1 \<in> set (take (Suc n) xs)"
    by (metis set_mset_add_mset_insert set_mset_mset subset_insertI, metis insertI1 set_mset_add_mset_insert set_mset_mset)
  have "cmp x (at xs 1) \<le> 0" if "x \<in> set (take n ys)" for x
    using that sub take_at [OF n(2), of x] heap_top [OF h] by auto
  then show "split_at n ys"
    using s sub top unfolding split_at_def d by (auto simp: subset_iff)
qed

lemma unheap_sorted:
  assumes "heap_from 1 n xs" and "split_at n xs" and "n \<le> length xs"
  shows "sorted_wrt (\<lambda>x y. cmp x y \<le> 0) (unheap cmp xs n) \<and> mset (unheap cmp xs n) = mset xs"
  using assms
proof (induction n arbitrary: xs)
  case 0
  then show ?case
    by (simp add: split_at_def)
next
  case (Suc n)
  show ?case
  proof (cases n)
    case 0
    then show ?thesis
      using Suc.prems by (cases xs) (auto simp: split_at_def)
  next
    case (Suc i)
    then have n: "1 \<le> n" "n \<le> length xs"
      using Suc.prems by auto
    note st = unheap_step [OF Suc.prems(1,2) n(1) Suc.prems(3)]
    have "n \<le> length (sift cmp (exchange xs 1 (Suc n)) 1 n)"
      using n mset_eq_length [OF st(3)] by simp
    from Suc.IH [OF st(1,2) this] show ?thesis
      using st(3) \<open>n = Suc i\<close> by simp
  qed
qed

lemma build_full:
  fixes xs :: "'a list"
  defines "h \<equiv> build cmp xs (length xs) (length xs div 2)"
  shows "heap_from 1 (length xs) h" and "mset h = mset xs" and "length h = length xs"
proof -
  let ?n = "length xs"
  have "heap_from (Suc (?n div 2)) ?n xs"
    by (auto simp: heap_from_def dest: div_le_mono [of _ _ 2])
  then show "heap_from 1 ?n h" and m: "mset h = mset xs"
    using build_heap [of "?n div 2" ?n xs] by (auto simp: h_def)
  show "length h = ?n"
    using m by (rule mset_eq_length)
qed

lemma heap_sort_sorts:
  "sorted_wrt (\<lambda>x y. cmp x y \<le> 0) (heap_sort cmp xs) \<and> mset (heap_sort cmp xs) = mset xs"
proof -
  let ?n = "length xs" and ?h = "build cmp xs (length xs) (length xs div 2)"
  have "split_at ?n ?h"
    using build_full(3) [of xs] by (simp add: split_at_def)
  from unheap_sorted [OF build_full(1) this] show ?thesis
    using build_full(2,3) [of xs] by (simp add: heap_sort_def)
qed

end

end
