(* ===== verification/Stdlib.thy ===== *)
theory Stdlib
  imports Heap Strings
begin

text \<open>
  \<^verbatim>\<open>lib/stdlib.c\<close>: number parsing, heap sort and binary search over arrays of elements of \<^verbatim>\<open>size\<close>
  bytes each.  The arrays lie in the byte memory of \<open>Strings\<close>; indices and sizes are 32-bit
  words, addresses are natural numbers.  A comparison function is called with the memory and
  the addresses of two elements.  \<^verbatim>\<open>heapify\<close> is a partial function because \<^verbatim>\<open>2 * i\<close> wraps around
  in arrays of 2^31 or more elements; for smaller ones it is shown to return.  The locale
  \<open>comparator\<close> says what a comparison callback promises: its result depends on the bytes of
  the two elements only, through a function that meets \<open>compare_laws\<close>.
\<close>

section \<open>Parsing numbers\<close>

definition isspace :: "u8 \<Rightarrow> bool" where
  "isspace c \<longleftrightarrow> c = 32 \<or> c = 12 \<or> c = 10 \<or> c = 13 \<or> c = 9 \<or> c = 11"

definition isdigit :: "u8 \<Rightarrow> bool" where
  "isdigit c \<longleftrightarrow> 48 \<le> c \<and> c \<le> 57"

function skip_space :: "mem \<Rightarrow> ptr \<Rightarrow> ptr kernel" where
  "skip_space m s = do { c \<leftarrow> fetch m s; if isspace c then skip_space m (s + 1) else Some s }"
  by pat_completeness auto
termination
  by (relation "measure (\<lambda>(m, s). length m - s)") (auto simp: fetch_eq_Some_iff)

function atoi_loop :: "mem \<Rightarrow> ptr \<Rightarrow> u32 \<Rightarrow> u32 kernel" where
  "atoi_loop m s v = do {
     c \<leftarrow> fetch m s;
     if isdigit c then atoi_loop m (s + 1) (v * 10 - (ucast c - 48)) else Some v
   }"
  by pat_completeness auto
termination
  by (relation "measure (\<lambda>(m, s, v). length m - s)") (auto simp: fetch_eq_Some_iff)

declare skip_space.simps [simp del] atoi_loop.simps [simp del]

definition atoi :: "mem \<Rightarrow> ptr \<Rightarrow> u32 kernel" where
  "atoi m s = do {
     ASSERT (s \<noteq> 0);
     s \<leftarrow> skip_space m s;
     c \<leftarrow> fetch m s;
     let negative = (c = 45);
     let s = (if c = 43 \<or> c = 45 then s + 1 else s);
     v \<leftarrow> atoi_loop m s 0;
     Some (if negative then v else - v)
   }"

section \<open>Sorting\<close>

type_synonym compare_func = "mem \<Rightarrow> ptr \<Rightarrow> ptr \<Rightarrow> int kernel"

fun swap_bytes :: "mem \<Rightarrow> ptr \<Rightarrow> ptr \<Rightarrow> nat \<Rightarrow> mem kernel" where
  "swap_bytes m a b 0 = Some m"
| "swap_bytes m a b (Suc n) = do {
     t \<leftarrow> fetch m a;
     u \<leftarrow> fetch m b;
     m \<leftarrow> store m a u;
     m \<leftarrow> store m b t;
     swap_bytes m (a + 1) (b + 1) n
   }"

definition do_swap :: "mem \<Rightarrow> ptr \<Rightarrow> size_t \<Rightarrow> size_t \<Rightarrow> size_t \<Rightarrow> mem kernel" where
  "do_swap m array a_idx b_idx sz =
     swap_bytes m (array + unat ((a_idx - 1) * sz)) (array + unat ((b_idx - 1) * sz)) (unat sz)"

definition do_compare :: "compare_func \<Rightarrow> mem \<Rightarrow> ptr \<Rightarrow> size_t \<Rightarrow> size_t \<Rightarrow> size_t \<Rightarrow> int kernel" where
  "do_compare compare m array a_idx b_idx sz =
     compare m (array + unat ((a_idx - 1) * sz)) (array + unat ((b_idx - 1) * sz))"

partial_function (option) heapify ::
  "compare_func \<Rightarrow> mem \<Rightarrow> ptr \<Rightarrow> size_t \<Rightarrow> size_t \<Rightarrow> size_t \<Rightarrow> mem kernel" where
  "heapify compare m array i cnt sz = do {
     let left = 2 * i;
     let right = 2 * i + 1;
     max \<leftarrow> (if left \<le> cnt
             then do { c \<leftarrow> do_compare compare m array left i sz; Some (if 0 < c then left else i) }
             else Some i);
     max \<leftarrow> (if right \<le> cnt
             then do { c \<leftarrow> do_compare compare m array right max sz; Some (if 0 < c then right else max) }
             else Some max);
     if max = i then Some m
     else do { m \<leftarrow> do_swap m array i max sz; heapify compare m array max cnt sz }
   }"

fun build_loop :: "compare_func \<Rightarrow> mem \<Rightarrow> ptr \<Rightarrow> size_t \<Rightarrow> size_t \<Rightarrow> nat \<Rightarrow> mem kernel" where
  "build_loop compare m array cnt sz 0 = Some m"
| "build_loop compare m array cnt sz (Suc i) = do {
     m \<leftarrow> heapify compare m array (of_nat (Suc i)) cnt sz;
     build_loop compare m array cnt sz i
   }"

fun extract_loop :: "compare_func \<Rightarrow> mem \<Rightarrow> ptr \<Rightarrow> size_t \<Rightarrow> nat \<Rightarrow> mem kernel" where
  "extract_loop compare m array sz (Suc (Suc i)) = do {
     m \<leftarrow> do_swap m array 1 (of_nat (Suc (Suc i))) sz;
     m \<leftarrow> heapify compare m array 1 (of_nat (Suc i)) sz;
     extract_loop compare m array sz (Suc i)
   }"
| "extract_loop compare m array sz i = Some m"

definition sort_array :: "compare_func \<Rightarrow> mem \<Rightarrow> ptr \<Rightarrow> size_t \<Rightarrow> size_t \<Rightarrow> mem kernel" where
  "sort_array compare m array cnt sz = do {
     ASSERT (array \<noteq> 0 \<or> cnt = 0);
     ASSERT (0 < sz);
     m \<leftarrow> build_loop compare m array cnt sz (unat (cnt div 2));
     extract_loop compare m array sz (unat cnt)
   }"

definition compare_thunk :: "compare_func \<Rightarrow> compare_func" where
  "compare_thunk compare m a b = compare m a b"

definition qsort :: "mem \<Rightarrow> ptr \<Rightarrow> size_t \<Rightarrow> size_t \<Rightarrow> compare_func \<Rightarrow> mem kernel" where
  "qsort m array cnt sz compare = sort_array (compare_thunk compare) m array cnt sz"

section \<open>Binary search\<close>

lemma middle_below:
  fixes n sz :: nat
  assumes "0 < n"
  shows "n div sz div 2 * sz < n"
proof -
  have "2 * (n div sz div 2 * sz) = 2 * (n div sz div 2) * sz"
    by simp
  also have "\<dots> \<le> n div sz * sz"
    by (intro mult_right_mono) auto
  also have "\<dots> \<le> n"
    by (rule div_times_less_eq_dividend)
  finally show ?thesis
    using assms by linarith
qed

function search_loop :: "compare_func \<Rightarrow> mem \<Rightarrow> ptr \<Rightarrow> nat \<Rightarrow> ptr \<Rightarrow> ptr \<Rightarrow> ptr kernel" where
  "search_loop compare m key sz first final =
     (if first < final
      then if sz = 0 then None
      else do {
        let range = (final - first) div sz;
        let middle = first + range div 2 * sz;
        c \<leftarrow> compare m key middle;
        if c < 0 then search_loop compare m key sz first middle
        else if 0 < c then search_loop compare m key sz (middle + sz) final
        else Some middle
      }
      else Some 0)"
  by pat_completeness auto
termination
  by (relation "measure (\<lambda>(compare, m, key, sz, first, final). final - first)") (auto simp: middle_below)

declare search_loop.simps [simp del]

definition binary_search :: "compare_func \<Rightarrow> mem \<Rightarrow> ptr \<Rightarrow> ptr \<Rightarrow> size_t \<Rightarrow> size_t \<Rightarrow> ptr kernel" where
  "binary_search compare m key array cnt sz =
     search_loop compare m key (unat sz) array (array + unat (sz * cnt))"

definition bsearch :: "mem \<Rightarrow> ptr \<Rightarrow> ptr \<Rightarrow> size_t \<Rightarrow> size_t \<Rightarrow> compare_func \<Rightarrow> ptr kernel" where
  "bsearch m key array cnt sz compare = binary_search (compare_thunk compare) m key array cnt sz"

section \<open>The value of a numeral\<close>

definition decimal :: "u8 list \<Rightarrow> int" where
  "decimal ds = foldl (\<lambda>v c. v * 10 + (uint c - 48)) 0 ds"

lemma skip_space_block:
  assumes "block m s (length sp) = sp" and "list_all isspace sp" and "s + length sp < length m"
    and "\<not> isspace (m ! (s + length sp))"
  shows "skip_space m s = Some (s + length sp)"
  using assms
proof (induction sp arbitrary: s)
  case Nil
  then show ?case
    by (subst skip_space.simps) (simp add: kernel_simps)
next
  case (Cons c sp)
  then have "m ! s = c" "block m (Suc s) (length sp) = sp" "s < length m"
    by (auto simp: block_Suc)
  then show ?case
    using Cons by (subst skip_space.simps) (simp add: kernel_simps)
qed

lemma atoi_loop_block:
  assumes "block m s (length ds) = ds" and "list_all isdigit ds" and "s + length ds < length m"
    and "\<not> isdigit (m ! (s + length ds))"
  shows "atoi_loop m s (- word_of_int v) = Some (- word_of_int (foldl (\<lambda>v c. v * 10 + (uint c - 48)) v ds))"
  using assms
proof (induction ds arbitrary: s v)
  case Nil
  then show ?case
    by (subst atoi_loop.simps) (simp add: kernel_simps)
next
  case (Cons c ds)
  then have c: "m ! s = c" "block m (Suc s) (length ds) = ds" "s < length m"
    by (auto simp: block_Suc)
  have "- word_of_int v * 10 - (ucast c - 48) = (- word_of_int (v * 10 + (uint c - 48)) :: u32)"
    by (simp add: algebra_simps)
  moreover have "atoi_loop m s (- word_of_int v) = atoi_loop m (Suc s) (- word_of_int v * 10 - (ucast c - 48))"
    using Cons.prems c by (subst atoi_loop.simps) (simp add: kernel_simps)
  ultimately have "atoi_loop m s (- word_of_int v) = atoi_loop m (Suc s) (- word_of_int (v * 10 + (uint c - 48)))"
    by (simp only:)
  also have "\<dots> = Some (- word_of_int (foldl (\<lambda>v c. v * 10 + (uint c - 48)) (v * 10 + (uint c - 48)) ds))"
    using Cons.prems c by (intro Cons.IH) simp_all
  finally show ?case
    by (simp only: foldl.simps)
qed

lemma block_append_iff:
  "p + length xs \<le> length m \<Longrightarrow> block m p (length (xs @ ys)) = xs @ ys \<longleftrightarrow>
    block m p (length xs) = xs \<and> block m (p + length xs) (length ys) = ys"
  by (simp add: block_def take_add drop_drop add.commute)

lemma digit_not_space: "isdigit c \<Longrightarrow> \<not> isspace c \<and> c \<noteq> 43 \<and> c \<noteq> 45"
  by (auto simp: isdigit_def isspace_def)

lemma atoi_block:
  assumes "s \<noteq> 0" and "block m s (length (sp @ sg @ ds)) = sp @ sg @ ds" and "s + length (sp @ sg @ ds) < length m"
    and "list_all isspace sp" and "sg \<in> {[], [43], [45]}" and "list_all isdigit ds" and "ds \<noteq> []"
    and "\<not> isdigit (m ! (s + length (sp @ sg @ ds)))"
  shows "atoi m s = Some (word_of_int (if sg = [45] then - decimal ds else decimal ds))"
proof -
  let ?p = "s + length sp" and ?q = "s + length sp + length sg"
  have b: "block m s (length sp) = sp" "block m ?p (length sg) = sg" "block m ?q (length ds) = ds"
    using assms(2,3) block_append_iff [of s sp m "sg @ ds"] block_append_iff [of ?p sg m ds] by auto
  obtain d ds' where d: "ds = d # ds'"
    using assms(7) by (cases ds) auto
  then have md: "m ! ?q = d" "isdigit d"
    using b(3) assms(6) by (auto simp: block_Suc split: if_splits)
  then have mp: "m ! ?p = (if sg = [] then d else hd sg)"
    using b(2) assms(5) by (auto simp: block_Suc split: if_splits)
  have "skip_space m s = Some ?p"
    using b(1) assms(3,4,5) mp digit_not_space [OF md(2)] by (intro skip_space_block) (auto simp: isspace_def)
  moreover have "atoi_loop m ?q 0 = Some (- word_of_int (decimal ds))"
    using atoi_loop_block [OF b(3) assms(6), of 0] assms(3,8) by (simp add: decimal_def add.assoc)
  ultimately show ?thesis
    using assms(1,3,5) mp digit_not_space [OF md(2)] by (auto simp: atoi_def kernel_simps Let_def)
qed

text \<open>\<^verbatim>\<open>atoi\<close> skips white space, takes an optional sign and a run of digits and returns the number
  they denote, reduced to 32 bits; it returns for every such text, the most negative \<^verbatim>\<open>int\<close>
  included.\<close>
theorem atoi_correct:
  assumes "s \<noteq> 0" and "block m s (length (sp @ sg @ ds)) = sp @ sg @ ds" and "s + length (sp @ sg @ ds) < length m"
    and "list_all isspace sp" and "sg \<in> {[], [43], [45]}" and "list_all isdigit ds" and "ds \<noteq> []"
    and "\<not> isdigit (m ! (s + length (sp @ sg @ ds)))"
  shows "atoi m s = Some (word_of_int (if sg = [45] then - decimal ds else decimal ds))"
  using assms by (rule atoi_block)

theorem atoi_correct_witness:
  "atoi [0, 32, 45, 52, 50, 0] 1 = Some (word_of_int (if [45 :: u8] = [45] then - decimal [52, 50] else decimal [52, 50]))
    \<and> decimal [52, 50] = 42"
  using atoi_correct [of 1 "[0, 32, 45, 52, 50, 0]" "[32]" "[45]" "[52, 50]"]
  by (simp add: block_def isspace_def isdigit_def decimal_def)

section \<open>Arrays in memory\<close>

definition array_image :: "u8 list \<Rightarrow> u8 list list \<Rightarrow> u8 list \<Rightarrow> mem" where
  "array_image pre es post = pre @ concat es @ post"

definition uniform :: "nat \<Rightarrow> u8 list list \<Rightarrow> bool" where
  "uniform n es \<longleftrightarrow> (\<forall>e \<in> set es. length e = n)"

lemma uniform_length: "uniform n es \<Longrightarrow> length (concat es) = length es * n"
  by (induction es) (auto simp: uniform_def)

lemma image_split:
  assumes "uniform n es" and "j < length es"
  obtains p q where "array_image pre es post = p @ es ! j @ q" and "length p = length pre + j * n"
    and "\<And>x. array_image pre (es[j := x]) post = p @ x @ q" and "length (es ! j) = n"
proof
  let ?p = "pre @ concat (take j es)" and ?q = "concat (drop (Suc j) es) @ post"
  have "es = take j es @ es ! j # drop (Suc j) es"
    using assms(2) by (rule id_take_nth_drop)
  then have "concat es = concat (take j es) @ es ! j @ concat (drop (Suc j) es)"
    by (metis concat.simps(2) concat_append)
  then show "array_image pre es post = ?p @ es ! j @ ?q"
    by (simp add: array_image_def)
  show "array_image pre (es[j := x]) post = ?p @ x @ ?q" for x
    using assms(2) by (simp add: array_image_def upd_conv_take_nth_drop)
  have "uniform n (take j es)"
    using assms(1) by (auto simp: uniform_def dest: in_set_takeD)
  then show "length ?p = length pre + j * n"
    using assms(2) by (simp add: uniform_length)
  show "length (es ! j) = n"
    using assms by (simp add: uniform_def)
qed

lemma image_block:
  assumes "uniform n es" and "j < length es"
  shows "block (array_image pre es post) (length pre + j * n) n = es ! j"
    and "length pre + j * n + n \<le> length (array_image pre es post)"
proof -
  obtain p q where "array_image pre es post = p @ es ! j @ q" "length p = length pre + j * n" "length (es ! j) = n"
    using image_split [OF assms] by metis
  then show "block (array_image pre es post) (length pre + j * n) n = es ! j"
    and "length pre + j * n + n \<le> length (array_image pre es post)"
    by (simp_all add: block_def)
qed

lemma image_update:
  assumes "uniform n es" and "j < length es" and "length x = n"
  shows "overwrite (array_image pre es post) (length pre + j * n) x = array_image pre (es[j := x]) post"
proof -
  obtain p q where "array_image pre es post = p @ es ! j @ q" "length p = length pre + j * n"
    "\<And>x. array_image pre (es[j := x]) post = p @ x @ q" "length (es ! j) = n"
    using image_split [OF assms(1,2)] by metis
  then show ?thesis
    using assms(3) by (simp add: overwrite_def)
qed

definition swapped :: "mem \<Rightarrow> ptr \<Rightarrow> ptr \<Rightarrow> nat \<Rightarrow> mem \<Rightarrow> bool" where
  "swapped m a b n m' \<longleftrightarrow> length m' = length m
     \<and> (\<forall>i < n. m' ! (a + i) = m ! (b + i) \<and> m' ! (b + i) = m ! (a + i))
     \<and> (\<forall>k. (k < a \<or> a + n \<le> k) \<and> (k < b \<or> b + n \<le> k) \<longrightarrow> m' ! k = m ! k)"

lemma swapped_Suc:
  assumes s: "swapped (m[a := m ! b, b := m ! a]) (Suc a) (Suc b) n m'"
    and l: "a + Suc n \<le> length m" "b + Suc n \<le> length m" and d: "a + Suc n \<le> b \<or> b + Suc n \<le> a"
  shows "swapped m a b (Suc n) m'"
proof -
  let ?m = "m[a := m ! b, b := m ! a]"
  have ne: "Suc a + i \<noteq> a" "Suc a + i \<noteq> b" "Suc b + i \<noteq> a" "Suc b + i \<noteq> b" if "i < n" for i
    using d that by auto
  have inner: "m' ! (Suc a + i) = m ! (Suc b + i)" "m' ! (Suc b + i) = m ! (Suc a + i)" if "i < n" for i
    using s that ne [OF that] by (auto simp: swapped_def)
  have outer: "m' ! k = ?m ! k" if "k < Suc a \<or> Suc a + n \<le> k" "k < Suc b \<or> Suc b + n \<le> k" for k
    using s that unfolding swapped_def by blast
  have "m' ! a = ?m ! a" "m' ! b = ?m ! b"
    using d by (intro outer; linarith)+
  then have ends: "m' ! a = m ! b" "m' ! b = m ! a"
    using l d by auto
  have "m' ! (a + i) = m ! (b + i) \<and> m' ! (b + i) = m ! (a + i)" if "i < Suc n" for i
    using that ends inner [of "i - 1"] by (cases i) auto
  moreover have "m' ! k = m ! k" if "k < a \<or> a + Suc n \<le> k" "k < b \<or> b + Suc n \<le> k" for k
  proof -
    have "k \<noteq> a" "k \<noteq> b"
      using that by auto
    then show ?thesis
      using outer [of k] that by auto
  qed
  ultimately show ?thesis
    using s by (simp add: swapped_def)
qed

lemma swap_bytes_swapped:
  assumes "a + n \<le> length m" and "b + n \<le> length m" and "a + n \<le> b \<or> b + n \<le> a"
  shows "\<exists>m'. swap_bytes m a b n = Some m' \<and> swapped m a b n m'"
  using assms
proof (induction n arbitrary: m a b)
  case 0
  then show ?case
    by (simp add: swapped_def)
next
  case (Suc n)
  let ?m = "m[a := m ! b, b := m ! a]"
  have "swap_bytes m a b (Suc n) = swap_bytes ?m (Suc a) (Suc b) n"
    using Suc.prems by (auto simp: kernel_simps)
  moreover obtain m' where m': "swap_bytes ?m (Suc a) (Suc b) n = Some m'" "swapped ?m (Suc a) (Suc b) n m'"
    using Suc.IH [of "Suc a" ?m "Suc b"] Suc.prems by auto
  ultimately show ?case
    using swapped_Suc [OF m'(2) Suc.prems] by simp
qed

lemma swap_bytes_overwrite:
  assumes "a + n \<le> length m" and "b + n \<le> length m" and "a + n \<le> b \<or> b + n \<le> a"
  shows "swap_bytes m a b n = Some (overwrite (overwrite m a (block m b n)) b (block m a n))"
proof -
  obtain m' where m': "swap_bytes m a b n = Some m'" "swapped m a b n m'"
    using swap_bytes_swapped [OF assms] by blast
  let ?r = "overwrite (overwrite m a (block m b n)) b (block m a n)"
  have len: "length m' = length m" "length ?r = length m"
    using assms m'(2) by (simp_all add: swapped_def)
  have "m' ! k = ?r ! k" if k: "k < length m" for k
  proof -
    have r: "?r ! k = (if b \<le> k \<and> k < b + n then m ! (a + (k - b))
        else if a \<le> k \<and> k < a + n then m ! (b + (k - a)) else m ! k)"
    proof -
      have bl: "block m p n ! i = m ! (p + i)" if "p + n \<le> length m" "i < n" for p i
        using that by (simp add: block_def)
      show ?thesis
        using assms(1,2) k bl [of a "k - b"] bl [of b "k - a"] by (auto simp: overwrite_nth)
    qed
    consider "a \<le> k" "k < a + n" | "b \<le> k" "k < b + n" | "k < a \<or> a + n \<le> k" "k < b \<or> b + n \<le> k"
      by linarith
    then show ?thesis
    proof cases
      case 1
      then have "k - a < n"
        by linarith
      then have "m' ! (a + (k - a)) = m ! (b + (k - a))"
        using m'(2) unfolding swapped_def by blast
      then show ?thesis
        using 1 assms(3) unfolding r by auto
    next
      case 2
      then have "k - b < n"
        by linarith
      then have "m' ! (b + (k - b)) = m ! (a + (k - b))"
        using m'(2) unfolding swapped_def by blast
      then show ?thesis
        using 2 unfolding r by auto
    next
      case 3
      then have "m' ! k = m ! k"
        using m'(2) unfolding swapped_def by blast
      then show ?thesis
        using 3 unfolding r by auto
    qed
  qed
  then have "m' = ?r"
    using len by (intro nth_equalityI) auto
  then show ?thesis
    using m'(1) by simp
qed

lemma index_offset:
  assumes "1 \<le> unat i" and "unat i \<le> length es" and "length es * unat sz < 2 ^ 32"
  shows "unat ((i - 1) * sz) = (unat i - 1) * unat (sz :: size_t)"
proof -
  have i: "unat (i - 1) = unat i - 1"
    using assms(1) by (subst unat_minus_one) auto
  have "(unat i - 1) * unat sz \<le> length es * unat sz"
    using assms(2) by (intro mult_right_mono) auto
  then have "(unat i - 1) * unat sz < 2 ^ 32"
    using assms(3) by (rule order_le_less_trans)
  then show ?thesis
    by (subst unat_mult_small) (simp_all add: i)
qed

lemma exchange_uniform:
  "uniform n es \<Longrightarrow> 1 \<le> i \<Longrightarrow> i \<le> length es \<Longrightarrow> 1 \<le> j \<Longrightarrow> j \<le> length es \<Longrightarrow> uniform n (exchange es i j)"
  unfolding uniform_def by (metis exchange_mset mset_eq_setD)

lemma do_swap_image:
  assumes "uniform (unat sz) es" and "length es * unat sz < 2 ^ 32"
    and "1 \<le> unat i" "unat i \<le> length es" "1 \<le> unat j" "unat j \<le> length es" "i \<noteq> j"
  shows "do_swap (array_image pre es post) (length pre) i j sz = Some (array_image pre (exchange es (unat i) (unat j)) post)"
proof -
  let ?n = "unat sz" and ?i = "unat i - 1" and ?j = "unat j - 1"
  have off: "unat ((i - 1) * sz) = ?i * ?n" "unat ((j - 1) * sz) = ?j * ?n"
    using assms index_offset [of i es sz] index_offset [of j es sz] by auto
  have ij: "?i < length es" "?j < length es" "?i \<noteq> ?j"
    using assms by (auto simp: word_unat_eq_iff)
  have dis: "?i * ?n + ?n \<le> ?j * ?n \<or> ?j * ?n + ?n \<le> ?i * ?n"
  proof (cases "?i < ?j")
    case True
    then show ?thesis
      using mult_le_mono1 [of "Suc ?i" ?j ?n] by simp
  next
    case False
    then show ?thesis
      using mult_le_mono1 [of "Suc ?j" ?i ?n] ij(3) by simp
  qed
  note bi = image_block [OF assms(1) ij(1), of pre post] and bj = image_block [OF assms(1) ij(2), of pre post]
  have li: "length (es ! ?i) = ?n" "length (es ! ?j) = ?n"
    using assms(1) ij by (simp_all add: uniform_def)
  then have u: "uniform ?n (es[?i := es ! ?j])"
    using assms(1) by (auto simp: uniform_def dest!: subsetD [OF set_update_subset_insert])
  have "do_swap (array_image pre es post) (length pre) i j sz
      = Some (overwrite (overwrite (array_image pre es post) (length pre + ?i * ?n) (es ! ?j)) (length pre + ?j * ?n) (es ! ?i))"
    unfolding do_swap_def off using dis bi bj by (subst swap_bytes_overwrite) auto
  also have "overwrite (array_image pre es post) (length pre + ?i * ?n) (es ! ?j) = array_image pre (es[?i := es ! ?j]) post"
    using assms(1) ij(1) li(2) by (rule image_update)
  also have "overwrite (array_image pre (es[?i := es ! ?j]) post) (length pre + ?j * ?n) (es ! ?i)
      = array_image pre (es[?i := es ! ?j, ?j := es ! ?i]) post"
    using u ij(2) li(1) by (intro image_update) auto
  finally show ?thesis
    by (simp add: exchange_def at_def)
qed

lemma search_loop_step:
  assumes "0 < sz" and "first < final" and "mid = first + (final - first) div sz div 2 * sz" and "compare m key mid = Some c"
  shows "search_loop compare m key sz first final =
    (if c < 0 then search_loop compare m key sz first mid
     else if 0 < c then search_loop compare m key sz (mid + sz) final else Some mid)"
  using assms by (subst search_loop.simps) (simp add: Let_def)

section \<open>Comparison callbacks\<close>

locale comparator = compare_laws cmp for cmp :: "u8 list \<Rightarrow> u8 list \<Rightarrow> int" +
  fixes compare :: compare_func and n :: nat
  assumes compare_eq: "a \<noteq> 0 \<Longrightarrow> b \<noteq> 0 \<Longrightarrow> a + n \<le> length m \<Longrightarrow> b + n \<le> length m \<Longrightarrow>
    compare m a b = Some (cmp (block m a n) (block m b n))"
begin

lemma do_compare_image:
  assumes "uniform n es" and "length es * n < 2 ^ 32" and "pre \<noteq> []" and "unat sz = n"
    and "1 \<le> unat i" "unat i \<le> length es" "1 \<le> unat j" "unat j \<le> length es"
  shows "do_compare compare (array_image pre es post) (length pre) i j sz = Some (cmp (at es (unat i)) (at es (unat j)))"
proof -
  have off: "unat ((i - 1) * sz) = (unat i - 1) * n" "unat ((j - 1) * sz) = (unat j - 1) * n"
    using assms index_offset [of i es sz] index_offset [of j es sz] by auto
  have ij: "unat i - 1 < length es" "unat j - 1 < length es"
    using assms by auto
  show ?thesis
    unfolding do_compare_def off
    using image_block [OF assms(1) ij(1), of pre post] image_block [OF assms(1) ij(2), of pre post] assms(3)
    by (subst compare_eq) (auto simp: at_def)
qed

lemma heapify_step:
  assumes "uniform n es" and "length es * n < 2 ^ 32" and "pre \<noteq> []" and "unat sz = n" and "length es < 2 ^ 31"
    and "1 \<le> unat i" "unat i \<le> unat cnt" "unat cnt \<le> length es"
  obtains mx where "unat mx = larger_child cmp es (unat i) (unat cnt)"
    and "heapify compare (array_image pre es post) (length pre) i cnt sz =
      (if mx = i then Some (array_image pre es post)
       else do_swap (array_image pre es post) (length pre) i mx sz \<bind> (\<lambda>m. heapify compare m (length pre) mx cnt sz))"
proof -
  have l: "unat (2 * i) = 2 * unat i"
    using assms by (subst unat_mult_small) auto
  have r: "unat (2 * i + 1) = 2 * unat i + 1"
    using assms by (subst unat_add_small) (auto simp: l)
  define m1 where "m1 = (if 2 * i \<le> cnt \<and> 0 < cmp (at es (unat (2 * i))) (at es (unat i)) then 2 * i else i)"
  define m2 where "m2 = (if 2 * i + 1 \<le> cnt \<and> 0 < cmp (at es (unat (2 * i + 1))) (at es (unat m1)) then 2 * i + 1 else m1)"
  have m1: "1 \<le> unat m1" "unat m1 \<le> length es"
    using assms l by (auto simp: m1_def word_le_nat_alt)
  have c1: "2 * i \<le> cnt \<Longrightarrow> do_compare compare (array_image pre es post) (length pre) (2 * i) i sz
      = Some (cmp (at es (unat (2 * i))) (at es (unat i)))"
    using assms l by (intro do_compare_image) (auto simp: word_le_nat_alt)
  have c2: "2 * i + 1 \<le> cnt \<Longrightarrow> do_compare compare (array_image pre es post) (length pre) (2 * i + 1) m1 sz
      = Some (cmp (at es (unat (2 * i + 1))) (at es (unat m1)))"
    using assms r m1 by (intro do_compare_image) (auto simp: word_le_nat_alt)
  show thesis
  proof
    show "unat m2 = larger_child cmp es (unat i) (unat cnt)"
      by (auto simp: m1_def m2_def larger_child_def Let_def word_le_nat_alt l r)
    have f1: "(if 2 * i \<le> cnt then do { c \<leftarrow> do_compare compare (array_image pre es post) (length pre) (2 * i) i sz;
        Some (if 0 < c then 2 * i else i) } else Some i) = Some m1"
      by (auto simp: c1 m1_def)
    have f2: "(if 2 * i + 1 \<le> cnt then do { c \<leftarrow> do_compare compare (array_image pre es post) (length pre) (2 * i + 1) m1 sz;
        Some (if 0 < c then 2 * i + 1 else m1) } else Some m1) = Some m2"
      by (auto simp: c2 m2_def)
    show "heapify compare (array_image pre es post) (length pre) i cnt sz =
      (if m2 = i then Some (array_image pre es post)
       else do_swap (array_image pre es post) (length pre) i m2 sz \<bind> (\<lambda>m. heapify compare m (length pre) m2 cnt sz))"
      by (subst heapify.simps) (simp only: Let_def f1 f2 Option.bind.simps)
  qed
qed

lemma heapify_sift:
  assumes "uniform n es" and "length es * n < 2 ^ 32" and "pre \<noteq> []" and "unat sz = n" and "length es < 2 ^ 31"
    and "1 \<le> unat i" "unat i \<le> unat cnt" "unat cnt \<le> length es"
  shows "heapify compare (array_image pre es post) (length pre) i cnt sz
      = Some (array_image pre (sift cmp es (unat i) (unat cnt)) post)"
  using assms
proof (induction "unat cnt - unat i" arbitrary: es i rule: less_induct)
  case less
  obtain mx where mx: "unat mx = larger_child cmp es (unat i) (unat cnt)"
    "heapify compare (array_image pre es post) (length pre) i cnt sz =
      (if mx = i then Some (array_image pre es post)
       else do_swap (array_image pre es post) (length pre) i mx sz \<bind> (\<lambda>m. heapify compare m (length pre) mx cnt sz))"
    using heapify_step [OF less.prems] by blast
  show ?case
  proof (cases "mx = i")
    case True
    then show ?thesis
      using mx by (simp add: sift.simps [of cmp es "unat i"])
  next
    case False
    then have ne: "unat mx \<noteq> unat i"
      by (simp add: word_unat_eq_iff)
    then have gt: "unat i < unat mx" "unat mx \<le> unat cnt"
      using larger_child_cases [of cmp es "unat i" "unat cnt"] mx(1) less.prems by auto
    let ?es = "exchange es (unat i) (unat mx)"
    have "do_swap (array_image pre es post) (length pre) i mx sz = Some (array_image pre ?es post)"
      using less.prems gt False by (intro do_swap_image) auto
    moreover have "heapify compare (array_image pre ?es post) (length pre) mx cnt sz
        = Some (array_image pre (sift cmp ?es (unat mx) (unat cnt)) post)"
      using less.prems gt by (intro less.hyps) (auto intro: exchange_uniform)
    ultimately show ?thesis
      using mx ne False less.prems(6) by (simp add: sift.simps [of cmp es "unat i"] Let_def)
  qed
qed

lemma build_loop_build:
  assumes "uniform n es" and "length es * n < 2 ^ 32" and "pre \<noteq> []" and "unat sz = n" and "length es < 2 ^ 31"
    and "i \<le> unat cnt" "unat cnt \<le> length es"
  shows "build_loop compare (array_image pre es post) (length pre) cnt sz i
      = Some (array_image pre (build cmp es (unat cnt) i) post)"
  using assms
proof (induction i arbitrary: es)
  case 0
  then show ?case
    by simp
next
  case (Suc i)
  have u: "unat (of_nat (Suc i) :: size_t) = Suc i"
    using Suc.prems by (intro unat_of_nat_small) simp
  have fr: "length (sift cmp es (Suc i) (unat cnt)) = length es"
    "mset (sift cmp es (Suc i) (unat cnt)) = mset es"
    using sift_frame [of "unat cnt" es "Suc i" cmp] Suc.prems by auto
  have "heapify compare (array_image pre es post) (length pre) (of_nat (Suc i)) cnt sz
      = Some (array_image pre (sift cmp es (Suc i) (unat cnt)) post)"
    using Suc.prems heapify_sift [of es pre sz "of_nat (Suc i)" cnt post, unfolded u] by simp
  then show ?case
    using Suc.IH [of "sift cmp es (Suc i) (unat cnt)"] Suc.prems fr mset_eq_setD [OF fr(2)]
    by (simp add: uniform_def del: of_nat_Suc)
qed

lemma extract_loop_unheap:
  assumes "uniform n es" and "length es * n < 2 ^ 32" and "pre \<noteq> []" and "unat sz = n" and "length es < 2 ^ 31"
    and "i \<le> length es"
  shows "extract_loop compare (array_image pre es post) (length pre) sz i = Some (array_image pre (unheap cmp es i) post)"
  using assms
proof (induction i arbitrary: es)
  case 0
  then show ?case
    by simp
next
  case (Suc j)
  show ?case
  proof (cases j)
    case 0
    then show ?thesis
      by simp
  next
    case (Suc i)
    let ?i = "of_nat (Suc (Suc i)) :: size_t" and ?xs = "exchange es 1 (Suc (Suc i))"
    have u: "unat ?i = Suc (Suc i)" "unat (of_nat (Suc i) :: size_t) = Suc i"
      using Suc.prems \<open>j = Suc i\<close> by (auto intro!: unat_of_nat_small simp del: of_nat_Suc)
    have "do_swap (array_image pre es post) (length pre) 1 ?i sz = Some (array_image pre (exchange es (unat (1 :: size_t)) (unat ?i)) post)"
      using Suc.prems \<open>j = Suc i\<close> u by (intro do_swap_image) (auto simp: word_unat_eq_iff simp del: of_nat_Suc)
    then have sw: "do_swap (array_image pre es post) (length pre) 1 ?i sz = Some (array_image pre ?xs post)"
      by (simp only: u unat_1)
    have ux: "uniform n ?xs"
      using Suc.prems \<open>j = Suc i\<close> by (intro exchange_uniform) auto
    then have "heapify compare (array_image pre ?xs post) (length pre) 1 (of_nat (Suc i)) sz
        = Some (array_image pre (sift cmp ?xs (unat (1 :: size_t)) (unat (of_nat (Suc i) :: size_t))) post)"
      using Suc.prems \<open>j = Suc i\<close> u by (intro heapify_sift) (auto simp del: of_nat_Suc)
    then have hp: "heapify compare (array_image pre ?xs post) (length pre) 1 (of_nat (Suc i)) sz
        = Some (array_image pre (sift cmp ?xs 1 (Suc i)) post)"
      by (simp only: u unat_1)
    have fr: "length (sift cmp ?xs 1 (Suc i)) = length es" "mset (sift cmp ?xs 1 (Suc i)) = mset ?xs"
      using sift_frame [of "Suc i" ?xs 1 cmp] Suc.prems \<open>j = Suc i\<close> by auto
    have us: "uniform n (sift cmp ?xs 1 (Suc i))"
      using ux mset_eq_setD [OF fr(2)] by (simp add: uniform_def)
    show ?thesis
      using Suc.IH [OF us] Suc.prems \<open>j = Suc i\<close> fr(1) sw hp by (simp del: of_nat_Suc)
  qed
qed

lemma sort_image:
  assumes "uniform n es" and "length es * n < 2 ^ 32" and "pre \<noteq> []" and "unat sz = n" and "0 < n" and "length es < 2 ^ 31"
  shows "sort_array compare (array_image pre es post) (length pre) (of_nat (length es)) sz
      = Some (array_image pre (heap_sort cmp es) post)"
proof -
  have u: "unat (of_nat (length es) :: size_t) = length es"
    using assms by (intro unat_of_nat_small) simp
  let ?h = "build cmp es (length es) (length es div 2)"
  have b: "build_loop compare (array_image pre es post) (length pre) (of_nat (length es)) sz (unat ((of_nat (length es) :: size_t) div 2))
      = Some (array_image pre ?h post)"
    using assms build_loop_build [of es pre sz "length es div 2" "of_nat (length es)" post] by (simp add: unat_div u)
  note m = build_full(2) [of es]
  have "uniform n ?h"
    using assms(1) mset_eq_setD [OF m] by (simp add: uniform_def)
  then have "extract_loop compare (array_image pre ?h post) (length pre) sz (length es) = Some (array_image pre (heap_sort cmp es) post)"
    using assms mset_eq_length [OF m] extract_loop_unheap [of ?h pre sz "length es" post] by (simp add: heap_sort_def)
  moreover have "0 < sz"
    using assms by (simp add: word_less_nat_alt)
  ultimately show ?thesis
    using b assms(3) by (simp add: sort_array_def u)
qed

lemma sort_sorts:
  assumes "uniform n es" and "length es * n < 2 ^ 32" and "pre \<noteq> []" and "unat sz = n" and "0 < n" and "length es < 2 ^ 31"
  obtains fs where "sort_array compare (array_image pre es post) (length pre) (of_nat (length es)) sz = Some (array_image pre fs post)"
    and "mset fs = mset es" and "sorted_wrt (\<lambda>x y. cmp x y \<le> 0) fs"
  using sort_image [OF assms] heap_sort_sorts [of es] by blast

lemma cmp_below: "cmp k x < 0 \<Longrightarrow> cmp x y \<le> 0 \<Longrightarrow> cmp k y < 0"
  by (meson cmp_swap cmp_trans not_le)

lemma cmp_above: "0 < cmp k y \<Longrightarrow> cmp x y \<le> 0 \<Longrightarrow> 0 < cmp k x"
  by (meson cmp_swap cmp_trans not_le)

lemma search_image:
  assumes "uniform n es" and "0 < n" and "pre \<noteq> []" and "key \<noteq> 0" "key + n \<le> length (array_image pre es post)"
    and "sorted_wrt (\<lambda>x y. cmp x y \<le> 0) es" and k: "k = block (array_image pre es post) key n"
    and "f \<le> l" "l \<le> length es" and "\<forall>j < f. 0 < cmp k (es ! j)" and "\<forall>j. l \<le> j \<and> j < length es \<longrightarrow> cmp k (es ! j) < 0"
  shows "(\<exists>j < length es. cmp k (es ! j) = 0 \<and>
      search_loop compare (array_image pre es post) key n (length pre + f * n) (length pre + l * n) = Some (length pre + j * n))
    \<or> (\<forall>e \<in> set es. cmp k e \<noteq> 0) \<and>
      search_loop compare (array_image pre es post) key n (length pre + f * n) (length pre + l * n) = Some 0"
  using assms(8-)
proof (induction "l - f" arbitrary: f l rule: less_induct)
  case less
  let ?m = "array_image pre es post" and ?mid = "f + (l - f) div 2"
  show ?case
  proof (cases "f = l")
    case True
    then have "\<forall>j < length es. cmp k (es ! j) \<noteq> 0"
      using less.prems by (metis not_le order_less_irrefl)
    then show ?thesis
      using True by (auto simp: search_loop.simps in_set_conv_nth)
  next
    case False
    then have fl: "f < l" "?mid < l" "?mid < length es"
      using less.prems by auto
    have d: "length pre + l * n - (length pre + f * n) = (l - f) * n"
      by (simp add: diff_mult_distrib)
    have lt: "length pre + f * n < length pre + l * n"
      using fl(1) assms(2) by simp
    have md: "length pre + ?mid * n = length pre + f * n + (length pre + l * n - (length pre + f * n)) div n div 2 * n"
      unfolding d using assms(2) by (simp add: add_mult_distrib)
    have c: "compare ?m key (length pre + ?mid * n) = Some (cmp k (es ! ?mid))"
      using image_block [OF assms(1) fl(3), of pre post] assms(3-5) k by (subst compare_eq) auto
    note ev = search_loop_step [where compare = compare, OF assms(2) lt md c]
    have sc: "length pre + ?mid * n + n = length pre + Suc ?mid * n"
      by simp
    consider "cmp k (es ! ?mid) < 0" | "0 < cmp k (es ! ?mid)" | "cmp k (es ! ?mid) = 0"
      by linarith
    then show ?thesis
    proof cases
      case 1
      have "cmp k (es ! j) < 0" if "?mid \<le> j" "j < length es" for j
        using that 1 cmp_below [OF 1, of "es ! j"] sorted_wrt_nth_less [OF assms(6), of ?mid j]
        by (cases "j = ?mid") auto
      moreover have "search_loop compare ?m key n (length pre + f * n) (length pre + l * n)
          = search_loop compare ?m key n (length pre + f * n) (length pre + ?mid * n)"
        using 1 by (simp only: ev if_True)
      ultimately show ?thesis
        using less.hyps [of ?mid f] less.prems fl by auto
    next
      case 2
      have "0 < cmp k (es ! j)" if "j < Suc ?mid" for j
        using that 2 fl(3) cmp_above [OF 2, of "es ! j"] sorted_wrt_nth_less [OF assms(6), of j ?mid]
        by (cases "j = ?mid") auto
      moreover have "search_loop compare ?m key n (length pre + f * n) (length pre + l * n)
          = search_loop compare ?m key n (length pre + Suc ?mid * n) (length pre + l * n)"
        using 2 unfolding ev sc by simp
      moreover have "l - Suc ?mid < l - f" "Suc ?mid \<le> l"
        using fl by linarith+
      ultimately show ?thesis
        using less.hyps [of l "Suc ?mid"] less.prems by metis
    next
      case 3
      then show ?thesis
        using fl(3) unfolding ev by (intro disjI1 exI [of _ ?mid]) simp
    qed
  qed
qed

lemma binary_search_image:
  assumes "uniform n es" and "0 < n" and "pre \<noteq> []" and "key \<noteq> 0" "key + n \<le> length (array_image pre es post)"
    and "sorted_wrt (\<lambda>x y. cmp x y \<le> 0) es" and "unat sz = n" and "length es * n < 2 ^ 32"
  shows "\<exists>r. binary_search compare (array_image pre es post) key (length pre) (of_nat (length es)) sz = Some r \<and>
    (if \<exists>e \<in> set es. cmp (block (array_image pre es post) key n) e = 0
     then \<exists>j < length es. r = length pre + j * n \<and> cmp (block (array_image pre es post) key n) (es ! j) = 0
     else r = 0)"
proof -
  have "length es \<le> length es * n"
    using assms(2) by simp
  then have "length es < 2 ^ 32"
    using assms(8) by (rule order_le_less_trans)
  then have u: "unat (of_nat (length es) :: size_t) = length es"
    by (intro unat_of_nat_small) simp
  have "unat (sz * of_nat (length es)) = length es * n"
    using assms(7,8) by (subst unat_mult_small) (simp_all add: u mult.commute)
  then have b: "binary_search compare (array_image pre es post) key (length pre) (of_nat (length es)) sz
      = search_loop compare (array_image pre es post) key n (length pre + 0 * n) (length pre + length es * n)"
    using assms(7) by (simp add: binary_search_def)
  let ?k = "block (array_image pre es post) key n"
  consider j where "j < length es" "cmp ?k (es ! j) = 0"
      "binary_search compare (array_image pre es post) key (length pre) (of_nat (length es)) sz = Some (length pre + j * n)"
    | "\<forall>e \<in> set es. cmp ?k e \<noteq> 0"
      "binary_search compare (array_image pre es post) key (length pre) (of_nat (length es)) sz = Some 0"
    unfolding b using search_image [OF assms(1-6) refl, of 0 "length es"] by auto
  then show ?thesis
  proof cases
    case (1 j)
    then have "\<exists>e \<in> set es. cmp ?k e = 0"
      by (meson nth_mem)
    then show ?thesis
      using 1 by auto
  qed auto
qed

end

section \<open>Sorting with memcmp\<close>

lemma lex_less_irrefl: "\<not> lex_less s s"
  by (induction s) auto

lemma lex_less_trans: "lex_less s t \<Longrightarrow> lex_less t u \<Longrightarrow> lex_less s u"
proof (induction s arbitrary: t u)
  case Nil
  then show ?case
    by (cases u) auto
next
  case (Cons x s)
  then show ?case
    by (cases t; cases u) auto
qed

lemma lex_less_linear: "lex_less s t \<or> s = t \<or> lex_less t s"
proof (induction s arbitrary: t)
  case Nil
  then show ?case
    by (cases t) auto
next
  case (Cons x s)
  then show ?case
    by (cases t) (auto simp: not_less_iff_gr_or_eq)
qed

interpretation memcmp_order: comparator order_sign "\<lambda>m a b. memcmp m a b n" n for n
proof
  fix s t u :: "u8 list"
  show "0 < order_sign s t \<longleftrightarrow> order_sign t s < 0"
    using lex_less_linear [of s t] lex_less_irrefl [of s] lex_less_trans [of s t s] by (auto simp: order_sign_def)
  show "order_sign s u \<le> 0" if "order_sign s t \<le> 0" "order_sign t u \<le> 0"
    using that lex_less_trans [of s t u] by (auto simp: order_sign_def split: if_splits)
next
  fix m a b
  show "a \<noteq> 0 \<Longrightarrow> b \<noteq> 0 \<Longrightarrow> a + n \<le> length m \<Longrightarrow> b + n \<le> length m \<Longrightarrow>
      memcmp m a b n = Some (order_sign (block m a n) (block m b n))"
    by (simp add: memcmp_def cmp_loop_block)
qed

text \<open>C38: \<^verbatim>\<open>sort\<close>, given a comparison callback with a transitive \<^verbatim>\<open>strcmp\<close>-type result, returns on
  every array of fewer than 2^31 elements; afterwards the array holds the same elements in
  order and the bytes before and after it are unchanged.\<close>
theorem sort_correct:
  assumes "comparator cmp compare (unat sz)" and "0 < sz"
    and "\<forall>e \<in> set es. length e = unat sz" and "length es < 2 ^ 31" and "length es * unat sz < 2 ^ 32" and "pre \<noteq> []"
  shows "\<exists>fs. sort_array compare (pre @ concat es @ post) (length pre) (of_nat (length es)) sz = Some (pre @ concat fs @ post)
    \<and> mset fs = mset es \<and> sorted_wrt (\<lambda>x y. cmp x y \<le> 0) fs"
proof -
  have "uniform (unat sz) es" and "0 < unat sz"
    using assms(2,3) by (simp_all add: uniform_def word_less_nat_alt)
  with comparator.sort_sorts [OF assms(1) _ assms(5,6) refl _ assms(4)] show ?thesis
    unfolding array_image_def by metis
qed

theorem sort_correct_witness:
  "\<exists>fs. sort_array (\<lambda>m a b. memcmp m a b 2) ([0] @ concat [[2, 1], [1, 9], [2, 0]] @ [7]) 1 3 2 = Some ([0] @ concat fs @ [7])
    \<and> mset fs = mset [[2, 1], [1, 9], [2, 0]] \<and> sorted_wrt (\<lambda>x y. order_sign x y \<le> 0) fs"
  using sort_correct [of order_sign "\<lambda>m a b. memcmp m a b 2" 2 "[[2, 1], [1, 9], [2, 0]]" "[0]" "[7]"]
    memcmp_order.comparator_axioms by simp

text \<open>\<^verbatim>\<open>bsearch\<close> on a sorted array returns the address of an element equal to the key when there
  is one, and a null pointer otherwise.\<close>
theorem bsearch_correct:
  assumes "comparator cmp compare (unat sz)" and "0 < sz"
    and "\<forall>e \<in> set es. length e = unat sz" and "length es * unat sz < 2 ^ 32" and "pre \<noteq> []"
    and "sorted_wrt (\<lambda>x y. cmp x y \<le> 0) es" and "m = pre @ concat es @ post"
    and "key \<noteq> 0" and "key + unat sz \<le> length m" and "k = take (unat sz) (drop key m)"
  shows "\<exists>r. bsearch m key (length pre) (of_nat (length es)) sz compare = Some r \<and>
    (if \<exists>e \<in> set es. cmp k e = 0
     then \<exists>j < length es. r = length pre + j * unat sz \<and> cmp k (es ! j) = 0 else r = 0)"
proof -
  have u: "uniform (unat sz) es" and z: "0 < unat sz"
    using assms(2,3) by (simp_all add: uniform_def word_less_nat_alt)
  have m: "m = array_image pre es post"
    using assms(7) by (simp add: array_image_def)
  have t: "compare_thunk compare = compare"
    by (intro ext) (simp add: compare_thunk_def)
  show ?thesis
    using comparator.binary_search_image [OF assms(1) u z assms(5) assms(8) assms(9) [unfolded m] assms(6) refl assms(4)]
    unfolding bsearch_def t m assms(10) block_def .
qed

theorem bsearch_correct_witness:
  "\<exists>r. bsearch [0, 1, 9, 2, 0, 2, 1, 2, 0] 7 (length [0 :: u8]) (of_nat (length [[1, 9], [2, 0], [2, 1 :: u8]])) 2
       (\<lambda>m a b. memcmp m a b 2) = Some r \<and>
     (if \<exists>e \<in> set [[1, 9], [2, 0], [2, 1]]. order_sign [2, 0] e = 0
      then \<exists>j < length [[1, 9], [2, 0], [2, 1 :: u8]].
        r = length [0 :: u8] + j * unat (2 :: size_t) \<and> order_sign [2, 0] ([[1, 9], [2, 0], [2, 1]] ! j) = 0
      else r = 0)"
proof (rule bsearch_correct [where post = "[2, 0]"])
  show "comparator order_sign (\<lambda>m a b. memcmp m a b 2) (unat (2 :: size_t))"
    using memcmp_order.comparator_axioms [of 2] by simp
qed (simp_all add: order_sign_def)

end
