(* ===== verification/Vaddr.thy ===== *)
theory Vaddr
  imports Disk
begin

text \<open>
  \<^verbatim>\<open>threads/vaddr.h\<close> and \<^verbatim>\<open>threads/pte.h\<close>: pages, the 1:1 mapping of physical memory at
  \<^verbatim>\<open>PHYS_BASE\<close>, and the format of page directory and page table entries.  Kernel memory is a
  function from 32-bit virtual addresses to bytes, with 32-bit little-endian reads and writes.
\<close>

section \<open>Virtual addresses\<close>

definition PGBITS :: nat where "PGBITS = 12"
definition PGSIZE :: u32 where "PGSIZE = push_bit PGBITS 1"
definition BITMASK :: "nat \<Rightarrow> nat \<Rightarrow> u32" where "BITMASK shift cnt = push_bit shift (push_bit cnt 1 - 1)"
definition PGMASK :: u32 where "PGMASK = BITMASK 0 PGBITS"
definition PHYS_BASE :: u32 where "PHYS_BASE = 0xc0000000"

definition pg_ofs :: "u32 \<Rightarrow> u32" where "pg_ofs va = va AND PGMASK"
definition pg_no :: "u32 \<Rightarrow> u32" where "pg_no va = drop_bit PGBITS va"
definition pg_round_up :: "u32 \<Rightarrow> u32" where "pg_round_up va = (va + PGSIZE - 1) AND NOT PGMASK"
definition pg_round_down :: "u32 \<Rightarrow> u32" where "pg_round_down va = va AND NOT PGMASK"

definition is_user_vaddr :: "u32 \<Rightarrow> bool" where "is_user_vaddr va \<longleftrightarrow> va < PHYS_BASE"
definition is_kernel_vaddr :: "u32 \<Rightarrow> bool" where "is_kernel_vaddr va \<longleftrightarrow> PHYS_BASE \<le> va"

definition ptov :: "u32 \<Rightarrow> u32 kernel" where
  "ptov paddr = do { ASSERT (paddr < PHYS_BASE); Some (paddr + PHYS_BASE) }"

definition vtop :: "u32 \<Rightarrow> u32 kernel" where
  "vtop vaddr = do { ASSERT (is_kernel_vaddr vaddr); Some (vaddr - PHYS_BASE) }"

section \<open>Page table entries\<close>

definition PTSHIFT :: nat where "PTSHIFT = PGBITS"
definition PTBITS :: nat where "PTBITS = 10"
definition PTMASK :: u32 where "PTMASK = BITMASK PTSHIFT PTBITS"
definition PDSHIFT :: nat where "PDSHIFT = PTSHIFT + PTBITS"

definition pt_no :: "u32 \<Rightarrow> u32" where "pt_no va = drop_bit PTSHIFT (va AND PTMASK)"
definition pd_no :: "u32 \<Rightarrow> u32" where "pd_no va = drop_bit PDSHIFT va"

definition PTE_ADDR :: u32 where "PTE_ADDR = 0xfffff000"
definition PTE_P :: u32 where "PTE_P = 0x1"
definition PTE_W :: u32 where "PTE_W = 0x2"
definition PTE_U :: u32 where "PTE_U = 0x4"
definition PTE_A :: u32 where "PTE_A = 0x20"
definition PTE_D :: u32 where "PTE_D = 0x40"

definition pde_create :: "u32 \<Rightarrow> u32 kernel" where
  "pde_create pt = do { ASSERT (pg_ofs pt = 0); p \<leftarrow> vtop pt; Some (p OR PTE_U OR PTE_P OR PTE_W) }"

definition pde_get_pt :: "u32 \<Rightarrow> u32 kernel" where
  "pde_get_pt pde = do { ASSERT (pde AND PTE_P \<noteq> 0); ptov (pde AND PTE_ADDR) }"

definition pte_create_kernel :: "u32 \<Rightarrow> bool \<Rightarrow> u32 kernel" where
  "pte_create_kernel page writable = do {
     ASSERT (pg_ofs page = 0);
     p \<leftarrow> vtop page;
     Some (p OR PTE_P OR (if writable then PTE_W else 0))
   }"

definition pte_create_user :: "u32 \<Rightarrow> bool \<Rightarrow> u32 kernel" where
  "pte_create_user page writable = map_option (\<lambda>p. p OR PTE_U) (pte_create_kernel page writable)"

definition pte_get_page :: "u32 \<Rightarrow> u32 kernel" where
  "pte_get_page pte = ptov (pte AND PTE_ADDR)"

section \<open>Kernel memory\<close>

type_synonym ram = "u32 \<Rightarrow> u8"

definition ram_fill :: "ram \<Rightarrow> u32 \<Rightarrow> u8 \<Rightarrow> nat \<Rightarrow> ram" where
  "ram_fill m p v n = (\<lambda>a. if unat (a - p) < n then v else m a)"

definition ram_copy :: "ram \<Rightarrow> u32 \<Rightarrow> u32 \<Rightarrow> nat \<Rightarrow> ram" where
  "ram_copy m dst src n = (\<lambda>a. if unat (a - dst) < n then m (src + (a - dst)) else m a)"

definition read32 :: "ram \<Rightarrow> u32 \<Rightarrow> u32" where
  "read32 m p = bytes_u32 [m p, m (p + 1), m (p + 2), m (p + 3)]"

definition write32 :: "ram \<Rightarrow> u32 \<Rightarrow> u32 \<Rightarrow> ram" where
  "write32 m p v = (\<lambda>a. if unat (a - p) < 4 then u32_bytes v ! unat (a - p) else m a)"

section \<open>Pages as natural numbers\<close>

lemma page_consts: "PGSIZE = 4096" "PGMASK = 4095" "PTMASK = 0x3ff000" "PGBITS = 12" "PTSHIFT = 12" "PDSHIFT = 22"
  by (simp_all add: PGSIZE_def PGMASK_def PTMASK_def BITMASK_def PGBITS_def PTSHIFT_def PTBITS_def PDSHIFT_def)

lemma unat_pg_no: "unat (pg_no va) = unat va div 4096"
  by (simp add: pg_no_def page_consts unsigned_drop_bit_eq drop_bit_eq_div unat_div)

lemma and_4095: "(va :: u32) AND 4095 = take_bit 12 va"
  by (simp add: take_bit_eq_mask mask_eq_exp_minus_1)

lemma unat_pg_ofs: "unat (pg_ofs va) = unat va mod 4096"
  by (simp add: pg_ofs_def page_consts and_4095 take_bit_eq_mod unat_mod)

lemma pg_ofs_zero: "pg_ofs va = 0 \<longleftrightarrow> 4096 dvd unat va"
  by (metis unat_pg_ofs mod_eq_0_iff_dvd unat_eq_zero)

lemma PGMASK_mask: "PGMASK = mask 12"
  by (simp add: page_consts mask_eq_exp_minus_1)

lemma and_not_PGMASK: "va AND NOT PGMASK = push_bit 12 (drop_bit 12 va)"
  unfolding PGMASK_mask by (rule bit_word_eqI) (auto simp: bit_simps)

lemma unat_round_down: "unat (va AND NOT PGMASK) = unat va div 4096 * 4096"
proof -
  have "unat (drop_bit 12 va) * 4096 < 2 ^ 32"
    using unat_bound32 [of va] div_times_less_eq_dividend [of "unat va" 4096]
    by (simp add: drop_bit_eq_div unat_div)
  then have "unat (drop_bit 12 va * 4096) = unat (drop_bit 12 va) * 4096"
    by (subst unat_mult_small) simp_all
  then show ?thesis
    unfolding and_not_PGMASK by (simp add: push_bit_eq_mult drop_bit_eq_div unat_div)
qed

lemma unat_pg_round_up:
  assumes "unat va + 4095 < 2 ^ 32"
  shows "unat (pg_round_up va) = (unat va + 4095) div 4096 * 4096"
proof -
  have "va + PGSIZE - 1 = va + 4095"
    by (simp add: page_consts)
  then show ?thesis
    unfolding pg_round_up_def unat_round_down using assms by (simp only:) (simp add: unat_add_small)
qed

lemma page_split: "unat va = 4096 * unat (pg_no va) + unat (pg_ofs va)"
  by (simp add: unat_pg_no unat_pg_ofs)

lemma page_eqI: "pg_no a = pg_no b \<Longrightarrow> pg_ofs a = pg_ofs b \<Longrightarrow> a = b"
  by (metis page_split word_unat_eq_iff)

section \<open>Aligned reads and writes\<close>

lemma aligned_apart:
  fixes a b :: u32
  assumes "4 dvd unat a" and "4 dvd unat b" and "a \<noteq> b" and "i < 4"
  shows "\<not> unat (b + of_nat i - a) < 4"
proof
  let ?d = "b + of_nat i - a"
  assume d: "unat ?d < 4"
  obtain x where x: "unat a = 4 * x"
    using assms(1) by (auto elim: dvdE)
  obtain y where y: "unat b = 4 * y"
    using assms(2) by (auto elim: dvdE)
  have xy: "x < 2 ^ 30" "y < 2 ^ 30"
    using x y unat_bound32 [of a] unat_bound32 [of b] by simp_all
  have i: "unat (of_nat i :: u32) = i"
    using assms(4) by (intro unat_of_nat_small) simp
  have "b + of_nat i = a + ?d"
    by simp
  then have "unat (b + of_nat i) = unat (a + ?d)"
    by (rule arg_cong)
  moreover have "unat (b + of_nat i) = 4 * y + i" "unat (a + ?d) = 4 * x + unat ?d"
    using x y xy i d assms(4) by (subst unat_add_small; simp)+
  ultimately have "x = y"
    using d assms(4) by linarith
  then show False
    using x y assms(3) by (simp add: word_unat_eq_iff)
qed

lemma read32_write32:
  assumes "4 dvd unat a" and "4 dvd unat b"
  shows "read32 (write32 m a v) b = (if a = b then v else read32 m b)"
proof (cases "a = b")
  case True
  have "read32 (write32 m b v) b = bytes_u32 (u32_bytes v @ [])"
    by (simp add: read32_def write32_def u32_bytes_def)
  then show ?thesis
    using True by (simp only: bytes_u32_bytes) simp
next
  case False
  have "write32 m a v (b + of_nat i) = m (b + of_nat i)" if "i < 4" for i
    using aligned_apart [OF assms False that] by (simp add: write32_def)
  from this [of 0] this [of 1] this [of 2] this [of 3] show ?thesis
    using False by (simp add: read32_def)
qed

end
