(* ===== verification/Palloc.thy ===== *)
theory Palloc
  imports Bitmap Vaddr
begin

text \<open>
  \<^verbatim>\<open>threads/palloc.c\<close>: the page allocator, two pools of pages with a bitmap each.  The state is
  the two pools and the bytes of kernel memory, which \<^verbatim>\<open>PAL_ZERO\<close> and the poisoning of freed
  pages write.  The bitmap of a pool is kept as a value; the words of memory it starts from are
  read at the place \<^verbatim>\<open>init_pool\<close> puts it.  The pool locks are not modelled: an operation is one
  step.
\<close>

section \<open>State and operations\<close>

record pool =
  used_map :: bitmap
  pbase :: u32

record pstate =
  kernel_pool :: pool
  user_pool :: pool
  ram :: ram

definition PAL_ASSERT :: u32 where "PAL_ASSERT = 1"
definition PAL_ZERO :: u32 where "PAL_ZERO = 2"
definition PAL_USER :: u32 where "PAL_USER = 4"

definition init_pool :: "ram \<Rightarrow> u32 \<Rightarrow> size_t \<Rightarrow> pool kernel" where
  "init_pool m base page_cnt = do {
     let bm_pages = DIV_ROUND_UP (bitmap_buf_size page_cnt) PGSIZE;
     if page_cnt < bm_pages then PANIC
     else do {
       let page_cnt = page_cnt - bm_pages;
       let block = map (\<lambda>i. read32 m (base + SIZEOF_BITMAP + 4 * of_nat i)) [0..<unat (elem_cnt page_cnt)];
       b \<leftarrow> bitmap_create_in_buf page_cnt block (bm_pages * PGSIZE);
       Some \<lparr>used_map = b, pbase = base + bm_pages * PGSIZE\<rparr>
     }
   }"

definition palloc_init :: "u32 \<Rightarrow> u32 \<Rightarrow> size_t \<Rightarrow> ram \<Rightarrow> pstate kernel" where
  "palloc_init kernel_end ram_pages user_page_limit m = do {
     let free_start = pg_round_up kernel_end;
     free_end \<leftarrow> ptov (ram_pages * PGSIZE);
     let free_pages = (free_end - free_start) div PGSIZE;
     let user_pages = free_pages div 2;
     let user_pages = (if user_page_limit < user_pages then user_page_limit else user_pages);
     let kernel_pages = free_pages - user_pages;
     kp \<leftarrow> init_pool m free_start kernel_pages;
     up \<leftarrow> init_pool m (free_start + kernel_pages * PGSIZE) user_pages;
     Some \<lparr>kernel_pool = kp, user_pool = up, ram = m\<rparr>
   }"

definition get_pool :: "bool \<Rightarrow> pstate \<Rightarrow> pool" where
  "get_pool user s = (if user then user_pool s else kernel_pool s)"

definition set_map :: "bool \<Rightarrow> bitmap \<Rightarrow> pstate \<Rightarrow> pstate" where
  "set_map user b s =
     (if user then s\<lparr>user_pool := (user_pool s)\<lparr>used_map := b\<rparr>\<rparr>
      else s\<lparr>kernel_pool := (kernel_pool s)\<lparr>used_map := b\<rparr>\<rparr>)"

definition palloc_get_multiple :: "u32 \<Rightarrow> size_t \<Rightarrow> pstate \<Rightarrow> (u32 \<times> pstate) kernel" where
  "palloc_get_multiple flags page_cnt s = do {
     let user = (flags AND PAL_USER \<noteq> 0);
     let pool = get_pool user s;
     if page_cnt = 0 then Some (0, s)
     else do {
       (page_idx, b) \<leftarrow> bitmap_scan_and_flip (used_map pool) 0 page_cnt False;
       let s = set_map user b s;
       let pages = (if page_idx \<noteq> BITMAP_ERROR then pbase pool + PGSIZE * page_idx else 0);
       if pages \<noteq> 0
       then Some (pages,
              if flags AND PAL_ZERO \<noteq> 0 then s\<lparr>ram := ram_fill (ram s) pages 0 (unat (PGSIZE * page_cnt))\<rparr> else s)
       else if flags AND PAL_ASSERT \<noteq> 0 then PANIC
       else Some (pages, s)
     }
   }"

definition palloc_get_page :: "u32 \<Rightarrow> pstate \<Rightarrow> (u32 \<times> pstate) kernel" where
  "palloc_get_page flags s = palloc_get_multiple flags 1 s"

definition page_from_pool :: "pool \<Rightarrow> u32 \<Rightarrow> bool" where
  "page_from_pool pool page = (let
     page_no = pg_no page;
     start_page = pg_no (pbase pool);
     end_page = start_page + bitmap_size (used_map pool)
   in start_page \<le> page_no \<and> page_no < end_page)"

definition palloc_free_multiple :: "u32 \<Rightarrow> size_t \<Rightarrow> pstate \<Rightarrow> pstate kernel" where
  "palloc_free_multiple pages page_cnt s = do {
     ASSERT (pg_ofs pages = 0);
     if pages = 0 \<or> page_cnt = 0 then Some s
     else do {
       user \<leftarrow> (if page_from_pool (kernel_pool s) pages then Some False
               else if page_from_pool (user_pool s) pages then Some True
               else PANIC);
       let pool = get_pool user s;
       let page_idx = pg_no pages - pg_no (pbase pool);
       let s = s\<lparr>ram := ram_fill (ram s) pages 0xcc (unat (PGSIZE * page_cnt))\<rparr>;
       all_used \<leftarrow> bitmap_all (used_map pool) page_idx page_cnt;
       ASSERT all_used;
       b \<leftarrow> bitmap_set_multiple (used_map pool) page_idx page_cnt False;
       Some (set_map user b s)
     }
   }"

definition palloc_free_page :: "u32 \<Rightarrow> pstate \<Rightarrow> pstate kernel" where
  "palloc_free_page page s = palloc_free_multiple page 1 s"

section \<open>Invariant\<close>

definition first_page :: "pool \<Rightarrow> nat" where
  "first_page p = unat (pbase p) div 4096"

definition pool_size :: "pool \<Rightarrow> nat" where
  "pool_size p = unat (bit_cnt (used_map p))"

definition pool_ok :: "pool \<Rightarrow> bool" where
  "pool_ok p \<longleftrightarrow> bm_invar (used_map p) \<and> 4096 dvd unat (pbase p) \<and> 0 < unat (pbase p) \<and>
     unat (pbase p) + 4096 * pool_size p \<le> 2 ^ 32"

definition pool_used :: "pool \<Rightarrow> nat set" where
  "pool_used p = (\<lambda>j. first_page p + j) ` bm_used (used_map p)"

definition palloc_ok :: "pstate \<Rightarrow> bool" where
  "palloc_ok s \<longleftrightarrow> pool_ok (kernel_pool s) \<and> pool_ok (user_pool s) \<and>
     first_page (kernel_pool s) + pool_size (kernel_pool s) \<le> first_page (user_pool s)"

definition pages_used :: "pstate \<Rightarrow> nat set" where
  "pages_used s = pool_used (kernel_pool s) \<union> pool_used (user_pool s)"

definition in_pool :: "pool \<Rightarrow> nat \<Rightarrow> nat \<Rightarrow> bool" where
  "in_pool p i n \<longleftrightarrow> 0 < n \<and> first_page p \<le> i \<and> i + n \<le> first_page p + pool_size p"

definition pages_inside :: "pstate \<Rightarrow> nat \<Rightarrow> nat \<Rightarrow> bool" where
  "pages_inside s i n \<longleftrightarrow> in_pool (kernel_pool s) i n \<or> in_pool (user_pool s) i n"

lemma pool_base: "pool_ok p \<Longrightarrow> unat (pbase p) = 4096 * first_page p"
  by (simp add: pool_ok_def first_page_def)

lemma pool_limit:
  assumes "pool_ok p"
  shows "first_page p + pool_size p \<le> 2 ^ 20"
proof -
  have "4096 * first_page p + 4096 * pool_size p \<le> 2 ^ 32"
    using pool_base [OF assms] assms by (simp add: pool_ok_def)
  then show ?thesis
    by simp
qed

lemma pool_used_bound: "x \<in> pool_used p \<Longrightarrow> first_page p \<le> x \<and> x < first_page p + pool_size p"
  by (auto simp: pool_used_def pool_size_def bm_used_def)

lemma shift_slots: "(\<lambda>j. f + j) ` slots (i, n) = slots (f + i, n)"
  by (simp add: image_add_atLeastLessThan ac_simps)

lemma shift_disjoint: "slots (i, n) \<inter> U = {} \<Longrightarrow> slots (f + i, n) \<inter> (\<lambda>j. f + j) ` U = {}"
  by (simp only: shift_slots [symmetric] image_Int [OF inj_onI, symmetric]) auto

section \<open>One pool\<close>

lemma pool_page:
  assumes "pool_ok p" and "unat idx < pool_size p"
  shows "unat (pbase p + PGSIZE * idx) = 4096 * (first_page p + unat idx)"
proof -
  have "4096 * unat idx < 2 ^ 32" "4096 * first_page p + 4096 * unat idx < 2 ^ 32"
    using assms(2) pool_limit [OF assms(1)] by simp_all
  moreover from this have "unat (PGSIZE * idx) = 4096 * unat idx"
    by (subst unat_mult_small) (simp_all add: page_consts)
  ultimately show ?thesis
    using pool_base [OF assms(1)] by (subst unat_add_small) simp_all
qed

lemma pool_scan:
  assumes "pool_ok p" and "n \<noteq> 0" and "bitmap_scan_and_flip (used_map p) 0 n False = r"
  obtains "r = Some (BITMAP_ERROR, used_map p)"
  | idx b where "r = Some (idx, b)" and "idx \<noteq> BITMAP_ERROR" and "bm_invar b" and "bit_cnt b = bit_cnt (used_map p)"
      and "unat idx + unat n \<le> pool_size p" and "slots (unat idx, unat n) \<inter> bm_used (used_map p) = {}"
      and "bm_used b = bm_used (used_map p) \<union> slots (unat idx, unat n)"
proof -
  have inv: "bm_invar (used_map p)"
    using assms(1) by (simp add: pool_ok_def)
  note spec = bitmap_scan_and_flip_spec [OF inv, of 0 n False]
  show thesis
  proof (cases "first_run (bm_abs (used_map p)) 0 (unat n) False")
    case None
    then show thesis
      using spec assms(3) that(1) by simp
  next
    case (Some k)
    then obtain idx b where b: "r = Some (idx, b)" "unat idx = k" "idx \<noteq> BITMAP_ERROR" "bm_invar b"
      "bit_cnt b = bit_cnt (used_map p)" "k + unat n \<le> unat (bit_cnt (used_map p))"
      "bm_abs b = take k (bm_abs (used_map p)) @ replicate (unat n) True @ drop (k + unat n) (bm_abs (used_map p))"
      using spec assms(3) by auto
    have "run_at (bm_abs (used_map p)) (unat n) False k"
      using Some by (rule first_run_Some(2))
    then have "slots (k, unat n) \<inter> bm_used (used_map p) = {}"
      by (simp only: run_at_free)
    moreover have "bm_used b = bm_used (used_map p) \<union> slots (k, unat n)"
      using bm_used_range [OF b(5,7,6)] by simp
    ultimately show thesis
      using b by (intro that(2) [of idx b]) (auto simp: pool_size_def)
  qed
qed

lemma pool_release:
  assumes "pool_ok p" and "i + n \<le> pool_size p" and "slots (i, n) \<subseteq> bm_used (used_map p)"
  obtains b where "bitmap_all (used_map p) (of_nat i) (of_nat n) = Some True"
    and "bitmap_set_multiple (used_map p) (of_nat i) (of_nat n) False = Some b"
    and "bm_invar b" and "bit_cnt b = bit_cnt (used_map p)" and "bm_used b = bm_used (used_map p) - slots (i, n)"
proof -
  have inv: "bm_invar (used_map p)"
    using assms(1) by (simp add: pool_ok_def)
  have u: "unat (of_nat i :: size_t) = i" "unat (of_nat n :: size_t) = n"
    using assms(2) unat_bound32 [of "bit_cnt (used_map p)"] by (simp_all add: unat_of_nat pool_size_def)
  have "bitmap_all (used_map p) (of_nat i) (of_nat n) = Some True"
    using inv assms(2,3) by (subst bitmap_all_eq) (auto simp: u bm_invar_def bm_used_def subset_iff pool_size_def)
  moreover have "unat (of_nat i :: size_t) + unat (of_nat n :: size_t) \<le> unat (bit_cnt (used_map p))"
    using assms(2) by (simp only: u pool_size_def)
  then obtain b where "bitmap_set_multiple (used_map p) (of_nat i) (of_nat n) False = Some b" "bm_wf b"
    "bit_cnt b = bit_cnt (used_map p)"
    "bm_abs b = take i (bm_abs (used_map p)) @ replicate n False @ drop (i + n) (bm_abs (used_map p))"
    using inv bitmap_set_multiple_spec [of "used_map p" "of_nat i" "of_nat n" False] unfolding u bm_invar_def by blast
  moreover from this have "bm_used b = bm_used (used_map p) - slots (i, n)"
    using bm_used_range [of b "used_map p" i n False] assms(2) by (simp add: pool_size_def)
  ultimately show thesis
    using inv by (intro that) (simp_all add: bm_invar_def)
qed

section \<open>Both pools\<close>

lemma pool_ok_map:
  "pool_ok p \<Longrightarrow> bm_invar b \<Longrightarrow> bit_cnt b = bit_cnt (used_map p) \<Longrightarrow> pool_ok (p\<lparr>used_map := b\<rparr>)"
  by (simp add: pool_ok_def pool_size_def)

lemma pool_map_simps [simp]:
  "first_page (p\<lparr>used_map := b\<rparr>) = first_page p"
  "bit_cnt b = bit_cnt (used_map p) \<Longrightarrow> pool_size (p\<lparr>used_map := b\<rparr>) = pool_size p"
  by (simp_all add: first_page_def pool_size_def)

lemma palloc_ok_pool: "palloc_ok s \<Longrightarrow> pool_ok (get_pool user s)"
  by (simp add: palloc_ok_def get_pool_def)

lemma palloc_ok_set_map:
  assumes "palloc_ok s" and "bm_invar b" and "bit_cnt b = bit_cnt (used_map (get_pool user s))"
  shows "palloc_ok (set_map user b s)" and "pages_inside (set_map user b s) = pages_inside s"
  using assms pool_ok_map [of "get_pool user s" b]
  by (auto simp: palloc_ok_def set_map_def get_pool_def pages_inside_def in_pool_def intro!: ext split: if_splits)

lemma ram_irrelevant [simp]:
  "palloc_ok (s\<lparr>ram := m\<rparr>) = palloc_ok s" "pages_inside (s\<lparr>ram := m\<rparr>) = pages_inside s"
  "pages_used (s\<lparr>ram := m\<rparr>) = pages_used s" "get_pool user (s\<lparr>ram := m\<rparr>) = get_pool user s"
  by (auto simp: palloc_ok_def pages_inside_def pages_used_def get_pool_def intro!: ext)

lemma pool_used_map: "pool_used (p\<lparr>used_map := b\<rparr>) = (\<lambda>j. first_page p + j) ` bm_used b"
  by (simp add: pool_used_def)

lemma pages_used_set_map:
  "pages_used (set_map user b s) = (\<lambda>j. first_page (get_pool user s) + j) ` bm_used b \<union> pool_used (get_pool (\<not> user) s)"
  by (auto simp: pages_used_def set_map_def get_pool_def pool_used_map)

lemma pages_used_pools: "pages_used s = pool_used (get_pool user s) \<union> pool_used (get_pool (\<not> user) s)"
  by (auto simp: pages_used_def get_pool_def)

lemma other_pool_disjoint:
  assumes "palloc_ok s" and "in_pool (get_pool user s) i n"
  shows "slots (i, n) \<inter> pool_used (get_pool (\<not> user) s) = {}"
proof -
  have "x \<notin> pool_used (get_pool (\<not> user) s)" if "x \<in> slots (i, n)" for x
    using assms that pool_used_bound [of x "get_pool (\<not> user) s"]
    by (cases user) (auto simp: palloc_ok_def get_pool_def in_pool_def)
  then show ?thesis
    by blast
qed

lemma first_page_pos: "pool_ok p \<Longrightarrow> 0 < first_page p"
  by (frule pool_base) (simp add: pool_ok_def)

lemma page_bytes:
  assumes "pool_ok p" and "unat n \<le> pool_size p"
  shows "unat (PGSIZE * n) = 4096 * unat n"
proof -
  have "0 < first_page p"
    using assms(1) by (rule first_page_pos)
  then have "4096 * unat n < 2 ^ 32"
    using pool_limit [OF assms(1)] assms(2) by simp
  then show ?thesis
    by (subst unat_mult_small) (simp_all add: page_consts)
qed

lemma palloc_get_cases:
  fixes flags :: u32
  assumes "palloc_ok s" and "n \<noteq> 0"
  defines "user \<equiv> flags AND PAL_USER \<noteq> 0" and "p \<equiv> get_pool (flags AND PAL_USER \<noteq> 0) s"
  obtains (full) "palloc_get_multiple flags n s = (if flags AND PAL_ASSERT \<noteq> 0 then None else Some (0, s))"
  | (pages) a b i where
      "palloc_get_multiple flags n s = Some (a, (set_map user b s)\<lparr>ram :=
         if flags AND PAL_ZERO \<noteq> 0 then ram_fill (ram s) a 0 (4096 * unat n) else ram s\<rparr>)"
      and "bm_invar b" and "bit_cnt b = bit_cnt (used_map p)" and "unat a = 4096 * (first_page p + i)"
      and "i + unat n \<le> pool_size p" and "slots (i, unat n) \<inter> bm_used (used_map p) = {}"
      and "bm_used b = bm_used (used_map p) \<union> slots (i, unat n)" and "a \<noteq> 0"
proof -
  have ok: "pool_ok p"
    using assms(1) by (simp add: p_def palloc_ok_pool)
  have same: "set_map user (used_map p) s = s"
    by (simp add: set_map_def p_def get_pool_def user_def)
  have "0 < unat n"
    using assms(2) by (simp add: unat_gt_0)
  from ok assms(2) refl show thesis
  proof (cases rule: pool_scan)
    case 1
    then show thesis
      using assms(2) same by (intro full) (simp add: palloc_get_multiple_def user_def p_def Let_def)
  next
    case (2 idx b)
    let ?a = "pbase p + PGSIZE * idx"
    have a: "unat ?a = 4096 * (first_page p + unat idx)"
      using ok 2(5) \<open>0 < unat n\<close> by (intro pool_page) auto
    then have "0 < unat ?a"
      using pool_base [OF ok] ok by (simp add: pool_ok_def)
    then have az: "?a \<noteq> 0"
      by auto
    have "unat (PGSIZE * n) = 4096 * unat n"
      using ok 2(5) by (intro page_bytes) auto
    moreover have "ram (set_map user b s) = ram s"
      by (simp add: set_map_def)
    ultimately have "palloc_get_multiple flags n s = Some (?a, (set_map user b s)\<lparr>ram :=
         if flags AND PAL_ZERO \<noteq> 0 then ram_fill (ram s) ?a 0 (4096 * unat n) else ram s\<rparr>)"
      using 2 assms(2) az by (auto simp: palloc_get_multiple_def user_def p_def Let_def)
    then show thesis
      using 2 a az by (rule_tac pages)
  qed
qed

lemma page_from_pool_iff:
  assumes "pool_ok p" and "unat a = 4096 * i" and "i < 2 ^ 20"
  shows "page_from_pool p a \<longleftrightarrow> first_page p \<le> i \<and> i < first_page p + pool_size p"
proof -
  have f: "unat (pg_no (pbase p)) = first_page p" and a: "unat (pg_no a) = i"
    using assms(2) by (simp_all add: unat_pg_no first_page_def)
  have "unat (pg_no (pbase p) + bit_cnt (used_map p)) = first_page p + pool_size p"
    using pool_limit [OF assms(1)] by (subst unat_add_small) (simp_all add: f pool_size_def)
  then show ?thesis
    by (simp add: page_from_pool_def Let_def word_le_nat_alt word_less_nat_alt f a bitmap_size_def)
qed

lemma in_pool_bound: "pool_ok p \<Longrightarrow> in_pool p i n \<Longrightarrow> i < 2 ^ 20 \<and> i + n \<le> 2 ^ 20 \<and> n < 2 ^ 20 \<and> 0 < n \<and> 0 < i"
  by (frule pool_limit, drule first_page_pos) (simp add: in_pool_def)

definition page_addr :: "nat \<Rightarrow> u32" where
  "page_addr i = of_nat (4096 * i)"

lemma unat_page_addr: "i < 2 ^ 20 \<Longrightarrow> unat (page_addr i) = 4096 * i"
  unfolding page_addr_def by (rule unat_of_nat_small) simp

lemma palloc_free_spec:
  assumes ok: "palloc_ok s" and "in_pool (get_pool user s) i n" and "slots (i, n) \<subseteq> pages_used s"
  defines "p \<equiv> get_pool user s"
  obtains b where "palloc_free_multiple (page_addr i) (of_nat n) s
        = Some ((set_map user b s)\<lparr>ram := ram_fill (ram s) (page_addr i) 0xcc (4096 * n)\<rparr>)"
    and "bm_invar b" and "bit_cnt b = bit_cnt (used_map p)"
    and "bm_used b = bm_used (used_map p) - slots (i - first_page p, n)"
proof -
  have p: "pool_ok p" and ip: "in_pool p i n"
    using assms by (simp_all add: palloc_ok_pool)
  note bnd = in_pool_bound [OF p ip]
  have fi: "first_page p \<le> i" "i + n \<le> first_page p + pool_size p"
    using ip by (simp_all add: in_pool_def)
  let ?a = "page_addr i" and ?n = "of_nat n :: size_t" and ?j = "i - first_page p"
  have a: "unat ?a = 4096 * i" and n: "unat ?n = n"
    using bnd by (simp_all add: unat_page_addr unat_of_nat_small)
  have az: "?a \<noteq> 0" "?n \<noteq> 0"
    using a n bnd by (metis mult_is_0 not_gr_zero unat_0 zero_neq_numeral, metis not_gr_zero unat_0)
  have ofs: "pg_ofs ?a = 0"
    by (simp add: pg_ofs_zero a)
  have sel: "(if page_from_pool (kernel_pool s) ?a then Some False
      else if page_from_pool (user_pool s) ?a then Some True else PANIC) = Some user"
    using ok ip bnd page_from_pool_iff [OF _ a, of "kernel_pool s"] page_from_pool_iff [OF _ a, of "user_pool s"]
    by (cases user) (auto simp: palloc_ok_def p_def get_pool_def in_pool_def)
  have idx: "pg_no ?a - pg_no (pbase p) = of_nat ?j"
  proof -
    have u: "unat (pg_no ?a) = i" "unat (pg_no (pbase p)) = first_page p"
      unfolding unat_pg_no a first_page_def by simp_all
    have "unat (pg_no ?a - pg_no (pbase p)) = ?j"
      using fi(1) by (subst unat_sub) (simp_all add: word_le_nat_alt u)
    moreover have "unat (of_nat ?j :: size_t) = ?j"
      using bnd by (intro unat_of_nat_small) (simp, linarith)
    ultimately show ?thesis
      by (simp add: word_unat_eq_iff)
  qed
  have "slots (i, n) \<subseteq> pool_used p"
    using assms(3) other_pool_disjoint [OF ok assms(2)] pages_used_pools [of s user] by (auto simp: p_def)
  then have sub: "slots (?j, n) \<subseteq> bm_used (used_map p)"
  proof -
    have "x \<in> bm_used (used_map p)" if "x \<in> slots (?j, n)" for x
    proof -
      have "first_page p + x \<in> slots (i, n)"
        using that fi(1) by auto
      then have "first_page p + x \<in> pool_used p"
        using \<open>slots (i, n) \<subseteq> pool_used p\<close> by blast
      then show ?thesis
        by (auto simp: pool_used_def)
    qed
    then show ?thesis
      by blast
  qed
  have "?j + n \<le> pool_size p"
    using fi by simp
  from pool_release [OF p this sub] obtain b where b:
    "bitmap_all (used_map p) (of_nat ?j) ?n = Some True"
    "bitmap_set_multiple (used_map p) (of_nat ?j) ?n False = Some b"
    "bm_invar b" "bit_cnt b = bit_cnt (used_map p)" "bm_used b = bm_used (used_map p) - slots (?j, n)"
    by blast
  have nb: "unat (PGSIZE * ?n) = 4096 * n"
    using page_bytes [OF p, of ?n] fi n by simp
  have "palloc_free_multiple ?a ?n s = Some ((set_map user b s)\<lparr>ram := ram_fill (ram s) ?a 0xcc (4096 * n)\<rparr>)"
    unfolding palloc_free_multiple_def sel using ofs az b(1,2)
    by (simp add: Let_def p_def [symmetric] idx nb) (simp add: set_map_def)
  then show thesis
    using b(3-5) by (rule that)
qed

lemma pool_get_fresh:
  assumes "palloc_ok s" and "in_pool (get_pool user s) (first_page (get_pool user s) + k) n"
    and "slots (k, n) \<inter> bm_used (used_map (get_pool user s)) = {}"
  shows "slots (first_page (get_pool user s) + k, n) \<inter> pages_used s = {}"
proof -
  have "slots (first_page (get_pool user s) + k, n) \<inter> pool_used (get_pool user s) = {}"
    unfolding pool_used_def using assms(3) by (rule shift_disjoint)
  then show ?thesis
    using other_pool_disjoint [OF assms(1,2)] pages_used_pools [of s user] by blast
qed

lemma pages_used_grow:
  assumes "bm_used b = bm_used (used_map (get_pool user s)) \<union> slots (k, n)"
  shows "pages_used (set_map user b s) = pages_used s \<union> slots (first_page (get_pool user s) + k, n)"
  unfolding pages_used_set_map pages_used_pools [of s user] assms image_Un shift_slots pool_used_def by blast

lemma ram_fill_pages:
  assumes "unat a = 4096 * i" and "i + n \<le> 2 ^ 20"
  shows "unat (x - a) < 4096 * n \<longleftrightarrow> i \<le> unat (pg_no x) \<and> unat (pg_no x) < i + n"
proof (cases "a \<le> x")
  case True
  then have "unat (x - a) = unat x - 4096 * i" "4096 * i \<le> unat x"
    using assms(1) by (simp_all add: unat_sub word_le_nat_alt)
  then show ?thesis
    unfolding unat_pg_no by (auto simp: div_less_iff_less_mult less_eq_div_iff_mult_less_eq)
next
  case False
  then have lt: "unat x < 4096 * i"
    using assms(1) by (simp add: word_le_nat_alt)
  have "unat (x - a) = 2 ^ 32 + unat x - unat a"
    using False by (simp add: unat_sub_if' word_le_nat_alt)
  then show ?thesis
    unfolding unat_pg_no using lt assms by (auto simp: div_less_iff_less_mult)
qed

lemma palloc_get_fresh:
  assumes "palloc_ok s" and "n \<noteq> 0"
  shows "palloc_get_multiple flags n s = (if flags AND PAL_ASSERT \<noteq> 0 then None else Some (0, s)) \<or>
    (\<exists>a s' i. palloc_get_multiple flags n s = Some (a, s') \<and> unat a = 4096 * i \<and> pg_ofs a = 0 \<and>
       in_pool (get_pool (flags AND PAL_USER \<noteq> 0) s) i (unat n) \<and> palloc_ok s' \<and>
       slots (i, unat n) \<inter> pages_used s = {} \<and> pages_used s' = pages_used s \<union> slots (i, unat n) \<and>
       (\<forall>x. ram s' x = (if flags AND PAL_ZERO \<noteq> 0 \<and> i \<le> unat (pg_no x) \<and> unat (pg_no x) < i + unat n then 0 else ram s x)))"
proof -
  let ?user = "flags AND PAL_USER \<noteq> 0"
  let ?p = "get_pool ?user s"
  from assms show ?thesis
  proof (cases rule: palloc_get_cases [of s n flags])
    case full
    then show ?thesis
      by blast
  next
    case (pages a b k)
    let ?i = "first_page ?p + k"
    have ins: "in_pool ?p ?i (unat n)"
      using pages(5) assms(2) by (simp add: in_pool_def unat_gt_0)
    have fr: "slots (?i, unat n) \<inter> pages_used s = {}"
      using pool_get_fresh [OF assms(1) ins] pages(6) by simp
    have us: "pages_used (set_map ?user b s) = pages_used s \<union> slots (?i, unat n)"
      by (rule pages_used_grow) (rule pages(7))
    have bnd: "?i + unat n \<le> 2 ^ 20"
      using in_pool_bound [OF palloc_ok_pool [OF assms(1)] ins] by blast
    let ?m = "if flags AND PAL_ZERO \<noteq> 0 then ram_fill (ram s) a 0 (4096 * unat n) else ram s"
    have "?m x = (if flags AND PAL_ZERO \<noteq> 0 \<and> ?i \<le> unat (pg_no x) \<and> unat (pg_no x) < ?i + unat n then 0 else ram s x)" for x
      using ram_fill_pages [OF pages(4) bnd] by (simp add: ram_fill_def)
    moreover have "pg_ofs a = 0"
      by (simp add: pg_ofs_zero pages(4))
    ultimately show ?thesis
      using pages(1,4) ins fr us palloc_ok_set_map(1) [OF assms(1) pages(2,3)]
      by (intro disjI2 exI [of _ a] exI [of _ "(set_map ?user b s)\<lparr>ram := ?m\<rparr>"] exI [of _ ?i]) (simp del: slots.simps)
  qed
qed

text \<open>As long as the kernel pool has a free page, a request for one succeeds.\<close>
definition free_count :: "pstate \<Rightarrow> nat" where
  "free_count s = pool_size (kernel_pool s) - card (bm_used (used_map (kernel_pool s)))"

lemma palloc_get_count:
  assumes ok: "palloc_ok s" and free: "0 < free_count s" and f: "flags AND PAL_USER = 0"
  shows "\<exists>a s'. palloc_get_multiple flags 1 s = Some (a, s') \<and> a \<noteq> 0 \<and> free_count s' = free_count s - 1"
proof -
  let ?p = "kernel_pool s" and ?u = "bm_used (used_map (kernel_pool s))"
  have po: "pool_ok ?p" and inv: "bm_invar (used_map ?p)"
    using ok by (simp_all add: palloc_ok_def pool_ok_def)
  have fin: "finite ?u"
    by (rule finite_subset [of _ "{..<pool_size ?p}"]) (auto simp: bm_used_def pool_size_def)
  have "\<not> {..<pool_size ?p} \<subseteq> ?u"
    using card_mono [OF fin, of "{..<pool_size ?p}"] free by (auto simp: free_count_def)
  then obtain j where "j < pool_size ?p" "slots (j, 1) \<inter> ?u = {}"
    by auto
  then have "run_at (bm_abs (used_map ?p)) 1 False j"
    using run_at_free [of "used_map ?p" 1 j] by (simp add: pool_size_def)
  then have some: "first_run (bm_abs (used_map ?p)) 0 1 False \<noteq> None"
    using first_run_None [of "bm_abs (used_map ?p)" 0 1 False j] by auto
  have found: "bitmap_scan_and_flip (used_map ?p) 0 1 False \<noteq> Some (BITMAP_ERROR, used_map ?p)"
    using bitmap_scan_and_flip_spec [OF inv, of 0 1 False] some by auto
  from po one_neq_zero refl show ?thesis
  proof (cases rule: pool_scan)
    case 1
    with found show ?thesis
      by simp
  next
    case (2 idx b)
    let ?a = "pbase ?p + PGSIZE * idx"
    let ?s = "if flags AND PAL_ZERO \<noteq> 0 then (set_map False b s)\<lparr>ram := ram_fill (ram s) ?a 0 (unat PGSIZE)\<rparr> else set_map False b s"
    have a: "?a \<noteq> 0"
      using pool_page [OF po, of idx] 2(5) first_page_pos [OF po] by auto
    then have "palloc_get_multiple flags 1 s = Some (?a, ?s)"
      using 2(1,2) f by (simp add: palloc_get_multiple_def Let_def get_pool_def set_map_def)
    moreover have "card (bm_used b) = card ?u + 1"
      using 2(6,7) fin by simp
    then have "free_count ?s = free_count s - 1"
      using 2(4) by (simp add: free_count_def set_map_def pool_size_def)
    ultimately show ?thesis
      using a by (intro exI conjI)
  qed
qed

section \<open>Clients\<close>

text \<open>
  The requests of a client: \<^verbatim>\<open>palloc_get_multiple\<close> without \<^verbatim>\<open>PAL_ASSERT\<close>, for either pool and zeroed
  or not.  A null pointer is a refused request; a panic stays a panic.
\<close>
definition palloc_acquire :: "pstate \<Rightarrow> bool \<times> bool \<times> size_t \<Rightarrow> (nat option \<times> pstate) option" where
  "palloc_acquire s = (\<lambda>(user, zero, n).
     (case palloc_get_multiple ((if user then PAL_USER else 0) OR (if zero then PAL_ZERO else 0)) n s of
        None \<Rightarrow> None
      | Some (a, s') \<Rightarrow> Some (if a = 0 then None else Some (unat (pg_no a)), s')))"

definition palloc_release :: "pstate \<Rightarrow> nat \<Rightarrow> nat \<Rightarrow> pstate option" where
  "palloc_release s i n = palloc_free_multiple (page_addr i) (of_nat n) s"

lemma palloc_acquire_cases:
  assumes ok: "palloc_ok s"
  shows "palloc_acquire s (user, zero, n) = Some (None, s) \<or>
    (\<exists>i s'. palloc_acquire s (user, zero, n) = Some (Some i, s'))"
proof (cases "n = 0")
  case False
  let ?f = "(if user then PAL_USER else 0) OR (if zero then PAL_ZERO else 0)"
  have "?f AND PAL_ASSERT = 0"
    by (simp add: PAL_USER_def PAL_ZERO_def PAL_ASSERT_def)
  with ok False show ?thesis
  proof (cases rule: palloc_get_cases [of s n ?f])
    case full
    with \<open>?f AND PAL_ASSERT = 0\<close> show ?thesis
      by (simp add: palloc_acquire_def)
  next
    case (pages a b i)
    from pages(1,8) show ?thesis
      by (simp add: palloc_acquire_def)
  qed
qed (simp add: palloc_acquire_def palloc_get_multiple_def)

lemma palloc_acquire_total: "palloc_ok s \<Longrightarrow> palloc_acquire s (user, zero, n) \<noteq> None"
  using palloc_acquire_cases [of s user zero n] by auto

lemma palloc_acquire_refused: "palloc_ok s \<Longrightarrow> palloc_acquire s (user, zero, n) = Some (None, s') \<Longrightarrow> s' = s"
  using palloc_acquire_cases [of s user zero n] by auto

interpretation page_slots: slot_allocator "\<lambda>(user, zero, n). unat n" palloc_acquire palloc_release palloc_ok pages_used pages_inside
proof
  fix s r
  assume ok: "palloc_ok s"
  show "palloc_acquire s r \<noteq> None"
    by (cases r) (simp add: palloc_acquire_total [OF ok])
next
  fix s r s'
  assume ok: "palloc_ok s" and none: "palloc_acquire s r = Some (None, s')"
  then show "s' = s"
    by (cases r) (simp add: palloc_acquire_refused)
next
  fix s r i s'
  assume ok: "palloc_ok s" and get: "palloc_acquire s r = Some (Some i, s')"
  obtain user zero n where r: "r = (user, zero, n)"
    by (cases r)
  let ?f = "(if user then PAL_USER else 0) OR (if zero then PAL_ZERO else 0)" and ?p = "get_pool user s"
  have f: "(?f AND PAL_USER \<noteq> 0) = user"
    by (simp add: PAL_USER_def PAL_ZERO_def)
  have n0: "n \<noteq> 0"
    using get r by (auto simp: palloc_acquire_def palloc_get_multiple_def Let_def split: if_splits)
  from ok n0 show "palloc_ok s' \<and> pages_inside s' = pages_inside s \<and> pages_inside s i ((\<lambda>(user, zero, n). unat n) r) \<and>
      slots (i, (\<lambda>(user, zero, n). unat n) r) \<inter> pages_used s = {} \<and>
      pages_used s' = pages_used s \<union> slots (i, (\<lambda>(user, zero, n). unat n) r)"
  proof (cases rule: palloc_get_cases [of s n ?f])
    case full
    then show ?thesis
      using get r by (auto simp: palloc_acquire_def split: if_splits)
  next
    case (pages a b k)
    note pg = pages [unfolded f]
    have i: "i = first_page ?p + k"
      using get r pg by (auto simp: palloc_acquire_def unat_pg_no)
    have s': "palloc_ok s' = palloc_ok (set_map user b s)" "pages_inside s' = pages_inside (set_map user b s)"
      "pages_used s' = pages_used (set_map user b s)"
      using get r pg by (auto simp: palloc_acquire_def)
    have ins: "in_pool ?p i (unat n)"
      using pg(5) n0 by (simp add: in_pool_def i unat_gt_0)
    have "slots (i, unat n) \<inter> pages_used s = {}"
      using pool_get_fresh [OF ok] ins pg(6) unfolding i by blast
    moreover have "pages_used s' = pages_used s \<union> slots (i, unat n)"
      unfolding s' i using pg(7) by (rule pages_used_grow)
    moreover have "pages_inside s i (unat n)"
      using ins by (cases user) (auto simp: pages_inside_def get_pool_def)
    ultimately show ?thesis
      using palloc_ok_set_map [OF ok pg(2,3)] s' r by simp
  qed
next
  fix s i n
  assume ok: "palloc_ok s" and ins: "pages_inside s i n" and sub: "slots (i, n) \<subseteq> pages_used s"
  obtain user where u: "in_pool (get_pool user s) i n"
    using ins by (cases "in_pool (kernel_pool s) i n") (auto simp: pages_inside_def get_pool_def intro: that [of False] that [of True])
  let ?p = "get_pool user s"
  obtain b where b: "palloc_free_multiple (page_addr i) (of_nat n) s
        = Some ((set_map user b s)\<lparr>ram := ram_fill (ram s) (page_addr i) 0xcc (4096 * n)\<rparr>)"
    "bm_invar b" "bit_cnt b = bit_cnt (used_map ?p)" "bm_used b = bm_used (used_map ?p) - slots (i - first_page ?p, n)"
    using palloc_free_spec [OF ok u sub] by blast
  have "inj_on (\<lambda>j. first_page ?p + j) X" for X
    by (simp add: inj_on_def)
  then have "(\<lambda>j. first_page ?p + j) ` bm_used b = pool_used ?p - slots (i, n)"
    unfolding b(4) pool_used_def using u
    by (subst image_set_diff) (auto simp del: slots.simps simp add: shift_slots in_pool_def)
  then have "pages_used (set_map user b s) = pages_used s - slots (i, n)"
    unfolding pages_used_set_map pages_used_pools [of s user] using other_pool_disjoint [OF ok u] by blast
  then show "\<exists>s'. palloc_release s i n = Some s' \<and> palloc_ok s' \<and> pages_inside s' = pages_inside s \<and>
      pages_used s' = pages_used s - slots (i, n)"
    using palloc_ok_set_map [OF ok b(2,3)] by (simp add: palloc_release_def b(1))
qed

section \<open>Initialisation\<close>

lemma unat_buf_size:
  assumes "unat n < 2 ^ 20"
  shows "unat (bitmap_buf_size n) = 8 + 4 * ((unat n + 31) div 32)"
proof -
  have e: "unat (elem_cnt n) = (unat n + 31) div 32"
    using assms by (intro unat_elem_cnt) simp
  have b: "(unat n + 31) div 32 < 2 ^ 16"
    using assms by (simp add: div_less_iff_less_mult)
  then have "unat (byte_cnt n) = 4 * ((unat n + 31) div 32)"
    unfolding byte_cnt_def by (subst unat_mult_small) (simp_all add: e)
  then show ?thesis
    unfolding bitmap_buf_size_def using b by (subst unat_add_small) (simp_all add: SIZEOF_BITMAP_def)
qed

lemma unat_numeral_32_error: "\<not> unat (0xffffffff :: u32) < 2 ^ 20"
  by simp

lemma init_pool_spec:
  assumes "1 \<le> unat cnt" and "unat cnt < 2 ^ 20" and "4096 dvd unat base" and "0 < unat base"
    and "unat base + 4096 * unat cnt < 2 ^ 32"
  obtains p k where "init_pool m base cnt = Some p" and "pool_ok p" and "pool_used p = {}" and "1 \<le> k"
    and "first_page p = unat base div 4096 + k" and "pool_size p + k = unat cnt"
proof -
  define k where "k = (8 + 4 * ((unat cnt + 31) div 32) + 4095) div 4096"
  have "unat (DIV_ROUND_UP (bitmap_buf_size cnt) PGSIZE) = k"
    using assms(2) by (subst unat_DIV_ROUND_UP) (simp_all add: unat_buf_size page_consts k_def)
  moreover define bp where "bp = DIV_ROUND_UP (bitmap_buf_size cnt) PGSIZE"
  ultimately have bp: "unat bp = k"
    by simp
  have k: "1 \<le> k" "k \<le> unat cnt"
  proof -
    show "1 \<le> k"
      unfolding k_def by simp
    have "8 + 4 * ((unat cnt + 31) div 32) + 4095 < 4096 * (unat cnt + 1)"
      using assms(1) by simp
    then show "k \<le> unat cnt"
      unfolding k_def by (simp add: div_less_iff_less_mult less_Suc_eq_le [symmetric])
  qed
  let ?n = "cnt - bp"
  have n: "unat ?n = unat cnt - k"
    using k(2) bp by (subst unat_sub) (simp_all add: word_le_nat_alt)
  have sz: "unat (bp * PGSIZE) = k * 4096"
    using k(2) assms(2) bp by (subst unat_mult_small) (simp_all add: page_consts)
  have "8 + 4 * ((unat cnt - k + 31) div 32) \<le> k * 4096"
  proof -
    have "(unat cnt - k + 31) div 32 \<le> (unat cnt + 31) div 32"
      by (rule div_le_mono) simp
    moreover have "x \<le> (x + 4095) div 4096 * 4096" for x :: nat
      using div_mult_mod_eq [of "x + 4095" 4096] mod_less_divisor [of 4096 "x + 4095"] by linarith
    moreover from calculation(1) have "8 + 4 * ((unat cnt - k + 31) div 32) \<le> 8 + 4 * ((unat cnt + 31) div 32)"
      by simp
    ultimately show ?thesis
      unfolding k_def by (rule_tac le_trans)
  qed
  then have buf: "bitmap_buf_size ?n \<le> bp * PGSIZE"
    unfolding word_le_nat_alt sz using assms(2) by (subst unat_buf_size) (simp_all add: n)
  let ?block = "map (\<lambda>i. read32 m (base + SIZEOF_BITMAP + 4 * of_nat i)) [0..<unat (elem_cnt ?n)]"
  have "bm_wf \<lparr>bit_cnt = ?n, bits = ?block\<rparr>"
    using assms(2) n by (simp add: bm_wf_def unat_elem_cnt)
  then obtain b where b: "bitmap_set_all \<lparr>bit_cnt = ?n, bits = ?block\<rparr> False = Some b" "bm_wf b" "bit_cnt b = ?n"
    "bm_abs b = replicate (unat ?n) False"
    by (rule bitmap_set_all_spec) simp
  let ?p = "\<lparr>used_map = b, pbase = base + bp * PGSIZE\<rparr>"
  have base: "unat (base + bp * PGSIZE) = unat base + k * 4096"
    using assms(5) k(2) sz by (subst unat_add_small) simp_all
  show thesis
  proof
    show "init_pool m base cnt = Some ?p"
      using b(1) buf k(2) bp by (simp add: init_pool_def bp_def [symmetric] Let_def bitmap_create_in_buf_def
          kernel_simps word_less_nat_alt)
    show "first_page ?p = unat base div 4096 + k"
      unfolding first_page_def by (simp add: base)
    show "pool_size ?p + k = unat cnt"
      using k(2) by (simp add: pool_size_def b(3) n)
    have "\<not> bm_bit b x" if "x < unat ?n" for x
      using that b(3) arg_cong [OF b(4), of "\<lambda>xs. xs ! x"] by simp
    then show "pool_used ?p = {}"
      by (simp add: pool_used_def bm_used_def b(3))
    have "unat ?n < 2 ^ 20"
      using n assms(2) by simp
    moreover have "BITMAP_ERROR = 0xffffffff"
      by (simp add: BITMAP_ERROR_def)
    ultimately have "?n \<noteq> BITMAP_ERROR"
      by (metis unat_numeral_32_error)
    then have "bm_invar b"
      using b(2,3) by (simp add: bm_invar_def)
    moreover have "unat base + k * 4096 + 4096 * (unat cnt - k) \<le> 2 ^ 32"
      using assms(5) k(2) by (simp add: diff_mult_distrib2)
    ultimately show "pool_ok ?p"
      using assms(3,4) by (simp add: pool_ok_def pool_size_def base b(3) n)
  qed (rule k)
qed

lemma palloc_init_spec:
  assumes "unat kernel_end + 4095 < 2 ^ 32" and "PHYS_BASE \<le> kernel_end" and "unat ram_pages < 2 ^ 18"
    and "unat kernel_end + 4095 + 2 * 4096 \<le> 0xc0000000 + 4096 * unat ram_pages" and "1 \<le> unat user_page_limit"
  shows "\<exists>s. palloc_init kernel_end ram_pages user_page_limit m = Some s \<and> palloc_ok s \<and> pages_used s = {} \<and>
    ram s = m \<and> unat kernel_end \<le> 4096 * first_page (kernel_pool s) \<and>
    first_page (user_pool s) + pool_size (user_pool s) \<le> 0xc0000 + unat ram_pages \<and>
    pool_size (user_pool s) < unat user_page_limit"
proof -
  define fs where "fs = pg_round_up kernel_end"
  define F where "F = (unat kernel_end + 4095) div 4096"
  have fs: "unat fs = F * 4096"
    using assms(1) by (simp add: fs_def F_def unat_pg_round_up)
  define fe where "fe = ram_pages * PGSIZE + PHYS_BASE"
  have rp: "unat (ram_pages * PGSIZE) = unat ram_pages * 4096"
    using assms(3) by (subst unat_mult_small) (simp_all add: page_consts)
  have ptov: "ptov (ram_pages * PGSIZE) = Some fe"
    using assms(3) rp by (simp add: ptov_def fe_def kernel_simps word_less_nat_alt PHYS_BASE_def)
  have fe: "unat fe = (0xc0000 + unat ram_pages) * 4096"
    unfolding fe_def using assms(3) rp by (subst unat_add_small) (simp_all add: PHYS_BASE_def)
  define fp where "fp = (fe - fs) div PGSIZE"
  have F: "0xc0000 \<le> F" "F + 2 \<le> 0xc0000 + unat ram_pages" "unat kernel_end \<le> 4096 * F"
    using assms(2,4) by (simp_all add: F_def word_le_nat_alt PHYS_BASE_def)
  have "unat (fe - fs) = (0xc0000 + unat ram_pages - F) * 4096"
    using F(2) fs fe by (subst unat_sub) (simp_all add: word_le_nat_alt diff_mult_distrib)
  then have fp: "unat fp = 0xc0000 + unat ram_pages - F"
    by (simp add: fp_def unat_div page_consts)
  define up where "up = (if user_page_limit < fp div 2 then user_page_limit else fp div 2)"
  have up: "1 \<le> unat up" "unat up \<le> unat fp div 2" "unat up \<le> unat user_page_limit"
    using F(2) fp assms(5) by (auto simp: up_def word_less_nat_alt unat_div)
  define kp where "kp = fp - up"
  have kp: "unat kp = unat fp - unat up"
    unfolding kp_def using up(2) by (subst unat_sub) (simp_all add: word_le_nat_alt)
  have sum: "unat kp + unat up = unat fp" "1 \<le> unat kp" "unat fp < 2 ^ 18"
    using kp up fp F assms(3) by simp_all
  have "unat (kp * PGSIZE) = unat kp * 4096"
    using sum by (subst unat_mult_small) (simp_all add: page_consts)
  then have ub: "unat (fs + kp * PGSIZE) = (F + unat kp) * 4096"
    using fs sum F fp assms(3) by (subst unat_add_small) simp_all
  have "unat fs + 4096 * unat kp < 2 ^ 32"
    using fs sum F fp assms(3) by simp
  with sum fs F obtain p k where p: "init_pool m fs kp = Some p" "pool_ok p" "pool_used p = {}" "1 \<le> k"
    "first_page p = unat fs div 4096 + k" "pool_size p + k = unat kp"
    using init_pool_spec [of kp fs m] by auto
  have "unat (fs + kp * PGSIZE) + 4096 * unat up < 2 ^ 32"
    using ub sum F fp assms(3) by simp
  with sum up ub F obtain q l where q: "init_pool m (fs + kp * PGSIZE) up = Some q" "pool_ok q" "pool_used q = {}" "1 \<le> l"
    "first_page q = unat (fs + kp * PGSIZE) div 4096 + l" "pool_size q + l = unat up"
    using init_pool_spec [of up "fs + kp * PGSIZE" m] by auto
  let ?s = "\<lparr>kernel_pool = p, user_pool = q, ram = m\<rparr>"
  have "palloc_init kernel_end ram_pages user_page_limit m = Some ?s"
    unfolding palloc_init_def fs_def [symmetric] ptov using p(1) q(1)
    by (simp only: Let_def fp_def [symmetric] up_def [symmetric] kp_def [symmetric] Option.bind.simps)
  moreover have "palloc_ok ?s" "pages_used ?s = {}"
    using p q fs ub by (simp_all add: palloc_ok_def pages_used_def)
  ultimately show ?thesis
    using p(4,5) q(4-6) fs ub F(3) fp sum(1) F(2) up(3) by (intro exI [of _ ?s]) simp
qed

section \<open>Properties\<close>

text \<open>C35: when the kernel ends below the end of memory with at least two pages to spare, memory is
  smaller than 1 GB and the user pool may have a page, \<^verbatim>\<open>palloc_init\<close> succeeds: both pools are
  empty and well formed, lie apart from each other, behind the kernel and inside memory, and the user
  pool respects its limit.\<close>
theorem palloc_init_pools:
  assumes "unat kernel_end + 4095 < 2 ^ 32" and "PHYS_BASE \<le> kernel_end" and "unat ram_pages < 2 ^ 18"
    and "unat kernel_end + 4095 + 2 * 4096 \<le> 0xc0000000 + 4096 * unat ram_pages" and "1 \<le> unat user_page_limit"
  shows "\<exists>s. palloc_init kernel_end ram_pages user_page_limit m = Some s \<and> palloc_ok s \<and> pages_used s = {} \<and>
    ram s = m \<and> unat kernel_end \<le> 4096 * first_page (kernel_pool s) \<and>
    first_page (user_pool s) + pool_size (user_pool s) \<le> 0xc0000 + unat ram_pages \<and>
    pool_size (user_pool s) < unat user_page_limit"
  using assms by (rule palloc_init_spec)

theorem palloc_init_pools_witness:
  "\<exists>s. palloc_init 0xc0020000 1024 0xffffffff (\<lambda>_. 0) = Some s \<and> palloc_ok s \<and> pages_used s = {}"
  using palloc_init_pools [of "0xc0020000" 1024 "0xffffffff" "\<lambda>_. 0"] by (auto simp: PHYS_BASE_def)

text \<open>C33: the page allocator keeps its clients apart.  From any well-formed state, any sequence of
  requests for pages of either pool, zeroed or not, and of releases of groups handed out before
  runs without a panic, and the groups handed out and not yet released are pairwise disjoint,
  lie inside one pool each and are marked used.\<close>
theorem palloc_clients_disjoint:
  assumes "palloc_ok s"
  shows "\<exists>s' live. alloc_run (\<lambda>(user, zero, n). unat n) palloc_acquire palloc_release ops s [] = Some (s', live) \<and>
    palloc_ok s' \<and> disjoint_slots live \<and> (\<forall>(i, n) \<in> set live. pages_inside s' i n \<and> slots (i, n) \<subseteq> pages_used s')"
proof -
  have "page_slots.holds s []"
    using assms by (simp add: page_slots.holds_def)
  from page_slots.client_run [OF this, of ops] show ?thesis
    unfolding page_slots.holds_def .
qed

definition small_pools :: pstate where
  "small_pools = \<lparr>kernel_pool = \<lparr>used_map = \<lparr>bit_cnt = 4, bits = [0]\<rparr>, pbase = 0xc0100000\<rparr>,
     user_pool = \<lparr>used_map = \<lparr>bit_cnt = 6, bits = [0]\<rparr>, pbase = 0xc0105000\<rparr>, ram = (\<lambda>_. 0)\<rparr>"

lemma small_pools_ok: "palloc_ok small_pools"
  by (simp add: small_pools_def palloc_ok_def pool_ok_def pool_size_def first_page_def bm_invar_def bm_wf_def BITMAP_ERROR_def)

theorem palloc_clients_disjoint_witness:
  "\<exists>s' live. alloc_run (\<lambda>(user, zero, n). unat n) palloc_acquire palloc_release
      [Acquire (True, True, 2), Acquire (False, False, 1), Release 0xc0105 2] small_pools [] = Some (s', live) \<and>
    palloc_ok s' \<and> disjoint_slots live"
  using palloc_clients_disjoint [OF small_pools_ok, of "[Acquire (True, True, 2), Acquire (False, False, 1), Release 0xc0105 2]"]
  by blast

text \<open>C34: what one call of \<^verbatim>\<open>palloc_get_multiple\<close> for \<^term>\<open>n\<close> pages returns: either a null pointer and the
  unchanged state (a panic under \<^verbatim>\<open>PAL_ASSERT\<close>), or the page-aligned address of \<^term>\<open>n\<close> consecutive pages
  of the requested pool, none of them in use before and all in use afterwards; under \<^verbatim>\<open>PAL_ZERO\<close>
  their bytes are zero, and no other byte of memory changes.\<close>
theorem palloc_get_multiple_fresh:
  assumes "palloc_ok s" and "n \<noteq> 0"
  shows "palloc_get_multiple flags n s = (if flags AND PAL_ASSERT \<noteq> 0 then None else Some (0, s)) \<or>
    (\<exists>a s' i. palloc_get_multiple flags n s = Some (a, s') \<and> unat a = 4096 * i \<and> pg_ofs a = 0 \<and>
       in_pool (get_pool (flags AND PAL_USER \<noteq> 0) s) i (unat n) \<and> palloc_ok s' \<and>
       slots (i, unat n) \<inter> pages_used s = {} \<and> pages_used s' = pages_used s \<union> slots (i, unat n) \<and>
       (\<forall>x. ram s' x = (if flags AND PAL_ZERO \<noteq> 0 \<and> i \<le> unat (pg_no x) \<and> unat (pg_no x) < i + unat n then 0 else ram s x)))"
  using assms by (rule palloc_get_fresh)

theorem palloc_get_multiple_fresh_witness:
  "\<exists>a s' i. palloc_get_multiple 6 2 small_pools = Some (a, s') \<and> unat a = 4096 * i \<and> palloc_ok s' \<and>
     pages_used s' = pages_used small_pools \<union> slots (i, unat (2 :: size_t))"
proof -
  have "map_option fst (palloc_get_multiple 6 2 small_pools) = Some 0xc0105000"
    by code_simp
  then show ?thesis
    using palloc_get_multiple_fresh [OF small_pools_ok, of 2 6] by (auto simp del: slots.simps split: if_splits)
qed

end
