(* ===== verification/Pagedir.thy ===== *)
theory Pagedir
  imports Palloc
begin

text \<open>
  \<^verbatim>\<open>userprog/pagedir.c\<close>: two-level page tables in kernel memory.  The state is the page allocator
  with the bytes of memory, the page directory base register, the address of the initial page
  directory and the number of pages of memory.  The translation lookaside buffer is not
  modelled; that it is emptied shows as a write of the register.
\<close>

section \<open>State and operations\<close>

record vstate =
  pal :: pstate
  cr3 :: u32
  base_page_dir :: u32
  ram_pages :: u32

definition rd :: "vstate \<Rightarrow> u32 \<Rightarrow> u32" where
  "rd v a = read32 (ram (pal v)) a"

definition wr :: "u32 \<Rightarrow> u32 \<Rightarrow> vstate \<Rightarrow> vstate" where
  "wr a x v = v\<lparr>pal := (pal v)\<lparr>ram := write32 (ram (pal v)) a x\<rparr>\<rparr>"

definition get_page :: "u32 \<Rightarrow> vstate \<Rightarrow> (u32 \<times> vstate) kernel" where
  "get_page flags v = map_option (\<lambda>(p, s). (p, v\<lparr>pal := s\<rparr>)) (palloc_get_page flags (pal v))"

definition free_page :: "u32 \<Rightarrow> vstate \<Rightarrow> vstate kernel" where
  "free_page p v = map_option (\<lambda>s. v\<lparr>pal := s\<rparr>) (palloc_free_page p (pal v))"

definition pagedir_create :: "vstate \<Rightarrow> (u32 \<times> vstate) kernel" where
  "pagedir_create v = do {
     (pd, v) \<leftarrow> get_page 0 v;
     Some (pd, if pd \<noteq> 0
       then v\<lparr>pal := (pal v)\<lparr>ram := ram_copy (ram (pal v)) pd (base_page_dir v) (unat PGSIZE)\<rparr>\<rparr> else v)
   }"

fun destroy_pt :: "u32 \<Rightarrow> nat \<Rightarrow> vstate \<Rightarrow> vstate kernel" where
  "destroy_pt pte 0 v = Some v"
| "destroy_pt pte (Suc n) v = do {
     v \<leftarrow> (if rd v pte AND PTE_P \<noteq> 0 then do { p \<leftarrow> pte_get_page (rd v pte); free_page p v } else Some v);
     destroy_pt (pte + 4) n v
   }"

fun destroy_pd :: "u32 \<Rightarrow> nat \<Rightarrow> vstate \<Rightarrow> vstate kernel" where
  "destroy_pd pde 0 v = Some v"
| "destroy_pd pde (Suc n) v = do {
     v \<leftarrow> (if rd v pde AND PTE_P \<noteq> 0
          then do { pt \<leftarrow> pde_get_pt (rd v pde); v \<leftarrow> destroy_pt pt (unat (PGSIZE div 4)) v; free_page pt v }
          else Some v);
     destroy_pd (pde + 4) n v
   }"

definition pagedir_destroy :: "u32 \<Rightarrow> vstate \<Rightarrow> vstate kernel" where
  "pagedir_destroy pd v =
     (if pd = 0 then Some v
      else do {
        ASSERT (pd \<noteq> base_page_dir v);
        v \<leftarrow> destroy_pd pd (unat (pd_no PHYS_BASE)) v;
        free_page pd v
      })"

definition lookup_page :: "u32 \<Rightarrow> u32 \<Rightarrow> bool \<Rightarrow> vstate \<Rightarrow> (u32 \<times> vstate) kernel" where
  "lookup_page pd vaddr create v = do {
     ASSERT (pd \<noteq> 0);
     ASSERT (\<not> create \<or> is_user_vaddr vaddr);
     let pde = pd + 4 * pd_no vaddr;
     (missing, v) \<leftarrow>
       (if rd v pde = 0
        then if create
          then do {
            (pt, v) \<leftarrow> get_page PAL_ZERO v;
            if pt = 0 then Some (True, v)
            else do { e \<leftarrow> pde_create pt; Some (False, wr pde e v) }
          }
          else Some (True, v)
        else Some (False, v));
     if missing then Some (0, v)
     else do { pt \<leftarrow> pde_get_pt (rd v pde); Some (pt + 4 * pt_no vaddr, v) }
   }"

definition pagedir_set_page :: "u32 \<Rightarrow> u32 \<Rightarrow> u32 \<Rightarrow> bool \<Rightarrow> vstate \<Rightarrow> (bool \<times> vstate) kernel" where
  "pagedir_set_page pd upage kpage writable v = do {
     ASSERT (pg_ofs upage = 0);
     ASSERT (pg_ofs kpage = 0);
     ASSERT (is_user_vaddr upage);
     p \<leftarrow> vtop kpage;
     ASSERT (drop_bit PTSHIFT p < ram_pages v);
     ASSERT (pd \<noteq> base_page_dir v);
     (pte, v) \<leftarrow> lookup_page pd upage True v;
     if pte \<noteq> 0
     then do {
       ASSERT (rd v pte AND PTE_P = 0);
       e \<leftarrow> pte_create_user kpage writable;
       Some (True, wr pte e v)
     }
     else Some (False, v)
   }"

definition pagedir_get_page :: "u32 \<Rightarrow> u32 \<Rightarrow> vstate \<Rightarrow> u32 kernel" where
  "pagedir_get_page pd uaddr v = do {
     ASSERT (is_user_vaddr uaddr);
     (pte, v) \<leftarrow> lookup_page pd uaddr False v;
     if pte \<noteq> 0 \<and> rd v pte AND PTE_P \<noteq> 0
     then do { p \<leftarrow> pte_get_page (rd v pte); Some (p + pg_ofs uaddr) }
     else Some 0
   }"

definition pagedir_activate :: "u32 \<Rightarrow> vstate \<Rightarrow> vstate kernel" where
  "pagedir_activate pd v = do {
     let pd = (if pd = 0 then base_page_dir v else pd);
     p \<leftarrow> vtop pd;
     Some (v\<lparr>cr3 := p\<rparr>)
   }"

definition active_pd :: "vstate \<Rightarrow> u32 kernel" where
  "active_pd v = ptov (cr3 v)"

definition invalidate_pagedir :: "u32 \<Rightarrow> vstate \<Rightarrow> vstate kernel" where
  "invalidate_pagedir pd v = do { a \<leftarrow> active_pd v; if a = pd then pagedir_activate pd v else Some v }"

definition pagedir_clear_page :: "u32 \<Rightarrow> u32 \<Rightarrow> vstate \<Rightarrow> vstate kernel" where
  "pagedir_clear_page pd upage v = do {
     ASSERT (pg_ofs upage = 0);
     ASSERT (is_user_vaddr upage);
     (pte, v) \<leftarrow> lookup_page pd upage False v;
     if pte \<noteq> 0 \<and> rd v pte AND PTE_P \<noteq> 0
     then invalidate_pagedir pd (wr pte (rd v pte AND NOT PTE_P) v)
     else Some v
   }"

definition pte_test :: "u32 \<Rightarrow> u32 \<Rightarrow> u32 \<Rightarrow> vstate \<Rightarrow> bool kernel" where
  "pte_test flag pd vpage v = do { (pte, v) \<leftarrow> lookup_page pd vpage False v; Some (pte \<noteq> 0 \<and> rd v pte AND flag \<noteq> 0) }"

definition pte_put :: "u32 \<Rightarrow> u32 \<Rightarrow> u32 \<Rightarrow> bool \<Rightarrow> vstate \<Rightarrow> vstate kernel" where
  "pte_put flag pd vpage b v = do {
     (pte, v) \<leftarrow> lookup_page pd vpage False v;
     if pte = 0 then Some v
     else if b then Some (wr pte (rd v pte OR flag) v)
     else invalidate_pagedir pd (wr pte (rd v pte AND NOT flag) v)
   }"

definition pagedir_is_dirty :: "u32 \<Rightarrow> u32 \<Rightarrow> vstate \<Rightarrow> bool kernel" where
  "pagedir_is_dirty pd vpage v = pte_test PTE_D pd vpage v"

definition pagedir_set_dirty :: "u32 \<Rightarrow> u32 \<Rightarrow> bool \<Rightarrow> vstate \<Rightarrow> vstate kernel" where
  "pagedir_set_dirty pd vpage dirty v = pte_put PTE_D pd vpage dirty v"

definition pagedir_is_accessed :: "u32 \<Rightarrow> u32 \<Rightarrow> vstate \<Rightarrow> bool kernel" where
  "pagedir_is_accessed pd vpage v = pte_test PTE_A pd vpage v"

definition pagedir_set_accessed :: "u32 \<Rightarrow> u32 \<Rightarrow> bool \<Rightarrow> vstate \<Rightarrow> vstate kernel" where
  "pagedir_set_accessed pd vpage accessed v = pte_put PTE_A pd vpage accessed v"

section \<open>Entries\<close>

lemma entry_addr:
  assumes "x AND PGMASK = 0" and "f AND PGMASK = f"
  shows "(x OR f) AND PTE_ADDR = x"
proof -
  have x: "\<not> bit x n" if "n < 12" for n
    using arg_cong [OF assms(1), of "\<lambda>w. bit w n"] that unfolding PGMASK_mask by (simp add: bit_simps)
  have f: "n < 12" if "bit f n" for n
    using arg_cong [OF assms(2), of "\<lambda>w. bit w n"] that unfolding PGMASK_mask by (auto simp: bit_simps)
  have a: "PTE_ADDR = NOT PGMASK"
    by (simp add: PTE_ADDR_def page_consts)
  show ?thesis
    unfolding a PGMASK_mask by (rule bit_word_eqI) (auto simp: bit_simps dest: f x)
qed

lemma entry_present: "(x OR f) AND PTE_P \<noteq> 0" if "bit f 0" for x f :: u32
proof -
  have "bit ((x OR f) AND PTE_P) 0"
    using that by (simp add: PTE_P_def bit_simps)
  then show ?thesis
    by auto
qed

lemma vtop_page:
  assumes "PHYS_BASE \<le> p" and "pg_ofs p = 0"
  shows "(p - PHYS_BASE) AND PGMASK = 0" and "ptov (p - PHYS_BASE) = Some p"
proof -
  have u: "unat (p - PHYS_BASE) = unat p - 0xc0000000"
    using assms(1) by (subst unat_sub) (simp_all add: PHYS_BASE_def)
  have "4096 dvd unat p"
    using assms(2) by (simp add: pg_ofs_zero)
  then have "4096 dvd unat (p - PHYS_BASE)"
    unfolding u by (intro dvd_diff_nat) simp_all
  then show "(p - PHYS_BASE) AND PGMASK = 0"
    using pg_ofs_zero [of "p - PHYS_BASE"] by (simp add: pg_ofs_def)
  have "unat (p - PHYS_BASE) < 0x40000000"
    using u unat_bound32 [of p] by simp
  then show "ptov (p - PHYS_BASE) = Some p"
    by (simp add: ptov_def kernel_simps word_less_nat_alt PHYS_BASE_def)
qed

lemma low_flags: "f AND PGMASK = f" if "f < 4096" for f :: u32
proof -
  have "unat f < 4096"
    using that by (simp add: word_less_nat_alt)
  then show ?thesis
    using unat_pg_ofs [of f] by (simp add: pg_ofs_def word_unat_eq_iff)
qed

lemma pde_roundtrip:
  assumes "PHYS_BASE \<le> pt" and "pg_ofs pt = 0"
  obtains e where "pde_create pt = Some e" and "pde_get_pt e = Some pt" and "e \<noteq> 0"
proof
  let ?e = "(pt - PHYS_BASE) OR PTE_U OR PTE_P OR PTE_W"
  have e: "?e = (pt - PHYS_BASE) OR 7"
    by (simp add: PTE_U_def PTE_P_def PTE_W_def or.assoc)
  show "pde_create pt = Some ?e"
    using assms by (simp add: pde_create_def vtop_def is_kernel_vaddr_def kernel_simps)
  have p: "?e AND PTE_P \<noteq> 0"
    unfolding e by (rule entry_present) simp
  have "?e AND PTE_ADDR = pt - PHYS_BASE"
    unfolding e using vtop_page(1) [OF assms] by (rule entry_addr) (simp add: page_consts)
  then show "pde_get_pt ?e = Some pt"
    using p vtop_page(2) [OF assms] by (simp add: pde_get_pt_def kernel_simps)
  show "?e \<noteq> 0"
    using p by auto
qed

lemma pte_roundtrip:
  assumes "PHYS_BASE \<le> page" and "pg_ofs page = 0"
  obtains e where "pte_create_user page w = Some e" and "pte_get_page e = Some page" and "e AND PTE_P \<noteq> 0"
proof
  let ?e = "((page - PHYS_BASE) OR PTE_P OR (if w then PTE_W else 0)) OR PTE_U"
  have e: "?e = (page - PHYS_BASE) OR (if w then 7 else 5)"
    by (simp add: PTE_U_def PTE_P_def PTE_W_def or.assoc)
  show "pte_create_user page w = Some ?e"
    using assms by (simp add: pte_create_user_def pte_create_kernel_def vtop_def is_kernel_vaddr_def kernel_simps)
  show "?e AND PTE_P \<noteq> 0"
    unfolding e by (rule entry_present) simp
  have "?e AND PTE_ADDR = page - PHYS_BASE"
    unfolding e using vtop_page(1) [OF assms] by (rule entry_addr) (simp add: page_consts)
  then show "pte_get_page ?e = Some page"
    using vtop_page(2) [OF assms] by (simp add: pte_get_page_def)
qed

section \<open>Tables\<close>

lemma slot_facts:
  assumes "pg_ofs p = 0" and "unat k < 1024"
  shows "unat (p + 4 * k) = unat p + 4 * unat k" and "4 dvd unat (p + 4 * k)"
proof -
  have d: "4096 dvd unat p"
    using assms(1) by (simp add: pg_ofs_zero)
  then obtain q where q: "unat p = 4096 * q"
    by (auto elim: dvdE)
  have "q < 2 ^ 20"
    using q unat_bound32 [of p] by simp
  then have "unat p + 4 * unat k < 2 ^ 32"
    using q assms(2) by simp
  moreover have "unat (4 * k) = 4 * unat k"
    using assms(2) by (subst unat_mult_small) simp_all
  ultimately show u: "unat (p + 4 * k) = unat p + 4 * unat k"
    by (subst unat_add_small) simp_all
  show "4 dvd unat (p + 4 * k)"
    unfolding u q by simp
qed

lemma slot_bytes:
  assumes "pg_ofs p = 0" and "unat k < 1024" and "i < 4"
  shows "pg_no (p + 4 * k + of_nat i) = pg_no p"
proof -
  have "4096 dvd unat p"
    using assms(1) by (simp add: pg_ofs_zero)
  then obtain q where q: "unat p = 4096 * q"
    by (auto elim: dvdE)
  have q20: "q < 2 ^ 20"
    using q unat_bound32 [of p] by simp
  have "unat (of_nat i :: u32) = i"
    using assms(3) by (intro unat_of_nat_small) simp
  then have "unat (p + 4 * k + of_nat i) = 4096 * q + (4 * unat k + i)"
    using slot_facts(1) [OF assms(1,2)] q q20 assms(2,3) by (subst unat_add_small) simp_all
  then have "unat (pg_no (p + 4 * k + of_nat i)) = q"
    unfolding unat_pg_no using assms(2,3) by simp
  moreover have "unat (pg_no p) = q"
    unfolding unat_pg_no q by simp
  ultimately show ?thesis
    by (simp add: word_unat_eq_iff)
qed

lemma slot_inj:
  assumes "pg_ofs p = 0" and "pg_ofs q = 0" and "unat j < 1024" and "unat k < 1024"
  shows "p + 4 * j = q + 4 * k \<longleftrightarrow> p = q \<and> j = k"
proof
  assume eq: "p + 4 * j = q + 4 * k"
  have "pg_no p = pg_no (p + 4 * j)" "pg_no q = pg_no (q + 4 * k)"
    using slot_bytes [OF assms(1,3), of 0] slot_bytes [OF assms(2,4), of 0] by simp_all
  then have "pg_no p = pg_no q"
    unfolding eq by (simp only:)
  then have pq: "p = q"
    by (rule page_eqI) (simp add: assms(1,2))
  have "unat p + 4 * unat j = unat q + 4 * unat k"
    using arg_cong [OF eq, of unat] unfolding slot_facts(1) [OF assms(1,3)] slot_facts(1) [OF assms(2,4)] .
  then have "unat j = unat k"
    unfolding pq by linarith
  then show "p = q \<and> j = k"
    using pq by (simp add: word_unat_eq_iff)
qed simp

lemma read_slot_frame:
  assumes "pg_ofs p = 0" and "unat k < 1024" and "\<And>x. pg_no x = pg_no p \<Longrightarrow> m' x = m x"
  shows "read32 m' (p + 4 * k) = read32 m (p + 4 * k)"
proof -
  have "m' (p + 4 * k + of_nat i) = m (p + 4 * k + of_nat i)" if "i < 4" for i
    using slot_bytes [OF assms(1,2) that] by (rule assms(3))
  from this [of 0] this [of 1] this [of 2] this [of 3] show ?thesis
    by (simp add: read32_def)
qed

lemma rd_wr_slot:
  assumes "pg_ofs p = 0" and "pg_ofs q = 0" and "unat j < 1024" and "unat k < 1024"
  shows "rd (wr (p + 4 * j) x v) (q + 4 * k) = (if p = q \<and> j = k then x else rd v (q + 4 * k))"
  using slot_inj [OF assms] slot_facts(2) [OF assms(1,3)] slot_facts(2) [OF assms(2,4)]
  by (simp add: rd_def wr_def read32_write32)

lemma unat_pd_no: "unat (pd_no va) = unat va div 4194304"
  by (simp add: pd_no_def page_consts drop_bit_eq_div unat_div)

lemma unat_pt_no: "unat (pt_no va) = unat va div 4096 mod 1024"
proof -
  have m: "PTMASK = push_bit 12 (mask 10)"
    by (simp add: page_consts mask_eq_exp_minus_1 push_bit_eq_mult)
  have "pt_no va = take_bit 10 (drop_bit 12 va)"
    unfolding pt_no_def m page_consts(5) by (rule bit_word_eqI) (auto simp: bit_simps)
  then show ?thesis
    by (simp add: take_bit_eq_mod drop_bit_eq_div unat_div unat_mod)
qed

lemma table_index:
  "is_user_vaddr va \<Longrightarrow> unat (pd_no va) < 768" "unat (pt_no va) < 1024" "unat (pd_no va) < 1024"
  using unat_bound32 [of va]
  by (simp_all add: is_user_vaddr_def unat_pd_no unat_pt_no PHYS_BASE_def word_less_nat_alt div_less_iff_less_mult)

lemma same_page: "pg_no a = pg_no b \<longleftrightarrow> pd_no a = pd_no b \<and> pt_no a = pt_no b"
proof -
  have "x = y \<longleftrightarrow> x div 1024 = y div 1024 \<and> x mod 1024 = y mod 1024" for x y :: nat
    by (metis div_mult_mod_eq)
  from this [of "unat a div 4096" "unat b div 4096"] show ?thesis
    by (simp add: word_unat_eq_iff unat_pg_no unat_pd_no unat_pt_no div_mult2_eq [symmetric])
qed

section \<open>Well-formed page directories\<close>

definition is_table :: "vstate \<Rightarrow> u32 \<Rightarrow> bool" where
  "is_table v p \<longleftrightarrow> PHYS_BASE \<le> p \<and> pg_ofs p = 0 \<and> unat (pg_no p) \<in> pages_used (pal v)"

definition pt_of :: "vstate \<Rightarrow> u32 \<Rightarrow> u32 \<Rightarrow> u32 option" where
  "pt_of v pd k = (if rd v (pd + 4 * k) = 0 then None else pde_get_pt (rd v (pd + 4 * k)))"

text \<open>A page directory whose first \<open>K\<close> entries are in order: each is zero or leads to a page table of its own.  For a
  process these are the 768 entries of user space; the others belong to the kernel.\<close>
definition dir_ok :: "nat \<Rightarrow> vstate \<Rightarrow> u32 \<Rightarrow> bool" where
  "dir_ok K v pd \<longleftrightarrow> K \<le> 1024 \<and> palloc_ok (pal v) \<and> PHYS_BASE \<le> pbase (kernel_pool (pal v)) \<and> is_table v pd \<and>
     (\<forall>k. unat k < K \<longrightarrow> rd v (pd + 4 * k) = 0 \<or> (\<exists>pt. pt_of v pd k = Some pt \<and> is_table v pt \<and> pt \<noteq> pd)) \<and>
     (\<forall>j k pt. unat j < K \<and> unat k < K \<and> pt_of v pd j = Some pt \<and> pt_of v pd k = Some pt \<longrightarrow> j = k)"

abbreviation pd_ok :: "vstate \<Rightarrow> u32 \<Rightarrow> bool" where
  "pd_ok \<equiv> dir_ok 768"

lemma dir_okI:
  assumes "K \<le> 1024" and "palloc_ok (pal v)" and "PHYS_BASE \<le> pbase (kernel_pool (pal v))" and "is_table v pd"
    and "\<And>k. unat k < K \<Longrightarrow> rd v (pd + 4 * k) = 0 \<or> (\<exists>pt. pt_of v pd k = Some pt \<and> is_table v pt \<and> pt \<noteq> pd)"
    and "\<And>j k pt. unat j < K \<Longrightarrow> unat k < K \<Longrightarrow> pt_of v pd j = Some pt \<Longrightarrow> pt_of v pd k = Some pt \<Longrightarrow> j = k"
  shows "dir_ok K v pd"
  using assms unfolding dir_ok_def by blast

lemma dir_ok_inj:
  "dir_ok K v pd \<Longrightarrow> unat j < K \<Longrightarrow> unat k < K \<Longrightarrow> pt_of v pd j = Some pt \<Longrightarrow> pt_of v pd k = Some pt \<Longrightarrow> j = k"
  unfolding dir_ok_def by blast

lemma dir_ok_basic:
  "dir_ok K v pd \<Longrightarrow> palloc_ok (pal v)" "dir_ok K v pd \<Longrightarrow> PHYS_BASE \<le> pbase (kernel_pool (pal v))" "dir_ok K v pd \<Longrightarrow> is_table v pd" "dir_ok K v pd \<Longrightarrow> K \<le> 1024"
  unfolding dir_ok_def by blast+

lemma dir_okD:
  assumes "dir_ok K v pd" and "unat k < K"
  obtains (missing) "pt_of v pd k = None" and "rd v (pd + 4 * k) = 0"
  | (table) pt where "pt_of v pd k = Some pt" and "rd v (pd + 4 * k) \<noteq> 0" and "pde_get_pt (rd v (pd + 4 * k)) = Some pt"
      and "is_table v pt" and "pt \<noteq> pd"
proof (cases "rd v (pd + 4 * k) = 0")
  case True
  then show thesis
    by (intro missing) (simp_all add: pt_of_def)
next
  case False
  then obtain pt where "pt_of v pd k = Some pt" "is_table v pt" "pt \<noteq> pd"
    using assms unfolding dir_ok_def by blast
  with False show thesis
    by (intro table) (simp_all add: pt_of_def)
qed

lemma table_nonzero: "is_table v p \<Longrightarrow> unat k < 1024 \<Longrightarrow> p + 4 * k \<noteq> 0"
  using slot_facts(1) [of p k] by (auto simp: is_table_def PHYS_BASE_def word_le_nat_alt)

lemma lookup_page_read:
  assumes "pd_ok v pd" and "is_user_vaddr va"
  shows "lookup_page pd va False v = Some (case pt_of v pd (pd_no va) of None \<Rightarrow> 0 | Some pt \<Rightarrow> pt + 4 * pt_no va, v)"
proof -
  have "pd \<noteq> 0"
    using assms(1) by (auto simp: dir_ok_def is_table_def PHYS_BASE_def)
  from assms(1) table_index(1) [OF assms(2)] show ?thesis
    by (cases rule: dir_okD) (use \<open>pd \<noteq> 0\<close> in \<open>simp_all add: lookup_page_def Let_def kernel_simps\<close>)
qed

definition entry_of :: "vstate \<Rightarrow> u32 \<Rightarrow> u32 \<Rightarrow> u32" where
  "entry_of v pd a = (case pt_of v pd (pd_no a) of None \<Rightarrow> 0 | Some pt \<Rightarrow> rd v (pt + 4 * pt_no a))"

definition mapped :: "vstate \<Rightarrow> u32 \<Rightarrow> u32 \<Rightarrow> bool" where
  "mapped v pd a \<longleftrightarrow> entry_of v pd a AND PTE_P \<noteq> 0"

lemma pagedir_get_page_eq:
  assumes "pd_ok v pd" and "is_user_vaddr a"
  shows "pagedir_get_page pd a v =
    (if mapped v pd a then map_option (\<lambda>p. p + pg_ofs a) (pte_get_page (entry_of v pd a)) else Some 0)"
proof -
  have nz: "pt_of v pd (pd_no a) = Some pt \<Longrightarrow> pt + 4 * pt_no a \<noteq> 0" for pt
    using assms(1) table_index(1) [OF assms(2)]
    by (cases rule: dir_okD) (simp_all add: table_nonzero table_index(2))
  show ?thesis
    using assms(2) nz
    by (auto simp: pagedir_get_page_def lookup_page_read [OF assms] mapped_def entry_of_def kernel_simps
        map_conv_bind_option comp_def split: option.split)
qed

section \<open>Writing an entry\<close>

lemma wr_simps [simp]:
  "palloc_ok (pal (wr a x v)) = palloc_ok (pal v)" "kernel_pool (pal (wr a x v)) = kernel_pool (pal v)"
  "is_table (wr a x v) = is_table v" "base_page_dir (wr a x v) = base_page_dir v" "ram_pages (wr a x v) = ram_pages v"
  "cr3 (wr a x v) = cr3 v" "pages_used (pal (wr a x v)) = pages_used (pal v)"
  by (auto simp: wr_def is_table_def intro!: ext)

lemma pt_of_table:
  assumes "dir_ok K v pd" and "unat k < K" and "pt_of v pd k = Some pt"
  shows "is_table v pt" and "pt \<noteq> pd" and "pg_ofs pt = 0" and "pg_ofs pd = 0"
proof -
  show t: "is_table v pt" and "pt \<noteq> pd"
    using assms(1,2) by (cases rule: dir_okD; use assms(3) in simp)+
  show "pg_ofs pt = 0" and "pg_ofs pd = 0"
    using t assms(1) by (simp_all add: is_table_def dir_ok_def)
qed

lemma wr_entry:
  fixes e :: u32
  assumes ok: "dir_ok K v pd" and k: "unat k < K" and pt: "pt_of v pd k = Some pt" and j: "unat j < 1024"
  defines "v' \<equiv> wr (pt + 4 * j) e v"
  shows "dir_ok K v' pd" and "\<And>i. unat i < K \<Longrightarrow> pt_of v' pd i = pt_of v pd i"
    and "\<And>i qt l. unat i < K \<Longrightarrow> pt_of v pd i = Some qt \<Longrightarrow> unat l < 1024 \<Longrightarrow>
      rd v' (qt + 4 * l) = (if i = k \<and> l = j then e else rd v (qt + 4 * l))"
proof -
  note t = pt_of_table [OF ok k pt]
  have rd: "rd v' (pd + 4 * i) = rd v (pd + 4 * i)" if "unat i < K" for i
    using rd_wr_slot [OF t(3,4) j, of i] that t(2) dir_ok_basic(4) [OF ok] by (simp add: v'_def)
  then show pt': "\<And>i. unat i < K \<Longrightarrow> pt_of v' pd i = pt_of v pd i"
    by (simp add: pt_of_def)
  have tb: "is_table v' = is_table v" "palloc_ok (pal v') = palloc_ok (pal v)" "kernel_pool (pal v') = kernel_pool (pal v)"
    by (simp_all add: v'_def)
  show "dir_ok K v' pd"
  proof (rule dir_okI)
    show "rd v' (pd + 4 * i) = 0 \<or> (\<exists>pt. pt_of v' pd i = Some pt \<and> is_table v' pt \<and> pt \<noteq> pd)" if "unat i < K" for i
      using ok that by (cases rule: dir_okD) (simp_all add: rd pt' tb that)
    show "a = b" if "unat a < K" "unat b < K" "pt_of v' pd a = Some qt" "pt_of v' pd b = Some qt" for a b qt
      using dir_ok_inj [OF ok that(1,2)] that by (simp add: pt')
  qed (use dir_ok_basic [OF ok] in \<open>simp_all add: tb\<close>)
  show "rd v' (qt + 4 * l) = (if i = k \<and> l = j then e else rd v (qt + 4 * l))"
    if i: "unat i < K" "pt_of v pd i = Some qt" and l: "unat l < 1024" for i qt l
  proof -
    have "pt = qt \<longleftrightarrow> i = k"
      using dir_ok_inj [OF ok i(1) k] i(2) pt by auto
    then show ?thesis
      using rd_wr_slot [OF t(3) pt_of_table(3) [OF ok i] j l, of e v] by (auto simp: v'_def)
  qed
qed

lemma entry_of_wr:
  assumes ok: "dir_ok K v pd" and ku: "unat (pd_no u) < K" and pt: "pt_of v pd (pd_no u) = Some pt" and ka: "unat (pd_no a) < K"
  shows "entry_of (wr (pt + 4 * pt_no u) e v) pd a = (if pg_no a = pg_no u then e else entry_of v pd a)"
proof -
  note w = wr_entry [OF ok ku pt table_index(2)]
  show ?thesis
  proof (cases "pt_of v pd (pd_no a)")
    case None
    then have "pd_no a \<noteq> pd_no u"
      using pt by auto
    then show ?thesis
      using None w(2) [OF ka] by (simp add: entry_of_def same_page)
  next
    case (Some qt)
    then show ?thesis
      using w(2) [OF ka] w(3) [OF ka Some table_index(2) [of a]] by (simp add: entry_of_def same_page)
  qed
qed

lemma cr3_irrelevant [simp]:
  "dir_ok K (v\<lparr>cr3 := c\<rparr>) pd = dir_ok K v pd" "entry_of (v\<lparr>cr3 := c\<rparr>) pd a = entry_of v pd a"
proof -
  have "rd (v\<lparr>cr3 := c\<rparr>) = rd v" "is_table (v\<lparr>cr3 := c\<rparr>) = is_table v"
    by (auto simp: rd_def is_table_def intro!: ext)
  then show "dir_ok K (v\<lparr>cr3 := c\<rparr>) pd = dir_ok K v pd" "entry_of (v\<lparr>cr3 := c\<rparr>) pd a = entry_of v pd a"
    by (simp_all add: dir_ok_def pt_of_def entry_of_def cong: option.case_cong)
qed

lemma invalidate_cr3:
  assumes "PHYS_BASE \<le> pd" and "cr3 v < PHYS_BASE"
  shows "\<exists>c. invalidate_pagedir pd v = Some (v\<lparr>cr3 := c\<rparr>)"
proof (cases "cr3 v + PHYS_BASE = pd")
  case True
  have "pd \<noteq> 0"
    using assms(1) by (auto simp: PHYS_BASE_def)
  then show ?thesis
    using True assms by (intro exI [of _ "pd - PHYS_BASE"])
     (simp add: invalidate_pagedir_def active_pd_def ptov_def pagedir_activate_def vtop_def is_kernel_vaddr_def kernel_simps Let_def)
next
  case False
  then show ?thesis
    using assms by (intro exI [of _ "cr3 v"]) (simp add: invalidate_pagedir_def active_pd_def ptov_def kernel_simps)
qed

section \<open>A new page table\<close>

lemma get_page_zero:
  fixes flags :: u32
  assumes ok: "palloc_ok (pal v)" and "PHYS_BASE \<le> pbase (kernel_pool (pal v))"
    and f: "flags AND PAL_USER = 0" "flags AND PAL_ZERO \<noteq> 0"
  obtains (full) "get_page flags v = (if flags AND PAL_ASSERT \<noteq> 0 then None else Some (0, v))"
  | (fresh) pt v' where "get_page flags v = Some (pt, v')" and "is_table v' pt" and "palloc_ok (pal v')"
      and "pbase (kernel_pool (pal v')) = pbase (kernel_pool (pal v))" and "unat (pg_no pt) \<notin> pages_used (pal v)"
      and "pages_used (pal v) \<subseteq> pages_used (pal v')" and "base_page_dir v' = base_page_dir v" and "ram_pages v' = ram_pages v"
      and "\<And>x. ram (pal v') x = (if pg_no x = pg_no pt then 0 else ram (pal v) x)"
proof -
  let ?s = "pal v" and ?p = "kernel_pool (pal v)"
  have po: "pool_ok ?p"
    using ok by (simp add: palloc_ok_def)
  have "(1 :: size_t) \<noteq> 0"
    by simp
  from ok this show thesis
  proof (cases rule: palloc_get_cases [of ?s 1 flags])
    case full
    then show thesis
      by (intro that(1)) (simp add: get_page_def palloc_get_page_def)
  next
    case (pages a b k)
    have u: "(flags AND PAL_USER \<noteq> 0) = False" and gp: "get_pool False ?s = ?p"
      using f(1) by (simp_all add: get_pool_def)
    note pg = pages [unfolded u gp]
    let ?v = "v\<lparr>pal := (set_map False b ?s)\<lparr>ram := ram_fill (ram ?s) a 0 4096\<rparr>\<rparr>" and ?i = "first_page ?p + k"
    have ins: "in_pool (get_pool False ?s) ?i 1"
      using pg(5) by (simp add: gp in_pool_def)
    have bnd: "?i + 1 \<le> 2 ^ 20"
      using in_pool_bound [OF po] ins unfolding gp by blast
    have ev: "get_page flags v = Some (a, ?v)"
      using pg(1) f(2) by (simp add: get_page_def palloc_get_page_def)
    have no: "unat (pg_no a) = ?i"
      unfolding unat_pg_no pg(4) by simp
    have grow: "pages_used (pal ?v) = pages_used ?s \<union> slots (?i, 1)"
      using pages_used_grow [of b False ?s k 1] pg(7) by (simp add: gp)
    have base: "4096 * first_page ?p = unat (pbase ?p)"
      using pool_base [OF po] by simp
    have "PHYS_BASE \<le> a"
      using assms(2) base pg(4) by (simp add: word_le_nat_alt)
    moreover have "pg_ofs a = 0"
      by (simp add: pg_ofs_zero pg(4))
    ultimately have tab: "is_table ?v a"
      unfolding is_table_def no grow by simp
    have fresh: "unat (pg_no a) \<notin> pages_used ?s"
      using pool_get_fresh [OF ok, of False k 1] ins pg(6) unfolding gp no by auto
    have "pg_no x = pg_no a \<longleftrightarrow> unat (x - a) < 4096" for x
      using ram_fill_pages [OF pg(4) bnd, of x] no by (auto simp: word_unat_eq_iff)
    then have rm: "ram (pal ?v) x = (if pg_no x = pg_no a then 0 else ram ?s x)" for x
      by (simp add: ram_fill_def)
    have "palloc_ok (pal ?v)"
      using palloc_ok_set_map(1) [OF ok pg(2), of False] pg(3) by (simp add: gp)
    then show thesis
      using ev tab fresh grow rm by (intro that(2) [of a ?v]) (auto simp: set_map_def)
  qed
qed

lemma read32_zero: "(\<And>i. i < 4 \<Longrightarrow> m (a + of_nat i) = 0) \<Longrightarrow> read32 m a = 0"
proof -
  assume z: "\<And>i. i < 4 \<Longrightarrow> m (a + of_nat i) = 0"
  show ?thesis
    using z [of 0] z [of 1] z [of 2] z [of 3] by (simp add: read32_def)
qed

lemma fresh_table:
  assumes ok: "dir_ok K v pd" and k: "unat k < K" and miss: "pt_of v pd k = None"
    and tab: "is_table v1 pt" and fr: "unat (pg_no pt) \<notin> pages_used (pal v)"
    and sub: "pages_used (pal v) \<subseteq> pages_used (pal v1)"
    and rm: "\<And>x. ram (pal v1) x = (if pg_no x = pg_no pt then 0 else ram (pal v) x)"
    and pal: "palloc_ok (pal v1)" "PHYS_BASE \<le> pbase (kernel_pool (pal v1))"
    and e: "pde_get_pt e = Some pt" "e \<noteq> 0"
  defines "v' \<equiv> wr (pd + 4 * k) e v1"
  shows "dir_ok K v' pd" and "pt_of v' pd k = Some pt"
    and "\<And>a. unat (pd_no a) < K \<Longrightarrow> entry_of v' pd a = entry_of v pd a"
    and "\<And>l. unat l < K \<Longrightarrow> l \<noteq> k \<Longrightarrow> pt_of v' pd l = pt_of v pd l"
proof -
  have al: "pg_ofs pd = 0" "pg_ofs pt = 0"
    using dir_ok_basic(3) [OF ok] tab by (simp_all add: is_table_def)
  have old: "is_table v1 p \<and> p \<noteq> pt \<and> pg_no p \<noteq> pg_no pt \<and> pg_ofs p = 0" if "is_table v p" for p
    using that fr sub by (auto simp: is_table_def)
  have k10: "unat k < 1024"
    using k dir_ok_basic(4) [OF ok] by simp
  have frame: "rd v1 (p + 4 * l) = rd v (p + 4 * l)" if "is_table v p" "unat l < 1024" for p l
    unfolding rd_def using old [OF that(1)] that(2) by (intro read_slot_frame) (auto simp: rm)
  have zero: "rd v1 (pt + 4 * l) = 0" if "unat l < 1024" for l
    unfolding rd_def using slot_bytes [OF al(2) that] by (intro read32_zero) (simp add: rm)
  have pd': "rd v' (pd + 4 * l) = (if l = k then e else rd v (pd + 4 * l))" if "unat l < 1024" for l
    using rd_wr_slot [OF al(1,1) k10 that] frame [OF dir_ok_basic(3) [OF ok] that] by (auto simp: v'_def)
  have other: "rd v' (p + 4 * l) = rd v1 (p + 4 * l)" if "p \<noteq> pd" "pg_ofs p = 0" "unat l < 1024" for p l
    using rd_wr_slot [OF al(1) that(2) k10 that(3)] that(1) by (auto simp: v'_def)
  have pt': "pt_of v' pd l = (if l = k then Some pt else pt_of v pd l)" if "unat l < K" for l
    using pd' [of l] that e dir_ok_basic(4) [OF ok] by (cases "l = k") (simp_all add: pt_of_def)
  then show "pt_of v' pd k = Some pt" and "\<And>l. unat l < K \<Longrightarrow> l \<noteq> k \<Longrightarrow> pt_of v' pd l = pt_of v pd l"
    using k by simp_all
  have ptpd: "pt \<noteq> pd"
    using old [OF dir_ok_basic(3) [OF ok]] by blast
  have tb: "is_table v' = is_table v1"
    by (simp add: v'_def)
  have notnew: "pt_of v pd l \<noteq> Some pt" if "unat l < K" for l
    using old pt_of_table(1) [OF ok that] by blast
  show "dir_ok K v' pd"
  proof (rule dir_okI)
    show "rd v' (pd + 4 * l) = 0 \<or> (\<exists>pt. pt_of v' pd l = Some pt \<and> is_table v' pt \<and> pt \<noteq> pd)" if "unat l < K" for l
    proof (cases "l = k")
      case True
      then show ?thesis
        using pt' [OF that] tab ptpd by (simp add: tb)
    next
      case False
      from ok that show ?thesis
      proof (cases rule: dir_okD)
        case missing
        then show ?thesis
          using False pd' [of l] that dir_ok_basic(4) [OF ok] by simp
      next
        case (table qt)
        then show ?thesis
          using False pt' [OF that] old [OF table(4)] by (simp add: tb)
      qed
    qed
    show "a = b" if "unat a < K" "unat b < K" "pt_of v' pd a = Some qt" "pt_of v' pd b = Some qt" for a b qt
      using that dir_ok_inj [OF ok that(1,2)] notnew by (auto simp: pt' split: if_splits)
    show "is_table v' pd"
      using old [OF dir_ok_basic(3) [OF ok]] by (simp add: tb)
  qed (use pal dir_ok_basic(4) [OF ok] in \<open>simp_all add: v'_def\<close>)
  show "entry_of v' pd a = entry_of v pd a" if a: "unat (pd_no a) < K" for a
  proof (cases "pd_no a = k")
    case True
    then show ?thesis
      using miss pt' [OF k] other [OF ptpd al(2) table_index(2)] zero [OF table_index(2)] by (simp add: entry_of_def)
  next
    case False
    show ?thesis
    proof (cases "pt_of v pd (pd_no a)")
      case None
      then show ?thesis
        using False pt' [OF a] by (simp add: entry_of_def)
    next
      case (Some qt)
      note q = pt_of_table [OF ok a Some]
      have "rd v' (qt + 4 * pt_no a) = rd v (qt + 4 * pt_no a)"
        using other [OF q(2,3) table_index(2)] frame [OF q(1) table_index(2)] by simp
      then show ?thesis
        using False Some pt' [OF a] by (simp add: entry_of_def)
    qed
  qed
qed

lemma lookup_page_create:
  assumes ok: "pd_ok v pd" and u: "is_user_vaddr u"
  obtains (full) "lookup_page pd u True v = Some (0, v)" and "entry_of v pd u = 0"
  | (entry) pt v' where "lookup_page pd u True v = Some (pt + 4 * pt_no u, v')" and "pd_ok v' pd"
      and "pt_of v' pd (pd_no u) = Some pt" and "\<And>a. is_user_vaddr a \<Longrightarrow> entry_of v' pd a = entry_of v pd a"
      and "base_page_dir v' = base_page_dir v" and "ram_pages v' = ram_pages v"
proof -
  let ?k = "pd_no u"
  have pd0: "pd \<noteq> 0" and al: "pg_ofs pd = 0"
    using dir_ok_basic(3) [OF ok] by (auto simp: is_table_def PHYS_BASE_def)
  note k = table_index(1) [OF u]
  from ok k show thesis
  proof (cases rule: dir_okD)
    case (table pt)
    have "lookup_page pd u True v = Some (pt + 4 * pt_no u, v)"
      using table pd0 u by (simp add: lookup_page_def Let_def kernel_simps)
    then show thesis
      using ok table(1) by (rule that(2)) auto
  next
    case missing
    have f: "PAL_ZERO AND PAL_USER = 0" "PAL_ZERO AND PAL_ZERO \<noteq> 0" "PAL_ZERO AND PAL_ASSERT = 0"
      by (simp_all add: PAL_ZERO_def PAL_ASSERT_def PAL_USER_def)
    from dir_ok_basic(1,2) [OF ok] f(1,2) show thesis
    proof (cases rule: get_page_zero)
      case full
      then show thesis
        using missing pd0 u f(3) by (intro that(1)) (simp_all add: lookup_page_def Let_def kernel_simps entry_of_def)
    next
      case (fresh pt v1)
      have pt: "PHYS_BASE \<le> pt" "pg_ofs pt = 0"
        using fresh(2) by (simp_all add: is_table_def)
      obtain e where e: "pde_create pt = Some e" "pde_get_pt e = Some pt" "e \<noteq> 0"
        using pde_roundtrip [OF pt] by blast
      have base: "PHYS_BASE \<le> pbase (kernel_pool (pal v1))"
        using dir_ok_basic(2) [OF ok] fresh(4) by simp
      let ?v = "wr (pd + 4 * ?k) e v1"
      note ft = fresh_table [OF ok k missing(1) fresh(2,5,6,9,3) base e(2,3)]
      have nz: "pt \<noteq> 0"
        using pt(1) by (auto simp: PHYS_BASE_def)
      have rde: "rd ?v (pd + 4 * ?k) = e"
        using rd_wr_slot [OF al al, of ?k ?k e v1] k by simp
      have "lookup_page pd u True v = Some (pt + 4 * pt_no u, ?v)"
        using missing(2) pd0 u fresh(1) nz e(1,2) rde by (simp add: lookup_page_def Let_def kernel_simps)
      then show thesis
        using ft(1,2) by (rule that(2)) (use ft(3) fresh(7,8) table_index(1) in simp_all)
    qed
  qed
qed

section \<open>Properties\<close>

text \<open>C37: on a well-formed page directory, \<^verbatim>\<open>pagedir_set_page\<close> for a user page that is mapped
  already ends in a failed assertion.  For an unmapped one it either reports that memory is
  exhausted and changes no mapping, or installs exactly this mapping: afterwards every address
  of the page leads to the same offset of \<^term>\<open>kpage\<close>, and every other user address is translated
  as before.  The directory stays well formed.\<close>
theorem pagedir_set_page_maps:
  assumes ok: "pd_ok v pd" and u: "is_user_vaddr upage" "pg_ofs upage = 0"
    and k: "PHYS_BASE \<le> kpage" "pg_ofs kpage = 0" "drop_bit 12 (kpage - PHYS_BASE) < ram_pages v"
    and pd: "pd \<noteq> base_page_dir v"
  shows "if mapped v pd upage then pagedir_set_page pd upage kpage writable v = None
    else \<exists>r v'. pagedir_set_page pd upage kpage writable v = Some (r, v') \<and> pd_ok v' pd \<and>
      (\<forall>a. is_user_vaddr a \<longrightarrow> pagedir_get_page pd a v' =
         (if r \<and> pg_no a = pg_no upage then Some (kpage + pg_ofs a) else pagedir_get_page pd a v))"
proof -
  have g: "pagedir_set_page pd upage kpage writable v = do {
     (pte, v) \<leftarrow> lookup_page pd upage True v;
     if pte \<noteq> 0 then do { ASSERT (rd v pte AND PTE_P = 0); e \<leftarrow> pte_create_user kpage writable; Some (True, wr pte e v) }
     else Some (False, v) }"
    using u k pd by (simp add: pagedir_set_page_def kernel_simps vtop_def is_kernel_vaddr_def page_consts)
  from ok u(1) show ?thesis
  proof (cases rule: lookup_page_create)
    case full
    then show ?thesis
      using g ok by (auto simp: mapped_def)
  next
    case (entry pt v1)
    note ku = table_index(1) [OF u(1)]
    note t = pt_of_table [OF entry(2) ku entry(3)]
    obtain e where e: "pte_create_user kpage writable = Some e" "pte_get_page e = Some kpage" "e AND PTE_P \<noteq> 0"
      using pte_roundtrip [OF k(1,2)] by blast
    let ?v = "wr (pt + 4 * pt_no upage) e v1"
    have nz: "pt + 4 * pt_no upage \<noteq> 0"
      using t(1) table_index(2) by (rule table_nonzero)
    have np: "rd v1 (pt + 4 * pt_no upage) = entry_of v pd upage"
      using entry(4) [OF u(1), symmetric] entry(3) by (simp add: entry_of_def [of v1])
    have ok': "pd_ok ?v pd"
      by (rule wr_entry(1) [OF entry(2) ku entry(3) table_index(2)])
    have "pagedir_get_page pd a ?v = (if pg_no a = pg_no upage then Some (kpage + pg_ofs a) else pagedir_get_page pd a v)"
      if a: "is_user_vaddr a" for a
      using entry_of_wr [OF entry(2) ku entry(3) table_index(1) [OF a], of e] e entry(4) [OF a]
      by (simp add: pagedir_get_page_eq [OF ok' a] pagedir_get_page_eq [OF ok a] mapped_def)
    then show ?thesis
      using g entry(1) nz np e(1) ok' by (auto simp: kernel_simps mapped_def)
  qed
qed

definition one_directory :: vstate where
  "one_directory = \<lparr>pal = \<lparr>kernel_pool = \<lparr>used_map = \<lparr>bit_cnt = 4, bits = [1]\<rparr>, pbase = 0xc0100000\<rparr>,
     user_pool = \<lparr>used_map = \<lparr>bit_cnt = 6, bits = [0]\<rparr>, pbase = 0xc0105000\<rparr>, ram = (\<lambda>_. 0)\<rparr>,
     cr3 = 0x1000, base_page_dir = 0xc0001000, ram_pages = 1024\<rparr>"

lemma one_directory_ok: "pd_ok one_directory 0xc0100000"
proof (rule dir_okI)
  show "palloc_ok (pal one_directory)"
    by (simp add: one_directory_def palloc_ok_def pool_ok_def pool_size_def first_page_def bm_invar_def bm_wf_def BITMAP_ERROR_def)
  show "is_table one_directory 0xc0100000"
    by (auto simp: one_directory_def is_table_def PHYS_BASE_def pg_ofs_def page_consts unat_pg_no pages_used_def pool_used_def
        first_page_def bm_used_def bm_bit_def image_iff)
  have z: "rd one_directory a = 0" for a
    by (simp add: rd_def one_directory_def read32_def)
  then show "rd one_directory (0xc0100000 + 4 * k) = 0 \<or>
      (\<exists>pt. pt_of one_directory 0xc0100000 k = Some pt \<and> is_table one_directory pt \<and> pt \<noteq> 0xc0100000)" for k
    by simp
  show "pt_of one_directory 0xc0100000 j = Some pt \<Longrightarrow> j = k" for j k pt
    by (simp add: pt_of_def z)
qed (simp_all add: one_directory_def PHYS_BASE_def)

theorem pagedir_set_page_maps_witness:
  "\<exists>r v'. pagedir_set_page 0xc0100000 0x8048000 0xc0105000 True one_directory = Some (r, v') \<and> pd_ok v' 0xc0100000 \<and>
     pagedir_get_page 0xc0100000 0x8048123 v' = (if r then Some 0xc0105123 else pagedir_get_page 0xc0100000 0x8048123 one_directory)"
proof -
  have "\<not> mapped one_directory 0xc0100000 0x8048000"
    by (simp add: mapped_def entry_of_def pt_of_def rd_def one_directory_def read32_def)
  moreover have "is_user_vaddr 0x8048000" "is_user_vaddr 0x8048123" "pg_ofs 0x8048000 = 0" "PHYS_BASE \<le> 0xc0105000" "pg_ofs 0xc0105000 = 0"
    "drop_bit 12 (0xc0105000 - PHYS_BASE) < ram_pages one_directory" "(0xc0100000 :: u32) \<noteq> base_page_dir one_directory"
    "pg_no 0x8048123 = pg_no 0x8048000" "pg_ofs 0x8048123 = 0x123"
    by (simp_all add: is_user_vaddr_def PHYS_BASE_def pg_ofs_def pg_no_def page_consts one_directory_def)
  ultimately show ?thesis
    using pagedir_set_page_maps [OF one_directory_ok, of "0x8048000" "0xc0105000" True] by fastforce
qed

text \<open>\<^verbatim>\<open>pagedir_clear_page\<close> always returns; afterwards the page is unmapped, every other user
  address is translated as before and the directory is well formed.\<close>
theorem pagedir_clear_page_unmaps:
  assumes ok: "pd_ok v pd" and u: "is_user_vaddr upage" "pg_ofs upage = 0" and c: "cr3 v < PHYS_BASE"
  shows "\<exists>v'. pagedir_clear_page pd upage v = Some v' \<and> pd_ok v' pd \<and>
    (\<forall>a. is_user_vaddr a \<longrightarrow> pagedir_get_page pd a v' = (if pg_no a = pg_no upage then Some 0 else pagedir_get_page pd a v))"
proof (cases "mapped v pd upage")
  case False
  have "mapped v pd a = mapped v pd upage" if "pg_no a = pg_no upage" for a
  proof -
    have "pd_no a = pd_no upage" "pt_no a = pt_no upage"
      using that by (simp_all add: same_page)
    then show ?thesis
      by (simp only: mapped_def entry_of_def)
  qed
  then have "pagedir_get_page pd a v = Some 0" if "is_user_vaddr a" "pg_no a = pg_no upage" for a
    using False that by (simp add: pagedir_get_page_eq [OF ok])
  moreover have "pagedir_clear_page pd upage v = Some v"
    using False u lookup_page_read [OF ok u(1)]
    by (auto simp: pagedir_clear_page_def kernel_simps mapped_def entry_of_def split: option.splits)
  ultimately show ?thesis
    using ok by auto
next
  case True
  then obtain pt where pt: "pt_of v pd (pd_no upage) = Some pt"
    by (auto simp: mapped_def entry_of_def split: option.splits)
  note ku = table_index(1) [OF u(1)]
  note t = pt_of_table [OF ok ku pt]
  let ?pte = "pt + 4 * pt_no upage"
  let ?e = "rd v ?pte AND NOT PTE_P"
  let ?v = "wr ?pte ?e v"
  have nz: "?pte \<noteq> 0"
    using t(1) table_index(2) by (rule table_nonzero)
  have ok': "pd_ok ?v pd"
    by (rule wr_entry(1) [OF ok ku pt table_index(2)])
  have "?e AND PTE_P = 0"
    by (simp add: and.assoc)
  then have get: "pagedir_get_page pd a ?v = (if pg_no a = pg_no upage then Some 0 else pagedir_get_page pd a v)"
    if a: "is_user_vaddr a" for a
    using entry_of_wr [OF ok ku pt table_index(1) [OF a], of ?e]
    by (simp add: pagedir_get_page_eq [OF ok' a] pagedir_get_page_eq [OF ok a] mapped_def)
  have "PHYS_BASE \<le> pd"
    using dir_ok_basic(3) [OF ok] by (simp add: is_table_def)
  then obtain c' where inv: "invalidate_pagedir pd ?v = Some (?v\<lparr>cr3 := c'\<rparr>)"
    using invalidate_cr3 [of pd ?v] c by auto
  have "rd v ?pte AND PTE_P \<noteq> 0"
    using True pt by (simp add: mapped_def entry_of_def)
  then have "pagedir_clear_page pd upage v = Some (?v\<lparr>cr3 := c'\<rparr>)"
    using u lookup_page_read [OF ok u(1)] pt nz inv by (simp add: pagedir_clear_page_def kernel_simps)
  moreover have "pagedir_get_page pd a (?v\<lparr>cr3 := c'\<rparr>) = pagedir_get_page pd a ?v" if "is_user_vaddr a" for a
    using that ok' by (simp add: pagedir_get_page_eq mapped_def)
  ultimately show ?thesis
    using ok' get by auto
qed

theorem pagedir_clear_page_unmaps_witness:
  "\<exists>v'. pagedir_clear_page 0xc0100000 0x8048000 one_directory = Some v' \<and> pd_ok v' 0xc0100000 \<and>
     pagedir_get_page 0xc0100000 0x8048010 v' = Some 0"
proof -
  have "is_user_vaddr 0x8048000" "pg_ofs 0x8048000 = 0" "cr3 one_directory < PHYS_BASE" "is_user_vaddr 0x8048010"
    "pg_no 0x8048010 = pg_no 0x8048000"
    by (simp_all add: is_user_vaddr_def PHYS_BASE_def pg_ofs_def pg_no_def page_consts one_directory_def)
  then show ?thesis
    using pagedir_clear_page_unmaps [OF one_directory_ok, of "0x8048000"] by fastforce
qed

end
