(* ===== verification/Loader.thy ===== *)
theory Loader
  imports Filesys Pagedir Strings
begin

text \<open>
  The part of \<^verbatim>\<open>userprog/process.c\<close> that loads a program: splitting the command line, the ELF
  headers, segments, and the initial stack with the arguments.  The state is the file system,
  the page tables with kernel memory, and the page directory of the current thread.

  The command line and the strings it is split into lie in a byte memory of their own (as in
  \<open>Strings\<close>).  The stack page is a list of 4096 bytes while the arguments are pushed; it is the
  only user page mapped at that time, so a write outside it is a page fault in the kernel,
  \<^term>\<open>None\<close>.  Arrays the code leaves uninitialised (\<^verbatim>\<open>arguments\<close>, \<^verbatim>\<open>argv\<close>) are parameters: their
  first contents are whatever the caller's stack held.
\<close>

section \<open>State\<close>

record lstate =
  fsys :: fs
  vm :: vstate
  t_pagedir :: u32

definition ram_store :: "ram \<Rightarrow> u32 \<Rightarrow> u8 list \<Rightarrow> ram" where
  "ram_store m p bs = (\<lambda>a. if unat (a - p) < length bs then bs ! unat (a - p) else m a)"

definition upd_ram :: "(ram \<Rightarrow> ram) \<Rightarrow> lstate \<Rightarrow> lstate" where
  "upd_ram f l = l\<lparr>vm := (vm l)\<lparr>pal := (pal (vm l))\<lparr>ram := f (ram (pal (vm l)))\<rparr>\<rparr>\<rparr>"

definition l_get_page :: "u32 \<Rightarrow> lstate \<Rightarrow> (u32 \<times> lstate) kernel" where
  "l_get_page flags l = map_option (\<lambda>(p, v). (p, l\<lparr>vm := v\<rparr>)) (get_page flags (vm l))"

definition l_free_page :: "u32 \<Rightarrow> lstate \<Rightarrow> lstate kernel" where
  "l_free_page p l = map_option (\<lambda>v. l\<lparr>vm := v\<rparr>) (free_page p (vm l))"

section \<open>Headers\<close>

record Elf32_Ehdr =
  e_ident :: "u8 list"
  e_type :: u16
  e_machine :: u16
  e_version :: u32
  e_entry :: u32
  e_phoff :: u32
  e_shoff :: u32
  e_flags :: u32
  e_ehsize :: u16
  e_phentsize :: u16
  e_phnum :: u16
  e_shentsize :: u16
  e_shnum :: u16
  e_shstrndx :: u16

record Elf32_Phdr =
  p_type :: u32
  p_offset :: u32
  p_vaddr :: u32
  p_paddr :: u32
  p_filesz :: u32
  p_memsz :: u32
  p_flags :: u32
  p_align :: u32

definition half_at :: "u8 list \<Rightarrow> nat \<Rightarrow> u16" where
  "half_at bs k = ucast (bs ! k) OR push_bit 8 (ucast (bs ! (k + 1)))"

definition word_at :: "u8 list \<Rightarrow> nat \<Rightarrow> u32" where
  "word_at bs k = bytes_u32 (drop k bs)"

definition decode_ehdr :: "u8 list \<Rightarrow> Elf32_Ehdr" where
  "decode_ehdr bs = \<lparr>e_ident = take 16 bs, e_type = half_at bs 16, e_machine = half_at bs 18, e_version = word_at bs 20,
     e_entry = word_at bs 24, e_phoff = word_at bs 28, e_shoff = word_at bs 32, e_flags = word_at bs 36,
     e_ehsize = half_at bs 40, e_phentsize = half_at bs 42, e_phnum = half_at bs 44, e_shentsize = half_at bs 46,
     e_shnum = half_at bs 48, e_shstrndx = half_at bs 50\<rparr>"

definition decode_phdr :: "u8 list \<Rightarrow> Elf32_Phdr" where
  "decode_phdr bs = \<lparr>p_type = word_at bs 0, p_offset = word_at bs 4, p_vaddr = word_at bs 8,
     p_paddr = word_at bs 12, p_filesz = word_at bs 16, p_memsz = word_at bs 20, p_flags = word_at bs 24,
     p_align = word_at bs 28\<rparr>"

definition SIZEOF_EHDR :: int where "SIZEOF_EHDR = 52"
definition SIZEOF_PHDR :: int where "SIZEOF_PHDR = 32"
definition PT_LOAD :: u32 where "PT_LOAD = 1"
definition PT_DYNAMIC :: u32 where "PT_DYNAMIC = 2"
definition PT_INTERP :: u32 where "PT_INTERP = 3"
definition PT_SHLIB :: u32 where "PT_SHLIB = 5"
definition PF_W :: u32 where "PF_W = 2"

section \<open>Segments\<close>

definition validate_segment :: "Elf32_Phdr \<Rightarrow> u32 \<Rightarrow> bool" where
  "validate_segment phdr flen \<longleftrightarrow>
     p_offset phdr AND PGMASK = p_vaddr phdr AND PGMASK \<and>
     \<not> flen < p_offset phdr \<and>
     \<not> p_memsz phdr < p_filesz phdr \<and>
     p_memsz phdr \<noteq> 0 \<and>
     is_user_vaddr (p_vaddr phdr) \<and>
     is_user_vaddr (p_vaddr phdr + p_memsz phdr) \<and>
     \<not> p_vaddr phdr + p_memsz phdr < p_vaddr phdr \<and>
     \<not> p_vaddr phdr < PGSIZE"

definition install_page :: "u32 \<Rightarrow> u32 \<Rightarrow> bool \<Rightarrow> lstate \<Rightarrow> (bool \<times> lstate) kernel" where
  "install_page upage kpage writable l = do {
     p \<leftarrow> pagedir_get_page (t_pagedir l) upage (vm l);
     if p = 0
     then do { (b, v) \<leftarrow> pagedir_set_page (t_pagedir l) upage kpage writable (vm l); Some (b, l\<lparr>vm := v\<rparr>) }
     else Some (False, l)
   }"

partial_function (option) load_loop ::
  "addr \<Rightarrow> u32 \<Rightarrow> u32 \<Rightarrow> u32 \<Rightarrow> bool \<Rightarrow> lstate \<Rightarrow> (bool \<times> lstate) kernel" where
  "load_loop fl upage read_bytes zero_bytes writable l =
     (if 0 < read_bytes \<or> 0 < zero_bytes
      then do {
        let page_read_bytes = (if read_bytes < PGSIZE then read_bytes else PGSIZE);
        let page_zero_bytes = PGSIZE - page_read_bytes;
        (kpage, l) \<leftarrow> l_get_page PAL_USER l;
        if kpage = 0 then Some (False, l)
        else do {
          (bs, s) \<leftarrow> file_read fl (sint page_read_bytes) (fsys l);
          let l = upd_ram (\<lambda>m. ram_store m kpage bs) (l\<lparr>fsys := s\<rparr>);
          if int (length bs) \<noteq> sint page_read_bytes
          then do { l \<leftarrow> l_free_page kpage l; Some (False, l) }
          else do {
            let l = upd_ram (\<lambda>m. ram_fill m (kpage + page_read_bytes) 0 (unat page_zero_bytes)) l;
            (ok, l) \<leftarrow> install_page upage kpage writable l;
            if \<not> ok then do { l \<leftarrow> l_free_page kpage l; Some (False, l) }
            else load_loop fl (upage + PGSIZE) (read_bytes - page_read_bytes) (zero_bytes - page_zero_bytes) writable l
          }
        }
      }
      else Some (True, l))"

definition load_segment ::
  "addr \<Rightarrow> int \<Rightarrow> u32 \<Rightarrow> u32 \<Rightarrow> u32 \<Rightarrow> bool \<Rightarrow> lstate \<Rightarrow> (bool \<times> lstate) kernel" where
  "load_segment fl ofs upage read_bytes zero_bytes writable l = do {
     ASSERT ((read_bytes + zero_bytes) mod PGSIZE = 0);
     ASSERT (pg_ofs upage = 0);
     ASSERT (ofs mod uint PGSIZE = 0);
     s \<leftarrow> file_seek fl ofs (fsys l);
     load_loop fl upage read_bytes zero_bytes writable (l\<lparr>fsys := s\<rparr>)
   }"

definition segment_bytes :: "Elf32_Phdr \<Rightarrow> u32 \<times> u32" where
  "segment_bytes phdr = (let
     page_offset = p_vaddr phdr AND PGMASK
   in if 0 < p_filesz phdr
      then (let read_bytes = page_offset + p_filesz phdr
            in (read_bytes, ROUND_UP (page_offset + p_memsz phdr) PGSIZE - read_bytes))
      else (0, ROUND_UP (page_offset + p_memsz phdr) PGSIZE))"

section \<open>The initial stack\<close>

type_synonym stack = "u32 \<times> u8 list"

definition stack_base :: u32 where
  "stack_base = PHYS_BASE - PGSIZE"

definition stack_write :: "u32 \<Rightarrow> u8 list \<Rightarrow> u8 list \<Rightarrow> u8 list kernel" where
  "stack_write esp bs page = do {
     ASSERT (stack_base \<le> esp \<and> unat (esp - stack_base) + length bs \<le> length page);
     Some (overwrite page (unat (esp - stack_base)) bs)
   }"

definition stack_read :: "u32 \<Rightarrow> nat \<Rightarrow> u8 list \<Rightarrow> u8 list kernel" where
  "stack_read p n page = do {
     ASSERT (stack_base \<le> p \<and> unat (p - stack_base) + n \<le> length page);
     Some (take n (drop (unat (p - stack_base)) page))
   }"

definition push_bytes :: "u8 list \<Rightarrow> stack \<Rightarrow> stack kernel" where
  "push_bytes bs = (\<lambda>(esp, page). do {
     let esp = esp - of_nat (length bs);
     page \<leftarrow> stack_write esp bs page;
     Some (esp, page)
   })"

function count_args :: "ptr list \<Rightarrow> nat \<Rightarrow> nat option \<Rightarrow> nat option kernel" where
  "count_args arguments i argc = do {
     a \<leftarrow> fetch arguments i;
     if a \<noteq> 0 then count_args arguments (i + 1) (Some i) else Some argc
   }"
  by pat_completeness auto
termination
  by (relation "measure (\<lambda>(arguments, i, argc). length arguments - i)") (auto simp: fetch_eq_Some_iff)

fun push_strings :: "mem \<Rightarrow> ptr list \<Rightarrow> nat \<Rightarrow> u32 list \<Rightarrow> stack \<Rightarrow> (u32 list \<times> stack) kernel" where
  "push_strings m arguments 0 argv st = Some (argv, st)"
| "push_strings m arguments (Suc i) argv st = do {
     a \<leftarrow> fetch arguments i;
     n \<leftarrow> strlen m a;
     st \<leftarrow> push_bytes (block m a (n + 1)) st;
     argv \<leftarrow> store argv i (fst st);
     push_strings m arguments i argv st
   }"

fun push_argv :: "nat \<Rightarrow> u32 list \<Rightarrow> stack \<Rightarrow> (u32 list \<times> stack) kernel" where
  "push_argv 0 argv st = Some (argv, st)"
| "push_argv (Suc j) argv st = do {
     p \<leftarrow> fetch argv j;
     st \<leftarrow> push_bytes (u32_bytes p) st;
     argv \<leftarrow> store argv j (fst st);
     push_argv j argv st
   }"

definition push_arguments :: "mem \<Rightarrow> ptr list \<Rightarrow> u32 list \<Rightarrow> stack \<Rightarrow> stack kernel" where
  "push_arguments m arguments argv st = do {
     argc \<leftarrow> count_args arguments 0 None;
     argc \<leftarrow> argc;
     (argv, st) \<leftarrow> push_strings m arguments (argc + 1) argv st;
     let argc = argc + 1;
     let round = unat (fst st) mod 4;
     st \<leftarrow> (if 0 < round then push_bytes (replicate round 0) st else Some st);
     (argv, st) \<leftarrow> push_argv (argc + 1) argv st;
     let argv_onstack = fst st;
     st \<leftarrow> push_bytes (u32_bytes argv_onstack) st;
     st \<leftarrow> push_bytes (u32_bytes (of_nat argc)) st;
     p \<leftarrow> fetch argv argc;
     bs \<leftarrow> stack_read p 4 (snd st);
     push_bytes bs st
   }"

definition setup_stack :: "mem \<Rightarrow> ptr list \<Rightarrow> u32 list \<Rightarrow> lstate \<Rightarrow> (bool \<times> u32 \<times> lstate) kernel" where
  "setup_stack m arguments argv l = do {
     (kpage, l) \<leftarrow> l_get_page (PAL_USER OR PAL_ZERO) l;
     if kpage = 0 then PANIC
     else do {
       (success, l) \<leftarrow> install_page stack_base kpage True l;
       if \<not> success
       then do { l \<leftarrow> l_free_page kpage l; Some (False, 0, l) }
       else do {
         (esp, page) \<leftarrow> push_arguments m arguments argv (PHYS_BASE, replicate 4096 0);
         Some (True, esp, upd_ram (\<lambda>r. ram_store r kpage page) l)
       }
     }
   }"

section \<open>Loading\<close>

function split_args :: "mem \<Rightarrow> ptr \<Rightarrow> ptr \<Rightarrow> ptr \<Rightarrow> ptr list \<Rightarrow> nat \<Rightarrow> (ptr list \<times> nat \<times> mem) kernel" where
  "split_args m token delim save_ptr arguments arg_cnt =
     (if token \<noteq> 0
      then do {
        arguments \<leftarrow> store arguments arg_cnt token;
        (token, save_ptr, m) \<leftarrow> strtok_r m 0 delim save_ptr;
        split_args m token delim save_ptr arguments (arg_cnt + 1)
      }
      else Some (arguments, arg_cnt, m))"
  by pat_completeness auto
termination
  by (relation "measure (\<lambda>(m, token, delim, save_ptr, arguments, arg_cnt). length arguments - arg_cnt)")
    (auto simp: store_eq_Some_iff)

fun load_phdrs :: "addr \<Rightarrow> nat \<Rightarrow> int \<Rightarrow> lstate \<Rightarrow> (bool \<times> lstate) kernel" where
  "load_phdrs fl 0 file_ofs l = Some (True, l)"
| "load_phdrs fl (Suc n) file_ofs l = do {
     flen \<leftarrow> file_length fl (fsys l);
     if file_ofs < 0 \<or> flen < file_ofs then Some (False, l)
     else do {
       s \<leftarrow> file_seek fl file_ofs (fsys l);
       (bs, s) \<leftarrow> file_read fl SIZEOF_PHDR s;
       let l = l\<lparr>fsys := s\<rparr>;
       if int (length bs) \<noteq> SIZEOF_PHDR then Some (False, l)
       else do {
         let phdr = decode_phdr bs;
         if p_type phdr = PT_DYNAMIC \<or> p_type phdr = PT_INTERP \<or> p_type phdr = PT_SHLIB then Some (False, l)
         else if p_type phdr = PT_LOAD then
           if validate_segment phdr (word_of_int flen)
           then do {
             let (read_bytes, zero_bytes) = segment_bytes phdr;
             (ok, l) \<leftarrow> load_segment fl (sint (p_offset phdr AND NOT PGMASK)) (p_vaddr phdr AND NOT PGMASK)
               read_bytes zero_bytes (p_flags phdr AND PF_W \<noteq> 0) l;
             if ok then load_phdrs fl n (file_ofs + SIZEOF_PHDR) l else Some (False, l)
           }
           else Some (False, l)
         else load_phdrs fl n (file_ofs + SIZEOF_PHDR) l
       }
     }
   }"

definition ehdr_ok :: "u8 list \<Rightarrow> bool" where
  "ehdr_ok bs \<longleftrightarrow> int (length bs) = SIZEOF_EHDR \<and>
     (let ehdr = decode_ehdr bs in
        take 7 (e_ident ehdr) = [0x7f, 0x45, 0x4c, 0x46, 1, 1, 1] \<and> e_type ehdr = 2 \<and> e_machine ehdr = 3 \<and>
        e_version ehdr = 1 \<and> e_phentsize ehdr = 32 \<and> e_phnum ehdr \<le> 1024)"

definition load :: "mem \<Rightarrow> ptr \<Rightarrow> ptr \<Rightarrow> ptr list \<Rightarrow> u32 list \<Rightarrow> u8 list \<Rightarrow> lstate \<Rightarrow>
    (bool \<times> u32 \<times> u32 \<times> lstate) kernel" where
  "load m cmdline delim arguments argv junk l = do {
     (file_name, save_ptr, m) \<leftarrow> strtok_r m cmdline delim 0;
     (arguments, arg_cnt, m) \<leftarrow> split_args m file_name delim save_ptr arguments 0;
     (pd, v) \<leftarrow> pagedir_create (vm l);
     let l = l\<lparr>t_pagedir := pd, vm := v\<rparr>;
     if pd = 0 then Some (False, 0, 0, l)
     else do {
       v \<leftarrow> pagedir_activate (t_pagedir l) (vm l);
       (ok, esp, l) \<leftarrow> setup_stack m arguments argv (l\<lparr>vm := v\<rparr>);
       if \<not> ok then Some (False, 0, esp, l)
       else do {
         n \<leftarrow> strlen m file_name;
         (fl, s) \<leftarrow> filesys_open (block m file_name n) junk (fsys l);
         if fl = NULL then Some (False, 0, esp, l\<lparr>fsys := s\<rparr>)
         else do {
           (bs, s) \<leftarrow> file_read fl SIZEOF_EHDR s;
           let l = l\<lparr>fsys := s\<rparr>;
           (ok, l) \<leftarrow> (if ehdr_ok bs
              then load_phdrs fl (unat (e_phnum (decode_ehdr bs))) (sint (e_phoff (decode_ehdr bs))) l
              else Some (False, l));
           s \<leftarrow> file_close fl (fsys l);
           Some (ok, if ok then e_entry (decode_ehdr bs) else 0, esp, l\<lparr>fsys := s\<rparr>)
         }
       }
     }
   }"

section \<open>Segments stay in user space\<close>

lemma unat_low: "unat (x AND PGMASK) = unat x mod 4096"
  using unat_pg_ofs [of x] by (simp add: pg_ofs_def)

lemma unat_ROUND_UP_page:
  assumes "unat x + 4095 < 2 ^ 32"
  shows "unat (ROUND_UP x PGSIZE) = (unat x + 4095) div 4096 * 4096"
proof -
  have eq: "x + PGSIZE - 1 = x + 4095"
    by (simp add: page_consts)
  have "unat (x + 4095) = unat x + 4095"
    using assms by (subst unat_add_small) simp_all
  moreover have "(unat x + 4095) div 4096 * 4096 < 2 ^ 32"
    using assms div_times_less_eq_dividend [of "unat x + 4095" 4096] by linarith
  ultimately show ?thesis
    unfolding ROUND_UP_def eq by (subst unat_mult_small) (simp_all add: unat_div page_consts)
qed

lemma round_up_offset:
  fixes v n :: nat
  shows "v div 4096 * 4096 + (v mod 4096 + n + 4095) div 4096 * 4096 = (v + n + 4095) div 4096 * 4096"
proof -
  have "v + n + 4095 = v div 4096 * 4096 + (v mod 4096 + n + 4095)"
    using div_mult_mod_eq [of v 4096] by linarith
  then have "(v + n + 4095) div 4096 = v div 4096 + (v mod 4096 + n + 4095) div 4096"
    by (simp only: div_mult_self3 zero_neq_numeral [symmetric] not_False_eq_True)
  then show ?thesis
    by (simp add: add_mult_distrib)
qed

lemma round_up_limit: "x \<le> 4096 * k \<Longrightarrow> (x + 4095) div 4096 * 4096 \<le> 4096 * (k :: nat)"
proof -
  assume "x \<le> 4096 * k"
  then have "(x + 4095) div 4096 < k + 1"
    by (simp add: div_less_iff_less_mult)
  then show ?thesis
    by simp
qed

lemma round_up_ge: "x \<le> (x + 4095) div 4096 * (4096 :: nat)"
  using div_mult_mod_eq [of "x + 4095" 4096] mod_less_divisor [of 4096 "x + 4095"] by linarith

lemma segment_bytes_spec:
  assumes "validate_segment phdr flen" and "segment_bytes phdr = (r, z)"
  defines "V \<equiv> unat (p_vaddr phdr)" and "M \<equiv> unat (p_memsz phdr)"
  shows "unat r + unat z = (V mod 4096 + M + 4095) div 4096 * 4096"
    and "V + M < 0xc0000000" and "4096 \<le> V" and "unat r = (if p_filesz phdr = 0 then 0 else V mod 4096 + unat (p_filesz phdr))"
proof -
  have nowrap: "\<not> p_vaddr phdr + p_memsz phdr < p_vaddr phdr" and user: "p_vaddr phdr + p_memsz phdr < PHYS_BASE"
    and fz: "unat (p_filesz phdr) \<le> M" and v4: "4096 \<le> V"
    using assms(1) by (auto simp: validate_segment_def is_user_vaddr_def V_def M_def word_less_nat_alt page_consts)
  have sum: "unat (p_vaddr phdr + p_memsz phdr) = V + M"
    unfolding V_def M_def by (rule unat_add_small) (use nowrap in \<open>simp add: not_less no_olen_add_nat\<close>)
  then show vm: "V + M < 0xc0000000"
    using user by (simp add: word_less_nat_alt PHYS_BASE_def)
  show "4096 \<le> V"
    by (rule v4)
  let ?po = "p_vaddr phdr AND PGMASK"
  have po: "unat ?po = V mod 4096"
    by (simp add: unat_low V_def)
  have pm: "unat (?po + p_memsz phdr) = V mod 4096 + M"
    using vm by (subst unat_add_small) (simp_all add: po M_def [symmetric])
  have ru: "unat (ROUND_UP (?po + p_memsz phdr) PGSIZE) = (V mod 4096 + M + 4095) div 4096 * 4096"
    using vm by (subst unat_ROUND_UP_page) (simp_all add: pm)
  have pf: "unat (?po + p_filesz phdr) = V mod 4096 + unat (p_filesz phdr)"
    using vm fz by (subst unat_add_small) (simp_all add: po)
  have le: "V mod 4096 + unat (p_filesz phdr) \<le> (V mod 4096 + M + 4095) div 4096 * 4096"
    using round_up_ge [of "V mod 4096 + M"] fz by linarith
  show "unat r = (if p_filesz phdr = 0 then 0 else V mod 4096 + unat (p_filesz phdr))"
    using assms(2) pf by (auto simp: segment_bytes_def Let_def word_neq_0_conv split: if_splits)
  show "unat r + unat z = (V mod 4096 + M + 4095) div 4096 * 4096"
  proof (cases "0 < p_filesz phdr")
    case True
    then have rz: "r = ?po + p_filesz phdr" "z = ROUND_UP (?po + p_memsz phdr) PGSIZE - (?po + p_filesz phdr)"
      using assms(2) by (auto simp: segment_bytes_def Let_def)
    have "unat z = (V mod 4096 + M + 4095) div 4096 * 4096 - (V mod 4096 + unat (p_filesz phdr))"
      unfolding rz(2) using le by (subst unat_sub) (simp_all add: word_le_nat_alt ru pf)
    then show ?thesis
      using le rz(1) pf by simp
  next
    case False
    then show ?thesis
      using assms(2) ru by (auto simp: segment_bytes_def Let_def)
  qed
qed

lemma segment_bytes_whole:
  assumes "validate_segment phdr flen" and "segment_bytes phdr = (r, z)"
  shows "unat (p_vaddr phdr AND NOT PGMASK) + (unat r + unat z) \<le> unat PHYS_BASE"
    and "unat (r + z) = unat r + unat z" and "(r + z) mod PGSIZE = 0" and "pg_ofs (p_vaddr phdr AND NOT PGMASK) = 0"
    and "unat (p_vaddr phdr) + unat (p_memsz phdr) \<le> unat (p_vaddr phdr AND NOT PGMASK) + (unat r + unat z)"
proof -
  let ?V = "unat (p_vaddr phdr)" and ?M = "unat (p_memsz phdr)"
  note sp = segment_bytes_spec [OF assms]
  have base: "unat (p_vaddr phdr AND NOT PGMASK) = ?V div 4096 * 4096"
    by (rule unat_round_down)
  have total: "?V div 4096 * 4096 + (unat r + unat z) = (?V + ?M + 4095) div 4096 * 4096"
    unfolding sp(1) by (rule round_up_offset)
  have lim: "(?V + ?M + 4095) div 4096 * 4096 \<le> 4096 * 0xc0000"
    using sp(2) by (intro round_up_limit) simp
  show "unat (p_vaddr phdr AND NOT PGMASK) + (unat r + unat z) \<le> unat PHYS_BASE"
    unfolding base total using lim by (simp add: PHYS_BASE_def)
  show rz: "unat (r + z) = unat r + unat z"
    using lim total by (subst unat_add_small) simp_all
  have "unat ((r + z) mod PGSIZE) = 0"
    unfolding unat_mod rz sp(1) by (simp add: page_consts)
  then show "(r + z) mod PGSIZE = 0"
    by (simp only: unat_eq_zero)
  show "?V + ?M \<le> unat (p_vaddr phdr AND NOT PGMASK) + (unat r + unat z)"
    unfolding base total by (rule round_up_ge)
  show "pg_ofs (p_vaddr phdr AND NOT PGMASK) = 0"
    unfolding pg_ofs_zero base by simp
qed

lemma sint_page_aligned: "sint (x AND NOT PGMASK) mod uint PGSIZE = 0"
proof -
  let ?u = "uint (x AND NOT PGMASK)"
  have "(4096 :: int) dvd ?u"
    using unat_round_down [of x] by (metis dvd_triv_right int_dvd_int_iff of_nat_numeral uint_nat)
  then have "4096 dvd (?u + 2 ^ 31) mod 2 ^ 32 - 2 ^ 31"
    by (intro dvd_diff dvd_mod dvd_add) simp_all
  moreover have "sint (x AND NOT PGMASK) = (?u + 2 ^ 31) mod 2 ^ 32 - 2 ^ 31"
    by (simp add: sint_uint signed_take_bit_eq_take_bit_shift take_bit_int_def)
  ultimately show ?thesis
    by (simp only: page_consts) simp
qed

text \<open>The loop of \<^verbatim>\<open>load_segment\<close> as a recursion over the number of pages.\<close>
fun load_pages :: "nat \<Rightarrow> addr \<Rightarrow> u32 \<Rightarrow> u32 \<Rightarrow> bool \<Rightarrow> lstate \<Rightarrow> (bool \<times> lstate) kernel" where
  "load_pages 0 fl upage read_bytes writable l = Some (True, l)"
| "load_pages (Suc k) fl upage read_bytes writable l = do {
     let n = min read_bytes PGSIZE;
     (kpage, l) \<leftarrow> l_get_page PAL_USER l;
     if kpage = 0 then Some (False, l)
     else do {
       (bs, s) \<leftarrow> file_read fl (sint n) (fsys l);
       let l = upd_ram (\<lambda>m. ram_store m kpage bs) (l\<lparr>fsys := s\<rparr>);
       if int (length bs) \<noteq> sint n
       then do { l \<leftarrow> l_free_page kpage l; Some (False, l) }
       else do {
         let l = upd_ram (\<lambda>m. ram_fill m (kpage + n) 0 (unat (PGSIZE - n))) l;
         (ok, l) \<leftarrow> install_page upage kpage writable l;
         if \<not> ok then do { l \<leftarrow> l_free_page kpage l; Some (False, l) }
         else load_pages k fl (upage + PGSIZE) (read_bytes - n) writable l
       }
     }
   }"

lemma load_loop_pages:
  assumes "unat r + unat z = 4096 * k"
  shows "load_loop fl upage r z writable l = load_pages k fl upage r writable l"
  using assms
proof (induction k arbitrary: upage r z l)
  case 0
  then have "r = 0" "z = 0"
    by (simp_all add: unat_eq_zero)
  then show ?case
    by (subst load_loop.simps) simp
next
  case (Suc k)
  let ?n = "min r PGSIZE"
  have more: "0 < r \<or> 0 < z"
    using Suc.prems by (auto simp: word_neq_0_conv [symmetric])
  have n: "(if r < PGSIZE then r else PGSIZE) = ?n"
    by (auto simp: min_def)
  have un: "unat ?n = min (unat r) 4096" "unat (PGSIZE - ?n) = 4096 - min (unat r) 4096"
    by (auto simp: min_def word_le_nat_alt page_consts unat_sub)
  have zn: "4096 - min (unat r) 4096 \<le> unat z"
    using Suc.prems by (simp add: min_def) linarith
  have "unat (r - ?n) + unat (z - (PGSIZE - ?n)) = 4096 * k"
    using Suc.prems zn un by (subst (1 2) unat_sub) (auto simp: word_le_nat_alt)
  then have IH: "load_loop fl (upage + PGSIZE) (r - ?n) (z - (PGSIZE - ?n)) writable l
      = load_pages k fl (upage + PGSIZE) (r - ?n) writable l" for l
    by (rule Suc.IH)
  show ?case
    by (subst load_loop.simps) (simp only: more if_True n IH load_pages.simps Let_def)
qed

text \<open>C12: a program header that passes \<^verbatim>\<open>validate_segment\<close> describes memory a user program may have.  The
  byte counts \<^verbatim>\<open>load\<close> computes from it do not wrap around, make up whole pages (the assertion at
  the start of \<^verbatim>\<open>load_segment\<close> cannot fail) and the pages loaded lie above page 0 and end at or
  below the kernel.\<close>
theorem validate_segment_safe:
  assumes "validate_segment phdr flen" and "segment_bytes phdr = (r, z)"
  shows "unat (r + z) = unat r + unat z \<and> (r + z) mod PGSIZE = 0 \<and> pg_ofs (p_vaddr phdr AND NOT PGMASK) = 0 \<and>
    4096 \<le> unat (p_vaddr phdr AND NOT PGMASK) \<and>
    unat (p_vaddr phdr) + unat (p_memsz phdr) \<le> unat (p_vaddr phdr AND NOT PGMASK) + (unat r + unat z) \<and>
    unat (p_vaddr phdr AND NOT PGMASK) + (unat r + unat z) \<le> unat PHYS_BASE"
proof -
  have "4096 \<le> unat (p_vaddr phdr AND NOT PGMASK)"
    unfolding unat_round_down using segment_bytes_spec(3) [OF assms] div_le_mono [of 4096 "unat (p_vaddr phdr)" 4096] by simp
  then show ?thesis
    using segment_bytes_whole [OF assms] by (intro conjI)
qed

text \<open>A text segment of 0x1234 bytes at the usual load address.\<close>
definition text_phdr :: Elf32_Phdr where
  "text_phdr = \<lparr>p_type = 1, p_offset = 0x94, p_vaddr = 0x8048094, p_paddr = 0x8048094,
     p_filesz = 0x1234, p_memsz = 0x1300, p_flags = 5, p_align = 0x1000\<rparr>"

theorem validate_segment_safe_witness:
  "validate_segment text_phdr 0x3000 \<and> segment_bytes text_phdr = (0x12c8, 0xd38) \<and>
   unat ((0x12c8 :: u32) + 0xd38) = unat (0x12c8 :: u32) + unat (0xd38 :: u32)"
proof -
  have v: "validate_segment text_phdr 0x3000" and b: "segment_bytes text_phdr = (0x12c8, 0xd38)"
    by code_simp+
  show ?thesis
    using v b validate_segment_safe [OF v b] by (intro conjI) (elim conjE, assumption)+
qed

text \<open>C13: for a program header that passes \<^verbatim>\<open>validate_segment\<close>, \<^verbatim>\<open>load_segment\<close> returns: its assertions
  hold, and its loop, which counts two unsigned numbers down by different amounts, runs once for
  each page from the first to the last page of the segment, and so is the recursion over their number.\<close>
theorem load_segment_terminates:
  assumes "validate_segment phdr flen" and "segment_bytes phdr = (r, z)"
  shows "load_segment fl (sint (p_offset phdr AND NOT PGMASK)) (p_vaddr phdr AND NOT PGMASK) r z w l =
    do { s \<leftarrow> file_seek fl (sint (p_offset phdr AND NOT PGMASK)) (fsys l);
         load_pages ((unat (p_vaddr phdr) mod 4096 + unat (p_memsz phdr) + 4095) div 4096)
           fl (p_vaddr phdr AND NOT PGMASK) r w (l\<lparr>fsys := s\<rparr>) }"
proof -
  have "sint (p_offset phdr AND NOT PGMASK) mod uint PGSIZE = 0"
    by (rule sint_page_aligned)
  moreover have "(r + z) mod PGSIZE = 0" "pg_ofs (p_vaddr phdr AND NOT PGMASK) = 0"
    using segment_bytes_whole [OF assms] by simp_all
  ultimately show ?thesis
    using load_loop_pages [OF trans [OF segment_bytes_spec(1) [OF assms] mult.commute]]
    by (simp add: load_segment_def ASSERT_holds)
qed

theorem load_segment_terminates_witness:
  "\<forall>fl l. load_segment fl 0 0x8048000 0x12c8 0xd38 False l =
    do { s \<leftarrow> file_seek fl 0 (fsys l); load_pages 2 fl 0x8048000 0x12c8 False (l\<lparr>fsys := s\<rparr>) }"
proof -
  have v: "validate_segment text_phdr 0x3000" and b: "segment_bytes text_phdr = (0x12c8, 0xd38)"
    by code_simp+
  have "p_offset text_phdr AND NOT PGMASK = 0" "p_vaddr text_phdr AND NOT PGMASK = 0x8048000"
    by code_simp+
  then show ?thesis
    using load_segment_terminates [OF v b, of _ False] by (simp add: text_phdr_def)
qed

section \<open>The arguments on the stack\<close>

text \<open>The stack page with some bytes pushed on it.\<close>
definition stack_with :: "u8 list \<Rightarrow> stack" where
  "stack_with c = (PHYS_BASE - of_nat (length c), replicate (4096 - length c) 0 @ c)"

definition c_strings :: "u8 list list \<Rightarrow> u8 list" where
  "c_strings ss = concat (map (\<lambda>s. s @ [0]) ss)"

definition string_addrs :: "u8 list list \<Rightarrow> u8 list \<Rightarrow> u32 list" where
  "string_addrs ss c = map (\<lambda>i. PHYS_BASE - of_nat (length (c_strings (drop i ss) @ c))) [0..<length ss]"

definition user_word :: "u32 \<Rightarrow> u8 list \<Rightarrow> u32 kernel" where
  "user_word p page = map_option bytes_u32 (stack_read p 4 page)"

lemma stack_base_eq: "stack_base = 0xbffff000"
  by (simp add: stack_base_def PHYS_BASE_def page_consts)

lemma stack_offset:
  assumes "k \<le> 4096"
  shows "unat (PHYS_BASE - of_nat k - stack_base) = 4096 - k" and "stack_base \<le> PHYS_BASE - of_nat k"
proof -
  have k: "unat (of_nat k :: u32) = k"
    using assms by (subst unat_of_nat_small) simp_all
  have "PHYS_BASE - of_nat k - stack_base = 4096 - of_nat k"
    by (simp add: stack_base_eq PHYS_BASE_def)
  then show "unat (PHYS_BASE - of_nat k - stack_base) = 4096 - k"
    using assms k by (simp only: unat_diff_small word_le_nat_alt) (simp add: unat_sub word_le_nat_alt)
  have "(of_nat k :: u32) \<le> PHYS_BASE"
    using assms k by (simp add: word_le_nat_alt PHYS_BASE_def)
  then have "unat (PHYS_BASE - of_nat k) = 0xc0000000 - k"
    using k by (simp add: unat_sub PHYS_BASE_def)
  then show "stack_base \<le> PHYS_BASE - of_nat k"
    using assms by (simp add: word_le_nat_alt stack_base_eq)
qed

lemma stack_length: "length c \<le> 4096 \<Longrightarrow> length (snd (stack_with c)) = 4096"
  by (simp add: stack_with_def)

lemma push_bytes_stack:
  assumes "length bs + length c \<le> 4096"
  shows "push_bytes bs (stack_with c) = Some (stack_with (bs @ c))"
proof -
  let ?k = "length bs + length c"
  have esp: "PHYS_BASE - of_nat (length c) - of_nat (length bs) = PHYS_BASE - of_nat ?k"
    by simp
  have "overwrite (replicate (4096 - length c) 0 @ c) (4096 - ?k) bs = replicate (4096 - ?k) 0 @ bs @ c"
    using assms by (simp add: overwrite_def min_def)
  then show ?thesis
    using assms stack_offset [of ?k]
    by (simp add: push_bytes_def stack_with_def stack_write_def Let_def esp ASSERT_holds)
qed

lemma stack_read_stack:
  assumes "length a + length b + length c \<le> 4096"
  shows "stack_read (PHYS_BASE - of_nat (length b + length c)) (length b) (snd (stack_with (a @ b @ c))) = Some b"
proof -
  let ?k = "length b + length c"
  have "drop (4096 - ?k) (replicate (4096 - length (a @ b @ c)) 0 @ a @ b @ c) = b @ c"
    using assms by simp
  then show ?thesis
    using assms stack_offset [of ?k] by (simp add: stack_read_def stack_with_def ASSERT_holds)
qed

lemma user_word_stack:
  assumes "length a + 4 + length c \<le> 4096"
  shows "user_word (PHYS_BASE - of_nat (4 + length c)) (snd (stack_with (a @ u32_bytes w @ c))) = Some w"
  using stack_read_stack [of a "u32_bytes w" c] bytes_u32_bytes [of w "[]"] assms by (simp add: user_word_def)

lemma c_strings_simps [simp]:
  "c_strings [] = []" "c_strings (s # ss) = s @ 0 # c_strings ss" "c_strings (ss @ ts) = c_strings ss @ c_strings ts"
  by (simp_all add: c_strings_def)

lemma string_addrs_snoc:
  "string_addrs (ss @ [s]) c = string_addrs ss (s @ 0 # c) @ [PHYS_BASE - of_nat (length (s @ 0 # c))]"
  unfolding string_addrs_def by (simp add: algebra_simps cong: map_cong)

lemma length_string_addrs [simp]: "length (string_addrs ss c) = length ss"
  by (simp add: string_addrs_def)

text \<open>The strings the command line was split into.\<close>
definition arguments_ok :: "mem \<Rightarrow> ptr list \<Rightarrow> u8 list list \<Rightarrow> bool" where
  "arguments_ok m arguments ss \<longleftrightarrow>
     length ss < length arguments \<and> (\<forall>i < length ss. arguments ! i \<noteq> 0 \<and> cstr m (arguments ! i) (ss ! i))"

lemma push_strings_stack:
  assumes "arguments_ok m arguments ss" and "length ss \<le> length argv"
    and "length (c_strings ss) + length c \<le> 4096"
  shows "push_strings m arguments (length ss) argv (stack_with c)
    = Some (string_addrs ss c @ drop (length ss) argv, stack_with (c_strings ss @ c))"
  using assms
proof (induction ss arbitrary: argv c rule: rev_induct)
  case Nil
  then show ?case
    by (simp add: string_addrs_def)
next
  case (snoc s ss)
  let ?a = "arguments ! length ss" and ?esp = "PHYS_BASE - of_nat (length (s @ 0 # c))"
  have a: "length ss < length arguments" "?a \<noteq> 0" "cstr m ?a s"
    using snoc.prems(1) by (simp_all add: arguments_ok_def nth_append All_less_Suc)
  have ok: "arguments_ok m arguments ss"
    using snoc.prems(1) by (simp add: arguments_ok_def nth_append All_less_Suc)
  have blk: "block m ?a (length s + 1) = s @ [0]"
    using a(3) cstr_bound [OF a(3)] block_snoc [of ?a "length s" m] by (simp add: cstr_iff)
  have push: "push_bytes (s @ [0]) (stack_with c) = Some (stack_with (s @ 0 # c))"
    using push_bytes_stack [of "s @ [0]" c] snoc.prems(3) by simp
  have "push_strings m arguments (length ss) (argv[length ss := ?esp]) (stack_with (s @ 0 # c))
      = Some (string_addrs ss (s @ 0 # c) @ drop (length ss) (argv[length ss := ?esp]), stack_with (c_strings ss @ s @ 0 # c))"
    using snoc.prems(2,3) by (intro snoc.IH) (simp_all add: ok)
  moreover have "drop (length ss) (argv[length ss := ?esp]) = ?esp # drop (Suc (length ss)) argv"
    using snoc.prems(2) by (simp add: Cons_nth_drop_Suc [symmetric])
  moreover have "fst (stack_with (s @ 0 # c)) = ?esp"
    by (simp add: stack_with_def)
  ultimately show ?case
    using a snoc.prems(2) blk push
    by (simp add: kernel_simps strlen_cstr [OF a(3,2)] string_addrs_snoc del: of_nat_add of_nat_Suc)
qed

lemma push_argv_stack:
  assumes "j \<le> length argv" and "4 * j + length c \<le> 4096"
  shows "\<exists>argv'. push_argv j argv (stack_with c) = Some (argv', stack_with (concat (map u32_bytes (take j argv)) @ c))
    \<and> drop j argv' = drop j argv \<and> length argv' = length argv"
  using assms
proof (induction j arbitrary: argv c)
  case 0
  then show ?case
    by simp
next
  case (Suc j)
  let ?c = "u32_bytes (argv ! j) @ c" and ?argv = "argv[j := fst (stack_with (u32_bytes (argv ! j) @ c))]"
  have "push_bytes (u32_bytes (argv ! j)) (stack_with c) = Some (stack_with ?c)"
    using Suc.prems(2) by (intro push_bytes_stack) simp
  moreover obtain argv' where "push_argv j ?argv (stack_with ?c) =
      Some (argv', stack_with (concat (map u32_bytes (take j ?argv)) @ ?c))" "drop j argv' = drop j ?argv" "length argv' = length argv"
    using Suc.IH [of ?argv ?c] Suc.prems by auto
  moreover from this(2) have "drop (Suc j) argv' = drop (Suc j) argv"
    using drop_drop [of 1 j argv'] drop_drop [of 1 j ?argv] by simp
  ultimately show ?case
    using Suc.prems(1) by (simp add: kernel_simps take_Suc_conv_app_nth)
qed

lemma push_argv_last:
  assumes "j < length argv" and "4 * Suc j + length c \<le> 4096"
  shows "\<exists>argv'. push_argv (Suc j) argv (stack_with c) = Some (argv', stack_with (concat (map u32_bytes (take (Suc j) argv)) @ c))
    \<and> argv' ! j = PHYS_BASE - of_nat (4 + length c) \<and> length argv' = length argv"
proof -
  let ?c = "u32_bytes (argv ! j) @ c" and ?argv = "argv[j := fst (stack_with (u32_bytes (argv ! j) @ c))]"
  have "push_bytes (u32_bytes (argv ! j)) (stack_with c) = Some (stack_with ?c)"
    using assms(2) by (intro push_bytes_stack) simp
  moreover obtain argv' where argv': "push_argv j ?argv (stack_with ?c) =
      Some (argv', stack_with (concat (map u32_bytes (take j ?argv)) @ ?c))" "drop j argv' = drop j ?argv" "length argv' = length argv"
    using push_argv_stack [of j ?argv ?c] assms by auto
  moreover have "argv' ! j = fst (stack_with ?c)"
    using argv'(2,3) assms(1) hd_drop_conv_nth [of j argv'] hd_drop_conv_nth [of j ?argv] by simp
  ultimately show ?thesis
    using assms(1) by (simp add: kernel_simps take_Suc_conv_app_nth stack_with_def)
qed

lemma count_args_count:
  assumes "n < length arguments" and "arguments ! n = 0" and "\<forall>i < n. arguments ! i \<noteq> 0" and "i \<le> n"
  shows "count_args arguments i acc = Some (if i = n then acc else Some (n - 1))"
  using assms(4)
proof (induction "n - i" arbitrary: i acc)
  case 0
  then show ?case
    using assms(1,2) by (subst count_args.simps) (simp add: kernel_simps)
next
  case (Suc k)
  then have "i < n"
    by simp
  moreover have "count_args arguments (i + 1) (Some i) = Some (if i + 1 = n then Some i else Some (n - 1))"
    using Suc by (intro Suc.hyps(1)) simp_all
  ultimately show ?case
    using assms(1,3) by (subst count_args.simps) (auto simp: kernel_simps)
qed

text \<open>The bytes from the stack pointer to the top of user memory once the arguments are pushed.\<close>
definition strings_part :: "u8 list list \<Rightarrow> u8 list" where
  "strings_part ss = replicate (unat (PHYS_BASE - of_nat (length (c_strings ss))) mod 4) 0 @ c_strings ss"

definition argv_part :: "u8 list list \<Rightarrow> u32 \<Rightarrow> u8 list" where
  "argv_part ss g = concat (map u32_bytes (string_addrs ss [])) @ u32_bytes g @ strings_part ss"

definition arg_stack :: "u8 list list \<Rightarrow> u32 \<Rightarrow> u8 list" where
  "arg_stack ss g = u32_bytes g @ u32_bytes (of_nat (length ss)) @
     u32_bytes (PHYS_BASE - of_nat (length (argv_part ss g))) @ argv_part ss g"

lemma length_u32s: "length (concat (map u32_bytes ws)) = 4 * length ws"
  by (induction ws) simp_all

lemma length_argv_part: "length (argv_part ss g) = 4 * length ss + 4 + length (strings_part ss)"
  by (simp add: argv_part_def length_u32s)

lemma strings_part_aligned:
  assumes "length (c_strings ss) \<le> 4096"
  shows "length (strings_part ss) mod 4 = 0" and "length (strings_part ss) < length (c_strings ss) + 4"
proof -
  let ?L = "length (c_strings ss)"
  have "(of_nat ?L :: u32) \<le> PHYS_BASE" "unat (of_nat ?L :: u32) = ?L"
    using assms by (simp_all add: word_le_nat_alt PHYS_BASE_def unat_of_nat_small)
  then have "unat (PHYS_BASE - of_nat ?L) = 0xc0000000 - ?L"
    by (simp add: unat_sub PHYS_BASE_def)
  then have len: "length (strings_part ss) = (0xc0000000 - ?L) mod 4 + ?L"
    by (simp add: strings_part_def)
  then show "length (strings_part ss) < ?L + 4"
    using mod_less_divisor [of 4 "0xc0000000 - ?L"] by linarith
  show "length (strings_part ss) mod 4 = 0"
    unfolding len mod_add_left_eq using assms by simp
qed

lemma push_arguments_stack:
  assumes "arguments_ok m arguments ss" and "ss \<noteq> []" and "arguments ! length ss = 0" and "length ss < length argv"
    and "length (c_strings ss) + 4 * length ss + 20 \<le> 4096"
  shows "push_arguments m arguments argv (stack_with []) = Some (stack_with (arg_stack ss (argv ! length ss)))"
proof -
  let ?n = "length ss" and ?g = "argv ! length ss"
  let ?r = "unat (PHYS_BASE - of_nat (length (c_strings ss))) mod 4"
  have small: "length (strings_part ss) + 4 * ?n + 16 \<le> 4096"
    using assms(5) strings_part_aligned(2) [of ss] by linarith
  have count: "count_args arguments 0 None = Some (Some (?n - 1))"
    using assms(1-3) by (subst count_args_count [of ?n]) (auto simp: arguments_ok_def)
  have n: "?n - 1 + 1 = ?n"
    using assms(2) by (cases ss) simp_all
  have strs: "push_strings m arguments ?n argv (stack_with []) =
      Some (string_addrs ss [] @ drop ?n argv, stack_with (c_strings ss))"
    using push_strings_stack [of m arguments ss argv "[]"] assms(1,4,5) by simp
  have esp: "fst (stack_with (c_strings ss)) = PHYS_BASE - of_nat (length (c_strings ss))"
    by (simp add: stack_with_def)
  have pad: "(if 0 < ?r then push_bytes (replicate ?r 0) (stack_with (c_strings ss)) else Some (stack_with (c_strings ss)))
      = Some (stack_with (strings_part ss))"
    using push_bytes_stack [of "replicate ?r 0" "c_strings ss"] small by (simp add: strings_part_def)
  let ?argv = "string_addrs ss [] @ drop ?n argv"
  have tk: "concat (map u32_bytes (take (Suc ?n) ?argv)) @ strings_part ss = argv_part ss ?g"
    using assms(4) by (simp add: argv_part_def take_Suc_conv_app_nth)
  obtain argv' where argv': "push_argv (Suc ?n) ?argv (stack_with (strings_part ss)) = Some (argv', stack_with (argv_part ss ?g))"
      "argv' ! ?n = PHYS_BASE - of_nat (4 + length (strings_part ss))" "length argv' = length ?argv"
    using push_argv_last [of ?n ?argv "strings_part ss"] assms(4) small unfolding tk by auto
  let ?c3 = "argv_part ss ?g" and ?E = "PHYS_BASE - of_nat (length (argv_part ss (argv ! length ss)))"
  have E: "fst (stack_with ?c3) = ?E"
    by (simp add: stack_with_def)
  have p1: "push_bytes (u32_bytes ?E) (stack_with ?c3) = Some (stack_with (u32_bytes ?E @ ?c3))"
    using small by (intro push_bytes_stack) (simp add: length_argv_part)
  have p2: "push_bytes (u32_bytes (of_nat ?n)) (stack_with (u32_bytes ?E @ ?c3))
      = Some (stack_with (u32_bytes (of_nat ?n) @ u32_bytes ?E @ ?c3))"
    using small by (intro push_bytes_stack) (simp add: length_argv_part)
  have p3: "push_bytes (u32_bytes ?g) (stack_with (u32_bytes (of_nat ?n) @ u32_bytes ?E @ ?c3)) = Some (stack_with (arg_stack ss ?g))"
    unfolding arg_stack_def using small by (intro push_bytes_stack) (simp add: length_argv_part)
  have rd: "stack_read (PHYS_BASE - of_nat (4 + length (strings_part ss))) 4 (snd (stack_with (u32_bytes (of_nat ?n) @ u32_bytes ?E @ ?c3)))
      = Some (u32_bytes ?g)"
    using stack_read_stack [of "u32_bytes (of_nat ?n) @ u32_bytes ?E @ concat (map u32_bytes (string_addrs ss []))" "u32_bytes ?g" "strings_part ss"]
      small by (simp only: argv_part_def append_assoc length_append length_u32_bytes length_u32s length_string_addrs)
  have ft: "fetch argv' ?n = Some (PHYS_BASE - of_nat (4 + length (strings_part ss)))"
    using assms(4) argv'(2,3) by (simp add: fetch_def)
  show ?thesis
    by (simp only: push_arguments_def count Option.bind.simps n strs prod.case Let_def esp pad argv'(1) [unfolded Suc_eq_plus1]
        E p1 p2 ft rd p3)
qed

lemma user_word_at:
  assumes "content = a @ u32_bytes w @ c" and "length content \<le> 4096" and "length a = k"
  shows "user_word (PHYS_BASE - of_nat (length content) + of_nat k) (snd (stack_with content)) = Some w"
proof -
  have "PHYS_BASE - of_nat (length content) + of_nat k = PHYS_BASE - of_nat (4 + length c)"
    using assms(1,3) by simp
  then show ?thesis
    using user_word_stack [of a c w] assms(1,2) by (simp only: length_append length_u32_bytes add.assoc)
qed

lemma string_at:
  assumes "i < length ss" and "length (a @ c_strings ss) \<le> 4096"
  shows "stack_read (string_addrs ss [] ! i) (length (ss ! i) + 1) (snd (stack_with (a @ c_strings ss))) = Some (ss ! i @ [0])"
proof -
  let ?c = "c_strings (drop (Suc i) ss)"
  have d: "c_strings (drop i ss) = (ss ! i @ [0]) @ ?c"
    using Cons_nth_drop_Suc [OF assms(1)] c_strings_simps(2) [of "ss ! i" "drop (Suc i) ss"] by simp
  have parts: "c_strings ss = c_strings (take i ss) @ (ss ! i @ [0]) @ ?c"
    using c_strings_simps(3) [of "take i ss" "drop i ss"] d by simp
  have addr: "string_addrs ss [] ! i = PHYS_BASE - of_nat (length (ss ! i @ [0]) + length ?c)"
    using assms(1) by (simp add: string_addrs_def d)
  have "length (a @ c_strings ss) = length (a @ c_strings (take i ss)) + length (ss ! i @ [0]) + length ?c"
    by (subst parts) simp
  then show ?thesis
    using stack_read_stack [of "a @ c_strings (take i ss)" "ss ! i @ [0]" ?c] assms(2)
    by (simp add: addr) (metis parts append_Cons append_Nil append_assoc)
qed

text \<open>C11: the stack a program starts with.  For arguments that fit into the page and whose array ends
  with a null pointer, pushing them succeeds; the stack pointer is a multiple of 4, above the return
  address are the number of arguments and the address of the argument array, which lies right
  there, and entry \<open>i\<close> of the array points to a copy of argument \<open>i\<close> with its terminator.  The
  entry after the last one, which C programs expect to be null, is whatever the uninitialised
  array \<^verbatim>\<open>argv\<close> of \<^verbatim>\<open>setup_stack\<close> held there.\<close>
theorem push_arguments_layout:
  assumes "arguments_ok m arguments ss" and "ss \<noteq> []" and "arguments ! length ss = 0" and "length ss < length argv"
    and "length (c_strings ss) + 4 * length ss + 20 \<le> 4096"
  shows "\<exists>esp page. push_arguments m arguments argv (PHYS_BASE, replicate 4096 0) = Some (esp, page) \<and>
    4 dvd unat esp \<and> user_word (esp + 4) page = Some (of_nat (length ss)) \<and> user_word (esp + 8) page = Some (esp + 12) \<and>
    (\<forall>i < length ss. \<exists>p. user_word (esp + of_nat (12 + 4 * i)) page = Some p \<and>
       stack_read p (length (ss ! i) + 1) page = Some (ss ! i @ [0])) \<and>
    user_word (esp + of_nat (12 + 4 * length ss)) page = Some (argv ! length ss)"
proof -
  define g content where gc: "g = argv ! length ss" "content = arg_stack ss g"
  have small: "length (strings_part ss) + 4 * length ss + 16 \<le> 4096"
    using assms(5) strings_part_aligned(2) [of ss] by linarith
  have len: "length content = 16 + 4 * length ss + length (strings_part ss)"
    by (simp add: gc(2) arg_stack_def length_argv_part)
  then have fits: "length content \<le> 4096"
    using small by simp
  define esp page where st: "esp = PHYS_BASE - of_nat (length content)" "page = snd (stack_with content)"
  have run: "push_arguments m arguments argv (PHYS_BASE, replicate 4096 0) = Some (esp, page)"
    using push_arguments_stack [OF assms] by (simp add: gc st stack_with_def)
  note at = user_word_at [OF _ fits, folded st]
  have "unat esp = 0xc0000000 - length content"
    using fits unfolding st by (subst unat_sub) (simp_all add: word_le_nat_alt PHYS_BASE_def unat_of_nat_small)
  moreover have "4 dvd length content"
    using strings_part_aligned(1) [of ss] assms(5) unfolding len by (simp add: mod_0_imp_dvd)
  ultimately have aligned: "4 dvd unat esp"
    by (simp add: dvd_diff_nat)
  have w1: "user_word (esp + 4) page = Some (of_nat (length ss))"
    using at [of "u32_bytes g" "of_nat (length ss)" _ 4] by (simp add: gc(2) arg_stack_def)
  have "PHYS_BASE - of_nat (length (argv_part ss g)) = esp + 12"
    by (simp add: st len length_argv_part)
  then have w2: "user_word (esp + 8) page = Some (esp + 12)"
    using at [of "u32_bytes g @ u32_bytes (of_nat (length ss))" "esp + 12" "argv_part ss g" 8] by (simp add: gc(2) arg_stack_def)
  define pre where "pre = u32_bytes g @ u32_bytes (of_nat (length ss)) @ u32_bytes (PHYS_BASE - of_nat (length (argv_part ss g)))"
  have pre: "content = pre @ concat (map u32_bytes (string_addrs ss [])) @ u32_bytes g @ strings_part ss" "length pre = 12"
    by (simp_all add: pre_def gc(2) arg_stack_def argv_part_def)
  have w3: "user_word (esp + of_nat (12 + 4 * length ss)) page = Some g"
    by (rule at [of "pre @ concat (map u32_bytes (string_addrs ss []))" _ "strings_part ss"]) (simp_all add: pre length_u32s)
  have "user_word (esp + of_nat (12 + 4 * i)) page = Some (string_addrs ss [] ! i) \<and>
      stack_read (string_addrs ss [] ! i) (length (ss ! i) + 1) page = Some (ss ! i @ [0])" if i: "i < length ss" for i
  proof
    let ?A = "string_addrs ss []"
    have "concat (map u32_bytes ?A) = concat (map u32_bytes (take i ?A)) @ u32_bytes (?A ! i) @ concat (map u32_bytes (drop (Suc i) ?A))"
      using i by (subst id_take_nth_drop [of i ?A]) simp_all
    then show "user_word (esp + of_nat (12 + 4 * i)) page = Some (?A ! i)"
      using i by (intro at [of "pre @ concat (map u32_bytes (take i ?A))" _ "concat (map u32_bytes (drop (Suc i) ?A)) @ u32_bytes g @ strings_part ss"])
        (simp_all add: pre length_u32s)
    define rest where "rest = pre @ concat (map u32_bytes ?A) @ u32_bytes g
        @ replicate (unat (PHYS_BASE - of_nat (length (c_strings ss))) mod 4) 0"
    have "content = rest @ c_strings ss"
      unfolding pre(1) strings_part_def rest_def by simp
    then show "stack_read (?A ! i) (length (ss ! i) + 1) page = Some (ss ! i @ [0])"
      using string_at [OF i, of rest] fits by (simp add: st)
  qed
  then show ?thesis
    using run aligned w1 w2 w3 by (intro exI [of _ esp] exI [of _ page]) (auto simp: gc(1))
qed

theorem push_arguments_layout_witness:
  "\<exists>esp page. push_arguments [0, 0x65, 0x63, 0, 0x68, 0x69, 0] [1, 4, 0, 9] [7, 7, 7, 7] (PHYS_BASE, replicate 4096 0) = Some (esp, page) \<and>
    user_word (esp + 4) page = Some 2"
proof -
  let ?m = "[0, 0x65, 0x63, 0, 0x68, 0x69, 0] :: mem" and ?ss = "[[0x65, 0x63], [0x68, 0x69]] :: u8 list list"
  have "arguments_ok ?m [1, 4, 0, 9] ?ss"
    by (simp add: arguments_ok_def All_less_Suc cstr_iff block_def)
  from push_arguments_layout [OF this, of "[7, 7, 7, 7]"] show ?thesis
    by auto
qed

end
