(* ===== verification/Init.thy ===== *)
theory Init
  imports Pagedir
begin

text \<open>
  \<^verbatim>\<open>threads/init.c\<close>: the kernel's page tables.  \<^verbatim>\<open>paging_init\<close> runs on the page allocator that \<^verbatim>\<open>palloc_init\<close> set up
  and writes the tables into its pages.  The symbols \<^verbatim>\<open>_start\<close> and \<^verbatim>\<open>_end_kernel_text\<close> of the linker are arguments.
\<close>

section \<open>The kernel's page tables\<close>

fun paging_loop :: "u32 \<Rightarrow> u32 \<Rightarrow> u32 \<Rightarrow> u32 \<Rightarrow> nat \<Rightarrow> nat \<Rightarrow> vstate \<Rightarrow> vstate kernel" where
  "paging_loop start end_text pd pt page 0 v = Some v"
| "paging_loop start end_text pd pt page (Suc n) v = do {
     vaddr \<leftarrow> ptov (of_nat page * PGSIZE);
     let pde = pd + 4 * pd_no vaddr;
     let in_kernel_text = (start \<le> vaddr \<and> vaddr < end_text);
     (pt, v) \<leftarrow>
       (if rd v pde = 0
        then do {
          (pt, v) \<leftarrow> get_page (PAL_ASSERT OR PAL_ZERO) v;
          e \<leftarrow> pde_create pt;
          Some (pt, wr pde e v)
        }
        else Some (pt, v));
     e \<leftarrow> pte_create_kernel vaddr (\<not> in_kernel_text);
     paging_loop start end_text pd pt (page + 1) n (wr (pt + 4 * pt_no vaddr) e v)
   }"

definition paging_init :: "u32 \<Rightarrow> u32 \<Rightarrow> vstate \<Rightarrow> vstate kernel" where
  "paging_init start end_text v = do {
     (pd, v) \<leftarrow> get_page (PAL_ASSERT OR PAL_ZERO) v;
     let v = v\<lparr>base_page_dir := pd\<rparr>;
     v \<leftarrow> paging_loop start end_text pd 0 0 (unat (ram_pages v)) v;
     p \<leftarrow> vtop (base_page_dir v);
     Some (v\<lparr>cr3 := p\<rparr>)
   }"

section \<open>Pages from the kernel pool\<close>

lemma kernel_page:
  assumes ok: "palloc_ok (pal v)" "PHYS_BASE \<le> pbase (kernel_pool (pal v))" and "0 < free_count (pal v)"
  obtains pt v' where "get_page (PAL_ASSERT OR PAL_ZERO) v = Some (pt, v')" and "is_table v' pt" and "palloc_ok (pal v')"
    and "PHYS_BASE \<le> pbase (kernel_pool (pal v'))" and "unat (pg_no pt) \<notin> pages_used (pal v)"
    and "pages_used (pal v) \<subseteq> pages_used (pal v')" and "base_page_dir v' = base_page_dir v" and "ram_pages v' = ram_pages v"
    and "\<forall>x. ram (pal v') x = (if pg_no x = pg_no pt then 0 else ram (pal v) x)" and "free_count (pal v') = free_count (pal v) - 1"
proof -
  have f: "(PAL_ASSERT OR PAL_ZERO) AND PAL_USER = 0" "(PAL_ASSERT OR PAL_ZERO) AND PAL_ZERO \<noteq> 0" "(PAL_ASSERT OR PAL_ZERO) AND PAL_ASSERT \<noteq> 0"
    by (simp_all add: PAL_ZERO_def PAL_ASSERT_def PAL_USER_def)
  obtain a s' where c: "palloc_get_multiple (PAL_ASSERT OR PAL_ZERO) 1 (pal v) = Some (a, s')" "free_count s' = free_count (pal v) - 1"
    using palloc_get_count [OF ok(1) assms(3) f(1)] by blast
  from ok f(1,2) show thesis
  proof (cases rule: get_page_zero)
    case full
    then show thesis
      using c(1) f(3) by (simp add: get_page_def palloc_get_page_def)
  next
    case (fresh pt v')
    have "pal v' = s'"
      using fresh(1) c(1) by (auto simp: get_page_def palloc_get_page_def)
    then show thesis
      using fresh ok(2) c(2) by (intro that [of pt v']) simp_all
  qed
qed

section \<open>The map under construction\<close>

text \<open>The address of page \<open>n\<close> of memory, and the entry the loop writes for it.\<close>
definition kpage_addr :: "nat \<Rightarrow> u32" where
  "kpage_addr n = of_nat n * PGSIZE + PHYS_BASE"

definition kernel_entry :: "u32 \<Rightarrow> u32 \<Rightarrow> nat \<Rightarrow> u32" where
  "kernel_entry start end_text n =
     of_nat n * PGSIZE OR PTE_P OR (if start \<le> kpage_addr n \<and> kpage_addr n < end_text then 0 else PTE_W)"

text \<open>After \<open>n\<close> pages: the tables present are those the pages need, each page below \<open>n\<close> has its entry and no
  other address has one.\<close>
definition kmap :: "u32 \<Rightarrow> u32 \<Rightarrow> u32 \<Rightarrow> nat \<Rightarrow> vstate \<Rightarrow> bool" where
  "kmap start end_text pd n v \<longleftrightarrow> dir_ok 1024 v pd \<and>
     (\<forall>k. unat k < 1024 \<longrightarrow> (pt_of v pd k = None \<longleftrightarrow> \<not> (768 \<le> unat k \<and> unat k < 768 + (n + 1023) div 1024))) \<and>
     (\<forall>a. entry_of v pd a =
       (if PHYS_BASE \<le> a \<and> unat (a - PHYS_BASE) div 4096 < n then kernel_entry start end_text (unat (a - PHYS_BASE) div 4096) else 0))"

lemma unat_kpage_addr: "n < 2 ^ 18 \<Longrightarrow> unat (kpage_addr n) = 4096 * n + 0xc0000000"
proof -
  assume n: "n < 2 ^ 18"
  have "unat (of_nat n * PGSIZE :: u32) = 4096 * n"
    using n by (subst unat_mult_small) (simp_all add: page_consts unat_of_nat_small)
  then show ?thesis
    using n by (simp add: kpage_addr_def PHYS_BASE_def) (subst unat_add_small, simp_all)
qed

lemma kpage_facts:
  assumes "n < 2 ^ 18"
  shows "ptov (of_nat n * PGSIZE) = Some (kpage_addr n)" and "pg_ofs (kpage_addr n) = 0" and "PHYS_BASE \<le> kpage_addr n"
    and "kpage_addr n - PHYS_BASE = of_nat n * PGSIZE" and "unat (pd_no (kpage_addr n)) = 768 + n div 1024"
    and "unat (pt_no (kpage_addr n)) = n mod 1024"
proof -
  have u: "unat (of_nat n * PGSIZE :: u32) = 4096 * n"
    using assms by (subst unat_mult_small) (simp_all add: page_consts unat_of_nat_small)
  show "ptov (of_nat n * PGSIZE) = Some (kpage_addr n)"
    using assms by (simp add: ptov_def kernel_simps kpage_addr_def word_less_nat_alt u PHYS_BASE_def)
  note k = unat_kpage_addr [OF assms]
  show "pg_ofs (kpage_addr n) = 0"
    unfolding pg_ofs_zero k by (simp add: dvd_add_right_iff)
  show "PHYS_BASE \<le> kpage_addr n"
    by (simp add: word_le_nat_alt k PHYS_BASE_def)
  show "kpage_addr n - PHYS_BASE = of_nat n * PGSIZE"
    by (simp add: kpage_addr_def)
  have "(4096 * n + 0xc0000000) div 4194304 = n div 1024 + 768"
    using div_mult2_eq [of "4096 * n + 0xc0000000" 4096 1024] div_mult_self2 [of 1024 n 786432] by simp
  then show "unat (pd_no (kpage_addr n)) = 768 + n div 1024"
    unfolding unat_pd_no k by simp
  show "unat (pt_no (kpage_addr n)) = n mod 1024"
    unfolding unat_pt_no k using mod_mult_self1 [of n 768 1024] by simp
qed

lemma div_ceil: "(n + 1023) div 1024 = n div 1024 + (if n mod 1024 = 0 then 0 else 1)" for n :: nat
proof -
  have "(n + 1023) div 1024 = (n mod 1024 + 1023 + 1024 * (n div 1024)) div 1024"
    by simp
  also have "\<dots> = n div 1024 + (n mod 1024 + 1023) div 1024"
    by (simp only: div_mult_self2 [of 1024] zero_neq_numeral [symmetric] not_False_eq_True)
  also have "(n mod 1024 + 1023) div 1024 = (if n mod 1024 = 0 then 0 else 1)"
    by (auto intro: div_nat_eqI)
  finally show ?thesis .
qed

lemma pg_no_kpage:
  assumes "n < 2 ^ 18"
  shows "pg_no a = pg_no (kpage_addr n) \<longleftrightarrow> PHYS_BASE \<le> a \<and> unat (a - PHYS_BASE) div 4096 = n"
proof -
  have k: "unat (pg_no (kpage_addr n)) = n + 786432"
    unfolding unat_pg_no unat_kpage_addr [OF assms] by simp
  show ?thesis
  proof (cases "PHYS_BASE \<le> a")
    case True
    then obtain y where y: "unat a = 0xc0000000 + y"
      by (auto simp: word_le_nat_alt PHYS_BASE_def le_iff_add)
    have "unat (a - PHYS_BASE) = y"
      using True y by (subst unat_sub) (simp_all add: PHYS_BASE_def)
    moreover have "unat (pg_no a) = y div 4096 + 786432"
      unfolding unat_pg_no y by simp
    ultimately show ?thesis
      using True by (simp add: word_unat_eq_iff k)
  next
    case False
    then have "unat a < 0xc0000000"
      by (simp add: word_le_nat_alt PHYS_BASE_def)
    then have "unat (pg_no a) < 786432"
      unfolding unat_pg_no by (simp add: div_less_iff_less_mult)
    then show ?thesis
      using False by (auto simp: word_unat_eq_iff k)
  qed
qed

text \<open>The table for the next page: there already, or a new one.\<close>
lemma kmap_table:
  assumes km: "kmap start end_text pd n v" and n: "n < 2 ^ 18" and free: "n mod 1024 = 0 \<longrightarrow> 0 < free_count (pal v)"
    and pt: "n mod 1024 \<noteq> 0 \<longrightarrow> pt_of v pd (pd_no (kpage_addr n)) = Some pt"
  obtains pt' v' where "(if rd v (pd + 4 * pd_no (kpage_addr n)) = 0
        then do { (pt, v) \<leftarrow> get_page (PAL_ASSERT OR PAL_ZERO) v; e \<leftarrow> pde_create pt; Some (pt, wr (pd + 4 * pd_no (kpage_addr n)) e v) }
        else Some (pt, v)) = Some (pt', v')"
    and "dir_ok 1024 v' pd" and "pt_of v' pd (pd_no (kpage_addr n)) = Some pt'" and "\<And>a. entry_of v' pd a = entry_of v pd a"
    and "\<And>k. unat k < 1024 \<Longrightarrow> k \<noteq> pd_no (kpage_addr n) \<Longrightarrow> pt_of v' pd k = pt_of v pd k"
    and "base_page_dir v' = base_page_dir v" and "ram_pages v' = ram_pages v"
    and "free_count (pal v') = free_count (pal v) - (if n mod 1024 = 0 then 1 else 0)"
proof -
  let ?k = "pd_no (kpage_addr n)"
  have ok: "dir_ok 1024 v pd" and k: "unat ?k < 1024"
    using km table_index(3) by (auto simp: kmap_def)
  have "pt_of v pd ?k = None \<longleftrightarrow> n mod 1024 = 0"
  proof -
    have "n div 1024 < (n + 1023) div 1024 \<longleftrightarrow> n mod 1024 \<noteq> 0"
      unfolding div_ceil by simp
    moreover have "pt_of v pd ?k = None \<longleftrightarrow> \<not> (768 \<le> unat ?k \<and> unat ?k < 768 + (n + 1023) div 1024)"
      using km k unfolding kmap_def by blast
    ultimately show ?thesis
      unfolding kpage_facts(5) [OF n] by simp
  qed
  from ok k show thesis
  proof (cases rule: dir_okD)
    case (table qt)
    then show thesis
      using that [of pt v] ok pt \<open>pt_of v pd ?k = None \<longleftrightarrow> n mod 1024 = 0\<close> by simp
  next
    case missing
    then have m: "n mod 1024 = 0"
      using \<open>pt_of v pd ?k = None \<longleftrightarrow> n mod 1024 = 0\<close> by simp
    obtain qt v1 where g: "get_page (PAL_ASSERT OR PAL_ZERO) v = Some (qt, v1)" "is_table v1 qt" "palloc_ok (pal v1)"
      "PHYS_BASE \<le> pbase (kernel_pool (pal v1))" "unat (pg_no qt) \<notin> pages_used (pal v)"
      "pages_used (pal v) \<subseteq> pages_used (pal v1)" "base_page_dir v1 = base_page_dir v" "ram_pages v1 = ram_pages v"
      "\<forall>x. ram (pal v1) x = (if pg_no x = pg_no qt then 0 else ram (pal v) x)" "free_count (pal v1) = free_count (pal v) - 1"
      using kernel_page [OF dir_ok_basic(1,2) [OF ok]] free m by blast
    have qt: "PHYS_BASE \<le> qt" "pg_ofs qt = 0"
      using g(2) by (simp_all add: is_table_def)
    obtain e where e: "pde_create qt = Some e" "pde_get_pt e = Some qt" "e \<noteq> 0"
      using pde_roundtrip [OF qt] by blast
    note ft = fresh_table [OF ok k missing(1) g(2,5,6) spec [OF g(9)] g(3,4) e(2,3)]
    show thesis
    proof (rule that [of qt "wr (pd + 4 * ?k) e v1"])
      show "entry_of (wr (pd + 4 * ?k) e v1) pd a = entry_of v pd a" for a
        by (rule ft(3)) (rule table_index(3))
    qed (use missing(2) g e ft m in \<open>simp_all add: wr_def free_count_def\<close>)
  qed
qed

lemma pte_create_kpage:
  assumes "n < 2 ^ 18"
  shows "pte_create_kernel (kpage_addr n) (\<not> (start \<le> kpage_addr n \<and> kpage_addr n < end_text)) = Some (kernel_entry start end_text n)"
  using kpage_facts [OF assms] by (simp add: pte_create_kernel_def vtop_def is_kernel_vaddr_def kernel_simps kernel_entry_def)

lemma kmap_next:
  assumes km: "kmap start end_text pd n v" and n: "n < 2 ^ 18" and ok: "dir_ok 1024 v' pd"
    and pt: "pt_of v' pd (pd_no (kpage_addr n)) = Some pt" and same: "\<And>a. entry_of v' pd a = entry_of v pd a"
    and others: "\<And>k. unat k < 1024 \<Longrightarrow> k \<noteq> pd_no (kpage_addr n) \<Longrightarrow> pt_of v' pd k = pt_of v pd k"
  shows "kmap start end_text pd (Suc n) (wr (pt + 4 * pt_no (kpage_addr n)) (kernel_entry start end_text n) v')"
proof -
  let ?k = "pd_no (kpage_addr n)" and ?v = "wr (pt + 4 * pt_no (kpage_addr n)) (kernel_entry start end_text n) v'"
  note k = table_index(3) [of "kpage_addr n"]
  note w = wr_entry [OF ok k pt table_index(2)]
  have "entry_of ?v pd a = (if PHYS_BASE \<le> a \<and> unat (a - PHYS_BASE) div 4096 < Suc n
      then kernel_entry start end_text (unat (a - PHYS_BASE) div 4096) else 0)" for a
  proof -
    have "entry_of v pd a = (if PHYS_BASE \<le> a \<and> unat (a - PHYS_BASE) div 4096 < n
        then kernel_entry start end_text (unat (a - PHYS_BASE) div 4096) else 0)"
      using km unfolding kmap_def by blast
    then show ?thesis
      unfolding entry_of_wr [OF ok k pt table_index(3)] pg_no_kpage [OF n] same by (auto simp: less_Suc_eq)
  qed
  moreover have "pt_of ?v pd j = None \<longleftrightarrow> \<not> (768 \<le> unat j \<and> unat j < 768 + (Suc n + 1023) div 1024)" if j: "unat j < 1024" for j
  proof -
    have "pt_of v pd j = None \<longleftrightarrow> \<not> (768 \<le> unat j \<and> unat j < 768 + (n + 1023) div 1024)"
      using km j unfolding kmap_def by blast
    moreover have "j = ?k \<longleftrightarrow> unat j = 768 + n div 1024"
      unfolding word_unat_eq_iff kpage_facts(5) [OF n] ..
    moreover have "(Suc n + 1023) div 1024 = Suc (n div 1024)"
      by simp
    ultimately show ?thesis
      using w(2) [OF j] others [OF j] pt unfolding div_ceil [of n] by (cases "j = ?k") (auto split: if_splits)
  qed
  ultimately show ?thesis
    unfolding kmap_def using w(1) by blast
qed

lemma paging_loop_spec:
  assumes "kmap start end_text pd n v" and "n + m \<le> 2 ^ 18"
    and "(n + m + 1023) div 1024 \<le> free_count (pal v) + (n + 1023) div 1024"
    and "n mod 1024 \<noteq> 0 \<longrightarrow> pt_of v pd (pd_no (kpage_addr n)) = Some pt"
  shows "\<exists>v'. paging_loop start end_text pd pt n m v = Some v' \<and> kmap start end_text pd (n + m) v' \<and>
    base_page_dir v' = base_page_dir v \<and> ram_pages v' = ram_pages v"
  using assms
proof (induction m arbitrary: n v pt)
  case (Suc m)
  have n: "n < 2 ^ 18"
    using Suc.prems(2) by simp
  have mono: "(n + 1024) div 1024 \<le> (n + Suc m + 1023) div 1024"
    by (intro div_le_mono) simp
  have free: "n mod 1024 = 0 \<longrightarrow> 0 < free_count (pal v)"
    using Suc.prems(3) mono unfolding div_ceil [of n] by auto
  obtain pt' v' where t: "(if rd v (pd + 4 * pd_no (kpage_addr n)) = 0
        then do { (pt, v) \<leftarrow> get_page (PAL_ASSERT OR PAL_ZERO) v; e \<leftarrow> pde_create pt; Some (pt, wr (pd + 4 * pd_no (kpage_addr n)) e v) }
        else Some (pt, v)) = Some (pt', v')"
    "dir_ok 1024 v' pd" "pt_of v' pd (pd_no (kpage_addr n)) = Some pt'" "\<And>a. entry_of v' pd a = entry_of v pd a"
    "\<And>k. unat k < 1024 \<Longrightarrow> k \<noteq> pd_no (kpage_addr n) \<Longrightarrow> pt_of v' pd k = pt_of v pd k"
    "base_page_dir v' = base_page_dir v" "ram_pages v' = ram_pages v"
    "free_count (pal v') = free_count (pal v) - (if n mod 1024 = 0 then 1 else 0)"
    using kmap_table [OF Suc.prems(1) n free Suc.prems(4)] by blast
  let ?v = "wr (pt' + 4 * pt_no (kpage_addr n)) (kernel_entry start end_text n) v'"
  have step: "paging_loop start end_text pd pt n (Suc m) v = paging_loop start end_text pd pt' (Suc n) m ?v"
    using t(1) pte_create_kpage [OF n] kpage_facts(1) [OF n] by (simp add: Let_def)
  have fc: "free_count (pal ?v) = free_count (pal v) - (if n mod 1024 = 0 then 1 else 0)"
    using t(8) by (simp add: wr_def free_count_def)
  have "pt_of ?v pd (pd_no (kpage_addr n)) = Some pt'"
    using wr_entry(2) [OF t(2) table_index(3) t(3) table_index(2) table_index(3)] t(3) by simp
  moreover have "pd_no (kpage_addr (Suc n)) = pd_no (kpage_addr n)" if "Suc n mod 1024 \<noteq> 0"
  proof -
    have "Suc n \<noteq> 2 ^ 18"
      using that by auto
    then have "Suc n < 2 ^ 18"
      using n by simp
    moreover have "Suc n div 1024 = n div 1024"
      using that by (simp add: div_Suc)
    ultimately show ?thesis
      unfolding word_unat_eq_iff kpage_facts(5) [OF n] by (simp add: kpage_facts(5))
  qed
  ultimately have next_pt: "Suc n mod 1024 \<noteq> 0 \<longrightarrow> pt_of ?v pd (pd_no (kpage_addr (Suc n))) = Some pt'"
    by simp
  have "(Suc n + m + 1023) div 1024 \<le> free_count (pal ?v) + (Suc n + 1023) div 1024"
    using Suc.prems(3) free unfolding fc div_ceil [of n] by (auto split: if_splits)
  then show ?case
    using Suc.IH [OF kmap_next [OF Suc.prems(1) n t(2-5)] _ _ next_pt] Suc.prems(2) t(6,7) unfolding step by simp
qed auto

section \<open>Properties\<close>

lemma dir_ok_mono: "dir_ok K v pd \<Longrightarrow> J \<le> K \<Longrightarrow> dir_ok J v pd"
  unfolding dir_ok_def by (meson le_trans less_le_trans)

lemma mapped_cr3: "mapped (v\<lparr>cr3 := c\<rparr>) pd a = mapped v pd a"
  by (simp add: mapped_def)

lemma kmap_start:
  assumes "get_page (PAL_ASSERT OR PAL_ZERO) v = Some (pd, v1)" and "is_table v1 pd" and "palloc_ok (pal v1)"
    and "PHYS_BASE \<le> pbase (kernel_pool (pal v1))" and "\<forall>x. ram (pal v1) x = (if pg_no x = pg_no pd then 0 else ram (pal v) x)"
  shows "kmap start end_text pd 0 (v1\<lparr>base_page_dir := pd\<rparr>)"
proof -
  let ?v = "v1\<lparr>base_page_dir := pd\<rparr>"
  have al: "pg_ofs pd = 0"
    using assms(2) by (simp add: is_table_def)
  have z: "rd ?v (pd + 4 * k) = 0" if "unat k < 1024" for k
    unfolding rd_def using slot_bytes [OF al that] by (intro read32_zero) (simp add: assms(5))
  then have none: "pt_of ?v pd k = None" if "unat k < 1024" for k
    using that by (simp add: pt_of_def)
  have "dir_ok 1024 ?v pd"
    by (rule dir_okI) (use assms(2-4) z none in \<open>simp_all add: is_table_def\<close>)
  then show ?thesis
    using none table_index(3) by (simp add: kmap_def entry_of_def)
qed

text \<open>What an entry of the kernel says.\<close>
lemma kernel_entry_facts:
  assumes "n < 2 ^ 18"
  shows "kernel_entry start end_text n AND PTE_P \<noteq> 0" and "pte_get_page (kernel_entry start end_text n) = Some (kpage_addr n)"
    and "kernel_entry start end_text n AND PTE_U = 0"
    and "kernel_entry start end_text n AND PTE_W \<noteq> 0 \<longleftrightarrow> \<not> (start \<le> kpage_addr n \<and> kpage_addr n < end_text)"
proof -
  let ?x = "of_nat n * PGSIZE :: u32" and ?f = "if start \<le> kpage_addr n \<and> kpage_addr n < end_text then 1 else 3 :: u32"
  have e: "kernel_entry start end_text n = ?x OR ?f"
    by (simp add: kernel_entry_def PTE_P_def PTE_W_def or.assoc)
  have x: "?x AND PGMASK = 0"
    using vtop_page(1) [OF kpage_facts(3,2) [OF assms]] kpage_facts(4) [OF assms] by simp
  have g: "(?x OR ?f) AND g = ?f AND g" if "g < 4096" for g
  proof -
    have "?x AND g = (?x AND PGMASK) AND g"
      using low_flags [OF that] by (metis and.assoc and.commute)
    then show ?thesis
      using x by (simp add: bit.conj_disj_distrib2)
  qed
  show "kernel_entry start end_text n AND PTE_P \<noteq> 0" "kernel_entry start end_text n AND PTE_U = 0"
    "kernel_entry start end_text n AND PTE_W \<noteq> 0 \<longleftrightarrow> \<not> (start \<le> kpage_addr n \<and> kpage_addr n < end_text)"
    unfolding e using g [of PTE_P] g [of PTE_U] g [of PTE_W] by (simp_all add: PTE_P_def PTE_U_def PTE_W_def)
  have "(?x OR ?f) AND PTE_ADDR = ?x"
    using x by (rule entry_addr) (simp add: page_consts)
  then show "pte_get_page (kernel_entry start end_text n) = Some (kpage_addr n)"
    unfolding e pte_get_page_def using kpage_facts(1) [OF assms] by simp
qed

lemma kpage_round_down:
  assumes "PHYS_BASE \<le> a" and "unat (a - PHYS_BASE) div 4096 = n" and "n < 2 ^ 18"
  shows "kpage_addr n = pg_round_down a"
proof (rule page_eqI)
  have "unat (pg_round_down a) = unat a div 4096 * 4096"
    unfolding pg_round_down_def by (rule unat_round_down)
  then have "pg_no (pg_round_down a) = pg_no a" "pg_ofs (pg_round_down a) = 0"
    unfolding pg_ofs_zero by (simp_all add: word_unat_eq_iff unat_pg_no)
  then show "pg_no (kpage_addr n) = pg_no (pg_round_down a)" "pg_ofs (kpage_addr n) = pg_ofs (pg_round_down a)"
    using pg_no_kpage [OF assms(3), of a] assms(1,2) kpage_facts(2) [OF assms(3)] by simp_all
qed

text \<open>\<^verbatim>\<open>paging_init\<close> gives the kernel its map of memory.  If the kernel pool has a page for the directory and one for each 4 MB,
  it returns, and then exactly the addresses from \<^term>\<open>PHYS_BASE\<close> up to the size of memory are mapped, each to the physical
  page at its distance from \<^term>\<open>PHYS_BASE\<close>, none of them for user programs, and all but the kernel's code writable.  Nothing is
  mapped in user space, the directory is well formed, and it is the active one.\<close>
theorem paging_init_maps_memory:
  assumes "palloc_ok (pal v)" and "PHYS_BASE \<le> pbase (kernel_pool (pal v))" and "unat (ram_pages v) \<le> 2 ^ 18"
    and "(unat (ram_pages v) + 1023) div 1024 < free_count (pal v)"
  shows "\<exists>v' pd. paging_init start end_text v = Some v' \<and> base_page_dir v' = pd \<and> cr3 v' = pd - PHYS_BASE \<and> pd_ok v' pd \<and>
    (\<forall>a. if PHYS_BASE \<le> a \<and> unat (a - PHYS_BASE) div 4096 < unat (ram_pages v)
      then mapped v' pd a \<and> pte_get_page (entry_of v' pd a) = Some (pg_round_down a) \<and> entry_of v' pd a AND PTE_U = 0 \<and>
        (entry_of v' pd a AND PTE_W \<noteq> 0 \<longleftrightarrow> \<not> (start \<le> pg_round_down a \<and> pg_round_down a < end_text))
      else \<not> mapped v' pd a)"
proof -
  let ?n = "unat (ram_pages v)"
  have fc: "0 < free_count (pal v)"
    using assms(4) by simp
  obtain pd v1 where g: "get_page (PAL_ASSERT OR PAL_ZERO) v = Some (pd, v1)" "is_table v1 pd" "palloc_ok (pal v1)"
    "PHYS_BASE \<le> pbase (kernel_pool (pal v1))" "unat (pg_no pd) \<notin> pages_used (pal v)" "pages_used (pal v) \<subseteq> pages_used (pal v1)"
    "base_page_dir v1 = base_page_dir v" "ram_pages v1 = ram_pages v"
    "\<forall>x. ram (pal v1) x = (if pg_no x = pg_no pd then 0 else ram (pal v) x)" "free_count (pal v1) = free_count (pal v) - 1"
    by (rule kernel_page [OF assms(1,2) fc])
  let ?v = "v1\<lparr>base_page_dir := pd\<rparr>"
  have "(0 + ?n + 1023) div 1024 \<le> free_count (pal ?v) + (0 + 1023) div 1024"
    using assms(4) g(10) by simp
  then obtain v' where l: "paging_loop start end_text pd 0 0 ?n ?v = Some v'" "kmap start end_text pd ?n v'"
    "base_page_dir v' = pd" "ram_pages v' = ram_pages v"
    using paging_loop_spec [OF kmap_start [OF g(1-4,9)], of ?n 0] assms(3) g(8) by auto
  have "PHYS_BASE \<le> pd"
    using g(2) by (simp add: is_table_def)
  then have run: "paging_init start end_text v = Some (v'\<lparr>cr3 := pd - PHYS_BASE\<rparr>)"
    using g(1,8) l(1,3) by (simp add: paging_init_def vtop_def is_kernel_vaddr_def kernel_simps Let_def)
  have e: "entry_of v' pd a = (if PHYS_BASE \<le> a \<and> unat (a - PHYS_BASE) div 4096 < ?n
      then kernel_entry start end_text (unat (a - PHYS_BASE) div 4096) else 0)" for a
    using l(2) unfolding kmap_def by blast
  have "if PHYS_BASE \<le> a \<and> unat (a - PHYS_BASE) div 4096 < ?n
      then mapped v' pd a \<and> pte_get_page (entry_of v' pd a) = Some (pg_round_down a) \<and> entry_of v' pd a AND PTE_U = 0 \<and>
        (entry_of v' pd a AND PTE_W \<noteq> 0 \<longleftrightarrow> \<not> (start \<le> pg_round_down a \<and> pg_round_down a < end_text))
      else \<not> mapped v' pd a" for a
  proof (cases "PHYS_BASE \<le> a \<and> unat (a - PHYS_BASE) div 4096 < ?n")
    case True
    then have n: "unat (a - PHYS_BASE) div 4096 < 2 ^ 18"
      using assms(3) by simp
    note k = kernel_entry_facts [OF n, of start end_text, unfolded kpage_round_down [OF conjunct1 [OF True] refl n]]
    from True show ?thesis
      unfolding mapped_def e using k by simp
  qed (auto simp: mapped_def e)
  moreover have "pd_ok v' pd"
    using l(2) dir_ok_mono [of 1024 v' pd 768] by (simp add: kmap_def)
  ultimately show ?thesis
    using run l(3) by (intro exI [of _ "v'\<lparr>cr3 := pd - PHYS_BASE\<rparr>"] exI [of _ pd]) (simp add: mapped_cr3)
qed

theorem paging_init_maps_memory_witness:
  "\<exists>v'. paging_init 0xc0000000 0xc0020000 one_directory = Some v' \<and> pd_ok v' (base_page_dir v') \<and>
     pte_get_page (entry_of v' (base_page_dir v') 0xc0123456) = Some 0xc0123000"
proof -
  have "bm_used \<lparr>bit_cnt = 4, bits = [1]\<rparr> = {0}"
    by (auto simp: bm_used_def bm_bit_def bit_1_iff)
  then have "free_count (pal one_directory) = 3"
    by (simp add: free_count_def one_directory_def pool_size_def)
  then have "(unat (ram_pages one_directory) + 1023) div 1024 < free_count (pal one_directory)" "unat (ram_pages one_directory) \<le> 2 ^ 18"
    by (simp_all add: one_directory_def)
  from paging_init_maps_memory [OF dir_ok_basic(1,2) [OF one_directory_ok] this(2,1), of "0xc0000000" "0xc0020000"]
  obtain v' pd where w: "paging_init 0xc0000000 0xc0020000 one_directory = Some v'" "base_page_dir v' = pd" "pd_ok v' pd"
    "\<forall>a. if PHYS_BASE \<le> a \<and> unat (a - PHYS_BASE) div 4096 < unat (ram_pages one_directory)
      then mapped v' pd a \<and> pte_get_page (entry_of v' pd a) = Some (pg_round_down a) \<and> entry_of v' pd a AND PTE_U = 0 \<and>
        (entry_of v' pd a AND PTE_W \<noteq> 0 \<longleftrightarrow> \<not> (0xc0000000 \<le> pg_round_down a \<and> pg_round_down a < 0xc0020000))
      else \<not> mapped v' pd a"
    by (elim exE conjE) (rule that)
  have "PHYS_BASE \<le> 0xc0123456" "unat (0xc0123456 - PHYS_BASE) div 4096 < unat (ram_pages one_directory)"
    "pg_round_down 0xc0123456 = 0xc0123000"
    by (simp_all add: PHYS_BASE_def pg_round_down_def page_consts one_directory_def)
  with spec [OF w(4), of "0xc0123456"] show ?thesis
    using w(1-3) by simp
qed

end
