(* ===== verification/Syscall.thy ===== *)
theory Syscall
  imports Loader Init
begin

text \<open>
  \<^verbatim>\<open>userprog/syscall.c\<close>, and the part of \<^verbatim>\<open>thread_create\<close> and \<^verbatim>\<open>thread_exit\<close> (threads/thread.c)
  that sets up and closes the descriptors of a process.

  The state of the calling process is its descriptor table with the state of \<open>Loader\<close> (file system,
  page tables, kernel memory) and the console: the key that will be typed as the \<open>n\<close>-th one, how
  many have been read, and the bytes printed.  Memory is reached through the page directory
  of the process, below and above \<^verbatim>\<open>PHYS_BASE\<close> alike; touching an address that has no present entry, or writing one
  whose entry is read-only (the loader sets the \<^verbatim>\<open>WP\<close> bit of the processor, loader.S), is a
  page fault in the kernel, which panics (\<^verbatim>\<open>kill\<close> in userprog/exception.c), \<^term>\<open>None\<close>.  The entries above
  \<^verbatim>\<open>PHYS_BASE\<close> are those of \<^verbatim>\<open>paging_init\<close> (\<open>Init\<close>), which \<^verbatim>\<open>pagedir_create\<close> copies.  A file name is read up to its terminator when the
  call is made.

  What a call ends in is an \<open>outcome\<close>: the value left in \<^verbatim>\<open>eax\<close>, if one is, or the call that does not
  come back (\<^verbatim>\<open>exit\<close>, \<^verbatim>\<open>power_off\<close>, \<^verbatim>\<open>thread_exit\<close>) or is made to \<^verbatim>\<open>process_execute\<close> and \<^verbatim>\<open>process_wait\<close>.
\<close>

section \<open>State\<close>

definition file_map_size :: size_t where "file_map_size = 128"

record uproc =
  fd_bitmap :: bitmap
  file_names :: "addr list"
  kern :: lstate
  keys :: "nat \<Rightarrow> u8"
  keys_read :: nat
  console :: "u8 list"

datatype outcome = Return "u32 option" | Exit int | Power_off | Process_execute u32 | Process_wait u32 | Thread_exit

definition SYS_HALT :: u32 where "SYS_HALT = 0"
definition SYS_EXIT :: u32 where "SYS_EXIT = 1"
definition SYS_EXEC :: u32 where "SYS_EXEC = 2"
definition SYS_WAIT :: u32 where "SYS_WAIT = 3"
definition SYS_CREATE :: u32 where "SYS_CREATE = 4"
definition SYS_OPEN :: u32 where "SYS_OPEN = 6"
definition SYS_READ :: u32 where "SYS_READ = 8"
definition SYS_WRITE :: u32 where "SYS_WRITE = 9"
definition SYS_CLOSE :: u32 where "SYS_CLOSE = 12"

section \<open>User memory\<close>

text \<open>The translation of an address by the processor, for a read or for a write, as the kernel sees it.\<close>
definition translate :: "bool \<Rightarrow> lstate \<Rightarrow> u32 \<Rightarrow> u32 kernel" where
  "translate write l a = do {
     (pte, v) \<leftarrow> lookup_page (t_pagedir l) a False (vm l);
     ASSERT (pte \<noteq> 0 \<and> rd v pte AND PTE_P \<noteq> 0 \<and> (write \<longrightarrow> rd v pte AND PTE_W \<noteq> 0));
     k \<leftarrow> pte_get_page (rd v pte);
     Some (k + pg_ofs a)
   }"

definition user_byte :: "lstate \<Rightarrow> u32 \<Rightarrow> u8 kernel" where
  "user_byte l a = do { k \<leftarrow> translate False l a; Some (ram (pal (vm l)) k) }"

fun user_bytes :: "lstate \<Rightarrow> u32 \<Rightarrow> nat \<Rightarrow> u8 list kernel" where
  "user_bytes l a 0 = Some []"
| "user_bytes l a (Suc n) = do { b \<leftarrow> user_byte l a; bs \<leftarrow> user_bytes l (a + 1) n; Some (b # bs) }"

fun user_prefix :: "lstate \<Rightarrow> u32 \<Rightarrow> nat \<Rightarrow> u8 list" where
  "user_prefix l a 0 = []"
| "user_prefix l a (Suc n) = (case user_byte l a of None \<Rightarrow> [] | Some b \<Rightarrow> b # user_prefix l (a + 1) n)"

definition user_int :: "lstate \<Rightarrow> u32 \<Rightarrow> u32 kernel" where
  "user_int l a = map_option bytes_u32 (user_bytes l a 4)"

partial_function (option) user_string :: "lstate \<Rightarrow> u32 \<Rightarrow> u8 list kernel" where
  "user_string l a = do {
     b \<leftarrow> user_byte l a;
     if b = 0 then Some [] else do { bs \<leftarrow> user_string l (a + 1); Some (b # bs) }
   }"

definition user_put :: "u32 \<Rightarrow> u8 \<Rightarrow> lstate \<Rightarrow> lstate kernel" where
  "user_put a b l = do { k \<leftarrow> translate True l a; Some (upd_ram (\<lambda>m. m(k := b)) l) }"

fun user_store :: "u32 \<Rightarrow> u8 list \<Rightarrow> lstate \<Rightarrow> lstate kernel" where
  "user_store a [] l = Some l"
| "user_store a (b # bs) l = do { l \<leftarrow> user_put a b l; user_store (a + 1) bs l }"

section \<open>Checks\<close>

definition check_valid_pointer :: "u32 \<Rightarrow> bool" where
  "check_valid_pointer p \<longleftrightarrow> \<not> (\<not> is_user_vaddr p \<or> p < 0x08048000)"

definition check_pagedir :: "u32 \<Rightarrow> uproc \<Rightarrow> bool kernel" where
  "check_pagedir p u = do { k \<leftarrow> pagedir_get_page (t_pagedir (kern u)) p (vm (kern u)); Some (k \<noteq> 0) }"

definition fd_ok :: "u32 \<Rightarrow> bitmap \<Rightarrow> bool kernel" where
  "fd_ok fd m =
     (if sint fd < sint (bitmap_size m) \<and> 0 \<le> sint fd then bitmap_test m fd else Some False)"

definition exit_error :: "uproc \<Rightarrow> (outcome \<times> uproc) kernel" where
  "exit_error u = Some (Exit (- 1), u)"

section \<open>The calls\<close>

fun read_keys :: "nat \<Rightarrow> u32 \<Rightarrow> uproc \<Rightarrow> uproc kernel" where
  "read_keys 0 a u = Some u"
| "read_keys (Suc n) a u = do {
     l \<leftarrow> user_put a (keys u (keys_read u)) (kern u);
     read_keys n (a + 1) (u\<lparr>kern := l, keys_read := keys_read u + 1\<rparr>)
   }"

definition upd_fs :: "fs \<Rightarrow> uproc \<Rightarrow> uproc" where
  "upd_fs s u = u\<lparr>kern := (kern u)\<lparr>fsys := s\<rparr>\<rparr>"

definition do_read :: "u32 \<Rightarrow> u32 \<Rightarrow> u32 \<Rightarrow> uproc \<Rightarrow> (outcome \<times> uproc) kernel" where
  "do_read fd buffer sz u =
     (if fd = 0
      then do {
        u \<leftarrow> read_keys (nat (sint sz)) buffer u;
        Some (Return (Some (if 0 <s sz then sz else 0)), u)
      }
      else do {
        ok \<leftarrow> (if fd \<noteq> 1 then fd_ok fd (fd_bitmap u) else Some False);
        if ok
        then do {
          f \<leftarrow> fetch (file_names u) (unat fd);
          (bs, s) \<leftarrow> file_read f (sint sz) (fsys (kern u));
          l \<leftarrow> user_store buffer bs ((kern u)\<lparr>fsys := s\<rparr>);
          Some (Return (Some (of_nat (length bs))), u\<lparr>kern := l\<rparr>)
        }
        else Some (Return (Some (- 1)), u)
      })"

definition sys_read :: "u32 \<Rightarrow> uproc \<Rightarrow> (outcome \<times> uproc) kernel" where
  "sys_read p u = do {
     fd \<leftarrow> user_int (kern u) (p + 4);
     if \<not> check_valid_pointer (p + 4) then exit_error u
     else do {
       buffer \<leftarrow> user_int (kern u) (p + 8);
       if \<not> check_valid_pointer buffer then exit_error u
       else do {
         ok \<leftarrow> check_pagedir (p + 8) u;
         if \<not> ok then exit_error u
         else do {
           sz \<leftarrow> user_int (kern u) (p + 12);
           if \<not> check_valid_pointer (p + 12) then exit_error u else do_read fd buffer sz u
         }
       }
     }
   }"

definition do_write :: "u32 \<Rightarrow> u32 \<Rightarrow> u32 \<Rightarrow> uproc \<Rightarrow> (outcome \<times> uproc) kernel" where
  "do_write fd buffer sz u =
     (if fd = 1
      then do {
        bs \<leftarrow> user_bytes (kern u) buffer (unat sz);
        Some (Return None, u\<lparr>console := console u @ bs\<rparr>)
      }
      else do {
        ok \<leftarrow> (if fd = 0 then Some False else fd_ok fd (fd_bitmap u));
        if \<not> ok then Some (Return (Some (- 1)), u)
        else do {
          f \<leftarrow> fetch (file_names u) (unat fd);
          let bs = user_prefix (kern u) buffer (nat (sint sz));
          let pad = replicate (nat (sint sz) - length bs) 0;
          (n, s) \<leftarrow> file_write f (bs @ pad) (sint sz) (fsys (kern u));
          ASSERT (n \<le> int (length bs));
          Some (Return (Some (word_of_int n)), upd_fs s u)
        }
      })"

definition sys_write :: "u32 \<Rightarrow> uproc \<Rightarrow> (outcome \<times> uproc) kernel" where
  "sys_write p u = do {
     fd \<leftarrow> user_int (kern u) (p + 4);
     if \<not> check_valid_pointer (p + 4) then exit_error u
     else do {
       buffer \<leftarrow> user_int (kern u) (p + 8);
       if \<not> check_valid_pointer buffer then exit_error u
       else do {
         ok \<leftarrow> check_pagedir buffer u;
         if \<not> ok then exit_error u
         else do {
           sz \<leftarrow> user_int (kern u) (p + 12);
           if \<not> check_valid_pointer (p + 12) then exit_error u else do_write fd buffer sz u
         }
       }
     }
   }"

definition do_create :: "u8 list \<Rightarrow> u32 \<Rightarrow> u8 list \<Rightarrow> uproc \<Rightarrow> (outcome \<times> uproc) kernel" where
  "do_create name sz junk u = do {
     (ok, s) \<leftarrow> filesys_create name (sint sz) junk (fsys (kern u));
     Some (Return (Some (if ok then 1 else 0)), upd_fs s u)
   }"

definition sys_create :: "u32 \<Rightarrow> u8 list \<Rightarrow> uproc \<Rightarrow> (outcome \<times> uproc) kernel" where
  "sys_create p junk u = do {
     name \<leftarrow> user_int (kern u) (p + 4);
     if \<not> check_valid_pointer name then exit_error u
     else do {
       ok \<leftarrow> check_pagedir name u;
       if \<not> ok then exit_error u
       else do {
         sz \<leftarrow> user_int (kern u) (p + 8);
         if \<not> check_valid_pointer (p + 12) then exit_error u
         else do { bs \<leftarrow> user_string (kern u) name; do_create bs sz junk u }
       }
     }
   }"

definition do_open :: "u8 list \<Rightarrow> u8 list \<Rightarrow> uproc \<Rightarrow> (outcome \<times> uproc) kernel" where
  "do_open name junk u = do {
     (fd, m) \<leftarrow> bitmap_scan_and_flip (fd_bitmap u) 0 1 False;
     let u = u\<lparr>fd_bitmap := m\<rparr>;
     if fd = BITMAP_ERROR then Some (Return (Some (- 1)), u)
     else do {
       (f, s) \<leftarrow> filesys_open name junk (fsys (kern u));
       let u = upd_fs s u;
       if f = NULL then Some (Return (Some (- 1)), u)
       else do {
         fs \<leftarrow> store (file_names u) (unat fd) f;
         Some (Return (Some fd), u\<lparr>file_names := fs\<rparr>)
       }
     }
   }"

definition sys_open :: "u32 \<Rightarrow> u8 list \<Rightarrow> uproc \<Rightarrow> (outcome \<times> uproc) kernel" where
  "sys_open p junk u = do {
     name \<leftarrow> user_int (kern u) (p + 4);
     if \<not> check_valid_pointer name then exit_error u
     else do {
       ok \<leftarrow> check_pagedir name u;
       if \<not> ok then exit_error u
       else do { bs \<leftarrow> user_string (kern u) name; do_open bs junk u }
     }
   }"

definition do_close :: "u32 \<Rightarrow> uproc \<Rightarrow> (outcome \<times> uproc) kernel" where
  "do_close fd u = do {
     ok \<leftarrow> fd_ok fd (fd_bitmap u);
     if \<not> ok then Some (Return None, u)
     else do {
       f \<leftarrow> fetch (file_names u) (unat fd);
       fs \<leftarrow> store (file_names u) (unat fd) NULL;
       m \<leftarrow> bitmap_set (fd_bitmap u) fd False;
       s \<leftarrow> file_close f (fsys (kern u));
       Some (Return None, upd_fs s (u\<lparr>fd_bitmap := m, file_names := fs\<rparr>))
     }
   }"

definition sys_close :: "u32 \<Rightarrow> uproc \<Rightarrow> (outcome \<times> uproc) kernel" where
  "sys_close p u = do {
     fd \<leftarrow> user_int (kern u) (p + 4);
     if \<not> check_valid_pointer (p + 4) then exit_error u else do_close fd u
   }"

definition sys_exec :: "u32 \<Rightarrow> uproc \<Rightarrow> (outcome \<times> uproc) kernel" where
  "sys_exec p u = do {
     name \<leftarrow> user_int (kern u) (p + 4);
     if \<not> check_valid_pointer name then exit_error u
     else do {
       ok \<leftarrow> check_pagedir name u;
       if \<not> ok then exit_error u
       else if name = 0 then Some (Return (Some (- 1)), u) else Some (Process_execute name, u)
     }
   }"

definition sys_exit :: "u32 \<Rightarrow> uproc \<Rightarrow> (outcome \<times> uproc) kernel" where
  "sys_exit p u = do {
     status \<leftarrow> user_int (kern u) (p + 4);
     if \<not> check_valid_pointer (p + 4) then exit_error u else Some (Exit (sint status), u)
   }"

definition sys_wait :: "u32 \<Rightarrow> uproc \<Rightarrow> (outcome \<times> uproc) kernel" where
  "sys_wait p u = do {
     t \<leftarrow> user_int (kern u) (p + 4);
     if \<not> check_valid_pointer (p + 4) then exit_error u else Some (Process_wait t, u)
   }"

definition syscall_handler :: "u32 \<Rightarrow> u8 list \<Rightarrow> uproc \<Rightarrow> (outcome \<times> uproc) kernel" where
  "syscall_handler esp junk u =
     (if \<not> check_valid_pointer esp then exit_error u
      else do {
        ok \<leftarrow> check_pagedir esp u;
        if \<not> ok then exit_error u
        else do {
          nr \<leftarrow> user_int (kern u) esp;
          if nr = SYS_HALT then Some (Power_off, u)
          else if nr = SYS_READ then sys_read esp u
          else if nr = SYS_WRITE then sys_write esp u
          else if nr = SYS_CREATE then sys_create esp junk u
          else if nr = SYS_OPEN then sys_open esp junk u
          else if nr = SYS_CLOSE then sys_close esp u
          else if nr = SYS_EXEC then sys_exec esp u
          else if nr = SYS_EXIT then sys_exit esp u
          else if nr = SYS_WAIT then sys_wait esp u
          else Some (Thread_exit, u)
        }
      })"

section \<open>Descriptors of a new and of an exiting process\<close>

definition new_descriptors :: "bool \<Rightarrow> u32 list option \<Rightarrow> (bitmap \<times> addr list) kernel" where
  "new_descriptors malloc_b malloc_bits = do {
     b \<leftarrow> bitmap_create malloc_b malloc_bits file_map_size;
     m \<leftarrow> b;
     m \<leftarrow> bitmap_set_multiple m 0 2 True;
     Some (m, replicate (unat file_map_size) NULL)
   }"

fun close_from :: "nat \<Rightarrow> nat \<Rightarrow> uproc \<Rightarrow> uproc kernel" where
  "close_from 0 i u = Some u"
| "close_from (Suc n) i u = do {
     set \<leftarrow> bitmap_test (fd_bitmap u) (of_nat i);
     u \<leftarrow> (if set
           then do {
             f \<leftarrow> fetch (file_names u) i;
             s \<leftarrow> file_close f (fsys (kern u));
             Some (upd_fs s u)
           }
           else Some u);
     close_from n (i + 1) u
   }"

definition close_descriptors :: "uproc \<Rightarrow> uproc kernel" where
  "close_descriptors u = close_from (unat file_map_size) 0 u"

section \<open>The descriptor table\<close>

definition fds_ok :: "uproc \<Rightarrow> bool" where
  "fds_ok u \<longleftrightarrow> bm_invar (fd_bitmap u) \<and> bit_cnt (fd_bitmap u) = 128 \<and> length (file_names u) = 128 \<and>
     (\<forall>fd < 128. \<not> bm_abs (fd_bitmap u) ! fd \<longrightarrow> file_names u ! fd = NULL)"

definition fd_free :: "uproc \<Rightarrow> nat \<Rightarrow> bool" where
  "fd_free u fd \<longleftrightarrow> fd < 128 \<and> \<not> bm_abs (fd_bitmap u) ! fd"

definition lowest_free :: "uproc \<Rightarrow> nat option" where
  "lowest_free u = find (fd_free u) [0..<128]"

lemma run_at_one: "run_at xs 1 v k \<longleftrightarrow> k < length xs \<and> xs ! k = v"
  by (auto simp: run_at_def)

lemma lowest_free_run:
  assumes "fds_ok u"
  shows "first_run (bm_abs (fd_bitmap u)) 0 1 False = lowest_free u"
proof -
  have len: "length (bm_abs (fd_bitmap u)) = 128"
    using assms by (simp add: fds_ok_def)
  have "run_at (bm_abs (fd_bitmap u)) 1 False = fd_free u"
    by (rule ext) (simp only: run_at_one len fd_free_def simp_thms)
  then have "first_run (bm_abs (fd_bitmap u)) 0 1 False = find (fd_free u) ([0..<128] @ [128])"
    by (simp only: first_run_def len upt_Suc_append zero_le)
  then show ?thesis
    by (simp add: lowest_free_def find_append fd_free_def split: option.splits)
qed

lemma lowest_free_Some:
  assumes "lowest_free u = Some k"
  shows "fd_free u k" and "k < 128" and "j < k \<Longrightarrow> \<not> fd_free u j"
proof -
  have "k < 128 \<and> fd_free u k \<and> (\<forall>j < k. \<not> fd_free u j)"
    using assms unfolding lowest_free_def find_Some_iff by auto
  then show "fd_free u k" "k < 128" "j < k \<Longrightarrow> \<not> fd_free u j"
    by simp_all
qed

lemma lowest_free_None: "lowest_free u = None \<Longrightarrow> \<not> fd_free u fd"
  unfolding lowest_free_def find_None_iff by (auto simp: fd_free_def)

lemma take_fd:
  assumes "fds_ok u"
  shows "case lowest_free u of
      None \<Rightarrow> bitmap_scan_and_flip (fd_bitmap u) 0 1 False = Some (BITMAP_ERROR, fd_bitmap u)
    | Some k \<Rightarrow> \<exists>m. bitmap_scan_and_flip (fd_bitmap u) 0 1 False = Some (of_nat k, m) \<and> (of_nat k :: u32) \<noteq> BITMAP_ERROR \<and>
        bm_invar m \<and> bit_cnt m = 128 \<and> bm_abs m = (bm_abs (fd_bitmap u))[k := True]"
proof (cases "lowest_free u")
  case None
  then show ?thesis
    using assms bitmap_scan_and_flip_spec [of "fd_bitmap u" 0 1 False] lowest_free_run [OF assms] by (simp add: fds_ok_def)
next
  case (Some k)
  have inv: "bm_invar (fd_bitmap u)" and cnt: "bit_cnt (fd_bitmap u) = 128"
    using assms by (simp_all add: fds_ok_def)
  obtain idx m where m: "bitmap_scan_and_flip (fd_bitmap u) 0 1 False = Some (idx, m)" "unat idx = k" "idx \<noteq> BITMAP_ERROR"
      "bm_invar m" "bit_cnt m = 128" "bm_abs m = take k (bm_abs (fd_bitmap u)) @ [True] @ drop (k + 1) (bm_abs (fd_bitmap u))"
    using bitmap_scan_and_flip_spec [OF inv, of 0 1 False] lowest_free_run [OF assms] Some cnt by auto
  moreover have "idx = of_nat k"
    using m(2) by auto
  moreover have "bm_abs m = (bm_abs (fd_bitmap u))[k := True]"
    using lowest_free_Some(2) [OF Some] cnt unfolding m(6) by (simp add: upd_conv_take_nth_drop)
  ultimately show ?thesis
    using Some by auto
qed

lemma fds_ok_mark:
  assumes "fds_ok u" and "k < 128" and "bm_invar m" and "bit_cnt m = 128" and "bm_abs m = (bm_abs (fd_bitmap u))[k := True]"
  shows "fds_ok (u\<lparr>fd_bitmap := m, file_names := (file_names u)[k := f]\<rparr>)" "fds_ok (u\<lparr>fd_bitmap := m\<rparr>)"
  using assms by (auto simp: fds_ok_def nth_list_update)

lemma fds_ok_fs [simp]: "fds_ok (upd_fs s u) = fds_ok u"
  by (simp add: fds_ok_def upd_fs_def)

lemma upd_fs_simps [simp]:
  "fd_bitmap (upd_fs s u) = fd_bitmap u" "file_names (upd_fs s u) = file_names u" "fsys (kern (upd_fs s u)) = s"
  by (simp_all add: upd_fs_def)

lemma fd_ok_eq:
  assumes "bm_wf m" and "bit_cnt m = 128"
  shows "fd_ok fd m = Some (unat fd < 128 \<and> bm_abs m ! unat fd)"
proof -
  have "sint fd < 128 \<and> 0 \<le> sint fd \<longleftrightarrow> unat fd < 128"
  proof
    assume fd: "unat fd < 128"
    then have "fd = of_nat (unat fd)" "sint (of_nat (unat fd) :: u32) = int (unat fd)"
      by (simp, intro sint_of_nat_small) simp
    then have "sint fd = int (unat fd)"
      by metis
    with fd show "sint fd < 128 \<and> 0 \<le> sint fd"
      by linarith
  next
    assume "sint fd < 128 \<and> 0 \<le> sint fd"
    then have "uint fd = sint fd"
      by (intro uint_eq_sint) (simp add: word_sle_eq)
    then show "unat fd < 128"
      using \<open>sint fd < 128 \<and> 0 \<le> sint fd\<close> uint_nat [of fd] by linarith
  qed
  then show ?thesis
    using assms by (auto simp: fd_ok_def bitmap_size_def bitmap_test_eq)
qed

text \<open>C14: \<^verbatim>\<open>SYS_OPEN\<close> on a table in order.  With no free descriptor the call returns -1 and changes nothing.
  Otherwise it takes the lowest free descriptor and opens the file; when that succeeds, it returns
  the descriptor, whose entry is the file, every other entry is as before and the table is in
  order again.\<close>
theorem do_open_lowest_free:
  assumes "fds_ok u"
  shows "case lowest_free u of
      None \<Rightarrow> do_open name junk u = Some (Return (Some (- 1)), u)
    | Some k \<Rightarrow> fd_free u k \<and> (\<forall>j < k. \<not> fd_free u j) \<and>
        (\<forall>f s. filesys_open name junk (fsys (kern u)) = Some (f, s) \<and> f \<noteq> NULL \<longrightarrow>
           (\<exists>u'. do_open name junk u = Some (Return (Some (of_nat k)), u') \<and> fds_ok u' \<and> fsys (kern u') = s \<and>
              bm_abs (fd_bitmap u') = (bm_abs (fd_bitmap u))[k := True] \<and> file_names u' = (file_names u)[k := f]))"
proof (cases "lowest_free u")
  case None
  then show ?thesis
    using take_fd [OF assms] by (simp add: do_open_def)
next
  case (Some k)
  then obtain m where m: "bitmap_scan_and_flip (fd_bitmap u) 0 1 False = Some (of_nat k, m)" "(of_nat k :: u32) \<noteq> BITMAP_ERROR"
      "bm_invar m" "bit_cnt m = 128" "bm_abs m = (bm_abs (fd_bitmap u))[k := True]"
    using take_fd [OF assms] by auto
  have k: "k < 128" "unat (of_nat k :: u32) = k"
    using lowest_free_Some(2) [OF Some] by (simp_all add: unat_of_nat_small)
  have len: "length (file_names u) = 128"
    using assms by (simp add: fds_ok_def)
  have "\<exists>u'. do_open name junk u = Some (Return (Some (of_nat k)), u') \<and> fds_ok u' \<and> fsys (kern u') = s \<and>
      bm_abs (fd_bitmap u') = (bm_abs (fd_bitmap u))[k := True] \<and> file_names u' = (file_names u)[k := f]"
    if "filesys_open name junk (fsys (kern u)) = Some (f, s)" "f \<noteq> NULL" for f s
  proof -
    let ?u = "(upd_fs s (u\<lparr>fd_bitmap := m\<rparr>))\<lparr>file_names := (file_names u)[k := f]\<rparr>"
    have "do_open name junk u = Some (Return (Some (of_nat k)), ?u)"
      using that m(1,2) k len by (simp add: do_open_def Let_def kernel_simps)
    moreover have "fds_ok ?u"
      using fds_ok_mark(1) [OF assms k(1) m(3-5), of f] by (simp add: fds_ok_def upd_fs_def)
    ultimately show ?thesis
      using m(5) by (simp add: upd_fs_def)
  qed
  then show ?thesis
    using Some lowest_free_Some [OF Some] by auto
qed

text \<open>C15: \<^verbatim>\<open>SYS_OPEN\<close> does not give its descriptor back when the file cannot be opened: the call returns
  -1, the descriptor stays taken with a null entry, and a later \<^verbatim>\<open>SYS_READ\<close> on it dereferences the
  null pointer, which panics the kernel.\<close>
theorem do_open_failure_panics:
  assumes "fds_ok u" and "lowest_free u = Some k" and "2 \<le> k"
    and "filesys_open name junk (fsys (kern u)) = Some (NULL, s)" and "files s NULL = None"
  shows "\<exists>u'. do_open name junk u = Some (Return (Some (- 1)), u') \<and> \<not> fd_free u' k \<and> file_names u' ! k = NULL \<and>
    do_read (of_nat k) buffer sz u' = None"
proof -
  obtain m where m: "bitmap_scan_and_flip (fd_bitmap u) 0 1 False = Some (of_nat k, m)" "(of_nat k :: u32) \<noteq> BITMAP_ERROR"
      "bm_invar m" "bit_cnt m = 128" "bm_abs m = (bm_abs (fd_bitmap u))[k := True]"
    using take_fd [OF assms(1)] assms(2) by auto
  have k: "k < 128" "unat (of_nat k :: u32) = k" and free: "\<not> bm_abs (fd_bitmap u) ! k"
    using lowest_free_Some(1,2) [OF assms(2)] by (simp_all add: unat_of_nat_small fd_free_def)
  have len: "length (file_names u) = 128" "file_names u ! k = NULL" and cnt: "length (bm_abs (fd_bitmap u)) = 128"
    using assms(1) k(1) free by (simp_all add: fds_ok_def)
  let ?u = "upd_fs s (u\<lparr>fd_bitmap := m\<rparr>)"
  have run: "do_open name junk u = Some (Return (Some (- 1)), ?u)"
    using m(1,2) assms(4) by (simp add: do_open_def Let_def)
  have "(of_nat k :: u32) \<noteq> 0" "(of_nat k :: u32) \<noteq> 1"
    using k assms(3) by (metis unat_0 not_numeral_le_zero, metis unat_1 one_less_numeral_iff not_le semiring_norm(76))
  moreover have "sint (of_nat k :: u32) = int k"
    using k(1) by (intro sint_of_nat_small) simp
  moreover have "bitmap_test m (of_nat k) = Some True"
    using m(3-5) k cnt by (simp add: bitmap_test_eq bm_invar_def)
  ultimately have "fd_ok (of_nat k) m = Some True" and "do_read (of_nat k) buffer sz ?u = None"
    using m(4) k len(2) assms(5) len(1) by (auto simp: do_read_def fd_ok_def bitmap_size_def fetch_def file_read_def)
  then show ?thesis
    using run m(5) k cnt len(2) by (auto simp: fd_free_def)
qed

text \<open>\<^verbatim>\<open>SYS_CLOSE\<close> on a table in order.  A number that is not an open descriptor, negative and too
  large ones included, is ignored.  Otherwise the descriptor is free afterwards, its file is closed, every
  other descriptor is as before and the table is in order again.\<close>
theorem do_close_frees:
  assumes "fds_ok u"
  shows "if unat fd < 128 \<and> bm_abs (fd_bitmap u) ! unat fd
    then \<forall>s. file_close (file_names u ! unat fd) (fsys (kern u)) = Some s \<longrightarrow>
      (\<exists>u'. do_close fd u = Some (Return None, u') \<and> fds_ok u' \<and> fsys (kern u') = s \<and>
         bm_abs (fd_bitmap u') = (bm_abs (fd_bitmap u))[unat fd := False] \<and> file_names u' = (file_names u)[unat fd := NULL])
    else do_close fd u = Some (Return None, u)"
proof -
  have wf: "bm_wf (fd_bitmap u)" and cnt: "bit_cnt (fd_bitmap u) = 128" and len: "length (file_names u) = 128"
    using assms by (simp_all add: fds_ok_def bm_invar_def)
  have ok: "fd_ok fd (fd_bitmap u) = Some (unat fd < 128 \<and> bm_abs (fd_bitmap u) ! unat fd)"
    by (rule fd_ok_eq [OF wf cnt])
  show ?thesis
  proof (cases "unat fd < 128 \<and> bm_abs (fd_bitmap u) ! unat fd")
    case True
    then obtain m where m: "bitmap_set (fd_bitmap u) fd False = Some m" "bm_wf m" "bit_cnt m = bit_cnt (fd_bitmap u)"
        "bm_abs m = (bm_abs (fd_bitmap u))[unat fd := False]"
      using bitmap_set_spec [OF wf, of fd] cnt by auto
    have "do_close fd u = Some (Return None, upd_fs s (u\<lparr>fd_bitmap := m, file_names := (file_names u)[unat fd := NULL]\<rparr>))"
      if "file_close (file_names u ! unat fd) (fsys (kern u)) = Some s" for s
      using True ok m(1) len that by (simp add: do_close_def kernel_simps)
    moreover have "fds_ok (u\<lparr>fd_bitmap := m, file_names := (file_names u)[unat fd := NULL]\<rparr>)"
      using assms m True by (auto simp: fds_ok_def bm_invar_def nth_list_update)
    ultimately show ?thesis
      using True m(4) by auto
  next
    case False
    then show ?thesis
      using ok by (auto simp: do_close_def)
  qed
qed

section \<open>Writing past the end of user space\<close>

lemma upd_ram_simps [simp]:
  "ram (pal (vm (upd_ram f l))) = f (ram (pal (vm l)))" "t_pagedir (upd_ram f l) = t_pagedir l" "fsys (upd_ram f l) = fsys l"
  by (simp_all add: upd_ram_def)

text \<open>The first \<open>n\<close> bytes of physical memory, conventional memory at most, are mapped writable at \<^term>\<open>PHYS_BASE\<close>; the
  page directory of the process and the page table \<open>pt\<close> that maps them lie above.\<close>
definition low_memory_mapped :: "lstate \<Rightarrow> u32 \<Rightarrow> nat \<Rightarrow> bool" where
  "low_memory_mapped l pt n \<longleftrightarrow> n \<le> 0xa0000 \<and>
     unat PHYS_BASE + n \<le> unat (t_pagedir l) \<and> unat (t_pagedir l) + 4096 \<le> 2 ^ 32 \<and>
     unat PHYS_BASE + n \<le> unat pt \<and> unat pt + 4096 \<le> 2 ^ 32 \<and>
     rd (vm l) (t_pagedir l + 4 * 768) \<noteq> 0 \<and> pde_get_pt (rd (vm l) (t_pagedir l + 4 * 768)) = Some pt \<and>
     (\<forall>j < 160. 4096 * j < n \<longrightarrow> rd (vm l) (pt + 4 * of_nat j) AND PTE_P \<noteq> 0 \<and> rd (vm l) (pt + 4 * of_nat j) AND PTE_W \<noteq> 0 \<and>
        pte_get_page (rd (vm l) (pt + 4 * of_nat j)) = Some (kpage_addr j))"

lemma read32_below:
  assumes "unat x < K" and "K \<le> unat a" and "unat a + 4 \<le> 2 ^ 32"
  shows "read32 (m(x := b)) a = read32 m a"
proof -
  have "x \<noteq> a + of_nat i" if "i < 4" for i
  proof -
    have "unat (a + of_nat i) = unat a + i"
      using assms(3) that by (subst unat_add_small) (simp_all add: unat_of_nat_small)
    then show ?thesis
      using assms(1,2) by auto
  qed
  from this [of 0] this [of 1] this [of 2] this [of 3] show ?thesis
    by (simp add: read32_def)
qed

lemma slot_above:
  fixes p :: u32
  assumes "K \<le> unat p" and "unat p + 4096 \<le> 2 ^ 32" and "j < 1024"
  shows "K \<le> unat (p + 4 * of_nat j)" and "unat (p + 4 * of_nat j) + 4 \<le> 2 ^ 32" and "p + 4 * of_nat j \<noteq> 0 \<or> K = 0"
proof -
  have "unat (4 * of_nat j :: u32) = 4 * j"
    using assms(3) by (subst unat_mult_small) (simp_all add: unat_of_nat_small)
  then have "unat (p + 4 * of_nat j) = unat p + 4 * j"
    using assms(2,3) by (subst unat_add_small) simp_all
  then show "K \<le> unat (p + 4 * of_nat j)" "unat (p + 4 * of_nat j) + 4 \<le> 2 ^ 32" "p + 4 * of_nat j \<noteq> 0 \<or> K = 0"
    using assms by auto
qed

lemma low_memory_put:
  assumes m: "low_memory_mapped l pt n" and x: "unat x < unat PHYS_BASE + n"
  shows "low_memory_mapped (upd_ram (\<lambda>r. r(x := b)) l) pt n"
proof -
  let ?l = "upd_ram (\<lambda>r. r(x := b)) l"
  have rd: "rd (vm ?l) (p + 4 * of_nat j) = rd (vm l) (p + 4 * of_nat j)"
    if "unat PHYS_BASE + n \<le> unat p" "unat p + 4096 \<le> 2 ^ 32" "j < 1024" for p j
    unfolding rd_def upd_ram_simps by (rule read32_below [OF x slot_above(1,2) [OF that]])
  have "rd (vm ?l) (t_pagedir l + 4 * 768) = rd (vm l) (t_pagedir l + 4 * 768)"
    using m rd [of "t_pagedir l" 768] by (simp add: low_memory_mapped_def)
  moreover have "rd (vm ?l) (pt + 4 * of_nat j) = rd (vm l) (pt + 4 * of_nat j)" if "j < 160" for j
    using m rd [of pt j] that by (simp add: low_memory_mapped_def)
  ultimately show ?thesis
    using m by (simp add: low_memory_mapped_def)
qed

lemma kernel_split:
  assumes "a = kpage_addr j + of_nat r" and "j < 160" and "r < 4096"
  shows "pd_no a = 768" and "pt_no a = of_nat j" and "pg_ofs a = of_nat r" and "unat a = unat PHYS_BASE + 4096 * j + r"
proof -
  have "unat (kpage_addr j) = 4096 * j + 0xc0000000"
    using assms(2) by (intro unat_kpage_addr) simp
  then show a: "unat a = unat PHYS_BASE + 4096 * j + r"
    using assms by (simp add: PHYS_BASE_def) (subst unat_add_small, simp_all add: unat_of_nat_small)
  have "(0xc0000000 + 4096 * j + r) div 4096 = 0xc0000 + j"
    using assms(3) by simp
  moreover have "(0xc0000000 + 4096 * j + r) mod 4096 = r"
    using assms(3) by (simp add: mod_add_eq [symmetric] mod_mult_self2)
  moreover have "(0xc0000000 + 4096 * j + r) div 4194304 = 768"
    using assms(2,3) by simp
  moreover have "(0xc0000 + j) mod 1024 = j"
    using assms(2) mod_mult_self3 [of 768 1024 j] by simp
  ultimately show "pd_no a = 768" "pt_no a = of_nat j" "pg_ofs a = of_nat r"
    using assms(2,3) by (simp_all add: word_unat_eq_iff unat_pd_no unat_pt_no unat_pg_ofs a PHYS_BASE_def unat_of_nat_small)
qed

lemma translate_low:
  assumes m: "low_memory_mapped l pt n" and a: "unat PHYS_BASE \<le> unat a" "unat a < unat PHYS_BASE + n"
  shows "translate True l a = Some a"
proof -
  let ?j = "(unat a - unat PHYS_BASE) div 4096" and ?r = "(unat a - unat PHYS_BASE) mod 4096"
  have n: "n \<le> 0xa0000" and top: "unat PHYS_BASE + n \<le> unat (t_pagedir l)" "unat PHYS_BASE + n \<le> unat pt" "unat pt + 4096 \<le> 2 ^ 32"
    using m by (simp_all add: low_memory_mapped_def)
  have j: "?j < 160" "4096 * ?j < n"
    using a n by (auto simp: less_mult_imp_div_less intro: le_less_trans [of _ "unat a - unat PHYS_BASE"])
  have u: "unat (kpage_addr ?j) = 4096 * ?j + 0xc0000000"
    using j(1) by (intro unat_kpage_addr) simp
  have "unat (kpage_addr ?j + of_nat ?r) = unat a"
    using a(1) j n u by (subst unat_add_small) (simp_all add: unat_of_nat_small PHYS_BASE_def mult_div_mod_eq)
  then have eq: "a = kpage_addr ?j + of_nat ?r"
    by (simp add: word_unat_eq_iff)
  note k = kernel_split [OF eq j(1)]
  have "t_pagedir l \<noteq> 0" "pt + 4 * of_nat ?j \<noteq> 0"
    using top slot_above(3) [OF top(2,3), of ?j] j(1) by (auto simp: PHYS_BASE_def)
  then have "lookup_page (t_pagedir l) a False (vm l) = Some (pt + 4 * of_nat ?j, vm l)"
    using m k by (simp add: lookup_page_def kernel_simps low_memory_mapped_def Let_def)
  moreover have "rd (vm l) (pt + 4 * of_nat ?j) AND PTE_P \<noteq> 0" "rd (vm l) (pt + 4 * of_nat ?j) AND PTE_W \<noteq> 0"
    "pte_get_page (rd (vm l) (pt + 4 * of_nat ?j)) = Some (kpage_addr ?j)"
    using m j unfolding low_memory_mapped_def by blast+
  ultimately show ?thesis
    using \<open>pt + 4 * of_nat ?j \<noteq> 0\<close> k(3) eq by (simp add: translate_def kernel_simps)
qed

lemma read_keys_kernel:
  assumes "low_memory_mapped (kern u) pt n" and "unat PHYS_BASE \<le> unat a" and "unat a + m \<le> unat PHYS_BASE + n"
  shows "\<exists>u'. read_keys m a u = Some u' \<and> keys u' = keys u \<and>
    (\<forall>x. ram (pal (vm (kern u'))) x =
       (if unat a \<le> unat x \<and> unat x < unat a + m then keys u (keys_read u + (unat x - unat a)) else ram (pal (vm (kern u))) x))"
  using assms
proof (induction m arbitrary: a u)
  case 0
  then show ?case
    by auto
next
  case (Suc m)
  let ?l = "upd_ram (\<lambda>m. m(a := keys u (keys_read u))) (kern u)"
  let ?u = "u\<lparr>kern := ?l, keys_read := keys_read u + 1\<rparr>"
  have n: "n \<le> 0xa0000"
    using Suc.prems(1) by (simp add: low_memory_mapped_def)
  have put: "user_put a (keys u (keys_read u)) (kern u) = Some ?l"
    using translate_low [OF Suc.prems(1,2)] Suc.prems(3) by (simp add: user_put_def)
  have m: "low_memory_mapped (kern ?u) pt n"
    using low_memory_put [OF Suc.prems(1)] Suc.prems(3) by simp
  have a1: "unat (a + 1) = unat a + 1"
    using Suc.prems(2,3) n by (subst unat_add_small) (simp_all add: PHYS_BASE_def)
  obtain u' where u': "read_keys m (a + 1) ?u = Some u'" "keys u' = keys ?u"
      "\<forall>x. ram (pal (vm (kern u'))) x = (if unat (a + 1) \<le> unat x \<and> unat x < unat (a + 1) + m
         then keys ?u (keys_read ?u + (unat x - unat (a + 1))) else ram (pal (vm (kern ?u))) x)"
    using Suc.IH [OF m, of "a + 1"] Suc.prems(2,3) a1 by auto
  have "ram (pal (vm (kern u'))) x =
      (if unat a \<le> unat x \<and> unat x < unat a + Suc m then keys u (keys_read u + (unat x - unat a)) else ram (pal (vm (kern u))) x)" for x
    using u'(3) [rule_format, of x] by (auto simp: a1 word_unat_eq_iff Suc_diff_Suc less_Suc_eq_le le_Suc_eq)
  then show ?case
    using put u'(1,2) by auto
qed

text \<open>That is the map \<^verbatim>\<open>paging_init\<close> builds: with 640 kB of memory or more, the kernel's code and the pages of the
  allocator above them, a process that runs on the directory has conventional memory mapped so.\<close>
lemma kmap_low_memory:
  assumes km: "kmap text_start text_end (t_pagedir l) N (vm l)" and N: "160 \<le> N" and n: "n \<le> 0xa0000"
    and above: "PHYS_BASE + 0xa0000 \<le> text_start" and pool: "\<And>i. i \<in> pages_used (pal (vm l)) \<Longrightarrow> 0xc00a0 \<le> i"
  shows "\<exists>pt. low_memory_mapped l pt n"
proof -
  let ?v = "vm l" and ?pd = "t_pagedir l"
  have ok: "dir_ok 1024 ?v ?pd" and e: "entry_of ?v ?pd a = (if PHYS_BASE \<le> a \<and> unat (a - PHYS_BASE) div 4096 < N
      then kernel_entry text_start text_end (unat (a - PHYS_BASE) div 4096) else 0)" for a
    using km unfolding kmap_def by blast+
  have high: "unat PHYS_BASE + 0xa0000 \<le> unat p \<and> unat p + 4096 \<le> 2 ^ 32" if "is_table ?v p" for p
    using that pool [of "unat (pg_no p)"] unat_bound32 [of p] by (auto simp: is_table_def unat_pg_no pg_ofs_zero PHYS_BASE_def elim!: dvdE)
  have "unat (768 :: u32) < 1024"
    by simp
  moreover have "pt_of ?v ?pd 768 \<noteq> None"
  proof -
    have "1024 div 1024 \<le> (N + 1023) div 1024"
      using N by (intro div_le_mono) simp
    moreover have "pt_of ?v ?pd 768 = None \<longleftrightarrow> \<not> (768 \<le> unat (768 :: u32) \<and> unat (768 :: u32) < 768 + (N + 1023) div 1024)"
      using km \<open>unat (768 :: u32) < 1024\<close> unfolding kmap_def by blast
    ultimately show ?thesis
      by simp
  qed
  ultimately obtain pt where pt: "pt_of ?v ?pd 768 = Some pt" "rd ?v (?pd + 4 * 768) \<noteq> 0" "pde_get_pt (rd ?v (?pd + 4 * 768)) = Some pt" "is_table ?v pt"
    using dir_okD [OF ok, of 768] by metis
  have ent: "rd ?v (pt + 4 * of_nat j) = kernel_entry text_start text_end j" and lo: "\<not> text_start \<le> kpage_addr j" if j: "j < 160" for j
  proof -
    note k = kernel_split [of "kpage_addr j" j 0, simplified, OF j]
    have "kpage_addr j - PHYS_BASE = of_nat j * PGSIZE" "PHYS_BASE \<le> kpage_addr j"
      using kpage_facts(3,4) [of j] j by simp_all
    moreover have "unat (of_nat j * PGSIZE :: u32) = 4096 * j"
      using j by (subst unat_mult_small) (simp_all add: page_consts unat_of_nat_small)
    ultimately have "entry_of ?v ?pd (kpage_addr j) = kernel_entry text_start text_end j"
      using e [of "kpage_addr j"] j N by simp
    then show "rd ?v (pt + 4 * of_nat j) = kernel_entry text_start text_end j"
      using pt(1) k by (simp add: entry_of_def)
    show "\<not> text_start \<le> kpage_addr j"
      using above k(4) j by (simp add: word_le_nat_alt PHYS_BASE_def)
  qed
  have "rd ?v (pt + 4 * of_nat j) AND PTE_P \<noteq> 0 \<and> rd ?v (pt + 4 * of_nat j) AND PTE_W \<noteq> 0 \<and>
      pte_get_page (rd ?v (pt + 4 * of_nat j)) = Some (kpage_addr j)" if "j < 160" for j
    using kernel_entry_facts [of j text_start text_end] ent [OF that] lo [OF that] that by simp
  then show ?thesis
    using high [OF pt(4)] high [OF dir_ok_basic(3) [OF ok]] pt(2,3) n by (intro exI [of _ pt]) (simp add: low_memory_mapped_def)
qed

text \<open>C9: the checks of \<^verbatim>\<open>SYS_READ\<close> look at the first byte of the buffer only.  A program that reads from the
  console into the last byte of user space passes every check, and the keys after the first one
  land in kernel memory, from \<^verbatim>\<open>PHYS_BASE\<close> on, byte by byte and as many as it asked for.  The bytes
  are those of conventional memory below 640 kB, which \<^verbatim>\<open>paging_init\<close> maps writable; the state assumed to be
  so mapped is the one in which the first key has been stored.\<close>
theorem sys_read_overwrites_kernel:
  assumes "user_int (kern u) (p + 4) = Some 0" and "user_int (kern u) (p + 8) = Some (PHYS_BASE - 1)"
    and "user_int (kern u) (p + 12) = Some (1 + of_nat n)" and "check_valid_pointer (p + 4)" and "check_valid_pointer (p + 12)"
    and "check_pagedir (p + 8) u = Some True"
    and "user_put (PHYS_BASE - 1) (keys u (keys_read u)) (kern u) = Some l" and "low_memory_mapped l pt n"
  shows "\<exists>u'. sys_read p u = Some (Return (Some (1 + of_nat n)), u') \<and>
    (\<forall>i < n. ram (pal (vm (kern u'))) (PHYS_BASE + of_nat i) = keys u (keys_read u + 1 + i))"
proof -
  let ?u = "u\<lparr>kern := l, keys_read := keys_read u + 1\<rparr>"
  have n0: "n \<le> 0xa0000"
    using assms(8) by (simp add: low_memory_mapped_def)
  have n: "sint (1 + of_nat n :: u32) = int (Suc n)"
    using n0 sint_of_nat_small [of "Suc n"] by simp
  then have pos: "0 <s (1 + of_nat n :: u32)"
    by (simp add: word_sless_alt)
  have pb: "PHYS_BASE - 1 + 1 = PHYS_BASE"
    by simp
  obtain u' where u': "read_keys n PHYS_BASE ?u = Some u'" "\<forall>x. ram (pal (vm (kern u'))) x =
      (if unat PHYS_BASE \<le> unat x \<and> unat x < unat PHYS_BASE + n then keys u (keys_read u + 1 + (unat x - unat PHYS_BASE))
       else ram (pal (vm (kern ?u))) x)"
    using read_keys_kernel [of ?u pt n PHYS_BASE n] assms(8) by auto
  have "read_keys (Suc n) (PHYS_BASE - 1) u = Some u'"
    using assms(7) u'(1) by (simp only: read_keys.simps pb Option.bind.simps)
  then have "do_read 0 (PHYS_BASE - 1) (1 + of_nat n) u = Some (Return (Some (1 + of_nat n)), u')"
    by (simp only: do_read_def n nat_int Option.bind.simps pos if_True simp_thms)
  moreover have "check_valid_pointer (PHYS_BASE - 1)"
    by (simp add: check_valid_pointer_def is_user_vaddr_def PHYS_BASE_def)
  ultimately have "sys_read p u = Some (Return (Some (1 + of_nat n)), u')"
    by (simp only: sys_read_def assms(1-6) Option.bind.simps simp_thms if_True if_False)
  moreover have "ram (pal (vm (kern u'))) (PHYS_BASE + of_nat i) = keys u (keys_read u + 1 + i)" if "i < n" for i
  proof -
    have "unat (PHYS_BASE + of_nat i) = unat PHYS_BASE + i"
      using that n0 by (subst unat_add_small) (simp_all add: unat_of_nat_small PHYS_BASE_def)
    then show ?thesis
      using u'(2) [rule_format, of "PHYS_BASE + of_nat i"] that by simp
  qed
  ultimately show ?thesis
    by blast
qed

section \<open>An example process\<close>

text \<open>A process whose only page is its stack, mapped writable at the top of user space, with the
  arguments of \<^verbatim>\<open>read (0, PHYS_BASE - 1, 3)\<close> on it, in a directory that maps the first page of memory for the kernel.\<close>
definition stack_ram :: ram where
  "stack_ram = write32 (write32 (write32 (write32 (write32 (write32 (write32 (write32 (\<lambda>_. 0) 0xc0100bfc 0x101007) 0xc0101ffc 0x105007)
     0xc0100c00 0x102007) 0xc0102000 3) 0xc0105f00 8) 0xc0105f04 0) 0xc0105f08 0xbfffffff) 0xc0105f0c 3"

definition example_proc :: "fs \<Rightarrow> uproc" where
  "example_proc s = \<lparr>fd_bitmap = \<lparr>bit_cnt = 128, bits = [3, 0, 0, 0]\<rparr>, file_names = replicate 128 NULL,
     kern = \<lparr>fsys = s, vm = one_directory\<lparr>pal := (pal one_directory)\<lparr>ram := stack_ram\<rparr>\<rparr>, t_pagedir = 0xc0100000\<rparr>,
     keys = (\<lambda>n. of_nat n), keys_read = 7, console = []\<rparr>"

lemma example_proc_fds: "fds_ok (example_proc s)" "lowest_free (example_proc s) = Some 2"
proof -
  have b: "bm_abs \<lparr>bit_cnt = 128, bits = [3, 0, 0, 0]\<rparr> = True # True # replicate 126 False"
    by code_simp
  show "fds_ok (example_proc s)"
    by (auto simp: fds_ok_def example_proc_def bm_invar_def bm_wf_def BITMAP_ERROR_def)
  show "lowest_free (example_proc s) = Some 2"
    by (simp add: lowest_free_def fd_free_def example_proc_def b upt_rec numeral_2_eq_2)
qed

lemma open_missing_eval:
  "map_option (\<lambda>(f, s). (f, files s NULL)) (fs_formatted \<bind> filesys_open [98] (replicate 20 0)) = Some (NULL, None)"
  by code_simp

theorem do_open_failure_panics_witness:
  "\<exists>s u'. fs_formatted = Some s \<and> do_open [98] (replicate 20 0) (example_proc s) = Some (Return (Some (- 1)), u') \<and>
     do_read 2 0x8048000 1 u' = None"
proof -
  obtain s s' where s: "fs_formatted = Some s" "filesys_open [98] (replicate 20 0) s = Some (NULL, s')" "files s' NULL = None"
    using open_missing_eval by (auto simp: bind_Some_iff)
  have "filesys_open [98] (replicate 20 0) (fsys (kern (example_proc s))) = Some (NULL, s')"
    using s(2) by (simp add: example_proc_def)
  then show ?thesis
    using do_open_failure_panics [OF example_proc_fds, of "[98]" "replicate 20 0" s s' "0x8048000" 1] s(1,3) by auto
qed

text \<open>On a freshly formatted disk with one file, \<^verbatim>\<open>b\<close>, of ten bytes, the file opens as descriptor 2.\<close>
definition fs_one_file :: "fs kernel" where
  "fs_one_file = do { s \<leftarrow> fs_formatted; (ok, s) \<leftarrow> filesys_create [98] 10 (replicate 20 0) s; ASSERT ok; Some s }"

lemma open_file_eval:
  "map_option (\<lambda>(f, s). f \<noteq> NULL) (fs_one_file \<bind> filesys_open [98] (replicate 20 0)) = Some True"
  by code_simp

theorem do_open_lowest_free_witness:
  "\<exists>s f s' u'. fs_one_file = Some s \<and> filesys_open [98] (replicate 20 0) s = Some (f, s') \<and> f \<noteq> NULL \<and>
     do_open [98] (replicate 20 0) (example_proc s) = Some (Return (Some 2), u') \<and> fds_ok u' \<and>
     file_names u' = (replicate 128 NULL)[2 := f]"
proof -
  obtain s f s' where s: "fs_one_file = Some s" "filesys_open [98] (replicate 20 0) s = Some (f, s')" "f \<noteq> NULL"
    using open_file_eval by (auto simp: bind_Some_iff)
  have "filesys_open [98] (replicate 20 0) (fsys (kern (example_proc s))) = Some (f, s')"
    using s(2) by (simp add: example_proc_def)
  then obtain u' where "do_open [98] (replicate 20 0) (example_proc s) = Some (Return (Some (of_nat 2)), u')" "fds_ok u'"
      "file_names u' = (file_names (example_proc s))[2 := f]"
    using do_open_lowest_free [OF example_proc_fds(1) [of s], of "[98]" "replicate 20 0"] example_proc_fds(2) [of s] s(3) by auto
  then show ?thesis
    using s by (auto simp: example_proc_def)
qed

theorem do_close_frees_witness:
  "\<exists>u'. do_close 0 (example_proc fs_boot) = Some (Return None, u') \<and> fds_ok u'"
proof -
  have "bm_abs (fd_bitmap (example_proc fs_boot)) ! 0" "file_close (file_names (example_proc fs_boot) ! 0) (fsys (kern (example_proc fs_boot))) = Some fs_boot"
    by (simp_all add: example_proc_def bm_bit_def file_close_def)
  then show ?thesis
    using do_close_frees [OF example_proc_fds(1) [of fs_boot], of 0] by auto
qed

abbreviation example_vm :: vstate where
  "example_vm \<equiv> one_directory\<lparr>pal := (pal one_directory)\<lparr>ram := stack_ram\<rparr>\<rparr>"

lemma unat_max: "unat (- 1 :: u32) = 4294967295"
  by (simp add: unsigned_minus_1_eq_mask mask_eq_exp_minus_1)

lemma example_rd: "rd example_vm 0xc0100bfc = 0x101007" "rd example_vm 0xc0101ffc = 0x105007"
  "rd example_vm 0xc0100c00 = 0x102007" "rd example_vm 0xc0102000 = 3"
  by (simp_all add: rd_def read32_def stack_ram_def write32_def u32_bytes_def unat_max)

lemma example_lookup:
  assumes "pd_no a = 0x2ff" and "pt_no a = 0x3ff"
  shows "lookup_page 0xc0100000 a False example_vm = Some (0xc0101ffc, example_vm)"
  using assms by (simp add: lookup_page_def example_rd pde_get_pt_def ptov_def PTE_P_def PTE_ADDR_def PHYS_BASE_def kernel_simps Let_def)

lemma example_get_page:
  assumes "pd_no a = 0x2ff" and "pt_no a = 0x3ff" and "is_user_vaddr a"
  shows "pagedir_get_page 0xc0100000 a example_vm = Some (0xc0105000 + pg_ofs a)"
  using assms example_lookup [OF assms(1,2)]
  by (simp add: pagedir_get_page_def example_rd pte_get_page_def ptov_def PTE_P_def PTE_ADDR_def PHYS_BASE_def kernel_simps)

lemmas example_addr = pd_no_def pt_no_def pg_ofs_def page_consts is_user_vaddr_def PHYS_BASE_def

lemma example_translate:
  assumes "pd_no a = 0x2ff" and "pt_no a = 0x3ff"
  shows "translate w (kern (example_proc s)) a = Some (0xc0105000 + pg_ofs a)"
  using example_lookup [OF assms]
  by (simp add: translate_def example_proc_def example_rd PTE_P_def PTE_W_def PTE_ADDR_def pte_get_page_def ptov_def PHYS_BASE_def kernel_simps)

lemma example_byte:
  assumes "pd_no a = 0x2ff" and "pt_no a = 0x3ff"
  shows "user_byte (kern (example_proc s)) a = Some (stack_ram (0xc0105000 + pg_ofs a))"
  using example_translate [OF assms] by (simp add: user_byte_def example_proc_def)

lemma user_bytes_4: "user_bytes l a 4 = do {
    b0 \<leftarrow> user_byte l a; b1 \<leftarrow> user_byte l (a + 1); b2 \<leftarrow> user_byte l (a + 2); b3 \<leftarrow> user_byte l (a + 3); Some [b0, b1, b2, b3] }"
  by (simp add: eval_nat_numeral add.assoc)

lemma example_args:
  "user_int (kern (example_proc s)) 0xbfffff04 = Some 0" "user_int (kern (example_proc s)) 0xbfffff08 = Some 0xbfffffff"
  "user_int (kern (example_proc s)) 0xbfffff0c = Some 3"
  by (simp_all add: user_int_def user_bytes_4 example_byte example_addr stack_ram_def write32_def u32_bytes_def unat_max)

lemma example_low: "low_memory_mapped (upd_ram (\<lambda>m. m(0xc0105fff := x)) (kern (example_proc s))) 0xc0102000 2"
proof -
  let ?l = "upd_ram (\<lambda>m. m(0xc0105fff := x)) (kern (example_proc s))"
  have rd: "rd (vm ?l) 0xc0100c00 = 0x102007" "rd (vm ?l) 0xc0102000 = 3"
    using example_rd(3,4) by (simp_all add: rd_def upd_ram_def example_proc_def read32_def)
  have one: "4096 * j < 2 \<longleftrightarrow> j = 0" for j :: nat
    by auto
  show ?thesis
    by (auto simp: low_memory_mapped_def one rd example_proc_def upd_ram_def PHYS_BASE_def pde_get_pt_def pte_get_page_def ptov_def
        PTE_P_def PTE_W_def PTE_ADDR_def kpage_addr_def kernel_simps rd [unfolded upd_ram_def example_proc_def, simplified])
qed

theorem sys_read_overwrites_kernel_witness:
  "\<exists>u'. sys_read 0xbfffff00 (example_proc fs_boot) = Some (Return (Some 3), u') \<and>
     ram (pal (vm (kern u'))) PHYS_BASE = 8 \<and> ram (pal (vm (kern u'))) (PHYS_BASE + 1) = 9"
proof -
  let ?u = "example_proc fs_boot"
  have args: "user_int (kern ?u) (0xbfffff00 + 4) = Some 0" "user_int (kern ?u) (0xbfffff00 + 8) = Some (PHYS_BASE - 1)"
    "user_int (kern ?u) (0xbfffff00 + 12) = Some (1 + of_nat 2)"
    using example_args by (simp_all add: PHYS_BASE_def)
  have map: "check_pagedir (0xbfffff00 + 8) ?u = Some True"
    using example_get_page [of "0xbfffff08"] by (simp add: check_pagedir_def example_proc_def example_addr)
  have ptrs: "check_valid_pointer (0xbfffff00 + 4)" "check_valid_pointer (0xbfffff00 + 12)"
    by (simp_all add: check_valid_pointer_def is_user_vaddr_def PHYS_BASE_def)
  let ?l = "upd_ram (\<lambda>m. m(0xc0105fff := keys ?u (keys_read ?u))) (kern ?u)"
  have put: "user_put (PHYS_BASE - 1) (keys ?u (keys_read ?u)) (kern ?u) = Some ?l"
    using example_translate [of "0xbfffffff" True fs_boot] by (simp add: user_put_def example_addr)
  have "low_memory_mapped ?l 0xc0102000 2"
    by (rule example_low)
  then obtain u' where "sys_read 0xbfffff00 ?u = Some (Return (Some (1 + of_nat 2)), u')"
      "\<forall>i < 2. ram (pal (vm (kern u'))) (PHYS_BASE + of_nat i) = keys ?u (keys_read ?u + 1 + i)"
    using sys_read_overwrites_kernel [OF args ptrs map put] by blast
  then show ?thesis
    by (auto simp: all_less_two example_proc_def)
qed

end
