(* ===== verification/Process.thy ===== *)
theory Process
  imports Threads
begin

text \<open>
  The protocol between parent and child of \<^verbatim>\<open>userprog/process.c\<close>: \<^verbatim>\<open>process_execute\<close>, \<^verbatim>\<open>start_process\<close>,
  \<^verbatim>\<open>process_wait\<close>, \<^verbatim>\<open>process_exit\<close>, with \<^verbatim>\<open>exit\<close> of userprog/syscall.c, on the shared
  \<^verbatim>\<open>struct child_status\<close> (threads/thread.h).

  Processes are interleaved.  What runs under \<^verbatim>\<open>cs_lock\<close> is one step, as is every operation on the
  semaphore \<^verbatim>\<open>sema_exec\<close> (theory Threads models both in detail); \<open>pc\<close> says which part of its current call a
  process has reached.  A \<^verbatim>\<open>sema_down\<close> that has to wait leaves the state as it is and is tried again.
  \<^term>\<open>None\<close> is the end of the kernel: a failed assertion, or an access to a structure that has been
  freed or a semaphore that has not been initialised.

  The addresses \<^verbatim>\<open>malloc\<close> returns are never handed out a second time (\<open>used\<close> records them), so that
  an access to freed memory is seen as such.  What the page allocator and \<^verbatim>\<open>malloc\<close> return, what \<^verbatim>\<open>malloc\<close> leaves in
  the new structure, whether \<^verbatim>\<open>thread_create\<close> succeeds and whether
  \<^verbatim>\<open>load\<close> succeeds (theory Loader) are arguments.  A \<^verbatim>\<open>thread_create\<close> that fails returns \<^verbatim>\<open>TID_ERROR\<close> and starts no child;
  \<open>failed\<close> records the structures that were made for one.  A command line without a word, for which \<^verbatim>\<open>thread_create\<close> fails an
  assertion, is not modelled.
\<close>

section \<open>State\<close>

record child_status =
  pid :: u32
  exit_status :: u32
  ref_cnt :: u32
  sema_exec :: "nat option"

datatype pc =
    User
  | Exec_init addr u32 | Exec_down addr | Exec_result addr
  | Start bool
  | Wait_down addr bool | Wait_finish addr bool
  | Exit_parent | Exit_up | Exit_children "addr list" "addr list" | Exit_free "addr list"

record process =
  cs_parent :: addr
  cs_list :: "addr list"
  pc :: pc
  result :: u32

record pstate =
  css :: "addr \<Rightarrow> child_status option"
  procs :: "u32 \<Rightarrow> process option"
  used :: "addr list"
  failed :: "addr list"

section \<open>Operations\<close>

definition upd_cs :: "addr \<Rightarrow> (child_status \<Rightarrow> child_status) \<Rightarrow> pstate \<Rightarrow> pstate kernel" where
  "upd_cs a f s = do { c \<leftarrow> css s a; Some (s\<lparr>css := (css s)(a \<mapsto> f c)\<rparr>) }"

definition free_cs :: "addr \<Rightarrow> pstate \<Rightarrow> pstate" where
  "free_cs a s = s\<lparr>css := (css s)(a := None)\<rparr>"

definition set_proc :: "u32 \<Rightarrow> process \<Rightarrow> pstate \<Rightarrow> pstate" where
  "set_proc t p s = s\<lparr>procs := (procs s)(t \<mapsto> p)\<rparr>"

definition up_exec :: "addr \<Rightarrow> pstate \<Rightarrow> pstate kernel" where
  "up_exec a s = do {
     c \<leftarrow> css s a;
     n \<leftarrow> sema_exec c;
     upd_cs a (\<lambda>c. c\<lparr>sema_exec := Some (n + 1)\<rparr>) s
   }"

definition down_exec :: "addr \<Rightarrow> pstate \<Rightarrow> pstate option kernel" where
  "down_exec a s = do {
     c \<leftarrow> css s a;
     n \<leftarrow> sema_exec c;
     if n = 0 then Some None
     else map_option Some (upd_cs a (\<lambda>c. c\<lparr>sema_exec := Some (n - 1)\<rparr>) s)
   }"

definition execute_create :: "addr \<Rightarrow> u32 \<Rightarrow> child_status \<Rightarrow> bool \<Rightarrow> u32 \<Rightarrow> process \<Rightarrow> pstate \<Rightarrow> pstate kernel" where
  "execute_create a child junk ok t p s = do {
     ASSERT (a \<noteq> NULL);
     let s = s\<lparr>css := (css s)(a \<mapsto> junk\<lparr>ref_cnt := 2, sema_exec := None\<rparr>), used := a # used s\<rparr>;
     let s = (if child = TID_ERROR then s\<lparr>failed := a # failed s\<rparr>
              else set_proc child \<lparr>cs_parent = a, cs_list = [], pc = Start ok, result = 0\<rparr> s);
     Some (set_proc t (p\<lparr>pc := Exec_init a child\<rparr>) s)
   }"

definition process_execute :: "addr \<Rightarrow> addr \<Rightarrow> addr \<Rightarrow> u32 \<Rightarrow> child_status \<Rightarrow> bool \<Rightarrow> u32 \<Rightarrow> process \<Rightarrow> pstate \<Rightarrow> pstate kernel" where
  "process_execute fn_copy fn_copy2 a child junk ok t p s =
     (if fn_copy = NULL then Some (set_proc t (p\<lparr>result := TID_ERROR\<rparr>) s)
      else do { ASSERT (fn_copy2 \<noteq> NULL); execute_create a child junk ok t p s })"

definition execute_init :: "addr \<Rightarrow> u32 \<Rightarrow> u32 \<Rightarrow> process \<Rightarrow> pstate \<Rightarrow> pstate kernel" where
  "execute_init a child t p s = do {
     s \<leftarrow> upd_cs a (\<lambda>c. c\<lparr>sema_exec := Some 0, pid := child\<rparr>) s;
     Some (set_proc t (p\<lparr>cs_list := a # cs_list p, pc := Exec_down a\<rparr>) s)
   }"

definition execute_down :: "addr \<Rightarrow> u32 \<Rightarrow> process \<Rightarrow> pstate \<Rightarrow> pstate kernel" where
  "execute_down a t p s = do {
     d \<leftarrow> down_exec a s;
     case d of None \<Rightarrow> Some s | Some s \<Rightarrow> Some (set_proc t (p\<lparr>pc := Exec_result a\<rparr>) s)
   }"

definition execute_result :: "addr \<Rightarrow> u32 \<Rightarrow> process \<Rightarrow> pstate \<Rightarrow> pstate kernel" where
  "execute_result a t p s = do {
     c \<leftarrow> css s a;
     let p = p\<lparr>pc := User, result := pid c\<rparr>;
     Some (if pid c = TID_ERROR
           then free_cs a (set_proc t (p\<lparr>cs_list := remove1 a (cs_list p)\<rparr>) s)
           else set_proc t p s)
   }"

definition start_process :: "bool \<Rightarrow> u32 \<Rightarrow> process \<Rightarrow> pstate \<Rightarrow> pstate kernel" where
  "start_process success t p s =
     (if \<not> success
      then do {
        s \<leftarrow> upd_cs (cs_parent p) (\<lambda>c. c\<lparr>pid := - 1\<rparr>) s;
        s \<leftarrow> up_exec (cs_parent p) s;
        Some (set_proc t (p\<lparr>pc := Exit_parent\<rparr>) s)
      }
      else do { s \<leftarrow> up_exec (cs_parent p) s; Some (set_proc t (p\<lparr>pc := User\<rparr>) s) })"

fun find_child :: "pstate \<Rightarrow> u32 \<Rightarrow> addr list \<Rightarrow> addr \<Rightarrow> (addr \<times> bool) kernel" where
  "find_child s child [] cs = Some (cs, False)"
| "find_child s child (a # as) cs = do {
     c \<leftarrow> css s a;
     if pid c = child then Some (a, True) else find_child s child as a
   }"

definition process_wait :: "u32 \<Rightarrow> u32 \<Rightarrow> process \<Rightarrow> pstate \<Rightarrow> pstate kernel" where
  "process_wait child t p s = do {
     (a, found) \<leftarrow> find_child s child (cs_list p) NULL;
     if a = NULL then Some (set_proc t (p\<lparr>result := - 1\<rparr>) s)
     else do {
       c \<leftarrow> css s a;
       Some (set_proc t (p\<lparr>pc := (if ref_cnt c = 2 then Wait_down a found else Wait_finish a found)\<rparr>) s)
     }
   }"

definition wait_down :: "addr \<Rightarrow> bool \<Rightarrow> u32 \<Rightarrow> process \<Rightarrow> pstate \<Rightarrow> pstate kernel" where
  "wait_down a found t p s = do {
     d \<leftarrow> down_exec a s;
     case d of None \<Rightarrow> Some s | Some s \<Rightarrow> Some (set_proc t (p\<lparr>pc := Wait_finish a found\<rparr>) s)
   }"

definition wait_finish :: "addr \<Rightarrow> bool \<Rightarrow> u32 \<Rightarrow> process \<Rightarrow> pstate \<Rightarrow> pstate kernel" where
  "wait_finish a found t p s = do {
     c \<leftarrow> css s a;
     ASSERT found;
     Some (free_cs a (set_proc t (p\<lparr>cs_list := remove1 a (cs_list p), pc := User, result := exit_status c\<rparr>) s))
   }"

definition exit_syscall :: "u32 \<Rightarrow> u32 \<Rightarrow> process \<Rightarrow> pstate \<Rightarrow> pstate kernel" where
  "exit_syscall st t p s = do {
     s \<leftarrow> upd_cs (cs_parent p) (\<lambda>c. c\<lparr>exit_status := st\<rparr>) s;
     Some (set_proc t (p\<lparr>pc := Exit_parent\<rparr>) s)
   }"

definition exit_parent :: "u32 \<Rightarrow> process \<Rightarrow> pstate \<Rightarrow> pstate kernel" where
  "exit_parent t p s =
     (if cs_parent p = NULL then Some (set_proc t (p\<lparr>pc := Exit_children (cs_list p) []\<rparr>) s)
      else do {
        s \<leftarrow> upd_cs (cs_parent p) (\<lambda>c. c\<lparr>ref_cnt := ref_cnt c - 1\<rparr>) s;
        c \<leftarrow> css s (cs_parent p);
        Some (if ref_cnt c = 0
              then free_cs (cs_parent p) (set_proc t (p\<lparr>pc := Exit_children (cs_list p) []\<rparr>) s)
              else set_proc t (p\<lparr>pc := Exit_up\<rparr>) s)
      })"

definition exit_up :: "u32 \<Rightarrow> process \<Rightarrow> pstate \<Rightarrow> pstate kernel" where
  "exit_up t p s = do {
     s \<leftarrow> up_exec (cs_parent p) s;
     Some (set_proc t (p\<lparr>pc := Exit_children (cs_list p) []\<rparr>) s)
   }"

definition exit_children :: "addr list \<Rightarrow> addr list \<Rightarrow> u32 \<Rightarrow> process \<Rightarrow> pstate \<Rightarrow> pstate kernel" where
  "exit_children es dels t p s =
     (case es of
        [] \<Rightarrow> Some (set_proc t (p\<lparr>pc := Exit_free dels\<rparr>) s)
      | e # es \<Rightarrow> do {
          s \<leftarrow> upd_cs e (\<lambda>c. c\<lparr>ref_cnt := ref_cnt c - 1\<rparr>) s;
          c \<leftarrow> css s e;
          Some (set_proc t (p\<lparr>pc := Exit_children es (if ref_cnt c = 0 then e # dels else dels)\<rparr>) s)
        })"

definition exit_free :: "addr list \<Rightarrow> u32 \<Rightarrow> process \<Rightarrow> pstate \<Rightarrow> pstate kernel" where
  "exit_free dels t p s =
     (let s = fold free_cs dels s in Some (s\<lparr>procs := (procs s)(t := None)\<rparr>))"

section \<open>Steps\<close>

datatype ucall = Execute addr addr addr u32 child_status bool | Wait u32 | Exit_call u32 | Killed

definition user_call :: "ucall \<Rightarrow> u32 \<Rightarrow> process \<Rightarrow> pstate \<Rightarrow> pstate kernel" where
  "user_call c t p s = (case c of
     Execute fn_copy fn_copy2 a child junk ok \<Rightarrow> process_execute fn_copy fn_copy2 a child junk ok t p s
   | Wait child \<Rightarrow> process_wait child t p s
   | Exit_call st \<Rightarrow> exit_syscall st t p s
   | Killed \<Rightarrow> Some (set_proc t (p\<lparr>pc := Exit_parent\<rparr>) s))"

definition continue :: "u32 \<Rightarrow> process \<Rightarrow> pstate \<Rightarrow> pstate kernel" where
  "continue t p s = (case pc p of
     User \<Rightarrow> Some s
   | Exec_init a child \<Rightarrow> execute_init a child t p s
   | Exec_down a \<Rightarrow> execute_down a t p s
   | Exec_result a \<Rightarrow> execute_result a t p s
   | Start ok \<Rightarrow> start_process ok t p s
   | Wait_down a found \<Rightarrow> wait_down a found t p s
   | Wait_finish a found \<Rightarrow> wait_finish a found t p s
   | Exit_parent \<Rightarrow> exit_parent t p s
   | Exit_up \<Rightarrow> exit_up t p s
   | Exit_children es dels \<Rightarrow> exit_children es dels t p s
   | Exit_free dels \<Rightarrow> exit_free dels t p s)"

text \<open>A new structure has a new address, a new process a new identifier.\<close>
definition fresh :: "ucall \<Rightarrow> pstate \<Rightarrow> bool" where
  "fresh c s = (case c of
     Execute fn_copy fn_copy2 a child junk ok \<Rightarrow> a \<notin> set (used s) \<and> (child \<noteq> TID_ERROR \<longrightarrow> procs s child = None)
   | _ \<Rightarrow> True)"

inductive pstep :: "pstate \<Rightarrow> pstate \<Rightarrow> bool" where
  call: "procs s t = Some p \<Longrightarrow> pc p = User \<Longrightarrow> fresh c s \<Longrightarrow> user_call c t p s = Some s' \<Longrightarrow> pstep s s'"
| part: "procs s t = Some p \<Longrightarrow> continue t p s = Some s' \<Longrightarrow> pstep s s'"

definition first_process :: pstate where
  "first_process = \<lparr>css = Map.empty, procs = [1 \<mapsto> \<lparr>cs_parent = NULL, cs_list = [], pc = User, result = 0\<rparr>], used = [], failed = []\<rparr>"

section \<open>Reference counts\<close>

text \<open>The structures to which a process has a reference that it has not given up, as the parent of the child they
  belong to and as that child.  The exit of a child gives its reference up when it decrements the
  count; it still raises the semaphore of the structure afterwards.\<close>
definition par_holds :: "process \<Rightarrow> addr set" where
  "par_holds p = (case pc p of
     Exec_init a child \<Rightarrow> insert a (set (cs_list p))
   | Exit_children es dels \<Rightarrow> set es
   | Exit_free dels \<Rightarrow> {}
   | _ \<Rightarrow> set (cs_list p))"

definition chi_holds :: "process \<Rightarrow> addr set" where
  "chi_holds p = (case pc p of
     Exit_up \<Rightarrow> {} | Exit_children es dels \<Rightarrow> {} | Exit_free dels \<Rightarrow> {}
   | _ \<Rightarrow> {cs_parent p} - {NULL})"

definition held :: "(process \<Rightarrow> addr set) \<Rightarrow> (u32 \<Rightarrow> process option) \<Rightarrow> addr \<Rightarrow> bool" where
  "held h ps a \<longleftrightarrow> (\<exists>t p. ps t = Some p \<and> a \<in> h p)"

definition refs :: "(u32 \<Rightarrow> process option) \<Rightarrow> addr \<Rightarrow> u32" where
  "refs ps a = of_bool (held par_holds ps a) + of_bool (held chi_holds ps a)"

definition exclusive :: "(process \<Rightarrow> addr set) \<Rightarrow> (u32 \<Rightarrow> process option) \<Rightarrow> bool" where
  "exclusive h ps \<longleftrightarrow> (\<forall>t t' p p'. ps t = Some p \<longrightarrow> ps t' = Some p' \<longrightarrow> t \<noteq> t' \<longrightarrow> h p \<inter> h p' = {})"

definition lists_ok :: "process \<Rightarrow> bool" where
  "lists_ok p \<longleftrightarrow> (case pc p of
     Exec_init a child \<Rightarrow> distinct (a # cs_list p)
   | Exit_children es dels \<Rightarrow> distinct es
   | Exit_free dels \<Rightarrow> True
   | _ \<Rightarrow> distinct (cs_list p))"

abbreviation same_history :: "pstate \<Rightarrow> pstate \<Rightarrow> bool" where
  "same_history s s' \<equiv> used s' = used s \<and> failed s' = failed s"

definition counts_ok :: "pstate \<Rightarrow> bool" where
  "counts_ok s \<longleftrightarrow>
     exclusive par_holds (procs s) \<and> exclusive chi_holds (procs s) \<and> NULL \<notin> set (used s) \<and>
     (\<forall>t p. procs s t = Some p \<longrightarrow> lists_ok p \<and> par_holds p \<subseteq> set (used s) \<and> chi_holds p \<subseteq> set (used s)) \<and>
     set (failed s) \<subseteq> set (used s) \<and>
     (\<forall>a c. css s a = Some c \<longrightarrow> a \<in> set (used s) \<and> ref_cnt c = refs (procs s) a + of_bool (a \<in> set (failed s)))"

lemma held_shrink:
  assumes "ps t = Some p" and "exclusive h ps" and "h p' \<subseteq> h p"
  shows "(of_bool (held h (ps(t \<mapsto> p')) a) :: u32) = of_bool (held h ps a) - of_bool (a \<in> h p \<and> a \<notin> h p')"
    and "exclusive h (ps(t \<mapsto> p'))"
proof -
  have other: "held h (ps(t \<mapsto> p')) a \<longleftrightarrow> a \<in> h p' \<or> (\<exists>t' q. t' \<noteq> t \<and> ps t' = Some q \<and> a \<in> h q)"
    by (auto simp: held_def)
  have all: "held h ps a \<longleftrightarrow> a \<in> h p \<or> (\<exists>t' q. t' \<noteq> t \<and> ps t' = Some q \<and> a \<in> h q)"
    using assms(1) unfolding held_def by (metis option.inject)
  have "\<not> (\<exists>t' q. t' \<noteq> t \<and> ps t' = Some q \<and> a \<in> h q)" if "a \<in> h p"
    using assms(1,2) that unfolding exclusive_def by blast
  then show "(of_bool (held h (ps(t \<mapsto> p')) a) :: u32) = of_bool (held h ps a) - of_bool (a \<in> h p \<and> a \<notin> h p')"
    unfolding other all using assms(3) by auto
  show "exclusive h (ps(t \<mapsto> p'))"
    using assms unfolding exclusive_def by (auto split: if_splits) blast+
qed

lemma counts_ok_step:
  assumes ok: "counts_ok s" and p: "procs s t = Some p" and p': "procs s' = (procs s)(t \<mapsto> p')"
    and par: "par_holds p' \<subseteq> par_holds p" and chi: "chi_holds p' \<subseteq> chi_holds p" and lists: "lists_ok p'" and hist: "same_history s s'"
    and cnt: "\<And>a c'. css s' a = Some c' \<Longrightarrow> \<exists>c. css s a = Some c \<and>
      ref_cnt c' = ref_cnt c - of_bool (a \<in> par_holds p \<and> a \<notin> par_holds p') - of_bool (a \<in> chi_holds p \<and> a \<notin> chi_holds p')"
  shows "counts_ok s'"
proof -
  have ex: "exclusive par_holds (procs s)" "exclusive chi_holds (procs s)"
    using ok by (simp_all add: counts_ok_def)
  note hp = held_shrink [OF p ex(1) par] and hc = held_shrink [OF p ex(2) chi]
  have used: "used s' = used s" "failed s' = failed s"
    using hist by simp_all
  have "a \<in> set (used s') \<and> ref_cnt c' = refs (procs s') a + of_bool (a \<in> set (failed s'))" if css: "css s' a = Some c'" for a c'
  proof -
    obtain c where "css s a = Some c" "ref_cnt c' = ref_cnt c - of_bool (a \<in> par_holds p \<and> a \<notin> par_holds p')
        - of_bool (a \<in> chi_holds p \<and> a \<notin> chi_holds p')"
      using cnt [OF css] by blast
    moreover from this(1) have "a \<in> set (used s) \<and> ref_cnt c = refs (procs s) a + of_bool (a \<in> set (failed s))"
      using ok by (simp add: counts_ok_def)
    ultimately show ?thesis
      unfolding p' used refs_def hp(1) hc(1) by (simp add: algebra_simps)
  qed
  moreover have "lists_ok q \<and> par_holds q \<subseteq> set (used s') \<and> chi_holds q \<subseteq> set (used s')" if "procs s' t' = Some q" for t' q
    using ok p par chi lists that unfolding p' used counts_ok_def by (auto split: if_splits) blast+
  ultimately show ?thesis
    using ok hp(2) hc(2) unfolding counts_ok_def p' [symmetric] by (simp add: used)
qed

lemmas hold_defs = par_holds_def chi_holds_def lists_ok_def

lemma set_proc_simps [simp]:
  "procs (set_proc t p s) = (procs s)(t \<mapsto> p)" "css (set_proc t p s) = css s" "used (set_proc t p s) = used s"
  "failed (set_proc t p s) = failed s"
  by (simp_all add: set_proc_def)

lemma free_cs_simps [simp]:
  "procs (free_cs a s) = procs s" "css (free_cs a s) = (css s)(a := None)" "used (free_cs a s) = used s"
  "failed (free_cs a s) = failed s"
  by (simp_all add: free_cs_def)

lemma upd_cs_Some: "upd_cs a f s = Some s' \<longleftrightarrow> (\<exists>c. css s a = Some c \<and> s' = s\<lparr>css := (css s)(a \<mapsto> f c)\<rparr>)"
  by (auto simp: upd_cs_def bind_Some_iff)

lemma up_exec_Some:
  "up_exec a s = Some s' \<longleftrightarrow> (\<exists>c n. css s a = Some c \<and> sema_exec c = Some n \<and> s' = s\<lparr>css := (css s)(a \<mapsto> c\<lparr>sema_exec := Some (n + 1)\<rparr>)\<rparr>)"
  by (auto simp: up_exec_def bind_Some_iff upd_cs_Some)

lemma down_exec_Some:
  "down_exec a s = Some d \<longleftrightarrow> (\<exists>c n. css s a = Some c \<and> sema_exec c = Some n \<and>
     d = (if n = 0 then None else Some (s\<lparr>css := (css s)(a \<mapsto> c\<lparr>sema_exec := Some (n - 1)\<rparr>)\<rparr>)))"
  by (auto simp: down_exec_def bind_Some_iff upd_cs_def)

lemmas part_Some = upd_cs_Some up_exec_Some down_exec_Some

lemma lists_ok_of: "counts_ok s \<Longrightarrow> procs s t = Some p \<Longrightarrow> lists_ok p"
  by (simp add: counts_ok_def)

lemma heldI: "ps t = Some p \<Longrightarrow> a \<in> h p \<Longrightarrow> held h ps a"
  by (auto simp: held_def)

lemma held_two:
  assumes "ps t = Some p" and "ps c = None" and "t \<noteq> c" and "h p \<subseteq> h p'"
  shows "held h (ps(c \<mapsto> q, t \<mapsto> p')) b \<longleftrightarrow> b \<in> h q \<or> b \<in> h p' \<or> held h ps b"
proof
  assume "held h (ps(c \<mapsto> q, t \<mapsto> p')) b"
  then show "b \<in> h q \<or> b \<in> h p' \<or> held h ps b"
    by (auto simp: held_def split: if_splits)
next
  have "held h (ps(c \<mapsto> q, t \<mapsto> p')) b" if "ps t1 = Some p1" "b \<in> h p1" for t1 p1
    using that assms heldI [of "ps(c \<mapsto> q, t \<mapsto> p')" t p' b h] heldI [of "ps(c \<mapsto> q, t \<mapsto> p')" t1 p1 b h]
    by (cases "t1 = t"; cases "t1 = c") auto
  moreover have "held h (ps(c \<mapsto> q, t \<mapsto> p')) b" if "b \<in> h q \<or> b \<in> h p'"
    using that assms(3) heldI [of "ps(c \<mapsto> q, t \<mapsto> p')" t p' b h] heldI [of "ps(c \<mapsto> q, t \<mapsto> p')" c q b h] by auto
  moreover assume "b \<in> h q \<or> b \<in> h p' \<or> held h ps b"
  ultimately show "held h (ps(c \<mapsto> q, t \<mapsto> p')) b"
    unfolding held_def [of h ps] by blast
qed

lemma counts_execute:
  assumes "counts_ok s" and "procs s t = Some p" and "pc p = User" and "a \<notin> set (used s)" and "child \<noteq> TID_ERROR" and "procs s child = None"
    and "execute_create a child junk ok t p s = Some s'"
  shows "counts_ok s'"
proof -
  let ?p = "p\<lparr>pc := Exec_init a child\<rparr>" and ?q = "\<lparr>cs_parent = a, cs_list = [], pc = Start ok, result = 0\<rparr>"
  have s': "procs s' = (procs s)(child \<mapsto> ?q, t \<mapsto> ?p)" "css s' = (css s)(a \<mapsto> junk\<lparr>ref_cnt := 2, sema_exec := None\<rparr>)"
      "used s' = a # used s" "failed s' = failed s" and a: "a \<noteq> NULL"
    using assms(5,7) by (auto simp: execute_create_def kernel_simps Let_def split: if_splits)
  have tc: "t \<noteq> child"
    using assms(2,6) by auto
  have hp: "par_holds ?p = insert a (par_holds p)" "chi_holds ?p = chi_holds p" "par_holds ?q = {}" "chi_holds ?q = {a}"
    using assms(3) a by (auto simp: hold_defs)
  have old: "a \<notin> par_holds q" "a \<notin> chi_holds q" if "procs s t' = Some q" for t' q
    using assms(1,4) that unfolding counts_ok_def by blast+
  have held_old: "held par_holds (procs s') b = (b = a \<or> held par_holds (procs s) b)"
    "held chi_holds (procs s') b = (b = a \<or> held chi_holds (procs s) b)" for b
    unfolding s' using held_two [OF assms(2,6) tc, of par_holds ?p ?q b] held_two [OF assms(2,6) tc, of chi_holds ?p ?q b] hp
      heldI [of "procs s" t p b par_holds] heldI [of "procs s" t p b chi_holds] assms(2) by auto
  have nh: "\<not> held par_holds (procs s) a" "\<not> held chi_holds (procs s) a"
    using old by (auto simp: held_def)
  have "exclusive par_holds (procs s')" "exclusive chi_holds (procs s')"
    using assms(1,2) hp old unfolding counts_ok_def exclusive_def s' by (auto split: if_splits)
  moreover have "lists_ok q \<and> par_holds q \<subseteq> set (used s') \<and> chi_holds q \<subseteq> set (used s')" if "procs s' t' = Some q" for t' q
  proof -
    have "lists_ok ?p" "lists_ok ?q"
      using lists_ok_of [OF assms(1,2)] assms(3) old(1) [OF assms(2)] by (auto simp: hold_defs)
    moreover have "par_holds p \<subseteq> set (used s)" "chi_holds p \<subseteq> set (used s)"
      using assms(1,2) by (auto simp: counts_ok_def)
    ultimately show ?thesis
      using that assms(1) hp unfolding s' counts_ok_def by (auto split: if_splits) blast+
  qed
  moreover have "b \<in> set (used s') \<and> ref_cnt c = refs (procs s') b + of_bool (b \<in> set (failed s'))" if "css s' b = Some c" for b c
    using that assms(1,4) nh unfolding counts_ok_def refs_def held_old s'(2-4) by (auto split: if_splits)
  moreover have "set (failed s') \<subseteq> set (used s')"
    using assms(1) by (auto simp: counts_ok_def s'(3,4))
  ultimately show ?thesis
    using assms(1) a by (simp add: counts_ok_def s'(3))
qed

lemma held_one:
  assumes "ps t = Some p" and "h p \<subseteq> h p'"
  shows "held h (ps(t \<mapsto> p')) b \<longleftrightarrow> b \<in> h p' \<or> held h ps b"
proof -
  have "held h (ps(t \<mapsto> p')) b" if "ps u = Some q" "b \<in> h q" for u q
    using that assms heldI [of "ps(t \<mapsto> p')" t p' b h] heldI [of "ps(t \<mapsto> p')" u q b h] by (cases "u = t") auto
  then have "held h (ps(t \<mapsto> p')) b" if "held h ps b"
    using that unfolding held_def [of h ps] by blast
  moreover have "b \<in> h p' \<or> held h ps b" if "held h (ps(t \<mapsto> p')) b"
    using that by (auto simp: held_def split: if_splits)
  ultimately show ?thesis
    using heldI [of "ps(t \<mapsto> p')" t p' b h] by auto
qed

text \<open>When \<^verbatim>\<open>thread_create\<close> fails, the count of the new structure is one more than its references.\<close>
lemma counts_execute_failed:
  assumes "counts_ok s" and "procs s t = Some p" and "pc p = User" and "a \<notin> set (used s)"
    and "execute_create a TID_ERROR junk ok t p s = Some s'"
  shows "counts_ok s'"
proof -
  let ?p = "p\<lparr>pc := Exec_init a TID_ERROR\<rparr>"
  have s': "procs s' = (procs s)(t \<mapsto> ?p)" "css s' = (css s)(a \<mapsto> junk\<lparr>ref_cnt := 2, sema_exec := None\<rparr>)"
      "used s' = a # used s" "failed s' = a # failed s" and a: "a \<noteq> NULL"
    using assms(5) by (auto simp: execute_create_def kernel_simps Let_def split: if_splits)
  have hp: "par_holds ?p = insert a (par_holds p)" "chi_holds ?p = chi_holds p"
    using assms(3) by (auto simp: hold_defs)
  have old: "a \<notin> par_holds q" "a \<notin> chi_holds q" if "procs s t' = Some q" for t' q
    using assms(1,4) that unfolding counts_ok_def by blast+
  have held_new: "held par_holds (procs s') b = (b = a \<or> held par_holds (procs s) b)" "held chi_holds (procs s') b = held chi_holds (procs s) b" for b
    unfolding s' using held_one [of "procs s" t p par_holds ?p b] held_one [of "procs s" t p chi_holds ?p b] hp
      heldI [of "procs s" t p b par_holds] heldI [of "procs s" t p b chi_holds] assms(2) by auto
  have nh: "\<not> held par_holds (procs s) a" "\<not> held chi_holds (procs s) a"
    using old by (auto simp: held_def)
  have "exclusive par_holds (procs s')" "exclusive chi_holds (procs s')"
    using assms(1,2) hp old unfolding counts_ok_def exclusive_def s' by (auto split: if_splits)
  moreover have "lists_ok q \<and> par_holds q \<subseteq> set (used s') \<and> chi_holds q \<subseteq> set (used s')" if "procs s' t' = Some q" for t' q
  proof -
    have "lists_ok ?p"
      using lists_ok_of [OF assms(1,2)] assms(3) old(1) [OF assms(2)] by (auto simp: hold_defs)
    moreover have "par_holds p \<subseteq> set (used s)" "chi_holds p \<subseteq> set (used s)"
      using assms(1,2) by (auto simp: counts_ok_def)
    ultimately show ?thesis
      using that assms(1) hp unfolding s' counts_ok_def by (auto split: if_splits) blast+
  qed
  moreover have "b \<in> set (used s') \<and> ref_cnt c = refs (procs s') b + of_bool (b \<in> set (failed s'))" if "css s' b = Some c" for b c
    using that assms(1,4) nh unfolding counts_ok_def refs_def held_new s'(2-4) by (auto split: if_splits)
  moreover have "set (failed s') \<subseteq> set (used s')"
    using assms(1) by (auto simp: counts_ok_def s'(3,4))
  ultimately show ?thesis
    using assms(1) a by (simp add: counts_ok_def s'(3))
qed

lemma counts_call:
  assumes "counts_ok s" and "procs s t = Some p" and "pc p = User" and "fresh c s" and "user_call c t p s = Some s'"
  shows "counts_ok s'"
proof (cases c)
  case (Execute fn_copy fn_copy2 a child junk ok)
  then have f: "a \<notin> set (used s)" "child \<noteq> TID_ERROR \<longrightarrow> procs s child = None" and
      run: "process_execute fn_copy fn_copy2 a child junk ok t p s = Some s'"
    using assms(4,5) by (simp_all add: fresh_def user_call_def)
  show ?thesis
  proof (cases "fn_copy = NULL")
    case True
    then show ?thesis
      using run lists_ok_of [OF assms(1,2)] assms(3)
      by (intro counts_ok_step [OF assms(1,2), of s' "p\<lparr>result := TID_ERROR\<rparr>"]) (auto simp: process_execute_def hold_defs)
  next
    case False
    then have "execute_create a child junk ok t p s = Some s'"
      using run by (auto simp: process_execute_def kernel_simps split: if_splits)
    then show ?thesis
      using counts_execute [OF assms(1-3) f(1)] counts_execute_failed [OF assms(1-3) f(1)] f(2) by (cases "child = TID_ERROR") auto
  qed
next
  case (Wait child)
  obtain p' where "s' = set_proc t p' s" "par_holds p' = par_holds p" "chi_holds p' = chi_holds p" "lists_ok p'"
    using assms(5) lists_ok_of [OF assms(1,2)] assms(3)
    by (auto simp: Wait user_call_def process_wait_def bind_Some_iff hold_defs split: if_splits)
  then show ?thesis
    by (intro counts_ok_step [OF assms(1,2), of s' p']) auto
next
  case (Exit_call st)
  then show ?thesis
    using assms(5) lists_ok_of [OF assms(1,2)] assms(3)
    by (intro counts_ok_step [OF assms(1,2), of s' "p\<lparr>pc := Exit_parent\<rparr>"])
      (auto simp: user_call_def exit_syscall_def bind_Some_iff part_Some hold_defs split: if_splits)
next
  case Killed
  then show ?thesis
    using assms(5) lists_ok_of [OF assms(1,2)] assms(3)
    by (intro counts_ok_step [OF assms(1,2), of s' "p\<lparr>pc := Exit_parent\<rparr>"]) (auto simp: user_call_def hold_defs)
qed

lemma counts_same:
  assumes "counts_ok s" and "procs s t = Some p" and "procs s' = (procs s)(t \<mapsto> p')" and "same_history s s'"
    and "par_holds p' = par_holds p" and "chi_holds p' = chi_holds p" and "lists_ok p'"
    and "\<And>a c'. css s' a = Some c' \<Longrightarrow> \<exists>c. css s a = Some c \<and> ref_cnt c' = ref_cnt c"
  shows "counts_ok s'"
  using assms(8) by (intro counts_ok_step [OF assms(1-3)]) (simp_all add: assms(4-7))

lemma fold_free_cs:
  "procs (fold free_cs ds s) = procs s" "used (fold free_cs ds s) = used s" "failed (fold free_cs ds s) = failed s"
  "css (fold free_cs ds s) a = (if a \<in> set ds then None else css s a)"
  by (induction ds arbitrary: s) simp_all

lemma counts_exit_free:
  assumes "counts_ok s" and "procs s t = Some p" and "pc p = Exit_free dels" and "exit_free dels t p s = Some s'"
  shows "counts_ok s'"
proof -
  have s': "procs s' = (procs s)(t := None)" "same_history s s'" "\<And>a c. css s' a = Some c \<Longrightarrow> css s a = Some c"
    using assms(4) by (auto simp: exit_free_def Let_def fold_free_cs split: if_splits)
  have none: "par_holds p = {}" "chi_holds p = {}"
    using assms(3) by (simp_all add: hold_defs)
  have "held h (procs s') a = held h (procs s) a" if "h p = {}" for h a
  proof
    assume "held h (procs s) a"
    then obtain t' q where "procs s t' = Some q" "a \<in> h q"
      by (auto simp: held_def)
    then show "held h (procs s') a"
      using that assms(2) s'(1) heldI [of "procs s'" t' q a h] by (cases "t' = t") simp_all
  qed (auto simp: held_def s'(1) split: if_splits)
  then have "refs (procs s') a = refs (procs s) a" for a
    using none by (simp add: refs_def)
  then show ?thesis
    using assms(1) s'(3) unfolding counts_ok_def exclusive_def s'(1) conjunct1 [OF s'(2)] conjunct2 [OF s'(2)] by (auto split: if_splits)
qed

lemma counts_part:
  assumes "counts_ok s" and "procs s t = Some p" and "continue t p s = Some s'"
  shows "counts_ok s'"
proof -
  note L = lists_ok_of [OF assms(1,2)]
  note same = counts_same [OF assms(1,2), of s'] and shrink = counts_ok_step [OF assms(1,2), of s']
  show ?thesis
  proof (cases "pc p")
    case User
    then show ?thesis
      using assms by (simp add: continue_def)
  next
    case (Exec_init a child)
    then show ?thesis
      using assms(3) L by (intro same [of "p\<lparr>cs_list := a # cs_list p, pc := Exec_down a\<rparr>"])
        (auto simp: continue_def execute_init_def bind_Some_iff part_Some hold_defs split: if_splits)
  next
    case (Exec_down a)
    then have "s' = s \<or> procs s' = (procs s)(t \<mapsto> p\<lparr>pc := Exec_result a\<rparr>) \<and> same_history s s' \<and>
        (\<forall>b c'. css s' b = Some c' \<longrightarrow> (\<exists>c. css s b = Some c \<and> ref_cnt c' = ref_cnt c))"
      using assms(3) by (auto simp: continue_def execute_down_def bind_Some_iff part_Some split: if_splits)
    then show ?thesis
      using assms(1) same [of "p\<lparr>pc := Exec_result a\<rparr>"] L Exec_down by (auto simp: hold_defs)
  next
    case (Exec_result a)
    let ?p = "\<lambda>c. p\<lparr>pc := User, result := pid c\<rparr>"
    obtain c where c: "css s a = Some c" "s' = (if pid c = TID_ERROR
        then free_cs a (set_proc t ((?p c)\<lparr>cs_list := remove1 a (cs_list p)\<rparr>) s) else set_proc t (?p c) s)"
      using assms(3) Exec_result by (auto simp: continue_def execute_result_def bind_Some_iff Let_def)
    show ?thesis
    proof (cases "pid c = TID_ERROR")
      case True
      then show ?thesis
        using L Exec_result c by (intro shrink [of "(?p c)\<lparr>cs_list := remove1 a (cs_list p)\<rparr>"]) (auto simp: hold_defs split: if_splits)
    next
      case False
      then show ?thesis
        using L Exec_result c by (intro same [of "?p c"]) (auto simp: hold_defs)
    qed
  next
    case (Start ok)
    then show ?thesis
      using assms(3) L by (intro same [of "p\<lparr>pc := (if ok then User else Exit_parent)\<rparr>"])
        (auto simp: continue_def start_process_def bind_Some_iff part_Some hold_defs split: if_splits)
  next
    case (Wait_down a found)
    then have "s' = s \<or> procs s' = (procs s)(t \<mapsto> p\<lparr>pc := Wait_finish a found\<rparr>) \<and> same_history s s' \<and>
        (\<forall>b c'. css s' b = Some c' \<longrightarrow> (\<exists>c. css s b = Some c \<and> ref_cnt c' = ref_cnt c))"
      using assms(3) by (auto simp: continue_def wait_down_def bind_Some_iff part_Some split: if_splits)
    then show ?thesis
      using assms(1) same [of "p\<lparr>pc := Wait_finish a found\<rparr>"] L Wait_down by (auto simp: hold_defs)
  next
    case (Wait_finish a found)
    then obtain c where "css s a = Some c"
      "s' = free_cs a (set_proc t (p\<lparr>cs_list := remove1 a (cs_list p), pc := User, result := exit_status c\<rparr>) s)"
      using assms(3) by (auto simp: continue_def wait_finish_def bind_Some_iff kernel_simps split: if_splits)
    then show ?thesis
      using L Wait_finish by (intro shrink [of "p\<lparr>cs_list := remove1 a (cs_list p), pc := User, result := exit_status c\<rparr>"])
        (auto simp: hold_defs split: if_splits)
  next
    case Exit_parent
    then have s': "exit_parent t p s = Some s'"
      using assms(3) by (simp add: continue_def)
    have "\<exists>q. q \<in> {Exit_up, Exit_children (cs_list p) []} \<and> procs s' = (procs s)(t \<mapsto> p\<lparr>pc := q\<rparr>) \<and> same_history s s'"
      using s' by (auto simp: exit_parent_def bind_Some_iff part_Some split: if_splits)
    then obtain q where q: "q = Exit_up \<or> q = Exit_children (cs_list p) []" "procs s' = (procs s)(t \<mapsto> p\<lparr>pc := q\<rparr>)" "same_history s s'"
      by auto
    have h: "par_holds (p\<lparr>pc := q\<rparr>) = par_holds p" "chi_holds (p\<lparr>pc := q\<rparr>) = {}" "chi_holds p = {cs_parent p} - {NULL}" "lists_ok (p\<lparr>pc := q\<rparr>)"
      using q(1) L Exit_parent by (auto simp: hold_defs)
    have cnt: "\<exists>c. css s a = Some c \<and> ref_cnt c' = ref_cnt c - of_bool (a = cs_parent p \<and> a \<noteq> NULL)" if "css s' a = Some c'" for a c'
      using s' that by (auto simp: exit_parent_def bind_Some_iff part_Some split: if_splits)
    show ?thesis
      by (rule shrink [OF q(2) _ _ h(4) q(3)]) (use cnt in \<open>simp_all add: h(1-3)\<close>)
  next
    case Exit_up
    then show ?thesis
      using assms(3) L by (intro same [of "p\<lparr>pc := Exit_children (cs_list p) []\<rparr>"])
        (auto simp: continue_def exit_up_def bind_Some_iff part_Some hold_defs split: if_splits)
  next
    case (Exit_children es dels)
    show ?thesis
    proof (cases es)
      case Nil
      then show ?thesis
        using assms(3) L Exit_children by (intro same [of "p\<lparr>pc := Exit_free dels\<rparr>"])
          (auto simp: continue_def exit_children_def hold_defs)
    next
      case (Cons e es')
      then obtain dels' c where "css s e = Some c" "s' = set_proc t (p\<lparr>pc := Exit_children es' dels'\<rparr>) (s\<lparr>css := (css s)(e \<mapsto> c\<lparr>ref_cnt := ref_cnt c - 1\<rparr>)\<rparr>)"
        using assms(3) Exit_children by (auto simp: continue_def exit_children_def bind_Some_iff part_Some)
      then show ?thesis
        using L Exit_children Cons by (intro shrink [of "p\<lparr>pc := Exit_children es' dels'\<rparr>"])
          (auto simp: hold_defs split: if_splits)
    qed
  next
    case (Exit_free dels)
    then show ?thesis
      using assms counts_exit_free by (simp add: continue_def)
  qed
qed

section \<open>Signals\<close>

text \<open>The structures whose semaphore a process may wait for, how many times a process has waited for
  one of them, and how many times a child has raised the semaphore of its structure.\<close>
definition listed :: "process \<Rightarrow> addr set" where
  "listed p = (case pc p of
     Wait_finish a found \<Rightarrow> set (cs_list p) - {a}
   | Exit_parent \<Rightarrow> {} | Exit_up \<Rightarrow> {} | Exit_children es dels \<Rightarrow> {} | Exit_free dels \<Rightarrow> {}
   | _ \<Rightarrow> set (cs_list p))"

definition downs :: "process \<Rightarrow> addr \<Rightarrow> nat" where
  "downs p a = (if pc p = Exec_down a then 0 else 1)"

definition ups :: "process \<Rightarrow> nat" where
  "ups p = (case pc p of Start ok \<Rightarrow> 0 | Exit_children es dels \<Rightarrow> 2 | Exit_free dels \<Rightarrow> 2 | _ \<Rightarrow> 1)"

definition raised :: "nat \<Rightarrow> addr list \<Rightarrow> (u32 \<Rightarrow> process option) \<Rightarrow> addr \<Rightarrow> bool" where
  "raised k F ps a \<longleftrightarrow> (\<forall>t p. ps t = Some p \<longrightarrow> cs_parent p = a \<longrightarrow> ups p = k) \<and>
     ((\<forall>t p. ps t = Some p \<longrightarrow> cs_parent p \<noteq> a) \<longrightarrow> k = (if a \<in> set F then 0 else 2))"

definition one_child :: "(u32 \<Rightarrow> process option) \<Rightarrow> bool" where
  "one_child ps \<longleftrightarrow> (\<forall>t t' p p'. ps t = Some p \<longrightarrow> ps t' = Some p' \<longrightarrow> cs_parent p = cs_parent p' \<longrightarrow> cs_parent p \<noteq> NULL \<longrightarrow> t = t')"

definition wait_ok :: "pstate \<Rightarrow> process \<Rightarrow> bool" where
  "wait_ok s p \<longleftrightarrow>
     (cs_parent p \<noteq> NULL \<longrightarrow> cs_parent p \<in> set (used s) \<and> cs_parent p \<notin> set (failed s)) \<and>
     (\<forall>a found. pc p = Wait_down a found \<longrightarrow> a \<in> set (cs_list p)) \<and>
     (\<forall>a. pc p = Exec_down a \<longrightarrow> a \<in> set (cs_list p)) \<and>
     (\<forall>a child c. pc p = Exec_init a child \<longrightarrow> css s a = Some c \<longrightarrow> sema_exec c = None \<and> raised 0 (failed s) (procs s) a) \<and>
     (\<forall>a c. a \<in> listed p \<longrightarrow> css s a = Some c \<longrightarrow> (\<exists>n. sema_exec c = Some n \<and> raised (n + downs p a) (failed s) (procs s) a))"

definition signals_ok :: "pstate \<Rightarrow> bool" where
  "signals_ok s \<longleftrightarrow> one_child (procs s) \<and> (\<forall>t p. procs s t = Some p \<longrightarrow> wait_ok s p)"

lemma raisedD: "raised k F ps a \<Longrightarrow> ps t = Some p \<Longrightarrow> cs_parent p = a \<Longrightarrow> ups p = k"
  by (auto simp: raised_def)

lemma wait_okD:
  "wait_ok s p \<Longrightarrow> a \<in> listed p \<Longrightarrow> css s a = Some c \<Longrightarrow> \<exists>n. sema_exec c = Some n \<and> raised (n + downs p a) (failed s) (procs s) a"
  by (simp add: wait_ok_def)

lemma wait_ok_rest:
  assumes "wait_ok s p"
  shows "cs_parent p \<noteq> NULL \<Longrightarrow> cs_parent p \<in> set (used s) \<and> cs_parent p \<notin> set (failed s)" and "pc p = Wait_down a found \<Longrightarrow> a \<in> set (cs_list p)"
    and "pc p = Exec_down a \<Longrightarrow> a \<in> set (cs_list p)"
    and "pc p = Exec_init a child \<Longrightarrow> css s a = Some c \<Longrightarrow> sema_exec c = None \<and> raised 0 (failed s) (procs s) a"
  using assms by (auto simp: wait_ok_def)

lemma wait_okI:
  assumes "cs_parent p \<noteq> NULL \<Longrightarrow> cs_parent p \<in> set (used s) \<and> cs_parent p \<notin> set (failed s)" and "\<And>a found. pc p = Wait_down a found \<Longrightarrow> a \<in> set (cs_list p)"
    and "\<And>a. pc p = Exec_down a \<Longrightarrow> a \<in> set (cs_list p)"
    and "\<And>a child c. pc p = Exec_init a child \<Longrightarrow> css s a = Some c \<Longrightarrow> sema_exec c = None \<and> raised 0 (failed s) (procs s) a"
    and "\<And>a c. a \<in> listed p \<Longrightarrow> css s a = Some c \<Longrightarrow> \<exists>n. sema_exec c = Some n \<and> raised (n + downs p a) (failed s) (procs s) a"
  shows "wait_ok s p"
  using assms by (auto simp: wait_ok_def)

lemma raised_step:
  assumes "raised k F ps a" and "one_child ps" and "ps t = Some p" and "cs_parent p' = cs_parent p" and "a \<noteq> NULL"
    and "k' + (if a = cs_parent p then ups p else 0) = k + (if a = cs_parent p then ups p' else 0)"
  shows "raised k' F (ps(t \<mapsto> p')) a"
proof (cases "a = cs_parent p")
  case True
  then have "k = ups p" and "k' = ups p'"
    using assms(1,3,6) by (auto simp: raised_def)
  moreover have "t' = t" if "ps t' = Some q" "cs_parent q = a" for t' q
    using assms(2,3,5) True that unfolding one_child_def by metis
  ultimately show ?thesis
    unfolding raised_def using True assms(4) by auto
next
  case False
  then have "k' = k"
    using assms(6) by simp
  moreover have "(\<forall>t' q. (ps(t \<mapsto> p')) t' = Some q \<longrightarrow> cs_parent q = a \<longrightarrow> ups q = k)"
    using assms(1,4) False by (auto simp: raised_def)
  moreover have "k = (if a \<in> set F then 0 else 2)" if none: "\<forall>t' q. (ps(t \<mapsto> p')) t' = Some q \<longrightarrow> cs_parent q \<noteq> a"
  proof -
    have "cs_parent q \<noteq> a" if "ps t' = Some q" for t' q
      using that assms(3) False none [rule_format, of t' q] by (cases "t' = t") auto
    then show ?thesis
      using assms(1) by (auto simp: raised_def)
  qed
  ultimately show ?thesis
    by (auto simp: raised_def)
qed

lemma one_child_step:
  assumes "one_child ps" and "ps t = Some p" and "cs_parent p' = cs_parent p"
  shows "one_child (ps(t \<mapsto> p'))"
  unfolding one_child_def
proof (intro allI impI)
  fix t1 t2 p1 p2
  assume a: "(ps(t \<mapsto> p')) t1 = Some p1" "(ps(t \<mapsto> p')) t2 = Some p2" "cs_parent p1 = cs_parent p2" "cs_parent p1 \<noteq> NULL"
  have old: "\<exists>q. ps u = Some q \<and> cs_parent q = cs_parent r" if "(ps(t \<mapsto> p')) u = Some r" for u r
    using that assms(2,3) by (cases "u = t") auto
  obtain q1 q2 where "ps t1 = Some q1" "cs_parent q1 = cs_parent p1" "ps t2 = Some q2" "cs_parent q2 = cs_parent p2"
    using old [OF a(1)] old [OF a(2)] by blast
  then show "t1 = t2"
    using assms(1) a(3,4) unfolding one_child_def by metis
qed

lemma listed_held: "lists_ok p \<Longrightarrow> listed p \<subseteq> par_holds p"
  by (auto simp: listed_def par_holds_def split: pc.splits)

lemma listed_owner:
  assumes "counts_ok s" and "procs s t = Some p" and "procs s t' = Some q" and "a \<in> listed p" and "a \<in> listed q"
  shows "t = t'"
proof -
  have "a \<in> par_holds p \<inter> par_holds q"
    using assms listed_held [OF lists_ok_of [OF assms(1,2)]] listed_held [OF lists_ok_of [OF assms(1,3)]] by auto
  then show ?thesis
    using assms(1-3) unfolding counts_ok_def exclusive_def by blast
qed

text \<open>A step of one process that neither starts nor ends a process, and that takes no new structure
  into its list.\<close>
lemma signals_step:
  assumes sig: "signals_ok s" and cnt: "counts_ok s" and p: "procs s t = Some p" and s': "procs s' = (procs s)(t \<mapsto> p')" "same_history s s'"
    and p': "cs_parent p' = cs_parent p" "listed p' \<subseteq> listed p" "\<And>a child. pc p' = Exec_init a child \<Longrightarrow> False"
      "\<And>a found. pc p' = Wait_down a found \<Longrightarrow> a \<in> set (cs_list p')" "\<And>a. pc p' = Exec_down a \<Longrightarrow> a \<in> set (cs_list p')"
    and none: "\<And>a c'. css s' a = Some c' \<Longrightarrow> \<exists>c. css s a = Some c \<and>
      (sema_exec c = None \<longrightarrow> sema_exec c' = None \<and> (a = cs_parent p \<longrightarrow> ups p' = ups p)) \<and>
      (\<forall>n. (a \<in> listed p \<longrightarrow> a \<in> listed p') \<longrightarrow> sema_exec c = Some n \<longrightarrow> (\<exists>n'. sema_exec c' = Some n' \<and>
         n' + (if a \<in> listed p then downs p' a else 0) + (if a = cs_parent p then ups p else 0)
           = n + (if a \<in> listed p then downs p a else 0) + (if a = cs_parent p then ups p' else 0)))"
  shows "signals_ok s'"
proof -
  have one: "one_child (procs s)" and ok: "\<And>t p. procs s t = Some p \<Longrightarrow> wait_ok s p"
    using sig by (auto simp: signals_ok_def)
  have F: "failed s' = failed s"
    using s'(2) by simp
  have live: "a \<noteq> NULL" if "css s a = Some c" for a c
    using cnt that by (auto simp: counts_ok_def)
  have "wait_ok s' q" if q: "procs s' u = Some q" for u q
  proof -
    obtain r where r: "procs s u = Some r" "cs_parent q = cs_parent r" and qr: "u \<noteq> t \<Longrightarrow> q = r" "u = t \<Longrightarrow> q = p' \<and> r = p"
      using q p p'(1) unfolding s' by (cases "u = t") auto
    note okr = ok [OF r(1), unfolded wait_ok_def]
    have "sema_exec c' = None \<and> raised 0 (failed s') (procs s') a" if e: "pc q = Exec_init a child" and c': "css s' a = Some c'" for a child c'
    proof -
      have u: "u \<noteq> t" "q = r"
        using qr e p'(3) by auto
      obtain c where c: "css s a = Some c" "sema_exec c = None \<longrightarrow> sema_exec c' = None \<and> (a = cs_parent p \<longrightarrow> ups p' = ups p)"
        using none [OF c'] by (elim exE conjE) (rule that)
      have "sema_exec c = None" "raised 0 (failed s) (procs s) a"
        using okr e c(1) u(2) by blast+
      then show ?thesis
        using c(2) raised_step [of 0 "failed s" "procs s" a t p p' 0] one p p'(1) live [OF c(1)] unfolding s'(1) F by simp
    qed
    moreover have "\<exists>n. sema_exec c' = Some n \<and> raised (n + downs q a) (failed s') (procs s') a" if a: "a \<in> listed q" and c': "css s' a = Some c'" for a c'
    proof -
      have ar: "a \<in> listed r"
        using qr a p'(2) by (cases "u = t") auto
      have rp: "a \<in> listed p \<longleftrightarrow> u = t"
        using listed_owner [OF cnt r(1) p ar] ar qr(2) by auto
      have keep: "a \<in> listed p \<longrightarrow> a \<in> listed p'"
        using rp qr(2) a by auto
      obtain c where c: "css s a = Some c" "\<forall>n. (a \<in> listed p \<longrightarrow> a \<in> listed p') \<longrightarrow> sema_exec c = Some n \<longrightarrow> (\<exists>n'. sema_exec c' = Some n' \<and>
         n' + (if a \<in> listed p then downs p' a else 0) + (if a = cs_parent p then ups p else 0)
           = n + (if a \<in> listed p then downs p a else 0) + (if a = cs_parent p then ups p' else 0))"
        using none [OF c'] by blast
      obtain n where n: "sema_exec c = Some n" "raised (n + downs r a) (failed s) (procs s) a"
        using okr ar c(1) by blast
      obtain n' where n': "sema_exec c' = Some n'"
         "n' + (if u = t then downs p' a else 0) + (if a = cs_parent p then ups p else 0)
           = n + (if u = t then downs p a else 0) + (if a = cs_parent p then ups p' else 0)"
        using c(2) [rule_format, OF keep [rule_format] n(1)] unfolding rp by blast
      have "n' + downs q a + (if a = cs_parent p then ups p else 0) = n + downs r a + (if a = cs_parent p then ups p' else 0)"
        using n'(2) qr by (cases "u = t") auto
      then show ?thesis
        using n'(1) raised_step [OF n(2) one p p'(1) live [OF c(1)]] unfolding s'(1) F by blast
    qed
    moreover have "(\<forall>a found. pc q = Wait_down a found \<longrightarrow> a \<in> set (cs_list q)) \<and> (\<forall>a. pc q = Exec_down a \<longrightarrow> a \<in> set (cs_list q))"
      using okr qr p'(4,5) by (cases "u = t") auto
    ultimately show ?thesis
      using okr r(2) unfolding wait_ok_def conjunct1 [OF s'(2)] F by auto
  qed
  then show ?thesis
    using one_child_step [OF one p p'(1)] by (simp add: signals_ok_def s'(1))
qed

lemma signals_same:
  assumes "signals_ok s" and "counts_ok s" and "procs s t = Some p" and "procs s' = (procs s)(t \<mapsto> p')" and "same_history s s'"
    and "cs_parent p' = cs_parent p" and "listed p' \<subseteq> listed p" and "\<And>a child. pc p' = Exec_init a child \<Longrightarrow> False"
    and "\<And>a found. pc p' = Wait_down a found \<Longrightarrow> a \<in> set (cs_list p')" and "\<And>a. pc p' = Exec_down a \<Longrightarrow> False" and "\<And>a. pc p = Exec_down a \<Longrightarrow> False"
    and "ups p' = ups p \<or> css s' (cs_parent p) = None"
    and "\<And>a c'. css s' a = Some c' \<Longrightarrow> \<exists>c. css s a = Some c \<and> sema_exec c' = sema_exec c"
  shows "signals_ok s'"
proof (rule signals_step [OF assms(1-9)])
  show "\<And>a. pc p' = Exec_down a \<Longrightarrow> a \<in> set (cs_list p')"
    using assms(10) by auto
  fix a c'
  assume c': "css s' a = Some c'"
  obtain c where c: "css s a = Some c" "sema_exec c' = sema_exec c"
    using assms(13) [OF c'] by blast
  have "downs p' a = downs p a" "a = cs_parent p \<Longrightarrow> ups p' = ups p"
    using assms(10,11,12) c' by (auto simp: downs_def)
  then show "\<exists>c. css s a = Some c \<and>
      (sema_exec c = None \<longrightarrow> sema_exec c' = None \<and> (a = cs_parent p \<longrightarrow> ups p' = ups p)) \<and>
      (\<forall>n. (a \<in> listed p \<longrightarrow> a \<in> listed p') \<longrightarrow> sema_exec c = Some n \<longrightarrow> (\<exists>n'. sema_exec c' = Some n' \<and>
         n' + (if a \<in> listed p then downs p' a else 0) + (if a = cs_parent p then ups p else 0)
           = n + (if a \<in> listed p then downs p a else 0) + (if a = cs_parent p then ups p' else 0)))"
    using c by (intro exI [of _ c]) auto
qed

lemmas signal_defs = listed_def ups_def

lemma find_child_in:
  "find_child s child as cs = Some (a, found) \<Longrightarrow> a \<in> insert cs (set as)"
  by (induction as arbitrary: cs) (auto simp: bind_Some_iff split: if_splits)

lemma raised_other:
  assumes "raised k F ps a" and "ps c = None" and "cs_parent q \<noteq> a"
  shows "raised k F (ps(c \<mapsto> q)) a"
proof -
  have "\<not> (\<forall>t p. (ps(c \<mapsto> q)) t = Some p \<longrightarrow> cs_parent p \<noteq> a) \<or> (\<forall>t p. ps t = Some p \<longrightarrow> cs_parent p \<noteq> a)"
    using assms(2) by (metis fun_upd_apply option.distinct(1))
  then show ?thesis
    using assms unfolding raised_def by (auto split: if_splits)
qed

text \<open>The first half of \<^verbatim>\<open>process_execute\<close> adds the new structure and, when \<^verbatim>\<open>thread_create\<close> succeeds, the child.\<close>
lemma signals_new:
  assumes sig: "signals_ok s" and cnt: "counts_ok s" and p: "procs s t = Some p" "pc p = User" and a: "a \<notin> set (used s)"
    and s': "css s' = (css s)(a \<mapsto> c0)" "sema_exec c0 = None" "used s' = a # used s" "set (failed s') \<subseteq> insert a (set (failed s))"
    and ps: "\<And>u q. procs s' u = Some q \<Longrightarrow> u \<noteq> t \<and> procs s u = Some q \<or> u = t \<and> q = p\<lparr>pc := Exec_init a child\<rparr> \<or>
      q = \<lparr>cs_parent = a, cs_list = [], pc = Start ok, result = 0\<rparr> \<and> a \<notin> set (failed s')"
    and keep: "\<And>k b. raised k (failed s) (procs s) b \<Longrightarrow> b \<noteq> a \<Longrightarrow> b \<noteq> NULL \<Longrightarrow> raised k (failed s') (procs s') b"
    and child: "raised 0 (failed s') (procs s') a" and one: "one_child (procs s')"
  shows "signals_ok s'"
proof -
  have oks: "\<And>t p. procs s t = Some p \<Longrightarrow> wait_ok s p"
    using sig by (auto simp: signals_ok_def)
  have "wait_ok s' q" if q: "procs s' u = Some q" for u q
  proof (cases "q = \<lparr>cs_parent = a, cs_list = [], pc = Start ok, result = 0\<rparr> \<and> a \<notin> set (failed s')")
    case True
    then have "pc q = Start ok" "cs_list q = []" "cs_parent q = a" "a \<notin> set (failed s')"
      by auto
    then show ?thesis
      by (simp add: wait_ok_def listed_def s'(3))
  next
    case False
    then obtain r where r: "procs s u = Some r" "cs_parent q = cs_parent r" "cs_list q = cs_list r" "listed q = listed r"
        "pc q = pc r \<or> pc q = Exec_init a child \<and> pc r = User"
      using ps [OF q] p by (auto simp: listed_def)
    note okr = oks [OF r(1)]
    have held: "listed r \<subseteq> set (used s)" "par_holds r \<subseteq> set (used s)"
      using cnt r(1) listed_held [OF lists_ok_of [OF cnt r(1)]] by (auto simp: counts_ok_def)
    have d: "downs q b = downs r b" for b
      using r(5) by (auto simp: downs_def)
    have old: "css s b = Some c \<and> b \<noteq> a \<and> b \<noteq> NULL" if "b \<in> par_holds r" "css s' b = Some c" for b c
      using that held(2) cnt a by (auto simp: s' counts_ok_def split: if_splits)
    have init: "sema_exec c = None \<and> raised 0 (failed s') (procs s') b" if e: "pc q = Exec_init b child'" and c: "css s' b = Some c" for b child' c
    proof (cases "pc q = pc r")
      case True
      then have "b \<in> par_holds r"
        using e by (simp add: par_holds_def flip: True)
      then show ?thesis
        using old [OF _ c] wait_ok_rest(4) [OF okr, of b child' c] e True keep by auto
    next
      case False
      then show ?thesis
        using r(5) e c child s'(2) by (auto simp: s'(1))
    qed
    have sig: "\<exists>n. sema_exec c = Some n \<and> raised (n + downs q b) (failed s') (procs s') b" if b: "b \<in> listed q" and c: "css s' b = Some c" for b c
    proof -
      have "b \<in> par_holds r"
        using b r(4) listed_held [OF lists_ok_of [OF cnt r(1)]] by auto
      from old [OF this c] obtain n where "sema_exec c = Some n" "raised (n + downs r b) (failed s) (procs s) b" "b \<noteq> a" "b \<noteq> NULL"
        using wait_okD [OF okr, of b c] b r(4) by blast
      then show ?thesis
        using keep d by auto
    qed
    have w: "b \<in> set (cs_list q)" if "pc q = Wait_down b found" for b found
      using that r(3,5) wait_ok_rest(2) [OF okr, of b found] by (elim disjE) simp_all
    have e: "b \<in> set (cs_list q)" if "pc q = Exec_down b" for b
      using that r(3,5) wait_ok_rest(3) [OF okr, of b] by (elim disjE) simp_all
    have "cs_parent q \<in> set (used s') \<and> cs_parent q \<notin> set (failed s')" if "cs_parent q \<noteq> NULL"
      using that wait_ok_rest(1) [OF okr] r(2) a s'(3,4) by auto
    then show ?thesis
      by (rule wait_okI [OF _ w e init sig])
  qed
  then show ?thesis
    using one by (simp add: signals_ok_def)
qed

lemma signals_execute:
  assumes "signals_ok s" and "counts_ok s" and "procs s t = Some p" and "pc p = User" and "a \<notin> set (used s)" and "child \<noteq> TID_ERROR"
    and "procs s child = None" and "execute_create a child junk ok t p s = Some s'"
  shows "signals_ok s'"
proof -
  let ?p = "p\<lparr>pc := Exec_init a child\<rparr>" and ?q = "\<lparr>cs_parent = a, cs_list = [], pc = Start ok, result = 0\<rparr>"
  define ps where "ps = (procs s)(child \<mapsto> ?q)"
  have s': "procs s' = ps(t \<mapsto> ?p)" "css s' = (css s)(a \<mapsto> junk\<lparr>ref_cnt := 2, sema_exec := None\<rparr>)"
      "used s' = a # used s" "failed s' = failed s" and a: "a \<noteq> NULL"
    using assms(6,8) by (auto simp: execute_create_def kernel_simps Let_def ps_def split: if_splits)
  have tc: "t \<noteq> child" and pst: "ps t = Some p"
    using assms(3,7) by (auto simp: ps_def)
  have one: "one_child (procs s)" and ok: "\<And>t p. procs s t = Some p \<Longrightarrow> wait_ok s p"
    using assms(1) by (auto simp: signals_ok_def)
  have new: "cs_parent q \<noteq> a" if "procs s u = Some q" for u q
    using ok [OF that] assms(5) a by (auto simp: wait_ok_def)
  have one': "one_child ps"
    using one new unfolding one_child_def ps_def by (auto split: if_splits) blast
  show ?thesis
  proof (rule signals_new [OF assms(1-5) s'(2) _ s'(3)])
    show "raised k (failed s') (procs s') b" if "raised k (failed s) (procs s) b" "b \<noteq> a" "b \<noteq> NULL" for k b
      unfolding s'(1,4) using raised_step [OF raised_other [of k "failed s" "procs s" b child ?q] one' [unfolded ps_def], of t p ?p k] that assms(3,4,7) pst
      by (simp add: ps_def ups_def)
    show "raised 0 (failed s') (procs s') a"
      unfolding raised_def s'(1) ps_def using new assms(3) tc by (auto simp: ups_def split: if_splits)
    show "one_child (procs s')"
      using one_child_step [OF one' pst, of ?p] by (simp add: s'(1))
    have "a \<notin> set (failed s')"
      using assms(2,5) by (auto simp: counts_ok_def s'(4))
    then show "u \<noteq> t \<and> procs s u = Some q \<or> u = t \<and> q = ?p \<or> q = ?q \<and> a \<notin> set (failed s')" if "procs s' u = Some q" for u q
      using that by (auto simp: s'(1) ps_def split: if_splits)
  qed (auto simp: s'(4))
qed

lemma signals_execute_failed:
  assumes "signals_ok s" and "counts_ok s" and "procs s t = Some p" and "pc p = User" and "a \<notin> set (used s)"
    and "execute_create a TID_ERROR junk ok t p s = Some s'"
  shows "signals_ok s'"
proof -
  let ?p = "p\<lparr>pc := Exec_init a TID_ERROR\<rparr>"
  have s': "procs s' = (procs s)(t \<mapsto> ?p)" "css s' = (css s)(a \<mapsto> junk\<lparr>ref_cnt := 2, sema_exec := None\<rparr>)"
      "used s' = a # used s" "failed s' = a # failed s" and a: "a \<noteq> NULL"
    using assms(6) by (auto simp: execute_create_def kernel_simps Let_def split: if_splits)
  have one: "one_child (procs s)" and ok: "\<And>t p. procs s t = Some p \<Longrightarrow> wait_ok s p"
    using assms(1) by (auto simp: signals_ok_def)
  have new: "cs_parent q \<noteq> a" if "procs s u = Some q" for u q
    using ok [OF that] assms(5) a by (auto simp: wait_ok_def)
  show ?thesis
  proof (rule signals_new [OF assms(1-5) s'(2) _ s'(3)])
    show "raised k (failed s') (procs s') b" if "raised k (failed s) (procs s) b" "b \<noteq> a" "b \<noteq> NULL" for k b
      using raised_step [OF that(1) one assms(3) _ that(3), of ?p k] that(2) assms(4) by (simp add: s'(1,4) raised_def ups_def)
    show "raised 0 (failed s') (procs s') a"
      using new assms(3) by (auto simp: raised_def s'(1,4) split: if_splits)
    show "one_child (procs s')"
      using one_child_step [OF one assms(3), of ?p] by (simp add: s'(1))
    show "u \<noteq> t \<and> procs s u = Some q \<or> u = t \<and> q = ?p \<or>
        q = \<lparr>cs_parent = a, cs_list = [], pc = Start ok, result = 0\<rparr> \<and> a \<notin> set (failed s')" if "procs s' u = Some q" for u q
      using that by (auto simp: s'(1) split: if_splits)
  qed (auto simp: s'(4))
qed

lemma signals_call:
  assumes "signals_ok s" and "counts_ok s" and "procs s t = Some p" and "pc p = User" and "user_call c t p s = Some s'"
    and "fresh c s"
  shows "signals_ok s'"
proof (cases c)
  case (Wait child)
  have null: "css s NULL \<noteq> Some c" for c
    using assms(2) by (auto simp: counts_ok_def)
  obtain p' where "s' = set_proc t p' s" "cs_parent p' = cs_parent p" "cs_list p' = cs_list p"
      "pc p' = User \<or> (\<exists>a found. (pc p' = Wait_down a found \<or> pc p' = Wait_finish a found) \<and> a \<in> set (cs_list p))"
    using Wait assms(4,5) null find_child_in [of s child "cs_list p" NULL]
    by (auto simp: user_call_def process_wait_def bind_Some_iff split: if_splits)
  then show ?thesis
    using assms(4) by (intro signals_same [OF assms(1-3), of s' p']) (auto simp: signal_defs)
next
  case (Exit_call st)
  then show ?thesis
    using assms(4,5) by (intro signals_same [OF assms(1-3), of s' "p\<lparr>pc := Exit_parent\<rparr>"])
      (auto simp: user_call_def exit_syscall_def bind_Some_iff part_Some signal_defs split: if_splits)
next
  case Killed
  then show ?thesis
    using assms(4,5) by (intro signals_same [OF assms(1-3), of s' "p\<lparr>pc := Exit_parent\<rparr>"]) (auto simp: user_call_def signal_defs)
next
  case (Execute fn_copy fn_copy2 a child junk ok)
  then have f: "a \<notin> set (used s)" "child \<noteq> TID_ERROR \<longrightarrow> procs s child = None" and
      run: "process_execute fn_copy fn_copy2 a child junk ok t p s = Some s'"
    using assms(5,6) by (simp_all add: fresh_def user_call_def)
  show ?thesis
  proof (cases "fn_copy = NULL")
    case True
    then show ?thesis
      using run assms(4) by (intro signals_same [OF assms(1-3), of s' "p\<lparr>result := TID_ERROR\<rparr>"]) (auto simp: process_execute_def signal_defs)
  next
    case False
    then have "execute_create a child junk ok t p s = Some s'"
      using run by (auto simp: process_execute_def kernel_simps split: if_splits)
    then show ?thesis
      using signals_execute [OF assms(1-4) f(1)] signals_execute_failed [OF assms(1-4) f(1)] f(2) by (cases "child = TID_ERROR") auto
  qed
qed

lemma signals_exec_init:
  assumes "signals_ok s" and "counts_ok s" and "procs s t = Some p" and "pc p = Exec_init a child" and "execute_init a child t p s = Some s'"
  shows "signals_ok s'"
proof -
  let ?p = "p\<lparr>cs_list := a # cs_list p, pc := Exec_down a\<rparr>"
  obtain c where c: "css s a = Some c" and s': "procs s' = (procs s)(t \<mapsto> ?p)" "same_history s s'"
      "css s' = (css s)(a \<mapsto> c\<lparr>sema_exec := Some 0, pid := child\<rparr>)"
    using assms(5) by (auto simp: execute_init_def bind_Some_iff part_Some)
  have one: "one_child (procs s)" and ok: "\<And>t p. procs s t = Some p \<Longrightarrow> wait_ok s p"
    using assms(1) by (auto simp: signals_ok_def)
  have hold: "a \<in> par_holds p"
    using assms(4) by (simp add: par_holds_def)
  have keep: "raised k (failed s') (procs s') b" if "raised k (failed s) (procs s) b" "css s b = Some d" for k b d
    unfolding s'(1) conjunct2 [OF s'(2)] using assms(2,4) that(2)
    by (intro raised_step [OF that(1) one assms(3)]) (auto simp: ups_def counts_ok_def)
  have zero: "raised 0 (failed s') (procs s') a"
    using ok [OF assms(3)] assms(4) c keep by (auto simp: wait_ok_def)
  have "wait_ok s' q" if q: "procs s' u = Some q" for u q
  proof (cases "u = t")
    case True
    then have q: "q = ?p"
      using q by (simp add: s'(1))
    have "a \<notin> set (cs_list p)"
      using lists_ok_of [OF assms(2,3)] assms(4) by (simp add: lists_ok_def)
    moreover have "\<exists>n. sema_exec d = Some n \<and> raised (Suc n) (failed s') (procs s') b" if "b \<in> set (cs_list p)" "css s b = Some d" for b d
      using wait_okD [OF ok [OF assms(3)] _ that(2)] that(1) assms(4) keep [OF _ that(2)] by (auto simp: listed_def downs_def)
    ultimately show ?thesis
      using ok [OF assms(3)] zero unfolding q by (auto simp: wait_ok_def s'(2,3) listed_def downs_def)
  next
    case False
    then have r: "procs s u = Some q"
      using q by (simp add: s'(1))
    have "a \<notin> par_holds q"
      using assms(2,3) hold r False unfolding counts_ok_def exclusive_def by blast
    then have "a \<notin> listed q" "pc q \<noteq> Exec_init a child'" for child'
      using listed_held [OF lists_ok_of [OF assms(2) r]] by (auto simp: par_holds_def)
    then have same: "b \<noteq> a" if "b \<in> listed q \<or> pc q = Exec_init b child'" for b child'
      using that by auto
    note okr = ok [OF r]
    show ?thesis
    proof (rule wait_okI)
      show "sema_exec d = None \<and> raised 0 (failed s') (procs s') b" if "pc q = Exec_init b child'" "css s' b = Some d" for b child' d
        using that same [of b child'] wait_ok_rest(4) [OF okr that(1), of d] keep by (auto simp: s'(3))
      show "\<exists>n. sema_exec d = Some n \<and> raised (n + downs q b) (failed s') (procs s') b" if "b \<in> listed q" "css s' b = Some d" for b d
        using that same [of b] wait_okD [OF okr that(1), of d] keep [of _ b d] by (auto simp: s'(3))
    qed (use wait_ok_rest(1-3) [OF okr] in \<open>simp_all add: s'(2)\<close>)
  qed
  then show ?thesis
    using one_child_step [OF one assms(3), of ?p] by (simp add: signals_ok_def s'(1))
qed

lemma signals_exit_free:
  assumes "signals_ok s" and "counts_ok s" and "procs s t = Some p" and "pc p = Exit_free dels" and "exit_free dels t p s = Some s'"
  shows "signals_ok s'"
proof -
  have s': "procs s' = (procs s)(t := None)" "same_history s s'" "\<And>a c. css s' a = Some c \<Longrightarrow> css s a = Some c"
    using assms(5) by (auto simp: exit_free_def Let_def fold_free_cs split: if_splits)
  have one: "one_child (procs s)" and ok: "\<And>t p. procs s t = Some p \<Longrightarrow> wait_ok s p"
    using assms(1) by (auto simp: signals_ok_def)
  have keep: "raised k (failed s') (procs s') b" if r: "raised k (failed s) (procs s) b" and b: "b \<noteq> NULL" for k b
  proof (cases "b = cs_parent p")
    case True
    then have "k = 2"
      using raisedD [OF r assms(3)] assms(4) by (simp add: ups_def)
    moreover have "b \<notin> set (failed s)"
      using wait_ok_rest(1) [OF ok [OF assms(3)]] True b by simp
    ultimately show ?thesis
      using r unfolding raised_def s'(1) conjunct2 [OF s'(2)] by (auto split: if_splits)
  next
    case False
    have "k = (if b \<in> set (failed s) then 0 else 2)" if none: "\<forall>u q. procs s' u = Some q \<longrightarrow> cs_parent q \<noteq> b"
    proof -
      have "cs_parent q \<noteq> b" if "procs s v = Some q" for v q
        using none [rule_format, of v q] that False assms(3) by (cases "v = t") (auto simp: s'(1))
      then show ?thesis
        using r by (simp add: raised_def)
    qed
    moreover have "ups q = k" if "procs s' u = Some q" "cs_parent q = b" for u q
      using raisedD [OF r, of u q] that by (auto simp: s'(1) split: if_splits)
    ultimately show ?thesis
      unfolding raised_def conjunct2 [OF s'(2)] by blast
  qed
  have live: "b \<noteq> NULL" if "css s b = Some c" for b c
    using assms(2) that by (auto simp: counts_ok_def)
  have "wait_ok s' q" if "procs s' u = Some q" for u q
  proof -
    have "wait_ok s q"
      using that ok [of u q] by (auto simp: s'(1) split: if_splits)
    note okq = this
    show ?thesis
    proof (rule wait_okI)
      show "sema_exec d = None \<and> raised 0 (failed s') (procs s') b" if "pc q = Exec_init b child'" "css s' b = Some d" for b child' d
        using wait_ok_rest(4) [OF okq that(1) s'(3) [OF that(2)]] keep live [OF s'(3) [OF that(2)]] by auto
      show "\<exists>n. sema_exec d = Some n \<and> raised (n + downs q b) (failed s') (procs s') b" if "b \<in> listed q" "css s' b = Some d" for b d
        using wait_okD [OF okq that(1) s'(3) [OF that(2)]] keep live [OF s'(3) [OF that(2)]] by auto
    qed (use wait_ok_rest(1-3) [OF okq] in \<open>simp_all add: s'(2)\<close>)
  qed
  moreover have "one_child (procs s')"
    using one unfolding one_child_def s'(1) by (auto split: if_splits)
  ultimately show ?thesis
    by (simp add: signals_ok_def)
qed

lemma sema_step:
  assumes "signals_ok s" and "counts_ok s" and "procs s t = Some p" and "css s b = Some d" and "sema_exec d = Some n"
    and "procs s' = (procs s)(t \<mapsto> p')" and "same_history s s'" and "css s' = (css s)(b \<mapsto> d')" and "sema_exec d' = Some n'"
    and "cs_parent p' = cs_parent p" and "listed p' \<subseteq> listed p" and "\<And>a child. pc p' = Exec_init a child \<Longrightarrow> False"
    and "\<And>a found. pc p' = Wait_down a found \<Longrightarrow> False" and "\<And>a. pc p' = Exec_down a \<Longrightarrow> False"
    and others: "\<And>a. a \<noteq> b \<Longrightarrow> downs p' a = downs p a \<and> (a = cs_parent p \<longrightarrow> ups p' = ups p)"
    and eq: "(b \<in> listed p \<longrightarrow> b \<in> listed p') \<Longrightarrow> n' + (if b \<in> listed p then downs p' b else 0) + (if b = cs_parent p then ups p else 0)
      = n + (if b \<in> listed p then downs p b else 0) + (if b = cs_parent p then ups p' else 0)"
  shows "signals_ok s'"
proof (rule signals_step [OF assms(1-3,6,7,10-12)])
  fix a c'
  assume c': "css s' a = Some c'"
  show "\<exists>c. css s a = Some c \<and>
      (sema_exec c = None \<longrightarrow> sema_exec c' = None \<and> (a = cs_parent p \<longrightarrow> ups p' = ups p)) \<and>
      (\<forall>n. (a \<in> listed p \<longrightarrow> a \<in> listed p') \<longrightarrow> sema_exec c = Some n \<longrightarrow> (\<exists>n'. sema_exec c' = Some n' \<and>
         n' + (if a \<in> listed p then downs p' a else 0) + (if a = cs_parent p then ups p else 0)
           = n + (if a \<in> listed p then downs p a else 0) + (if a = cs_parent p then ups p' else 0)))"
  proof (cases "a = b")
    case True
    then show ?thesis
      using c' assms(4,5,8,9) eq by (intro exI [of _ d]) auto
  next
    case False
    then show ?thesis
      using c' others [OF False] by (intro exI [of _ c']) (auto simp: assms(8))
  qed
qed (use assms(13,14) in auto)

lemma signals_part:
  assumes "signals_ok s" and "counts_ok s" and "procs s t = Some p" and "continue t p s = Some s'"
  shows "signals_ok s'"
proof -
  note same = signals_same [OF assms(1-3), of s'] and sema = sema_step [OF assms(1-3)]
  show ?thesis
  proof (cases "pc p")
    case User
    then show ?thesis
      using assms by (simp add: continue_def)
  next
    case (Exec_init a child)
    then show ?thesis
      using assms signals_exec_init by (simp add: continue_def)
  next
    case (Exec_down a)
    let ?p = "p\<lparr>pc := Exec_result a\<rparr>"
    obtain c n where "css s a = Some c" "sema_exec c = Some n"
        "s' = (if n = 0 then s else set_proc t ?p (s\<lparr>css := (css s)(a \<mapsto> c\<lparr>sema_exec := Some (n - 1)\<rparr>)\<rparr>))"
      using assms(4) Exec_down by (auto simp: continue_def execute_down_def bind_Some_iff part_Some split: if_splits)
    then show ?thesis
      using assms(1) Exec_down wait_ok_rest(3) [of s p a] assms(3)
      by (cases "n = 0", simp, intro sema [of a c n s' ?p "c\<lparr>sema_exec := Some (n - 1)\<rparr>" "n - 1"]) (auto simp: signal_defs downs_def signals_ok_def)
  next
    case (Exec_result a)
    let ?p = "\<lambda>c. p\<lparr>pc := User, result := pid c\<rparr>"
    obtain c where c: "css s a = Some c" "s' = (if pid c = TID_ERROR
        then free_cs a (set_proc t ((?p c)\<lparr>cs_list := remove1 a (cs_list p)\<rparr>) s) else set_proc t (?p c) s)"
      using assms(4) Exec_result by (auto simp: continue_def execute_result_def bind_Some_iff Let_def)
    show ?thesis
    proof (cases "pid c = TID_ERROR")
      case True
      then show ?thesis
        using Exec_result c set_remove1_subset [of a "cs_list p"]
        by (intro same [of "(?p c)\<lparr>cs_list := remove1 a (cs_list p)\<rparr>"]) (auto simp: signal_defs split: if_splits)
    next
      case False
      then show ?thesis
        using Exec_result c by (intro same [of "?p c"]) (auto simp: signal_defs)
    qed
  next
    case (Start ok)
    let ?p = "p\<lparr>pc := (if ok then User else Exit_parent)\<rparr>" and ?b = "cs_parent p"
    obtain c n c' where "css s ?b = Some c" "sema_exec c = Some n" "procs s' = (procs s)(t \<mapsto> ?p)" "same_history s s'" "css s' = (css s)(?b \<mapsto> c')"
        "sema_exec c' = Some (n + 1)"
      using assms(4) Start by (cases ok) (auto simp: continue_def start_process_def bind_Some_iff part_Some)
    then show ?thesis
      using Start by (intro sema [of ?b c n s' ?p c' "n + 1"]) (auto simp: signal_defs downs_def split: if_splits)
  next
    case (Wait_down a found)
    let ?p = "p\<lparr>pc := Wait_finish a found\<rparr>"
    obtain c n where "css s a = Some c" "sema_exec c = Some n"
        "s' = (if n = 0 then s else set_proc t ?p (s\<lparr>css := (css s)(a \<mapsto> c\<lparr>sema_exec := Some (n - 1)\<rparr>)\<rparr>))"
      using assms(4) Wait_down by (auto simp: continue_def wait_down_def bind_Some_iff part_Some split: if_splits)
    moreover have "a \<in> listed p" "a \<notin> listed ?p"
      using wait_ok_rest(2) [of s p a found] assms(1,3) Wait_down by (auto simp: signals_ok_def listed_def)
    ultimately show ?thesis
      using assms(1) Wait_down
      by (cases "n = 0", simp, intro sema [of a c n s' ?p "c\<lparr>sema_exec := Some (n - 1)\<rparr>" "n - 1"]) (auto simp: signal_defs downs_def)
  next
    case (Wait_finish a found)
    then obtain c where "css s a = Some c"
      "s' = free_cs a (set_proc t (p\<lparr>cs_list := remove1 a (cs_list p), pc := User, result := exit_status c\<rparr>) s)"
      using assms(4) by (auto simp: continue_def wait_finish_def bind_Some_iff kernel_simps split: if_splits)
    moreover have "set (remove1 a (cs_list p)) = set (cs_list p) - {a}"
      using lists_ok_of [OF assms(2,3)] Wait_finish by (intro set_remove1_eq) (simp add: lists_ok_def)
    ultimately show ?thesis
      using Wait_finish by (intro same [of "p\<lparr>cs_list := remove1 a (cs_list p), pc := User, result := exit_status c\<rparr>"])
        (auto simp: signal_defs split: if_splits)
  next
    case Exit_parent
    then have s': "exit_parent t p s = Some s'"
      using assms(4) by (simp add: continue_def)
    have null: "css s NULL = None"
      using assms(2) by (cases "css s NULL") (auto simp: counts_ok_def)
    have "\<exists>q. procs s' = (procs s)(t \<mapsto> p\<lparr>pc := q\<rparr>) \<and> same_history s s' \<and>
        (q = Exit_up \<or> q = Exit_children (cs_list p) [] \<and> css s' (cs_parent p) = None)"
      using s' null by (auto simp: exit_parent_def bind_Some_iff part_Some split: if_splits)
    then obtain q where q: "procs s' = (procs s)(t \<mapsto> p\<lparr>pc := q\<rparr>)" "same_history s s'"
        "q = Exit_up \<or> q = Exit_children (cs_list p) [] \<and> css s' (cs_parent p) = None"
      by blast
    have "\<exists>c. css s a = Some c \<and> sema_exec c' = sema_exec c" if "css s' a = Some c'" for a c'
      using s' that by (auto simp: exit_parent_def bind_Some_iff part_Some split: if_splits)
    then show ?thesis
      using Exit_parent q by (intro same [of "p\<lparr>pc := q\<rparr>"]) (auto simp: signal_defs)
  next
    case Exit_up
    let ?p = "p\<lparr>pc := Exit_children (cs_list p) []\<rparr>" and ?b = "cs_parent p"
    obtain c n where "css s ?b = Some c" "sema_exec c = Some n" "s' = set_proc t ?p (s\<lparr>css := (css s)(?b \<mapsto> c\<lparr>sema_exec := Some (n + 1)\<rparr>)\<rparr>)"
      using assms(4) Exit_up by (auto simp: continue_def exit_up_def bind_Some_iff part_Some)
    then show ?thesis
      using Exit_up by (intro sema [of ?b c n s' ?p "c\<lparr>sema_exec := Some (n + 1)\<rparr>" "n + 1"]) (auto simp: signal_defs downs_def)
  next
    case (Exit_children es dels)
    obtain q where "procs s' = (procs s)(t \<mapsto> p\<lparr>pc := q\<rparr>)" "same_history s s'" "ups (p\<lparr>pc := q\<rparr>) = 2" "listed (p\<lparr>pc := q\<rparr>) = {}"
        "\<And>a found. q \<noteq> Wait_down a found" "\<And>a. q \<noteq> Exec_down a" "\<And>a child. q \<noteq> Exec_init a child"
      using assms(4) Exit_children
      by (cases es) (auto simp: continue_def exit_children_def bind_Some_iff part_Some signal_defs)
    moreover have "\<exists>c. css s a = Some c \<and> sema_exec c' = sema_exec c" if "css s' a = Some c'" for a c'
      using assms(4) that Exit_children
      by (cases es) (auto simp: continue_def exit_children_def bind_Some_iff part_Some split: if_splits)
    ultimately show ?thesis
      using Exit_children by (intro same [of "p\<lparr>pc := q\<rparr>"]) (auto simp: ups_def)
  next
    case (Exit_free dels)
    then show ?thesis
      using assms signals_exit_free by (simp add: continue_def)
  qed
qed

section \<open>Properties\<close>

lemma reachable_ok:
  assumes "pstep\<^sup>*\<^sup>* first_process s"
  shows "counts_ok s \<and> signals_ok s"
  using assms
proof (induction rule: rtranclp_induct)
  case base
  show ?case
    by (auto simp: first_process_def counts_ok_def signals_ok_def exclusive_def one_child_def wait_ok_def hold_defs listed_def split: if_splits)
next
  case (step s s')
  from step.hyps(2) show ?case
  proof cases
    case (call t p c)
    then show ?thesis
      using step.IH counts_call [of s t p c s'] signals_call [of s t p c s'] by auto
  next
    case (part t p)
    then show ?thesis
      using step.IH counts_part signals_part by blast
  qed
qed

text \<open>C7: however processes are scheduled, the reference count of a \<^verbatim>\<open>child_status\<close> that has not been freed
  is the number of references to it that have not been given up: the parent's until its exit has passed the structure in its
  loop, and the child's until its exit has decremented the count.  When \<^verbatim>\<open>thread_create\<close> failed, the
  reference of the child that was never created stays counted.\<close>
theorem ref_cnt_exact:
  assumes "pstep\<^sup>*\<^sup>* first_process s" and "css s a = Some c"
  shows "ref_cnt c = refs (procs s) a + of_bool (a \<in> set (failed s))"
  using reachable_ok [OF assms(1)] assms(2) by (simp add: counts_ok_def)

lemma failed_no_child:
  assumes "pstep\<^sup>*\<^sup>* first_process s" and "a \<in> set (failed s)" and "procs s t = Some q"
  shows "cs_parent q \<noteq> a"
proof -
  have "wait_ok s q" "NULL \<notin> set (used s)" "a \<in> set (used s)"
    using reachable_ok [OF assms(1)] assms(2,3) by (auto simp: signals_ok_def counts_ok_def)
  then show ?thesis
    using wait_ok_rest(1) [of s q] assms(2) by (cases "cs_parent q = NULL") auto
qed

text \<open>C8: a wake-up is lost only when \<^verbatim>\<open>thread_create\<close> fails.  In every reachable state in which a parent waits for a
  \<^verbatim>\<open>child_status\<close> whose semaphore is zero, either the structure was made for a child that could not be created,
  no process will ever raise the semaphore, and the parent is in \<^verbatim>\<open>process_execute\<close>; or
  the child it belongs to is there and has yet to raise it: a parent in
  \<^verbatim>\<open>process_execute\<close> waits for a child that is still loading, and one in \<^verbatim>\<open>process_wait\<close> for a child that
  has started and has not finished the \<^verbatim>\<open>sema_up\<close> of its exit.\<close>
theorem waiting_parent_has_child:
  assumes "pstep\<^sup>*\<^sup>* first_process s" and "procs s t = Some p" and "css s a = Some c" and "sema_exec c = Some 0"
    and "pc p = Exec_down a \<or> pc p = Wait_down a found"
  shows "if a \<in> set (failed s) then pc p = Exec_down a \<and> (\<forall>t' q. procs s t' = Some q \<longrightarrow> cs_parent q \<noteq> a)
    else \<exists>t' q. procs s t' = Some q \<and> cs_parent q = a \<and> ups q = (if pc p = Exec_down a then 0 else 1)"
proof -
  have ok: "wait_ok s p"
    using reachable_ok [OF assms(1)] assms(2) by (auto simp: signals_ok_def)
  have "a \<in> listed p"
    using assms(5) wait_ok_rest(2) [OF ok, of a found] wait_ok_rest(3) [OF ok, of a] by (auto simp: listed_def)
  then have r: "raised (downs p a) (failed s) (procs s) a"
    using wait_okD [OF ok _ assms(3)] assms(4) by auto
  show ?thesis
  proof (cases "a \<in> set (failed s)")
    case True
    then have "downs p a = 0"
      using r failed_no_child [OF assms(1) True] by (auto simp: raised_def)
    then show ?thesis
      using True failed_no_child [OF assms(1) True] by (auto simp: downs_def split: if_splits)
  next
    case False
    have "downs p a \<noteq> 2"
      by (simp add: downs_def)
    then obtain t' q where "procs s t' = Some q" "cs_parent q = a"
      using r False by (auto simp: raised_def)
    then have "\<exists>t' q. procs s t' = Some q \<and> cs_parent q = a \<and> ups q = (if pc p = Exec_down a then 0 else 1)"
      using raisedD [OF r, of t' q] assms(5) by (intro exI [of _ t'] exI [of _ q]) (auto simp: downs_def)
    then show ?thesis
      using False by simp
  qed
qed

section \<open>A thread that cannot be created\<close>

lemma continue_others:
  assumes "continue u p s = Some s'" and "t \<noteq> u"
  shows "procs s' t = procs s t" and "failed s' = failed s"
  using assms
  by (cases "pc p"; auto simp: continue_def execute_init_def execute_down_def execute_result_def start_process_def wait_down_def wait_finish_def
      exit_parent_def exit_up_def exit_children_def exit_free_def bind_Some_iff part_Some Let_def fold_free_cs split: if_splits list.splits option.splits)+

lemma call_others:
  assumes "user_call c u p s = Some s'" and "fresh c s" and "t \<noteq> u" and "procs s t = Some q"
  shows "procs s' t = Some q" and "set (failed s) \<subseteq> set (failed s')"
  using assms
  by (cases c; auto simp: user_call_def process_execute_def execute_create_def process_wait_def exit_syscall_def fresh_def bind_Some_iff part_Some
      ASSERT_eq Let_def split: if_splits)+

definition stuck :: "u32 \<Rightarrow> addr \<Rightarrow> u32 \<Rightarrow> pstate \<Rightarrow> bool" where
  "stuck t a r s \<longleftrightarrow> a \<in> set (failed s) \<and>
     (\<exists>q. procs s t = Some q \<and> (pc q = Exec_init a TID_ERROR \<or> pc q = Exec_down a) \<and> result q = r)"

lemma stuck_own_step:
  assumes "pstep\<^sup>*\<^sup>* first_process s" and "a \<in> set (failed s)" and "procs s t = Some q"
    and "pc q = Exec_init a TID_ERROR \<or> pc q = Exec_down a" and "continue t q s = Some s'"
  shows "stuck t a (result q) s'"
  using assms(4)
proof
  assume e: "pc q = Exec_init a TID_ERROR"
  then show ?thesis
    using assms(2,5) by (auto simp: continue_def execute_init_def bind_Some_iff part_Some stuck_def)
next
  assume e: "pc q = Exec_down a"
  have ok: "wait_ok s q"
    using reachable_ok [OF assms(1)] assms(3) by (auto simp: signals_ok_def)
  obtain c n where c: "css s a = Some c" "sema_exec c = Some n"
      "s' = (if n = 0 then s else set_proc t (q\<lparr>pc := Exec_result a\<rparr>) (s\<lparr>css := (css s)(a \<mapsto> c\<lparr>sema_exec := Some (n - 1)\<rparr>)\<rparr>))"
    using assms(5) e by (auto simp: continue_def execute_down_def bind_Some_iff part_Some split: if_splits)
  have "a \<in> listed q"
    using wait_ok_rest(3) [OF ok e] e by (simp add: listed_def)
  then have "raised (n + downs q a) (failed s) (procs s) a"
    using wait_okD [OF ok _ c(1)] c(2) by auto
  then have "n = 0"
    using failed_no_child [OF assms(1,2)] assms(2) by (auto simp: raised_def)
  then show ?thesis
    using c(3) assms(2,3) e by (auto simp: stuck_def)
qed

lemma stuck_step:
  assumes "pstep\<^sup>*\<^sup>* first_process s" and "stuck t a r s" and "pstep s s'"
  shows "stuck t a r s'"
proof -
  obtain q where q: "a \<in> set (failed s)" "procs s t = Some q" "pc q = Exec_init a TID_ERROR \<or> pc q = Exec_down a" "result q = r"
    using assms(2) by (auto simp: stuck_def)
  from assms(3) show ?thesis
  proof cases
    case (call u p c)
    then have "t \<noteq> u"
      using q(2,3) by auto
    then show ?thesis
      using call_others [OF call(4,3) _ q(2)] q by (auto simp: stuck_def)
  next
    case (part u p)
    show ?thesis
    proof (cases "u = t")
      case True
      then show ?thesis
        using stuck_own_step [OF assms(1) q(1,2,3)] part q(2,4) by auto
    next
      case False
      then show ?thesis
        using continue_others [OF part(2), of t] q by (auto simp: stuck_def)
    qed
  qed
qed

text \<open>\<^verbatim>\<open>process_execute\<close> never returns when \<^verbatim>\<open>thread_create\<close> fails.  Whatever processes are doing, a call for which memory is
  there and \<^verbatim>\<open>thread_create\<close> returns \<^verbatim>\<open>TID_ERROR\<close> goes on to initialise the semaphore and to wait for it, and in
  every state that can follow, the caller is still in the call.\<close>
theorem failed_execute_never_returns:
  assumes "pstep\<^sup>*\<^sup>* first_process s" and "procs s t = Some p" and "pc p = User" and "a \<notin> set (used s)"
    and "process_execute fn_copy fn_copy2 a TID_ERROR junk ok t p s = Some s1" and "fn_copy \<noteq> NULL" and "pstep\<^sup>*\<^sup>* s1 s2"
  shows "\<exists>q. procs s2 t = Some q \<and> (pc q = Exec_init a TID_ERROR \<or> pc q = Exec_down a) \<and> result q = result p"
proof -
  have "user_call (Execute fn_copy fn_copy2 a TID_ERROR junk ok) t p s = Some s1" "fresh (Execute fn_copy fn_copy2 a TID_ERROR junk ok) s"
    using assms(4,5) by (simp_all add: user_call_def fresh_def)
  then have "pstep\<^sup>*\<^sup>* first_process s1"
    using assms(1) pstep.call [OF assms(2,3)] by (meson rtranclp.rtrancl_into_rtrancl)
  have "stuck t a (result p) s1"
    using assms(5,6) by (auto simp: process_execute_def execute_create_def ASSERT_bind Let_def stuck_def split: if_splits)
  with assms(7) have "stuck t a (result p) s2 \<and> pstep\<^sup>*\<^sup>* first_process s2"
  proof (induction rule: rtranclp_induct)
    case base
    then show ?case
      using \<open>pstep\<^sup>*\<^sup>* first_process s1\<close> by simp
  next
    case (step x y)
    then show ?case
      using stuck_step [of x t a "result p" y] by (meson rtranclp.rtrancl_into_rtrancl)
  qed
  then show ?thesis
    by (auto simp: stuck_def)
qed

section \<open>Schedules\<close>

text \<open>A schedule: which process goes on, or which call a process in user code makes.\<close>
datatype move = Go u32 | Call u32 ucall

fun run_moves :: "move list \<Rightarrow> pstate \<Rightarrow> pstate kernel" where
  "run_moves [] s = Some s"
| "run_moves (Go t # ms) s = do { p \<leftarrow> procs s t; s \<leftarrow> continue t p s; run_moves ms s }"
| "run_moves (Call t c # ms) s = do {
     p \<leftarrow> procs s t;
     ASSERT (pc p = User \<and> fresh c s);
     s \<leftarrow> user_call c t p s;
     run_moves ms s
   }"

lemma run_moves_steps: "run_moves ms s = Some s' \<Longrightarrow> pstep\<^sup>*\<^sup>* s s'"
proof (induction ms s rule: run_moves.induct)
  case (2 t ms s)
  then obtain p s1 where "procs s t = Some p" "continue t p s = Some s1" "pstep\<^sup>*\<^sup>* s1 s'"
    by (auto simp: bind_Some_iff)
  then show ?case
    using pstep.part [of s t p s1] by (metis converse_rtranclp_into_rtranclp)
next
  case (3 t c ms s)
  then obtain p s1 where "procs s t = Some p" "pc p = User" "fresh c s" "user_call c t p s = Some s1" "pstep\<^sup>*\<^sup>* s1 s'"
    by (auto simp: bind_Some_iff kernel_simps split: if_splits)
  then show ?case
    using pstep.call [of s t p c s1] by (metis converse_rtranclp_into_rtranclp)
qed simp

definition started :: "child_status \<Rightarrow> move list" where
  "started junk = [Call 1 (Execute 0x1000 0x2000 0x100 2 junk True), Go 1, Go 2, Go 1, Go 1]"

definition blank :: child_status where
  "blank = \<lparr>pid = 0, exit_status = 0xcccccccc, ref_cnt = 0, sema_exec = None\<rparr>"

lemma reach_by:
  assumes "map_option f (run_moves ms first_process) = Some x"
  shows "\<exists>s. pstep\<^sup>*\<^sup>* first_process s \<and> f s = x"
  using assms run_moves_steps by (metis map_option_eq_Some)

text \<open>What a process has reached, and whether its next part ends the kernel.\<close>
definition look :: "u32 \<Rightarrow> pstate \<Rightarrow> pc option \<times> bool \<times> bool" where
  "look t s = (case procs s t of
     None \<Rightarrow> (None, False, False)
   | Some p \<Rightarrow> (Some (pc p), css s (cs_parent p) = None, continue t p s = None))"

lemma exit_up_count:
  assumes r: "pstep\<^sup>*\<^sup>* first_process s" and q: "procs s ch = Some q" "pc q = Exit_up" "cs_parent q = a" "a \<noteq> NULL"
    and p: "procs s t = Some p" "a \<in> par_holds p" and c: "css s a = Some c"
  shows "ref_cnt c = 1"
proof -
  have one: "one_child (procs s)" and w: "wait_ok s q"
    using reachable_ok [OF r] q(1) by (auto simp: signals_ok_def)
  have "a \<notin> set (failed s)"
    using wait_ok_rest(1) [OF w] q(3,4) by simp
  moreover have "\<not> held chi_holds (procs s) a"
  proof
    assume "held chi_holds (procs s) a"
    then obtain u x where x: "procs s u = Some x" "a \<in> chi_holds x"
      by (auto simp: held_def)
    then have "cs_parent x = a"
      by (auto simp: chi_holds_def split: pc.splits)
    then have "u = ch"
      using one x(1) q unfolding one_child_def by metis
    then show False
      using x q(1,2) by (simp add: chi_holds_def)
  qed
  moreover have "ref_cnt c = refs (procs s) a + of_bool (a \<in> set (failed s))"
    using reachable_ok [OF r] c by (simp add: counts_ok_def)
  ultimately show ?thesis
    using heldI [of "procs s" t p a par_holds] p by (simp add: refs_def)
qed

lemma find_child_present:
  assumes "a \<in> set as" and "css s a = Some c" and "pid c = child" and "\<forall>b \<in> set as. \<exists>d. css s b = Some d \<and> (pid d = child \<longrightarrow> b = a)"
  shows "find_child s child as cs = Some (a, True)"
  using assms(1,4)
proof (induction as arbitrary: cs)
  case (Cons b as)
  then show ?case
    using assms(2,3) by (cases "b = a") auto
qed simp

text \<open>C10: \<^verbatim>\<open>process_wait\<close> and \<^verbatim>\<open>process_exit\<close> race for the \<^verbatim>\<open>child_status\<close>.  A child that exits gives its
  reference back and releases the lock before it raises the semaphore.  In every reachable state in which a child is
  between the two and its parent is about to call \<^verbatim>\<open>process_wait\<close> for it, the parent finds the child gone, does not wait
  and frees the structure; the child, still there, then raises a semaphore in freed memory.\<close>
theorem exit_wait_use_after_free:
  assumes "pstep\<^sup>*\<^sup>* first_process s" and "procs s ch = Some q" and "pc q = Exit_up" and "cs_parent q = a" and "a \<noteq> NULL"
    and "procs s t = Some p" and "pc p = User" and "a \<in> set (cs_list p)" and "css s a = Some c" and "pid c = ch"
    and "\<forall>b \<in> set (cs_list p). \<exists>d. css s b = Some d \<and> (pid d = ch \<longrightarrow> b = a)"
  shows "\<exists>s1 p1 s2. process_wait ch t p s = Some s1 \<and> procs s1 t = Some p1 \<and> pc p1 = Wait_finish a True \<and>
    continue t p1 s1 = Some s2 \<and> css s2 a = None \<and> procs s2 ch = Some q \<and> continue ch q s2 = None \<and> pstep\<^sup>*\<^sup>* first_process s2"
proof -
  let ?p1 = "p\<lparr>pc := Wait_finish a True\<rparr>" and ?p2 = "p\<lparr>cs_list := remove1 a (cs_list p), pc := User, result := exit_status c\<rparr>"
  let ?s1 = "set_proc t ?p1 s" and ?s2 = "free_cs a (set_proc t ?p2 (set_proc t ?p1 s))"
  have tc: "t \<noteq> ch"
    using assms(2,3,6,7) by auto
  have "a \<in> par_holds p"
    using assms(7,8) by (simp add: par_holds_def)
  then have "ref_cnt c = 1"
    by (rule exit_up_count [OF assms(1-6) _ assms(9)])
  then have w: "process_wait ch t p s = Some ?s1"
    using find_child_present [OF assms(8-11), of NULL] assms(5,9) by (simp add: process_wait_def)
  have f: "continue t ?p1 ?s1 = Some ?s2"
    using assms(9) by (simp add: continue_def wait_finish_def kernel_simps)
  have q2: "procs ?s2 ch = Some q" "css ?s2 a = None"
    using assms(2) tc by simp_all
  have dead: "continue ch q ?s2 = None"
    using assms(3,4) q2(2) by (simp add: continue_def exit_up_def up_exec_def)
  have "pstep s ?s1"
    using pstep.call [OF assms(6,7), of "Wait ch" ?s1] w by (simp add: fresh_def user_call_def)
  moreover have "pstep ?s1 ?s2"
    using pstep.part [of ?s1 t ?p1 ?s2] f by simp
  ultimately have "pstep\<^sup>*\<^sup>* first_process ?s2"
    using assms(1) by (meson rtranclp.rtrancl_into_rtrancl)
  then show ?thesis
    using w f q2 dead by (intro exI [of _ ?s1] exI [of _ ?p1] exI [of _ ?s2]) simp
qed

definition exiting :: "pstate kernel" where
  "exiting = run_moves (started blank @ [Call 2 (Exit_call 7), Go 2]) first_process"

lemma eval_exiting:
  "map_option (\<lambda>s. (map_option (\<lambda>q. (pc q, cs_parent q)) (procs s 2), map_option (\<lambda>p. (pc p, cs_list p)) (procs s 1),
     map_option pid (css s 0x100))) exiting = Some (Some (Exit_up, 0x100), Some (User, [0x100]), Some 2)"
  by code_simp

theorem exit_wait_use_after_free_witness:
  "\<exists>s q s2. exiting = Some s \<and> procs s2 2 = Some q \<and> continue 2 q s2 = None \<and> pstep\<^sup>*\<^sup>* first_process s2"
proof -
  obtain s q p c where s: "exiting = Some s" "procs s 2 = Some q" "pc q = Exit_up" "cs_parent q = 0x100" "procs s 1 = Some p" "pc p = User"
      "cs_list p = [0x100]" "css s 0x100 = Some c" "pid c = 2"
    using eval_exiting by auto
  have "pstep\<^sup>*\<^sup>* first_process s"
    using s(1) run_moves_steps by (simp add: exiting_def)
  then show ?thesis
    using exit_wait_use_after_free [of s 2 q "0x100" 1 p c] s by auto
qed

lemma eval_execute_race:
  "map_option (\<lambda>s. (look 2 s, map_option sema_exec (css s 0x100))) (run_moves [Call 1 (Execute 0x1000 0x2000 0x100 2 blank True)] first_process)
     = Some ((Some (Start True), False, True), Some None)"
  by code_simp

text \<open>\<^verbatim>\<open>process_execute\<close> starts the child before it initialises the semaphore they share.  A child that
  is scheduled at once and has loaded its program raises the uninitialised semaphore.\<close>
theorem execute_before_init:
  "\<exists>s. pstep\<^sup>*\<^sup>* first_process s \<and> (look 2 s, map_option sema_exec (css s 0x100)) = ((Some (Start True), False, True), Some None)"
  by (rule reach_by [OF eval_execute_race])

lemma eval_load_failure:
  "map_option (look 2) (run_moves [Call 1 (Execute 0x1000 0x2000 0x100 2 blank False), Go 1, Go 2, Go 1, Go 1] first_process)
     = Some (Some Exit_parent, True, True)"
  by code_simp

text \<open>When the program cannot be loaded, the parent frees the structure as soon as the child has said so,
  and the exit of the child takes the lock in freed memory.\<close>
theorem load_failure_use_after_free:
  "\<exists>s. pstep\<^sup>*\<^sup>* first_process s \<and> look 2 s = (Some Exit_parent, True, True)"
  by (rule reach_by [OF eval_load_failure])




lemma eval_killed:
  "map_option (\<lambda>s. (map_option result (procs s 1), css s 0x100 = None)) (run_moves (started blank @ [Call 2 Killed, Go 2, Go 2, Call 1 (Wait 2), Go 1]) first_process)
     = Some (Some 0xcccccccc, True)"
  by code_simp

text \<open>A child that the kernel kills never sets its status, so \<^verbatim>\<open>process_wait\<close> returns what \<^verbatim>\<open>malloc\<close> left in
  the structure, not the -1 its comment promises.\<close>
theorem killed_child_status_undefined:
  "\<exists>s. pstep\<^sup>*\<^sup>* first_process s \<and> (map_option result (procs s 1), css s 0x100 = None) = (Some 0xcccccccc, True)"
  by (rule reach_by [OF eval_killed])

lemma eval_exit_status:
  "map_option (\<lambda>s. (map_option result (procs s 1), map_option cs_list (procs s 1), css s 0x100 = None))
     (run_moves (started blank @ [Call 1 (Wait 2), Go 1, Call 2 (Exit_call 7), Go 2, Go 2, Go 1, Go 1]) first_process) = Some (Some 7, Some [], True)"
  by code_simp

text \<open>The undisturbed course: the parent waits, the child exits with 7, and the parent gets 7 and has
  forgotten and freed the child.\<close>
theorem wait_returns_exit_status:
  "\<exists>s. pstep\<^sup>*\<^sup>* first_process s \<and>
     (map_option result (procs s 1), map_option cs_list (procs s 1), css s 0x100 = None) = (Some 7, Some [], True)"
  by (rule reach_by [OF eval_exit_status])

definition waiting :: "pstate kernel" where
  "waiting = run_moves (started blank @ [Call 1 (Wait 2)]) first_process"

lemma eval_waiting:
  "map_option (\<lambda>s. (map_option pc (procs s 1), map_option (\<lambda>c. (ref_cnt c, sema_exec c)) (css s 0x100), failed s)) waiting
     = Some (Some (Wait_down 0x100 True), Some (2, Some 0), [])"
  by code_simp

theorem waiting_parent_has_child_witness:
  "\<exists>s t' q. waiting = Some s \<and> procs s t' = Some q \<and> cs_parent q = 0x100 \<and> ups q = 1"
proof -
  obtain s p c where s: "waiting = Some s" "procs s 1 = Some p" "pc p = Wait_down 0x100 True" "css s 0x100 = Some c" "sema_exec c = Some 0" "failed s = []"
    using eval_waiting by auto
  have "pstep\<^sup>*\<^sup>* first_process s"
    using s(1) run_moves_steps by (simp add: waiting_def)
  then show ?thesis
    using waiting_parent_has_child [of s 1 p "0x100" c True] s by auto
qed

theorem ref_cnt_exact_witness: "\<exists>s c. waiting = Some s \<and> css s 0x100 = Some c \<and> refs (procs s) 0x100 = 2"
proof -
  obtain s c where s: "waiting = Some s" "css s 0x100 = Some c" "ref_cnt c = 2" "failed s = []"
    using eval_waiting by auto
  then have "pstep\<^sup>*\<^sup>* first_process s"
    using run_moves_steps by (simp add: waiting_def)
  then show ?thesis
    using ref_cnt_exact [of s "0x100" c] s by auto
qed

definition failing :: "pstate kernel" where
  "failing = run_moves [Call 1 (Execute 0x1000 0x2000 0x100 TID_ERROR blank True), Go 1] first_process"

lemma eval_failing:
  "map_option (\<lambda>s. (map_option pc (procs s 1), map_option (\<lambda>c. (ref_cnt c, sema_exec c)) (css s 0x100), failed s)) failing
     = Some (Some (Exec_down 0x100), Some (2, Some 0), [0x100])"
  by code_simp

theorem failed_execute_never_returns_witness:
  "\<exists>p s1 s2 q. procs first_process 1 = Some p \<and> process_execute 0x1000 0x2000 0x100 TID_ERROR blank True 1 p first_process = Some s1 \<and>
     failing = Some s2 \<and> procs s2 1 = Some q \<and> (pc q = Exec_init 0x100 TID_ERROR \<or> pc q = Exec_down 0x100)"
proof -
  obtain s2 where s2: "failing = Some s2"
    using eval_failing by auto
  then obtain p s1 where p: "procs first_process 1 = Some p" "pc p = User"
      "process_execute 0x1000 0x2000 0x100 TID_ERROR blank True 1 p first_process = Some s1" "run_moves [Go 1] s1 = Some s2"
    by (auto simp: failing_def bind_Some_iff kernel_simps user_call_def split: if_splits)
  have "0x100 \<notin> set (used first_process)" "(0x1000 :: addr) \<noteq> NULL"
    by (simp_all add: first_process_def)
  then show ?thesis
    using failed_execute_never_returns [OF rtranclp.rtrancl_refl p(1,2) _ p(3) _ run_moves_steps [OF p(4)]] p(1,3) s2 by auto
qed

end
