(* ===== verification/Intq.thy ===== *)
theory Intq
  imports Threads Fifo
begin

text \<open>
  \<^verbatim>\<open>devices/intq.c\<close>: the circular buffer between interrupt handlers and threads, with the scheduler
  state of theory Threads.  A call that finds the queue empty (or full) and has to wait returns no
  byte: the state it leaves is the one in which the caller has registered as the waiting thread and
  is blocked, and the call is made again when it runs next, which is the next turn of the loop in the
  code.  The lock that keeps a second waiter out is taken and given back within that turn and does
  not appear in the state.
\<close>

section \<open>Operations\<close>

definition INTQ_BUFSIZE :: nat where "INTQ_BUFSIZE = 64"

record intq =
  not_full :: addr
  not_empty :: addr
  qbuf :: "u8 list"
  head :: nat
  tail :: nat

definition intq_init :: "u8 list \<Rightarrow> intq" where
  "intq_init junk = \<lparr>not_full = NULL, not_empty = NULL, qbuf = junk, head = 0, tail = 0\<rparr>"

definition intq_next :: "nat \<Rightarrow> nat" where
  "intq_next pos = (pos + 1) mod INTQ_BUFSIZE"

definition intq_empty :: "intq \<Rightarrow> kstate \<Rightarrow> bool kernel" where
  "intq_empty q s = do { ASSERT (\<not> intr_on s); Some (head q = tail q) }"

definition intq_full :: "intq \<Rightarrow> kstate \<Rightarrow> bool kernel" where
  "intq_full q s = do { ASSERT (\<not> intr_on s); Some (intq_next (head q) = tail q) }"

definition intq_wait :: "bool \<Rightarrow> intq \<Rightarrow> kstate \<Rightarrow> (intq \<times> kstate) kernel" where
  "intq_wait for_byte q s = do {
     ASSERT (\<not> in_external_intr s);
     ASSERT (\<not> intr_on s);
     ok \<leftarrow> (if for_byte then intq_empty q s else intq_full q s);
     ASSERT ok;
     t \<leftarrow> thread_current s;
     s \<leftarrow> thread_block s;
     Some (if for_byte then q\<lparr>not_empty := t\<rparr> else q\<lparr>not_full := t\<rparr>, s)
   }"

definition intq_signal :: "bool \<Rightarrow> intq \<Rightarrow> kstate \<Rightarrow> (intq \<times> kstate) kernel" where
  "intq_signal for_byte q s = do {
     ASSERT (\<not> intr_on s);
     no \<leftarrow> (if for_byte then intq_empty q s else intq_full q s);
     ASSERT (\<not> no);
     let waiter = (if for_byte then not_empty q else not_full q);
     if waiter \<noteq> NULL
     then do {
       s \<leftarrow> thread_unblock waiter s;
       Some (if for_byte then q\<lparr>not_empty := NULL\<rparr> else q\<lparr>not_full := NULL\<rparr>, s)
     }
     else Some (q, s)
   }"

definition intq_getc :: "intq \<Rightarrow> kstate \<Rightarrow> (u8 option \<times> intq \<times> kstate) kernel" where
  "intq_getc q s = do {
     ASSERT (\<not> intr_on s);
     e \<leftarrow> intq_empty q s;
     if e
     then do { ASSERT (\<not> in_external_intr s); (q, s) \<leftarrow> intq_wait True q s; Some (None, q, s) }
     else do {
       byte \<leftarrow> fetch (qbuf q) (tail q);
       let q = q\<lparr>tail := intq_next (tail q)\<rparr>;
       (q, s) \<leftarrow> intq_signal False q s;
       Some (Some byte, q, s)
     }
   }"

definition intq_putc :: "u8 \<Rightarrow> intq \<Rightarrow> kstate \<Rightarrow> (bool \<times> intq \<times> kstate) kernel" where
  "intq_putc byte q s = do {
     ASSERT (\<not> intr_on s);
     f \<leftarrow> intq_full q s;
     if f
     then do { ASSERT (\<not> in_external_intr s); (q, s) \<leftarrow> intq_wait False q s; Some (False, q, s) }
     else do {
       b \<leftarrow> store (qbuf q) (head q) byte;
       let q = q\<lparr>qbuf := b, head := intq_next (head q)\<rparr>;
       (q, s) \<leftarrow> intq_signal True q s;
       Some (True, q, s)
     }
   }"

section \<open>The bytes in the queue\<close>

definition q_len :: "intq \<Rightarrow> nat" where
  "q_len q = (head q + 64 - tail q) mod 64"

definition q_bytes :: "intq \<Rightarrow> u8 list" where
  "q_bytes q = map (\<lambda>i. qbuf q ! ((tail q + i) mod 64)) [0..<q_len q]"

definition q_ok :: "intq \<Rightarrow> bool" where
  "q_ok q \<longleftrightarrow> length (qbuf q) = 64 \<and> head q < 64 \<and> tail q < 64"

lemma q_head: "q_ok q \<Longrightarrow> head q = (tail q + q_len q) mod 64"
  by (auto simp: q_len_def q_ok_def mod_simps)

lemma q_full_iff: "q_ok q \<Longrightarrow> intq_next (head q) = tail q \<longleftrightarrow> length (q_bytes q) = 63"
  by (auto simp: q_ok_def q_bytes_def q_len_def intq_next_def INTQ_BUFSIZE_def mod_if split: if_splits)

lemma q_empty_iff: "q_ok q \<Longrightarrow> head q = tail q \<longleftrightarrow> q_bytes q = []"
  by (auto simp: q_ok_def q_bytes_def q_len_def mod_if split: if_splits)

lemma mod_64_neq: "t < 64 \<Longrightarrow> i < 64 \<Longrightarrow> j < 64 \<Longrightarrow> i \<noteq> j \<Longrightarrow> (t + i) mod 64 \<noteq> (t + j) mod (64 :: nat)"
  by (auto simp: mod_if)

lemma q_put:
  fixes b :: u8
  assumes "q_ok q" and "length (q_bytes q) < 63"
  defines "q' \<equiv> q\<lparr>qbuf := (qbuf q)[head q := b], head := intq_next (head q)\<rparr>"
  shows "q_ok q'" and "q_bytes q' = q_bytes q @ [b]"
proof -
  show "q_ok q'"
    using assms(1) by (simp add: q'_def q_ok_def intq_next_def INTQ_BUFSIZE_def)
  have n: "q_len q < 63"
    using assms(2) by (simp add: q_bytes_def)
  have len: "q_len q' = Suc (q_len q)"
    using assms(1) n by (auto simp: q'_def q_ok_def q_len_def intq_next_def INTQ_BUFSIZE_def mod_if split: if_splits)
  have "qbuf q' ! ((tail q + i) mod 64) = qbuf q ! ((tail q + i) mod 64)" if "i < q_len q" for i
    using mod_64_neq [of "tail q" i "q_len q"] that n q_head [OF assms(1)] assms(1) by (simp add: q'_def q_ok_def)
  moreover have "qbuf q' ! ((tail q + q_len q) mod 64) = b"
    using assms(1) q_head [OF assms(1)] by (simp add: q'_def q_ok_def)
  ultimately show "q_bytes q' = q_bytes q @ [b]"
    unfolding q_bytes_def len by (simp add: q'_def)
qed

lemma q_get:
  assumes "q_ok q" and "q_bytes q = b # bs"
  defines "q' \<equiv> q\<lparr>tail := intq_next (tail q)\<rparr>"
  shows "q_ok q'" and "q_bytes q' = bs" and "qbuf q ! tail q = b"
proof -
  show "q_ok q'"
    using assms(1) by (simp add: q'_def q_ok_def intq_next_def INTQ_BUFSIZE_def)
  have n: "0 < q_len q"
    using arg_cong [OF assms(2), of length] by (simp add: q_bytes_def)
  have len: "q_len q = Suc (q_len q')"
    using assms(1) n by (auto simp: q'_def q_ok_def q_len_def intq_next_def INTQ_BUFSIZE_def mod_if split: if_splits)
  have "q_bytes q = qbuf q ! ((tail q + 0) mod 64) # map (\<lambda>i. qbuf q ! ((tail q + Suc i) mod 64)) [0..<q_len q']"
    unfolding q_bytes_def len by (simp only: upt_conv_Cons zero_less_Suc list.map map_Suc_upt [symmetric] map_map comp_def)
  then have "b = qbuf q ! ((tail q + 0) mod 64)" and "bs = map (\<lambda>i. qbuf q ! ((tail q + Suc i) mod 64)) [0..<q_len q']"
    using assms(2) by auto
  moreover have "(tail q + Suc i) mod 64 = (tail q' + i) mod 64" for i
    by (simp add: q'_def intq_next_def INTQ_BUFSIZE_def mod_simps)
  ultimately show "q_bytes q' = bs" and "qbuf q ! tail q = b"
    using assms(1) by (simp_all add: q_bytes_def q'_def q_ok_def)
qed

section \<open>First in, first out\<close>

text \<open>The queue as an interrupt handler uses it: no thread is waiting, and interrupts are off.\<close>
definition q_at :: "intq \<times> kstate \<Rightarrow> u8 list \<Rightarrow> bool" where
  "q_at = (\<lambda>(q, s) xs. q_ok q \<and> q_bytes q = xs \<and> not_full q = NULL \<and> not_empty q = NULL \<and> \<not> intr_on s)"

definition q_push :: "intq \<times> kstate \<Rightarrow> u8 \<Rightarrow> (intq \<times> kstate) option" where
  "q_push = (\<lambda>(q, s) b. case intq_putc b q s of Some (True, q', s') \<Rightarrow> Some (q', s') | _ \<Rightarrow> None)"

definition q_pop :: "intq \<times> kstate \<Rightarrow> (u8 \<times> intq \<times> kstate) option" where
  "q_pop = (\<lambda>(q, s). case intq_getc q s of Some (Some b, q', s') \<Rightarrow> Some (b, q', s') | _ \<Rightarrow> None)"

interpretation byte_queue: fifo q_at "\<lambda>xs a. length xs < 63" q_push q_pop
proof
  fix st xs and a :: u8
  assume "q_at st xs" and room: "length xs < 63"
  then obtain q s where st: "st = (q, s)" "q_ok q" "q_bytes q = xs" "not_full q = NULL" "not_empty q = NULL" "\<not> intr_on s"
    by (auto simp: q_at_def)
  let ?q = "q\<lparr>qbuf := (qbuf q)[head q := a], head := intq_next (head q)\<rparr>"
  have put: "q_ok ?q" "q_bytes ?q = xs @ [a]"
    using q_put [OF st(2), of a] st(3) room by simp_all
  have "\<not> (intq_next (head q) = tail q)"
    using q_full_iff [OF st(2)] st(3) room by simp
  moreover have "head ?q \<noteq> tail ?q"
    using q_empty_iff [OF put(1)] put(2) by simp
  moreover have "head q < length (qbuf q)"
    using st(2) by (simp add: q_ok_def)
  ultimately have "intq_putc a q s = Some (True, ?q, s)"
    using st by (simp add: intq_putc_def intq_full_def intq_signal_def intq_empty_def kernel_simps)
  then show "\<exists>s'. q_push st a = Some s' \<and> q_at s' (xs @ [a])"
    using put st by (simp add: q_push_def q_at_def)
next
  fix st xs and x :: u8
  assume "q_at st (x # xs)"
  then obtain q s where st: "st = (q, s)" "q_ok q" "q_bytes q = x # xs" "not_full q = NULL" "not_empty q = NULL" "\<not> intr_on s"
    by (auto simp: q_at_def)
  let ?q = "q\<lparr>tail := intq_next (tail q)\<rparr>"
  note get = q_get [OF st(2,3)]
  have "head q \<noteq> tail q"
    using q_empty_iff [OF st(2)] st(3) by simp
  moreover have "length xs < 63"
    using arg_cong [OF st(3), of length] by (simp add: q_bytes_def q_len_def)
  then have "\<not> (intq_next (head ?q) = tail ?q)"
    using q_full_iff [OF get(1)] get(2) by simp
  moreover have "tail q < length (qbuf q)"
    using st(2) by (simp add: q_ok_def)
  ultimately have "intq_getc q s = Some (Some x, ?q, s)"
    using st get(3) by (simp add: intq_getc_def intq_full_def intq_signal_def intq_empty_def kernel_simps)
  then show "\<exists>s'. q_pop st = Some (x, s') \<and> q_at s' xs"
    using get st by (simp add: q_pop_def q_at_def)
qed

text \<open>C17: the interrupt queue keeps the order of the bytes.  From an empty queue, any sequence of
  \<^verbatim>\<open>intq_putc\<close> and \<^verbatim>\<open>intq_getc\<close> that never takes from an empty queue and never puts into one with 63 bytes
  succeeds without waiting, and the bytes taken out and the bytes left are, in this order, the bytes put in.\<close>
theorem intq_fifo:
  assumes "length junk = 64" and "\<not> intr_on s" and "legal (\<lambda>xs a. length xs < 63) ops []"
  shows "\<exists>out q s' rest. queue_run q_push q_pop ops (intq_init junk, s) = Some (out, q, s') \<and> q_bytes q = rest \<and> out @ rest = pushed ops"
proof -
  have "q_at (intq_init junk, s) []"
    using assms(1,2) by (simp add: q_at_def q_ok_def q_bytes_def q_len_def intq_init_def)
  from byte_queue.client_order [OF this assms(3)] show ?thesis
    by (fastforce simp: q_at_def)
qed

theorem intq_fifo_witness:
  "\<exists>out q s' rest. queue_run q_push q_pop [Push 1, Push 2, Pop] (intq_init (replicate 64 0), (boot_state 0x1000 0x2000 (\<lambda>_. 0) [])\<lparr>intr_on := False\<rparr>)
     = Some (out, q, s') \<and> q_bytes q = rest \<and> out @ rest = [1, 2]"
  using intq_fifo [of "replicate 64 0" "(boot_state 0x1000 0x2000 (\<lambda>_. 0) [])\<lparr>intr_on := False\<rparr>" "[Push 1, Push 2, Pop]"] by simp

end
