(* ===== verification/Rc4.thy ===== *)
theory Rc4
  imports Disk "HOL-Library.Multiset"
begin

text \<open>
  \<^verbatim>\<open>lib/random.c\<close>: the RC4 generator.  Its static variables are a record; indices are bytes, so
  that every access lies inside the 256-byte array.
\<close>

section \<open>Operations\<close>

record rng =
  s_arr :: "u8 list"
  s_i :: u8
  s_j :: u8
  inited :: bool

definition swap_byte :: "nat \<Rightarrow> nat \<Rightarrow> u8 list \<Rightarrow> u8 list kernel" where
  "swap_byte a b m = do {
     t \<leftarrow> fetch m a;
     x \<leftarrow> fetch m b;
     m \<leftarrow> store m a x;
     store m b t
   }"

fun fill_loop :: "nat \<Rightarrow> nat \<Rightarrow> u8 list \<Rightarrow> u8 list kernel" where
  "fill_loop 0 i m = Some m"
| "fill_loop (Suc n) i m = do { m \<leftarrow> store m i (of_nat i); fill_loop n (i + 1) m }"

fun mix_loop :: "nat \<Rightarrow> nat \<Rightarrow> u8 \<Rightarrow> u8 list \<Rightarrow> u8 list \<Rightarrow> u8 list kernel" where
  "mix_loop 0 i j seedp m = Some m"
| "mix_loop (Suc n) i j seedp m = do {
     x \<leftarrow> fetch m i;
     y \<leftarrow> fetch seedp (i mod 4);
     let j = j + (x + y);
     m \<leftarrow> swap_byte i (unat j) m;
     mix_loop n (i + 1) j seedp m
   }"

definition random_init :: "u32 \<Rightarrow> rng \<Rightarrow> rng kernel" where
  "random_init seed r = do {
     m \<leftarrow> fill_loop 256 0 (s_arr r);
     m \<leftarrow> mix_loop 256 0 0 (u32_bytes seed) m;
     Some \<lparr>s_arr = m, s_i = 0, s_j = 0, inited = True\<rparr>
   }"

definition random_step :: "rng \<Rightarrow> (u8 \<times> rng) kernel" where
  "random_step r = do {
     let i = s_i r + 1;
     x \<leftarrow> fetch (s_arr r) (unat i);
     let j = s_j r + x;
     m \<leftarrow> swap_byte (unat i) (unat j) (s_arr r);
     x \<leftarrow> fetch m (unat i);
     y \<leftarrow> fetch m (unat j);
     let s_k = x + y;
     b \<leftarrow> fetch m (unat s_k);
     Some (b, r\<lparr>s_arr := m, s_i := i, s_j := j\<rparr>)
   }"

fun byte_loop :: "nat \<Rightarrow> rng \<Rightarrow> (u8 list \<times> rng) kernel" where
  "byte_loop 0 r = Some ([], r)"
| "byte_loop (Suc n) r = do {
     (b, r) \<leftarrow> random_step r;
     (bs, r) \<leftarrow> byte_loop n r;
     Some (b # bs, r)
   }"

definition random_bytes :: "size_t \<Rightarrow> rng \<Rightarrow> (u8 list \<times> rng) kernel" where
  "random_bytes sz r = do {
     r \<leftarrow> (if \<not> inited r then random_init 0 r else Some r);
     byte_loop (unat sz) r
   }"

definition random_ulong :: "rng \<Rightarrow> (u32 \<times> rng) kernel" where
  "random_ulong r = map_option (\<lambda>(bs, r). (bytes_u32 bs, r)) (random_bytes 4 r)"

section \<open>The array stays a permutation of all bytes\<close>

definition all_bytes :: "u8 list" where
  "all_bytes = map of_nat [0..<256]"

definition perm_ok :: "u8 list \<Rightarrow> bool" where
  "perm_ok m \<longleftrightarrow> mset m = mset all_bytes"

definition rng_ok :: "rng \<Rightarrow> bool" where
  "rng_ok r \<longleftrightarrow> length (s_arr r) = 256 \<and> (inited r \<longrightarrow> perm_ok (s_arr r))"

lemma perm_length: "perm_ok m \<Longrightarrow> length m = 256"
  by (metis perm_ok_def all_bytes_def length_map length_upt minus_nat.diff_0 size_mset)

lemma unat_byte: "unat (x :: u8) < 256"
  using unsigned_less [of x] by simp

lemma swap_byte_perm:
  assumes "i < length m" and "j < length m"
  obtains m' where "swap_byte i j m = Some m'" and "mset m' = mset m"
proof
  show "swap_byte i j m = Some (m[i := m ! j, j := m ! i])"
    using assms by (simp add: swap_byte_def kernel_simps)
  show "mset (m[i := m ! j, j := m ! i]) = mset m"
    using assms by (simp add: mset_swap)
qed

lemma fill_loop_spec:
  "i + n = length m \<Longrightarrow> take i m = map of_nat [0..<i] \<Longrightarrow> fill_loop n i m = Some (map of_nat [0..<length m])"
proof (induction n arbitrary: i m)
  case (Suc n)
  then have "take (Suc i) (m[i := of_nat i]) = map of_nat [0..<Suc i]"
    by (simp add: take_Suc_conv_app_nth)
  then show ?case
    using Suc.IH [of "Suc i" "m[i := of_nat i]"] Suc.prems(1) by (simp add: kernel_simps)
qed simp

lemma mix_loop_perm:
  assumes "perm_ok m" and "length seedp = 4" and "i + n \<le> 256"
  shows "\<exists>m'. mix_loop n i j seedp m = Some m' \<and> perm_ok m'"
  using assms
proof (induction n arbitrary: i j m)
  case (Suc n)
  define j' where "j' = j + (m ! i + seedp ! (i mod 4))"
  obtain m' where m': "swap_byte i (unat j') m = Some m'" "mset m' = mset m"
    using swap_byte_perm [of i m "unat j'"] Suc.prems(3) perm_length [OF Suc.prems(1)] unat_byte [of j'] by auto
  moreover have "perm_ok m'"
    using Suc.prems(1) m'(2) by (simp add: perm_ok_def)
  then obtain m'' where "mix_loop n (i + 1) j' seedp m' = Some m''" "perm_ok m''"
    using Suc.IH [of m' "i + 1" j'] Suc.prems by auto
  ultimately show ?case
    using Suc.prems perm_length [OF Suc.prems(1)] by (auto simp: kernel_simps Let_def j'_def [symmetric])
qed simp

lemma random_init_ok:
  assumes "length (s_arr r) = 256"
  shows "\<exists>r'. random_init seed r = Some r' \<and> rng_ok r' \<and> inited r'"
proof -
  have f: "fill_loop 256 0 (s_arr r) = Some all_bytes"
    using fill_loop_spec [of 0 256 "s_arr r"] assms by (simp add: all_bytes_def)
  obtain m where "mix_loop 256 0 0 (u32_bytes seed) all_bytes = Some m" "perm_ok m"
    using mix_loop_perm [of all_bytes "u32_bytes seed" 0 256 0] by (auto simp: perm_ok_def)
  then show ?thesis
    using perm_length [of m] by (auto simp: random_init_def f rng_ok_def)
qed

lemma random_step_ok:
  assumes "rng_ok r" and "inited r"
  shows "\<exists>b r'. random_step r = Some (b, r') \<and> rng_ok r' \<and> inited r'"
proof -
  define i j where ij: "i = s_i r + 1" "j = s_j r + s_arr r ! unat i"
  have p: "perm_ok (s_arr r)" "length (s_arr r) = 256"
    using assms by (simp_all add: rng_ok_def)
  obtain m where m: "swap_byte (unat i) (unat j) (s_arr r) = Some m" "mset m = mset (s_arr r)"
    using swap_byte_perm [of "unat i" "s_arr r" "unat j"] p(2) unat_byte by auto
  have "perm_ok m"
    using p(1) m(2) by (simp add: perm_ok_def)
  then show ?thesis
    using m(1) p(2) assms(2) perm_length [of m] unat_byte
    by (simp add: random_step_def kernel_simps Let_def ij [symmetric] rng_ok_def)
qed

lemma byte_loop_ok:
  "rng_ok r \<Longrightarrow> inited r \<Longrightarrow> \<exists>bs r'. byte_loop n r = Some (bs, r') \<and> length bs = n \<and> rng_ok r' \<and> inited r'"
proof (induction n arbitrary: r)
  case (Suc n)
  obtain b r1 where "random_step r = Some (b, r1)" "rng_ok r1" "inited r1"
    using random_step_ok [OF Suc.prems] by blast
  then show ?case
    using Suc.IH [of r1] by auto
qed simp

text \<open>The generator never leaves its array, always returns the number of bytes it was asked for,
  initialises itself when needed, and its array stays a permutation of the 256 bytes.\<close>
theorem random_bytes_permutation:
  assumes "rng_ok r"
  shows "\<exists>bs r'. random_bytes sz r = Some (bs, r') \<and> length bs = unat sz \<and> perm_ok (s_arr r') \<and> rng_ok r' \<and> inited r'"
proof -
  obtain r1 where r1: "(if \<not> inited r then random_init 0 r else Some r) = Some r1" "rng_ok r1" "inited r1"
    using assms random_init_ok [of r 0] by (cases "inited r") (auto simp: rng_ok_def)
  then obtain bs r' where "byte_loop (unat sz) r1 = Some (bs, r')" "length bs = unat sz" "rng_ok r'" "inited r'"
    using byte_loop_ok by blast
  then show ?thesis
    using r1(1) by (auto simp: random_bytes_def rng_ok_def)
qed

theorem random_bytes_permutation_witness:
  "\<exists>bs r'. random_bytes 3 \<lparr>s_arr = replicate 256 0, s_i = 0, s_j = 0, inited = False\<rparr> = Some (bs, r') \<and> length bs = 3"
  using random_bytes_permutation [of "\<lparr>s_arr = replicate 256 0, s_i = 0, s_j = 0, inited = False\<rparr>" 3] by (auto simp: rng_ok_def)

end
