(* ===== verification/Blocks.thy ===== *)
theory Blocks
  imports Allocator
begin

text \<open>
  The contract of an allocator of memory blocks, \<^verbatim>\<open>malloc\<close> and \<^verbatim>\<open>free\<close> of \<^verbatim>\<open>threads/malloc.c\<close>, and the
  clients that use it.  A client asks for blocks, writes to them and gives them back.  The lemma of the
  locale says that to its client the allocator is a collection of independent arrays: no operation fails,
  what was written to a block stays there, and blocks never overlap.
\<close>

section \<open>Clients\<close>

datatype ('r, 'v) block_op = Alloc 'r | Free_nth nat | Put nat nat 'v

text \<open>The client keeps, for each block it holds, the address and the contents it expects there.\<close>
fun block_run :: "('s \<Rightarrow> 'r \<Rightarrow> (nat \<times> 's) option) \<Rightarrow> ('s \<Rightarrow> nat \<Rightarrow> 's option) \<Rightarrow> ('s \<Rightarrow> nat \<Rightarrow> 'v) \<Rightarrow> ('s \<Rightarrow> nat \<Rightarrow> 'v \<Rightarrow> 's) \<Rightarrow>
    ('r \<Rightarrow> nat) \<Rightarrow> ('r, 'v) block_op list \<Rightarrow> 's \<Rightarrow> (nat \<times> 'v list) list \<Rightarrow> ('s \<times> (nat \<times> 'v list) list) option" where
  "block_run acquire release get put sz [] s held = Some (s, held)"
| "block_run acquire release get put sz (Alloc r # ops) s held =
     (case acquire s r of
        None \<Rightarrow> None
      | Some (i, s') \<Rightarrow> block_run acquire release get put sz ops s'
          (if i = 0 then held else (i, map (get s') [i..<i + sz r]) # held))"
| "block_run acquire release get put sz (Free_nth j # ops) s held =
     (if j < length held
      then (case release s (fst (held ! j)) of
              None \<Rightarrow> None
            | Some s' \<Rightarrow> block_run acquire release get put sz ops s' (take j held @ drop (Suc j) held))
      else block_run acquire release get put sz ops s held)"
| "block_run acquire release get put sz (Put j k v # ops) s held =
     (if j < length held \<and> k < length (snd (held ! j))
      then block_run acquire release get put sz ops (put s (fst (held ! j) + k) v)
             (held[j := (fst (held ! j), (snd (held ! j))[k := v])])
      else block_run acquire release get put sz ops s held)"

lemma set_delete_nth:
  assumes "distinct xs" and "j < length xs"
  shows "set (take j xs @ drop (Suc j) xs) = set xs - {xs ! j}"
proof -
  have xs: "xs = take j xs @ xs ! j # drop (Suc j) xs"
    using assms(2) by (rule id_take_nth_drop)
  then have "distinct (take j xs @ xs ! j # drop (Suc j) xs)"
    using assms(1) by simp
  moreover have "set xs = set (take j xs) \<union> insert (xs ! j) (set (drop (Suc j) xs))"
    using arg_cong [OF xs, of set] by (simp only: set_append list.set)
  ultimately show ?thesis
    by auto
qed

lemma distinct_delete_nth:
  assumes "distinct xs"
  shows "distinct (take j xs @ drop (Suc j) xs)"
proof (cases "j < length xs")
  case True
  have "distinct (take j xs @ xs ! j # drop (Suc j) xs)"
    using assms id_take_nth_drop [OF True] by simp
  then show ?thesis
    by auto
qed (use assms in simp)

section \<open>The contract\<close>

locale block_allocator =
  fixes acquire :: "'s \<Rightarrow> 'r \<Rightarrow> (nat \<times> 's) option"
    and release :: "'s \<Rightarrow> nat \<Rightarrow> 's option"
    and get :: "'s \<Rightarrow> nat \<Rightarrow> 'v"
    and put :: "'s \<Rightarrow> nat \<Rightarrow> 'v \<Rightarrow> 's"
    and sz :: "'r \<Rightarrow> nat"
    and fits :: "'r \<Rightarrow> bool"
    and holds :: "'s \<Rightarrow> (nat \<times> nat) set \<Rightarrow> bool"
  assumes acquire_block: "holds s L \<Longrightarrow> fits r \<Longrightarrow> \<exists>i s'. acquire s r = Some (i, s') \<and>
      (\<forall>x \<in> \<Union> (slots ` L). get s' x = get s x) \<and>
      (if i = 0 then holds s' L else \<exists>n \<ge> sz r. (i, n) \<notin> L \<and> holds s' (insert (i, n) L))"
    and release_block: "holds s L \<Longrightarrow> (i, n) \<in> L \<Longrightarrow> \<exists>s'. release s i = Some s' \<and> holds s' (L - {(i, n)}) \<and>
      (\<forall>x \<in> \<Union> (slots ` (L - {(i, n)})). get s' x = get s x)"
    and put_block: "holds s L \<Longrightarrow> (i, n) \<in> L \<Longrightarrow> x \<in> slots (i, n) \<Longrightarrow> holds (put s x v) L"
    and get_put: "holds s L \<Longrightarrow> (i, n) \<in> L \<Longrightarrow> x \<in> slots (i, n) \<Longrightarrow> (j, m) \<in> L \<Longrightarrow> y \<in> slots (j, m) \<Longrightarrow>
      get (put s x v) y = (if x = y then v else get s y)"
    and blocks_apart: "holds s L \<Longrightarrow> b \<in> L \<Longrightarrow> c \<in> L \<Longrightarrow> b \<noteq> c \<Longrightarrow> slots b \<inter> slots c = {}"
begin

definition content :: "'s \<Rightarrow> nat \<times> nat \<times> 'v list \<Rightarrow> bool" where
  "content s = (\<lambda>(i, n, bs). i \<noteq> 0 \<and> length bs \<le> n \<and> (\<forall>k < length bs. get s (i + k) = bs ! k))"

definition held_ok :: "'s \<Rightarrow> (nat \<times> nat \<times> 'v list) list \<Rightarrow> bool" where
  "held_ok s H \<longleftrightarrow> holds s (set (map (\<lambda>(i, n, bs). (i, n)) H)) \<and> distinct (map (\<lambda>(i, n, bs). (i, n)) H) \<and>
     list_all (content s) H"

lemma content_same:
  assumes "content s (i, n, bs)" and "\<forall>x \<in> slots (i, n). get s' x = get s x"
  shows "content s' (i, n, bs)"
  using assms by (auto simp: content_def)

lemma contents_same:
  assumes "list_all (content s) H" and "\<forall>x \<in> \<Union> (slots ` set (map (\<lambda>(i, n, bs). (i, n)) H)). get s' x = get s x"
  shows "list_all (content s') H"
  unfolding list_all_iff
proof
  fix b assume b: "b \<in> set H"
  obtain i n bs where [simp]: "b = (i, n, bs)" by (cases b)
  have "content s (i, n, bs)"
    using assms(1) b by (auto simp: list_all_iff)
  moreover have "\<forall>x \<in> slots (i, n). get s' x = get s x"
    using assms(2) b by (force simp del: slots.simps)
  ultimately show "content s' b"
    by (simp add: content_same)
qed

lemma held_alloc:
  assumes "held_ok s H" and "fits r"
  obtains i s' n where "acquire s r = Some (i, s')" and "i = 0 \<Longrightarrow> held_ok s' H"
    and "i \<noteq> 0 \<Longrightarrow> held_ok s' ((i, n, map (get s') [i..<i + sz r]) # H)"
proof -
  have H: "holds s (set (map (\<lambda>(i, n, bs). (i, n)) H))" "distinct (map (\<lambda>(i, n, bs). (i, n)) H)" "list_all (content s) H"
    using assms(1) by (auto simp: held_ok_def)
  from acquire_block [OF H(1) assms(2)] obtain i s' where r: "acquire s r = Some (i, s')"
    and same: "\<forall>x \<in> \<Union> (slots ` set (map (\<lambda>(i, n, bs). (i, n)) H)). get s' x = get s x"
    and new: "if i = 0 then holds s' (set (map (\<lambda>(i, n, bs). (i, n)) H))
      else \<exists>n \<ge> sz r. (i, n) \<notin> set (map (\<lambda>(i, n, bs). (i, n)) H) \<and> holds s' (insert (i, n) (set (map (\<lambda>(i, n, bs). (i, n)) H)))"
    by blast
  have old: "list_all (content s') H"
    using H(3) same by (rule contents_same)
  show thesis
  proof (cases "i = 0")
    case True
    then show thesis
      using r new H(2) old by (intro that [of i s' 0]) (auto simp: held_ok_def)
  next
    case False
    then obtain n where "sz r \<le> n" "(i, n) \<notin> set (map (\<lambda>(i, n, bs). (i, n)) H)"
      "holds s' (insert (i, n) (set (map (\<lambda>(i, n, bs). (i, n)) H)))"
      using new by auto
    then have "held_ok s' ((i, n, map (get s') [i..<i + sz r]) # H)"
      using H(2) old False by (simp add: held_ok_def content_def)
    then show thesis
      using r False by (intro that [of i s' n]) auto
  qed
qed

lemma held_free:
  assumes "held_ok s H" and "j < length H"
  obtains s' where "release s (fst (H ! j)) = Some s'" and "held_ok s' (take j H @ drop (Suc j) H)"
proof -
  let ?f = "\<lambda>(i, n, bs :: 'v list). (i :: nat, n :: nat)"
  have H: "holds s (set (map ?f H))" "distinct (map ?f H)" "list_all (content s) H"
    using assms(1) by (auto simp: held_ok_def)
  obtain i n bs where b: "H ! j = (i, n, bs)" by (cases "H ! j")
  have fj: "map ?f H ! j = (i, n)" "j < length (map ?f H)"
    using assms(2) b by simp_all
  then have mem: "(i, n) \<in> set (map ?f H)"
    by (metis nth_mem)
  obtain s' where s': "release s i = Some s'" "holds s' (set (map ?f H) - {(i, n)})"
    "\<forall>x \<in> \<Union> (slots ` (set (map ?f H) - {(i, n)})). get s' x = get s x"
    using release_block [OF H(1) mem] by blast
  have m: "map ?f (take j H @ drop (Suc j) H) = take j (map ?f H) @ drop (Suc j) (map ?f H)"
    by (simp add: take_map drop_map)
  have st: "set (map ?f (take j H @ drop (Suc j) H)) = set (map ?f H) - {(i, n)}"
    unfolding m using set_delete_nth [OF H(2) fj(2)] fj(1) by simp
  have "list_all (content s) (take j H @ drop (Suc j) H)"
    using H(3) by (auto simp: list_all_iff dest: in_set_takeD in_set_dropD)
  then have "list_all (content s') (take j H @ drop (Suc j) H)"
    by (rule contents_same) (unfold st, rule s'(3))
  then have "held_ok s' (take j H @ drop (Suc j) H)"
    unfolding held_ok_def st using s'(2) distinct_delete_nth [OF H(2), of j] by (simp only: m)
  then show thesis
    using s'(1) b by (intro that) simp_all
qed

lemma held_put:
  assumes "held_ok s H" and "j < length H" and "H ! j = (i, n, bs)" and "k < length bs"
  shows "held_ok (put s (i + k) v) (H[j := (i, n, bs[k := v])])"
proof -
  let ?f = "\<lambda>(i, n, bs :: 'v list). (i :: nat, n :: nat)" and ?s = "put s (i + k) v"
  have H: "holds s (set (map ?f H))" "distinct (map ?f H)" "list_all (content s) H"
    using assms(1) by (auto simp: held_ok_def)
  have b: "(i, n, bs) \<in> set H" "(i, n) \<in> set (map ?f H)"
    using assms(2,3) nth_mem [of j H] by (simp_all add: image_iff) force
  have c: "content s (i, n, bs)"
    using H(3) b(1) by (auto simp: list_all_iff)
  then have x: "i + k \<in> slots (i, n)"
    using assms(4) by (auto simp: content_def)
  have m: "map ?f (H[j := (i, n, bs[k := v])]) = map ?f H"
    using assms(2,3) by (simp add: map_update list_update_same_conv)
  have same: "content ?s (H[j := (i, n, bs[k := v])] ! l)" if l: "l < length H" for l
  proof (cases "l = j")
    case True
    have "get ?s (i + q) = bs[k := v] ! q" if "q < length bs" for q
    proof -
      have "i + q \<in> slots (i, n)" "get s (i + q) = bs ! q"
        using c that by (auto simp: content_def)
      then show ?thesis
        using get_put [OF H(1) b(2) x b(2), of "i + q" v] that by (simp add: nth_list_update)
    qed
    then show ?thesis
      using True c assms(2) by (simp add: content_def)
  next
    case False
    obtain i' n' bs' where b': "H ! l = (i', n', bs')" by (cases "H ! l")
    have nth: "map ?f H ! l = (i', n')" "map ?f H ! j = (i, n)"
      using b' assms(2,3) l by simp_all
    then have ne: "(i, n) \<noteq> (i', n')"
      using H(2) False l assms(2) by (metis length_map nth_eq_iff_index_eq)
    have mem: "(i', n') \<in> set (map ?f H)"
      using nth(1) l by (metis length_map nth_mem)
    have "get ?s y = get s y" if "y \<in> slots (i', n')" for y
      using get_put [OF H(1) b(2) x mem that, of v] blocks_apart [OF H(1) b(2) mem ne] x that by auto
    moreover have "content s (i', n', bs')"
      using H(3) b' l by (metis list_all_length)
    ultimately show ?thesis
      using False b' by (simp add: content_same)
  qed
  have "holds ?s (set (map ?f H))"
    using put_block [OF H(1) b(2) x] .
  then show ?thesis
    unfolding held_ok_def m using H(2) same by (simp add: list_all_length)
qed

abbreviation client_run where
  "client_run \<equiv> block_run acquire release get put sz"

lemma held_run:
  assumes "held_ok s H" and "\<forall>r. Alloc r \<in> set ops \<longrightarrow> fits r"
  shows "\<exists>s' H'. client_run ops s (map (\<lambda>(i, n, bs). (i, bs)) H) = Some (s', map (\<lambda>(i, n, bs). (i, bs)) H') \<and> held_ok s' H'"
  using assms
proof (induction ops arbitrary: s H)
  case (Cons op ops)
  let ?g = "\<lambda>(i :: nat, n :: nat, bs :: 'v list). (i, bs)"
  note IH = Cons.IH [OF _, simplified]
  have ops: "\<forall>r. Alloc r \<in> set ops \<longrightarrow> fits r"
    using Cons.prems(2) by simp
  show ?case
  proof (cases op)
    case (Alloc r)
    then have "fits r"
      using Cons.prems(2) by simp
    then obtain i s' n where a: "acquire s r = Some (i, s')" "i = 0 \<Longrightarrow> held_ok s' H"
      "i \<noteq> 0 \<Longrightarrow> held_ok s' ((i, n, map (get s') [i..<i + sz r]) # H)"
      using held_alloc [OF Cons.prems(1)] by blast
    show ?thesis
      using a Alloc ops Cons.IH [of s' H] Cons.IH [of s' "(i, n, map (get s') [i..<i + sz r]) # H"] by (cases "i = 0") auto
  next
    case (Free_nth j)
    show ?thesis
    proof (cases "j < length H")
      case True
      then obtain s' where s': "release s (fst (H ! j)) = Some s'" "held_ok s' (take j H @ drop (Suc j) H)"
        using held_free [OF Cons.prems(1)] by blast
      moreover have "fst (map ?g H ! j) = fst (H ! j)"
        using True by (simp split: prod.split)
      ultimately show ?thesis
        using Free_nth True ops Cons.IH [of s' "take j H @ drop (Suc j) H"] by (simp add: take_map drop_map)
    qed (use Free_nth Cons.IH [OF Cons.prems(1) ops] in simp)
  next
    case (Put j k v)
    show ?thesis
    proof (cases "j < length H \<and> k < length (snd (snd (H ! j)))")
      case True
      obtain i n bs where b: "H ! j = (i, n, bs)" by (cases "H ! j")
      have "held_ok (put s (i + k) v) (H[j := (i, n, bs[k := v])])"
        using held_put [OF Cons.prems(1) _ b] True b by simp
      then show ?thesis
        using Put True b ops Cons.IH [of "put s (i + k) v" "H[j := (i, n, bs[k := v])]"] by (simp add: map_update)
    next
      case False
      then have "\<not> (j < length (map ?g H) \<and> k < length (snd (map ?g H ! j)))"
        by (auto split: prod.splits)
      then show ?thesis
        using Put Cons.IH [OF Cons.prems(1) ops] by (simp only: block_run.simps if_False)
    qed
  qed
qed auto

lemma held_disjoint:
  assumes "holds s (set (map (\<lambda>(i, n, bs). (i, n)) H))" and "distinct (map (\<lambda>(i, n, bs). (i, n)) H)"
    and "list_all (content s) H"
  shows "disjoint_slots (map (\<lambda>(i, bs). (i, length bs)) (map (\<lambda>(i, n, bs). (i, bs)) H))"
proof -
  let ?f = "\<lambda>(i, n, bs :: 'v list). (i :: nat, n :: nat)"
  have apart: "slots (i, length bs) \<inter> slots (j, length cs) = {}"
    if "(i, n, bs) \<in> set H" "(j, m, cs) \<in> set H" "(i, n) \<noteq> (j, m)" for i n bs j m cs
  proof -
    have "slots (i, n) \<inter> slots (j, m) = {}"
      using blocks_apart [OF assms(1), of "(i, n)" "(j, m)"] that by force
    moreover have "length bs \<le> n" "length cs \<le> m"
      using assms(3) that by (auto simp: list_all_iff content_def)
    ultimately show ?thesis
      by (auto simp: disjoint_iff)
  qed
  from assms(2) apart show ?thesis
  proof (induction H)
    case (Cons b H)
    obtain i n bs where b: "b = (i, n, bs)" by (cases b)
    have "slots (i, length bs) \<inter> slots (j, length cs) = {}" if "(j, m, cs) \<in> set H" for j m cs
      using Cons.prems(1) that b by (intro Cons.prems(2) [of i n bs j m cs]) force+
    moreover have "disjoint_slots (map (\<lambda>(i, bs). (i, length bs)) (map (\<lambda>(i, n, bs). (i, bs)) H))"
      using Cons.prems(1) by (intro Cons.IH Cons.prems(2)) auto
    ultimately show ?case
      unfolding b by (auto simp del: slots.simps)
  qed simp
qed

lemma independent_arrays:
  assumes "holds s {}" and "\<forall>r. Alloc r \<in> set ops \<longrightarrow> fits r"
  shows "\<exists>s' held. client_run ops s [] = Some (s', held) \<and>
    disjoint_slots (map (\<lambda>(i, bs). (i, length bs)) held) \<and>
    (\<forall>(i, bs) \<in> set held. i \<noteq> 0 \<and> (\<forall>k < length bs. get s' (i + k) = bs ! k))"
proof -
  have "held_ok s []"
    using assms(1) by (simp add: held_ok_def)
  from held_run [OF this assms(2)] obtain s' H where
    r: "client_run ops s [] = Some (s', map (\<lambda>(i, n, bs). (i, bs)) H)" and ok: "held_ok s' H"
    by auto
  have "i \<noteq> 0 \<and> (\<forall>k < length bs. get s' (i + k) = bs ! k)" if mem: "(i, bs) \<in> set (map (\<lambda>(i, n, bs). (i, bs)) H)" for i bs
  proof -
    obtain n where "(i, n, bs) \<in> set H"
      using mem by (auto simp: image_iff)
    then have "content s' (i, n, bs)"
      using ok by (auto simp: held_ok_def list_all_iff)
    then show ?thesis
      by (simp add: content_def)
  qed
  then show ?thesis
    using r held_disjoint [of s' H] ok unfolding held_ok_def by blast
qed

end

end
