(* ===== verification/Malloc.thy ===== *)
theory Malloc
  imports Palloc Blocks
begin

text \<open>
  \<^verbatim>\<open>threads/malloc.c\<close>: blocks of 16 to 1024 bytes carved out of pages (arenas), one free list per
  size, and bigger blocks as groups of whole pages.  The arena headers are in kernel memory, three
  words at the start of the page, so that a write that leaves its block can destroy them.  A free
  list is the sequence of the addresses of its blocks (theory Klist_Spec shows that the list
  operations implement the operations on sequences); the links inside free blocks are not written.
  The descriptors are an array at a fixed address; a descriptor pointer is an address in it.  The
  descriptor locks are not modelled: an operation is one step.
\<close>

section \<open>State and operations\<close>

record desc =
  block_size :: size_t
  blocks_per_arena :: size_t
  free_list :: "u32 list"

record mstate =
  pages :: pstate
  descs_at :: u32
  descs :: "desc list"

definition ARENA_MAGIC :: u32 where "ARENA_MAGIC = 0x9a548eed"
definition SIZEOF_ARENA :: u32 where "SIZEOF_ARENA = 12"
definition SIZEOF_DESC :: u32 where "SIZEOF_DESC = 48"

abbreviation mem :: "mstate \<Rightarrow> ram" where
  "mem s \<equiv> ram (pages s)"

definition set_mem :: "ram \<Rightarrow> mstate \<Rightarrow> mstate" where
  "set_mem m s = s\<lparr>pages := (pages s)\<lparr>ram := m\<rparr>\<rparr>"

definition arena_magic :: "u32 \<Rightarrow> mstate \<Rightarrow> u32" where
  "arena_magic a s = read32 (mem s) a"

definition arena_desc :: "u32 \<Rightarrow> mstate \<Rightarrow> u32" where
  "arena_desc a s = read32 (mem s) (a + 4)"

definition arena_free_cnt :: "u32 \<Rightarrow> mstate \<Rightarrow> u32" where
  "arena_free_cnt a s = read32 (mem s) (a + 8)"

definition set_free_cnt :: "u32 \<Rightarrow> u32 \<Rightarrow> mstate \<Rightarrow> mstate" where
  "set_free_cnt a v s = set_mem (write32 (mem s) (a + 8) v) s"

definition init_arena :: "u32 \<Rightarrow> u32 \<Rightarrow> u32 \<Rightarrow> mstate \<Rightarrow> mstate" where
  "init_arena a d cnt s = set_mem (write32 (write32 (write32 (mem s) a ARENA_MAGIC) (a + 4) d) (a + 8) cnt) s"

definition desc_ptr :: "mstate \<Rightarrow> nat \<Rightarrow> u32" where
  "desc_ptr s i = descs_at s + SIZEOF_DESC * of_nat i"

definition desc_index :: "mstate \<Rightarrow> u32 \<Rightarrow> nat kernel" where
  "desc_index s d = find (\<lambda>i. desc_ptr s i = d) [0..<length (descs s)]"

definition set_free_list :: "nat \<Rightarrow> u32 list \<Rightarrow> mstate \<Rightarrow> mstate" where
  "set_free_list i bs s = s\<lparr>descs := (descs s)[i := (descs s ! i)\<lparr>free_list := bs\<rparr>]\<rparr>"

partial_function (option) desc_loop :: "size_t \<Rightarrow> desc list \<Rightarrow> desc list kernel" where
  "desc_loop bs ds =
     (if bs < PGSIZE div 2
      then do {
        ASSERT (length ds + 1 \<le> 10);
        desc_loop (bs * 2) (ds @ [\<lparr>block_size = bs, blocks_per_arena = (PGSIZE - SIZEOF_ARENA) div bs, free_list = []\<rparr>])
      }
      else Some ds)"

declare desc_loop.simps [code]

definition malloc_init :: "u32 \<Rightarrow> pstate \<Rightarrow> mstate kernel" where
  "malloc_init at p = do {
     ds \<leftarrow> desc_loop 16 [];
     Some \<lparr>pages = p, descs_at = at, descs = ds\<rparr>
   }"

definition block_to_arena :: "u32 \<Rightarrow> mstate \<Rightarrow> u32 kernel" where
  "block_to_arena b s = do {
     let a = pg_round_down b;
     ASSERT (a \<noteq> 0);
     ASSERT (arena_magic a s = ARENA_MAGIC);
     (if arena_desc a s = 0 then ASSERT (pg_ofs b = SIZEOF_ARENA)
      else do {
        i \<leftarrow> desc_index s (arena_desc a s);
        ASSERT ((pg_ofs b - SIZEOF_ARENA) mod block_size (descs s ! i) = 0)
      });
     Some a
   }"

definition arena_to_block :: "u32 \<Rightarrow> size_t \<Rightarrow> mstate \<Rightarrow> u32 kernel" where
  "arena_to_block a idx s = do {
     ASSERT (a \<noteq> 0);
     ASSERT (arena_magic a s = ARENA_MAGIC);
     i \<leftarrow> desc_index s (arena_desc a s);
     ASSERT (idx < blocks_per_arena (descs s ! i));
     Some (a + SIZEOF_ARENA + idx * block_size (descs s ! i))
   }"

fun push_blocks :: "nat \<Rightarrow> u32 \<Rightarrow> nat \<Rightarrow> nat \<Rightarrow> mstate \<Rightarrow> mstate kernel" where
  "push_blocks d a i 0 s = Some s"
| "push_blocks d a i (Suc n) s = do {
     b \<leftarrow> arena_to_block a (of_nat i) s;
     push_blocks d a (Suc i) n (set_free_list d (free_list (descs s ! d) @ [b]) s)
   }"

fun remove_blocks :: "nat \<Rightarrow> u32 \<Rightarrow> nat \<Rightarrow> nat \<Rightarrow> mstate \<Rightarrow> mstate kernel" where
  "remove_blocks d a i 0 s = Some s"
| "remove_blocks d a i (Suc n) s = do {
     b \<leftarrow> arena_to_block a (of_nat i) s;
     ASSERT (b \<in> set (free_list (descs s ! d)));
     remove_blocks d a (Suc i) n (set_free_list d (remove1 b (free_list (descs s ! d))) s)
   }"

definition big_block :: "size_t \<Rightarrow> mstate \<Rightarrow> (u32 \<times> mstate) kernel" where
  "big_block sz s = do {
     let page_cnt = DIV_ROUND_UP (sz + SIZEOF_ARENA) PGSIZE;
     (a, p) \<leftarrow> palloc_get_multiple 0 page_cnt (pages s);
     let s = s\<lparr>pages := p\<rparr>;
     if a = 0 then Some (0, s)
     else Some (a + SIZEOF_ARENA, init_arena a 0 page_cnt s)
   }"

definition new_arena :: "nat \<Rightarrow> mstate \<Rightarrow> (bool \<times> mstate) kernel" where
  "new_arena d s = do {
     (a, p) \<leftarrow> palloc_get_page 0 (pages s);
     let s = s\<lparr>pages := p\<rparr>;
     if a = 0 then Some (False, s)
     else do {
       let s = init_arena a (desc_ptr s d) (blocks_per_arena (descs s ! d)) s;
       s \<leftarrow> push_blocks d a 0 (unat (blocks_per_arena (descs s ! d))) s;
       Some (True, s)
     }
   }"

definition take_block :: "nat \<Rightarrow> mstate \<Rightarrow> (u32 \<times> mstate) kernel" where
  "take_block d s =
     (case free_list (descs s ! d) of
        [] \<Rightarrow> None
      | b # bs \<Rightarrow> do {
          let s = set_free_list d bs s;
          a \<leftarrow> block_to_arena b s;
          Some (b, set_free_cnt a (arena_free_cnt a s - 1) s)
        })"

definition malloc_bytes :: "size_t \<Rightarrow> mstate \<Rightarrow> (u32 \<times> mstate) kernel" where
  "malloc_bytes sz s =
     (if sz = 0 then Some (0, s)
      else case find (\<lambda>i. sz \<le> block_size (descs s ! i)) [0..<length (descs s)] of
        None \<Rightarrow> big_block sz s
      | Some d \<Rightarrow> do {
          (ok, s) \<leftarrow> (if free_list (descs s ! d) = [] then new_arena d s else Some (True, s));
          if ok then take_block d s else Some (0, s)
        })"

definition calloc_bytes :: "size_t \<Rightarrow> size_t \<Rightarrow> mstate \<Rightarrow> (u32 \<times> mstate) kernel" where
  "calloc_bytes a b s = do {
     let sz = a * b;
     if sz < a \<or> sz < b then Some (0, s)
     else do {
       (p, s) \<leftarrow> malloc_bytes sz s;
       Some (p, if p \<noteq> 0 then set_mem (ram_fill (mem s) p 0 (unat sz)) s else s)
     }
   }"

definition block_bytes :: "u32 \<Rightarrow> mstate \<Rightarrow> size_t kernel" where
  "block_bytes block s = do {
     a \<leftarrow> block_to_arena block s;
     if arena_desc a s \<noteq> 0
     then do { i \<leftarrow> desc_index s (arena_desc a s); Some (block_size (descs s ! i)) }
     else Some (PGSIZE * arena_free_cnt a s - pg_ofs block)
   }"

definition free_small :: "u32 \<Rightarrow> u32 \<Rightarrow> nat \<Rightarrow> mstate \<Rightarrow> mstate kernel" where
  "free_small b a d s = do {
     let s = set_mem (ram_fill (mem s) b 0xcc (unat (block_size (descs s ! d)))) s;
     let s = set_free_list d (b # free_list (descs s ! d)) s;
     let cnt = arena_free_cnt a s + 1;
     let s = set_free_cnt a cnt s;
     let per = blocks_per_arena (descs s ! d);
     if per \<le> cnt
     then do {
       ASSERT (cnt = per);
       s \<leftarrow> remove_blocks d a 0 (unat per) s;
       p \<leftarrow> palloc_free_page a (pages s);
       Some (s\<lparr>pages := p\<rparr>)
     }
     else Some s
   }"

definition free_block :: "u32 \<Rightarrow> mstate \<Rightarrow> mstate kernel" where
  "free_block p s =
     (if p = 0 then Some s
      else do {
        a \<leftarrow> block_to_arena p s;
        if arena_desc a s \<noteq> 0
        then do { d \<leftarrow> desc_index s (arena_desc a s); free_small p a d s }
        else do { pg \<leftarrow> palloc_free_multiple a (arena_free_cnt a s) (pages s); Some (s\<lparr>pages := pg\<rparr>) }
      })"

definition realloc_bytes :: "u32 \<Rightarrow> size_t \<Rightarrow> mstate \<Rightarrow> (u32 \<times> mstate) kernel" where
  "realloc_bytes old_block new_size s =
     (if new_size = 0 then do { s \<leftarrow> free_block old_block s; Some (0, s) }
      else do {
        (new_block, s) \<leftarrow> malloc_bytes new_size s;
        if old_block \<noteq> 0 \<and> new_block \<noteq> 0
        then do {
          old_size \<leftarrow> block_bytes old_block s;
          let min_size = (if new_size < old_size then new_size else old_size);
          s \<leftarrow> free_block old_block (set_mem (ram_copy (mem s) new_block old_block (unat min_size)) s);
          Some (new_block, s)
        }
        else Some (new_block, s)
      })"

section \<open>Arenas\<close>

text \<open>What the pages of the allocator are used for: \<open>A p\<close> is the kind of the arena that starts at page \<open>p\<close>.
  The blocks of an arena are its cells, with address and length.\<close>
datatype arena_kind = Small nat | Big nat

definition bsz :: "nat \<Rightarrow> nat" where "bsz k = 16 * 2 ^ k"
definition bpa :: "nat \<Rightarrow> nat" where "bpa k = 4084 div bsz k"

fun span :: "arena_kind \<Rightarrow> nat" where
  "span (Small k) = 1"
| "span (Big n) = n"

definition block_addr :: "nat \<Rightarrow> nat \<Rightarrow> nat \<Rightarrow> nat" where
  "block_addr p k i = 4096 * p + 12 + i * bsz k"

fun cells :: "nat \<Rightarrow> arena_kind \<Rightarrow> (nat \<times> nat) set" where
  "cells p (Small k) = (\<lambda>i. (block_addr p k i, bsz k)) ` {0..<bpa k}"
| "cells p (Big n) = {(4096 * p + 12, 4096 * n - 12)}"

abbreviation frees :: "mstate \<Rightarrow> nat \<Rightarrow> u32 list" where
  "frees s k \<equiv> free_list (descs s ! k)"

definition free_in :: "mstate \<Rightarrow> nat \<Rightarrow> nat \<Rightarrow> nat" where
  "free_in s p k = length (filter (\<lambda>b. unat b div 4096 = p) (frees s k))"

definition freed :: "mstate \<Rightarrow> nat set" where
  "freed s = (\<Union>k \<in> {0..<7}. unat ` set (frees s k))"

definition descs_ok :: "mstate \<Rightarrow> bool" where
  "descs_ok s \<longleftrightarrow> length (descs s) = 7 \<and> 0 < unat (descs_at s) \<and> unat (descs_at s) + 480 \<le> 2 ^ 32 \<and>
     (\<forall>k < 7. unat (block_size (descs s ! k)) = bsz k \<and> unat (blocks_per_arena (descs s ! k)) = bpa k)"

fun kind_desc :: "mstate \<Rightarrow> arena_kind \<Rightarrow> u32" where
  "kind_desc s (Small k) = desc_ptr s k"
| "kind_desc s (Big n) = 0"

fun kind_cnt :: "mstate \<Rightarrow> nat \<Rightarrow> arena_kind \<Rightarrow> u32" where
  "kind_cnt s p (Small k) = of_nat (free_in s p k)"
| "kind_cnt s p (Big n) = of_nat n"

fun kind_ok :: "arena_kind \<Rightarrow> bool" where
  "kind_ok (Small k) = (k < 7)"
| "kind_ok (Big n) = (0 < n)"

definition arena_ok :: "mstate \<Rightarrow> nat \<Rightarrow> arena_kind \<Rightarrow> bool" where
  "arena_ok s p kd \<longleftrightarrow> kind_ok kd \<and> in_pool (kernel_pool (pages s)) p (span kd) \<and>
     slots (p, span kd) \<subseteq> pages_used (pages s) \<and>
     arena_magic (page_addr p) s = ARENA_MAGIC \<and> arena_desc (page_addr p) s = kind_desc s kd"

definition apart :: "(nat \<rightharpoonup> arena_kind) \<Rightarrow> bool" where
  "apart A \<longleftrightarrow> (\<forall>p q kd kd'. A p = Some kd \<longrightarrow> A q = Some kd' \<longrightarrow> p \<noteq> q \<longrightarrow> slots (p, span kd) \<inter> slots (q, span kd') = {})"

definition free_ok :: "(nat \<rightharpoonup> arena_kind) \<Rightarrow> mstate \<Rightarrow> bool" where
  "free_ok A s \<longleftrightarrow> (\<forall>k < 7. distinct (frees s k) \<and>
     (\<forall>b \<in> set (frees s k). \<exists>p. A p = Some (Small k) \<and> (unat b, bsz k) \<in> cells p (Small k)))"

definition arenas_ok :: "(nat \<rightharpoonup> arena_kind) \<Rightarrow> mstate \<Rightarrow> bool" where
  "arenas_ok A s \<longleftrightarrow> palloc_ok (pages s) \<and> descs_ok s \<and> apart A \<and> free_ok A s \<and> (\<forall>p kd. A p = Some kd \<longrightarrow> arena_ok s p kd)"

definition counts_match :: "(nat \<rightharpoonup> arena_kind) \<Rightarrow> mstate \<Rightarrow> bool" where
  "counts_match A s \<longleftrightarrow> (\<forall>p kd. A p = Some kd \<longrightarrow> arena_free_cnt (page_addr p) s = kind_cnt s p kd)"

definition malloc_ok :: "(nat \<rightharpoonup> arena_kind) \<Rightarrow> mstate \<Rightarrow> bool" where
  "malloc_ok A s \<longleftrightarrow> arenas_ok A s \<and> counts_match A s"

definition live :: "(nat \<rightharpoonup> arena_kind) \<Rightarrow> mstate \<Rightarrow> (nat \<times> nat) set" where
  "live A s = {b. \<exists>p kd. A p = Some kd \<and> b \<in> cells p kd \<and> fst b \<notin> freed s}"

section \<open>Geometry\<close>

lemma bsz_cases: "k < 7 \<Longrightarrow> k = 0 \<or> k = 1 \<or> k = 2 \<or> k = 3 \<or> k = 4 \<or> k = 5 \<or> k = (6 :: nat)"
  by auto

lemma bsz_bounds: "k < 7 \<Longrightarrow> 16 \<le> bsz k \<and> bsz k \<le> 1024 \<and> 4 dvd bsz k"
  by (drule bsz_cases) (elim disjE; simp add: bsz_def)

lemma bpa_bounds: "k < 7 \<Longrightarrow> 0 < bpa k \<and> bpa k \<le> 255"
  by (drule bsz_cases) (elim disjE; simp add: bpa_def bsz_def)

lemma bpa_fits:
  assumes "i < bpa k"
  shows "12 + i * bsz k + bsz k \<le> 4096"
proof -
  have "Suc i * bsz k \<le> bpa k * bsz k"
    using assms by (intro mult_le_mono1) simp
  also have "\<dots> \<le> 4084"
    by (simp add: bpa_def)
  finally show ?thesis
    by simp
qed

lemma page_div: "r < 4096 \<Longrightarrow> (4096 * p + r) div 4096 = (p :: nat) \<and> (4096 * p + r) mod 4096 = r"
  by (simp add: div_add1_eq)

lemma block_addr_page: "i < bpa k \<Longrightarrow> k < 7 \<Longrightarrow> block_addr p k i div 4096 = p \<and> block_addr p k i mod 4096 = 12 + i * bsz k"
  using bpa_fits [of i k] bsz_bounds [of k] page_div [of "12 + i * bsz k" p] by (simp add: block_addr_def add.assoc)

lemma block_addr_inj: "k < 7 \<Longrightarrow> block_addr p k i = block_addr p k j \<longleftrightarrow> i = j"
  using bsz_bounds [of k] by (simp add: block_addr_def)

lemma cells_page: "kind_ok kd \<Longrightarrow> (c, n) \<in> cells p kd \<Longrightarrow> c div 4096 = p"
  by (cases kd) (auto simp: block_addr_page)

lemma cells_range:
  assumes "kind_ok kd" and "(c, n) \<in> cells p kd"
  shows "4096 * p + 12 \<le> c \<and> c + n \<le> 4096 * (p + span kd)"
proof (cases kd)
  case (Small k)
  then obtain i where "i < bpa k" "c = block_addr p k i" "n = bsz k"
    using assms by auto
  then show ?thesis
    using bpa_fits [of i k] Small by (simp add: block_addr_def)
qed (use assms in auto)

lemma cells_len: "kind_ok kd \<Longrightarrow> (c, n) \<in> cells p kd \<Longrightarrow> (c, m) \<in> cells p kd \<Longrightarrow> n = m"
  by (cases kd) auto

lemma blocks_disjoint:
  assumes "i \<noteq> j"
  shows "slots (block_addr p k i, bsz k) \<inter> slots (block_addr p k j, bsz k) = {}"
proof -
  have "i * bsz k + bsz k \<le> j * bsz k \<or> j * bsz k + bsz k \<le> i * bsz k"
    using assms mult_le_mono1 [of "Suc i" j "bsz k"] mult_le_mono1 [of "Suc j" i "bsz k"] by (cases "i < j") auto
  then show ?thesis
    by (auto simp: block_addr_def)
qed

lemma cells_disjoint: "b \<in> cells p kd \<Longrightarrow> c \<in> cells p kd \<Longrightarrow> b \<noteq> c \<Longrightarrow> slots b \<inter> slots c = {}"
  by (cases kd) (auto simp del: slots.simps intro!: blocks_disjoint)

lemma arena_bounds:
  assumes "palloc_ok (pages s)" and "arena_ok s p kd"
  shows "0 < p" and "p + span kd \<le> 2 ^ 20" and "p < 2 ^ 20"
  using in_pool_bound [of "kernel_pool (pages s)" p "span kd"] assms by (auto simp: palloc_ok_def arena_ok_def)

lemma slots_apart:
  assumes "apart A" and "A p = Some kd" and "A q = Some kd'" and "p \<noteq> q"
  shows "p + span kd \<le> q \<or> q + span kd' \<le> p \<or> span kd = 0 \<or> span kd' = 0"
proof -
  have "slots (p, span kd) \<inter> slots (q, span kd') = {}"
    using assms by (auto simp: apart_def)
  then have "max p q \<notin> slots (p, span kd) \<inter> slots (q, span kd')"
    by simp
  then show ?thesis
    using assms(4) by auto
qed

lemma kind_span: "kind_ok kd \<Longrightarrow> 0 < span kd"
  by (cases kd) auto

lemma arena_of:
  assumes "arenas_ok A s" and "A p = Some kd"
  shows "arena_ok s p kd" and "kind_ok kd" and "palloc_ok (pages s)" and "descs_ok s"
    and "0 < p" and "p + span kd \<le> 2 ^ 20" and "p < 2 ^ 20"
  using assms arena_bounds [of s p kd] by (auto simp: arenas_ok_def arena_ok_def)

lemma live_apart:
  assumes "arenas_ok A s" and "b \<in> live A s" and "c \<in> live A s" and "b \<noteq> c"
  shows "slots b \<inter> slots c = {}"
proof -
  obtain p kd where b: "A p = Some kd" "b \<in> cells p kd"
    using assms(2) by (auto simp: live_def)
  obtain q kd' where c: "A q = Some kd'" "c \<in> cells q kd'"
    using assms(3) by (auto simp: live_def)
  show ?thesis
  proof (cases "p = q")
    case True
    then show ?thesis
      using b c assms(4) cells_disjoint [of b p kd c] by simp
  next
    case False
    have "p + span kd \<le> q \<or> q + span kd' \<le> p"
      using slots_apart [OF _ b(1) c(1) False] assms(1) arena_of(2) [OF assms(1)] b(1) c(1) kind_span
      by (fastforce simp: arenas_ok_def)
    then have "4096 * (p + span kd) \<le> 4096 * q \<or> 4096 * (q + span kd') \<le> 4096 * p"
      by auto
    then show ?thesis
      using cells_range [of kd "fst b" "snd b" p] cells_range [of kd' "fst c" "snd c" q] b c
        arena_of(2) [OF assms(1)] by (cases b; cases c) (auto simp: disjoint_iff)
  qed
qed

section \<open>Headers in memory\<close>

lemma unat_in_range:
  fixes a x :: u32
  assumes "unat a + n \<le> 2 ^ 32"
  shows "unat (x - a) < n \<longleftrightarrow> unat a \<le> unat x \<and> unat x < unat a + n"
proof (cases "a \<le> x")
  case True
  then show ?thesis
    by (auto simp: unat_sub word_le_nat_alt)
next
  case False
  then have "unat (x - a) = 2 ^ 32 + unat x - unat a"
    by (simp add: unat_sub_if' word_le_nat_alt)
  then show ?thesis
    using False assms by (auto simp: word_le_nat_alt)
qed

lemma read32_same:
  assumes "unat a + 4 \<le> 2 ^ 32" and "\<forall>x. unat a \<le> unat x \<and> unat x < unat a + 4 \<longrightarrow> m' x = m x"
  shows "read32 m' a = read32 m a"
proof -
  have "m' (a + of_nat i) = m (a + of_nat i)" if "i < 4" for i
  proof -
    have "unat (of_nat i :: u32) = i"
      using that by (intro unat_of_nat_small) simp
    then have "unat (a + of_nat i) = unat a + i"
      using assms(1) that by (subst unat_add_small) simp_all
    then show ?thesis
      using assms(2) that by simp
  qed
  from this [of 0] this [of 1] this [of 2] this [of 3] show ?thesis
    by (simp add: read32_def)
qed

lemma write32_outside:
  "unat a + 4 \<le> 2 ^ 32 \<Longrightarrow> unat x < unat a \<or> unat a + 4 \<le> unat x \<Longrightarrow> write32 m a v x = m x"
  by (auto simp: write32_def unat_in_range)

lemma header_addr:
  assumes "p < 2 ^ 20" and "j < 3"
  shows "unat (page_addr p + 4 * of_nat j) = 4096 * p + 4 * j"
proof -
  have j: "unat (4 * of_nat j :: u32) = 4 * j"
    using assms(2) by (subst unat_mult_small) (simp_all add: unat_of_nat_small)
  show ?thesis
    using assms by (subst unat_add_small) (simp_all add: j unat_page_addr)
qed

lemma header_addrs:
  assumes "p < 2 ^ 20"
  shows "unat (page_addr p) = 4096 * p" and "unat (page_addr p + 4) = 4096 * p + 4" and "unat (page_addr p + 8) = 4096 * p + 8"
  using unat_page_addr [OF assms] header_addr [OF assms, of 1] header_addr [OF assms, of 2] by simp_all

lemma set_mem_simps [simp]:
  "mem (set_mem m s) = m" "descs (set_mem m s) = descs s" "descs_at (set_mem m s) = descs_at s"
  "kernel_pool (pages (set_mem m s)) = kernel_pool (pages s)" "pages_used (pages (set_mem m s)) = pages_used (pages s)"
  "palloc_ok (pages (set_mem m s)) = palloc_ok (pages s)"
  by (simp_all add: set_mem_def)

lemma set_free_list_simps [simp]:
  "pages (set_free_list k bs s) = pages s" "descs_at (set_free_list k bs s) = descs_at s"
  "length (descs (set_free_list k bs s)) = length (descs s)"
  by (simp_all add: set_free_list_def)

lemma set_free_list_desc:
  assumes "k < length (descs s)"
  shows "frees (set_free_list k bs s) j = (if j = k then bs else frees s j)"
    and "block_size (descs (set_free_list k bs s) ! j) = block_size (descs s ! j)"
    and "blocks_per_arena (descs (set_free_list k bs s) ! j) = blocks_per_arena (descs s ! j)"
  using assms by (auto simp: set_free_list_def nth_list_update)

lemma set_free_cnt_simps [simp]:
  "descs (set_free_cnt a v s) = descs s" "descs_at (set_free_cnt a v s) = descs_at s"
  "kernel_pool (pages (set_free_cnt a v s)) = kernel_pool (pages s)" "pages_used (pages (set_free_cnt a v s)) = pages_used (pages s)"
  "palloc_ok (pages (set_free_cnt a v s)) = palloc_ok (pages s)"
  by (simp_all add: set_free_cnt_def)

lemma set_free_cnt_mem:
  assumes "p < 2 ^ 20"
  shows "unat x < 4096 * p + 8 \<or> 4096 * p + 12 \<le> unat x \<Longrightarrow> mem (set_free_cnt (page_addr p) v s) x = mem s x"
    and "arena_free_cnt (page_addr p) (set_free_cnt (page_addr p) v s) = v"
proof -
  note u = header_addrs [OF assms]
  show "unat x < 4096 * p + 8 \<or> 4096 * p + 12 \<le> unat x \<Longrightarrow> mem (set_free_cnt (page_addr p) v s) x = mem s x"
    using u assms write32_outside [of "page_addr p + 8" x "mem s" v] by (simp add: set_free_cnt_def add.commute)
  have "4 dvd 4096 * p + 8"
    by (intro dvd_add dvd_mult2) simp_all
  then show "arena_free_cnt (page_addr p) (set_free_cnt (page_addr p) v s) = v"
    using u by (simp add: set_free_cnt_def arena_free_cnt_def read32_write32)
qed

lemma header_same:
  assumes "p < 2 ^ 20" and "\<forall>x. 4096 * p \<le> unat x \<and> unat x < 4096 * p + 8 \<longrightarrow> mem s' x = mem s x"
  shows "arena_magic (page_addr p) s' = arena_magic (page_addr p) s" and "arena_desc (page_addr p) s' = arena_desc (page_addr p) s"
  unfolding arena_magic_def arena_desc_def using assms header_addrs [OF assms(1)] by (intro read32_same; simp)+

lemma free_cnt_same:
  assumes "p < 2 ^ 20" and "\<forall>x. 4096 * p + 8 \<le> unat x \<and> unat x < 4096 * p + 12 \<longrightarrow> mem s' x = mem s x"
  shows "arena_free_cnt (page_addr p) s' = arena_free_cnt (page_addr p) s"
  unfolding arena_free_cnt_def using assms header_addrs [OF assms(1)] by (intro read32_same; simp)

lemma kind_desc_same: "descs_at s' = descs_at s \<Longrightarrow> kind_desc s' kd = kind_desc s kd"
  by (cases kd) (simp_all add: desc_ptr_def)

lemma arena_ok_same:
  assumes "arena_ok s p kd" and "p < 2 ^ 20" and "\<forall>x. 4096 * p \<le> unat x \<and> unat x < 4096 * p + 8 \<longrightarrow> mem s' x = mem s x"
    and "descs_at s' = descs_at s" and "in_pool (kernel_pool (pages s')) = in_pool (kernel_pool (pages s))"
    and "slots (p, span kd) \<subseteq> pages_used (pages s')"
  shows "arena_ok s' p kd"
  using assms(1,5,6) unfolding arena_ok_def header_same [OF assms(2,3)] kind_desc_same [OF assms(4)] by simp

section \<open>Blocks and their arenas\<close>

lemma unat_desc_ptr:
  assumes "descs_ok s" and "k < 10"
  shows "unat (desc_ptr s k) = unat (descs_at s) + 48 * k"
proof -
  have k: "unat (SIZEOF_DESC * of_nat k) = 48 * k"
    using assms(2) by (subst unat_mult_small) (simp_all add: SIZEOF_DESC_def unat_of_nat_small)
  then show ?thesis
    unfolding desc_ptr_def using assms by (subst unat_add_small) (simp_all add: descs_ok_def k)
qed

lemma desc_index_ptr:
  assumes "descs_ok s" and "k < 7"
  shows "desc_index s (desc_ptr s k) = Some k" and "desc_ptr s k \<noteq> 0"
proof -
  have inj: "desc_ptr s i = desc_ptr s k \<longleftrightarrow> i = k" if "i < 7" for i
    using unat_desc_ptr [OF assms(1), of i] unat_desc_ptr [OF assms(1), of k] that assms(2) by (auto simp: word_unat_eq_iff)
  show "desc_index s (desc_ptr s k) = Some k"
    unfolding desc_index_def find_Some_iff using assms inj by (intro exI [of _ k]) (auto simp: descs_ok_def)
  show "desc_ptr s k \<noteq> 0"
    using unat_desc_ptr [OF assms(1), of k] assms by (auto simp: descs_ok_def)
qed

lemma unat_cell:
  assumes "arenas_ok A s" and "A p = Some kd" and "(c, n) \<in> cells p kd"
  shows "unat (of_nat c :: u32) = c" and "of_nat c \<noteq> (0 :: u32)"
proof -
  have "c + n \<le> 4096 * (p + span kd)" "4096 * p + 12 \<le> c" "c div 4096 = p"
    using cells_range [OF arena_of(2) [OF assms(1,2)] assms(3)] cells_page [OF arena_of(2) [OF assms(1,2)] assms(3)] by auto
  moreover have "p < 2 ^ 20"
    using arena_of(7) [OF assms(1,2)] .
  ultimately have "c < 2 ^ 32"
    using div_less_iff_less_mult [of 4096 c "2 ^ 20"] by simp
  then show u: "unat (of_nat c :: u32) = c"
    by (intro unat_of_nat_small) simp
  show "of_nat c \<noteq> (0 :: u32)"
    using u \<open>4096 * p + 12 \<le> c\<close> by (metis add_leD2 not_numeral_le_zero unat_0)
qed

lemma block_to_arena_cell:
  assumes "arena_ok s p kd" and "palloc_ok (pages s)" and "descs_ok s" and "unat b = c" and "(c, n) \<in> cells p kd"
  shows "block_to_arena b s = Some (page_addr p)"
proof -
  note bd = arena_bounds [OF assms(2,1)]
  have kd: "kind_ok kd" and h: "arena_magic (page_addr p) s = ARENA_MAGIC" "arena_desc (page_addr p) s = kind_desc s kd"
    using assms(1) by (auto simp: arena_ok_def)
  have "unat (pg_round_down b) = unat (page_addr p)"
    using cells_page [OF kd assms(5)] assms(4) header_addrs(1) [OF bd(3)] by (simp add: pg_round_down_def unat_round_down)
  then have a: "pg_round_down b = page_addr p"
    by (simp add: word_unat_eq_iff)
  have z: "page_addr p \<noteq> 0"
    using header_addrs(1) [OF bd(3)] bd(1) by (metis mult_is_0 not_gr_zero unat_0 zero_neq_numeral)
  show ?thesis
  proof (cases kd)
    case (Small k)
    then obtain i where i: "i < bpa k" "k < 7" "c = block_addr p k i"
      using assms(5) kd by auto
    then have "unat (pg_ofs b) = 12 + i * bsz k"
      using block_addr_page [of i k p] assms(4) by (simp add: unat_pg_ofs)
    then have "unat (pg_ofs b - SIZEOF_ARENA) = i * bsz k"
      by (subst unat_sub) (simp_all add: SIZEOF_ARENA_def word_le_nat_alt)
    then have "unat ((pg_ofs b - SIZEOF_ARENA) mod block_size (descs s ! k)) = 0"
      using assms(3) i(2) by (simp add: unat_mod descs_ok_def)
    then have "(pg_ofs b - SIZEOF_ARENA) mod block_size (descs s ! k) = 0"
      by (simp add: unat_eq_zero)
    then show ?thesis
      using a z h Small desc_index_ptr [OF assms(3) i(2)] by (simp add: block_to_arena_def)
  next
    case (Big m)
    then have "unat (pg_ofs b) = unat SIZEOF_ARENA"
      using assms(4,5) page_div [of 12 p] by (simp add: unat_pg_ofs SIZEOF_ARENA_def)
    then have "pg_ofs b = SIZEOF_ARENA"
      by (simp add: word_unat_eq_iff)
    then show ?thesis
      using a z h Big by (simp add: block_to_arena_def)
  qed
qed

lemma arena_to_block_cell:
  assumes "arena_ok s p (Small k)" and "palloc_ok (pages s)" and "descs_ok s" and "i < bpa k"
  shows "arena_to_block (page_addr p) (of_nat i) s = Some (of_nat (block_addr p k i))"
proof -
  note bd = arena_bounds [OF assms(2,1)]
  have k: "k < 7" and h: "arena_magic (page_addr p) s = ARENA_MAGIC" "arena_desc (page_addr p) s = desc_ptr s k"
    using assms(1) by (auto simp: arena_ok_def)
  have d: "unat (block_size (descs s ! k)) = bsz k" "unat (blocks_per_arena (descs s ! k)) = bpa k"
    using assms(3) k by (auto simp: descs_ok_def)
  have ui: "unat (of_nat i :: u32) = i"
    using assms(4) bpa_bounds [OF k] by (intro unat_of_nat_small) simp
  have z: "page_addr p \<noteq> 0"
    using header_addrs(1) [OF bd(3)] bd(1) by (metis mult_is_0 not_gr_zero unat_0 zero_neq_numeral)
  have "unat (of_nat (bsz k) :: u32) = bsz k"
    using bsz_bounds [OF k] by (intro unat_of_nat_small) simp
  then have "block_size (descs s ! k) = of_nat (bsz k)"
    by (simp add: word_unat_eq_iff d(1))
  then have "page_addr p + SIZEOF_ARENA + of_nat i * block_size (descs s ! k) = of_nat (block_addr p k i)"
    by (simp add: page_addr_def SIZEOF_ARENA_def block_addr_def)
  then show ?thesis
    using z h desc_index_ptr(1) [OF assms(3) k] assms(4) ui d(2) by (simp add: arena_to_block_def word_less_nat_alt)
qed

section \<open>Free lists\<close>

lemma frees_unique:
  assumes "arenas_ok A s" and "b \<in> set (frees s k)" and "k < 7"
  obtains p where "A p = Some (Small k)" and "(unat b, bsz k) \<in> cells p (Small k)" and "unat b div 4096 = p"
    and "\<And>j. j < 7 \<Longrightarrow> b \<in> set (frees s j) \<Longrightarrow> j = k"
proof -
  have page: "\<exists>p. A p = Some (Small j) \<and> (unat b, bsz j) \<in> cells p (Small j) \<and> unat b div 4096 = p"
    if j: "j < 7" "b \<in> set (frees s j)" for j
  proof -
    obtain p where "A p = Some (Small j)" "(unat b, bsz j) \<in> cells p (Small j)"
      using j assms(1) unfolding arenas_ok_def free_ok_def by blast
    then show ?thesis
      using cells_page [of "Small j" "unat b" "bsz j" p] j(1) by auto
  qed
  show thesis
    using page [OF assms(3,2)] page that by (metis arena_kind.inject(1) option.inject)
qed

lemma descs_ok_set_free_list [simp]: "k < 7 \<Longrightarrow> descs_ok (set_free_list k bs s) = descs_ok s"
  by (cases "length (descs s) = 7") (auto simp: descs_ok_def set_free_list_desc)

lemma descs_ok_same: "descs s' = descs s \<Longrightarrow> descs_at s' = descs_at s \<Longrightarrow> descs_ok s' = descs_ok s"
  by (simp add: descs_ok_def)

lemma descs_ok_simps [simp]: "descs_ok (set_mem m s) = descs_ok s" "descs_ok (set_free_cnt a v s) = descs_ok s"
  by (simp_all add: descs_ok_def)

lemma freed_same: "descs s' = descs s \<Longrightarrow> freed s' = freed s"
  by (simp add: freed_def)

lemma free_ok_same: "descs s' = descs s \<Longrightarrow> free_ok A s' = free_ok A s"
  by (simp add: free_ok_def)

lemma free_in_same: "descs s' = descs s \<Longrightarrow> free_in s' p k = free_in s p k"
  by (simp add: free_in_def)

lemma freed_set_free_list:
  assumes "length (descs s) = 7" and "k < 7"
  shows "freed (set_free_list k bs s) = unat ` set bs \<union> (\<Union>j \<in> {0..<7} - {k}. unat ` set (frees s j))"
    and "freed s = unat ` set (frees s k) \<union> (\<Union>j \<in> {0..<7} - {k}. unat ` set (frees s j))"
  using assms by (auto simp: freed_def set_free_list_desc split: if_splits)

text \<open>Taking the header count down or up goes with a change of one free list.\<close>
lemma recount:
  assumes ok: "malloc_ok A s" and k: "k < 7" and p: "A p = Some (Small k)"
    and bs: "distinct bs" "\<And>b. b \<in> set bs \<Longrightarrow> \<exists>p. A p = Some (Small k) \<and> (unat b, bsz k) \<in> cells p (Small k)"
    and others: "\<And>q. q \<noteq> p \<Longrightarrow> filter (\<lambda>b. unat b div 4096 = q) bs = filter (\<lambda>b. unat b div 4096 = q) (frees s k)"
    and v: "v = of_nat (length (filter (\<lambda>b. unat b div 4096 = p) bs))"
    and m: "\<And>q x. A q \<noteq> None \<Longrightarrow> 4096 * q \<le> unat x \<and> unat x < 4096 * q + 12 \<Longrightarrow> m x = mem s x"
  shows "malloc_ok A (set_free_cnt (page_addr p) v (set_free_list k bs (set_mem m s)))" (is "malloc_ok A ?s")
proof -
  have ar: "arenas_ok A s" and ct: "counts_match A s"
    using ok by (auto simp: malloc_ok_def)
  have len: "length (descs s) = 7"
    using ar by (simp add: arenas_ok_def descs_ok_def)
  let ?s1 = "set_free_list k bs (set_mem m s)"
  have pb: "p < 2 ^ 20"
    using arena_of(7) [OF ar p] .
  have fr: "frees ?s j = (if j = k then bs else frees s j)" for j
    using set_free_list_desc(1) [of k "set_mem m s" bs j] len k by simp
  then have fr1: "frees ?s1 j = (if j = k then bs else frees s j)" for j
    by simp
  have hdr: "mem ?s x = mem s x" if "A q = Some kd" "4096 * q \<le> unat x \<and> unat x < 4096 * q + 12" "q = p \<longrightarrow> unat x < 4096 * q + 8" for q kd x
  proof -
    have "unat x < 4096 * p + 8 \<or> 4096 * p + 12 \<le> unat x"
      using that(2,3) by (cases "q = p"; cases "q < p") auto
    then have "mem ?s x = mem ?s1 x"
      by (rule set_free_cnt_mem(1) [OF pb])
    then show ?thesis
      using m [of q x] that by simp
  qed
  have "arena_ok ?s q kd" if q: "A q = Some kd" for q kd
  proof (rule arena_ok_same [OF arena_of(1) [OF ar q] arena_of(7) [OF ar q]])
    show "slots (q, span kd) \<subseteq> pages_used (pages ?s)"
      using arena_of(1) [OF ar q] by (simp add: arena_ok_def)
  qed (use hdr [OF q] in auto)
  moreover have "free_ok A ?s"
    using ar bs unfolding free_ok_def fr arenas_ok_def by simp
  ultimately have "arenas_ok A ?s"
    using ar k by (simp add: arenas_ok_def)
  moreover have "arena_free_cnt (page_addr q) ?s = kind_cnt ?s q kd" if q: "A q = Some kd" for q kd
  proof (cases "q = p")
    case True
    then have "kd = Small k"
      using p q by simp
    then show ?thesis
      using True v set_free_cnt_mem(2) [OF pb] fr [of k] by (simp add: free_in_def)
  next
    case False
    have "arena_free_cnt (page_addr q) ?s = arena_free_cnt (page_addr q) s"
      using hdr [OF q] False by (intro free_cnt_same [OF arena_of(7) [OF ar q]]) auto
    then show ?thesis
      using ct q others [OF False] by (cases kd) (auto simp: counts_match_def free_in_def fr1)
  qed
  ultimately show ?thesis
    by (simp add: malloc_ok_def counts_match_def)
qed

lemma live_header:
  assumes "arenas_ok A s" and "A q = Some kd" and "4096 * q \<le> x" and "x < 4096 * q + 12"
  shows "x \<notin> \<Union> (slots ` live A s)"
proof
  assume "x \<in> \<Union> (slots ` live A s)"
  then obtain c n p kd' where b: "x \<in> slots (c, n)" "A p = Some kd'" "(c, n) \<in> cells p kd'"
    by (auto simp: live_def simp del: slots.simps)
  have r: "4096 * p + 12 \<le> c" "c + n \<le> 4096 * (p + span kd')"
    using cells_range [OF arena_of(2) [OF assms(1) b(2)] b(3)] by auto
  then have "p \<noteq> q"
    using b(1) assms(3,4) by auto
  then have "p + span kd' \<le> q \<or> q + span kd \<le> p"
    using slots_apart [OF _ b(2) assms(2)] assms(1) kind_span [OF arena_of(2) [OF assms(1) b(2)]]
      kind_span [OF arena_of(2) [OF assms(1,2)]] by (auto simp: arenas_ok_def)
  then have "4096 * (p + span kd') \<le> 4096 * q \<or> 4096 * q + 4096 \<le> 4096 * p"
    using kind_span [OF arena_of(2) [OF assms(1,2)]] by auto
  then show False
    using b(1) r assms(3,4) by auto
qed

lemma take_block_spec:
  assumes ok: "malloc_ok A s" and k: "k < 7" and fl: "frees s k = b # bs"
  obtains s' where "take_block k s = Some (b, s')" and "malloc_ok A s'" and "b \<noteq> 0" and "(unat b, bsz k) \<notin> live A s"
    and "live A s' = insert (unat b, bsz k) (live A s)"
    and "\<And>x. unat x \<in> \<Union> (slots ` live A s) \<Longrightarrow> mem s' x = mem s x"
proof -
  have ar: "arenas_ok A s" and ct: "counts_match A s"
    using ok by (auto simp: malloc_ok_def)
  have len: "length (descs s) = 7"
    using ar by (simp add: arenas_ok_def descs_ok_def)
  obtain p where p: "A p = Some (Small k)" "(unat b, bsz k) \<in> cells p (Small k)" "unat b div 4096 = p"
    and only: "\<And>j. j < 7 \<Longrightarrow> b \<in> set (frees s j) \<Longrightarrow> j = k"
    using frees_unique [OF ar _ k, of b] fl by auto
  note pa = arena_of [OF ar p(1)]
  let ?s1 = "set_free_list k bs s"
  let ?v = "arena_free_cnt (page_addr p) ?s1 - 1"
  let ?s2 = "set_free_cnt (page_addr p) ?v ?s1"
  have same: "set_mem (mem s) s = s"
    by (simp add: set_mem_def)
  have "arena_ok ?s1 p (Small k)"
    using pa(1) by (intro arena_ok_same [OF pa(1,7)]) (auto simp: arena_ok_def)
  then have arena: "block_to_arena b ?s1 = Some (page_addr p)"
    using block_to_arena_cell [OF _ _ _ refl p(2)] pa(3,4) k by simp
  have dist: "distinct (b # bs)" and inl: "\<And>c. c \<in> set (b # bs) \<Longrightarrow> \<exists>p. A p = Some (Small k) \<and> (unat c, bsz k) \<in> cells p (Small k)"
    using ar k fl unfolding arenas_ok_def free_ok_def by auto
  have "arena_free_cnt (page_addr p) s = of_nat (free_in s p k)"
    using ct p(1) by (auto simp: counts_match_def)
  then have v: "?v = of_nat (length (filter (\<lambda>b. unat b div 4096 = p) bs))"
    using fl p(3) by (simp add: arena_free_cnt_def free_in_def)
  have "malloc_ok A (set_free_cnt (page_addr p) ?v (set_free_list k bs (set_mem (mem s) s)))"
    using dist inl v fl p(3) by (intro recount [OF ok k p(1)]) auto
  then have ok': "malloc_ok A ?s2"
    unfolding same .
  have frd: "freed ?s2 = freed s - {unat b}"
  proof -
    have "unat b \<notin> unat ` set bs"
      using dist by (auto simp: word_unat_eq_iff [symmetric])
    moreover have "unat b \<notin> unat ` set (frees s j)" if "j \<in> {0..<7} - {k}" for j
      using only [of j] that by (auto simp: word_unat_eq_iff [symmetric])
    ultimately show ?thesis
      unfolding freed_same [OF set_free_cnt_simps(1)] freed_set_free_list(1) [OF len k] freed_set_free_list(2) [OF len k] fl
      by auto
  qed
  have bf: "unat b \<in> freed s"
    using freed_set_free_list(2) [OF len k] fl by simp
  have "live A ?s2 = insert (unat b, bsz k) (live A s)"
  proof (intro equalityI subsetI)
    fix c assume "c \<in> live A ?s2"
    then obtain q kd where c: "A q = Some kd" "c \<in> cells q kd" "fst c \<notin> freed s - {unat b}"
      by (auto simp: live_def frd)
    show "c \<in> insert (unat b, bsz k) (live A s)"
    proof (cases "fst c = unat b")
      case True
      then have "q = p"
        using cells_page [OF arena_of(2) [OF ar c(1)], of "unat b" "snd c" q] c(2) p(3) by (metis prod.collapse)
      then have "snd c = bsz k"
        using c(1,2) p(1) by auto
      then show ?thesis
        using True by (metis insertI1 prod.collapse)
    qed (use c in \<open>auto simp: live_def\<close>)
  next
    fix c assume "c \<in> insert (unat b, bsz k) (live A s)"
    then show "c \<in> live A ?s2"
    proof
      assume "c = (unat b, bsz k)"
      then have "A p = Some (Small k) \<and> c \<in> cells p (Small k) \<and> fst c \<notin> freed s - {unat b}"
        using p(1,2) by simp
      then show ?thesis
        unfolding live_def frd by blast
    qed (auto simp: live_def frd)
  qed
  moreover have "mem ?s2 x = mem s x" if "unat x \<in> \<Union> (slots ` live A s)" for x
  proof -
    have "\<not> (4096 * p \<le> unat x \<and> unat x < 4096 * p + 12)"
      using live_header [OF ar p(1)] that by blast
    then have "unat x < 4096 * p + 8 \<or> 4096 * p + 12 \<le> unat x"
      by linarith
    then show ?thesis
      by (simp only: set_free_cnt_mem(1) [OF pa(7)] set_free_list_simps)
  qed
  moreover have "take_block k s = Some (b, ?s2)"
    by (simp add: take_block_def fl arena Let_def)
  moreover have "b \<noteq> 0"
    using cells_range [OF _ p(2)] k by auto
  moreover have "(unat b, bsz k) \<notin> live A s"
    using bf by (auto simp: live_def)
  ultimately show thesis
    using ok' by (intro that)
qed

section \<open>New arenas\<close>

lemma set_free_list_twice [simp]:
  "set_free_list k bs (set_free_list k cs s) = set_free_list k bs s"
  by (cases "k < length (descs s)") (simp_all add: set_free_list_def list_update_beyond)

lemma set_free_list_id [simp]: "set_free_list k (frees s k) s = s"
proof -
  have "(descs s ! k)\<lparr>free_list := frees s k\<rparr> = descs s ! k"
    by (cases "descs s ! k") simp
  then show ?thesis
    by (simp add: set_free_list_def)
qed

lemma arena_ok_set_free_list [simp]: "arena_ok (set_free_list k bs s) p kd = arena_ok s p kd"
  unfolding arena_ok_def arena_magic_def arena_desc_def kind_desc_same [OF set_free_list_simps(2)] by simp

definition arena_blocks :: "nat \<Rightarrow> nat \<Rightarrow> nat \<Rightarrow> nat \<Rightarrow> u32 list" where
  "arena_blocks p k i n = map (\<lambda>i. of_nat (block_addr p k i)) [i..<i + n]"

lemma arena_blocks_Suc: "arena_blocks p k i (Suc n) = of_nat (block_addr p k i) # arena_blocks p k (Suc i) n"
  by (simp add: arena_blocks_def upt_conv_Cons del: upt_Suc)

lemma push_blocks_spec:
  assumes "arena_ok s p (Small k)" and "palloc_ok (pages s)" and "descs_ok s" and "i + n \<le> bpa k"
  shows "push_blocks k (page_addr p) i n s = Some (set_free_list k (frees s k @ arena_blocks p k i n) s)"
  using assms
proof (induction n arbitrary: i s)
  case 0
  then show ?case
    by (simp add: arena_blocks_def)
next
  case (Suc n)
  have k: "k < 7" "length (descs s) = 7"
    using Suc.prems by (auto simp: arena_ok_def descs_ok_def)
  have b: "arena_to_block (page_addr p) (of_nat i) s = Some (of_nat (block_addr p k i))"
    using Suc.prems by (intro arena_to_block_cell) auto
  let ?s = "set_free_list k (frees s k @ [of_nat (block_addr p k i)]) s"
  have "push_blocks k (page_addr p) (Suc i) n ?s = Some (set_free_list k (frees ?s k @ arena_blocks p k (Suc i) n) ?s)"
    using Suc.prems k by (intro Suc.IH) auto
  then show ?case
    using b k by (simp add: set_free_list_desc arena_blocks_Suc)
qed

lemma kernel_get:
  assumes "palloc_ok s" and "n \<noteq> 0"
  shows "palloc_get_multiple 0 n s = Some (0, s) \<or>
    (\<exists>p s'. palloc_get_multiple 0 n s = Some (page_addr p, s') \<and> page_addr p \<noteq> 0 \<and> in_pool (kernel_pool s) p (unat n) \<and>
       palloc_ok s' \<and> slots (p, unat n) \<inter> pages_used s = {} \<and> pages_used s' = pages_used s \<union> slots (p, unat n) \<and>
       ram s' = ram s \<and> in_pool (kernel_pool s') = in_pool (kernel_pool s))"
proof -
  from assms show ?thesis
  proof (cases rule: palloc_get_cases [of s n 0])
    case full
    then show ?thesis
      by simp
  next
    case (pages a b i)
    have flags: "(0 :: u32) AND PAL_USER \<noteq> 0 \<longleftrightarrow> False" "(0 :: u32) AND PAL_ZERO \<noteq> 0 \<longleftrightarrow> False"
      by simp_all
    note pg = pages [unfolded flags if_False]
    let ?p = "get_pool False s" and ?s = "set_map False b s"
    have ins: "in_pool ?p (first_page ?p + i) (unat n)"
      using pg(5) assms(2) by (simp add: in_pool_def unat_gt_0)
    have bd: "first_page ?p + i < 2 ^ 20"
      using in_pool_bound [OF palloc_ok_pool [OF assms(1)] ins] by simp
    have a: "a = page_addr (first_page ?p + i)"
      using pg(4) unat_page_addr [OF bd] by (simp add: word_unat_eq_iff)
    have "pages_used ?s = pages_used s \<union> slots (first_page ?p + i, unat n)"
      by (rule pages_used_grow) (rule pg(7))
    moreover have "slots (first_page ?p + i, unat n) \<inter> pages_used s = {}"
      using pool_get_fresh [OF assms(1) ins] pg(6) by simp
    moreover have "ram ?s = ram s" "in_pool (kernel_pool ?s) = in_pool (kernel_pool s)"
      using pg(3) by (auto simp: fun_eq_iff set_map_def get_pool_def in_pool_def first_page_def pool_size_def)
    ultimately show ?thesis
      using pg(1,8) a ins palloc_ok_set_map(1) [OF assms(1) pg(2,3)]
      by (intro disjI2 exI [of _ "first_page ?p + i"] exI [of _ "?s\<lparr>ram := ram s\<rparr>"]) (auto simp: get_pool_def simp del: slots.simps)
  qed
qed

lemma init_arena_simps [simp]:
  "descs (init_arena a d c s) = descs s" "descs_at (init_arena a d c s) = descs_at s"
  "kernel_pool (pages (init_arena a d c s)) = kernel_pool (pages s)" "pages_used (pages (init_arena a d c s)) = pages_used (pages s)"
  "palloc_ok (pages (init_arena a d c s)) = palloc_ok (pages s)"
  by (simp_all add: init_arena_def)

lemma init_arena_mem:
  assumes "p < 2 ^ 20"
  shows "unat x < 4096 * p \<or> 4096 * p + 12 \<le> unat x \<Longrightarrow> mem (init_arena (page_addr p) d c s) x = mem s x"
    and "arena_magic (page_addr p) (init_arena (page_addr p) d c s) = ARENA_MAGIC"
    and "arena_desc (page_addr p) (init_arena (page_addr p) d c s) = d"
    and "arena_free_cnt (page_addr p) (init_arena (page_addr p) d c s) = c"
proof -
  note u = header_addrs [OF assms]
  let ?a = "page_addr p"
  have al: "4 dvd unat ?a" "4 dvd unat (?a + 4)" "4 dvd unat (?a + 8)"
    unfolding u by (intro dvd_add dvd_mult2; simp)+
  have ne: "?a \<noteq> ?a + 4" "?a \<noteq> ?a + 8" "?a + 4 \<noteq> ?a + 8"
    by simp_all
  show "arena_magic ?a (init_arena ?a d c s) = ARENA_MAGIC" "arena_desc ?a (init_arena ?a d c s) = d"
    "arena_free_cnt ?a (init_arena ?a d c s) = c"
    by (simp_all add: arena_magic_def arena_desc_def arena_free_cnt_def init_arena_def read32_write32 al)
  assume x: "unat x < 4096 * p \<or> 4096 * p + 12 \<le> unat x"
  have "write32 (write32 (write32 (mem s) ?a ARENA_MAGIC) (?a + 4) d) (?a + 8) c x = mem s x"
    using x u assms by (subst write32_outside; auto)+
  then show "mem (init_arena ?a d c s) x = mem s x"
    by (simp add: init_arena_def)
qed

lemma add_arena:
  fixes c :: u32
  assumes ok: "malloc_ok A s" and kd: "kind_ok kd" "in_pool (kernel_pool (pages s)) p (span kd)"
    and P: "palloc_ok P" "slots (p, span kd) \<inter> pages_used (pages s) = {}" "pages_used P = pages_used (pages s) \<union> slots (p, span kd)"
      "ram P = mem s" "in_pool (kernel_pool P) = in_pool (kernel_pool (pages s))"
  defines "s1 \<equiv> init_arena (page_addr p) (kind_desc s kd) c (s\<lparr>pages := P\<rparr>)"
  shows "A p = None" and "arenas_ok (A(p \<mapsto> kd)) s1"
    and "\<And>q kd'. A q = Some kd' \<Longrightarrow> arena_free_cnt (page_addr q) s1 = kind_cnt s q kd'"
    and "arena_free_cnt (page_addr p) s1 = c"
    and "\<And>x. unat x \<in> \<Union> (slots ` live A s) \<Longrightarrow> mem s1 x = mem s x"
    and "p < 2 ^ 20"
proof -
  have ar: "arenas_ok A s" and ct: "counts_match A s"
    using ok by (auto simp: malloc_ok_def)
  have fresh: "slots (p, span kd) \<inter> slots (q, span kd') = {}" if "A q = Some kd'" for q kd'
    using arena_of(1) [OF ar that] P(2) by (auto simp: arena_ok_def simp del: slots.simps)
  have sp: "0 < span kd"
    using kind_span [OF kd(1)] .
  show none: "A p = None"
  proof (rule ccontr)
    assume "A p \<noteq> None"
    then obtain kd' where "A p = Some kd'" by auto
    then show False
      using fresh [of p kd'] sp kind_span [OF arena_of(2) [OF ar, of p kd']] by auto
  qed
  show pb: "p < 2 ^ 20"
    using in_pool_bound [OF _ kd(2)] ar by (simp add: arenas_ok_def palloc_ok_def)
  have far: "mem s1 x = mem s x" if "unat x < 4096 * p \<or> 4096 * p + 12 \<le> unat x" for x
    unfolding s1_def using init_arena_mem(1) [OF pb that] P(4) by simp
  have hdr: "mem s1 x = mem s x" if "A q = Some kd'" "4096 * q \<le> unat x \<and> unat x < 4096 * q + 12" for q kd' x
  proof -
    have "q \<noteq> p"
      using that(1) none by auto
    then show ?thesis
      using that(2) by (intro far) (cases "q < p"; auto)
  qed
  have new: "arena_ok s1 p kd"
    using kd P init_arena_mem(2,3) [OF pb] kind_desc_same [of s1 s kd] unfolding arena_ok_def s1_def by simp
  have old: "arena_ok s1 q kd'" if "A q = Some kd'" for q kd'
  proof (rule arena_ok_same [OF arena_of(1) [OF ar that] arena_of(7) [OF ar that]])
    show "slots (q, span kd') \<subseteq> pages_used (pages s1)"
      using arena_of(1) [OF ar that] P(3) by (auto simp: s1_def arena_ok_def simp del: slots.simps)
  qed (use hdr [OF that] P(5) in \<open>simp_all add: s1_def\<close>)
  have "apart (A(p \<mapsto> kd))"
    using ar fresh unfolding apart_def arenas_ok_def by (auto simp del: slots.simps)
  moreover have "free_ok (A(p \<mapsto> kd)) s1"
    using ar none unfolding free_ok_def arenas_ok_def s1_def by (simp, metis option.discI)
  moreover have "descs_ok s1"
    using ar by (simp add: arenas_ok_def descs_ok_def s1_def)
  ultimately show "arenas_ok (A(p \<mapsto> kd)) s1"
    using new old P(1) by (simp add: arenas_ok_def s1_def)
  show "arena_free_cnt (page_addr q) s1 = kind_cnt s q kd'" if "A q = Some kd'" for q kd'
    using free_cnt_same [OF arena_of(7) [OF ar that], of s1 s] hdr [OF that] ct that by (simp add: counts_match_def)
  show "arena_free_cnt (page_addr p) s1 = c"
    unfolding s1_def by (rule init_arena_mem(4) [OF pb])
  show "mem s1 x = mem s x" if "unat x \<in> \<Union> (slots ` live A s)" for x
  proof -
    have "p \<in> slots (p, span kd)"
      using sp by simp
    then have "p \<notin> pages_used (pages s)"
      using P(2) by blast
    obtain b where "b \<in> live A s" "unat x \<in> slots b"
      using \<open>unat x \<in> _\<close> by blast
    then obtain q kd' n cc where q: "A q = Some kd'" "(cc, n) \<in> cells q kd'" "unat x \<in> slots (cc, n)"
      by (cases b) (auto simp: live_def simp del: slots.simps)
    have r: "4096 * q + 12 \<le> cc" "cc + n \<le> 4096 * (q + span kd')"
      using cells_range [OF arena_of(2) [OF ar q(1)] q(2)] by auto
    have "unat x div 4096 \<in> slots (q, span kd')"
      using q(3) r by (auto simp: div_less_iff_less_mult less_eq_div_iff_mult_less_eq)
    then have "unat x div 4096 \<noteq> p"
      using arena_of(1) [OF ar q(1)] \<open>p \<notin> _\<close> by (auto simp: arena_ok_def)
    then have "\<not> (4096 * p \<le> unat x \<and> unat x < 4096 * p + 12)"
      by (auto intro: div_nat_eqI)
    then show ?thesis
      by (intro far) linarith
  qed
qed

lemma arena_blocks_props:
  assumes "p < 2 ^ 20" and "k < 7"
  shows "unat ` set (arena_blocks p k 0 (bpa k)) = fst ` cells p (Small k)" and "distinct (arena_blocks p k 0 (bpa k))"
    and "\<And>b. b \<in> set (arena_blocks p k 0 (bpa k)) \<Longrightarrow> (unat b, bsz k) \<in> cells p (Small k) \<and> unat b div 4096 = p"
    and "length (arena_blocks p k 0 (bpa k)) = bpa k"
proof -
  have u: "unat (of_nat (block_addr p k i) :: u32) = block_addr p k i" if "i < bpa k" for i
  proof -
    have "block_addr p k i div 4096 = p"
      using block_addr_page [OF that assms(2)] by simp
    then have "block_addr p k i < 2 ^ 32"
      using assms(1) div_less_iff_less_mult [of 4096 "block_addr p k i" "2 ^ 20"] by simp
    then show ?thesis
      by (intro unat_of_nat_small) simp
  qed
  then show "unat ` set (arena_blocks p k 0 (bpa k)) = fst ` cells p (Small k)"
    by (force simp: arena_blocks_def image_iff)
  have "inj_on (\<lambda>i. of_nat (block_addr p k i) :: u32) {0..<bpa k}"
    using u block_addr_inj [OF assms(2)] by (metis (no_types, lifting) atLeastLessThan_iff inj_onI)
  then show "distinct (arena_blocks p k 0 (bpa k))"
    by (simp add: arena_blocks_def distinct_map)
  show "(unat b, bsz k) \<in> cells p (Small k) \<and> unat b div 4096 = p" if "b \<in> set (arena_blocks p k 0 (bpa k))" for b
    using that u block_addr_page [of _ k p] assms(2) by (auto simp: arena_blocks_def)
  show "length (arena_blocks p k 0 (bpa k)) = bpa k"
    by (simp add: arena_blocks_def)
qed

lemma freed_page:
  assumes "arenas_ok A s" and "c \<in> freed s"
  obtains k where "A (c div 4096) = Some (Small k)"
proof -
  obtain k b where "k < 7" "b \<in> set (frees s k)" "c = unat b"
    using assms(2) by (auto simp: freed_def)
  then show thesis
    using frees_unique [OF assms(1), of b k] that by metis
qed

lemma live_page:
  assumes "arenas_ok A s" and "b \<in> live A s"
  shows "A (fst b div 4096) \<noteq> None"
  using assms cells_page [OF arena_of(2) [OF assms(1)]] by (cases b) (auto simp: live_def)

lemma ex_map_upd: "A p = None \<Longrightarrow> (\<exists>q v. (A(p \<mapsto> w)) q = Some v \<and> Q q v) \<longleftrightarrow> Q p w \<or> (\<exists>q v. A q = Some v \<and> Q q v)"
  by (metis fun_upd_apply option.distinct(1) option.inject)

lemma live_add: "A p = None \<Longrightarrow> live (A(p \<mapsto> kd)) s = {b \<in> cells p kd. fst b \<notin> freed s} \<union> live A s"
  unfolding live_def by (subst ex_map_upd) blast+

lemma new_arena_spec:
  assumes ok: "malloc_ok A s" and k: "k < 7"
  shows "new_arena k s = Some (False, s) \<or>
    (\<exists>p s'. new_arena k s = Some (True, s') \<and> malloc_ok (A(p \<mapsto> Small k)) s' \<and> live (A(p \<mapsto> Small k)) s' = live A s \<and>
       frees s' k \<noteq> [] \<and> (\<forall>x. unat x \<in> \<Union> (slots ` live A s) \<longrightarrow> mem s' x = mem s x))"
proof -
  have ar: "arenas_ok A s" and ct: "counts_match A s"
    using ok by (auto simp: malloc_ok_def)
  have P0: "palloc_ok (pages s)" and d: "descs_ok s" and len: "length (descs s) = 7"
    using ar by (auto simp: arenas_ok_def descs_ok_def)
  have per: "unat (blocks_per_arena (descs s ! k)) = bpa k"
    using d k by (simp add: descs_ok_def)
  consider "palloc_get_multiple 0 1 (pages s) = Some (0, pages s)"
    | p P where "palloc_get_multiple 0 1 (pages s) = Some (page_addr p, P)" "page_addr p \<noteq> 0"
      "in_pool (kernel_pool (pages s)) p 1" "palloc_ok P" "slots (p, 1) \<inter> pages_used (pages s) = {}"
      "pages_used P = pages_used (pages s) \<union> slots (p, 1)" "ram P = mem s" "in_pool (kernel_pool P) = in_pool (kernel_pool (pages s))"
    using kernel_get [OF P0, of 1] by auto
  then show ?thesis
  proof cases
    case 1
    then show ?thesis
      by (simp add: new_arena_def palloc_get_page_def)
  next
    case (2 p P)
    let ?c = "blocks_per_arena (descs s ! k)" and ?B = "arena_blocks p k 0 (bpa k)" and ?A = "A(p \<mapsto> Small k)"
    let ?s1 = "init_arena (page_addr p) (desc_ptr s k) ?c (s\<lparr>pages := P\<rparr>)"
    let ?s2 = "set_free_list k (frees s k @ ?B) ?s1"
    note add = add_arena(1,6) [where A = A and s = s and kd = "Small k" and p = p and P = P,
          unfolded span.simps kind_ok.simps, OF ok k 2(3-8)]
        add_arena(2-5) [where A = A and s = s and kd = "Small k" and p = p and P = P and c = ?c,
          unfolded kind_desc.simps span.simps kind_ok.simps, OF ok k 2(3-8)]
    have none: "A p = None" and ar1: "arenas_ok ?A ?s1" and pb: "p < 2 ^ 20"
      and cnt: "\<And>q kd'. A q = Some kd' \<Longrightarrow> arena_free_cnt (page_addr q) ?s1 = kind_cnt s q kd'"
        "arena_free_cnt (page_addr p) ?s1 = ?c"
      and frame: "\<And>x. unat x \<in> \<Union> (slots ` live A s) \<Longrightarrow> mem ?s1 x = mem s x"
      using add by auto
    note B = arena_blocks_props [OF pb k]
    have old: "unat b div 4096 \<noteq> p" if "b \<in> set (frees s j)" "j < 7" for b j
      using frees_unique [OF ar that] none by (metis option.discI)
    have fr: "frees ?s2 j = (if j = k then frees s k @ ?B else frees s j)" for j
      using set_free_list_desc(1) [of k ?s1 _ j] len k by simp
    have "distinct (frees s k)"
      using ar k by (simp add: arenas_ok_def free_ok_def)
    then have dist: "distinct (frees s k @ ?B)"
      using B(2,3) old [OF _ k] by auto
    have fo: "free_ok ?A ?s2"
      unfolding free_ok_def fr
    proof (intro allI impI conjI ballI)
      fix j assume j: "j < (7 :: nat)"
      show "distinct (if j = k then frees s k @ ?B else frees s j)"
        using dist ar j by (simp add: arenas_ok_def free_ok_def)
      fix b assume b: "b \<in> set (if j = k then frees s k @ ?B else frees s j)"
      show "\<exists>q. ?A q = Some (Small j) \<and> (unat b, bsz j) \<in> cells q (Small j)"
      proof (cases "b \<in> set (frees s j)")
        case True
        then show ?thesis
          using frees_unique [OF ar True j] none by (metis fun_upd_other option.discI)
      next
        case False
        then have "j = k" "b \<in> set ?B"
          using b by (auto split: if_splits)
        then show ?thesis
          using B(3) [of b] by (intro exI [of _ p]) simp
      qed
    qed
    have ar2: "arenas_ok ?A ?s2"
      using ar1 fo k unfolding arenas_ok_def by simp
    have none_p: "filter (\<lambda>b. unat b div 4096 = p) (frees s k) = []"
      using old [OF _ k] by (auto simp: filter_empty_conv)
    have all_p: "filter (\<lambda>b. unat b div 4096 = p) ?B = ?B" "filter (\<lambda>b. unat b div 4096 = q) ?B = []" if "q \<noteq> p" for q
      using B(3) that by (auto simp: filter_id_conv filter_empty_conv)
    have "counts_match ?A ?s2"
      unfolding counts_match_def
    proof (intro allI impI)
      fix q kd assume q: "?A q = Some kd"
      have c2: "arena_free_cnt (page_addr q) ?s2 = arena_free_cnt (page_addr q) ?s1"
        by (simp add: arena_free_cnt_def)
      show "arena_free_cnt (page_addr q) ?s2 = kind_cnt ?s2 q kd"
      proof (cases "q = p")
        case True
        then have "kind_cnt ?s2 q kd = of_nat (bpa k)"
          using q none_p all_p(1) [of "Suc p"] B(4) fr [of k] by (auto simp: free_in_def)
        then show ?thesis
          using c2 cnt(2) True per by (metis word_unat_eq_iff unat_of_nat_small unat_bound32 of_nat_unat word_nat_cases)
      next
        case False
        have "free_in ?s2 q j = free_in s q j" for j
          using all_p(2) [OF False] fr [of j] by (simp add: free_in_def)
        then have "kind_cnt ?s2 q kd = kind_cnt s q kd"
          by (cases kd) simp_all
        then show ?thesis
          using c2 cnt(1) [of q kd] q False by simp
      qed
    qed
    moreover have "live ?A ?s2 = live A s"
    proof -
      have frd: "freed ?s2 = freed s \<union> fst ` cells p (Small k)"
        unfolding freed_set_free_list(2) [OF len k] using len B(1)
        by (subst freed_set_free_list(1) [OF _ k]) (simp_all add: image_Un Un_ac del: cells.simps)
      have "fst b \<notin> fst ` cells p (Small k)" if "A q = Some kd" "b \<in> cells q kd" for q kd b
        using cells_page [OF arena_of(2) [OF ar that(1)], of "fst b" "snd b" q] cells_page [of "Small k" _ _ p] that none k
        by (metis (no_types, lifting) imageE kind_ok.simps(1) option.discI prod.collapse)
      then have "live A ?s2 = live A s"
        unfolding live_def frd by blast
      then show ?thesis
        unfolding live_add [of A p, OF none] frd by blast
    qed
    moreover have "new_arena k s = Some (True, ?s2)"
    proof -
      have "push_blocks k (page_addr p) 0 (bpa k) ?s1 = Some ?s2"
        using push_blocks_spec [of ?s1 p k 0 "bpa k"] arena_of [OF ar1, of p "Small k"] by simp
      then show ?thesis
        using 2(1,2) per by (simp add: new_arena_def palloc_get_page_def Let_def desc_ptr_def)
    qed
    moreover have "frees ?s2 k \<noteq> []"
      using fr [of k] B(4) bpa_bounds [OF k] by auto
    moreover have "mem ?s2 x = mem s x" if "unat x \<in> \<Union> (slots ` live A s)" for x
      using frame [OF that] by simp
    ultimately show ?thesis
      using ar2 unfolding malloc_ok_def by blast
  qed
qed

lemma big_block_spec:
  fixes sz :: size_t
  defines "n \<equiv> unat (DIV_ROUND_UP (sz + SIZEOF_ARENA) PGSIZE)"
  assumes ok: "malloc_ok A s" and pos: "0 < n"
  shows "big_block sz s = Some (0, s) \<or>
    (\<exists>p s'. big_block sz s = Some (of_nat (4096 * p + 12), s') \<and> unat (of_nat (4096 * p + 12) :: u32) = 4096 * p + 12 \<and>
       malloc_ok (A(p \<mapsto> Big n)) s' \<and> (4096 * p + 12, 4096 * n - 12) \<notin> live A s \<and>
       live (A(p \<mapsto> Big n)) s' = insert (4096 * p + 12, 4096 * n - 12) (live A s) \<and>
       (\<forall>x. unat x \<in> \<Union> (slots ` live A s) \<longrightarrow> mem s' x = mem s x))"
proof -
  have ar: "arenas_ok A s" and ct: "counts_match A s"
    using ok by (auto simp: malloc_ok_def)
  have P0: "palloc_ok (pages s)"
    using ar by (auto simp: arenas_ok_def)
  let ?n = "DIV_ROUND_UP (sz + SIZEOF_ARENA) PGSIZE"
  have nz: "?n \<noteq> 0"
    using pos unfolding n_def by (metis less_numeral_extra(3) unat_0)
  from kernel_get [OF P0 nz, folded n_def] show ?thesis
  proof (elim disjE exE conjE)
    assume "palloc_get_multiple 0 ?n (pages s) = Some (0, pages s)"
    then show ?thesis
      by (simp add: big_block_def Let_def)
  next
    fix p P
    assume g: "palloc_get_multiple 0 ?n (pages s) = Some (page_addr p, P)" "page_addr p \<noteq> 0"
      and P: "in_pool (kernel_pool (pages s)) p (n)" "palloc_ok P" "slots (p, n) \<inter> pages_used (pages s) = {}"
        "pages_used P = pages_used (pages s) \<union> slots (p, n)" "ram P = mem s"
        "in_pool (kernel_pool P) = in_pool (kernel_pool (pages s))"
    let ?A = "A(p \<mapsto> Big (n))" and ?b = "(4096 * p + 12, 4096 * n - 12)"
    let ?s1 = "init_arena (page_addr p) 0 ?n (s\<lparr>pages := P\<rparr>)"
    note add = add_arena(1,6) [where A = A and s = s and kd = "Big (n)" and p = p and P = P,
          unfolded span.simps kind_ok.simps, OF ok pos P]
        add_arena(2-5) [where A = A and s = s and kd = "Big (n)" and p = p and P = P and c = ?n,
          unfolded kind_desc.simps span.simps kind_ok.simps, OF ok pos P]
    have kc: "kind_cnt ?s1 q kd = kind_cnt s q kd" for q kd
      by (cases kd) (simp_all add: free_in_def)
    have "counts_match ?A ?s1"
      unfolding counts_match_def kc using add(4,5) by (simp add: n_def word_unat_eq_iff)
    then have ok1: "malloc_ok ?A ?s1"
      using add(3) by (simp add: malloc_ok_def)
    have frd: "freed ?s1 = freed s"
      by (rule freed_same) simp
    have "4096 * p + 12 \<notin> freed s"
    proof
      assume "4096 * p + 12 \<in> freed s"
      then show False
        using page_div [of 12 p] add(1) by (auto elim!: freed_page [OF ar])
    qed
    then have "live ?A ?s1 = insert ?b (live A s)"
      unfolding live_add [of A p, OF add(1)] frd by (auto simp: live_def frd)
    moreover have "?b \<notin> live A s"
      using live_page [OF ar, of ?b] add(1) page_div [of 12 p] by auto
    moreover have "unat (of_nat (4096 * p + 12) :: u32) = 4096 * p + 12"
      using add(2) by (intro unat_of_nat_small) simp
    moreover have "big_block sz s = Some (of_nat (4096 * p + 12), ?s1)"
      using g by (simp add: big_block_def Let_def page_addr_def SIZEOF_ARENA_def)
    ultimately show ?thesis
      using ok1 add(6) by (intro disjI2 exI [of _ p] exI [of _ ?s1]) simp
  qed
qed

lemma big_block_pages:
  assumes "unat sz + 12 + 4096 \<le> 2 ^ 32"
  shows "unat sz \<le> 4096 * unat (DIV_ROUND_UP (sz + SIZEOF_ARENA) PGSIZE) - 12" and "0 < unat (DIV_ROUND_UP (sz + SIZEOF_ARENA) PGSIZE)"
proof -
  have sz: "unat (sz + SIZEOF_ARENA) = unat sz + 12"
    using assms by (subst unat_add_small) (simp_all add: SIZEOF_ARENA_def)
  have n: "unat (DIV_ROUND_UP (sz + SIZEOF_ARENA) PGSIZE) = (unat sz + 12 + 4095) div 4096"
    using assms by (subst unat_DIV_ROUND_UP) (simp_all add: sz page_consts)
  have "unat sz + 12 \<le> 4096 * ((unat sz + 12 + 4095) div 4096)"
    by linarith
  then show "unat sz \<le> 4096 * unat (DIV_ROUND_UP (sz + SIZEOF_ARENA) PGSIZE) - 12"
    unfolding n by linarith
  show "0 < unat (DIV_ROUND_UP (sz + SIZEOF_ARENA) PGSIZE)"
    unfolding n by (simp add: div_greater_zero_iff)
qed

text \<open>What one call of \<^verbatim>\<open>malloc\<close> does.\<close>
lemma malloc_spec:
  assumes ok: "malloc_ok A s" and sz: "sz \<noteq> 0" and big: "unat sz + 12 + 4096 \<le> 2 ^ 32"
  shows "\<exists>b s' A'. malloc_bytes sz s = Some (b, s') \<and> malloc_ok A' s' \<and>
    (\<forall>x. unat x \<in> \<Union> (slots ` live A s) \<longrightarrow> mem s' x = mem s x) \<and>
    (if b = 0 then live A' s' = live A s
     else \<exists>n \<ge> unat sz. (unat b, n) \<notin> live A s \<and> live A' s' = insert (unat b, n) (live A s))"
proof -
  have d: "descs_ok s" and len: "length (descs s) = 7"
    using ok by (auto simp: malloc_ok_def arenas_ok_def descs_ok_def)
  show ?thesis
  proof (cases "find (\<lambda>i. sz \<le> block_size (descs s ! i)) [0..<length (descs s)]")
    case None
    then have m: "malloc_bytes sz s = big_block sz s"
      using sz by (simp add: malloc_bytes_def)
    show ?thesis
      unfolding m using big_block_spec [OF ok big_block_pages(2) [OF big]]
    proof (elim disjE exE conjE)
      fix p s'
      let ?n = "unat (DIV_ROUND_UP (sz + SIZEOF_ARENA) PGSIZE)"
      assume "big_block sz s = Some (of_nat (4096 * p + 12), s')" "unat (of_nat (4096 * p + 12) :: u32) = 4096 * p + 12"
        "malloc_ok (A(p \<mapsto> Big ?n)) s'" "(4096 * p + 12, 4096 * ?n - 12) \<notin> live A s"
        "live (A(p \<mapsto> Big ?n)) s' = insert (4096 * p + 12, 4096 * ?n - 12) (live A s)"
        "\<forall>x. unat x \<in> \<Union> (slots ` live A s) \<longrightarrow> mem s' x = mem s x"
      moreover have "unat sz \<le> 4096 * ?n - 12"
        by (rule big_block_pages(1) [OF big])
      moreover from calculation(2) have "of_nat (4096 * p + 12) \<noteq> (0 :: u32)"
        by (metis add_is_0 unat_0 zero_neq_numeral)
      ultimately show "\<exists>b s' A'. big_block sz s = Some (b, s') \<and> malloc_ok A' s' \<and>
          (\<forall>x. unat x \<in> \<Union> (slots ` live A s) \<longrightarrow> mem s' x = mem s x) \<and>
          (if b = 0 then live A' s' = live A s
           else \<exists>n \<ge> unat sz. (unat b, n) \<notin> live A s \<and> live A' s' = insert (unat b, n) (live A s))"
        by (intro exI [of _ "of_nat (4096 * p + 12)"] exI [of _ s'] exI [of _ "A(p \<mapsto> Big ?n)"]) (simp only: if_False simp_thms, blast)
    qed (use ok in auto)
  next
    case (Some k)
    then have k: "k < 7" and fit: "unat sz \<le> bsz k"
      using d len by (auto simp: find_Some_iff descs_ok_def word_le_nat_alt)
    have m: "malloc_bytes sz s = do {
        (ok, s) \<leftarrow> (if frees s k = [] then new_arena k s else Some (True, s));
        if ok then take_block k s else Some (0, s) }"
      using sz Some by (simp add: malloc_bytes_def)
    have take: ?thesis if t: "malloc_bytes sz s = take_block k s1" "malloc_ok A1 s1" "live A1 s1 = live A s" "frees s1 k \<noteq> []"
      "\<forall>x. unat x \<in> \<Union> (slots ` live A s) \<longrightarrow> mem s1 x = mem s x" for A1 s1
    proof -
      obtain b bs where "frees s1 k = b # bs"
        using t(4) by (cases "frees s1 k") auto
      from take_block_spec [OF t(2) k this] obtain s' where s': "take_block k s1 = Some (b, s')" "malloc_ok A1 s'" "b \<noteq> 0"
        "(unat b, bsz k) \<notin> live A1 s1" "live A1 s' = insert (unat b, bsz k) (live A1 s1)"
        "\<And>x. unat x \<in> \<Union> (slots ` live A1 s1) \<Longrightarrow> mem s' x = mem s1 x"
        by blast
      then show ?thesis
        using t(1,3,5) fit by (intro exI [of _ b] exI [of _ s'] exI [of _ A1]) auto
    qed
    show ?thesis
    proof (cases "frees s k = []")
      case False
      then show ?thesis
        using ok m by (intro take [of s A]) auto
    next
      case True
      from new_arena_spec [OF ok k] show ?thesis
      proof (elim disjE exE conjE)
        assume "new_arena k s = Some (False, s)"
        then show ?thesis
          using m True ok by auto
      next
        fix p s1
        assume "new_arena k s = Some (True, s1)" "malloc_ok (A(p \<mapsto> Small k)) s1" "live (A(p \<mapsto> Small k)) s1 = live A s"
          "frees s1 k \<noteq> []" "\<forall>x. unat x \<in> \<Union> (slots ` live A s) \<longrightarrow> mem s1 x = mem s x"
        then show ?thesis
          using m True by (intro take [of s1 "A(p \<mapsto> Small k)"]) simp_all
      qed
    qed
  qed
qed

section \<open>Releasing blocks\<close>

lemma kernel_free:
  assumes "palloc_ok s" and "in_pool (kernel_pool s) p n" and "slots (p, n) \<subseteq> pages_used s"
  obtains s' where "palloc_free_multiple (page_addr p) (of_nat n) s = Some s'" and "palloc_ok s'"
    and "pages_used s' = pages_used s - slots (p, n)" and "in_pool (kernel_pool s') = in_pool (kernel_pool s)"
    and "ram s' = ram_fill (ram s) (page_addr p) 0xcc (4096 * n)"
proof -
  have "pages_inside s p n"
    using assms(2) by (simp add: pages_inside_def)
  from page_slots.release_used [OF assms(1) this assms(3)] obtain s' where
    r: "palloc_free_multiple (page_addr p) (of_nat n) s = Some s'" "palloc_ok s'" "pages_used s' = pages_used s - slots (p, n)"
    by (auto simp: palloc_release_def simp del: slots.simps)
  have "in_pool (get_pool False s) p n"
    using assms(2) by (simp add: get_pool_def)
  from palloc_free_spec [OF assms(1) this assms(3)] obtain b where
    b: "palloc_free_multiple (page_addr p) (of_nat n) s = Some ((set_map False b s)\<lparr>ram := ram_fill (ram s) (page_addr p) 0xcc (4096 * n)\<rparr>)"
      "bit_cnt b = bit_cnt (used_map (get_pool False s))"
    by blast
  then have "in_pool (kernel_pool s') = in_pool (kernel_pool s)" "ram s' = ram_fill (ram s) (page_addr p) 0xcc (4096 * n)"
    using r(1) by (auto simp: fun_eq_iff set_map_def get_pool_def in_pool_def first_page_def pool_size_def)
  then show thesis
    using r that by blast
qed

lemma remove_blocks_spec:
  assumes "arena_ok s p (Small k)" and "palloc_ok (pages s)" and "descs_ok s" and "i + n \<le> bpa k"
    and "distinct (frees s k)" and "set (arena_blocks p k i n) \<subseteq> set (frees s k)" and "distinct (arena_blocks p k i n)"
  shows "remove_blocks k (page_addr p) i n s
    = Some (set_free_list k (filter (\<lambda>b. b \<notin> set (arena_blocks p k i n)) (frees s k)) s)"
  using assms
proof (induction n arbitrary: i s)
  case 0
  then show ?case
    by (simp add: arena_blocks_def)
next
  case (Suc n)
  have k: "k < 7" "length (descs s) = 7"
    using Suc.prems by (auto simp: arena_ok_def descs_ok_def)
  let ?b = "of_nat (block_addr p k i) :: u32"
  have b: "arena_to_block (page_addr p) (of_nat i) s = Some ?b"
    using Suc.prems by (intro arena_to_block_cell) auto
  have rm: "remove1 ?b (frees s k) = filter (\<lambda>b. b \<noteq> ?b) (frees s k)"
    using Suc.prems(5) by (simp add: distinct_remove1_removeAll removeAll_filter_not_eq) (metis (mono_tags, lifting))
  let ?s = "set_free_list k (remove1 ?b (frees s k)) s"
  have fr: "frees ?s k = filter (\<lambda>b. b \<noteq> ?b) (frees s k)"
    using k rm by (simp add: set_free_list_desc)
  have "remove_blocks k (page_addr p) (Suc i) n ?s
      = Some (set_free_list k (filter (\<lambda>b. b \<notin> set (arena_blocks p k (Suc i) n)) (frees ?s k)) ?s)"
    using Suc.prems k unfolding arena_blocks_Suc by (intro Suc.IH) (auto simp: fr)
  moreover have "filter (\<lambda>b. b \<notin> set (arena_blocks p k (Suc i) n)) (frees ?s k)
      = filter (\<lambda>b. b \<notin> set (arena_blocks p k i (Suc n))) (frees s k)"
    unfolding fr arena_blocks_Suc filter_filter by (rule filter_cong) auto
  moreover have "?b \<in> set (frees s k)"
    using Suc.prems(6) by (simp add: arena_blocks_Suc)
  ultimately show ?case
    using b by simp
qed

lemma poison_outside:
  assumes "p + n \<le> 2 ^ 20" and "unat x div 4096 \<notin> slots (p, n)"
  shows "ram_fill m (page_addr p) v (4096 * n) x = m x"
proof (cases "n = 0")
  case False
  then have a: "unat (page_addr p) = 4096 * p"
    using assms(1) by (intro unat_page_addr) simp
  have "\<not> unat (x - page_addr p) < 4096 * n"
    using assms ram_fill_pages [OF a assms(1), of x] by (auto simp: unat_pg_no)
  then show ?thesis
    by (simp add: ram_fill_def)
qed (simp add: ram_fill_def)

text \<open>An arena without blocks in use and without free blocks is given back.\<close>
lemma drop_arena:
  assumes ar: "arenas_ok A s" and p: "A p = Some kd"
    and ct: "\<forall>q kd'. A q = Some kd' \<longrightarrow> q \<noteq> p \<longrightarrow> arena_free_cnt (page_addr q) s = kind_cnt s q kd'"
    and none: "\<forall>j < 7. \<forall>b \<in> set (frees s j). unat b div 4096 \<noteq> p"
  shows "\<exists>P. palloc_free_multiple (page_addr p) (of_nat (span kd)) (pages s) = Some P \<and>
    malloc_ok (A(p := None)) (s\<lparr>pages := P\<rparr>) \<and>
    live (A(p := None)) (s\<lparr>pages := P\<rparr>) = {b \<in> live A s. fst b div 4096 \<noteq> p} \<and>
    (\<forall>x. unat x \<in> \<Union> (slots ` {b \<in> live A s. fst b div 4096 \<noteq> p}) \<longrightarrow> ram P x = mem s x)"
proof -
  note pa = arena_of [OF ar p]
  have ao: "in_pool (kernel_pool (pages s)) p (span kd)" "slots (p, span kd) \<subseteq> pages_used (pages s)"
    using pa(1) by (auto simp: arena_ok_def simp del: slots.simps)
  obtain P where P: "palloc_free_multiple (page_addr p) (of_nat (span kd)) (pages s) = Some P" "palloc_ok P"
    "pages_used P = pages_used (pages s) - slots (p, span kd)" "in_pool (kernel_pool P) = in_pool (kernel_pool (pages s))"
    "ram P = ram_fill (mem s) (page_addr p) 0xcc (4096 * span kd)"
    using kernel_free [OF pa(3) ao] by blast
  let ?s = "s\<lparr>pages := P\<rparr>" and ?A = "A(p := None)"
  have far: "slots (q, span kd') \<inter> slots (p, span kd) = {}" if "A q = Some kd'" "q \<noteq> p" for q kd'
    using ar that p by (simp add: arenas_ok_def apart_def)
  have keep: "ram P x = mem s x" if "A q = Some kd'" "q \<noteq> p" "unat x div 4096 \<in> slots (q, span kd')" for q kd' x
    unfolding P(5) using far [OF that(1,2)] that(3) pa(6) by (intro poison_outside) auto
  have hdr: "ram P x = mem s x" if "A q = Some kd'" "q \<noteq> p" "4096 * q \<le> unat x \<and> unat x < 4096 * q + 12" for q kd' x
  proof (rule keep [OF that(1,2)])
    have "unat x div 4096 = q"
      using that(3) by (intro div_nat_eqI) auto
    then show "unat x div 4096 \<in> slots (q, span kd')"
      using kind_span [OF arena_of(2) [OF ar that(1)]] by simp
  qed
  have "arena_ok ?s q kd'" if q: "A q = Some kd'" "q \<noteq> p" for q kd'
  proof (rule arena_ok_same [OF arena_of(1) [OF ar q(1)] arena_of(7) [OF ar q(1)]])
    show "slots (q, span kd') \<subseteq> pages_used (pages ?s)"
      using arena_of(1) [OF ar q(1)] far [OF q] P(3) by (auto simp: arena_ok_def simp del: slots.simps)
  qed (use hdr [OF q] P(4) in auto)
  moreover have "free_ok ?A ?s"
    unfolding free_ok_def
  proof (intro allI impI conjI ballI)
    fix j assume j: "j < (7 :: nat)"
    show "distinct (frees ?s j)"
      using ar j by (simp add: arenas_ok_def free_ok_def)
    fix b assume b: "b \<in> set (frees ?s j)"
    then have "unat b div 4096 \<noteq> p"
      using none j by simp
    moreover have "b \<in> set (frees s j)"
      using b by simp
    then obtain q where "A q = Some (Small j)" "(unat b, bsz j) \<in> cells q (Small j)" "unat b div 4096 = q"
      by (rule frees_unique [OF ar _ j])
    ultimately show "\<exists>q. ?A q = Some (Small j) \<and> (unat b, bsz j) \<in> cells q (Small j)"
      by (intro exI [of _ q]) simp
  qed
  moreover have "descs_ok ?s" "apart ?A"
    using ar by (auto simp: arenas_ok_def descs_ok_def apart_def)
  ultimately have "arenas_ok ?A ?s"
    using P(2) by (simp add: arenas_ok_def)
  moreover have "counts_match ?A ?s"
    unfolding counts_match_def
  proof (intro allI impI)
    fix q kd' assume "?A q = Some kd'"
    then have q: "A q = Some kd'" "q \<noteq> p"
      by (auto split: if_splits)
    have "arena_free_cnt (page_addr q) ?s = arena_free_cnt (page_addr q) s"
      using hdr [OF q] by (intro free_cnt_same [OF arena_of(7) [OF ar q(1)]]) auto
    then show "arena_free_cnt (page_addr q) ?s = kind_cnt ?s q kd'"
      using ct [rule_format, OF q] by (cases kd') (simp_all add: free_in_def)
  qed
  ultimately have ok: "malloc_ok ?A ?s"
    by (simp add: malloc_ok_def)
  have pg: "fst b div 4096 = q" if "A q = Some kd'" "b \<in> cells q kd'" for q kd' b
    using cells_page [OF arena_of(2) [OF ar that(1)], of "fst b" "snd b"] that(2) by simp
  have frd: "freed ?s = freed s"
    by (rule freed_same) simp
  have lv: "live ?A ?s = {b \<in> live A s. fst b div 4096 \<noteq> p}"
    unfolding live_def frd using pg by (auto split: if_splits)
  have fin: "ram P x = mem s x" if x: "unat x \<in> \<Union> (slots ` {b \<in> live A s. fst b div 4096 \<noteq> p})" for x
  proof -
    obtain c n q kd' where q: "A q = Some kd'" "(c, n) \<in> cells q kd'" "unat x \<in> slots (c, n)" "c div 4096 \<noteq> p"
      using x by (auto simp: live_def simp del: slots.simps)
    have "q \<noteq> p"
      using pg [OF q(1,2)] q(4) by auto
    moreover have "unat x div 4096 \<in> slots (q, span kd')"
      using cells_range [OF arena_of(2) [OF ar q(1)] q(2)] q(3)
      by (auto simp: div_less_iff_less_mult less_eq_div_iff_mult_less_eq)
    ultimately show ?thesis
      using keep [OF q(1)] by blast
  qed
  show ?thesis
    using P(1) ok lv fin by blast
qed

lemma live_cell:
  assumes "arenas_ok A s" and "(c, n) \<in> live A s"
  obtains kd where "A (c div 4096) = Some kd" and "(c, n) \<in> cells (c div 4096) kd" and "c \<notin> freed s"
proof -
  obtain p kd where "A p = Some kd" "(c, n) \<in> cells p kd" "c \<notin> freed s"
    using assms(2) by (auto simp: live_def)
  then show thesis
    using cells_page [OF arena_of(2) [OF assms(1)], of p kd c n] that by auto
qed

text \<open>A block that joins its free list.\<close>
lemma give_back:
  assumes ok: "malloc_ok A s" and p: "A p = Some (Small k)" and cell: "(unat b, bsz k) \<in> cells p (Small k)"
    and used: "unat b \<notin> freed s"
  defines "m \<equiv> ram_fill (mem s) b 0xcc (bsz k)"
  defines "s2 \<equiv> set_free_cnt (page_addr p) (arena_free_cnt (page_addr p) s + 1) (set_free_list k (b # frees s k) (set_mem m s))"
  shows "malloc_ok A s2" and "live A s2 = live A s - {(unat b, bsz k)}" and "freed s2 = insert (unat b) (freed s)"
    and "\<And>x. unat x \<in> \<Union> (slots ` (live A s - {(unat b, bsz k)})) \<Longrightarrow> mem s2 x = mem s x"
    and "arena_free_cnt (page_addr p) (set_free_list k (b # frees s k) (set_mem m s)) = arena_free_cnt (page_addr p) s"
proof -
  have ar: "arenas_ok A s" and ct: "counts_match A s"
    using ok by (auto simp: malloc_ok_def)
  note pa = arena_of [OF ar p]
  have k: "k < 7" and len: "length (descs s) = 7"
    using pa by (auto simp: descs_ok_def)
  have pg: "unat b div 4096 = p"
    using cells_page [OF pa(2) cell] .
  have rng: "4096 * p + 12 \<le> unat b" "unat b + bsz k \<le> 4096 * (p + 1)"
    using cells_range [OF pa(2) cell] by auto
  have lv: "(unat b, bsz k) \<in> live A s"
    unfolding live_def using p cell used by (intro CollectI exI [of _ p] exI [of _ "Small k"]) simp
  have fill: "m x = mem s x" if "unat x \<notin> slots (unat b, bsz k)" for x
    unfolding m_def ram_fill_def using unat_in_range [of b "bsz k" x] that rng pa(6) by auto
  have hdr: "m x = mem s x" if "A q = Some kd" "4096 * q \<le> unat x \<and> unat x < 4096 * q + 12" for q kd x
    using live_header [OF ar that(1), of "unat x"] that(2) lv by (intro fill) blast
  have new: "b \<notin> set (frees s j)" if "j < 7" for j
    using used that by (force simp: freed_def)
  have fo: "distinct (frees s k)" "\<And>b. b \<in> set (frees s k) \<Longrightarrow> \<exists>p. A p = Some (Small k) \<and> (unat b, bsz k) \<in> cells p (Small k)"
    using ar k unfolding arenas_ok_def free_ok_def by auto
  have "arena_free_cnt (page_addr p) s = of_nat (free_in s p k)"
    using ct p by (auto simp: counts_match_def)
  then have v: "arena_free_cnt (page_addr p) s + 1 = of_nat (length (filter (\<lambda>b. unat b div 4096 = p) (b # frees s k)))"
    using pg by (simp add: free_in_def)
  show "malloc_ok A s2"
    unfolding s2_def
  proof (rule recount [OF ok k p _ _ _ v])
    show "distinct (b # frees s k)"
      using fo(1) new [OF k] by simp
    show "\<exists>p. A p = Some (Small k) \<and> (unat c, bsz k) \<in> cells p (Small k)" if "c \<in> set (b # frees s k)" for c
      using that fo(2) p cell by (cases "c = b") auto
    show "filter (\<lambda>b. unat b div 4096 = q) (b # frees s k) = filter (\<lambda>b. unat b div 4096 = q) (frees s k)" if "q \<noteq> p" for q
      using that pg by simp
    show "m x = mem s x" if "A q \<noteq> None" "4096 * q \<le> unat x \<and> unat x < 4096 * q + 12" for q x
      using that hdr by blast
  qed
  show frd: "freed s2 = insert (unat b) (freed s)"
    unfolding s2_def freed_same [OF set_free_cnt_simps(1)] freed_set_free_list(2) [OF len k]
    using len by (subst freed_set_free_list(1) [OF _ k]) auto
  show "live A s2 = live A s - {(unat b, bsz k)}"
  proof (intro equalityI subsetI)
    fix c assume c: "c \<in> live A s - {(unat b, bsz k)}"
    then obtain q kd where q: "A q = Some kd" "c \<in> cells q kd" "fst c \<notin> freed s"
      by (auto simp: live_def)
    have "fst c \<noteq> unat b"
    proof
      assume eq: "fst c = unat b"
      then have "q = p"
        using cells_page [OF arena_of(2) [OF ar q(1)], of "unat b" "snd c" q] q(2) pg by (metis prod.collapse)
      then have "snd c = bsz k"
        using q(1,2) p by auto
      then show False
        using c eq by (metis DiffD2 insertI1 prod.collapse)
    qed
    then show "c \<in> live A s2"
      using q by (auto simp: live_def frd)
  qed (auto simp: live_def frd)
  show "mem s2 x = mem s x" if x: "unat x \<in> \<Union> (slots ` (live A s - {(unat b, bsz k)}))" for x
  proof -
    obtain c where c: "c \<in> live A s" "c \<noteq> (unat b, bsz k)" "unat x \<in> slots c"
      using x by blast
    have "unat x \<notin> slots (unat b, bsz k)"
      using live_apart [OF ar c(1) lv c(2)] c(3) by blast
    then have "m x = mem s x"
      by (rule fill)
    moreover have "\<not> (4096 * p \<le> unat x \<and> unat x < 4096 * p + 12)"
      using live_header [OF ar p, of "unat x"] c by blast
    then have "unat x < 4096 * p + 8 \<or> 4096 * p + 12 \<le> unat x"
      by linarith
    ultimately show ?thesis
      unfolding s2_def by (simp add: set_free_cnt_mem(1) [OF pa(7)])
  qed
  have "arena_free_cnt (page_addr p) (set_mem m s) = arena_free_cnt (page_addr p) s"
    using hdr [OF p] by (intro free_cnt_same [OF pa(7)]) simp
  then show "arena_free_cnt (page_addr p) (set_free_list k (b # frees s k) (set_mem m s)) = arena_free_cnt (page_addr p) s"
    by (simp add: arena_free_cnt_def)
qed

lemma free_in_bound:
  assumes "arenas_ok A s" and "A p = Some (Small k)"
  shows "set (filter (\<lambda>b. unat b div 4096 = p) (frees s k)) \<subseteq> set (arena_blocks p k 0 (bpa k))"
    and "free_in s p k \<le> bpa k"
    and "free_in s p k = bpa k \<Longrightarrow> set (filter (\<lambda>b. unat b div 4096 = p) (frees s k)) = set (arena_blocks p k 0 (bpa k))"
proof -
  have k: "k < 7"
    using arena_of(2) [OF assms] by simp
  note B = arena_blocks_props [OF arena_of(7) [OF assms] k]
  let ?F = "filter (\<lambda>b. unat b div 4096 = p) (frees s k)"
  show sub: "set ?F \<subseteq> set (arena_blocks p k 0 (bpa k))"
  proof
    fix b assume "b \<in> set ?F"
    then have b: "b \<in> set (frees s k)" "unat b div 4096 = p"
      by auto
    from frees_unique [OF assms(1) b(1) k] have "(unat b, bsz k) \<in> cells p (Small k)"
      using b(2) by metis
    then have "unat b \<in> unat ` set (arena_blocks p k 0 (bpa k))"
      unfolding B(1) by force
    then show "b \<in> set (arena_blocks p k 0 (bpa k))"
      by (auto simp: word_unat_eq_iff [symmetric])
  qed
  have "distinct ?F"
    using assms(1) k by (simp add: arenas_ok_def free_ok_def)
  then have cF: "card (set ?F) = free_in s p k"
    by (simp only: distinct_card free_in_def)
  have cB: "card (set (arena_blocks p k 0 (bpa k))) = bpa k"
    using B(2,4) by (simp only: distinct_card)
  show "free_in s p k \<le> bpa k"
    using card_mono [OF _ sub] cF cB by simp
  show "set ?F = set (arena_blocks p k 0 (bpa k))" if "free_in s p k = bpa k"
    using card_subset_eq [OF _ sub] cF cB that by simp
qed

text \<open>An arena whose blocks are all free gives its page back.\<close>
lemma empty_arena:
  assumes ok: "malloc_ok A s" and p: "A p = Some (Small k)" and full: "free_in s p k = bpa k"
  shows "\<exists>s' P. remove_blocks k (page_addr p) 0 (bpa k) s = Some s' \<and> palloc_free_page (page_addr p) (pages s') = Some P \<and>
    malloc_ok (A(p := None)) (s'\<lparr>pages := P\<rparr>) \<and> live (A(p := None)) (s'\<lparr>pages := P\<rparr>) = live A s \<and>
    (\<forall>x. unat x \<in> \<Union> (slots ` live A s) \<longrightarrow> ram P x = mem s x)"
proof -
  have ar: "arenas_ok A s" and ct: "counts_match A s"
    using ok by (auto simp: malloc_ok_def)
  note pa = arena_of [OF ar p]
  have k: "k < 7" and len: "length (descs s) = 7"
    using pa by (auto simp: descs_ok_def)
  let ?B = "arena_blocks p k 0 (bpa k)" and ?F = "filter (\<lambda>b. unat b div 4096 \<noteq> p) (frees s k)"
  have all: "set (filter (\<lambda>b. unat b div 4096 = p) (frees s k)) = set ?B"
    using free_in_bound(3) [OF ar p full] .
  have fo: "distinct (frees s j)" "\<And>b. b \<in> set (frees s j) \<Longrightarrow> \<exists>p. A p = Some (Small j) \<and> (unat b, bsz j) \<in> cells p (Small j)"
    if "j < 7" for j
    using ar that unfolding arenas_ok_def free_ok_def by auto
  have "filter (\<lambda>b. b \<notin> set ?B) (frees s k) = ?F"
    using all by (intro filter_cong) auto
  then have rm: "remove_blocks k (page_addr p) 0 (bpa k) s = Some (set_free_list k ?F s)"
    using remove_blocks_spec [of s p k 0 "bpa k"] pa fo(1) [OF k] all arena_blocks_props(2) [OF pa(7) k] by auto
  let ?s = "set_free_list k ?F s"
  have fr: "frees ?s j = (if j = k then ?F else frees s j)" for j
    using set_free_list_desc(1) [of k s ?F j] len k by simp
  have sub: "set (frees ?s j) \<subseteq> set (frees s j)" for j
    unfolding fr by auto
  have "distinct (frees ?s j)" if "j < 7" for j
    unfolding fr using fo(1) [OF that] fo(1) [OF k] by simp
  then have "free_ok A ?s"
    using fo(2) sub unfolding free_ok_def by blast
  then have ar3: "arenas_ok A ?s"
    using ar k by (simp add: arenas_ok_def)
  have ct3: "\<forall>q kd. A q = Some kd \<longrightarrow> q \<noteq> p \<longrightarrow> arena_free_cnt (page_addr q) ?s = kind_cnt ?s q kd"
  proof (intro allI impI)
    fix q kd assume q: "A q = Some kd" "q \<noteq> p"
    have "filter (\<lambda>b. unat b div 4096 = q) ?F = filter (\<lambda>b. unat b div 4096 = q) (frees s k)"
      unfolding filter_filter using q(2) by (intro filter_cong) auto
    then have "free_in ?s q j = free_in s q j" for j
      by (cases "j = k") (simp_all add: free_in_def fr)
    then have "kind_cnt ?s q kd = kind_cnt s q kd"
      by (cases kd) simp_all
    then show "arena_free_cnt (page_addr q) ?s = kind_cnt ?s q kd"
      using ct q(1) by (simp add: counts_match_def arena_free_cnt_def)
  qed
  have none: "\<forall>j < 7. \<forall>x \<in> set (frees ?s j). unat x div 4096 \<noteq> p"
  proof (intro allI impI ballI)
    fix j x assume j: "j < 7" and x: "x \<in> set (frees ?s j)"
    show "unat x div 4096 \<noteq> p"
    proof (cases "j = k")
      case False
      then have "x \<in> set (frees s j)"
        using x by (simp add: fr)
      from frees_unique [OF ar this j] show ?thesis
        using p False by (metis arena_kind.inject(1) option.inject)
    qed (use x fr [of k] in simp)
  qed
  obtain P where P: "palloc_free_multiple (page_addr p) 1 (pages ?s) = Some P"
    "malloc_ok (A(p := None)) (?s\<lparr>pages := P\<rparr>)" "live (A(p := None)) (?s\<lparr>pages := P\<rparr>) = {b \<in> live A ?s. fst b div 4096 \<noteq> p}"
    "\<forall>x. unat x \<in> \<Union> (slots ` {b \<in> live A ?s. fst b div 4096 \<noteq> p}) \<longrightarrow> ram P x = mem ?s x"
    using drop_arena [OF ar3 p ct3 none] by (auto simp only: span.simps of_nat_1)
  have frd: "freed s = freed ?s \<union> unat ` set ?B"
    unfolding freed_set_free_list(1) [OF len k] freed_set_free_list(2) [OF len k] all [symmetric] by auto
  have "{b \<in> live A ?s. fst b div 4096 \<noteq> p} = live A s"
  proof -
    have "fst c \<in> unat ` set ?B \<longleftrightarrow> fst c div 4096 = p" if "A q = Some kd" "c \<in> cells q kd" for q kd c
    proof -
      have "fst c div 4096 = q"
        using cells_page [OF arena_of(2) [OF ar that(1)], of "fst c" "snd c"] that(2) by simp
      moreover have "fst c \<in> fst ` cells p (Small k)" if "q = p"
        using \<open>c \<in> cells q kd\<close> \<open>A q = Some kd\<close> p that by (metis image_eqI option.inject)
      moreover have "fst c div 4096 = p" if "fst c \<in> fst ` cells p (Small k)"
        using that k by (auto simp: block_addr_page)
      ultimately show ?thesis
        unfolding arena_blocks_props(1) [OF pa(7) k] by blast
    qed
    then show ?thesis
      unfolding live_def frd by blast
  qed
  then show ?thesis
    using rm P by (intro exI [of _ ?s] exI [of _ P]) (simp add: palloc_free_page_def)
qed

lemma free_small_spec:
  assumes ok: "malloc_ok A s" and p: "A p = Some (Small k)" and cell: "(unat b, bsz k) \<in> cells p (Small k)"
    and used: "unat b \<notin> freed s"
  shows "\<exists>A' s'. free_small b (page_addr p) k s = Some s' \<and> malloc_ok A' s' \<and> live A' s' = live A s - {(unat b, bsz k)} \<and>
    (\<forall>x. unat x \<in> \<Union> (slots ` (live A s - {(unat b, bsz k)})) \<longrightarrow> mem s' x = mem s x)"
proof -
  have ar: "arenas_ok A s"
    using ok by (auto simp: malloc_ok_def)
  note pa = arena_of [OF ar p]
  have k: "k < 7" and len: "length (descs s) = 7" and sz: "unat (block_size (descs s ! k)) = bsz k"
    and per: "unat (blocks_per_arena (descs s ! k)) = bpa k"
    using pa by (auto simp: descs_ok_def)
  define s1 where "s1 = set_free_list k (b # frees s k) (set_mem (ram_fill (mem s) b 0xcc (bsz k)) s)"
  define c where "c = arena_free_cnt (page_addr p) s + 1"
  define s2 where "s2 = set_free_cnt (page_addr p) c s1"
  note gb = give_back [OF ok p cell used, folded s1_def c_def, folded s2_def]
  have ar2: "arenas_ok A s2" and ct2: "counts_match A s2"
    using gb(1) by (auto simp: malloc_ok_def)
  have "arena_free_cnt (page_addr p) s2 = kind_cnt s2 p (Small k)"
    using ct2 p unfolding counts_match_def by blast
  then have "c = of_nat (free_in s2 p k)"
    by (simp add: s2_def set_free_cnt_mem(2) [OF pa(7)])
  then have uc: "unat c = free_in s2 p k" and le: "free_in s2 p k \<le> bpa k"
    using free_in_bound(2) [OF ar2 p] bpa_bounds [OF k] by (simp_all add: unat_of_nat_small)
  have ds: "blocks_per_arena (descs s2 ! k) = blocks_per_arena (descs s ! k)"
    using set_free_list_desc(3) [of k "set_mem (ram_fill (mem s) b 0xcc (bsz k)) s" "b # frees s k" k] len k
    by (simp add: s2_def s1_def)
  have fs: "free_small b (page_addr p) k s = (if blocks_per_arena (descs s ! k) \<le> c then do {
        ASSERT (c = blocks_per_arena (descs s ! k));
        s \<leftarrow> remove_blocks k (page_addr p) 0 (bpa k) s2;
        P \<leftarrow> palloc_free_page (page_addr p) (pages s);
        Some (s\<lparr>pages := P\<rparr>) }
      else Some s2)"
  proof -
    have "set_free_cnt (page_addr p) (arena_free_cnt (page_addr p) s1 + 1) s1 = s2" "arena_free_cnt (page_addr p) s1 + 1 = c"
      unfolding s2_def gb(5) c_def by simp_all
    then show ?thesis
      using ds per unfolding free_small_def Let_def sz set_mem_simps s1_def [symmetric] by simp
  qed
  show ?thesis
  proof (cases "blocks_per_arena (descs s ! k) \<le> c")
    case False
    then show ?thesis
      using fs gb(1,2,4) by (intro exI [of _ A] exI [of _ s2]) simp
  next
    case True
    then have full: "free_in s2 p k = bpa k"
      using le per uc by (simp add: word_le_nat_alt)
    then have eq: "c = blocks_per_arena (descs s ! k)"
      using uc per by (simp add: word_unat_eq_iff)
    obtain s3 P where e: "remove_blocks k (page_addr p) 0 (bpa k) s2 = Some s3" "palloc_free_page (page_addr p) (pages s3) = Some P"
      "malloc_ok (A(p := None)) (s3\<lparr>pages := P\<rparr>)" "live (A(p := None)) (s3\<lparr>pages := P\<rparr>) = live A s2"
      "\<forall>x. unat x \<in> \<Union> (slots ` live A s2) \<longrightarrow> ram P x = mem s2 x"
      using empty_arena [OF gb(1) p full] by blast
    have "free_small b (page_addr p) k s = Some (s3\<lparr>pages := P\<rparr>)"
      using fs True eq e(1,2) by simp
    then show ?thesis
      using e(3-5) gb(4) unfolding gb(2) by (intro exI [of _ "A(p := None)"] exI [of _ "s3\<lparr>pages := P\<rparr>"]) simp
  qed
qed

text \<open>What one call of \<^verbatim>\<open>free\<close> on a block in use does.\<close>
lemma free_spec:
  assumes ok: "malloc_ok A s" and b: "(c, n) \<in> live A s"
  shows "\<exists>A' s'. free_block (of_nat c) s = Some s' \<and> malloc_ok A' s' \<and> live A' s' = live A s - {(c, n)} \<and>
    (\<forall>x. unat x \<in> \<Union> (slots ` (live A s - {(c, n)})) \<longrightarrow> mem s' x = mem s x)"
proof -
  have ar: "arenas_ok A s" and ct: "counts_match A s"
    using ok by (auto simp: malloc_ok_def)
  let ?p = "c div 4096"
  obtain kd where kd: "A ?p = Some kd" "(c, n) \<in> cells ?p kd" "c \<notin> freed s"
    using live_cell [OF ar b] .
  note pa = arena_of [OF ar kd(1)] and u = unat_cell [OF ar kd(1,2)]
  have a: "block_to_arena (of_nat c) s = Some (page_addr ?p)"
    using block_to_arena_cell [OF pa(1,3,4) u(1) kd(2)] .
  have ad: "arena_desc (page_addr ?p) s = kind_desc s kd"
    using pa(1) by (simp add: arena_ok_def)
  show ?thesis
  proof (cases kd)
    case (Small k)
    then have k: "k < 7" and n: "n = bsz k"
      using pa(2) kd(2) by auto
    have "free_block (of_nat c) s = free_small (of_nat c) (page_addr ?p) k s"
      using a u(2) ad Small desc_index_ptr [OF pa(4) k] by (simp add: free_block_def)
    then show ?thesis
      using free_small_spec [OF ok, of ?p k "of_nat c"] kd Small n u(1) by simp
  next
    case (Big m)
    then have cn: "c = 4096 * ?p + 12" "n = 4096 * m - 12"
      using kd(2) by auto
    have "unat x div 4096 \<noteq> ?p" if "j < 7" "x \<in> set (frees s j)" for j x
      using frees_unique [OF ar that(2,1)] kd(1) Big by (metis arena_kind.distinct(1) option.inject)
    then have none: "\<forall>j < 7. \<forall>x \<in> set (frees s j). unat x div 4096 \<noteq> ?p"
      by blast
    have cnt: "arena_free_cnt (page_addr ?p) s = of_nat m"
      using ct kd(1) Big by (auto simp: counts_match_def)
    have ct': "\<forall>q kd'. A q = Some kd' \<longrightarrow> q \<noteq> ?p \<longrightarrow> arena_free_cnt (page_addr q) s = kind_cnt s q kd'"
      using ct by (simp add: counts_match_def)
    obtain P where P: "palloc_free_multiple (page_addr ?p) (of_nat m) (pages s) = Some P"
      "malloc_ok (A(?p := None)) (s\<lparr>pages := P\<rparr>)" "live (A(?p := None)) (s\<lparr>pages := P\<rparr>) = {b \<in> live A s. fst b div 4096 \<noteq> ?p}"
      "\<forall>x. unat x \<in> \<Union> (slots ` {b \<in> live A s. fst b div 4096 \<noteq> ?p}) \<longrightarrow> ram P x = mem s x"
      using drop_arena [OF ar kd(1) ct' none] Big by (auto simp only: span.simps)
    have "{b \<in> live A s. fst b div 4096 \<noteq> ?p} = live A s - {(c, n)}"
    proof -
      have "x = (c, n)" if x: "x \<in> live A s" "fst x div 4096 = ?p" for x
      proof -
        obtain kd' where "A ?p = Some kd'" "x \<in> cells ?p kd'"
          using live_cell [OF ar, of "fst x" "snd x"] x by auto
        then have "x = (4096 * ?p + 12, 4096 * m - 12)"
          using kd(1) Big by (metis cells.simps(2) option.inject singletonD)
        then show ?thesis
          by (simp only: cn [symmetric])
      qed
      then have "fst x div 4096 = ?p \<longleftrightarrow> x = (c, n)" if "x \<in> live A s" for x
        using that by (metis fst_conv)
      then show ?thesis
        by blast
    qed
    moreover have "free_block (of_nat c) s = Some (s\<lparr>pages := P\<rparr>)"
      using a u(2) ad Big cnt P(1) by (simp add: free_block_def)
    ultimately show ?thesis
      using P(2-4) by (intro exI [of _ "A(?p := None)"] exI [of _ "s\<lparr>pages := P\<rparr>"]) simp
  qed
qed

section \<open>Clients\<close>

lemma live_address:
  assumes "arenas_ok A s" and "x \<in> \<Union> (slots ` live A s)"
  shows "unat (of_nat x :: u32) = x"
proof -
  obtain c n where b: "(c, n) \<in> live A s" "x \<in> slots (c, n)"
    using assms(2) by (metis UN_E surj_pair)
  then obtain kd where kd: "A (c div 4096) = Some kd" "(c, n) \<in> cells (c div 4096) kd"
    using live_cell [OF assms(1)] by metis
  have "x < 4096 * (c div 4096 + span kd)"
    using cells_range [OF arena_of(2) [OF assms(1) kd(1)] kd(2)] b(2) by simp
  also have "\<dots> \<le> 4096 * 2 ^ 20"
    using arena_of(6) [OF assms(1) kd(1)] by (intro mult_le_mono2)
  finally show ?thesis
    by (intro unat_of_nat_small) simp
qed

text \<open>Writes that keep off the headers keep the invariant.\<close>
lemma write_keeps:
  assumes "malloc_ok A s" and "\<And>x. m x \<noteq> mem s x \<Longrightarrow> unat x \<in> \<Union> (slots ` live A s)"
  shows "malloc_ok A (set_mem m s)" and "live A (set_mem m s) = live A s"
proof -
  have ar: "arenas_ok A s" and ct: "counts_match A s"
    using assms(1) by (auto simp: malloc_ok_def)
  have hdr: "m x = mem s x" if "A q = Some kd" "4096 * q \<le> unat x \<and> unat x < 4096 * q + 12" for q kd x
    using assms(2) [of x] live_header [OF ar that(1), of "unat x"] that(2) by blast
  have "arena_ok (set_mem m s) q kd" if q: "A q = Some kd" for q kd
    using arena_of(1) [OF ar q] hdr [OF q] by (intro arena_ok_same [OF arena_of(1) [OF ar q] arena_of(7) [OF ar q]]) (auto simp: arena_ok_def)
  then have "arenas_ok A (set_mem m s)"
    using ar by (simp add: arenas_ok_def free_ok_def)
  moreover have "arena_free_cnt (page_addr q) (set_mem m s) = kind_cnt (set_mem m s) q kd" if q: "A q = Some kd" for q kd
  proof -
    have "arena_free_cnt (page_addr q) (set_mem m s) = arena_free_cnt (page_addr q) s"
      using hdr [OF q] by (intro free_cnt_same [OF arena_of(7) [OF ar q]]) auto
    then show ?thesis
      using ct q by (cases kd) (auto simp: counts_match_def free_in_def)
  qed
  ultimately show "malloc_ok A (set_mem m s)"
    by (simp add: malloc_ok_def counts_match_def)
  show "live A (set_mem m s) = live A s"
    by (simp add: live_def freed_def)
qed

definition byte_at :: "mstate \<Rightarrow> nat \<Rightarrow> u8" where
  "byte_at s x = mem s (of_nat x)"

definition put_byte :: "mstate \<Rightarrow> nat \<Rightarrow> u8 \<Rightarrow> mstate" where
  "put_byte s x v = set_mem ((mem s)(of_nat x := v)) s"

definition malloc_at :: "mstate \<Rightarrow> size_t \<Rightarrow> (nat \<times> mstate) option" where
  "malloc_at s sz = map_option (\<lambda>(b, s). (unat b, s)) (malloc_bytes sz s)"

definition free_at :: "mstate \<Rightarrow> nat \<Rightarrow> mstate option" where
  "free_at s c = free_block (of_nat c) s"

definition request_fits :: "size_t \<Rightarrow> bool" where
  "request_fits sz \<longleftrightarrow> sz \<noteq> 0 \<and> unat sz + 12 + 4096 \<le> 2 ^ 32"

definition malloc_holds :: "mstate \<Rightarrow> (nat \<times> nat) set \<Rightarrow> bool" where
  "malloc_holds s L \<longleftrightarrow> (\<exists>A. malloc_ok A s \<and> L = live A s)"

interpretation kernel_heap: block_allocator malloc_at free_at byte_at put_byte unat request_fits malloc_holds
proof
  fix s L and r :: size_t
  assume "malloc_holds s L" "request_fits r"
  then obtain A where A: "malloc_ok A s" "L = live A s" and r: "r \<noteq> 0" "unat r + 12 + 4096 \<le> 2 ^ 32"
    by (auto simp: malloc_holds_def request_fits_def)
  have addr: "unat (of_nat x :: u32) = x" if "x \<in> \<Union> (slots ` L)" for x
    using live_address [of A s x] A that by (simp add: malloc_ok_def)
  obtain b s' A' where m: "malloc_bytes r s = Some (b, s')" "malloc_ok A' s'"
    "\<forall>x. unat x \<in> \<Union> (slots ` live A s) \<longrightarrow> mem s' x = mem s x"
    "if b = 0 then live A' s' = live A s else \<exists>n \<ge> unat r. (unat b, n) \<notin> live A s \<and> live A' s' = insert (unat b, n) (live A s)"
    using malloc_spec [OF A(1) r] by blast
  have "\<forall>x \<in> \<Union> (slots ` L). byte_at s' x = byte_at s x"
    using m(3) addr A(2) by (simp only: byte_at_def) metis
  moreover have "if unat b = 0 then malloc_holds s' L else \<exists>n \<ge> unat r. (unat b, n) \<notin> L \<and> malloc_holds s' (insert (unat b, n) L)"
    using m(2,4) A(2) unfolding malloc_holds_def unat_eq_zero by (auto split: if_splits)
  ultimately show "\<exists>i s'. malloc_at s r = Some (i, s') \<and> (\<forall>x \<in> \<Union> (slots ` L). byte_at s' x = byte_at s x) \<and>
      (if i = 0 then malloc_holds s' L else \<exists>n \<ge> unat r. (i, n) \<notin> L \<and> malloc_holds s' (insert (i, n) L))"
    using m(1) by (intro exI [of _ "unat b"] exI [of _ s']) (simp only: malloc_at_def option.map prod.case simp_thms)
next
  fix s L i n
  assume "malloc_holds s L" and b: "(i, n) \<in> L"
  then obtain A where A: "malloc_ok A s" "L = live A s"
    by (auto simp: malloc_holds_def)
  have addr: "unat (of_nat x :: u32) = x" if "x \<in> \<Union> (slots ` (L - {(i, n)}))" for x
    using live_address [of A s x] A that by (auto simp: malloc_ok_def simp del: slots.simps)
  obtain A' s' where f: "free_block (of_nat i) s = Some s'" "malloc_ok A' s'" "live A' s' = live A s - {(i, n)}"
    "\<forall>x. unat x \<in> \<Union> (slots ` (live A s - {(i, n)})) \<longrightarrow> mem s' x = mem s x"
    using free_spec [OF A(1)] b A(2) by blast
  have "\<forall>x \<in> \<Union> (slots ` (L - {(i, n)})). byte_at s' x = byte_at s x"
    using f(4) addr A(2) by (simp only: byte_at_def) metis
  then show "\<exists>s'. free_at s i = Some s' \<and> malloc_holds s' (L - {(i, n)}) \<and>
      (\<forall>x \<in> \<Union> (slots ` (L - {(i, n)})). byte_at s' x = byte_at s x)"
    using f(1-3) A(2) unfolding free_at_def malloc_holds_def by blast
next
  fix s L i n x v
  assume "malloc_holds s L" and b: "(i, n) \<in> L" "x \<in> slots (i, n)"
  then obtain A where A: "malloc_ok A s" "L = live A s"
    by (auto simp: malloc_holds_def)
  have x: "x \<in> \<Union> (slots ` live A s)"
    using b A(2) by blast
  then have "unat (of_nat x :: u32) = x"
    using live_address [of A s x] A by (simp add: malloc_ok_def)
  then have "unat y \<in> \<Union> (slots ` live A s)" if "((mem s)(of_nat x := v)) y \<noteq> mem s y" for y
    using that x by (auto split: if_splits simp del: slots.simps)
  then show "malloc_holds (put_byte s x v) L"
    unfolding put_byte_def malloc_holds_def using write_keeps [OF A(1)] A(2) by blast
next
  fix s L i n x j m y v
  assume "malloc_holds s L" and b: "(i, n) \<in> L" "x \<in> slots (i, n)" "(j, m) \<in> L" "y \<in> slots (j, m)"
  then obtain A where A: "malloc_ok A s" "L = live A s"
    by (auto simp: malloc_holds_def)
  have "unat (of_nat x :: u32) = x" "unat (of_nat y :: u32) = y"
    using live_address [of A s x] live_address [of A s y] A b by (auto simp: malloc_ok_def simp del: slots.simps)
  then have "of_nat y = (of_nat x :: u32) \<longleftrightarrow> x = y"
    by metis
  then show "byte_at (put_byte s x v) y = (if x = y then v else byte_at s y)"
    by (simp add: byte_at_def put_byte_def)
next
  fix s L b c
  assume "malloc_holds s L" "b \<in> L" "c \<in> L" "b \<noteq> c"
  then show "slots b \<inter> slots c = {}"
    using live_apart unfolding malloc_holds_def malloc_ok_def by blast
qed

lemma malloc_init_ok:
  assumes "palloc_ok p" and "0 < unat at" and "unat at + 480 \<le> 2 ^ 32"
  obtains s where "malloc_init at p = Some s" and "malloc_holds s {}" and "malloc_ok (\<lambda>_. None) s" and "pages s = p"
proof -
  let ?d = "\<lambda>b n. \<lparr>block_size = b, blocks_per_arena = n, free_list = []\<rparr> :: desc"
  let ?ds = "[?d 16 255, ?d 32 127, ?d 64 63, ?d 128 31, ?d 256 15, ?d 512 7, ?d 1024 3]"
  let ?s = "\<lparr>pages = p, descs_at = at, descs = ?ds\<rparr>"
  have loop: "desc_loop 16 [] = Some ?ds"
    by code_simp
  have "unat (block_size (?ds ! k)) = bsz k \<and> unat (blocks_per_arena (?ds ! k)) = bpa k \<and> free_list (?ds ! k) = []" if "k < 7" for k
    using bsz_cases [OF that] by (elim disjE) (simp_all add: bsz_def bpa_def)
  then have "malloc_ok (\<lambda>_. None) ?s"
    using assms by (simp add: malloc_ok_def arenas_ok_def descs_ok_def apart_def free_ok_def counts_match_def)
  moreover have "live (\<lambda>_. None) ?s = {}"
    by (simp add: live_def)
  ultimately show thesis
    using loop by (intro that [of ?s]) (auto simp: malloc_init_def malloc_holds_def)
qed

text \<open>C5: To its clients the block allocator is a collection of independent arrays.  From \<^verbatim>\<open>malloc_init\<close> on, any
  sequence of \<^verbatim>\<open>malloc\<close>, \<^verbatim>\<open>free\<close> and writes to the blocks held runs without a panic; the blocks held never overlap,
  none of them is null, and each still has the bytes last written to it.  A request is for at least one byte
  and so much below 4 GB that its size can be rounded up to pages.\<close>
theorem malloc_independent_arrays:
  assumes "palloc_ok p" and "0 < unat at" and "unat at + 480 \<le> 2 ^ 32" and "\<forall>n. Alloc n \<in> set ops \<longrightarrow> request_fits n"
  shows "\<exists>s s' held. malloc_init at p = Some s \<and>
    block_run malloc_at free_at byte_at put_byte unat ops s [] = Some (s', held) \<and>
    disjoint_slots (map (\<lambda>(i, bs). (i, length bs)) held) \<and>
    (\<forall>(i, bs) \<in> set held. i \<noteq> 0 \<and> (\<forall>k < length bs. byte_at s' (i + k) = bs ! k))"
proof -
  obtain s where "malloc_init at p = Some s" "malloc_holds s {}"
    using malloc_init_ok [OF assms(1-3)] by blast
  then show ?thesis
    using kernel_heap.independent_arrays [OF _ assms(4)] by blast
qed

theorem malloc_independent_arrays_witness:
  "\<exists>s s' held. malloc_init 0xc0030000 small_pools = Some s \<and>
    block_run malloc_at free_at byte_at put_byte unat [Alloc 100, Alloc 5000, Put 1 7 42, Free_nth 0] s [] = Some (s', held) \<and>
    disjoint_slots (map (\<lambda>(i, bs). (i, length bs)) held)"
  using malloc_independent_arrays [of small_pools "0xc0030000" "[Alloc 100, Alloc 5000, Put 1 7 42, Free_nth 0]"] small_pools_ok
  by (auto simp: request_fits_def)

lemma big_request:
  assumes "descs_ok s" and "1024 < unat sz"
  shows "malloc_bytes sz s = big_block sz s"
proof -
  have "\<not> sz \<le> block_size (descs s ! i)" if "i < 7" for i
    using assms that bsz_bounds [OF that] by (auto simp: descs_ok_def word_le_nat_alt)
  then have "find (\<lambda>i. sz \<le> block_size (descs s ! i)) [0..<length (descs s)] = None"
    using assms(1) by (simp add: find_None_iff descs_ok_def)
  then show ?thesis
    using assms(2) by (auto simp: malloc_bytes_def)
qed

lemma big_block_returns:
  assumes "pages s = small_pools" and "n = 1 \<or> n = 2" and "DIV_ROUND_UP (sz + SIZEOF_ARENA) PGSIZE = n"
  shows "map_option fst (big_block sz s) = Some 0xc010000c"
proof -
  have "map_option fst (palloc_get_multiple 0 1 small_pools) = Some 0xc0100000"
    "map_option fst (palloc_get_multiple 0 2 small_pools) = Some 0xc0100000"
    by code_simp+
  then obtain P where "palloc_get_multiple 0 n small_pools = Some (0xc0100000, P)"
    using assms(2) by auto
  then show ?thesis
    using assms(1,3) by (simp add: big_block_def SIZEOF_ARENA_def)
qed

lemma block_bytes_spec:
  assumes ok: "malloc_ok A s" and b: "(c, n) \<in> live A s"
  obtains w where "block_bytes (of_nat c) s = Some w" and "unat w = n"
proof -
  have ar: "arenas_ok A s" and ct: "counts_match A s"
    using ok by (auto simp: malloc_ok_def)
  let ?p = "c div 4096"
  obtain kd where kd: "A ?p = Some kd" "(c, n) \<in> cells ?p kd"
    using live_cell [OF ar b] .
  note pa = arena_of [OF ar kd(1)] and u = unat_cell [OF ar kd(1,2)]
  have a: "block_to_arena (of_nat c) s = Some (page_addr ?p)"
    using block_to_arena_cell [OF pa(1,3,4) u(1) kd(2)] .
  have ad: "arena_desc (page_addr ?p) s = kind_desc s kd"
    using pa(1) by (simp add: arena_ok_def)
  show thesis
  proof (cases kd)
    case (Small k)
    then have k: "k < 7" and n: "n = bsz k"
      using pa(2) kd(2) by auto
    show thesis
      using a ad Small desc_index_ptr [OF pa(4) k] pa(4) k n
      by (intro that [of "block_size (descs s ! k)"]) (simp_all add: block_bytes_def descs_ok_def)
  next
    case (Big m)
    then have cn: "c = 4096 * ?p + 12" "n = 4096 * m - 12" and m: "0 < m" "?p + m \<le> 2 ^ 20" "0 < ?p"
      using kd(2) pa(2,5,6) by auto
    have cnt: "arena_free_cnt (page_addr ?p) s = of_nat m"
      using ct kd(1) Big by (auto simp: counts_match_def)
    have "unat (of_nat m :: u32) = m"
      using m by (intro unat_of_nat_small) simp
    then have um: "unat (PGSIZE * of_nat m) = 4096 * m"
      using m by (subst unat_mult_small) (simp_all add: page_consts)
    have "c mod 4096 = 12"
      using page_div [of 12 ?p] by (simp add: cn(1) [symmetric])
    then have "unat (pg_ofs (of_nat c)) = 12"
      by (simp add: unat_pg_ofs u(1))
    then have "unat (PGSIZE * of_nat m - pg_ofs (of_nat c)) = n"
      using um m(1) cn(2) by (subst unat_sub) (simp_all add: word_le_nat_alt)
    then show thesis
      using a ad Big cnt by (intro that [of "PGSIZE * of_nat m - pg_ofs (of_nat c)"]) (simp_all add: block_bytes_def)
  qed
qed

lemma live_below:
  assumes "arenas_ok A s" and "(c, n) \<in> live A s"
  shows "c + n \<le> 2 ^ 32"
proof -
  obtain kd where kd: "A (c div 4096) = Some kd" "(c, n) \<in> cells (c div 4096) kd"
    using live_cell [OF assms] .
  have "c + n \<le> 4096 * (c div 4096 + span kd)"
    using cells_range [OF arena_of(2) [OF assms(1) kd(1)] kd(2)] by simp
  also have "\<dots> \<le> 4096 * 2 ^ 20"
    using arena_of(6) [OF assms(1) kd(1)] by (intro mult_le_mono2)
  finally show ?thesis
    by simp
qed

text \<open>The last part of \<^verbatim>\<open>realloc\<close>: the old block is copied to the new one and released.\<close>
lemma copy_release:
  assumes ok: "malloc_ok A s" and c: "(c, n) \<in> live A s" and d: "(unat b, k) \<in> live A s" and ne: "(c, n) \<noteq> (unat b, k)"
    and l: "l \<le> n" "l \<le> k"
  shows "\<exists>A' s'. free_block (of_nat c) (set_mem (ram_copy (mem s) b (of_nat c) l) s) = Some s' \<and> malloc_ok A' s' \<and>
    live A' s' = live A s - {(c, n)} \<and> (\<forall>j < l. byte_at s' (unat b + j) = byte_at s (c + j)) \<and>
    (\<forall>x \<in> \<Union> (slots ` (live A s - {(c, n), (unat b, k)})). byte_at s' x = byte_at s x)"
proof -
  have ar: "arenas_ok A s"
    using ok by (simp add: malloc_ok_def)
  define m where "m = ram_copy (mem s) b (of_nat c) l"
  have bl: "unat b + l \<le> 2 ^ 32"
    using live_below [OF ar d] l(2) by simp
  have in_new: "unat x \<in> slots (unat b, k)" if "m x \<noteq> mem s x" for x
    using that unat_in_range [OF bl, of x] l(2) by (auto simp: m_def ram_copy_def split: if_splits)
  have chg: "unat x \<in> \<Union> (slots ` live A s)" if "m x \<noteq> mem s x" for x
    using in_new [OF that] d by blast
  have wk: "malloc_ok A (set_mem m s)" "live A (set_mem m s) = live A s"
    using write_keeps [OF ok chg] by simp_all
  have cw: "(c, n) \<in> live A (set_mem m s)"
    using wk(2) c by simp
  from free_spec [OF wk(1) cw, unfolded wk(2) set_mem_simps(1)] obtain A' s' where
    f: "free_block (of_nat c) (set_mem m s) = Some s'" "malloc_ok A' s'" "live A' s' = live A s - {(c, n)}"
    "\<forall>x. unat x \<in> \<Union> (slots ` (live A s - {(c, n)})) \<longrightarrow> mem s' x = m x"
    by (elim exE conjE)
  have keep: "byte_at s' x = m (of_nat x)" if "e \<in> live A s" "e \<noteq> (c, n)" "x \<in> slots e" for x e
  proof -
    have "unat (of_nat x :: u32) = x"
      using live_address [OF ar, of x] that by blast
    then show ?thesis
      using f(4) [rule_format, of "of_nat x"] that by (auto simp: byte_at_def simp del: slots.simps)
  qed
  have "byte_at s' (unat b + j) = byte_at s (c + j)" if j: "j < l" for j
  proof -
    have "unat b + j \<in> slots (unat b, k)"
      using j l(2) by simp
    with keep [OF d ne [symmetric]] have "byte_at s' (unat b + j) = m (of_nat (unat b + j))" .
    then have "byte_at s' (unat b + j) = m (b + of_nat j)"
      by simp
    moreover have "unat (of_nat j :: u32) = j"
      using j bl by (intro unat_of_nat_small) simp
    ultimately show ?thesis
      using j by (simp add: m_def ram_copy_def byte_at_def)
  qed
  moreover have "byte_at s' x = byte_at s x" if x: "x \<in> \<Union> (slots ` (live A s - {(c, n), (unat b, k)}))" for x
  proof -
    obtain e where e: "e \<in> live A s" "e \<noteq> (c, n)" "e \<noteq> (unat b, k)" "x \<in> slots e"
      using x by blast
    have "x \<notin> slots (unat b, k)"
      using live_apart [OF ar e(1) d e(3)] e(4) by blast
    moreover have "unat (of_nat x :: u32) = x"
      using live_address [OF ar, of x] e by blast
    ultimately have "m (of_nat x) = mem s (of_nat x)"
      using in_new [of "of_nat x"] by metis
    then show ?thesis
      using keep [OF e(1,2,4)] by (simp add: byte_at_def)
  qed
  ultimately show ?thesis
    using f(1-3) unfolding m_def by blast
qed

text \<open>C6: What \<^verbatim>\<open>realloc\<close> does to a block in use: it returns a null pointer and changes no block, or it releases the
  block and returns a new one that is big enough and starts with the bytes of the old one, as many as fit;
  every other block keeps its bytes.\<close>
theorem realloc_moves:
  assumes ok: "malloc_ok A s" and b: "(c, n) \<in> live A s" and fits: "request_fits sz"
  shows "\<exists>b s' A'. realloc_bytes (of_nat c) sz s = Some (b, s') \<and> malloc_ok A' s' \<and>
    (\<forall>x \<in> \<Union> (slots ` (live A s - {(c, n)})). byte_at s' x = byte_at s x) \<and>
    (if b = 0 then live A' s' = live A s \<and> (\<forall>x \<in> slots (c, n). byte_at s' x = byte_at s x)
     else (\<exists>m \<ge> unat sz. (unat b, m) \<notin> live A s \<and> live A' s' = insert (unat b, m) (live A s - {(c, n)})) \<and>
       (\<forall>j < min (unat sz) n. byte_at s' (unat b + j) = byte_at s (c + j)))"
proof -
  have r: "sz \<noteq> 0" "unat sz + 12 + 4096 \<le> 2 ^ 32" and ar: "arenas_ok A s"
    using fits ok by (auto simp: request_fits_def malloc_ok_def)
  obtain nb s1 A1 where m: "malloc_bytes sz s = Some (nb, s1)" "malloc_ok A1 s1"
    "\<forall>x. unat x \<in> \<Union> (slots ` live A s) \<longrightarrow> mem s1 x = mem s x"
    "if nb = 0 then live A1 s1 = live A s else \<exists>n \<ge> unat sz. (unat nb, n) \<notin> live A s \<and> live A1 s1 = insert (unat nb, n) (live A s)"
    using malloc_spec [OF ok r] by blast
  have keep: "byte_at s1 x = byte_at s x" if "x \<in> \<Union> (slots ` live A s)" for x
    using m(3) live_address [OF ar that] that by (simp add: byte_at_def)
  then have same: "\<forall>x \<in> \<Union> (slots ` (live A s - {(c, n)})). byte_at s1 x = byte_at s x" "\<forall>x \<in> slots (c, n). byte_at s1 x = byte_at s x"
    using b by blast+
  show ?thesis
  proof (cases "nb = 0")
    case True
    then have "realloc_bytes (of_nat c) sz s = Some (nb, s1)"
      using m(1) r(1) by (simp add: realloc_bytes_def)
    then show ?thesis
      using True m(2,4) same by (intro exI [of _ nb] exI [of _ s1] exI [of _ A1]) (simp only: if_True simp_thms)
  next
    case False
    then obtain k where k: "unat sz \<le> k" "(unat nb, k) \<notin> live A s" "live A1 s1 = insert (unat nb, k) (live A s)"
      using m(4) by auto
    have b1: "(c, n) \<in> live A1 s1" "(unat nb, k) \<in> live A1 s1" "(c, n) \<noteq> (unat nb, k)"
      using b k by auto
    obtain w where w: "block_bytes (of_nat c) s1 = Some w" "unat w = n"
      using block_bytes_spec [OF m(2) b1(1)] .
    define l where "l = unat (if sz < w then sz else w)"
    have l: "l = min (unat sz) n"
      using w(2) by (simp add: l_def word_less_nat_alt min_def)
    have "l \<le> n" "l \<le> k"
      using k(1) l by simp_all
    from copy_release [OF m(2) b1 this] obtain A' s' where
      f: "free_block (of_nat c) (set_mem (ram_copy (mem s1) nb (of_nat c) l) s1) = Some s'" "malloc_ok A' s'"
      "live A' s' = live A1 s1 - {(c, n)}" "\<forall>j < l. byte_at s' (unat nb + j) = byte_at s1 (c + j)"
      "\<forall>x \<in> \<Union> (slots ` (live A1 s1 - {(c, n), (unat nb, k)})). byte_at s' x = byte_at s1 x"
      by (elim exE conjE)
    have re: "realloc_bytes (of_nat c) sz s = Some (nb, s')"
      using m(1) r(1) False w(1) f(1) unat_cell(2) [OF ar] live_cell [OF ar b] unfolding l_def
      by (simp add: realloc_bytes_def Let_def) metis
    have lv: "live A1 s1 - {(c, n), (unat nb, k)} = live A s - {(c, n)}" "live A' s' = insert (unat nb, k) (live A s - {(c, n)})"
      using f(3) k(2,3) b1(3) by auto
    have "\<forall>j < l. byte_at s' (unat nb + j) = byte_at s (c + j)"
      using f(4) same(2) by (simp add: l)
    moreover have "byte_at s' x = byte_at s x" if "x \<in> \<Union> (slots ` (live A s - {(c, n)}))" for x
      using bspec [OF f(5) [unfolded lv(1)] that] bspec [OF same(1) that] by (rule trans)
    moreover have "\<exists>m \<ge> unat sz. (unat nb, m) \<notin> live A s \<and> live A' s' = insert (unat nb, m) (live A s - {(c, n)})"
      using k(1,2) lv(2) by (intro exI [of _ k] conjI)
    ultimately show ?thesis
      using re f(2) False unfolding l by (intro exI [of _ nb] exI [of _ s'] exI [of _ A'] conjI ballI) (simp_all only: if_False simp_thms)
  qed
qed

theorem realloc_moves_witness:
  "\<exists>s A c n b s'. malloc_ok A s \<and> (c, n) \<in> live A s \<and> realloc_bytes (of_nat c) 6000 s = Some (b, s')"
proof -
  obtain s0 where s0: "malloc_ok (\<lambda>_. None) s0" "pages s0 = small_pools"
    using malloc_init_ok [OF small_pools_ok, of "0xc0030000"] by auto
  have "malloc_bytes 5000 s0 = big_block 5000 s0"
    using s0(1) by (intro big_request) (simp_all add: malloc_ok_def arenas_ok_def)
  moreover have "DIV_ROUND_UP (5000 + SIZEOF_ARENA) PGSIZE = 2"
    by (simp add: DIV_ROUND_UP_def SIZEOF_ARENA_def page_consts)
  ultimately obtain s where s: "malloc_bytes 5000 s0 = Some (0xc010000c, s)"
    using big_block_returns [OF s0(2), of 2 5000] by auto
  from malloc_spec [OF s0(1), of 5000] s obtain A n where A: "malloc_ok A s" "(0xc010000c, n) \<in> live A s"
    by (auto, metis insertI1)
  have "request_fits 6000"
    by (simp add: request_fits_def)
  from realloc_moves [OF A this] obtain b s' where "realloc_bytes (of_nat 0xc010000c) 6000 s = Some (b, s')"
    by (elim exE conjE)
  with A show ?thesis
    by (intro exI conjI)
qed

text \<open>\<^verbatim>\<open>calloc\<close> checks only that the product is at least each factor; a product that wraps around to something
  bigger passes, so that a request for 65537 times 65537 bytes gets a block of 131073 bytes.\<close>
theorem calloc_overflow:
  "calloc_bytes 0x10001 0x10001 s = calloc_bytes 1 0x20001 s"
proof -
  have "(0x10001 :: size_t) * 0x10001 = 0x20001"
    by code_simp
  then show ?thesis
    unfolding calloc_bytes_def Let_def by (simp only: mult_1) simp
qed

text \<open>A request that is rounded to one page is granted as long as the kernel pool has one: its page leaves the pool.\<close>
lemma big_block_granted:
  assumes "malloc_ok A s" and "DIV_ROUND_UP (sz + SIZEOF_ARENA) PGSIZE = 1" and "0 < free_count (pages s)"
  shows "big_block sz s \<noteq> Some (0, s)"
proof -
  have "palloc_ok (pages s)"
    using assms(1) by (simp add: malloc_ok_def arenas_ok_def)
  from palloc_get_count [OF this assms(3), of 0] obtain a p where
    g: "palloc_get_multiple 0 1 (pages s) = Some (a, p)" "a \<noteq> 0" "free_count p = free_count (pages s) - 1"
    by auto
  let ?s = "init_arena a 0 1 (s\<lparr>pages := p\<rparr>)"
  have "big_block sz s = Some (a + SIZEOF_ARENA, ?s)"
    using g(1,2) assms(2) by (simp add: big_block_def)
  moreover have "free_count (pages ?s) = free_count (pages s) - 1"
    using g(3) by (simp add: free_count_def)
  then have "?s \<noteq> s"
    using assms(3) by auto
  ultimately show ?thesis
    by auto
qed

text \<open>C36: The sum of a size and the header is not checked either: a request for 11 bytes less than 4 GB or more is
  rounded to a single page.  As long as the kernel pool has a free page, such a request succeeds, and what is
  returned is a block of 4084 bytes.\<close>
theorem malloc_wraps:
  assumes "malloc_ok A s" and "2 ^ 32 < unat sz + 12" and "0 < free_count (pages s)"
  shows "\<exists>b s' A'. malloc_bytes sz s = Some (b, s') \<and> malloc_ok A' s' \<and>
    b \<noteq> 0 \<and> (unat b, 4084) \<in> live A' s' \<and> block_bytes b s' = Some 4084"
proof -
  have m: "malloc_bytes sz s = big_block sz s"
    using assms(1,2) by (intro big_request) (simp_all add: malloc_ok_def arenas_ok_def)
  have "unat (sz + 12) = unat sz + 12 - 2 ^ 32"
    using assms(2) unat_bound32 [of sz] by (simp add: unat_word_ariths le_mod_geq)
  then have "unat (DIV_ROUND_UP (sz + SIZEOF_ARENA) PGSIZE) = 1"
    using assms(2) unat_bound32 [of sz] by (subst unat_DIV_ROUND_UP) (simp_all add: SIZEOF_ARENA_def page_consts div_nat_eqI)
  then have one: "DIV_ROUND_UP (sz + SIZEOF_ARENA) PGSIZE = 1"
    by (simp add: word_unat_eq_iff)
  from big_block_spec [of A s sz, unfolded one unat_1, OF assms(1) zero_less_one] show ?thesis
    unfolding m
  proof (elim disjE exE conjE)
    assume "big_block sz s = Some (0, s)"
    with big_block_granted [OF assms(1) one assms(3)] show
      "\<exists>b s' A'. big_block sz s = Some (b, s') \<and> malloc_ok A' s' \<and> b \<noteq> 0 \<and> (unat b, 4084) \<in> live A' s' \<and> block_bytes b s' = Some 4084"
      by (rule notE)
  next
    fix p s'
    let ?b = "of_nat (4096 * p + 12) :: u32"
    assume s': "big_block sz s = Some (?b, s')" "unat ?b = 4096 * p + 12" "malloc_ok (A(p \<mapsto> Big 1)) s'"
      "live (A(p \<mapsto> Big 1)) s' = insert (4096 * p + 12, 4096 * 1 - 12) (live A s)"
    have lv: "(4096 * p + 12, 4084) \<in> live (A(p \<mapsto> Big 1)) s'"
      using s'(4) by simp
    obtain w where w: "block_bytes ?b s' = Some w" "unat w = 4084"
      using block_bytes_spec [OF s'(3) lv] .
    have "w = 4084"
      using w(2) by (simp add: word_unat_eq_iff)
    moreover have "?b \<noteq> 0"
      using s'(2) by (metis add_is_0 unat_0 zero_neq_numeral)
    ultimately show "\<exists>b s' A'. big_block sz s = Some (b, s') \<and> malloc_ok A' s' \<and>
        b \<noteq> 0 \<and> (unat b, 4084) \<in> live A' s' \<and> block_bytes b s' = Some 4084"
      using s'(1-3) lv w(1) by (intro exI [of _ ?b] exI [of _ s'] exI [of _ "A(p \<mapsto> Big 1)"]) (simp only: simp_thms)
  qed
qed

theorem malloc_wraps_witness:
  "\<exists>s b s'. malloc_init 0xc0030000 small_pools = Some s \<and> malloc_bytes 0xfffffff5 s = Some (b, s') \<and> b \<noteq> 0 \<and> block_bytes b s' = Some 4084"
proof -
  obtain s where s: "malloc_init 0xc0030000 small_pools = Some s" "malloc_ok (\<lambda>_. None) s" "pages s = small_pools"
    using malloc_init_ok [OF small_pools_ok, of "0xc0030000"] by auto
  have "bm_used (used_map (kernel_pool small_pools)) = {}"
    by (auto simp: bm_used_def bm_bit_def small_pools_def)
  then have "free_count small_pools = 4"
    by (simp add: free_count_def pool_size_def small_pools_def)
  then show ?thesis
    using malloc_wraps [OF s(2), of "0xfffffff5"] s(1,3) by auto
qed

end
