(* ===== verification/Stdio.thy ===== *)
theory Stdio
  imports Stdlib
begin

text \<open>
  \<^verbatim>\<open>lib/stdio.c\<close>: formatted output.  The format and the strings it refers to lie in a byte memory (as in
  \<open>Strings\<close>), which formatting only reads; a \<^verbatim>\<open>va_list\<close> is the list of the 32-bit words on the caller's
  stack, a 64-bit argument taking two, the low one first.  The output callback does not influence the
  formatting, so \<^verbatim>\<open>__vprintf\<close> returns the list of the characters it passes to the callback, in order, and
  \<^verbatim>\<open>vsnprintf\<close> runs \<^verbatim>\<open>vsnprintf_helper\<close> on that list; its buffer is an object of its own.  An \<^verbatim>\<open>int\<close> is a 32-bit
  word that is compared as a signed number, \<^verbatim>\<open>intmax_t\<close> has 64 bits.
\<close>

section \<open>Conversions\<close>

type_synonym va_list = "u32 list"

definition ascii :: "string \<Rightarrow> u8 list" where
  "ascii = map of_char"

definition MINUS :: u32 where "MINUS = 1"
definition PLUS :: u32 where "PLUS = 2"
definition SPACE :: u32 where "SPACE = 4"
definition POUND :: u32 where "POUND = 8"
definition ZERO :: u32 where "ZERO = 16"
definition GROUP :: u32 where "GROUP = 32"

datatype arg_type = T_CHAR | T_SHORT | T_INT | T_INTMAX | T_LONG | T_LONGLONG | T_PTRDIFFT | T_SIZET

record printf_conversion =
  flags :: u32
  width :: u32
  precision :: u32
  type :: arg_type

datatype integer_base = base_d | base_o | base_x | base_X

fun base :: "integer_base \<Rightarrow> u64" where
  "base base_d = 10"
| "base base_o = 8"
| "base base_x = 16"
| "base base_X = 16"

fun digits :: "integer_base \<Rightarrow> u8 list" where
  "digits base_d = ascii ''0123456789''"
| "digits base_o = ascii ''01234567''"
| "digits base_x = ascii ''0123456789abcdef''"
| "digits base_X = ascii ''0123456789ABCDEF''"

fun x_char :: "integer_base \<Rightarrow> u8" where
  "x_char base_x = 120"
| "x_char base_X = 88"
| "x_char _ = 0"

fun group_len :: "integer_base \<Rightarrow> nat" where
  "group_len base_d = 3"
| "group_len base_o = 3"
| "group_len base_x = 4"
| "group_len base_X = 4"

definition has :: "u32 \<Rightarrow> u32 \<Rightarrow> bool" where
  "has fl f \<longleftrightarrow> fl AND f \<noteq> 0"

definition flag_of :: "u8 \<Rightarrow> u32" where
  "flag_of c = (if c = 45 then MINUS else if c = 43 then PLUS else if c = 32 then SPACE
     else if c = 35 then POUND else if c = 48 then ZERO else if c = 39 then GROUP else 0)"

function parse_flags :: "mem \<Rightarrow> ptr \<Rightarrow> u32 \<Rightarrow> (u32 \<times> ptr) kernel" where
  "parse_flags m p fl = do {
     c \<leftarrow> fetch m p;
     if flag_of c \<noteq> 0 then parse_flags m (p + 1) (fl OR flag_of c) else Some (fl, p)
   }"
  by pat_completeness auto
termination
  by (relation "measure (\<lambda>(m, p, fl). length m - p)") (auto simp: fetch_eq_Some_iff)

function parse_number :: "mem \<Rightarrow> ptr \<Rightarrow> u32 \<Rightarrow> (u32 \<times> ptr) kernel" where
  "parse_number m p v = do {
     c \<leftarrow> fetch m p;
     if isdigit c then parse_number m (p + 1) (v * 10 + ucast c - 48) else Some (v, p)
   }"
  by pat_completeness auto
termination
  by (relation "measure (\<lambda>(m, p, v). length m - p)") (auto simp: fetch_eq_Some_iff)

declare parse_flags.simps [simp del] parse_number.simps [simp del]

fun va_int :: "va_list \<Rightarrow> (u32 \<times> va_list) kernel" where
  "va_int (a # args) = Some (a, args)"
| "va_int [] = None"

fun va_int64 :: "va_list \<Rightarrow> (u64 \<times> va_list) kernel" where
  "va_int64 (a # b # args) = Some (ucast a OR push_bit 32 (ucast b), args)"
| "va_int64 _ = None"

definition parse_width :: "mem \<Rightarrow> ptr \<Rightarrow> va_list \<Rightarrow> (u32 \<times> ptr \<times> va_list) kernel" where
  "parse_width m p args = do {
     c \<leftarrow> fetch m p;
     if c = 42 then do { (w, args) \<leftarrow> va_int args; Some (w, p + 1, args) }
     else do { (w, p) \<leftarrow> parse_number m p 0; Some (w, p, args) }
   }"

definition parse_precision :: "mem \<Rightarrow> ptr \<Rightarrow> va_list \<Rightarrow> (u32 \<times> ptr \<times> va_list) kernel" where
  "parse_precision m p args = do {
     c \<leftarrow> fetch m p;
     if c = 46
     then do {
       (pr, p, args) \<leftarrow> parse_width m (p + 1) args;
       Some (if pr <s 0 then - 1 else pr, p, args)
     }
     else Some (- 1, p, args)
   }"

definition parse_type :: "mem \<Rightarrow> ptr \<Rightarrow> (arg_type \<times> ptr) kernel" where
  "parse_type m p = do {
     c \<leftarrow> fetch m p;
     if c = 104 then do { c \<leftarrow> fetch m (p + 1); Some (if c = 104 then (T_CHAR, p + 2) else (T_SHORT, p + 1)) }
     else if c = 106 then Some (T_INTMAX, p + 1)
     else if c = 108 then do { c \<leftarrow> fetch m (p + 1); Some (if c = 108 then (T_LONGLONG, p + 2) else (T_LONG, p + 1)) }
     else if c = 116 then Some (T_PTRDIFFT, p + 1)
     else if c = 122 then Some (T_SIZET, p + 1)
     else Some (T_INT, p)
   }"

definition parse_conversion :: "mem \<Rightarrow> ptr \<Rightarrow> va_list \<Rightarrow> (printf_conversion \<times> ptr \<times> va_list) kernel" where
  "parse_conversion m p args = do {
     (fl, p) \<leftarrow> parse_flags m p 0;
     let fl = (if has fl MINUS then fl AND NOT ZERO else fl);
     let fl = (if has fl PLUS then fl AND NOT SPACE else fl);
     (w, p, args) \<leftarrow> parse_width m p args;
     let (w, fl) = (if w <s 0 then (- w, fl OR MINUS) else (w, fl));
     (pr, p, args) \<leftarrow> parse_precision m p args;
     let fl = (if 0 \<le>s pr then fl AND NOT ZERO else fl);
     (ty, p) \<leftarrow> parse_type m p;
     Some (\<lparr>flags = fl, width = w, precision = pr, type = ty\<rparr>, p, args)
   }"

section \<open>Integers and strings\<close>

definition output_dup :: "u8 \<Rightarrow> u32 \<Rightarrow> u8 list" where
  "output_dup c cnt = replicate (unat cnt) c"

text \<open>The buffer of \<^verbatim>\<open>format_integer\<close> has 64 characters; \<^verbatim>\<open>cp\<close> points behind the last one stored.\<close>
definition push_char :: "u8 \<Rightarrow> u8 list \<Rightarrow> u8 list kernel" where
  "push_char c buf = (if length buf < 64 then Some (buf @ [c]) else None)"

lemma base_gt_1: "Suc 0 < unat (base b)"
  by (cases b) simp_all

function digit_loop :: "u32 \<Rightarrow> integer_base \<Rightarrow> u64 \<Rightarrow> nat \<Rightarrow> u8 list \<Rightarrow> u8 list kernel" where
  "digit_loop fl b v digit_cnt buf =
     (if 0 < v
      then do {
        buf \<leftarrow> (if has fl GROUP \<and> 0 < digit_cnt \<and> digit_cnt mod group_len b = 0 then push_char 44 buf else Some buf);
        d \<leftarrow> fetch (digits b) (unat (v mod base b));
        buf \<leftarrow> push_char d buf;
        digit_loop fl b (v div base b) (digit_cnt + 1) buf
      }
      else Some buf)"
  by pat_completeness auto
termination
  by (relation "measure (\<lambda>(fl, b, v, n, buf). unat v)") (auto simp: unat_div unat_gt_0 base_gt_1 intro!: div_less_dividend)

function precision_loop :: "u32 \<Rightarrow> u8 list \<Rightarrow> u8 list kernel" where
  "precision_loop pr buf =
     (if int (length buf) < sint pr \<and> length buf < 63
      then do { buf \<leftarrow> push_char 48 buf; precision_loop pr buf }
      else Some buf)"
  by pat_completeness auto
termination
  by (relation "measure (\<lambda>(pr, buf). 63 - length buf)") (auto simp: push_char_def split: if_splits)

declare digit_loop.simps [simp del] precision_loop.simps [simp del]

definition sign_char :: "bool \<Rightarrow> bool \<Rightarrow> u32 \<Rightarrow> u8" where
  "sign_char is_signed negative fl =
     (if \<not> is_signed then 0
      else if has fl PLUS then (if negative then 45 else 43)
      else if has fl SPACE then (if negative then 45 else 32)
      else if negative then 45 else 0)"

definition digit_buffer :: "u64 \<Rightarrow> integer_base \<Rightarrow> printf_conversion \<Rightarrow> u8 list kernel" where
  "digit_buffer v b c = do {
     buf \<leftarrow> digit_loop (flags c) b v 0 [];
     buf \<leftarrow> precision_loop (if precision c <s 0 then 1 else precision c) buf;
     if has (flags c) POUND \<and> base b = 8 \<and> (buf = [] \<or> last buf \<noteq> 48) then push_char 48 buf else Some buf
   }"

definition format_integer :: "u64 \<Rightarrow> bool \<Rightarrow> bool \<Rightarrow> integer_base \<Rightarrow> printf_conversion \<Rightarrow> u8 list kernel" where
  "format_integer v is_signed negative b c = do {
     let sign = sign_char is_signed negative (flags c);
     let x = (if has (flags c) POUND \<and> v \<noteq> 0 then x_char b else 0);
     buf \<leftarrow> digit_buffer v b c;
     let pad = width c - of_nat (length buf) - (if x \<noteq> 0 then 2 else 0) - (if sign \<noteq> 0 then 1 else 0);
     let pad = (if pad <s 0 then 0 else pad);
     Some ((if has (flags c) (MINUS OR ZERO) then [] else output_dup 32 pad) @
       (if sign \<noteq> 0 then [sign] else []) @ (if x \<noteq> 0 then [48, x] else []) @
       (if has (flags c) ZERO then output_dup 48 pad else []) @ rev buf @
       (if has (flags c) MINUS then output_dup 32 pad else []))
   }"

fun read_chars :: "mem \<Rightarrow> ptr \<Rightarrow> nat \<Rightarrow> u8 list kernel" where
  "read_chars m s 0 = Some []"
| "read_chars m s (Suc n) = do { c \<leftarrow> fetch m s; cs \<leftarrow> read_chars m (s + 1) n; Some (c # cs) }"

definition format_string :: "mem \<Rightarrow> ptr \<Rightarrow> u32 \<Rightarrow> printf_conversion \<Rightarrow> u8 list kernel" where
  "format_string m s len c = do {
     cs \<leftarrow> read_chars m s (nat (sint len));
     let pad = (if len <s width c then output_dup 32 (width c - len) else []);
     Some ((if has (flags c) MINUS then [] else pad) @ cs @ (if has (flags c) MINUS then pad else []))
   }"

section \<open>The formatter\<close>

definition signed_arg :: "arg_type \<Rightarrow> va_list \<Rightarrow> (u64 \<times> va_list) kernel" where
  "signed_arg t args =
     (if t = T_INTMAX \<or> t = T_LONGLONG then va_int64 args
      else do {
        (a, args) \<leftarrow> va_int args;
        Some (case t of
                T_CHAR \<Rightarrow> scast (ucast a :: u8)
              | T_SHORT \<Rightarrow> scast (ucast a :: u16)
              | T_SIZET \<Rightarrow> (let v = ucast a in if 0x7fffffff < v then v - 0xffffffff - 1 else v)
              | _ \<Rightarrow> scast a, args)
      })"

definition unsigned_arg :: "arg_type \<Rightarrow> va_list \<Rightarrow> (u64 \<times> va_list) kernel" where
  "unsigned_arg t args =
     (if t = T_INTMAX \<or> t = T_LONGLONG then va_int64 args
      else do {
        (a, args) \<leftarrow> va_int args;
        Some (case t of
                T_CHAR \<Rightarrow> ucast (ucast a :: u8)
              | T_SHORT \<Rightarrow> ucast (ucast a :: u16)
              | T_PTRDIFFT \<Rightarrow> scast a AND (push_bit 1 0x7fffffff OR 1)
              | _ \<Rightarrow> ucast a, args)
      })"

definition null_string :: "u8 list" where
  "null_string = ascii ''(null)'' @ [0]"

definition convert :: "mem \<Rightarrow> printf_conversion \<Rightarrow> u8 \<Rightarrow> va_list \<Rightarrow> (u8 list \<times> va_list) kernel" where
  "convert m c ch args =
     (if ch = 100 \<or> ch = 105
      then do {
        (v, args) \<leftarrow> signed_arg (type c) args;
        out \<leftarrow> format_integer (if v <s 0 then - v else v) True (v <s 0) base_d c;
        Some (out, args)
      }
      else if ch = 111 \<or> ch = 117 \<or> ch = 120 \<or> ch = 88
      then do {
        (v, args) \<leftarrow> unsigned_arg (type c) args;
        out \<leftarrow> format_integer v False False
          (if ch = 111 then base_o else if ch = 117 then base_d else if ch = 120 then base_x else base_X) c;
        Some (out, args)
      }
      else if ch = 99
      then do {
        (a, args) \<leftarrow> va_int args;
        out \<leftarrow> format_string [ucast a] 0 1 c;
        Some (out, args)
      }
      else if ch = 115
      then do {
        (a, args) \<leftarrow> va_int args;
        let (m, s) = (if a = 0 then (null_string, 0) else (m, unat a));
        n \<leftarrow> strnlen m s (unat (precision c));
        out \<leftarrow> format_string m s (of_nat n) c;
        Some (out, args)
      }
      else if ch = 112
      then do {
        (a, args) \<leftarrow> va_int args;
        out \<leftarrow> format_integer (ucast a) False False base_x (c\<lparr>flags := POUND\<rparr>);
        Some (out, args)
      }
      else if ch \<in> set (ascii ''feEgGn'') then Some (ascii ''<<no %'' @ [ch] @ ascii '' in kernel>>'', args)
      else Some (ascii ''<<no %'' @ [ch] @ ascii '' conversion>>'', args))"

lemma parse_flags_forward: "parse_flags m p fl = Some (fl', p') \<Longrightarrow> p \<le> p' \<and> p' < length m"
proof (induction m p fl rule: parse_flags.induct)
  case (1 m p fl)
  then show ?case
    by (subst (asm) (2) parse_flags.simps) (auto simp: bind_Some_iff fetch_eq_Some_iff split: if_splits)
qed

lemma parse_number_forward: "parse_number m p v = Some (v', p') \<Longrightarrow> p \<le> p' \<and> p' < length m"
proof (induction m p v rule: parse_number.induct)
  case (1 m p v)
  then show ?case
    by (subst (asm) (2) parse_number.simps) (auto simp: bind_Some_iff fetch_eq_Some_iff split: if_splits)
qed

lemma parse_width_forward: "parse_width m p args = Some (w, p', args') \<Longrightarrow> p \<le> p'"
  by (auto simp: parse_width_def bind_Some_iff split: if_splits dest: parse_number_forward)

lemma parse_precision_forward: "parse_precision m p args = Some (w, p', args') \<Longrightarrow> p \<le> p'"
  by (auto simp: parse_precision_def bind_Some_iff split: if_splits dest!: parse_width_forward)

lemma parse_type_forward: "parse_type m p = Some (t, p') \<Longrightarrow> p \<le> p'"
  by (auto simp: parse_type_def bind_Some_iff split: if_splits)

lemma parse_conversion_forward:
  assumes "parse_conversion m p args = Some (c, p', args')"
  shows "p \<le> p'"
proof -
  obtain fl p1 where 1: "parse_flags m p 0 = Some (fl, p1)"
    using assms by (cases "parse_flags m p 0") (auto simp: parse_conversion_def)
  obtain w p2 args1 where 2: "parse_width m p1 args = Some (w, p2, args1)"
    using assms 1 by (cases "parse_width m p1 args") (auto simp: parse_conversion_def)
  obtain pr p3 args2 where 3: "parse_precision m p2 args1 = Some (pr, p3, args2)"
    using assms 1 2 by (cases "parse_precision m p2 args1") (auto simp: parse_conversion_def Let_def split_beta)
  have 4: "\<exists>t. parse_type m p3 = Some (t, p')"
    using assms 1 2 3 by (cases "parse_type m p3") (auto simp: parse_conversion_def Let_def split_beta)
  show ?thesis
    using parse_flags_forward [OF 1] parse_width_forward [OF 2] parse_precision_forward [OF 3] 4 parse_type_forward [of m p3] by auto
qed

function vprintf_out :: "mem \<Rightarrow> ptr \<Rightarrow> va_list \<Rightarrow> u8 list kernel" where
  "vprintf_out m p args = do {
     c \<leftarrow> fetch m p;
     if c = 0 then Some []
     else if c \<noteq> 37 then do { out \<leftarrow> vprintf_out m (p + 1) args; Some (c # out) }
     else do {
       c \<leftarrow> fetch m (p + 1);
       if c = 37 then do { out \<leftarrow> vprintf_out m (p + 2) args; Some (37 # out) }
       else do {
         (cv, p', args) \<leftarrow> parse_conversion m (p + 1) args;
         c \<leftarrow> fetch m p';
         (o1, args) \<leftarrow> convert m cv c args;
         out \<leftarrow> vprintf_out m (p' + 1) args;
         Some (o1 @ out)
       }
     }
   }"
  by pat_completeness auto
termination
  by (relation "measure (\<lambda>(m, p, args). length m - p)") (auto simp: fetch_eq_Some_iff dest!: parse_conversion_forward)

declare vprintf_out.simps [simp del]

text \<open>\<^verbatim>\<open>printf\<close> with a constant format.\<close>
definition printf_out :: "string \<Rightarrow> va_list \<Rightarrow> u8 list kernel" where
  "printf_out fmt args = vprintf_out (0 # ascii fmt @ [0]) 1 args"

section \<open>Output to a buffer\<close>

record vsnprintf_aux =
  out_p :: nat
  out_length :: u32
  max_length :: u32

definition vsnprintf_helper :: "u8 \<Rightarrow> vsnprintf_aux \<times> u8 list \<Rightarrow> (vsnprintf_aux \<times> u8 list) kernel" where
  "vsnprintf_helper ch = (\<lambda>(aux, buf).
     (if out_length aux <s max_length aux
      then do {
        buf \<leftarrow> store buf (out_p aux) ch;
        Some (aux\<lparr>out_p := out_p aux + 1, out_length := out_length aux + 1\<rparr>, buf)
      }
      else Some (aux\<lparr>out_length := out_length aux + 1\<rparr>, buf)))"

fun run_output :: "u8 list \<Rightarrow> vsnprintf_aux \<times> u8 list \<Rightarrow> (vsnprintf_aux \<times> u8 list) kernel" where
  "run_output [] s = Some s"
| "run_output (c # cs) s = do { s \<leftarrow> vsnprintf_helper c s; run_output cs s }"

definition vsnprintf :: "u8 list \<Rightarrow> size_t \<Rightarrow> mem \<Rightarrow> ptr \<Rightarrow> va_list \<Rightarrow> (u32 \<times> u8 list) kernel" where
  "vsnprintf buffer buf_size m format args = do {
     out \<leftarrow> vprintf_out m format args;
     (aux, buffer) \<leftarrow> run_output out
        (\<lparr>out_p = 0, out_length = 0, max_length = (if 0 < buf_size then buf_size - 1 else 0)\<rparr>, buffer);
     buffer \<leftarrow> (if 0 < buf_size then store buffer (out_p aux) 0 else Some buffer);
     Some (out_length aux, buffer)
   }"

section \<open>Hex dumps\<close>

definition isprint :: "u8 \<Rightarrow> bool" where
  "isprint c \<longleftrightarrow> 32 \<le> c \<and> c < 127"

fun print_each :: "(nat \<Rightarrow> u8 list kernel) \<Rightarrow> nat list \<Rightarrow> u8 list kernel" where
  "print_each f [] = Some []"
| "print_each f (i # is) = do { a \<leftarrow> f i; b \<leftarrow> print_each f is; Some (a @ b) }"

definition hex_line :: "u32 \<Rightarrow> mem \<Rightarrow> ptr \<Rightarrow> nat \<Rightarrow> nat \<Rightarrow> bool \<Rightarrow> u8 list kernel" where
  "hex_line ofs m p start end asc = do {
     o1 \<leftarrow> printf_out ''%08jx  '' [ROUND_DOWN ofs 16, 0];
     o2 \<leftarrow> print_each (\<lambda>i. printf_out ''   '' []) [0..<start];
     o3 \<leftarrow> print_each (\<lambda>i. do { c \<leftarrow> fetch m (p + (i - start)); printf_out ''%02hhx%c'' [ucast c, if i = 7 then 45 else 32] })
            [start..<end];
     o4 \<leftarrow> (if asc
             then do {
               a \<leftarrow> print_each (\<lambda>i. printf_out ''   '' []) [end..<16];
               b \<leftarrow> print_each (\<lambda>i. printf_out '' '' []) [0..<start];
               c \<leftarrow> print_each (\<lambda>i. do { c \<leftarrow> fetch m (p + (i - start)); printf_out ''%c'' [if isprint c then ucast c else 46] })
                      [start..<end];
               d \<leftarrow> print_each (\<lambda>i. printf_out '' '' []) [end..<16];
               Some (a @ [124] @ b @ c @ d @ [124])
             }
             else Some []);
     Some (o1 @ o2 @ o3 @ o4 @ [10])
   }"

function hex_dump :: "u32 \<Rightarrow> mem \<Rightarrow> ptr \<Rightarrow> nat \<Rightarrow> bool \<Rightarrow> u8 list kernel" where
  "hex_dump ofs m p sz asc =
     (if 0 < sz
      then do {
        let start = unat ofs mod 16;
        let end = (if sz < 16 - start then start + sz else 16);
        o1 \<leftarrow> hex_line ofs m p start end asc;
        o2 \<leftarrow> hex_dump (ofs + of_nat (end - start)) m (p + (end - start)) (sz - (end - start)) asc;
        Some (o1 @ o2)
      }
      else Some [])"
  by pat_completeness auto
termination
  by (relation "measure (\<lambda>(ofs, m, p, sz, asc). sz)") (auto simp: Let_def)

declare hex_dump.simps [simp del]

section \<open>Digits\<close>

text \<open>The digits of a number, the last one first, and the number that a text of digits denotes; commas, which
  separate groups of digits, do not count.\<close>
fun radix :: "nat \<Rightarrow> nat \<Rightarrow> nat list" where
  "radix b n = (if n = 0 \<or> b \<le> 1 then [] else n mod b # radix b (n div b))"

declare radix.simps [simp del]

definition digit_val :: "u8 \<Rightarrow> nat" where
  "digit_val c = (if c \<le> 57 then unat c - 48 else if c \<le> 70 then unat c - 55 else unat c - 87)"

definition number :: "nat \<Rightarrow> u8 list \<Rightarrow> nat" where
  "number b cs = foldl (\<lambda>n c. n * b + digit_val c) 0 (filter (\<lambda>c. c \<noteq> 44) cs)"

lemma radix_length: "1 < b \<Longrightarrow> n < b ^ k \<Longrightarrow> length (radix b n) \<le> k"
proof (induction k arbitrary: n)
  case (Suc k)
  then have "n div b < b ^ k"
    by (simp add: div_less_iff_less_mult mult.commute)
  then show ?case
    using Suc by (subst radix.simps) auto
qed (simp add: radix.simps)

lemma radix_64:
  assumes "8 \<le> b" and "n < 2 ^ 64"
  shows "length (radix b n) \<le> 22"
proof -
  have "n < 8 ^ 22"
    using assms(2) by simp
  also have "(8 :: nat) ^ 22 \<le> b ^ 22"
    using assms(1) by (rule power_mono) simp
  finally show ?thesis
    using assms(1) by (intro radix_length) simp_all
qed

lemma digit_lists:
  "digits base_d = [48, 49, 50, 51, 52, 53, 54, 55, 56, 57]" "digits base_o = [48, 49, 50, 51, 52, 53, 54, 55]"
  "digits base_x = [48, 49, 50, 51, 52, 53, 54, 55, 56, 57, 97, 98, 99, 100, 101, 102]"
  "digits base_X = [48, 49, 50, 51, 52, 53, 54, 55, 56, 57, 65, 66, 67, 68, 69, 70]"
  by (simp_all add: ascii_def)

declare digits.simps [simp del]

lemma digit_table:
  assumes "d < unat (base b)"
  shows "d < length (digits b)" and "digit_val (digits b ! d) = d" and "digits b ! d \<noteq> 44"
proof -
  have len: "length (digits b) = unat (base b)"
    by (cases b) (simp_all add: digit_lists)
  have "map digit_val (digits b) = [0..<unat (base b)]"
    by (cases b) (simp_all add: digit_lists digit_val_def upt_rec)
  then have "digit_val (digits b ! d) = d"
    using assms len by (metis add_0 nth_map nth_upt)
  moreover have "44 \<notin> set (digits b)"
    by (cases b) (simp_all add: digit_lists)
  ultimately have "d < length (digits b) \<and> digit_val (digits b ! d) = d \<and> digits b ! d \<noteq> 44"
    using assms len by (metis nth_mem)
  then show "d < length (digits b)" "digit_val (digits b ! d) = d" "digits b ! d \<noteq> 44"
    by simp_all
qed

lemma base_ge_8: "8 \<le> unat (base b)"
  by (cases b) simp_all

definition digit_chars :: "integer_base \<Rightarrow> u64 \<Rightarrow> u8 list" where
  "digit_chars b v = map (\<lambda>d. digits b ! d) (radix (unat (base b)) (unat v))"

lemma digit_chars_step:
  "0 < v \<Longrightarrow> digit_chars b v = digits b ! unat (v mod base b) # digit_chars b (v div base b)"
  using base_ge_8 [of b] by (simp add: digit_chars_def radix.simps [of _ "unat v"] unat_div unat_mod unat_gt_0)

lemma digit_chars_length: "length (digit_chars b v) \<le> 22"
  using radix_64 [OF base_ge_8] unsigned_less [of v] by (simp add: digit_chars_def)

lemma digit_chars_no_comma: "c \<in> set (digit_chars b v) \<Longrightarrow> c \<noteq> 44"
proof -
  have "d < unat (base b)" if "d \<in> set (radix (unat (base b)) n)" for d n
    using that base_ge_8 [of b] by (induction "unat (base b)" n rule: radix.induct) (subst (asm) (2) radix.simps, auto split: if_splits)
  then show "c \<in> set (digit_chars b v) \<Longrightarrow> c \<noteq> 44"
    using digit_table(3) by (auto simp: digit_chars_def)
qed

text \<open>The loop stores the digits, with commas in between if asked to; it never leaves the buffer.\<close>
lemma digit_loop_spec:
  "length buf + 2 * length (digit_chars b v) \<le> 64 \<Longrightarrow>
    \<exists>buf'. digit_loop fl b v n buf = Some buf' \<and> length buf' \<le> length buf + 2 * length (digit_chars b v) \<and>
      filter (\<lambda>c. c \<noteq> 44) buf' = filter (\<lambda>c. c \<noteq> 44) buf @ digit_chars b v \<and>
      (\<not> has fl GROUP \<longrightarrow> buf' = buf @ digit_chars b v)"
proof (induction fl b v n buf rule: digit_loop.induct)
  case (1 fl b v n buf)
  show ?case
  proof (cases "0 < v")
    case False
    then have "v = 0"
      by (simp add: word_gt_0)
    then show ?thesis
      by (simp add: digit_loop.simps digit_chars_def radix.simps)
  next
    case True
    let ?d = "digits b ! unat (v mod base b)"
    let ?buf = "if has fl GROUP \<and> 0 < n \<and> n mod group_len b = 0 then buf @ [44] else buf"
    note st = digit_chars_step [OF True, of b]
    have lt: "unat (v mod base b) < unat (base b)"
      using base_ge_8 [of b] by (simp add: unat_mod)
    have len: "length ?buf < 64" "length buf < 64" "length (?buf @ [?d]) + 2 * length (digit_chars b (v div base b)) \<le> 64"
      using 1(2) st by (auto split: if_splits)
    have c1: "(if has fl GROUP \<and> 0 < n \<and> n mod group_len b = 0 then push_char 44 buf else Some buf) = Some ?buf"
      using len by (simp add: push_char_def)
    have c2: "fetch (digits b) (unat (v mod base b)) = Some ?d" "push_char ?d ?buf = Some (?buf @ [?d])"
      using digit_table(1) [OF lt] len(1) by (simp_all add: kernel_simps push_char_def)
    have "digit_loop fl b v n buf = digit_loop fl b (v div base b) (n + 1) (?buf @ [?d])"
      by (subst digit_loop.simps) (simp only: True if_True c1 c2 Option.bind.simps)
    moreover from 1(1) [OF True c1 c2 len(3)] obtain buf' where
      "digit_loop fl b (v div base b) (n + 1) (?buf @ [?d]) = Some buf'"
      "length buf' \<le> length (?buf @ [?d]) + 2 * length (digit_chars b (v div base b))"
      "filter (\<lambda>c. c \<noteq> 44) buf' = filter (\<lambda>c. c \<noteq> 44) (?buf @ [?d]) @ digit_chars b (v div base b)"
      "\<not> has fl GROUP \<longrightarrow> buf' = (?buf @ [?d]) @ digit_chars b (v div base b)"
      by blast
    ultimately show ?thesis
      using st digit_table(3) [OF lt] by (intro exI [of _ buf']) (auto split: if_splits)
  qed
qed

lemma precision_loop_spec:
  "precision_loop pr buf = Some (buf @ replicate (min 63 (nat (sint pr)) - length buf) 48)"
proof (induction pr buf rule: precision_loop.induct)
  case (1 pr buf)
  show ?case
  proof (cases "int (length buf) < sint pr \<and> length buf < 63")
    case True
    then have p: "push_char 48 buf = Some (buf @ [48])"
      by (simp add: push_char_def)
    have "length buf < min 63 (nat (sint pr))"
      using True by linarith
    then have "min 63 (nat (sint pr)) - length buf = Suc (min 63 (nat (sint pr)) - length (buf @ [48]))"
      by (metis Suc_diff_Suc length_append_singleton)
    then show ?thesis
      using 1 [OF True p] True p by (subst precision_loop.simps) simp
  next
    case False
    then have "min 63 (nat (sint pr)) - length buf = 0"
      by auto
    then show ?thesis
      using False by (subst precision_loop.simps) auto
  qed
qed

lemma digit_buffer_spec:
  obtains buf z where "digit_buffer v b c = Some buf" and "length buf \<le> 64"
    and "filter (\<lambda>c. c \<noteq> 44) buf = digit_chars b v @ replicate z 48"
    and "\<not> has (flags c) GROUP \<longrightarrow> buf = digit_chars b v @ replicate z 48"
    and "\<not> has (flags c) POUND \<longrightarrow> \<not> has (flags c) GROUP \<longrightarrow>
      z = min 63 (nat (sint (if precision c <s 0 then 1 else precision c))) - length (digit_chars b v)"
proof -
  obtain buf where b: "digit_loop (flags c) b v 0 [] = Some buf" "length buf \<le> 2 * length (digit_chars b v)"
    "filter (\<lambda>c. c \<noteq> 44) buf = digit_chars b v" "\<not> has (flags c) GROUP \<longrightarrow> buf = digit_chars b v"
    using digit_loop_spec [of "[]" b v "flags c" 0] digit_chars_length [of b v] by auto
  define k where "k = min 63 (nat (sint (if precision c <s 0 then 1 else precision c))) - length buf"
  define buf1 where "buf1 = buf @ replicate k 48"
  have len: "length buf1 \<le> 63"
    using b(2) digit_chars_length [of b v] by (auto simp: k_def buf1_def)
  have "precision_loop (if precision c <s 0 then 1 else precision c) buf = Some buf1"
    unfolding buf1_def k_def by (rule precision_loop_spec)
  then have d: "digit_buffer v b c = (if has (flags c) POUND \<and> base b = 8 \<and> (buf1 = [] \<or> last buf1 \<noteq> 48)
      then Some (buf1 @ [48]) else Some buf1)"
    using len by (simp add: digit_buffer_def b(1) push_char_def)
  define z where "z = (if has (flags c) POUND \<and> base b = 8 \<and> (buf1 = [] \<or> last buf1 \<noteq> 48) then Suc k else k)"
  have "digit_buffer v b c = Some (buf @ replicate z 48)" "length (buf @ replicate z 48) \<le> 64"
    using d len by (auto simp: z_def buf1_def replicate_append_same)
  then show thesis
    using b(3,4) by (intro that [of "buf @ replicate z 48" z]) (auto simp: z_def k_def)
qed

lemma radix_value: "1 < b \<Longrightarrow> foldr (\<lambda>d n. n * b + d) (radix b n) 0 = n"
proof (induction b n rule: radix.induct)
  case (1 b n)
  show ?case
  proof (cases "n = 0")
    case False
    then show ?thesis
      using 1 by (subst radix.simps) simp
  qed (simp add: radix.simps)
qed

lemma radix_below: "1 < b \<Longrightarrow> d \<in> set (radix b n) \<Longrightarrow> d < b"
proof (induction b n rule: radix.induct)
  case (1 b n)
  then show ?case
    by (subst (asm) (2) radix.simps) (auto split: if_splits)
qed

lemma digit_chars_value: "foldr (\<lambda>c n. n * unat (base b) + digit_val c) (digit_chars b v) 0 = unat v"
proof -
  let ?B = "unat (base b)"
  have B: "1 < ?B"
    using base_ge_8 [of b] by simp
  have "foldr (\<lambda>c n. n * ?B + digit_val c) (digit_chars b v) 0 = foldr (\<lambda>d n. n * ?B + digit_val (digits b ! d)) (radix ?B (unat v)) 0"
    by (simp add: digit_chars_def foldr_map comp_def)
  also have "\<dots> = foldr (\<lambda>d n. n * ?B + d) (radix ?B (unat v)) 0"
    using digit_table(2) [of _ b] radix_below [OF B] by (intro foldr_cong) auto
  finally show ?thesis
    using radix_value [OF B] by simp
qed

lemma number_rev:
  assumes "filter (\<lambda>c. c \<noteq> 44) buf = digit_chars b v @ replicate z 48"
  shows "number (unat (base b)) (rev buf) = unat v"
proof -
  let ?f = "\<lambda>c n. n * unat (base b) + digit_val c"
  have z: "foldr ?f (replicate z 48) 0 = 0"
    by (induction z) (simp_all add: digit_val_def)
  have "number (unat (base b)) (rev buf) = foldr ?f (filter (\<lambda>c. c \<noteq> 44) buf) 0"
    by (simp add: number_def rev_filter [symmetric] foldl_conv_foldr)
  also have "\<dots> = foldr ?f (digit_chars b v) (foldr ?f (replicate z 48) 0)"
    by (simp only: assms foldr_append)
  finally show ?thesis
    by (simp only: z digit_chars_value)
qed

section \<open>Integer conversions\<close>

definition sign_text :: "bool \<Rightarrow> bool \<Rightarrow> u32 \<Rightarrow> u8 list" where
  "sign_text is_signed negative fl = (let s = sign_char is_signed negative fl in if s \<noteq> 0 then [s] else [])"

definition prefix_text :: "u64 \<Rightarrow> integer_base \<Rightarrow> u32 \<Rightarrow> u8 list" where
  "prefix_text v b fl = (if has fl POUND \<and> v \<noteq> 0 \<and> x_char b \<noteq> 0 then [48, x_char b] else [])"

lemma sint_small: "- (2 ^ 31) \<le> k \<Longrightarrow> k < 2 ^ 31 \<Longrightarrow> sint (word_of_int k :: u32) = k"
  by (simp add: signed_of_int signed_take_bit_int_eq_self)

lemma pad_count:
  assumes "0 \<le>s (w :: u32)" and "n \<le> 100"
  defines "pad \<equiv> (let p = w - of_nat n in if p <s 0 then 0 else p)"
  shows "unat pad = nat (sint w) - n"
proof -
  have w: "0 \<le> sint w" "sint w < 2 ^ 31"
    using assms(1) sint_lt [of w] by (simp_all add: word_sle_eq)
  have "w - of_nat n = word_of_int (sint w - int n)"
    by simp
  then have s: "sint (w - of_nat n) = sint w - int n"
    using sint_small [of "sint w - int n"] w assms(2) by simp
  show ?thesis
  proof (cases "sint w < int n")
    case True
    then have "pad = 0"
      using s by (simp add: pad_def word_sless_alt)
    then show ?thesis
      using True by simp
  next
    case False
    then have "pad = w - of_nat n" "int (unat pad) = sint w - int n"
      using s uint_eq_sint [of "w - of_nat n"] by (simp_all add: pad_def word_sless_alt word_sle_eq Let_def)
    then show ?thesis
      using False by linarith
  qed
qed

lemma format_integer_shape:
  fixes c :: printf_conversion
  assumes "0 \<le>s width c"
  obtains buf z where "digit_buffer v b c = Some buf" and "length buf \<le> 64"
    and "format_integer v is_signed negative b c = (let
      pad = nat (sint (width c)) - (length buf + length (prefix_text v b (flags c)) + length (sign_text is_signed negative (flags c)))
    in Some ((if has (flags c) (MINUS OR ZERO) then [] else replicate pad 32) @ sign_text is_signed negative (flags c) @
       prefix_text v b (flags c) @ (if has (flags c) ZERO then replicate pad 48 else []) @ rev buf @
       (if has (flags c) MINUS then replicate pad 32 else [])))"
    and "filter (\<lambda>c. c \<noteq> 44) buf = digit_chars b v @ replicate z 48"
    and "\<not> has (flags c) POUND \<longrightarrow> \<not> has (flags c) GROUP \<longrightarrow> buf = digit_chars b v @ replicate z 48 \<and>
      z = min 63 (nat (sint (if precision c <s 0 then 1 else precision c))) - length (digit_chars b v)"
proof -
  obtain buf z where B: "digit_buffer v b c = Some buf" "length buf \<le> 64" "filter (\<lambda>c. c \<noteq> 44) buf = digit_chars b v @ replicate z 48"
    "\<not> has (flags c) GROUP \<longrightarrow> buf = digit_chars b v @ replicate z 48"
    "\<not> has (flags c) POUND \<longrightarrow> \<not> has (flags c) GROUP \<longrightarrow>
      z = min 63 (nat (sint (if precision c <s 0 then 1 else precision c))) - length (digit_chars b v)"
    by (rule digit_buffer_spec [of v b c])
  define sg where "sg = sign_char is_signed negative (flags c)"
  define x where "x = (if has (flags c) POUND \<and> v \<noteq> 0 then x_char b else 0)"
  have st: "sign_text is_signed negative (flags c) = (if sg \<noteq> 0 then [sg] else [])"
    by (simp add: sign_text_def sg_def)
  have pt: "prefix_text v b (flags c) = (if x \<noteq> 0 then [48, x] else [])"
    by (simp add: prefix_text_def x_def)
  let ?n = "length buf + length (prefix_text v b (flags c)) + length (sign_text is_signed negative (flags c))"
  have n: "of_nat ?n = of_nat (length buf) + (if x \<noteq> 0 then 2 else 0) + (if sg \<noteq> 0 then 1 else (0 :: u32))"
    by (simp add: st pt)
  define pad where "pad = (let p = width c - of_nat ?n in if p <s 0 then 0 else p)"
  have "?n \<le> 100"
    using B(2) by (simp add: st pt)
  then have up: "unat pad = nat (sint (width c)) - ?n"
    unfolding pad_def by (rule pad_count [OF assms])
  have "(let p = width c - of_nat (length buf) - (if x \<noteq> 0 then 2 else 0) - (if sg \<noteq> 0 then 1 else 0) in if p <s 0 then 0 else p) = pad"
    unfolding pad_def n by (simp only: diff_diff_eq)
  then have "format_integer v is_signed negative b c =
      Some ((if has (flags c) (MINUS OR ZERO) then [] else output_dup 32 pad) @ (if sg \<noteq> 0 then [sg] else []) @
        (if x \<noteq> 0 then [48, x] else []) @ (if has (flags c) ZERO then output_dup 48 pad else []) @ rev buf @
        (if has (flags c) MINUS then output_dup 32 pad else []))"
    by (simp only: format_integer_def B(1) Option.bind.simps Let_def sg_def [symmetric] x_def [symmetric])
  then have "format_integer v is_signed negative b c = (let
      pad = nat (sint (width c)) - ?n
    in Some ((if has (flags c) (MINUS OR ZERO) then [] else replicate pad 32) @ sign_text is_signed negative (flags c) @
       prefix_text v b (flags c) @ (if has (flags c) ZERO then replicate pad 48 else []) @ rev buf @
       (if has (flags c) MINUS then replicate pad 32 else [])))"
    by (simp only: output_dup_def up st pt Let_def)
  then show thesis
    using B by (intro that [of buf z]) blast+
qed

text \<open>C18: An integer conversion never leaves its buffer of 64 characters, whatever flags, width and precision ask
  for.  For every value, base, flag and precision and every width that is not negative, its output is the sign, the prefix
  of hexadecimal numbers, and digits that denote the value in the given base.  What the field still lacks is
  filled with blanks in front (neither \<^verbatim>\<open>MINUS\<close> nor \<^verbatim>\<open>ZERO\<close>), with zeros after the prefix (\<^verbatim>\<open>ZERO\<close>) and with blanks behind
  (\<^verbatim>\<open>MINUS\<close>), so that the output is as long as the field or as what it has to hold; with both flags, which a negative
  width given as an argument sets, it is filled on both sides and longer than the field.\<close>
theorem format_integer_correct:
  assumes "0 \<le>s width c"
  shows "\<exists>body out. format_integer v is_signed negative b c = Some out \<and> length body \<le> 64 \<and> number (unat (base b)) body = unat v \<and>
    (let needed = length (sign_text is_signed negative (flags c)) + length (prefix_text v b (flags c)) + length body;
         pad = nat (sint (width c)) - needed; minus = has (flags c) MINUS; zero = has (flags c) ZERO in
      out = (if \<not> minus \<and> \<not> zero then replicate pad 32 else []) @ sign_text is_signed negative (flags c) @
        prefix_text v b (flags c) @ (if zero then replicate pad 48 else []) @ body @ (if minus then replicate pad 32 else []) \<and>
      length out = (if minus \<and> zero then needed + 2 * pad else max needed (nat (sint (width c)))))"
proof -
  obtain buf z where f: "length buf \<le> 64" "format_integer v is_signed negative b c = (let
      pad = nat (sint (width c)) - (length buf + length (prefix_text v b (flags c)) + length (sign_text is_signed negative (flags c)))
    in Some ((if has (flags c) (MINUS OR ZERO) then [] else replicate pad 32) @ sign_text is_signed negative (flags c) @
       prefix_text v b (flags c) @ (if has (flags c) ZERO then replicate pad 48 else []) @ rev buf @
       (if has (flags c) MINUS then replicate pad 32 else [])))"
    "filter (\<lambda>c. c \<noteq> 44) buf = digit_chars b v @ replicate z 48"
    by (rule format_integer_shape [OF assms])
  have both: "has (flags c) (MINUS OR ZERO) \<longleftrightarrow> has (flags c) MINUS \<or> has (flags c) ZERO"
    by (simp add: has_def bit.conj_disj_distrib or_eq_0_iff)
  define pad where "pad = nat (sint (width c)) - (length (sign_text is_signed negative (flags c)) + length (prefix_text v b (flags c)) + length (rev buf))"
  have p: "pad = nat (sint (width c)) - (length buf + length (prefix_text v b (flags c)) + length (sign_text is_signed negative (flags c)))"
    by (simp add: pad_def)
  note run = f(2) [unfolded Let_def p [symmetric] both]
  show ?thesis
    unfolding Let_def
    by (rule exI [of _ "rev buf"], rule exI, intro conjI, rule run, simp add: f(1), rule number_rev [OF f(3)],
        simp add: pad_def, simp add: pad_def max_def)
qed

text \<open>With the flags and the width that \<^verbatim>\<open>%0*d\<close> reads from the arguments -5 and 42, the output has eight characters.\<close>
theorem format_integer_correct_witness:
  "format_integer 42 True False base_d \<lparr>flags = MINUS OR ZERO, width = 5, precision = - 1, type = T_INT\<rparr> = Some (ascii ''00042   '') \<and>
   (\<exists>body. number (unat (base base_d)) body = unat (42 :: u64) \<and>
     ascii ''00042   '' = replicate (5 - length body) 48 @ body @ replicate (5 - length body) 32)"
proof -
  let ?c = "\<lparr>flags = MINUS OR ZERO, width = 5, precision = - 1, type = T_INT\<rparr> :: printf_conversion"
  have run: "format_integer 42 True False base_d ?c = Some (ascii ''00042   '')"
    by code_simp
  have w: "0 \<le>s width ?c" "nat (sint (width ?c)) = 5"
    by (simp_all add: word_sle_eq)
  have e: "has (MINUS OR ZERO) MINUS" "has (MINUS OR ZERO) ZERO" "sign_text True False (MINUS OR ZERO) = []"
      "prefix_text 42 base_d (MINUS OR ZERO) = []"
    by (simp_all add: has_def MINUS_def ZERO_def sign_text_def sign_char_def PLUS_def SPACE_def prefix_text_def POUND_def)
  from format_integer_correct [OF w(1), of 42 True False base_d, unfolded run Let_def w(2)]
  obtain body where "number (unat (base base_d)) body = unat (42 :: u64)"
    "ascii ''00042   '' = replicate (5 - length body) 48 @ body @ replicate (5 - length body) 32"
    by (auto simp: e)
  then show ?thesis
    using run by blast
qed

section \<open>Printing and reading back\<close>

lemma decimal_number:
  assumes "list_all isdigit ds"
  shows "decimal ds = int (number 10 ds)"
proof -
  have d: "int (digit_val c) = uint c - 48" "c \<noteq> 44" if "isdigit c" for c
    using that by (auto simp: isdigit_def digit_val_def word_le_nat_alt of_nat_diff)
  have fold: "foldl (\<lambda>v c. v * 10 + (uint c - 48)) (int n) ds = int (foldl (\<lambda>n c. n * 10 + digit_val c) n ds)" for n
    using assms
  proof (induction ds arbitrary: n)
    case (Cons c ds)
    then have "int n * 10 + (uint c - 48) = int (n * 10 + digit_val c)" "list_all isdigit ds"
      using d(1) [of c] by simp_all
    then show ?case
      using Cons.IH [of "n * 10 + digit_val c"] by (simp only: foldl.simps)
  qed simp
  have "filter (\<lambda>c. c \<noteq> 44) ds = ds"
    using assms d(2) by (auto simp: filter_id_conv list_all_iff)
  then show ?thesis
    using fold [of 0] by (simp add: decimal_def number_def)
qed

lemma digit_chars_decimal: "c \<in> set (digit_chars base_d v) \<Longrightarrow> isdigit c"
proof -
  assume "c \<in> set (digit_chars base_d v)"
  then obtain d where "d < 10" "c = digits base_d ! d"
    using radix_below [of 10 _ "unat v"] by (auto simp: digit_chars_def)
  moreover from this(1) have "d < length (digits base_d)"
    by (simp add: digit_lists)
  ultimately have "c \<in> set (digits base_d)"
    by (metis nth_mem)
  then show "isdigit c"
    by (auto simp: digit_lists isdigit_def)
qed

lemma has_0 [simp]: "\<not> has 0 f"
  by (simp add: has_def)

lemma parse_d: "parse_conversion (0 # ascii ''%d'' @ [0]) 2 args = Some (\<lparr>flags = 0, width = 0, precision = - 1, type = T_INT\<rparr>, 2, args)"
  by (simp add: parse_conversion_def parse_flags.simps parse_width_def parse_number.simps parse_precision_def parse_type_def
      ascii_def fetch_def flag_of_def isdigit_def word_sless_alt word_sle_eq)

text \<open>The decimal text of a 32-bit number.\<close>
lemma format_d:
  fixes c :: printf_conversion
  assumes "flags c = 0" and "width c = 0" and "precision c = - 1"
  obtains ds where "format_integer v True negative base_d c = Some ((if negative then [45] else []) @ ds)" and "ds \<noteq> []"
    and "list_all isdigit ds" and "number 10 ds = unat v"
proof -
  have w: "0 \<le>s width c"
    by (simp add: assms word_sle_eq)
  obtain buf z where f: "digit_buffer v base_d c = Some buf" "length buf \<le> 64" "format_integer v True negative base_d c = (let
      pad = nat (sint (width c)) - (length buf + length (prefix_text v base_d (flags c)) + length (sign_text True negative (flags c)))
    in Some ((if has (flags c) (MINUS OR ZERO) then [] else replicate pad 32) @ sign_text True negative (flags c) @
       prefix_text v base_d (flags c) @ (if has (flags c) ZERO then replicate pad 48 else []) @ rev buf @
       (if has (flags c) MINUS then replicate pad 32 else [])))"
    "filter (\<lambda>c. c \<noteq> 44) buf = digit_chars base_d v @ replicate z 48"
    "\<not> has (flags c) POUND \<longrightarrow> \<not> has (flags c) GROUP \<longrightarrow> buf = digit_chars base_d v @ replicate z 48 \<and>
      z = min 63 (nat (sint (if precision c <s 0 then 1 else precision c))) - length (digit_chars base_d v)"
    by (rule format_integer_shape [OF w])
  have b: "buf = digit_chars base_d v @ replicate z 48" "z = 1 - length (digit_chars base_d v)"
    using f(5) by (simp_all add: assms word_sless_alt)
  have "format_integer v True negative base_d c = Some ((if negative then [45] else []) @ rev buf)"
    using f(3) by (simp add: assms sign_text_def sign_char_def prefix_text_def)
  moreover have "rev buf \<noteq> []" "list_all isdigit (rev buf)"
    using b digit_chars_decimal [of _ v] by (auto simp: list_all_iff isdigit_def)
  moreover have "number 10 (rev buf) = unat v"
    using number_rev [OF f(4)] by simp
  ultimately show thesis
    by (rule that)
qed

lemma unat_minus_one': "n \<noteq> 0 \<Longrightarrow> n - 1 = (of_nat (unat n - 1) :: 'a::len word)"
  by (simp add: unat_minus_one [of n, symmetric] del: One_nat_def)

lemma signed_magnitude:
  fixes w :: u32
  defines "v \<equiv> (scast w :: u64)"
  shows "v <s 0 \<longleftrightarrow> sint w < 0" and "int (unat (if v <s 0 then - v else v)) = \<bar>sint w\<bar>"
proof -
  have b: "- (2 ^ 31) \<le> sint w" "sint w < 2 ^ 31"
    using sint_ge [of w] sint_lt [of w] by simp_all
  have v: "v = word_of_int (sint w)"
    by (simp add: v_def)
  have "sint (word_of_int i :: u64) = i" if "- (2 ^ 31) \<le> i" and "i < 2 ^ 31" for i
    using that by (simp add: signed_of_int signed_take_bit_int_eq_self)
  from this [OF b] have s: "sint v = sint w"
    unfolding v .
  show neg: "v <s 0 \<longleftrightarrow> sint w < 0"
    by (simp add: word_sless_alt s)
  have "uint (word_of_int \<bar>sint w\<bar> :: u64) = \<bar>sint w\<bar>"
    using b by (simp add: uint_word_of_int)
  moreover have "(if v <s 0 then - v else v) = word_of_int \<bar>sint w\<bar>"
    using neg by (simp add: v)
  ultimately show "int (unat (if v <s 0 then - v else v)) = \<bar>sint w\<bar>"
    by simp
qed

lemma printf_d:
  "printf_out ''%d'' [w] = format_integer (if scast w <s (0 :: u64) then - scast w else scast w) True (scast w <s (0 :: u64)) base_d
     \<lparr>flags = 0, width = 0, precision = - 1, type = T_INT\<rparr>"
proof -
  let ?m = "0 # ascii ''%d'' @ [0] :: u8 list"
  have m: "?m = [0, 37, 100, 0]"
    by (simp add: ascii_def)
  have "vprintf_out ?m (Suc (Suc (Suc 0))) args = Some []" for args
    by (subst vprintf_out.simps) (simp add: m fetch_def)
  then show ?thesis
    unfolding printf_out_def using parse_d [of "[w]", unfolded numeral_2_eq_2]
    by (subst vprintf_out.simps) (simp add: m fetch_def convert_def signed_arg_def)
qed

text \<open>C19: Printing a number with \<^verbatim>\<open>%d\<close> and reading the text with \<^verbatim>\<open>atoi\<close> gives the number back, for every \<^verbatim>\<open>int\<close>.\<close>
theorem printf_atoi_roundtrip:
  "\<exists>out. printf_out ''%d'' [w] = Some out \<and> atoi (0 # out @ [0]) 1 = Some w"
proof -
  let ?v = "scast w :: u64" and ?neg = "scast w <s (0 :: u64)"
  obtain ds where ds: "printf_out ''%d'' [w] = Some ((if ?neg then [45] else []) @ ds)" "ds \<noteq> []" "list_all isdigit ds"
    "number 10 ds = unat (if ?neg then - ?v else ?v)"
    unfolding printf_d by (rule format_d [of "\<lparr>flags = 0, width = 0, precision = - 1, type = T_INT\<rparr>"]) simp_all
  let ?sg = "if ?neg then [45] else [] :: u8 list"
  have "atoi (0 # (?sg @ ds) @ [0]) 1 = Some (word_of_int (if ?sg = [45] then - decimal ds else decimal ds))"
    using ds(2,3) by (intro atoi_block [of 1 _ "[]"]) (auto simp: block_def nth_append isdigit_def)
  moreover have "decimal ds = \<bar>sint w\<bar>"
    unfolding decimal_number [OF ds(3)] ds(4) by (rule signed_magnitude(2))
  moreover have "?neg \<longleftrightarrow> sint w < 0"
    by (rule signed_magnitude(1))
  ultimately have "atoi (0 # (?sg @ ds) @ [0]) 1 = Some w"
    by (auto split: if_splits)
  then show ?thesis
    using ds(1) by blast
qed

section \<open>Bounded output\<close>

lemma run_output_spec:
  assumes "L \<le> length buf" and "L < 2 ^ 31" and "j + length cs < 2 ^ 31"
  shows "run_output cs (\<lparr>out_p = min j L, out_length = of_nat j, max_length = of_nat L\<rparr>, buf)
    = Some (\<lparr>out_p = min (j + length cs) L, out_length = of_nat (j + length cs), max_length = of_nat L\<rparr>,
        overwrite buf (min j L) (take (L - j) cs))"
  using assms
proof (induction cs arbitrary: j buf)
  case (Cons c cs)
  have less: "of_nat j <s (of_nat L :: u32) \<longleftrightarrow> j < L"
    using Cons.prems by (simp add: word_sless_alt sint_of_nat_small)
  show ?case
  proof (cases "j < L")
    case True
    then have "vsnprintf_helper c (\<lparr>out_p = min j L, out_length = of_nat j, max_length = of_nat L\<rparr>, buf)
        = Some (\<lparr>out_p = min (Suc j) L, out_length = of_nat (Suc j), max_length = of_nat L\<rparr>, buf[j := c])"
      using less Cons.prems(1) by (simp add: vsnprintf_helper_def kernel_simps add.commute)
    moreover have "overwrite (buf[j := c]) (Suc j) (take (L - Suc j) cs) = overwrite buf j (take (L - j) (c # cs))"
      using True Cons.prems(1) by (simp add: overwrite_Cons take_Cons' Suc_diff_Suc)
    ultimately show ?thesis
      using Cons.IH [of "buf[j := c]" "Suc j"] Cons.prems True by simp
  next
    case False
    then have "vsnprintf_helper c (\<lparr>out_p = min j L, out_length = of_nat j, max_length = of_nat L\<rparr>, buf)
        = Some (\<lparr>out_p = min (Suc j) L, out_length = of_nat (Suc j), max_length = of_nat L\<rparr>, buf)"
      using less by (simp add: vsnprintf_helper_def add.commute)
    then show ?thesis
      using Cons.IH [of buf "Suc j"] Cons.prems False by simp
  qed
qed simp

text \<open>C20: \<^verbatim>\<open>vsnprintf\<close> returns the length of the whole output and stores its first \<^verbatim>\<open>buf_size - 1\<close> characters and a
  terminator; the rest of the buffer, and all of it if \<^verbatim>\<open>buf_size\<close> is zero, stays as it was.\<close>
theorem vsnprintf_bounded:
  assumes "vprintf_out m format args = Some out" and "unat n \<le> length buffer" and "unat n < 2 ^ 31" and "length out < 2 ^ 31"
  shows "vsnprintf buffer n m format args = Some (of_nat (length out),
    if n = 0 then buffer
    else take (unat n - 1) out @ 0 # drop (Suc (min (length out) (unat n - 1))) buffer)"
proof -
  let ?L = "unat n - 1"
  have L: "(if 0 < n then n - 1 else 0) = of_nat ?L"
    by (cases "n = 0") (simp_all add: word_gt_0 unat_minus_one' del: One_nat_def)
  have r: "run_output out (\<lparr>out_p = 0, out_length = 0, max_length = of_nat ?L\<rparr>, buffer)
      = Some (\<lparr>out_p = min (length out) ?L, out_length = of_nat (length out), max_length = of_nat ?L\<rparr>, overwrite buffer 0 (take ?L out))"
    using run_output_spec [of ?L buffer 0 out] assms by simp
  show ?thesis
  proof (cases "n = 0")
    case True
    then show ?thesis
      using assms(1) r L by (simp add: vsnprintf_def)
  next
    case False
    then have "0 < unat n"
      by (simp add: unat_gt_0)
    then have "min (length out) ?L < length buffer"
      using assms(2) by simp
    then have "(overwrite buffer 0 (take ?L out))[min (length out) ?L := 0]
        = take ?L out @ 0 # drop (Suc (min (length out) ?L)) buffer"
      by (simp add: overwrite_def list_update_append min.commute drop_update_cancel upd_conv_take_nth_drop)
    then show ?thesis
      using assms(1) r L False \<open>min (length out) ?L < length buffer\<close> assms(2)
      by (simp add: vsnprintf_def word_gt_0 kernel_simps)
  qed
qed

text \<open>A buffer of four bytes gets three characters of \<^verbatim>\<open>-1234\<close> and the terminator; the length is that of the whole text.\<close>
theorem vsnprintf_bounded_witness:
  "vsnprintf [9, 9, 9, 9, 9, 9] 4 [0, 37, 99, 97, 98, 99, 0] 1 [45] = Some (4, [45, 97, 98, 0, 9, 9])"
proof -
  have "vprintf_out [0, 37, 99, 97, 98, 99, 0] 1 [45] = Some [45, 97, 98, 99]"
    by code_simp
  from vsnprintf_bounded [OF this, of 4 "[9, 9, 9, 9, 9, 9]"] show ?thesis
    by simp
qed

section \<open>A format that ends in a percent sign\<close>

lemma vprintf_plain:
  assumes "0 \<notin> set fmt" and "37 \<notin> set fmt"
  shows "vprintf_out (pre @ fmt @ rest) (length pre) args
    = map_option ((@) fmt) (vprintf_out (pre @ fmt @ rest) (length pre + length fmt) args)"
  using assms
proof (induction fmt arbitrary: pre)
  case (Cons c fmt)
  have "vprintf_out (pre @ (c # fmt) @ rest) (length pre) args
      = map_option ((#) c) (vprintf_out ((pre @ [c]) @ fmt @ rest) (length (pre @ [c])) args)"
    using Cons.prems by (subst vprintf_out.simps) (auto simp: fetch_def nth_append map_option_case split: option.splits bind_splits)
  then show ?case
    using Cons.IH [of "pre @ [c]"] Cons.prems by (simp add: option.map_comp comp_def)
qed (auto simp: map_option_case split: option.splits)

lemma parse_at_nul:
  assumes "p < length m" and "m ! p = 0"
  shows "parse_conversion m p args = Some (\<lparr>flags = 0, width = 0, precision = - 1, type = T_INT\<rparr>, p, args)"
  using assms by (simp add: parse_conversion_def parse_flags.simps parse_width_def parse_number.simps parse_precision_def parse_type_def
      fetch_def flag_of_def isdigit_def word_sless_alt word_sle_eq)

text \<open>C21: When the format ends in a lone percent sign, \<^verbatim>\<open>__vprintf\<close> takes the terminator for a conversion
  character and goes on behind it: what follows the format in memory is printed as a format, with the same arguments.\<close>
theorem vprintf_lone_percent:
  assumes "0 \<notin> set fmt" and "37 \<notin> set fmt"
  shows "vprintf_out (pre @ fmt @ [37, 0] @ beyond) (length pre) args = do {
    out \<leftarrow> vprintf_out (pre @ fmt @ [37, 0] @ beyond) (length pre + length fmt + 2) args;
    Some (fmt @ ascii ''<<no %'' @ [0] @ ascii '' conversion>>'' @ out) }"
proof -
  let ?m = "pre @ fmt @ [37, 0] @ beyond" and ?p = "length pre + length fmt"
  have n: "?m ! ?p = 37" "?m ! Suc ?p = 0" "?p < length ?m" "Suc ?p < length ?m"
    by (simp_all add: nth_append)
  have "vprintf_out ?m ?p args = do {
      out \<leftarrow> vprintf_out ?m (?p + 2) args; Some (ascii ''<<no %'' @ [0] @ ascii '' conversion>>'' @ out) }"
    by (subst vprintf_out.simps) (use n parse_at_nul [OF n(4,2), of args] in \<open>simp add: fetch_def convert_def ascii_def\<close>)
  then show ?thesis
    unfolding vprintf_plain [OF assms] by (auto split: bind_splits)
qed

text \<open>The constant format \<^verbatim>\<open>a%\<close> alone in memory is read past its end; in front of another string it prints that string as well.\<close>
theorem vprintf_lone_percent_witness:
  "vprintf_out [0, 97, 37, 0] 1 [] = None
    \<and> vprintf_out [0, 97, 37, 0, 98, 0] 1 [] = Some ([97] @ ascii ''<<no %'' @ [0] @ ascii '' conversion>>'' @ [98])"
proof -
  have "vprintf_out [0, 97, 37, 0] (length [0 :: u8] + length [97 :: u8] + 2) [] = None"
    and "vprintf_out [0, 97, 37, 0, 98, 0] (length [0 :: u8] + length [97 :: u8] + 2) [] = Some [98]"
    by (code_simp, code_simp)
  then show ?thesis
    using vprintf_lone_percent [of "[97]" "[0]" "[]" "[]"] vprintf_lone_percent [of "[97]" "[0]" "[98, 0]" "[]"] by simp
qed


section \<open>Hex dumps return\<close>

lemmas parse_simps = parse_conversion_def parse_flags.simps parse_width_def parse_number.simps parse_precision_def parse_type_def
  fetch_def flag_of_def isdigit_def word_sless_alt word_sle_eq

lemma parse_08jx: "parse_conversion (0 # ascii ''%08jx  '' @ [0]) 2 args = Some (\<lparr>flags = ZERO, width = 8, precision = - 1, type = T_INTMAX\<rparr>, 5, args)"
  by (simp add: parse_simps ascii_def has_def MINUS_def PLUS_def ZERO_def)

lemma parse_02hhx: "parse_conversion (0 # ascii ''%02hhx%c'' @ [0]) 2 args = Some (\<lparr>flags = ZERO, width = 2, precision = - 1, type = T_CHAR\<rparr>, 6, args)"
  by (simp add: parse_simps ascii_def has_def MINUS_def PLUS_def ZERO_def)

lemma parse_c: "parse_conversion (0 # ascii ''%02hhx%c'' @ [0]) 8 args = Some (\<lparr>flags = 0, width = 0, precision = - 1, type = T_INT\<rparr>, 8, args)"
  "parse_conversion (0 # ascii ''%c'' @ [0]) 2 args = Some (\<lparr>flags = 0, width = 0, precision = - 1, type = T_INT\<rparr>, 2, args)"
  by (simp_all add: parse_simps ascii_def)

lemma printf_spaces: "printf_out ''   '' [] = Some [32, 32, 32]" "printf_out '' '' [] = Some [32]"
  by code_simp+

lemma format_integer_returns:
  fixes c :: printf_conversion
  assumes "0 \<le>s width c"
  shows "\<exists>out. format_integer v is_signed negative b c = Some out"
proof -
  obtain buf where "digit_buffer v b c = Some buf"
    by (rule format_integer_shape [OF assms])
  then show ?thesis
    by (simp add: format_integer_def Let_def)
qed

lemma convert_c: "convert m \<lparr>flags = 0, width = 0, precision = - 1, type = T_INT\<rparr> 99 (a # args) = Some ([ucast a], args)"
  by (simp add: convert_def format_string_def fetch_def word_sless_alt)

lemma vprintf_at_end: "p < length m \<Longrightarrow> m ! p = 0 \<Longrightarrow> vprintf_out m p args = Some []"
  by (subst vprintf_out.simps) (simp add: fetch_def)

lemma vprintf_literal: "p < length m \<Longrightarrow> m ! p \<noteq> 0 \<Longrightarrow> m ! p \<noteq> 37 \<Longrightarrow>
    vprintf_out m p args = map_option ((#) (m ! p)) (vprintf_out m (p + 1) args)"
  by (subst vprintf_out.simps) (auto simp: fetch_def map_option_case split: option.splits bind_splits)

text \<open>One conversion of a format.\<close>
lemma vprintf_conversion:
  assumes "m ! p = 37" and "p + 1 < length m" and "m ! (p + 1) \<noteq> 37" and "parse_conversion m (p + 1) args = Some (cv, q, args')"
    and "q < length m" and "convert m cv (m ! q) args' = Some (out, args'')"
  shows "vprintf_out m p args = map_option ((@) out) (vprintf_out m (q + 1) args'')"
  using assms by (subst vprintf_out.simps) (auto simp: fetch_def map_option_case split: option.splits bind_splits)

lemma printf_c: "printf_out ''%c'' [a] = Some [ucast a]"
proof -
  let ?m = "0 # ascii ''%c'' @ [0] :: u8 list"
  have "vprintf_out ?m 1 [a] = map_option ((@) [ucast a]) (vprintf_out ?m (2 + 1) [])"
    by (rule vprintf_conversion, use parse_c(2) [of "[a]"] in \<open>simp_all add: ascii_def del: One_nat_def\<close>) (simp add: convert_c)
  also have "vprintf_out ?m (2 + 1) [] = Some []"
    by (rule vprintf_at_end) (simp_all add: ascii_def)
  finally show ?thesis
    by (simp add: printf_out_def)
qed

lemma printf_02hhx: "\<exists>out. printf_out ''%02hhx%c'' [v, a] = Some (out @ [ucast a])"
proof -
  let ?m = "0 # ascii ''%02hhx%c'' @ [0] :: u8 list" and ?cv = "\<lparr>flags = ZERO, width = 2, precision = - 1, type = T_CHAR\<rparr>"
  obtain out where "format_integer (ucast (ucast v :: u8)) False False base_x ?cv = Some out"
    using format_integer_returns [of ?cv "ucast (ucast v :: u8)" False False base_x] by (auto simp: word_sle_eq)
  then have "convert ?m ?cv 120 [v, a] = Some (out, [a])"
    by (simp add: convert_def unsigned_arg_def)
  then have "vprintf_out ?m 1 [v, a] = map_option ((@) out) (vprintf_out ?m (6 + 1) [a])"
    by (intro vprintf_conversion) (use parse_02hhx [of "[v, a]"] in \<open>simp_all add: ascii_def del: One_nat_def\<close>)
  also have "vprintf_out ?m (6 + 1) [a] = map_option ((@) [ucast a]) (vprintf_out ?m (8 + 1) [])"
    by (rule vprintf_conversion, use parse_c(1) [of "[a]"] in \<open>simp_all add: ascii_def del: One_nat_def\<close>) (simp add: convert_c)
  also have "vprintf_out ?m (8 + 1) [] = Some []"
    by (rule vprintf_at_end) (simp_all add: ascii_def)
  finally show ?thesis
    by (simp add: printf_out_def)
qed

lemma printf_08jx: "\<exists>out. printf_out ''%08jx  '' [lo, hi] = Some out"
proof -
  let ?m = "0 # ascii ''%08jx  '' @ [0] :: u8 list" and ?cv = "\<lparr>flags = ZERO, width = 8, precision = - 1, type = T_INTMAX\<rparr>"
  obtain out where "format_integer (ucast lo OR push_bit 32 (ucast hi)) False False base_x ?cv = Some out"
    using format_integer_returns [of ?cv "ucast lo OR push_bit 32 (ucast hi)" False False base_x] by (auto simp: word_sle_eq)
  then have "convert ?m ?cv 120 [lo, hi] = Some (out, [])"
    by (simp add: convert_def unsigned_arg_def)
  then have "vprintf_out ?m 1 [lo, hi] = map_option ((@) out) (vprintf_out ?m (5 + 1) [])"
    by (intro vprintf_conversion) (use parse_08jx [of "[lo, hi]"] in \<open>simp_all add: ascii_def del: One_nat_def\<close>)
  moreover have "vprintf_out ?m 6 [] = Some [32, 32]"
    by code_simp
  ultimately show ?thesis
    by (simp add: printf_out_def)
qed

lemma print_each_returns: "(\<And>i. i \<in> set is \<Longrightarrow> \<exists>out. f i = Some out) \<Longrightarrow> \<exists>out. print_each f is = Some out"
proof (induction "is")
  case (Cons i "is")
  obtain a where "f i = Some a"
    using Cons.prems by auto
  moreover obtain b where "print_each f is = Some b"
    using Cons by auto
  ultimately show ?case
    by simp
qed simp

lemma hex_line_returns:
  assumes "start \<le> e" and "p + (e - start) \<le> length m"
  shows "\<exists>out. hex_line ofs m p start e asc = Some out"
proof -
  obtain o1 where 1: "printf_out ''%08jx  '' [ROUND_DOWN ofs 16, 0] = Some o1"
    using printf_08jx by auto
  have sp: "\<exists>out. print_each (\<lambda>i. Some [32, 32, 32]) is = Some out" "\<exists>out. print_each (\<lambda>i. Some [32 :: u8]) is = Some out" for "is"
    by (rule print_each_returns, simp)+
  have f: "fetch m (p + (i - start)) = Some (m ! (p + (i - start)))" if "i \<in> set [start..<e]" for i
    using that assms by (simp add: fetch_def) arith
  have "\<exists>out. print_each (\<lambda>i. do { c \<leftarrow> fetch m (p + (i - start)); printf_out ''%02hhx%c'' [ucast c, if i = 7 then 45 else 32] })
      [start..<e] = Some out"
    by (rule print_each_returns) (use f printf_02hhx in fastforce)
  moreover have "\<exists>out. print_each (\<lambda>i. do { c \<leftarrow> fetch m (p + (i - start)); printf_out ''%c'' [if isprint c then ucast c else 46] })
      [start..<e] = Some out"
    by (rule print_each_returns) (use f in \<open>simp add: printf_c\<close>)
  ultimately show ?thesis
    using sp [of "[0..<start]"] sp(1) [of "[e..<16]"] sp(2) [of "[e..<16]"] by (auto simp: hex_line_def 1 printf_spaces)
qed

text \<open>\<^verbatim>\<open>hex_dump\<close> returns for every block of memory that holds its \<^verbatim>\<open>size\<close> bytes: it reads nothing else and no
  conversion runs over its buffer.\<close>
theorem hex_dump_returns:
  "p + sz \<le> length m \<Longrightarrow> \<exists>out. hex_dump ofs m p sz asc = Some out"
proof (induction ofs m p sz asc rule: hex_dump.induct)
  case (1 ofs m p sz asc)
  let ?start = "unat ofs mod 16"
  let ?e = "if sz < 16 - ?start then ?start + sz else 16"
  have e: "?start \<le> ?e" "?e - ?start \<le> sz"
    by (auto intro: less_imp_le)
  show ?case
  proof (cases "0 < sz")
    case True
    obtain o1 where o1: "hex_line ofs m p ?start ?e asc = Some o1"
      using hex_line_returns [of ?start ?e p m ofs asc] e "1.prems" by fastforce
    have "\<exists>out. hex_dump (ofs + of_nat (?e - ?start)) m (p + (?e - ?start)) (sz - (?e - ?start)) asc = Some out"
      by (rule "1.IH" [OF True refl refl o1]) (use "1.prems" e(2) in linarith)
    then show ?thesis
      using True o1 by (subst hex_dump.simps) (auto simp: Let_def)
  qed (simp add: hex_dump.simps)
qed

end
