(* ===== verification/Cmdline.thy ===== *)
theory Cmdline
  imports Stdio Rc4
begin

text \<open>
  \<^verbatim>\<open>threads/init.c\<close>: the kernel's command line.  The loader leaves the arguments as strings one after another in 128
  bytes of memory; \<^verbatim>\<open>read_command_line\<close> makes an array of pointers to them, \<^verbatim>\<open>parse_options\<close> interprets the options at its
  front and \<^verbatim>\<open>run_actions\<close> runs the rest.  String literals stand behind the memory that is passed.  An action is run by
  a function that is an argument.
\<close>

section \<open>Reading the command line\<close>

definition LOADER_ARGS_LEN :: nat where "LOADER_ARGS_LEN = 128"

text \<open>The array \<^verbatim>\<open>argv\<close> has 65 elements; to store behind them is an error.\<close>
fun args_loop :: "mem \<Rightarrow> ptr \<Rightarrow> ptr \<Rightarrow> nat \<Rightarrow> ptr list \<Rightarrow> ptr list kernel" where
  "args_loop m p end 0 argv = Some argv"
| "args_loop m p end (Suc n) argv =
     (if end \<le> p then PANIC
      else do {
        ASSERT (length argv < LOADER_ARGS_LEN div 2 + 1);
        len \<leftarrow> strnlen m p (end - p);
        args_loop m (p + len + 1) end n (argv @ [p])
      })"

definition read_command_line :: "mem \<Rightarrow> ptr \<Rightarrow> u32 \<Rightarrow> ptr list kernel" where
  "read_command_line m args argc = do {
     argv \<leftarrow> args_loop m args (args + LOADER_ARGS_LEN) (nat (sint argc)) [];
     ASSERT (0 \<le>s argc \<and> unat argc < LOADER_ARGS_LEN div 2 + 1);
     Some (argv @ [0])
   }"

section \<open>Options\<close>

record kopts =
  power_off_when_done :: bool
  format_filesys :: bool
  random_state :: rng
  thread_mlfqs :: bool
  user_page_limit :: u32

definition strcmp_lit :: "mem \<Rightarrow> ptr \<Rightarrow> string \<Rightarrow> int kernel" where
  "strcmp_lit m p lit = strcmp (m @ ascii lit @ [0]) p (length m)"

definition strtok_lit :: "mem \<Rightarrow> ptr \<Rightarrow> string \<Rightarrow> ptr \<Rightarrow> (ptr \<times> ptr \<times> mem) kernel" where
  "strtok_lit m s delims save_ptr = do {
     (t, save_ptr, m') \<leftarrow> strtok_r (m @ ascii delims @ [0]) s (length m) save_ptr;
     Some (t, save_ptr, take (length m) m')
   }"

datatype options_result = Usage | Actions "ptr list"

text \<open>One option; \<open>None\<close> of the inner option is the help message, after which the machine is powered off.\<close>
definition set_option :: "mem \<Rightarrow> ptr \<Rightarrow> ptr \<Rightarrow> kopts \<Rightarrow> kopts option kernel" where
  "set_option m name value opts = do {
     r \<leftarrow> strcmp_lit m name ''-h'';
     if r = 0 then Some None
     else do {
       r \<leftarrow> strcmp_lit m name ''-q'';
       if r = 0 then Some (Some (opts\<lparr>power_off_when_done := True\<rparr>))
       else do {
         r \<leftarrow> strcmp_lit m name ''-f'';
         if r = 0 then Some (Some (opts\<lparr>format_filesys := True\<rparr>))
         else do {
           r \<leftarrow> strcmp_lit m name ''-rs'';
           if r = 0
           then do { seed \<leftarrow> atoi m value; r \<leftarrow> random_init seed (random_state opts); Some (Some (opts\<lparr>random_state := r\<rparr>)) }
           else do {
             r \<leftarrow> strcmp_lit m name ''-mlfqs'';
             if r = 0 then Some (Some (opts\<lparr>thread_mlfqs := True\<rparr>))
             else do {
               r \<leftarrow> strcmp_lit m name ''-ul'';
               if r = 0 then do { n \<leftarrow> atoi m value; Some (Some (opts\<lparr>user_page_limit := n\<rparr>)) } else PANIC
             }
           }
         }
       }
     }
   }"

fun parse_options :: "mem \<Rightarrow> ptr list \<Rightarrow> kopts \<Rightarrow> (options_result \<times> mem \<times> kopts) kernel" where
  "parse_options m [] opts = None"
| "parse_options m (a # argv) opts =
     (if a = 0 then Some (Actions (a # argv), m, opts)
      else do {
        c \<leftarrow> fetch m a;
        if c \<noteq> 45 then Some (Actions (a # argv), m, opts)
        else do {
          (name, save_ptr, m) \<leftarrow> strtok_lit m a ''='' 0;
          (value, save_ptr, m) \<leftarrow> strtok_lit m 0 '''' save_ptr;
          r \<leftarrow> set_option m name value opts;
          case r of None \<Rightarrow> Some (Usage, m, opts) | Some opts \<Rightarrow> parse_options m argv opts
        }
      })"

section \<open>Actions\<close>

datatype action = Run | Ls | Cat | Rm | Put_file | Get_file

text \<open>The table of actions: name, number of arguments with the name, and function.\<close>
definition actions :: "(string \<times> nat \<times> action) list" where
  "actions = [(''run'', 2, Run), (''ls'', 1, Ls), (''cat'', 2, Cat), (''rm'', 2, Rm), (''put'', 2, Put_file), (''get'', 2, Get_file)]"

fun find_action :: "mem \<Rightarrow> ptr \<Rightarrow> (string \<times> nat \<times> action) list \<Rightarrow> (nat \<times> action) kernel" where
  "find_action m p [] = PANIC"
| "find_action m p ((name, argc, f) # as) = do {
     r \<leftarrow> strcmp_lit m p name;
     if r = 0 then Some (argc, f) else find_action m p as
   }"

lemma find_action_pos: "find_action m p actions = Some (argc, f) \<Longrightarrow> 0 < argc"
  by (auto simp: actions_def bind_Some_iff split: if_splits)

text \<open>The function of an action gets the rest of the array.\<close>
function run_actions :: "(action \<Rightarrow> ptr list \<Rightarrow> 's \<Rightarrow> 's kernel) \<Rightarrow> mem \<Rightarrow> ptr list \<Rightarrow> 's \<Rightarrow> 's kernel" where
  "run_actions invoke m argv s =
     (case argv of
        [] \<Rightarrow> None
      | p # _ \<Rightarrow>
          if p = 0 then Some s
          else do {
            (argc, f) \<leftarrow> find_action m p actions;
            ASSERT (argc \<le> length argv \<and> 0 \<notin> set (take argc argv));
            s \<leftarrow> invoke f argv s;
            run_actions invoke m (drop argc argv) s
          })"
  by pat_completeness auto
termination
  by (relation "measure (\<lambda>(invoke, m, argv, s). length argv)") (auto dest!: find_action_pos)

declare run_actions.simps [simp del]

section \<open>Strings in a bigger memory\<close>

lemma cstr_append: "cstr m p s \<Longrightarrow> cstr (m @ x) p s"
  by (rule cstr_same) (use cstr_bound [of m p s] in \<open>auto simp: fetch_def nth_append\<close>)

lemma cstr_literal: "0 \<notin> set lit \<Longrightarrow> cstr (m @ lit @ [0] @ x) (length m) lit"
  by (simp add: cstr_iff block_def nth_append)

lemma cstr_take: "cstr m p s \<Longrightarrow> p + length s < n \<Longrightarrow> cstr (take n m) p s"
  using cstr_bound [of m p s] by (auto simp: cstr_iff block_def drop_take min_def)

lemma strcmp_lit_cstr:
  assumes "cstr m p s" and "p \<noteq> 0" and "0 \<notin> set (ascii lit)"
  shows "\<exists>r. strcmp_lit m p lit = Some r \<and> (r = 0 \<longleftrightarrow> s = ascii lit)"
proof -
  have "m \<noteq> []"
    using cstr_bound [OF assms(1)] by auto
  then have "strcmp_lit m p lit = Some (order_sign s (ascii lit))"
    using strcmp_loop_cstr [OF cstr_append [OF assms(1)] cstr_literal [OF assms(3), of m "[]"]] assms(2)
    by (simp add: strcmp_lit_def strcmp_def)
  then show ?thesis
    by (auto simp: order_sign_def)
qed

lemma strcmp_branch:
  assumes "cstr m p s" and "p \<noteq> 0" and "0 \<notin> set (ascii lit)"
  shows "do { r \<leftarrow> strcmp_lit m p lit; if r = 0 then x else y } = (if s = ascii lit then x else y)"
  using strcmp_lit_cstr [OF assms] by auto

section \<open>Properties\<close>

lemma args_loop_strings:
  assumes "m = pre @ concat (map (\<lambda>s. s @ [0]) ss) @ post" and "length pre + length (concat (map (\<lambda>s. s @ [0]) ss)) \<le> e"
    and "\<forall>s \<in> set ss. 0 \<notin> set s" and "length argv + length ss \<le> 65"
  shows "\<exists>ps. args_loop m (length pre) e (length ss) argv = Some (argv @ ps) \<and> list_all2 (cstr m) ps ss"
  using assms
proof (induction ss arbitrary: pre argv)
  case (Cons s ss)
  have m: "m = pre @ s @ [0] @ concat (map (\<lambda>s. s @ [0]) ss) @ post"
    using Cons.prems(1) by simp
  have c: "cstr m (length pre) s"
    unfolding m using Cons.prems(3) by (intro cstr_literal) simp
  then have "strnlen m (length pre) (e - length pre) = Some (length s)"
    using strnlen_loop_cstr [of m "length pre" 0 s "e - length pre"] Cons.prems(2) by (simp add: strnlen_def)
  moreover obtain ps where "args_loop m (length (pre @ s @ [0])) e (length ss) (argv @ [length pre]) = Some ((argv @ [length pre]) @ ps)"
      "list_all2 (cstr m) ps ss"
    using Cons.IH [of "pre @ s @ [0]" "argv @ [length pre]"] Cons.prems by auto
  ultimately show ?case
    using c Cons.prems(2,4) by (intro exI [of _ "length pre # ps"]) (simp add: kernel_simps LOADER_ARGS_LEN_def)
qed simp

text \<open>When the loader leaves at most 64 strings in its 128 bytes, \<^verbatim>\<open>read_command_line\<close> returns an array of pointers to exactly
  these strings, in order, with a null pointer behind them.\<close>
theorem read_command_line_strings:
  assumes "\<forall>s \<in> set ss. 0 \<notin> set s" and "length (concat (map (\<lambda>s. s @ [0]) ss)) \<le> 128" and "length ss \<le> 64"
  shows "\<exists>argv. read_command_line (pre @ concat (map (\<lambda>s. s @ [0]) ss) @ post) (length pre) (of_nat (length ss)) = Some (argv @ [0]) \<and>
    list_all2 (cstr (pre @ concat (map (\<lambda>s. s @ [0]) ss) @ post)) argv ss"
proof -
  have "sint (of_nat (length ss) :: u32) = int (length ss)" "unat (of_nat (length ss) :: u32) = length ss"
    using assms(3) by (simp_all add: sint_of_nat_small unat_of_nat_small)
  moreover have "0 \<le>s (of_nat (length ss) :: u32)"
    using assms(3) by (simp add: word_sle_eq sint_of_nat_small)
  ultimately show ?thesis
    using args_loop_strings [OF refl, of pre ss "length pre + 128" "[]" post] assms
    by (auto simp: read_command_line_def LOADER_ARGS_LEN_def kernel_simps)
qed

theorem read_command_line_strings_witness:
  "\<exists>argv. read_command_line ([0] @ concat (map (\<lambda>s. s @ [0]) [[45, 113], [108, 115]]) @ replicate 122 0) 1 2 = Some (argv @ [0])"
  using read_command_line_strings [of "[[45, 113], [108, 115]]" "[0]" "replicate 122 0"] by auto

text \<open>More than 64 strings fit if most of them are empty; then the array is too short.\<close>
theorem read_command_line_overflow:
  assumes "64 < length ss" and "length ss < 2 ^ 31"
  shows "read_command_line m p (of_nat (length ss)) = None"
proof -
  have "unat (of_nat (length ss) :: u32) = length ss"
    using assms(2) by (simp add: unat_of_nat_small)
  then show ?thesis
    using assms(1) by (simp add: read_command_line_def LOADER_ARGS_LEN_def kernel_simps)
qed

section \<open>Running actions\<close>

definition command_ok :: "mem \<Rightarrow> action \<times> ptr list \<Rightarrow> bool" where
  "command_ok m = (\<lambda>(f, ps). 0 \<notin> set ps \<and> (\<exists>name. (name, length ps, f) \<in> set actions \<and> cstr m (hd ps) (ascii name)))"

fun run_commands :: "(action \<Rightarrow> ptr list \<Rightarrow> 's \<Rightarrow> 's kernel) \<Rightarrow> (action \<times> ptr list) list \<Rightarrow> 's \<Rightarrow> 's kernel" where
  "run_commands invoke [] s = Some s"
| "run_commands invoke ((f, ps) # cs) s = do {
     s \<leftarrow> invoke f (ps @ concat (map snd cs) @ [0]) s;
     run_commands invoke cs s
   }"

lemma ascii_names: "(name, argc, f) \<in> set actions \<Longrightarrow> 0 \<notin> set (ascii name)"
  by (auto simp: actions_def ascii_def)

lemma find_action_cstr:
  assumes "cstr m p (ascii name)" and "p \<noteq> 0" and "\<forall>(n, argc, f) \<in> set as. 0 \<notin> set (ascii n)"
    and "distinct (map (\<lambda>(n, argc, f). ascii n) as)" and "(name, argc, f) \<in> set as"
  shows "find_action m p as = Some (argc, f)"
  using assms(3-5)
proof (induction "as")
  case (Cons a "as")
  obtain n ac g where a: "a = (n, ac, g)"
    by (cases a) auto
  have "0 \<notin> set (ascii n)"
    using Cons.prems(1) a by auto
  then obtain r where r: "strcmp_lit m p n = Some r" "r = 0 \<longleftrightarrow> ascii name = ascii n"
    using strcmp_lit_cstr [OF assms(1,2)] by blast
  show ?case
  proof (cases "ascii name = ascii n")
    case True
    then have "(name, argc, f) \<notin> set as"
      using Cons.prems(2) a by force
    then show ?thesis
      using Cons.prems(3) r True a by simp
  next
    case False
    then have "(name, argc, f) \<in> set as"
      using Cons.prems(3) a by auto
    then show ?thesis
      using Cons.IH Cons.prems(1,2) r False a by simp
  qed
qed simp

text \<open>An array that spells out a sequence of commands, each with its arguments, makes \<^verbatim>\<open>run_actions\<close> run these commands in
  order and return.\<close>
theorem run_actions_sequence:
  assumes "list_all (command_ok m) cs"
  shows "run_actions invoke m (concat (map snd cs) @ [0]) s = run_commands invoke cs s"
  using assms
proof (induction cs arbitrary: s)
  case Nil
  show ?case
    by (subst run_actions.simps) simp
next
  case (Cons c cs)
  obtain f ps name where c: "c = (f, ps)" "0 \<notin> set ps" "(name, length ps, f) \<in> set actions" "cstr m (hd ps) (ascii name)"
    using Cons.prems by (cases c) (auto simp: command_ok_def)
  have "ps \<noteq> []"
    using c(3) by (auto simp: actions_def)
  then obtain p qs where ps: "ps = p # qs"
    by (cases ps) auto
  have "distinct (map (\<lambda>(n, argc, f). ascii n) actions)"
    by (simp add: actions_def ascii_def)
  moreover have "\<forall>(n, argc, f) \<in> set actions. 0 \<notin> set (ascii n)"
    using ascii_names by auto
  ultimately have "find_action m p actions = Some (length ps, f)"
    using find_action_cstr [of m p name actions "length ps" f] c ps by auto
  moreover have "run_actions invoke m (concat (map snd cs) @ [0]) = run_commands invoke cs"
    using Cons by (intro ext) simp
  ultimately show ?case
    using c ps by (subst run_actions.simps) (simp add: kernel_simps)
qed

theorem run_actions_sequence_witness:
  "run_actions (\<lambda>f argv n. Some (n + length argv)) [0, 114, 117, 110, 0, 97, 0] [1, 5, 0] 0 = Some (3 :: nat)"
proof -
  have "list_all (command_ok [0, 114, 117, 110, 0, 97, 0]) [(Run, [1, 5])]"
    by (auto simp: command_ok_def actions_def ascii_def fetch_def)
  from run_actions_sequence [OF this, of "\<lambda>f argv n. Some (n + length argv)" 0] show ?thesis
    by simp
qed

section \<open>Options\<close>

lemma mem_eqI: "(\<And>i. fetch m i = fetch m' i) \<Longrightarrow> m = m'" for m m' :: mem
proof (rule nth_equalityI)
  assume f: "\<And>i. fetch m i = fetch m' i"
  show "length m = length m'"
  proof (rule ccontr)
    assume "length m \<noteq> length m'"
    then show False
      using f [of "length m"] f [of "length m'"] by (auto simp: fetch_def split: if_splits)
  qed
  then show "m ! i = m' ! i" if "i < length m" for i
    using f [of i] that by (simp add: fetch_def)
qed

lemma cstr_nth: "cstr m p s \<Longrightarrow> k < length s \<Longrightarrow> fetch m (p + k) = Some (s ! k)"
proof (induction s arbitrary: p k)
  case (Cons c s)
  then show ?case
    using Cons.IH [of "Suc p" "k - 1"] by (cases k) auto
qed simp

lemma strtok_whole:
  assumes "cstr m p s" and "p \<noteq> 0" and "s \<noteq> []" and "0 \<notin> set (ascii d)" and "set s \<inter> set (ascii d) = {}"
  shows "strtok_lit m p d 0 = Some (p, p + length s, m)"
proof -
  let ?m = "m @ ascii d @ [0]" and ?D = "set (ascii d)"
  have dw: "dropWhile (\<lambda>c. c \<in> ?D) s = s"
    using assms(3,5) by (cases s) auto
  have tw: "takeWhile (\<lambda>c. c \<notin> ?D) s = s" "dropWhile (\<lambda>c. c \<notin> ?D) s = []"
    using assms(5) by (auto simp: takeWhile_eq_all_conv dropWhile_eq_Nil_conv)
  have tok: "tokens ?D s = [s]"
    unfolding tokens.simps [of ?D s] Let_def dw tw using assms(3) by (simp add: tokens.simps [of ?D "[]"])
  have b: "p + length s < length m" "length m \<noteq> 0"
    using cstr_bound [OF assms(1)] by auto
  note st = strtok_r_step [OF cstr_literal [OF assms(4), of m "[]", simplified] b(2) cstr_append [OF assms(1)] assms(2), of p 0, unfolded tok]
  obtain q m' p' s' where r: "strtok_r ?m p (length m) 0 = Some (q, p', m')" "cstr m' q s" "p \<le> q" "q + length s < Suc p'"
      "p' + length (s' :: u8 list) = p + length s" "\<forall>i. i < p \<or> p' \<le> i \<longrightarrow> fetch m' i = fetch ?m i"
    using st [unfolded list.case, OF disjI1 [OF refl] disjI2 [OF b(1)]] by (elim exE conjE) (rule that)
  have q: "q = p" "p' = p + length s"
    using r(3-5) by simp_all
  have "m' = ?m"
  proof (rule mem_eqI)
    fix i
    from cstr_nth [of m' p s "i - p"] cstr_nth [of ?m p s "i - p"] show "fetch m' i = fetch ?m i"
      using r(2,6) q cstr_append [OF assms(1)] by (cases "i < p \<or> p' \<le> i") auto
  qed
  then show ?thesis
    using r(1) q by (simp add: strtok_lit_def)
qed

lemma strtok_at_end:
  assumes "cstr m p []" and "p \<noteq> 0" and "0 \<notin> set (ascii d)"
  shows "strtok_lit m 0 d p = Some (0, p, m)"
proof -
  have "p < length m"
    using cstr_bound [OF assms(1)] by simp
  moreover from this have "m \<noteq> []"
    by auto
  moreover have "tokens (set (ascii d)) [] = []"
    by (simp add: tokens.simps)
  ultimately show ?thesis
    using strtok_r_step [of "m @ ascii d @ [0]" "length m" "ascii d" p "[]" 0 p] cstr_literal [OF assms(3), of m "[]"]
      cstr_append [OF assms(1)] assms(2)
    by (simp add: strtok_lit_def)
qed

text \<open>An option without a value.\<close>
lemma parse_plain_option:
  assumes "cstr m a (45 # s)" and "a \<noteq> 0" and "61 \<notin> set s"
  shows "parse_options m (a # argv) opts = do {
    r \<leftarrow> set_option m a 0 opts;
    case r of None \<Rightarrow> Some (Usage, m, opts) | Some opts \<Rightarrow> parse_options m argv opts }"
proof -
  have "strtok_lit m a ''='' 0 = Some (a, a + length (45 # s), m)"
    using assms by (intro strtok_whole) (auto simp: ascii_def)
  moreover have "cstr m (a + length (45 # s)) []"
    using cstr_end [OF assms(1)] by simp
  then have "strtok_lit m 0 '''' (a + length (45 # s)) = Some (0, a + length (45 # s), m)"
    using assms(2) by (intro strtok_at_end) (auto simp: ascii_def)
  ultimately show ?thesis
    using assms(1,2) by simp
qed

text \<open>A flag sets its variable and leaves the command line as it was.  An option whose value is missing hands a null
  pointer to \<^verbatim>\<open>atoi\<close>, which ends in a failed assertion.\<close>
theorem parse_options_flags:
  assumes "cstr m a (ascii s)" and "a \<noteq> 0" and "s \<in> {''-q'', ''-f'', ''-mlfqs'', ''-rs'', ''-ul''}"
  shows "parse_options m (a # argv) opts =
    (if s = ''-q'' then parse_options m argv (opts\<lparr>power_off_when_done := True\<rparr>)
     else if s = ''-f'' then parse_options m argv (opts\<lparr>format_filesys := True\<rparr>)
     else if s = ''-mlfqs'' then parse_options m argv (opts\<lparr>thread_mlfqs := True\<rparr>)
     else None)"
proof -
  have "\<exists>t. ascii s = 45 # t \<and> 61 \<notin> set t"
    using assms(3) by (auto simp: ascii_def)
  then have p: "parse_options m (a # argv) opts = do {
      r \<leftarrow> set_option m a 0 opts; case r of None \<Rightarrow> Some (Usage, m, opts) | Some opts \<Rightarrow> parse_options m argv opts }"
    using parse_plain_option [of m a] assms(1,2) by auto
  have o: "set_option m a 0 opts =
      (if s = ''-q'' then Some (Some (opts\<lparr>power_off_when_done := True\<rparr>))
       else if s = ''-f'' then Some (Some (opts\<lparr>format_filesys := True\<rparr>))
       else if s = ''-mlfqs'' then Some (Some (opts\<lparr>thread_mlfqs := True\<rparr>))
       else None)"
    using assms(3) by (elim insertE) (simp_all add: set_option_def strcmp_branch [OF assms(1,2)] ascii_def atoi_def kernel_simps)
  show ?thesis
    unfolding p o by simp
qed

theorem parse_options_flags_witness:
  "\<forall>opts. parse_options [0, 45, 114, 115, 0] [1, 0] opts = None"
  using parse_options_flags [of "[0, 45, 114, 115, 0]" 1 "''-rs''" "[0]"] by (simp add: ascii_def fetch_def)

end
