(* ===== verification/Vga.thy ===== *)
theory Vga
  imports Strings
begin

text \<open>
  \<^verbatim>\<open>devices/vga.c\<close>: the text display.  The frame buffer is a byte memory that begins at address 1, with 25 rows of 80 characters,
  each a character and an attribute.  The display controller is its array of registers; a 16-bit output to its index
  port selects a register with the low byte and sets it to the high byte.  Disabling interrupts around an output
  is not modelled: an operation is one step.
\<close>

section \<open>State and operations\<close>

definition COL_CNT :: u32 where "COL_CNT = 80"
definition ROW_CNT :: u32 where "ROW_CNT = 25"
definition GRAY_ON_BLACK :: u8 where "GRAY_ON_BLACK = 7"

record vga =
  cx :: u32
  cy :: u32
  fb :: mem
  vga_inited :: bool
  crtc :: "u8 \<Rightarrow> u8"

definition cell :: "nat \<Rightarrow> nat \<Rightarrow> nat" where
  "cell y x = 1 + 160 * y + 2 * x"

text \<open>\<^verbatim>\<open>fb[y][x][0] = c; fb[y][x][1] = GRAY_ON_BLACK\<close>\<close>
definition fb_put :: "nat \<Rightarrow> nat \<Rightarrow> u8 \<Rightarrow> vga \<Rightarrow> vga kernel" where
  "fb_put y x c v = do {
     m \<leftarrow> store (fb v) (cell y x) c;
     m \<leftarrow> store m (cell y x + 1) GRAY_ON_BLACK;
     Some (v\<lparr>fb := m\<rparr>)
   }"

definition outw_crtc :: "u16 \<Rightarrow> vga \<Rightarrow> vga" where
  "outw_crtc w v = v\<lparr>crtc := (crtc v)(ucast w := ucast (drop_bit 8 w))\<rparr>"

fun clear_loop :: "nat \<Rightarrow> nat \<Rightarrow> nat \<Rightarrow> vga \<Rightarrow> vga kernel" where
  "clear_loop y x 0 v = Some v"
| "clear_loop y x (Suc n) v = do { v \<leftarrow> fb_put y x 32 v; clear_loop y (x + 1) n v }"

definition clear_row :: "nat \<Rightarrow> vga \<Rightarrow> vga kernel" where
  "clear_row y v = clear_loop y 0 (unat COL_CNT) v"

definition newline :: "vga \<Rightarrow> vga kernel" where
  "newline v = do {
     let v = v\<lparr>cx := 0, cy := cy v + 1\<rparr>;
     if ROW_CNT \<le> cy v
     then do {
       let v = v\<lparr>cy := ROW_CNT - 1\<rparr>;
       (_, m) \<leftarrow> memmove (fb v) (cell 0 0) (cell 1 0) (160 * (unat ROW_CNT - 1));
       clear_row (unat ROW_CNT - 1) (v\<lparr>fb := m\<rparr>)
     }
     else Some v
   }"

definition move_cursor :: "vga \<Rightarrow> vga" where
  "move_cursor v = (let cp = ucast (cx v + COL_CNT * cy v) :: u16
     in outw_crtc (0x0f OR push_bit 8 cp) (outw_crtc (0x0e OR (cp AND 0xff00)) v))"

definition find_cursor :: "vga \<Rightarrow> u32 \<times> u32" where
  "find_cursor v = (let cp = push_bit 8 (ucast (crtc v 0x0e)) OR ucast (crtc v 0x0f) :: u16
     in (ucast cp mod COL_CNT, ucast cp div COL_CNT))"

fun cls_loop :: "nat \<Rightarrow> nat \<Rightarrow> vga \<Rightarrow> vga kernel" where
  "cls_loop y 0 v = Some v"
| "cls_loop y (Suc n) v = do { v \<leftarrow> clear_row y v; cls_loop (y + 1) n v }"

definition cls :: "vga \<Rightarrow> vga kernel" where
  "cls v = do {
     v \<leftarrow> cls_loop 0 (unat ROW_CNT) v;
     Some (move_cursor (v\<lparr>cx := 0, cy := 0\<rparr>))
   }"

definition vga_init :: "vga \<Rightarrow> vga" where
  "vga_init v = (if vga_inited v then v else let (x, y) = find_cursor v in v\<lparr>cx := x, cy := y, vga_inited := True\<rparr>)"

definition vga_putc :: "u32 \<Rightarrow> vga \<Rightarrow> vga kernel" where
  "vga_putc c v = do {
     let v = vga_init v;
     v \<leftarrow>
       (if c = 10 then newline v
        else if c = 12 then cls v
        else if c = 8 then Some (if 0 < cx v then v\<lparr>cx := cx v - 1\<rparr> else v)
        else if c = 13 then Some (v\<lparr>cx := 0\<rparr>)
        else if c = 9
        then do {
          let v = v\<lparr>cx := ROUND_UP (cx v + 1) 8\<rparr>;
          if COL_CNT \<le> cx v then newline v else Some v
        }
        else do {
          v \<leftarrow> fb_put (unat (cy v)) (unat (cx v)) (ucast c) v;
          let v = v\<lparr>cx := cx v + 1\<rparr>;
          if COL_CNT \<le> cx v then newline v else Some v
        });
     Some (move_cursor v)
   }"

section \<open>A terminal\<close>

text \<open>The display as rows of characters with their attributes, and the position of the cursor.\<close>
type_synonym glyph = "u8 \<times> u8"
type_synonym terminal = "glyph list list \<times> nat \<times> nat"

definition blank_row :: "glyph list" where
  "blank_row = replicate 80 (32, 7)"

fun term_newline :: "terminal \<Rightarrow> terminal" where
  "term_newline (rows, x, y) = (if y = 24 then (tl rows @ [blank_row], 0, 24) else (rows, 0, y + 1))"

fun term_wrap :: "terminal \<Rightarrow> terminal" where
  "term_wrap (rows, x, y) = (if 80 \<le> x then term_newline (rows, x, y) else (rows, x, y))"

fun term_putc :: "u32 \<Rightarrow> terminal \<Rightarrow> terminal" where
  "term_putc c (rows, x, y) =
     (if c = 10 then term_newline (rows, x, y)
      else if c = 12 then (replicate 25 blank_row, 0, 0)
      else if c = 8 then (rows, x - 1, y)
      else if c = 13 then (rows, 0, y)
      else if c = 9 then term_wrap (rows, 8 * (x div 8 + 1), y)
      else term_wrap (rows[y := (rows ! y)[x := (ucast c, 7)]], x + 1, y))"

section \<open>The frame buffer as rows\<close>

definition glyph_at :: "mem \<Rightarrow> nat \<Rightarrow> nat \<Rightarrow> glyph" where
  "glyph_at m y x = (m ! cell y x, m ! (cell y x + 1))"

definition screen :: "mem \<Rightarrow> glyph list list" where
  "screen m = map (\<lambda>y. map (glyph_at m y) [0..<80]) [0..<25]"

lemma screen_eqI:
  assumes "length rows = 25" and "\<And>y. y < 25 \<Longrightarrow> length (rows ! y) = 80"
    and "\<And>y x. y < 25 \<Longrightarrow> x < 80 \<Longrightarrow> glyph_at m y x = rows ! y ! x"
  shows "screen m = rows"
  using assms by (intro nth_equalityI) (auto simp: screen_def intro!: nth_equalityI)

lemma screen_simps [simp]: "length (screen m) = 25" "y < 25 \<Longrightarrow> length (screen m ! y) = 80"
  "y < 25 \<Longrightarrow> x < 80 \<Longrightarrow> screen m ! y ! x = glyph_at m y x"
  by (simp_all add: screen_def)

lemma cell_bound: "y < 25 \<Longrightarrow> x < 80 \<Longrightarrow> cell y x + 1 < 4001"
  by (simp add: cell_def)

lemma cell_inj:
  assumes "x < 80" and "x' < 80"
  shows "cell y x = cell y' x' \<longleftrightarrow> y = y' \<and> x = x'" and "cell y x \<noteq> Suc (cell y' x')" and "Suc (cell y x) \<noteq> cell y' x'"
proof -
  show "cell y x = cell y' x' \<longleftrightarrow> y = y' \<and> x = x'"
  proof
    assume "cell y x = cell y' x'"
    then have e: "80 * y + x = 80 * y' + x'"
      by (simp add: cell_def)
    then have "(80 * y + x) div 80 = (80 * y' + x') div 80"
      by simp
    then have "y = y'"
      using assms by simp
    then show "y = y' \<and> x = x'"
      using e by simp
  qed simp
  have "odd (cell y x)" for y x
    by (simp add: cell_def)
  then show "cell y x \<noteq> Suc (cell y' x')" "Suc (cell y x) \<noteq> cell y' x'"
    by (metis even_Suc)+
qed

lemma fb_put_spec:
  assumes "length (fb v) = 4001" and "y < 25" and "x < 80"
  obtains m where "fb_put y x c v = Some (v\<lparr>fb := m\<rparr>)" and "length m = 4001"
    and "\<And>y' x'. y' < 25 \<Longrightarrow> x' < 80 \<Longrightarrow> glyph_at m y' x' = (if y' = y \<and> x' = x then (c, 7) else glyph_at (fb v) y' x')"
proof
  let ?m = "(fb v)[cell y x := c, cell y x + 1 := 7]"
  show "fb_put y x c v = Some (v\<lparr>fb := ?m\<rparr>)"
    using cell_bound [OF assms(2,3)] assms(1) by (simp add: fb_put_def store_def GRAY_ON_BLACK_def)
  show "length ?m = 4001"
    by (simp add: assms(1))
  show "glyph_at ?m y' x' = (if y' = y \<and> x' = x then (c, 7) else glyph_at (fb v) y' x')" if "y' < 25" "x' < 80" for y' x'
    using cell_inj [OF assms(3) that(2), of y y'] cell_inj [OF that(2) assms(3), of y' y] cell_bound [OF assms(2,3)] assms(1)
    by (auto simp: glyph_at_def nth_list_update)
qed

lemma clear_loop_spec:
  assumes "length (fb v) = 4001" and "y < 25" and "x + n \<le> 80"
  shows "\<exists>m. clear_loop y x n v = Some (v\<lparr>fb := m\<rparr>) \<and> length m = 4001 \<and>
    (\<forall>y' < 25. \<forall>x' < 80. glyph_at m y' x' = (if y' = y \<and> x \<le> x' \<and> x' < x + n then (32, 7) else glyph_at (fb v) y' x'))"
  using assms
proof (induction n arbitrary: x v)
  case 0
  then show ?case
    by (intro exI [of _ "fb v"]) auto
next
  case (Suc n)
  then have "x < 80"
    by simp
  obtain m where m: "fb_put y x 32 v = Some (v\<lparr>fb := m\<rparr>)" "length m = 4001"
    "\<And>y' x'. y' < 25 \<Longrightarrow> x' < 80 \<Longrightarrow> glyph_at m y' x' = (if y' = y \<and> x' = x then (32, 7) else glyph_at (fb v) y' x')"
    using fb_put_spec [OF Suc.prems(1,2) \<open>x < 80\<close>, of 32] by blast
  obtain m' where m': "clear_loop y (x + 1) n (v\<lparr>fb := m\<rparr>) = Some (v\<lparr>fb := m'\<rparr>)" "length m' = 4001"
    "\<forall>y' < 25. \<forall>x' < 80. glyph_at m' y' x' = (if y' = y \<and> x + 1 \<le> x' \<and> x' < x + 1 + n then (32, 7) else glyph_at m y' x')"
    using Suc.IH [of "v\<lparr>fb := m\<rparr>" "x + 1"] Suc.prems m(2) by auto
  have "glyph_at m' y' x' = (if y' = y \<and> x \<le> x' \<and> x' < x + Suc n then (32, 7) else glyph_at (fb v) y' x')"
    if "y' < 25" "x' < 80" for y' x'
    using m' (3) [rule_format, OF that] m(3) [OF that] by auto
  then show ?case
    using m(1) m'(1,2) by (intro exI [of _ m']) simp
qed

lemma clear_row_spec:
  assumes "length (fb v) = 4001" and "y < 25"
  obtains m where "clear_row y v = Some (v\<lparr>fb := m\<rparr>)" and "length m = 4001" and "screen m = (screen (fb v))[y := blank_row]"
proof -
  obtain m where m: "clear_row y v = Some (v\<lparr>fb := m\<rparr>)" "length m = 4001"
    "\<forall>y' < 25. \<forall>x' < 80. glyph_at m y' x' = (if y' = y \<and> 0 \<le> x' \<and> x' < 0 + 80 then (32, 7) else glyph_at (fb v) y' x')"
    using clear_loop_spec [OF assms, of 0 80] by (auto simp: clear_row_def COL_CNT_def)
  have "screen m = (screen (fb v))[y := blank_row]"
    by (rule screen_eqI) (use m(3) assms(2) in \<open>auto simp: nth_list_update blank_row_def\<close>)
  with m(1,2) show thesis
    by (rule that)
qed

lemma scroll_spec:
  assumes "length m = 4001"
  obtains r m' where "memmove m (cell 0 0) (cell 1 0) 3840 = Some (r, m')" and "length m' = 4001"
    and "screen m' = tl (screen m) @ [screen m ! 24]"
proof -
  let ?m = "overwrite m 1 (block m 161 3840)"
  have "memmove m (cell 0 0) (cell 1 0) 3840 = Some (3841, ?m)"
    using assms by (simp add: memmove_def cell_def copy_up_block)
  moreover have len: "length (block m 161 3840) = 3840"
    using assms by simp
  then have l: "length ?m = 4001"
    using assms by simp
  have nth: "?m ! i = (if i < 3841 then m ! (i + 160) else m ! i)" if "1 \<le> i" "i < 4001" for i
    using that assms len by (subst overwrite_nth) (auto simp: block_def add.commute)
  have "screen ?m = tl (screen m) @ [screen m ! 24]"
  proof (rule screen_eqI)
    fix y x :: nat
    assume b: "y < 25" "x < 80"
    show "glyph_at ?m y x = (tl (screen m) @ [screen m ! 24]) ! y ! x"
    proof (cases "y < 24")
      case True
      then have "glyph_at ?m y x = glyph_at m (Suc y) x"
        using b nth [of "cell y x"] nth [of "cell y x + 1"] by (simp add: glyph_at_def cell_def ac_simps)
      then show ?thesis
        using True b by (simp add: nth_append nth_tl)
    next
      case False
      then have "y = 24"
        using b by simp
      then have "glyph_at ?m y x = glyph_at m 24 x"
        using b nth [of "cell y x"] nth [of "cell y x + 1"] by (simp add: glyph_at_def cell_def)
      then show ?thesis
        using \<open>y = 24\<close> b by (simp add: nth_append)
    qed
  qed (auto simp: nth_append nth_tl less_Suc_eq_le)
  ultimately show thesis
    using l by (intro that)
qed

section \<open>Refinement\<close>

text \<open>A display that is in use has its cursor on the screen; the first output finds it where the controller says.\<close>
definition vga_ok :: "vga \<Rightarrow> bool" where
  "vga_ok v \<longleftrightarrow> length (fb v) = 4001 \<and> unat (cx (vga_init v)) < 80 \<and> unat (cy (vga_init v)) < 25"

definition terminal_of :: "vga \<Rightarrow> terminal" where
  "terminal_of v = (screen (fb v), unat (cx (vga_init v)), unat (cy (vga_init v)))"

definition cursor_pos :: "vga \<Rightarrow> nat" where
  "cursor_pos v = 256 * unat (crtc v 0x0e) + unat (crtc v 0x0f)"

lemma newline_spec:
  assumes "length (fb v) = 4001" and "unat (cy v) < 25"
  obtains v' where "newline v = Some v'" and "length (fb v') = 4001" and "vga_inited v' = vga_inited v"
    and "(screen (fb v'), unat (cx v'), unat (cy v')) = term_newline (screen (fb v), x, unat (cy v))"
proof (cases "unat (cy v) = 24")
  case True
  then have c: "cy v = 24"
    by (simp add: word_unat_eq_iff)
  obtain r m where m: "memmove (fb v) (cell 0 0) (cell 1 0) 3840 = Some (r, m)" "length m = 4001"
    "screen m = tl (screen (fb v)) @ [screen (fb v) ! 24]"
    using scroll_spec [OF assms(1)] by blast
  let ?v = "v\<lparr>cx := 0, cy := 24, fb := m\<rparr>"
  obtain m' where m': "clear_row 24 ?v = Some (?v\<lparr>fb := m'\<rparr>)" "length m' = 4001" "screen m' = (screen m)[24 := blank_row]"
    using clear_row_spec [of ?v 24] m(2) by auto
  have "newline v = Some (?v\<lparr>fb := m'\<rparr>)"
    using m(1) m'(1) c by (simp add: newline_def ROW_CNT_def Let_def)
  moreover have "screen m' = tl (screen (fb v)) @ [blank_row]"
    unfolding m'(3) m(3) by (simp add: list_update_append)
  ultimately show thesis
    using m'(2) True by (intro that [of "?v\<lparr>fb := m'\<rparr>"]) simp_all
next
  case False
  have u: "unat (cy v + 1) = unat (cy v) + 1"
    using assms(2) by (subst unat_add_small) simp_all
  then have "\<not> ROW_CNT \<le> cy v + 1"
    using False assms(2) by (simp add: ROW_CNT_def word_le_nat_alt)
  then have "newline v = Some (v\<lparr>cx := 0, cy := cy v + 1\<rparr>)"
    by (simp add: newline_def Let_def)
  then show thesis
    using False u assms(1) by (intro that [of "v\<lparr>cx := 0, cy := cy v + 1\<rparr>"]) simp_all
qed

lemma cls_loop_spec:
  assumes "length (fb v) = 4001" and "y + n \<le> 25"
  shows "\<exists>m. cls_loop y n v = Some (v\<lparr>fb := m\<rparr>) \<and> length m = 4001 \<and>
    (\<forall>j < 25. screen m ! j = (if y \<le> j \<and> j < y + n then blank_row else screen (fb v) ! j))"
  using assms
proof (induction n arbitrary: y v)
  case 0
  then show ?case
    by (intro exI [of _ "fb v"]) auto
next
  case (Suc n)
  then have y: "y < 25"
    by simp
  obtain m where m: "clear_row y v = Some (v\<lparr>fb := m\<rparr>)" "length m = 4001" "screen m = (screen (fb v))[y := blank_row]"
    using clear_row_spec [OF Suc.prems(1) y] by blast
  obtain m' where m': "cls_loop (y + 1) n (v\<lparr>fb := m\<rparr>) = Some (v\<lparr>fb := m'\<rparr>)" "length m' = 4001"
    "\<forall>j < 25. screen m' ! j = (if y + 1 \<le> j \<and> j < y + 1 + n then blank_row else screen m ! j)"
    using Suc.IH [of "v\<lparr>fb := m\<rparr>" "y + 1"] Suc.prems m(2) by auto
  have "screen m' ! j = (if y \<le> j \<and> j < y + Suc n then blank_row else screen (fb v) ! j)" if "j < 25" for j
    using m'(3) that m(3) y by (auto simp: nth_list_update)
  then show ?case
    using m(1) m'(1,2) by (intro exI [of _ m']) simp
qed

lemma move_cursor_simps [simp]:
  "cx (move_cursor v) = cx v" "cy (move_cursor v) = cy v" "fb (move_cursor v) = fb v" "vga_inited (move_cursor v) = vga_inited v"
  by (simp_all add: move_cursor_def Let_def outw_crtc_def)

lemma byte_eqI:
  fixes a b :: u8
  assumes "\<And>n. n \<in> {0, 1, 2, 3, 4, 5, 6, 7} \<Longrightarrow> bit a n = bit b n"
  shows "a = b"
proof (rule bit_word_eqI)
  fix n
  assume "n < LENGTH(8)"
  then have "n \<in> {0, 1, 2, 3, 4, 5, 6, 7}"
    by auto
  then show "bit a n = bit b n"
    by (rule assms)
qed

lemma move_cursor_pos:
  assumes "unat (cx v) < 80" and "unat (cy v) < 25"
  shows "cursor_pos (move_cursor v) = unat (cx v) + 80 * unat (cy v)"
proof -
  let ?p = "cx v + COL_CNT * cy v"
  define cp where "cp = (ucast ?p :: u16)"
  have "unat (COL_CNT * cy v) = 80 * unat (cy v)"
    using assms(2) by (subst unat_mult_small) (simp_all add: COL_CNT_def)
  then have p: "unat ?p = unat (cx v) + 80 * unat (cy v)"
    using assms by (subst unat_add_small) simp_all
  then have cp: "unat cp = unat (cx v) + 80 * unat (cy v)"
    using assms by (simp add: cp_def unsigned_ucast_eq take_bit_eq_mod)
  have r: "ucast (0x0e OR (cp AND 0xff00)) = (0x0e :: u8)" "ucast (0x0f OR push_bit 8 cp) = (0x0f :: u8)"
    "ucast (drop_bit 8 (0x0e OR (cp AND 0xff00))) = (ucast (drop_bit 8 cp) :: u8)"
    "ucast (drop_bit 8 (0x0f OR push_bit 8 cp)) = (ucast cp :: u8)"
    by (rule byte_eqI; auto simp: bit_simps)+
  have "unat (ucast (drop_bit 8 cp) :: u8) = unat cp div 256" "unat (ucast cp :: u8) = unat cp mod 256"
    using cp assms by (simp_all add: unsigned_ucast_eq take_bit_eq_mod drop_bit_eq_div unat_div)
  moreover have "crtc (move_cursor v) 0x0e = ucast (drop_bit 8 cp)" "crtc (move_cursor v) 0x0f = ucast cp"
    unfolding move_cursor_def Let_def outw_crtc_def cp_def [symmetric] r by simp_all
  ultimately show ?thesis
    by (simp add: cursor_pos_def cp)
qed

section \<open>Properties\<close>

lemma vga_init_simps [simp]: "vga_inited (vga_init v)" "fb (vga_init v) = fb v" "vga_inited v \<Longrightarrow> vga_init v = v"
  by (simp_all add: vga_init_def split_beta Let_def)

text \<open>The result of an output before the hardware cursor is moved, as a terminal.\<close>
definition shows_as :: "vga \<Rightarrow> terminal \<Rightarrow> bool" where
  "shows_as v t \<longleftrightarrow> vga_inited v \<and> length (fb v) = 4001 \<and> unat (cx v) < 80 \<and> unat (cy v) < 25 \<and> (screen (fb v), unat (cx v), unat (cy v)) = t"

lemma newline_shows:
  assumes "vga_inited v" and "length (fb v) = 4001" and "unat (cy v) < 25"
  shows "\<exists>v'. newline v = Some v' \<and> shows_as v' (term_newline (screen (fb v), x, unat (cy v)))"
proof -
  obtain v' where "newline v = Some v'" "length (fb v') = 4001" "vga_inited v' = vga_inited v"
    "(screen (fb v'), unat (cx v'), unat (cy v')) = term_newline (screen (fb v), x, unat (cy v))"
    using newline_spec [OF assms(2,3)] by blast
  then show ?thesis
    using assms(1,3) by (auto simp: shows_as_def split: if_splits)
qed

lemma wrap_shows:
  assumes "vga_inited v" and "length (fb v) = 4001" and "unat (cy v) < 25"
  shows "\<exists>v'. (if COL_CNT \<le> cx v then newline v else Some v) = Some v' \<and> shows_as v' (term_wrap (screen (fb v), unat (cx v), unat (cy v)))"
  using newline_shows [OF assms, of "unat (cx v)"] assms by (simp add: shows_as_def COL_CNT_def word_le_nat_alt)

lemma cls_shows:
  assumes "vga_inited v" and "length (fb v) = 4001"
  shows "\<exists>v'. cls v = Some v' \<and> shows_as v' (replicate 25 blank_row, 0, 0)"
proof -
  obtain m where m: "cls_loop 0 25 v = Some (v\<lparr>fb := m\<rparr>)" "length m = 4001" "\<forall>j < 25. screen m ! j = blank_row"
    using cls_loop_spec [OF assms(2), of 0 25] by auto
  have "screen m = replicate 25 blank_row"
    using m(3) by (intro nth_equalityI) simp_all
  then show ?thesis
    using m(1,2) assms(1) by (simp add: cls_def ROW_CNT_def shows_as_def)
qed

lemma text_shows:
  assumes "vga_inited v" and "length (fb v) = 4001" and "unat (cx v) < 80" and "unat (cy v) < 25"
  shows "\<exists>v'. do { v \<leftarrow> fb_put (unat (cy v)) (unat (cx v)) c v; let v = v\<lparr>cx := cx v + 1\<rparr>; if COL_CNT \<le> cx v then newline v else Some v } = Some v' \<and>
    shows_as v' (term_wrap ((screen (fb v))[unat (cy v) := (screen (fb v) ! unat (cy v))[unat (cx v) := (c, 7)]], unat (cx v) + 1, unat (cy v)))"
proof -
  obtain m where m: "fb_put (unat (cy v)) (unat (cx v)) c v = Some (v\<lparr>fb := m\<rparr>)" "length m = 4001"
    "\<And>y' x'. y' < 25 \<Longrightarrow> x' < 80 \<Longrightarrow> glyph_at m y' x' = (if y' = unat (cy v) \<and> x' = unat (cx v) then (c, 7) else glyph_at (fb v) y' x')"
    using fb_put_spec [OF assms(2,4,3), of c] by blast
  have s: "screen m = (screen (fb v))[unat (cy v) := (screen (fb v) ! unat (cy v))[unat (cx v) := (c, 7)]]"
    by (rule screen_eqI) (use m(3) assms in \<open>auto simp: nth_list_update\<close>)
  have "unat (cx v + 1) = unat (cx v) + 1"
    using assms(3) by (subst unat_add_small) simp_all
  then show ?thesis
    using wrap_shows [of "v\<lparr>fb := m, cx := cx v + 1\<rparr>"] assms m(1,2)
    by (cases "COL_CNT \<le> cx v + 1") (simp_all add: Let_def s del: term_wrap.simps)
qed

lemma tab_stop:
  fixes x :: u32
  assumes x: "unat x < 80"
  shows "unat (ROUND_UP (x + 1) 8) = 8 * (unat x div 8 + 1)"
proof -
  have e: "x + 1 + 8 - 1 = x + 8"
    by (rule trans [OF _ add_diff_cancel_right' [of "x + 8" 1]]) (simp only: add.assoc add.commute [of 1 8])
  have "unat (x + 8) = unat x + 8"
    using x by (subst unat_add_small) simp_all
  then have d: "unat ((x + 8) div 8) = unat x div 8 + 1"
    by (simp add: unat_div)
  have "unat x div 8 < 10"
    using x by (simp add: div_less_iff_less_mult)
  then have "unat ((x + 8) div 8 * 8) = (unat x div 8 + 1) * 8"
    by (subst unat_mult_small) (simp_all only: d, simp_all)
  then show ?thesis
    unfolding ROUND_UP_def e by simp
qed

text \<open>The cases of \<^verbatim>\<open>vga_putc\<close>, once the cursor is known.\<close>
lemma putc_shows:
  assumes "vga_inited v" and "length (fb v) = 4001" and "unat (cx v) < 80" and "unat (cy v) < 25"
  shows "\<exists>v'. (if c = 10 then newline v else if c = 12 then cls v
      else if c = 8 then Some (if 0 < cx v then v\<lparr>cx := cx v - 1\<rparr> else v) else if c = 13 then Some (v\<lparr>cx := 0\<rparr>)
      else if c = 9 then do { let v = v\<lparr>cx := ROUND_UP (cx v + 1) 8\<rparr>; if COL_CNT \<le> cx v then newline v else Some v }
      else do { v \<leftarrow> fb_put (unat (cy v)) (unat (cx v)) (ucast c) v; let v = v\<lparr>cx := cx v + 1\<rparr>;
        if COL_CNT \<le> cx v then newline v else Some v }) = Some v' \<and>
    shows_as v' (term_putc c (screen (fb v), unat (cx v), unat (cy v)))"
proof -
  consider "c = 10" | "c = 12" | "c = 8" | "c = 13" | "c = 9" | "c \<notin> {8, 9, 10, 12, 13}"
    by auto
  then show ?thesis
  proof cases
    case 1
    then show ?thesis
      using newline_shows [OF assms(1,2,4), of "unat (cx v)"] by simp
  next
    case 2
    then show ?thesis
      using cls_shows [OF assms(1,2)] by simp
  next
    case 3
    have "unat (cx v - 1) = unat (cx v) - 1" if "0 < cx v"
      using that by (simp add: unat_minus_one word_gt_0)
    then show ?thesis
      using 3 assms by (auto simp: shows_as_def word_gt_0)
  next
    case 4
    then show ?thesis
      using assms by (simp add: shows_as_def)
  next
    case 5
    then show ?thesis
      using wrap_shows [of "v\<lparr>cx := ROUND_UP (cx v + 1) 8\<rparr>"] assms tab_stop [OF assms(3)] by (simp add: Let_def del: term_wrap.simps)
  next
    case 6
    then show ?thesis
      using text_shows [OF assms, of "ucast c"] by (simp del: term_wrap.simps)
  qed
qed

text \<open>\<^verbatim>\<open>vga_putc\<close> implements a terminal of 25 rows and 80 columns: it never leaves the frame buffer, every character has the effect it
  has on the terminal (new line, form feed, backspace, carriage return, tab, and all others as text), the cursor stays on
  the screen, and the hardware cursor is where the terminal's cursor is.\<close>
theorem vga_refines_terminal:
  assumes "vga_ok v"
  shows "\<exists>v'. vga_putc c v = Some v' \<and> vga_ok v' \<and> terminal_of v' = term_putc c (terminal_of v) \<and>
    (case terminal_of v' of (rows, x, y) \<Rightarrow> cursor_pos v' = x + 80 * y)"
proof -
  let ?i = "vga_init v"
  have ok: "length (fb ?i) = 4001" "unat (cx ?i) < 80" "unat (cy ?i) < 25"
    using assms by (simp_all add: vga_ok_def)
  obtain v' where v': "vga_putc c v = Some (move_cursor v')" "shows_as v' (term_putc c (terminal_of v))"
    using putc_shows [OF vga_init_simps(1) ok, of c] by (auto simp: vga_putc_def terminal_of_def Let_def)
  have t: "terminal_of (move_cursor v') = (screen (fb v'), unat (cx v'), unat (cy v'))" "vga_ok (move_cursor v')"
    "(screen (fb v'), unat (cx v'), unat (cy v')) = term_putc c (terminal_of v)"
    using v'(2) by (simp_all add: shows_as_def vga_ok_def terminal_of_def del: term_putc.simps)
  have "cursor_pos (move_cursor v') = unat (cx v') + 80 * unat (cy v')"
    using v'(2) by (intro move_cursor_pos) (simp_all add: shows_as_def)
  then have "case terminal_of (move_cursor v') of (rows, x, y) \<Rightarrow> cursor_pos (move_cursor v') = x + 80 * y"
    unfolding t(1) by simp
  moreover have "terminal_of (move_cursor v') = term_putc c (terminal_of v)"
    unfolding t(1) by (rule t(3))
  ultimately show ?thesis
    using v'(1) t(2) by (intro exI [of _ "move_cursor v'"] conjI)
qed

lemma glyph_at_blank: "y < 25 \<Longrightarrow> x < 80 \<Longrightarrow> glyph_at (replicate 4001 0) y x = (0, 0)"
  using cell_bound [of y x] by (simp add: glyph_at_def del: replicate.simps)

lemma screen_blank: "screen (replicate 4001 0) = replicate 25 (replicate 80 (0, 0))"
  by (rule screen_eqI) (simp_all add: glyph_at_blank del: replicate.simps)

theorem vga_refines_terminal_witness:
  "\<exists>v'. vga_putc 65 \<lparr>cx = 0, cy = 0, fb = replicate 4001 0, vga_inited = False, crtc = (\<lambda>_. 0)\<rparr> = Some v' \<and>
    terminal_of v' = term_putc 65 (replicate 25 (replicate 80 (0, 0)), 0, 0)"
proof -
  define v where "v = \<lparr>cx = 0, cy = 0, fb = replicate 4001 0, vga_inited = False, crtc = (\<lambda>_. 0)\<rparr>"
  have f: "fb v = replicate 4001 0"
    unfolding v_def by (rule vga.select_convs)
  have i: "\<not> vga_inited v" "crtc v = (\<lambda>_. 0)"
    unfolding v_def vga.select_convs by (rule not_False_eq_True [THEN iffD2], rule TrueI, rule refl)
  have c: "cx (vga_init v) = 0" "cy (vga_init v) = 0"
    by (simp_all add: vga_init_def find_cursor_def i)
  have "terminal_of v = (replicate 25 (replicate 80 (0, 0)), 0, 0)"
    unfolding terminal_of_def f c screen_blank by simp
  moreover have "vga_ok v"
    unfolding vga_ok_def f c length_replicate by simp
  ultimately show ?thesis
    using vga_refines_terminal [of v 65] unfolding v_def by (metis (no_types))
qed

end
