(* ===== verification/Spec2Isabelle.thy ===== *)
theory Spec2Isabelle
  imports Bitmap Klist_Sort Timer Filesys Hash Arith64 Stdlib Pagedir Loader Syscall Process Intq Rc4 Malloc Stdio
    Init Cmdline Vga
begin

text \<open>
  Verification of the Pintos kernel of this repository (\<^verbatim>\<open>src/linuxpintos/src\<close>, a 32-bit x86 teaching
  kernel with the course's extensions: sleeping threads, file descriptors, system calls, and waiting
  for child processes).

  \<^bold>\<open>The program and how its parts interact.\<close>  Linked lists, bitmaps, hash tables, strings, 64-bit division
  and the sorting and number routines (\<^verbatim>\<open>lib\<close>) are used everywhere.  The scheduler (\<^verbatim>\<open>threads/thread.c\<close>)
  runs threads from a ready list; semaphores, locks and condition variables (\<^verbatim>\<open>threads/synch.c\<close>) block
  and unblock them; the timer interrupt (\<^verbatim>\<open>devices/timer.c\<close>, \<^verbatim>\<open>threads/interrupt.c\<close>) preempts them and
  wakes sleepers.  The page allocator (\<^verbatim>\<open>threads/palloc.c\<close>) keeps two bitmaps of pages, page tables
  (\<^verbatim>\<open>userprog/pagedir.c\<close>) live in its pages, and the block allocator (\<^verbatim>\<open>threads/malloc.c\<close>) divides them
  into blocks.  The file system (\<^verbatim>\<open>filesys\<close>) keeps a bitmap of free sectors in
  a file of its own, inodes as runs of sectors, directories as files, on top of the disk
  (\<^verbatim>\<open>devices/disk.c\<close>).  The loader (\<^verbatim>\<open>userprog/process.c\<close>) reads a program through the file system into new
  pages and builds its stack; system calls (\<^verbatim>\<open>userprog/syscall.c\<close>) reach the file system through a
  descriptor table, and \<^verbatim>\<open>exec\<close>, \<^verbatim>\<open>wait\<close> and \<^verbatim>\<open>exit\<close> share a \<^verbatim>\<open>child_status\<close> between parent and child.

  \<^bold>\<open>Conventions\<close> (theory Pintos_Prelude).  An operation is a function into the option type and \<open>None\<close> is the
  end of the kernel: a failed \<^verbatim>\<open>ASSERT\<close>, a \<^verbatim>\<open>PANIC\<close>, or an access outside the modelled objects.  State is
  passed explicitly.  Integers keep their width where a wrap-around can be seen; file offsets are
  integers, and the one sum of the file system that can leave \<^verbatim>\<open>off_t\<close>, in \<^verbatim>\<open>bytes_to_sectors\<close>, wraps at 32 bits.  A theorem that an operation succeeds is stated as \<open>f x = Some y\<close>, never only under the
  assumption that it returns.

  \<^bold>\<open>Theories, code, and what is shown.\<close>

  \<^item> Bitmap (\<^verbatim>\<open>lib/kernel/bitmap.c\<close>): the array of 32-bit elements against a list of booleans;
    \<^verbatim>\<open>bitmap_scan_and_flip\<close> is first fit.  Allocator has the locales \<open>slot_allocator\<close> and \<open>range_allocator\<close>: no sequence of
    requests and releases panics or hands out a slot twice (a request that is refused and a request that panics are different
    results); interpreted on bitmaps and on the page allocator.
  \<^item> Klist, Klist_Spec, Klist_Sort (\<^verbatim>\<open>lib/kernel/list.c\<close>): doubly linked lists over a store of links against
    sequences, with frame conditions; the natural merge sort is stable and correct.  Order has the reference
    definitions and the locale \<open>list_less\<close> of comparison functions, Fifo the locale of a queue, interpreted on
    these lists and on the ring buffer of Intq.
  \<^item> Threads, Threads_Wf, Threads_Steps, Threads_Locks, Timer (\<^verbatim>\<open>threads/thread.c\<close>, \<^verbatim>\<open>threads/synch.c\<close>,
    \<^verbatim>\<open>threads/interrupt.c\<close>, \<^verbatim>\<open>devices/timer.c\<close>): a step relation \<open>kstep\<close> of the running thread's calls, cut where an
    interrupt may come in, and of timer interrupts.  Every reachable state has each ready thread once in the
    ready list and each blocked thread once in a wait list, and every lock free, held, or in the hands of one thread.
    The sleep queue stays in order.  The semaphore a thread sleeps on consists of zeros until its first \<^verbatim>\<open>timer_sleep\<close>
    initialises it, after the thread is in the queue: a tick in between panics on the first sleep, and on a later one the
    wake-up is lost for ever.
  \<^item> Disk, Inode, Files, Directory, Filesys (\<^verbatim>\<open>devices/disk.c\<close>, \<^verbatim>\<open>filesys/*.c\<close>): the file system down to the bytes of
    sectors and directory entries.  Reading and writing act on the contents of a file as a sequence of bytes,
    allocation is first fit and is recorded in the free map file, a directory refines a finite map from names to
    sectors; \<^verbatim>\<open>filesys_create\<close> is shown to leak sectors whenever the directory refuses the name.
  \<^item> Hash (\<^verbatim>\<open>lib/kernel/hash.c\<close>): insertion, deletion and lookup against a set of elements, and the termination and
    correctness of \<^verbatim>\<open>rehash\<close>; locale \<open>hash_order\<close> for the two callbacks, interpreted on integer keys.
  \<^item> Strings (\<^verbatim>\<open>lib/string.c\<close>), Heap and Stdlib (\<^verbatim>\<open>lib/stdlib.c\<close>; heap sort on bytes against heap sort on lists,
    locales \<open>compare_laws\<close> and \<open>comparator\<close>, interpreted on \<^verbatim>\<open>memcmp\<close>), Arith64 (\<^verbatim>\<open>lib/arithmetic.c\<close>), Rc4
    (\<^verbatim>\<open>lib/random.c\<close>), Intq (\<^verbatim>\<open>devices/intq.c\<close>).
  \<^item> Vaddr (\<^verbatim>\<open>threads/vaddr.h\<close>, \<^verbatim>\<open>threads/pte.h\<close>), Palloc (\<^verbatim>\<open>threads/palloc.c\<close>), Pagedir (\<^verbatim>\<open>userprog/pagedir.c\<close>): pages are
    handed out once, set-up makes two disjoint pools, and mapping or unmapping a page changes exactly one translation.
    The bitmap of a pool is a value and is not also written to the modelled memory.
  \<^item> Init and Cmdline (\<^verbatim>\<open>threads/init.c\<close>): \<^verbatim>\<open>paging_init\<close> maps exactly the memory there is, the kernel's text read-only and
    the rest writable; \<^verbatim>\<open>read_command_line\<close> finds the strings the loader left, \<^verbatim>\<open>parse_options\<close> interprets the options and \<^verbatim>\<open>run_actions\<close>
    runs the commands in order.  Vga (\<^verbatim>\<open>devices/vga.c\<close>): the display driver refines a terminal of 25 rows and 80 columns.
  \<^item> Blocks and Malloc (\<^verbatim>\<open>threads/malloc.c\<close>): arenas and big blocks in the pages of Palloc, their headers in the memory
    that clients write to.  Blocks has the locale \<open>block_allocator\<close>: to its clients an allocator is a collection of
    independent arrays; interpreted on \<^verbatim>\<open>malloc\<close> and \<^verbatim>\<open>free\<close>.  \<^verbatim>\<open>realloc\<close> moves the contents of a block; requests
    near 4 GB are shown to wrap around.  Free lists are sequences of addresses, as Klist_Spec justifies; the links
    inside free blocks are not written to memory.
  \<^item> Stdio (\<^verbatim>\<open>lib/stdio.c\<close>): formatted output.  An integer conversion stays in its buffer, denotes its value and has
    the padding its flags ask for, also when \<^verbatim>\<open>MINUS\<close> and \<^verbatim>\<open>ZERO\<close> are both set; \<^verbatim>\<open>atoi\<close> reads back what \<^verbatim>\<open>%d\<close> prints; \<^verbatim>\<open>vsnprintf\<close> keeps to the size of its buffer; \<^verbatim>\<open>hex_dump\<close> returns
    and reads only its block; a format that ends in a percent sign is read past its end.
  \<^item> Loader (\<^verbatim>\<open>userprog/process.c\<close>): a validated segment is inside user space, loading it ends, and the initial
    stack has the layout a C program expects, but for the sentinel of \<^verbatim>\<open>argv\<close>, which is uninitialised.
  \<^item> Syscall (\<^verbatim>\<open>userprog/syscall.c\<close>): the dispatcher with its pointer checks, and the descriptor table.  The handler reads
    and writes a program's memory through the page tables, present and writable bits included; the missing checks are shown
    by calls that overwrite kernel memory or fail an assertion.
  \<^item> Process (\<^verbatim>\<open>userprog/process.c\<close>): parents and children as a step relation \<open>pstep\<close>; a step may be a \<^verbatim>\<open>process_execute\<close> whose
    \<^verbatim>\<open>thread_create\<close> fails.  In every reachable state the reference counts are exact, and a parent waits for a child that will not
    signal only after such a failure, and then for ever; the race of exit with wait frees the structure
    under the child in every state in which it can occur, the one with a failed load in a reachable state.

  \<^bold>\<open>Loops and bounds.\<close>  Loops that are bounded by their data are recursive functions with a termination proof.  Loops over
  links, bits or words that need not end are \<open>partial_function (option)\<close>, so that running forever is \<open>None\<close> too:
  the loops of \<^verbatim>\<open>list.c\<close>, \<^verbatim>\<open>bitmap_scan\<close>, \<^verbatim>\<open>rehash\<close>, \<^verbatim>\<open>heapify\<close>, \<^verbatim>\<open>load_segment\<close>, \<^verbatim>\<open>malloc_init\<close>, the walk along a user string and
  \<^verbatim>\<open>timer_calibrate\<close>; the theorems about them show that they return.  No fuel is used.

  \<^bold>\<open>Parameters.\<close>  Whether an allocation succeeds (\<open>mallocs\<close> of the file system, an argument elsewhere), which fresh
  address a new \<^verbatim>\<open>child_status\<close> gets, the contents of uninitialised memory, callbacks, the keys typed at the console and the
  busy-wait test of \<^verbatim>\<open>timer_calibrate\<close> are arguments of the operations.

  \<^bold>\<open>Not modelled.\<close>  The order of the initialisers in \<^verbatim>\<open>main\<close>, assembly, descriptor tables, the interrupt controller, the
  ATA registers and other device ports, the serial and keyboard drivers and the messages printed: they are hardware access.
  Formatted output ends at the characters passed to the output callback.
  Singly linked and synchronised lists and the bounded buffer are not called by the kernel.  The user library, examples, tests
  and host utilities are not part of the kernel.  Locks inside the page and block allocators and the file system (which has
  none) are not modelled: their operations are atomic.  The components that call \<^verbatim>\<open>malloc\<close> take its success or failure as a
  parameter and do not run on top of Malloc.
\<close>

end
